(* ===== verification/NG_Prelude.thy ===== *)
theory NG_Prelude
  imports Main "HOL-Library.Word"
begin

text \<open>
  Prelude of the ngs3fs development: the error values, the part of the C and C++ standard
  library the sources use on bytes and strings (\<^verbatim>\<open>ctype.h\<close> in the C locale,
  \<^verbatim>\<open>std::string_view\<close>, \<^verbatim>\<open>std::from_chars\<close>), the named theorem
  collections of the development and the generic lemmas the components share.
\<close>

unbundle bit_operations_syntax

section \<open>Collections\<close>

named_theorems result_simps \<open>equations of the result monad\<close>
named_theorems ctype_defs \<open>definitions of the character classes\<close>
named_theorems crc_lin \<open>linearity of the CRC shift register over GF(2)\<close>
named_theorems entry_frame \<open>which fields of a cache entry an operation leaves alone\<close>

section \<open>Machine types\<close>

type_synonym u8 = "8 word"
type_synonym u32 = "32 word"
type_synonym u64 = "64 word"
type_synonym bytes = "8 word list"

text \<open>
  Where a component keeps its \<^verbatim>\<open>uint64_t\<close> and \<^verbatim>\<open>size_t\<close> values as
  \<^typ>\<open>nat\<close>, \<open>wrap64\<close> is written at every addition or product the source does
  not guard, so that the model wraps around where the program does.
\<close>

definition UINT64_MAX :: nat where
  "UINT64_MAX = 2 ^ 64 - 1"

definition UINT32_MAX :: nat where
  "UINT32_MAX = 2 ^ 32 - 1"

definition INT64_MAX :: nat where
  "INT64_MAX = 2 ^ 63 - 1"

definition wrap64 :: "nat \<Rightarrow> nat" where
  "wrap64 n = n mod 2 ^ 64"

lemma wrap64_id [simp]: "n < 2 ^ 64 \<Longrightarrow> wrap64 n = n"
  by (simp add: wrap64_def)

lemma wrap64_le_max [simp]: "n \<le> UINT64_MAX \<Longrightarrow> wrap64 n = n"
  by (simp add: wrap64_def UINT64_MAX_def)

lemma wrap64_bound [simp]: "wrap64 n < 2 ^ 64"
  by (simp add: wrap64_def)

section \<open>Exceptions as values\<close>

text \<open>
  The exceptions of the sources: \<^verbatim>\<open>std::system_error\<close> with its errno value, and
  the \<^verbatim>\<open>std::\<close> exceptions with their message.
\<close>

datatype cpp_error =
    SystemError nat string
  | RuntimeError string
  | LogicError string
  | InvalidArgument string
  | OverflowError string
  | OutOfRange string
  | LengthError string

type_synonym 'a result = "cpp_error + 'a"

definition EAGAIN :: nat where "EAGAIN = 11"
definition ENOSPC :: nat where "ENOSPC = 28"
definition ENAMETOOLONG :: nat where "ENAMETOOLONG = 36"
definition EOVERFLOW :: nat where "EOVERFLOW = 75"
definition ESTALE :: nat where "ESTALE = 116"
definition EDQUOT :: nat where "EDQUOT = 122"

fun ebind :: "'e + 'a \<Rightarrow> ('a \<Rightarrow> 'e + 'b) \<Rightarrow> 'e + 'b" where
  "ebind (Inl e) f = Inl e"
| "ebind (Inr x) f = f x"

lemma ebind_Inr_iff [result_simps]:
  "ebind r f = Inr y \<longleftrightarrow> (\<exists>x. r = Inr x \<and> f x = Inr y)"
  by (cases r) auto

lemma ebind_assoc: "ebind (ebind r f) g = ebind r (\<lambda>x. ebind (f x) g)"
  by (cases r) auto

section \<open>Character classes of the C locale\<close>

abbreviation byte_of :: "char \<Rightarrow> nat" where
  "byte_of c \<equiv> (of_char c :: nat)"

lemma byte_of_less [simp]: "byte_of c < 256"
  using of_char_mod_256 [of c, where 'a = nat] by (metis mod_less_divisor zero_less_numeral)

lemma byte_of_eq_iff: "byte_of c = byte_of d \<longleftrightarrow> c = d"
  by simp

definition isdigit :: "char \<Rightarrow> bool" where
  [ctype_defs]: "isdigit c \<longleftrightarrow> 48 \<le> byte_of c \<and> byte_of c \<le> 57"

definition isupper_c :: "char \<Rightarrow> bool" where
  [ctype_defs]: "isupper_c c \<longleftrightarrow> 65 \<le> byte_of c \<and> byte_of c \<le> 90"

definition islower_c :: "char \<Rightarrow> bool" where
  [ctype_defs]: "islower_c c \<longleftrightarrow> 97 \<le> byte_of c \<and> byte_of c \<le> 122"

definition isalnum :: "char \<Rightarrow> bool" where
  "isalnum c \<longleftrightarrow> isdigit c \<or> isupper_c c \<or> islower_c c"

definition isxdigit :: "char \<Rightarrow> bool" where
  "isxdigit c \<longleftrightarrow> isdigit c \<or> (65 \<le> byte_of c \<and> byte_of c \<le> 70)
     \<or> (97 \<le> byte_of c \<and> byte_of c \<le> 102)"

definition isspace :: "char \<Rightarrow> bool" where
  [ctype_defs]: "isspace c \<longleftrightarrow> byte_of c = 32 \<or> (9 \<le> byte_of c \<and> byte_of c \<le> 13)"

definition tolower :: "char \<Rightarrow> char" where
  "tolower c = (if isupper_c c then char_of (byte_of c + 32) else c)"

lemma byte_of_tolower:
  "byte_of (tolower c) = (if isupper_c c then byte_of c + 32 else byte_of c)"
  by (auto simp: tolower_def isupper_c_def)

lemma tolower_idem [simp]: "tolower (tolower c) = tolower c"
  using byte_of_tolower [of c] byte_of_tolower [of "tolower c"]
  by (auto simp: isupper_c_def split: if_splits) (metis of_char_eq_iff)+

section \<open>String views\<close>

text \<open>\<^verbatim>\<open>find(c, from)\<close>: the first index not before \<open>from\<close> that holds \<open>c\<close>.\<close>

fun find_char_from :: "nat \<Rightarrow> char \<Rightarrow> string \<Rightarrow> nat option" where
  "find_char_from i c [] = None"
| "find_char_from i c (x # xs) = (if x = c then Some i else find_char_from (Suc i) c xs)"

definition find_char :: "char \<Rightarrow> nat \<Rightarrow> string \<Rightarrow> nat option" where
  "find_char c from s = find_char_from from c (drop from s)"

definition starts_with :: "string \<Rightarrow> string \<Rightarrow> bool" where
  "starts_with s p \<longleftrightarrow> take (length p) s = p"

definition substr :: "string \<Rightarrow> nat \<Rightarrow> nat \<Rightarrow> string" where
  "substr s pos n = take n (drop pos s)"

lemma starts_with_append [simp]: "starts_with (p @ s) p"
  by (simp add: starts_with_def)

lemma starts_withD: "starts_with s p \<Longrightarrow> s = p @ drop (length p) s"
  by (metis append_take_drop_id starts_with_def)

lemma starts_with_iff: "starts_with s p \<longleftrightarrow> (\<exists>t. s = p @ t)"
  by (auto dest: starts_withD)

lemma find_char_from_None: "find_char_from i c s = None \<longleftrightarrow> c \<notin> set s"
  by (induction s arbitrary: i) auto

lemma find_char_from_Some:
  "find_char_from i c s = Some k \<longleftrightarrow>
     (\<exists>u v. s = u @ c # v \<and> c \<notin> set u \<and> k = i + length u)"
proof (induction s arbitrary: i)
  case Nil
  then show ?case by simp
next
  case (Cons x xs)
  show ?case
  proof (cases "x = c")
    case True
    then show ?thesis by (auto simp: Cons_eq_append_conv)
  next
    case False
    have "(\<exists>u v. x # xs = u @ c # v \<and> c \<notin> set u \<and> k = i + length u) \<longleftrightarrow>
          (\<exists>u v. xs = u @ c # v \<and> c \<notin> set u \<and> k = Suc i + length u)" (is "?L \<longleftrightarrow> ?R")
    proof
      assume ?L
      then obtain u v where u: "x # xs = u @ c # v" "c \<notin> set u" "k = i + length u" by blast
      then obtain u' where "u = x # u'" using False by (cases u) auto
      with u show ?R by auto
    next
      assume ?R
      then obtain u v where "xs = u @ c # v" "c \<notin> set u" "k = Suc i + length u" by blast
      then have "x # xs = (x # u) @ c # v \<and> c \<notin> set (x # u) \<and> k = i + length (x # u)"
        using False by simp
      then show ?L by blast
    qed
    then show ?thesis using False by (simp add: Cons.IH)
  qed
qed

lemma find_char_None: "find_char c from s = None \<longleftrightarrow> c \<notin> set (drop from s)"
  by (simp add: find_char_def find_char_from_None)

lemma find_char_0_Some:
  "find_char c 0 s = Some k \<longleftrightarrow> (\<exists>u v. s = u @ c # v \<and> c \<notin> set u \<and> k = length u)"
  by (simp add: find_char_def find_char_from_Some)

text \<open>Both loops of the trimming idiom: white space off the front, then off the back.\<close>

definition trim :: "string \<Rightarrow> string" where
  "trim s = rev (dropWhile isspace (rev (dropWhile isspace s)))"

lemma trim_ends:
  assumes "trim s \<noteq> []"
  shows "\<not> isspace (hd (trim s)) \<and> \<not> isspace (last (trim s))"
proof -
  let ?t = "dropWhile isspace s"
  let ?r = "dropWhile isspace (rev ?t)"
  have r: "?r \<noteq> []" using assms by (simp add: trim_def)
  then have last: "\<not> isspace (last (trim s))"
    by (metis hd_dropWhile last_rev trim_def)
  obtain u where u: "rev ?t = u @ ?r"
    by (metis takeWhile_dropWhile_id)
  then have t: "?t = rev ?r @ rev u" by (metis rev_append rev_rev_ident)
  have h: "hd ?t = hd (trim s)" and "?t \<noteq> []"
    using r by (metis t hd_append2 rev_is_Nil_conv trim_def, metis rev.simps(1) dropWhile.simps(1))
  then have "\<not> isspace (hd (trim s))" by (metis hd_dropWhile)
  with last show ?thesis by simp
qed

section \<open>Decimal numbers\<close>

definition digit_val :: "char \<Rightarrow> nat" where
  "digit_val c = byte_of c - 48"

text \<open>The accumulating loop \<^verbatim>\<open>value = value * 10 + (c - '0')\<close>.\<close>

definition decimal_value :: "string \<Rightarrow> nat" where
  "decimal_value s = foldl (\<lambda>v c. v * 10 + digit_val c) 0 s"

text \<open>
  \<^verbatim>\<open>std::from_chars\<close> for an unsigned type of \<open>w\<close> bits, base 10: the longest
  prefix of digits, an error when it is empty or its value does not fit; with the rest.
\<close>

definition from_chars :: "nat \<Rightarrow> string \<Rightarrow> (nat \<times> string) option" where
  "from_chars w s =
     (let ds = takeWhile isdigit s; v = decimal_value ds
      in if ds = [] \<or> v \<ge> 2 ^ w then None else Some (v, dropWhile isdigit s))"

text \<open>The idiom that also demands that every character was consumed.\<close>

definition parse_unsigned_all :: "nat \<Rightarrow> string \<Rightarrow> nat option" where
  "parse_unsigned_all w s =
     (case from_chars w s of None \<Rightarrow> None
      | Some (v, rest) \<Rightarrow> if rest = [] then Some v else None)"

definition decimal_string :: "nat \<Rightarrow> string \<Rightarrow> bool" where
  "decimal_string v s \<longleftrightarrow> s \<noteq> [] \<and> list_all isdigit s \<and> decimal_value s = v"

lemma parse_unsigned_all_Some:
  "parse_unsigned_all w s = Some v \<longleftrightarrow> decimal_string v s \<and> v < 2 ^ w"
proof -
  show ?thesis
  proof (cases "\<forall>x\<in>set s. isdigit x")
    case True
    then have tk: "takeWhile isdigit s = s" and dr: "dropWhile isdigit s = []"
      by simp_all
    show ?thesis
      unfolding parse_unsigned_all_def from_chars_def Let_def decimal_string_def tk dr
      using True by (auto simp: list_all_iff)
  next
    case False
    then have "dropWhile isdigit s \<noteq> []" by auto
    with False show ?thesis
      by (auto simp: parse_unsigned_all_def from_chars_def Let_def decimal_string_def list_all_iff)
  qed
qed

text \<open>\<^verbatim>\<open>std::to_string\<close> of an unsigned value.\<close>

fun to_string :: "nat \<Rightarrow> string" where
  "to_string n =
     (if n < 10 then [char_of (48 + n)] else to_string (n div 10) @ [char_of (48 + n mod 10)])"

declare to_string.simps [simp del]

lemma byte_of_digit: "n < 10 \<Longrightarrow> byte_of (char_of (48 + n)) = 48 + n"
  by simp

lemma decimal_value_snoc: "decimal_value (s @ [c]) = decimal_value s * 10 + digit_val c"
  by (simp add: decimal_value_def)

lemma decimal_string_to_string: "decimal_string n (to_string n)"
proof (induction n rule: to_string.induct)
  case (1 n)
  show ?case
  proof (cases "n < 10")
    case True
    then show ?thesis
      by (subst to_string.simps)
         (simp add: decimal_string_def decimal_value_def digit_val_def isdigit_def)
  next
    case False
    moreover have "digit_val (char_of (48 + n mod 10)) = n mod 10"
      and "isdigit (char_of (48 + n mod 10))"
      using byte_of_digit [of "n mod 10"] by (simp_all add: digit_val_def isdigit_def)
    ultimately show ?thesis using "1.IH" [OF False]
      by (subst to_string.simps) (simp add: decimal_string_def decimal_value_snoc)
  qed
qed

section \<open>Searching\<close>

text \<open>\<^verbatim>\<open>std::find_if\<close>: the index of the first element with the property.\<close>

fun find_index :: "('a \<Rightarrow> bool) \<Rightarrow> 'a list \<Rightarrow> nat option" where
  "find_index P [] = None"
| "find_index P (x # xs) =
     (if P x then Some 0 else case find_index P xs of None \<Rightarrow> None | Some i \<Rightarrow> Some (Suc i))"

lemma find_index_Some:
  "find_index P xs = Some i \<Longrightarrow> i < length xs \<and> P (xs ! i) \<and> (\<forall>j<i. \<not> P (xs ! j))"
proof (induction xs arbitrary: i)
  case Nil
  then show ?case by simp
next
  case (Cons x xs)
  show ?case
  proof (cases "P x")
    case True
    then show ?thesis using Cons.prems by simp
  next
    case False
    then obtain k where k: "find_index P xs = Some k" "i = Suc k"
      using Cons.prems by (auto split: option.splits)
    have "\<not> P ((x # xs) ! j)" if "j < i" for j
      using that False Cons.IH [OF k(1)] k(2) by (cases j) auto
    then show ?thesis using Cons.IH [OF k(1)] k(2) by auto
  qed
qed

lemma find_index_update:
  "find_index P xs = Some i \<Longrightarrow> P y \<Longrightarrow> find_index P (xs[i := y]) = Some i"
  by (induction xs arbitrary: i) (auto split: option.splits if_splits)

lemma find_index_None: "find_index P xs = None \<longleftrightarrow> (\<forall>x\<in>set xs. \<not> P x)"
  by (induction xs) (auto split: option.splits)

text \<open>
  \<^verbatim>\<open>std::lower_bound\<close> by halving: on a sequence partitioned by the property, the
  first index where it fails.
\<close>

function lower_bound :: "('a \<Rightarrow> bool) \<Rightarrow> 'a list \<Rightarrow> nat \<Rightarrow> nat \<Rightarrow> nat" where
  "lower_bound P xs first n =
     (if n = 0 then first
      else let half = n div 2; mid = first + half
           in if P (xs ! mid) then lower_bound P xs (mid + 1) (n - half - 1)
              else lower_bound P xs first half)"
  by pat_completeness auto
termination by (relation "measure (\<lambda>(P, xs, first, n). n)") auto

declare lower_bound.simps [simp del]

lemma lower_bound_partition:
  assumes mono: "\<And>i j. i \<le> j \<Longrightarrow> j < m \<Longrightarrow> P (xs ! j) \<Longrightarrow> P (xs ! i)"
  shows "first + n \<le> m \<Longrightarrow>
    first \<le> lower_bound P xs first n \<and> lower_bound P xs first n \<le> first + n \<and>
    (\<forall>i. first \<le> i \<and> i < first + n \<longrightarrow> (P (xs ! i) \<longleftrightarrow> i < lower_bound P xs first n))"
proof (induction n arbitrary: first rule: less_induct)
  case (less n)
  show ?case
  proof (cases "n = 0")
    case True
    then show ?thesis by (auto simp: lower_bound.simps)
  next
    case False
    define h where "h = n div 2"
    have h: "h < n" using False by (simp add: h_def)
    show ?thesis
    proof (cases "P (xs ! (first + h))")
      case True
      let ?k = "lower_bound P xs (first + h + 1) (n - h - 1)"
      have k: "lower_bound P xs first n = ?k"
        using True False by (subst lower_bound.simps) (simp add: Let_def h_def)
      have IH: "first + h + 1 \<le> ?k" "?k \<le> first + h + 1 + (n - h - 1)"
        "\<And>i. first + h + 1 \<le> i \<Longrightarrow> i < first + h + 1 + (n - h - 1) \<Longrightarrow> P (xs ! i) \<longleftrightarrow> i < ?k"
        using less.IH [of "n - h - 1" "first + h + 1"] less.prems h by auto
      have "P (xs ! i) \<longleftrightarrow> i < ?k" if "first \<le> i" "i < first + n" for i
      proof (cases "i \<le> first + h")
        case True
        then show ?thesis using mono [OF True] \<open>P (xs ! (first + h))\<close> less.prems h IH(1) by auto
      next
        case False
        then show ?thesis using IH(3) [of i] that h by simp
      qed
      then show ?thesis unfolding k using IH(1,2) h by auto
    next
      case nP: False
      let ?k = "lower_bound P xs first h"
      have k: "lower_bound P xs first n = ?k"
        using nP False by (subst lower_bound.simps) (simp add: Let_def h_def)
      have IH: "first \<le> ?k" "?k \<le> first + h"
        "\<And>i. first \<le> i \<Longrightarrow> i < first + h \<Longrightarrow> P (xs ! i) \<longleftrightarrow> i < ?k"
        using less.IH [of h first] less.prems h by auto
      have "P (xs ! i) \<longleftrightarrow> i < ?k" if "first \<le> i" "i < first + n" for i
      proof (cases "i < first + h")
        case True
        then show ?thesis using IH(3) that by simp
      next
        case False
        then have "\<not> P (xs ! i)" using mono [of "first + h" i] nP that less.prems by auto
        then show ?thesis using False IH(2) by simp
      qed
      then show ?thesis unfolding k using IH(1,2) h by auto
    qed
  qed
qed

section \<open>Lists\<close>

lemma sum_list_update_nat:
  "i < length xs \<Longrightarrow> sum_list (xs[i := (v::nat)]) + xs ! i = sum_list xs + v"
  by (induction xs arbitrary: i) (auto split: nat.splits)

lemma Ball_set_conv_nth: "(\<forall>x\<in>set xs. P x) \<longleftrightarrow> (\<forall>i<length xs. P (xs ! i))"
  by (metis in_set_conv_nth)

text \<open>Updating and removing one element of a list whose keys are distinct.\<close>

lemma set_update_distinct:
  assumes "distinct (map f xs)" "i < length xs"
  shows "set (xs[i := y]) = insert y {x \<in> set xs. f x \<noteq> f (xs ! i)}"
proof -
  have "x \<in> set (xs[i := y]) \<longleftrightarrow> x = y \<or> (\<exists>j<length xs. j \<noteq> i \<and> x = xs ! j)" for x
    using assms(2) by (auto simp: in_set_conv_nth nth_list_update)
  moreover have "(\<exists>j<length xs. j \<noteq> i \<and> x = xs ! j) \<longleftrightarrow> x \<in> set xs \<and> f x \<noteq> f (xs ! i)" for x
    using assms nth_eq_iff_index_eq [OF assms(1)]
    by (auto simp: in_set_conv_nth)
  ultimately show ?thesis by auto
qed

definition remove_at :: "nat \<Rightarrow> 'a list \<Rightarrow> 'a list" where
  "remove_at i xs = take i xs @ drop (Suc i) xs"

lemma set_remove_distinct:
  assumes "distinct (map f xs)" "i < length xs"
  shows "set (remove_at i xs) = {x \<in> set xs. f x \<noteq> f (xs ! i)}"
proof -
  have xs: "xs = take i xs @ xs ! i # drop (Suc i) xs" by (rule id_take_nth_drop [OF assms(2)])
  have "distinct (map f (take i xs @ xs ! i # drop (Suc i) xs))" using assms(1) xs by simp
  then have "f (xs ! i) \<notin> f ` set (take i xs)" "f (xs ! i) \<notin> f ` set (drop (Suc i) xs)"
    by auto
  moreover have "set xs = insert (xs ! i) (set (take i xs) \<union> set (drop (Suc i) xs))"
    by (subst xs) simp
  ultimately have "x \<in> set (take i xs) \<or> x \<in> set (drop (Suc i) xs) \<longleftrightarrow>
      x \<in> set xs \<and> f x \<noteq> f (xs ! i)" for x
    by (metis Un_iff imageI insert_iff)
  then show ?thesis unfolding remove_at_def by (intro set_eqI) simp
qed

lemma distinct_remove_at:
  assumes "distinct (map f xs)"
  shows "distinct (map f (remove_at i xs))"
proof (cases "i < length xs")
  case True
  have xs: "xs = take i xs @ xs ! i # drop (Suc i) xs" by (rule id_take_nth_drop [OF True])
  have "distinct (map f (take i xs @ xs ! i # drop (Suc i) xs))" using assms xs by simp
  then show ?thesis unfolding remove_at_def by simp
next
  case False
  then show ?thesis using assms by (simp add: remove_at_def)
qed

lemma length_filter_update:
  assumes "i < length xs"
  shows "length (filter P (xs[i := y])) + (if P (xs ! i) then 1 else 0) =
    length (filter P xs) + (if P y then 1 else 0)"
proof -
  have xs: "xs = take i xs @ xs ! i # drop (Suc i) xs" by (rule id_take_nth_drop [OF assms])
  have "length (filter P xs) = length (filter P (take i xs)) + (if P (xs ! i) then 1 else 0) +
      length (filter P (drop (Suc i) xs))"
    by (subst xs) simp
  moreover have "xs[i := y] = take i xs @ y # drop (Suc i) xs"
    by (rule upd_conv_take_nth_drop [OF assms])
  ultimately show ?thesis by simp
qed

lemma length_filter_remove:
  assumes "i < length xs"
  shows "length (filter P (remove_at i xs)) + (if P (xs ! i) then 1 else 0) = length (filter P xs)"
proof -
  have xs: "xs = take i xs @ xs ! i # drop (Suc i) xs" by (rule id_take_nth_drop [OF assms])
  have "length (filter P xs) = length (filter P (take i xs)) + (if P (xs ! i) then 1 else 0) +
      length (filter P (drop (Suc i) xs))"
    by (subst xs) simp
  then show ?thesis by (simp add: remove_at_def)
qed

end
