(* ===== verification/Crc.thy ===== *)
theory Crc
  imports NG_Prelude
begin

text \<open>
  The CRC arithmetic of \<^verbatim>\<open>src/src/s3.cpp\<close>: the table-driven, eight-bytes-at-a-time
  updates of the 32-bit and 64-bit CRCs and the combination of two CRC64 values through
  matrices over GF(2). The lemmas relate every table entry to the bit-serial shift register,
  show that the sliced update computes the bytewise (and hence the bit-serial) CRC, and that
  \<open>combine_crc64\<close> turns the CRCs of two pieces into the CRC of their concatenation.
\<close>

section \<open>Tables\<close>

text \<open>
  One step of the inner loop of \<open>make_crc_tables\<close>:
  \<^verbatim>\<open>value = (value >> 1) ^ ((value & 1) ? polynomial : 0)\<close>.
\<close>

definition crc_bit :: "'a::len word \<Rightarrow> 'a word \<Rightarrow> 'a word" where
  "crc_bit polynomial value =
     drop_bit 1 value XOR (if value AND 1 \<noteq> 0 then polynomial else 0)"

text \<open>
  The static tables: row 0 by eight steps of \<open>crc_bit\<close>, every further row from the
  previous one. The arrays are represented by the function from slice and index to entry.
\<close>

fun make_crc_tables :: "'a::len word \<Rightarrow> nat \<Rightarrow> nat \<Rightarrow> 'a word" where
  "make_crc_tables polynomial 0 i = (crc_bit polynomial ^^ 8) (word_of_nat i)"
| "make_crc_tables polynomial (Suc sl) i =
     (let previous = make_crc_tables polynomial sl i
      in make_crc_tables polynomial 0 (unat (previous AND 0xff)) XOR drop_bit 8 previous)"

section \<open>Updates\<close>

definition load_le32 :: "bytes \<Rightarrow> u32" where
  "load_le32 data =
     ucast (data ! 0) OR push_bit 8 (ucast (data ! 1)) OR
     push_bit 16 (ucast (data ! 2)) OR push_bit 24 (ucast (data ! 3))"

definition load_le64 :: "bytes \<Rightarrow> u64" where
  "load_le64 data = ucast (load_le32 data) OR push_bit 32 (ucast (load_le32 (drop 4 data)))"

text \<open>The byte loop that ends both updates.\<close>

fun crc_bytewise :: "'a::len word \<Rightarrow> 'a word \<Rightarrow> bytes \<Rightarrow> 'a word" where
  "crc_bytewise polynomial crc [] = crc"
| "crc_bytewise polynomial crc (b # data) =
     crc_bytewise polynomial
       (make_crc_tables polynomial 0 (unat ((crc XOR ucast b) AND 0xff)) XOR drop_bit 8 crc) data"

text \<open>
  The body of the eight-byte loop of \<open>update_crc32\<close> and of \<open>update_crc64\<close>.
\<close>

definition crc32_slice8 :: "u32 \<Rightarrow> u32 \<Rightarrow> bytes \<Rightarrow> u32" where
  "crc32_slice8 polynomial crc data =
     (let value = crc XOR load_le32 data; tables = make_crc_tables polynomial
      in tables 7 (unat (value AND 0xff)) XOR
         tables 6 (unat (drop_bit 8 value AND 0xff)) XOR
         tables 5 (unat (drop_bit 16 value AND 0xff)) XOR
         tables 4 (unat (drop_bit 24 value)) XOR
         tables 3 (unat (data ! 4)) XOR
         tables 2 (unat (data ! 5)) XOR
         tables 1 (unat (data ! 6)) XOR
         tables 0 (unat (data ! 7)))"

definition crc64_slice8 :: "u64 \<Rightarrow> u64 \<Rightarrow> bytes \<Rightarrow> u64" where
  "crc64_slice8 polynomial crc data =
     (let value = crc XOR load_le64 data; tables = make_crc_tables polynomial
      in tables 7 (unat (value AND 0xff)) XOR
         tables 6 (unat (drop_bit 8 value AND 0xff)) XOR
         tables 5 (unat (drop_bit 16 value AND 0xff)) XOR
         tables 4 (unat (drop_bit 24 value AND 0xff)) XOR
         tables 3 (unat (drop_bit 32 value AND 0xff)) XOR
         tables 2 (unat (drop_bit 40 value AND 0xff)) XOR
         tables 1 (unat (drop_bit 48 value AND 0xff)) XOR
         tables 0 (unat (drop_bit 56 value)))"

function update_crc32 :: "u32 \<Rightarrow> u32 \<Rightarrow> bytes \<Rightarrow> u32" where
  "update_crc32 polynomial crc data =
     (if 8 \<le> length data
      then update_crc32 polynomial (crc32_slice8 polynomial crc data) (drop 8 data)
      else crc_bytewise polynomial crc data)"
  by pat_completeness auto
termination
  by (relation "measure (\<lambda>(p, c, data). length data)") auto

function update_crc64 :: "u64 \<Rightarrow> u64 \<Rightarrow> bytes \<Rightarrow> u64" where
  "update_crc64 polynomial crc data =
     (if 8 \<le> length data
      then update_crc64 polynomial (crc64_slice8 polynomial crc data) (drop 8 data)
      else crc_bytewise polynomial crc data)"
  by pat_completeness auto
termination
  by (relation "measure (\<lambda>(p, c, data). length data)") auto

declare update_crc32.simps [simp del] update_crc64.simps [simp del]

section \<open>Matrices over GF(2)\<close>

text \<open>
  \<open>gf2_matrix_times\<close>: the loop over the set bits of the vector. It ends when the vector
  is 0, after at most 64 shifts, and never reads past the 64 rows.
\<close>

function gf2_matrix_times_loop :: "(nat \<Rightarrow> u64) \<Rightarrow> u64 \<Rightarrow> u64 \<Rightarrow> nat \<Rightarrow> u64" where
  "gf2_matrix_times_loop matrix acc vector row =
     (if vector = 0 then acc
      else gf2_matrix_times_loop matrix
             (if vector AND 1 \<noteq> 0 then acc XOR matrix row else acc)
             (drop_bit 1 vector) (Suc row))"
  by pat_completeness auto
termination
proof (relation "measure (\<lambda>(m, s, v, b). unat v)")
  fix matrix :: "nat \<Rightarrow> u64" and acc vector :: u64 and row :: nat
  assume "vector \<noteq> 0"
  then have "unat vector \<noteq> 0" by (simp add: unat_eq_0)
  moreover have "unat (drop_bit 1 vector) = unat vector div 2"
    by (simp add: unat_div drop_bit_eq_div del: drop_bit_of_1)
  ultimately have "unat (drop_bit 1 vector) < unat vector" by linarith
  then show "((matrix, if vector AND 1 \<noteq> 0 then acc XOR matrix row else acc,
      drop_bit 1 vector, Suc row), matrix, acc, vector, row)
      \<in> measure (\<lambda>(m, s, v, b). unat v)"
    by simp
qed simp

declare gf2_matrix_times_loop.simps [simp del]

definition gf2_matrix_times :: "(nat \<Rightarrow> u64) \<Rightarrow> u64 \<Rightarrow> u64" where
  "gf2_matrix_times matrix vector = gf2_matrix_times_loop matrix 0 vector 0"

definition gf2_matrix_square :: "(nat \<Rightarrow> u64) \<Rightarrow> (nat \<Rightarrow> u64)" where
  "gf2_matrix_square matrix = (\<lambda>row. gf2_matrix_times matrix (matrix row))"

text \<open>The operator for one zero bit: row 0 the polynomial, row \<open>bit\<close> the bit below.\<close>

definition crc64_one_bit :: "u64 \<Rightarrow> nat \<Rightarrow> u64" where
  "crc64_one_bit polynomial row = (if row = 0 then polynomial else push_bit (row - 1) 1)"

text \<open>
  The \<^verbatim>\<open>do ... while\<close> loop of \<open>combine_crc64\<close>, one call per iteration; the
  counter is a nonzero \<^verbatim>\<open>uint64_t\<close> that is halved twice per iteration.
\<close>

function combine_crc64_loop :: "(nat \<Rightarrow> u64) \<Rightarrow> u64 \<Rightarrow> nat \<Rightarrow> u64" where
  "combine_crc64_loop odd_matrix first second_length =
     (let even_matrix = gf2_matrix_square odd_matrix;
          first1 = (if odd second_length then gf2_matrix_times even_matrix first else first);
          length1 = second_length div 2
      in if length1 = 0 then first1
         else let odd1 = gf2_matrix_square even_matrix;
                  first2 = (if odd length1 then gf2_matrix_times odd1 first1 else first1);
                  length2 = length1 div 2
              in if length2 \<noteq> 0 then combine_crc64_loop odd1 first2 length2 else first2)"
  by pat_completeness auto
termination
  by (relation "measure (\<lambda>(m, f, n). n)") auto

declare combine_crc64_loop.simps [simp del]


section \<open>Linear maps over GF(2)\<close>

text \<open>
  The contract the CRC components rely on: the shift register is linear over GF(2). What
  follows from it alone is proved once here.
\<close>

locale gf2_linear =
  fixes f :: "'a::len word \<Rightarrow> 'a word"
  assumes lin: "f (x XOR y) = f x XOR f y"
begin

lemma lin_zero: "f 0 = 0"
  using lin [of 0 0] by simp

lemma pow_lin: "(f ^^ n) (x XOR y) = (f ^^ n) x XOR (f ^^ n) y"
  by (induction n) (simp_all add: lin)

lemma pow_zero: "(f ^^ n) 0 = 0"
  by (induction n) (simp_all add: lin_zero)

text \<open>A fold of linear steps with inputs is affine in its start value.\<close>

lemma foldl_affine:
  "foldl (\<lambda>c b. (f ^^ m) (c XOR g b)) (x XOR y) bs =
     foldl (\<lambda>c b. (f ^^ m) (c XOR g b)) x bs XOR (f ^^ (m * length bs)) y"
proof (induction bs arbitrary: x y)
  case Nil
  then show ?case by simp
next
  case (Cons b bs)
  have "(f ^^ m) ((x XOR y) XOR g b) = (f ^^ m) (x XOR g b) XOR (f ^^ m) y"
    by (simp add: pow_lin ac_simps)
  then have "foldl (\<lambda>c b. (f ^^ m) (c XOR g b)) (x XOR y) (b # bs) =
      foldl (\<lambda>c b. (f ^^ m) (c XOR g b)) ((f ^^ m) (x XOR g b)) bs
        XOR (f ^^ (m * length bs)) ((f ^^ m) y)"
    by (simp add: Cons.IH)
  also have "(f ^^ (m * length bs)) ((f ^^ m) y) = (f ^^ (m * length (b # bs))) y"
    by (simp add: funpow_add add.commute [of m])
  finally show ?case by simp
qed

end

lemma and_one_nonzero_iff: "(x :: 'a::len word) AND 1 \<noteq> 0 \<longleftrightarrow> bit x 0"
  by (simp add: and_one_eq bit_0 odd_iff_mod_2_eq_one)

lemma crc_bit_xor [crc_lin]: "crc_bit p (x XOR y) = crc_bit p x XOR crc_bit p y"
  unfolding crc_bit_def and_one_nonzero_iff
  by (simp add: bit_xor_iff ac_simps)

interpretation crc: gf2_linear "crc_bit p" for p
  by unfold_locales (rule crc_bit_xor)

section \<open>The shift register and the tables\<close>

abbreviation crc_shift :: "'a::len word \<Rightarrow> nat \<Rightarrow> 'a word \<Rightarrow> 'a word" where
  "crc_shift p n \<equiv> crc_bit p ^^ n"

text \<open>The reference: eight steps of the bit-serial register per byte.\<close>

definition crc_bitwise :: "'a::len word \<Rightarrow> 'a word \<Rightarrow> bytes \<Rightarrow> 'a word" where
  "crc_bitwise p crc bs = foldl (\<lambda>c b. crc_shift p 8 (c XOR ucast b)) crc bs"

lemma crc_shift_low_zero:
  "(\<forall>i<n. \<not> bit v i) \<Longrightarrow> crc_shift p n v = drop_bit n v"
proof (induction n arbitrary: v)
  case 0
  then show ?case by simp
next
  case (Suc n)
  have "crc_bit p v = drop_bit 1 v"
    using Suc.prems by (simp add: crc_bit_def and_one_nonzero_iff)
  moreover have "crc_shift p n (drop_bit 1 v) = drop_bit n (drop_bit 1 v)"
    using Suc.prems by (intro Suc.IH) (auto simp: bit_simps)
  ultimately show ?case
    by (simp only: funpow_Suc_right o_apply drop_bit_drop_bit) simp
qed

lemma crc_shift_add: "crc_shift p (m + n) v = crc_shift p m (crc_shift p n v)"
  by (simp add: funpow_add)

lemma crc_shift_push:
  "drop_bit n (push_bit n b) = b \<Longrightarrow>
   crc_shift p n v XOR b = crc_shift p n (v XOR push_bit n b)"
  by (simp add: crc.pow_lin crc_shift_low_zero bit_push_bit_iff)

lemma word_low_byte_split:
  "(v :: 'a::len word) = (v AND 0xff) XOR push_bit 8 (drop_bit 8 v)"
proof (rule bit_word_eqI)
  fix n
  assume n: "n < LENGTH('a)"
  have ff: "(0xff :: 'a word) = mask 8" by (simp add: mask_eq_exp_minus_1)
  show "bit v n = bit ((v AND 0xff) XOR push_bit 8 (drop_bit 8 v)) n"
    unfolding ff using n by (auto simp: bit_simps)
qed

lemma crc_shift_byte:
  "crc_shift p 8 v = crc_shift p 8 (v AND 0xff) XOR drop_bit 8 v"
proof -
  have "crc_shift p 8 v = crc_shift p 8 (v AND 0xff) XOR crc_shift p 8 (push_bit 8 (drop_bit 8 v))"
    by (subst word_low_byte_split [of v]) (rule crc.pow_lin)
  also have "crc_shift p 8 (push_bit 8 (drop_bit 8 v)) = drop_bit 8 (push_bit 8 (drop_bit 8 v))"
    by (rule crc_shift_low_zero) (simp add: bit_push_bit_iff)
  also have "\<dots> = drop_bit 8 v"
    by (rule bit_word_eqI) (auto simp: bit_simps dest: bit_imp_le_length)
  finally show ?thesis .
qed

lemma make_crc_tables_shift:
  "make_crc_tables p sl i = crc_shift p (8 * Suc sl) (word_of_nat i)"
proof (induction sl)
  case 0
  then show ?case by simp
next
  case (Suc sl)
  let ?prev = "crc_shift p (8 * Suc sl) (word_of_nat i)"
  have "make_crc_tables p (Suc sl) i = crc_shift p 8 (?prev AND 0xff) XOR drop_bit 8 ?prev"
    by (simp add: Suc.IH Let_def del: funpow.simps)
  also have "\<dots> = crc_shift p 8 ?prev" by (rule crc_shift_byte [symmetric])
  also have "\<dots> = crc_shift p (8 * Suc (Suc sl)) (word_of_nat i)"
    by (simp only: crc_shift_add [symmetric]) simp
  finally show ?case .
qed

text \<open>Peeling one byte off the register: table \<open>k\<close> for the low byte, the rest shifted.\<close>

lemma crc_shift_peel:
  "crc_shift p (8 * Suc k) v =
     make_crc_tables p k (unat (v AND 0xff)) XOR crc_shift p (8 * k) (drop_bit 8 v)"
proof -
  have "crc_shift p (8 * Suc k) v = crc_shift p (8 * k) (crc_shift p 8 v)"
    by (simp only: crc_shift_add [symmetric]) (simp add: add.commute)
  also have "\<dots> = crc_shift p (8 * k) (crc_shift p 8 (v AND 0xff)) XOR crc_shift p (8 * k) (drop_bit 8 v)"
    by (subst crc_shift_byte) (rule crc.pow_lin)
  also have "crc_shift p (8 * k) (crc_shift p 8 (v AND 0xff)) = crc_shift p (8 * Suc k) (v AND 0xff)"
    by (simp only: crc_shift_add [symmetric]) (simp add: add.commute)
  finally show ?thesis by (simp add: make_crc_tables_shift del: funpow.simps)
qed


section \<open>The sliced update is the bit-serial CRC\<close>

lemma crc_bytewise_bitwise: "8 \<le> LENGTH('a) \<Longrightarrow>
  crc_bytewise (p :: 'a::len word) crc bs = crc_bitwise p crc bs"
proof (induction bs arbitrary: crc)
  case Nil
  then show ?case by (simp add: crc_bitwise_def)
next
  case (Cons b bs)
  have "drop_bit 8 (ucast b :: 'a word) = 0"
    by (rule bit_word_eqI) (auto simp: bit_simps dest: bit_imp_le_length)
  then have "make_crc_tables p 0 (unat ((crc XOR ucast b) AND 0xff)) XOR drop_bit 8 crc =
        crc_shift p 8 (crc XOR ucast b)"
    by (subst crc_shift_byte [of p "crc XOR ucast b"])
       (simp add: make_crc_tables_shift del: funpow.simps make_crc_tables.simps)
  then show ?case
    by (simp add: Cons.IH Cons.prems crc_bitwise_def del: funpow.simps make_crc_tables.simps)
qed

lemma crc_bitwise_append: "crc_bitwise p crc (xs @ ys) = crc_bitwise p (crc_bitwise p crc xs) ys"
  by (simp add: crc_bitwise_def)

lemma crc_bitwise_xor:
  "crc_bitwise p (x XOR y) bs = crc_bitwise p x bs XOR crc_shift p (8 * length bs) y"
  unfolding crc_bitwise_def by (rule crc.foldl_affine)

lemma load_le32_xor:
  "load_le32 (b0 # b1 # b2 # b3 # bs) =
     ((ucast b0 XOR push_bit 8 (ucast b1)) XOR push_bit 16 (ucast b2)) XOR push_bit 24 (ucast b3)"
  unfolding load_le32_def
  by (rule bit_word_eqI) (auto simp: bit_simps dest: bit_imp_le_length)

lemma ucast_push_byte:
  "k \<le> 24 \<Longrightarrow> (ucast (push_bit k (ucast (b :: u8) :: u32)) :: u64) = push_bit k (ucast b)"
  by (rule bit_word_eqI) (auto simp: bit_simps dest: bit_imp_le_length)

lemma ucast_ucast_byte: "(ucast (ucast (b :: u8) :: u32) :: u64) = ucast b"
  using ucast_push_byte [of 0 b] by simp

lemma join32_xor: "(ucast (x :: u32) :: u64) OR push_bit 32 y = ucast x XOR push_bit 32 y"
  by (rule bit_word_eqI) (auto simp: bit_simps dest: bit_imp_le_length)

lemma load_le64_xor:
  "load_le64 (b0 # b1 # b2 # b3 # b4 # b5 # b6 # b7 # bs) =
     ((((((ucast b0 XOR push_bit 8 (ucast b1)) XOR push_bit 16 (ucast b2))
       XOR push_bit 24 (ucast b3)) XOR push_bit 32 (ucast b4)) XOR push_bit 40 (ucast b5))
       XOR push_bit 48 (ucast b6)) XOR push_bit 56 (ucast b7)"
  unfolding load_le64_def join32_xor
  by (simp add: load_le32_xor unsigned_xor_eq ucast_push_byte ucast_ucast_byte xor.assoc)


lemma list8_cases:
  assumes "8 \<le> length (data :: 'b list)"
  obtains b0 b1 b2 b3 b4 b5 b6 b7 bs
  where "data = b0 # b1 # b2 # b3 # b4 # b5 # b6 # b7 # bs"
proof -
  obtain xs ys where "data = xs @ ys" "length xs = 8"
    using assms by (metis append_take_drop_id length_take min.absorb2)
  moreover have "\<exists>b0 b1 b2 b3 b4 b5 b6 b7. xs = [b0, b1, b2, b3, b4, b5, b6, b7]"
    using \<open>length xs = 8\<close> by (auto simp: length_Suc_conv numeral_eq_Suc)
  ultimately show thesis using that by auto
qed

text \<open>A byte shifted into an upper position comes back out unchanged.\<close>

lemma push_byte_back:
  "k + 8 \<le> LENGTH('a) \<Longrightarrow> drop_bit k (push_bit k (ucast (b :: u8) :: 'a::len word)) = ucast b"
  by (rule bit_word_eqI) (auto simp: bit_simps dest: bit_imp_le_length)

lemma crc_shift_absorb:
  "k + 8 \<le> LENGTH('a) \<Longrightarrow>
   crc_shift p 8 (crc_shift p k v XOR (ucast (b :: u8) :: 'a::len word)) =
   crc_shift p (8 + k) (v XOR push_bit k (ucast b))"
  by (simp only: crc_shift_push [OF push_byte_back] crc_shift_add)

lemma table_of_byte:
  "8 \<le> LENGTH('a) \<Longrightarrow>
   make_crc_tables (p :: 'a::len word) k (unat (b :: u8)) = crc_shift p (8 * Suc k) (ucast b)"
  unfolding make_crc_tables_shift by (simp add: unsigned_of_nat [symmetric] del: funpow.simps)


lemma drop_bit_top_byte:
  "k + 8 = LENGTH('a) \<Longrightarrow> drop_bit k (v :: 'a::len word) AND 0xff = drop_bit k v"
proof -
  assume k: "k + 8 = LENGTH('a)"
  have ff: "(0xff :: 'a word) = mask 8" by (simp add: mask_eq_exp_minus_1)
  show ?thesis unfolding ff using k
    by (intro bit_word_eqI) (auto simp: bit_simps dest: bit_imp_le_length)
qed

lemma drop_bit_whole: "drop_bit (LENGTH('a)) (v :: 'a::len word) = 0"
  by (rule bit_word_eqI) (auto simp: bit_simps dest: bit_imp_le_length)

lemma crc32_slice8_bitwise:
  assumes "data = b0 # b1 # b2 # b3 # b4 # b5 # b6 # b7 # bs"
  shows "crc32_slice8 p crc data = crc_bitwise p crc [b0, b1, b2, b3, b4, b5, b6, b7]"
proof -
  let ?v = "crc XOR load_le32 data"
  have top: "drop_bit 24 ?v AND 0xff = drop_bit 24 ?v" and z: "drop_bit 32 ?v = 0"
    using drop_bit_top_byte [of 24 ?v] drop_bit_whole [of ?v] by simp_all
  have "crc_shift p 64 ?v =
      make_crc_tables p 7 (unat (?v AND 0xff)) XOR
      make_crc_tables p 6 (unat (drop_bit 8 ?v AND 0xff)) XOR
      make_crc_tables p 5 (unat (drop_bit 16 ?v AND 0xff)) XOR
      make_crc_tables p 4 (unat (drop_bit 24 ?v))"
    using crc_shift_peel [of 7 p ?v] crc_shift_peel [of 6 p "drop_bit 8 ?v"]
      crc_shift_peel [of 5 p "drop_bit 16 ?v"] crc_shift_peel [of 4 p "drop_bit 24 ?v"]
    by (simp add: drop_bit_drop_bit top z crc.pow_zero xor.assoc
          del: funpow.simps make_crc_tables.simps drop_bit_xor)
  then have "crc32_slice8 p crc data = crc_shift p 64 ?v XOR crc_shift p 32 (ucast b4) XOR
      crc_shift p 24 (ucast b5) XOR crc_shift p 16 (ucast b6) XOR crc_shift p 8 (ucast b7)"
    unfolding crc32_slice8_def Let_def assms
    by (simp add: table_of_byte xor.assoc del: funpow.simps make_crc_tables.simps drop_bit_xor)
  also have "crc_shift p 64 ?v = crc_shift p 32 (crc_shift p 8 (crc_shift p 8 (crc_shift p 8
      (crc_shift p 8 (crc XOR ucast b0) XOR ucast b1) XOR ucast b2) XOR ucast b3))"
    using crc_shift_absorb [of 8 p "crc XOR ucast b0" b1]
    by (simp add: assms load_le32_xor crc_shift_absorb xor.assoc crc_shift_add [symmetric]
          del: funpow.simps)
  finally show ?thesis
    by (simp add: crc_bitwise_def crc.pow_lin xor.assoc crc_shift_add [symmetric] del: funpow.simps)
qed

lemma crc64_slice8_bitwise:
  assumes "data = b0 # b1 # b2 # b3 # b4 # b5 # b6 # b7 # bs"
  shows "crc64_slice8 p crc data = crc_bitwise p crc [b0, b1, b2, b3, b4, b5, b6, b7]"
proof -
  let ?v = "crc XOR load_le64 data"
  have top: "drop_bit 56 ?v AND 0xff = drop_bit 56 ?v" and z: "drop_bit 64 ?v = 0"
    using drop_bit_top_byte [of 56 ?v] drop_bit_whole [of ?v] by simp_all
  have "crc_shift p 64 ?v = crc64_slice8 p crc data"
    unfolding crc64_slice8_def Let_def
    using crc_shift_peel [of 7 p ?v] crc_shift_peel [of 6 p "drop_bit 8 ?v"]
      crc_shift_peel [of 5 p "drop_bit 16 ?v"] crc_shift_peel [of 4 p "drop_bit 24 ?v"]
      crc_shift_peel [of 3 p "drop_bit 32 ?v"] crc_shift_peel [of 2 p "drop_bit 40 ?v"]
      crc_shift_peel [of 1 p "drop_bit 48 ?v"] crc_shift_peel [of 0 p "drop_bit 56 ?v"]
    by (simp add: drop_bit_drop_bit top z crc.pow_zero xor.assoc
          del: funpow.simps make_crc_tables.simps drop_bit_xor)
  moreover have "crc_shift p 64 ?v = crc_bitwise p crc [b0, b1, b2, b3, b4, b5, b6, b7]"
    by (simp add: assms crc_bitwise_def load_le64_xor crc_shift_absorb xor.assoc
          crc_shift_add [symmetric] del: funpow.simps)
  ultimately show ?thesis by simp
qed


lemma crc32_slice8_take:
  "8 \<le> length data \<Longrightarrow> crc32_slice8 p crc data = crc_bitwise p crc (take 8 data)"
  by (erule list8_cases) (simp add: crc32_slice8_bitwise)

lemma crc64_slice8_take:
  "8 \<le> length data \<Longrightarrow> crc64_slice8 p crc data = crc_bitwise p crc (take 8 data)"
  by (erule list8_cases) (simp add: crc64_slice8_bitwise)

lemma update_crc32_bitwise: "update_crc32 p crc data = crc_bitwise p crc data"
proof (induction p crc data rule: update_crc32.induct)
  case (1 p crc data)
  show ?case
  proof (cases "8 \<le> length data")
    case True
    have "update_crc32 p crc data = crc_bitwise p (crc32_slice8 p crc data) (drop 8 data)"
      using True by (subst update_crc32.simps) (simp add: "1.IH")
    also have "\<dots> = crc_bitwise p crc (take 8 data @ drop 8 data)"
      by (simp only: crc_bitwise_append crc32_slice8_take [OF True])
    finally show ?thesis by simp
  next
    case False
    then show ?thesis by (subst update_crc32.simps) (simp add: crc_bytewise_bitwise)
  qed
qed

lemma update_crc64_bitwise: "update_crc64 p crc data = crc_bitwise p crc data"
proof (induction p crc data rule: update_crc64.induct)
  case (1 p crc data)
  show ?case
  proof (cases "8 \<le> length data")
    case True
    have "update_crc64 p crc data = crc_bitwise p (crc64_slice8 p crc data) (drop 8 data)"
      using True by (subst update_crc64.simps) (simp add: "1.IH")
    also have "\<dots> = crc_bitwise p crc (take 8 data @ drop 8 data)"
      by (simp only: crc_bitwise_append crc64_slice8_take [OF True])
    finally show ?thesis by simp
  next
    case False
    then show ?thesis by (subst update_crc64.simps) (simp add: crc_bytewise_bitwise)
  qed
qed

section \<open>Matrices represent linear maps\<close>

definition represents :: "(nat \<Rightarrow> u64) \<Rightarrow> (u64 \<Rightarrow> u64) \<Rightarrow> bool" where
  "represents matrix f \<longleftrightarrow> (\<forall>row<64. matrix row = f (push_bit row 1))"

lemma word_low_bit_split: "(v :: 'a::len word) = (v AND 1) XOR push_bit 1 (drop_bit 1 v)"
  by (rule bit_word_eqI)
     (simp only: bit_xor_iff bit_and_iff bit_push_bit_iff bit_drop_bit_eq bit_1_iff, auto)

context gf2_linear
begin

lemma lin_low_bit:
  "f (push_bit row v) = (if v AND 1 \<noteq> 0 then f (push_bit row 1) else 0)
     XOR f (push_bit (Suc row) (drop_bit 1 v))"
proof -
  have "push_bit row v = push_bit row (v AND 1) XOR push_bit row (push_bit 1 (drop_bit 1 v))"
    by (metis push_bit_xor word_low_bit_split)
  also have "push_bit row (push_bit 1 (drop_bit 1 v)) = push_bit (Suc row) (drop_bit 1 v)"
    by (simp only: push_bit_push_bit) simp
  finally have "f (push_bit row v) =
      f (push_bit row (v AND 1)) XOR f (push_bit (Suc row) (drop_bit 1 v))"
    by (simp only: lin)
  moreover have "f (push_bit row (v AND 1)) = (if v AND 1 \<noteq> 0 then f (push_bit row 1) else 0)"
    by (cases "odd v") (simp_all add: and_one_eq lin_zero odd_iff_mod_2_eq_one)
  ultimately show ?thesis by (simp only:)
qed

lemma pow_gf2_linear: "gf2_linear (f ^^ n)"
  by unfold_locales (rule pow_lin)

end

lemma gf2_matrix_times_loop_eq:
  assumes "gf2_linear f" and "represents matrix f" and "\<And>n. bit v n \<Longrightarrow> n + row < 64"
  shows "gf2_matrix_times_loop matrix acc v row = acc XOR f (push_bit row v)"
  using assms(2,3)
proof (induction matrix acc v row rule: gf2_matrix_times_loop.induct)
  case (1 m acc v row)
  show ?case
  proof (cases "v = 0")
    case True
    then show ?thesis
      by (simp add: gf2_matrix_times_loop.simps gf2_linear.lin_zero [OF assms(1)])
  next
    case False
    then obtain n where "bit v n" by (metis bit_eqI bit_0_eq bot_apply bot_bool_def)
    then have row: "m row = f (push_bit row 1)"
      using "1.prems"(1) "1.prems"(2) [of n] by (simp add: represents_def)
    have fits: "n + Suc row < 64" if "bit (drop_bit 1 v) n" for n
      using "1.prems"(2) [of "Suc n"] that by (simp add: bit_simps)
    let ?acc = "if v AND 1 \<noteq> 0 then acc XOR m row else acc"
    have "gf2_matrix_times_loop m acc v row = gf2_matrix_times_loop m ?acc (drop_bit 1 v) (Suc row)"
      using False by (subst gf2_matrix_times_loop.simps) simp
    also have "\<dots> = ?acc XOR f (push_bit (Suc row) (drop_bit 1 v))"
      by (rule "1.IH" [OF False "1.prems"(1) fits])
    also have "?acc = acc XOR (if v AND 1 \<noteq> 0 then f (push_bit row 1) else 0)"
      by (simp only: row) simp
    finally show ?thesis
      by (simp only: gf2_linear.lin_low_bit [OF assms(1), of row v] xor.assoc)
  qed
qed

lemma gf2_matrix_times_eq:
  assumes "gf2_linear f" and "represents matrix f"
  shows "gf2_matrix_times matrix v = f v"
  unfolding gf2_matrix_times_def
  by (subst gf2_matrix_times_loop_eq [OF assms]) (auto dest: bit_imp_le_length)

lemma represents_square:
  assumes "gf2_linear f" and "represents matrix f"
  shows "represents (gf2_matrix_square matrix) (f ^^ 2)"
  using assms(2) by (simp add: represents_def gf2_matrix_square_def gf2_matrix_times_eq [OF assms]
    numeral_2_eq_2)

lemma crc64_one_bit_represents: "represents (crc64_one_bit p) (crc_bit p)"
  unfolding represents_def
proof (intro allI impI)
  fix row :: nat
  assume "row < 64"
  show "crc64_one_bit p row = crc_bit p (push_bit row 1)"
  proof (cases row)
    case 0
    then show ?thesis by (simp add: crc64_one_bit_def crc_bit_def)
  next
    case (Suc n)
    have "drop_bit 1 (push_bit (Suc n) (1 :: u64)) = push_bit n 1"
      using \<open>row < 64\<close> Suc by (intro bit_word_eqI) (auto simp: bit_simps)
    with Suc show ?thesis
      by (simp add: crc64_one_bit_def crc_bit_def and_one_nonzero_iff bit_simps)
  qed
qed

text \<open>Each iteration of the combination loop consumes two bits of the length.\<close>

lemma combine_crc64_loop_eq:
  "gf2_linear f \<Longrightarrow> represents odd_matrix f \<Longrightarrow> n \<noteq> 0 \<Longrightarrow>
   combine_crc64_loop odd_matrix first n = (f ^^ (2 * n)) first"
proof (induction odd_matrix first n arbitrary: f rule: combine_crc64_loop.induct)
  case (1 odd_matrix first n)
  let ?even = "gf2_matrix_square odd_matrix"
  let ?odd1 = "gf2_matrix_square ?even"
  have lin2: "gf2_linear (f ^^ 2)" and lin4: "gf2_linear (f ^^ 4)"
    using "1.prems"(1) by (rule gf2_linear.pow_gf2_linear)+
  have even: "represents ?even (f ^^ 2)"
    by (rule represents_square [OF "1.prems"(1,2)])
  have odd: "represents ?odd1 (f ^^ 4)"
    using represents_square [OF lin2 even] by (simp add: funpow_mult)
  let ?first1 = "(f ^^ (2 * (n mod 2))) first"
  have f1: "(if odd n then gf2_matrix_times ?even first else first) = ?first1"
    by (auto simp: gf2_matrix_times_eq [OF lin2 even] odd_iff_mod_2_eq_one)
  let ?m = "n div 2"
  let ?first2 = "(f ^^ (4 * (?m mod 2))) ?first1"
  have f2: "(if odd ?m then gf2_matrix_times ?odd1 ?first1 else ?first1) = ?first2"
    by (auto simp: gf2_matrix_times_eq [OF lin4 odd] odd_iff_mod_2_eq_one)
  have unfold: "combine_crc64_loop odd_matrix first n =
      (if ?m = 0 then ?first1
       else if ?m div 2 \<noteq> 0 then combine_crc64_loop ?odd1 ?first2 (?m div 2) else ?first2)"
    by (subst combine_crc64_loop.simps) (simp only: Let_def f1 f2)
  show ?case
  proof (cases "?m = 0")
    case True
    then have "n = 1" using "1.prems"(3) by simp
    with True show ?thesis unfolding unfold by simp
  next
    case m: False
    have first2: "?first2 = (f ^^ (4 * (?m mod 2) + 2 * (n mod 2))) first"
      by (simp add: funpow_add)
    show ?thesis
    proof (cases "?m div 2 = 0")
      case True
      then have sum: "4 * (?m mod 2) + 2 * (n mod 2) = 2 * n"
        using div_mult_mod_eq [of n 2] div_mult_mod_eq [of ?m 2] by linarith
      show ?thesis unfolding unfold first2 sum using m True by simp
    next
      case False
      have "combine_crc64_loop ?odd1 ?first2 (?m div 2) = ((f ^^ 4) ^^ (2 * (?m div 2))) ?first2"
        by (rule "1.IH" [OF refl f1 [symmetric] refl m refl f2 [symmetric] refl False lin4 odd False])
      also have "\<dots> = (f ^^ (8 * (?m div 2) + (4 * (?m mod 2) + 2 * (n mod 2)))) first"
        unfolding first2 by (simp only: funpow_mult funpow_add o_apply) simp
      also have "8 * (?m div 2) + (4 * (?m mod 2) + 2 * (n mod 2)) = 2 * n"
        using div_mult_mod_eq [of n 2] div_mult_mod_eq [of ?m 2] by linarith
      finally show ?thesis unfolding unfold using m False by (simp only: if_False not_False_eq_True if_True)
    qed
  qed
qed

text \<open>The combination, with the polynomial already selected.\<close>

definition combine_crc64_poly :: "u64 \<Rightarrow> u64 \<Rightarrow> u64 \<Rightarrow> nat \<Rightarrow> u64" where
  "combine_crc64_poly polynomial first second second_length =
     (let odd_matrix = crc64_one_bit polynomial;
          even_matrix = gf2_matrix_square odd_matrix;
          odd_matrix = gf2_matrix_square even_matrix
      in combine_crc64_loop odd_matrix first second_length XOR second)"

lemma combine_crc64_poly_eq:
  assumes "n \<noteq> 0"
  shows "combine_crc64_poly p first second n = crc_shift p (8 * n) first XOR second"
proof -
  have "represents (gf2_matrix_square (gf2_matrix_square (crc64_one_bit p))) (crc_shift p 4)"
    using represents_square [OF crc.pow_gf2_linear
        represents_square [OF crc.gf2_linear_axioms crc64_one_bit_represents]]
    by (simp add: funpow_mult)
  then have "combine_crc64_loop (gf2_matrix_square (gf2_matrix_square (crc64_one_bit p))) first n =
      (crc_shift p 4 ^^ (2 * n)) first"
    by (rule combine_crc64_loop_eq [OF crc.pow_gf2_linear _ assms])
  then show ?thesis
    by (simp add: combine_crc64_poly_def funpow_mult)
qed

text \<open>
  The CRC of a whole from the CRCs of its two pieces, with the all-ones start value and
  final complement that \<open>DataChecksum\<close> uses.
\<close>

definition crc64_of :: "u64 \<Rightarrow> bytes \<Rightarrow> u64" where
  "crc64_of p bs = crc_bitwise p (- 1) bs XOR - 1"

lemma crc64_of_append:
  "crc64_of p (xs @ ys) = crc_shift p (8 * length ys) (crc64_of p xs) XOR crc64_of p ys"
proof -
  have "crc_bitwise p (- 1) (xs @ ys) = crc_bitwise p (- 1 XOR crc64_of p xs) ys"
    by (simp add: crc_bitwise_append crc64_of_def)
  also have "\<dots> = crc_bitwise p (- 1) ys XOR crc_shift p (8 * length ys) (crc64_of p xs)"
    by (rule crc_bitwise_xor)
  finally show ?thesis by (simp add: crc64_of_def ac_simps)
qed

end
