(* ===== verification/Checksum.thy ===== *)
theory Checksum
  imports Crc
begin

text \<open>
  The checksum layer of \<^verbatim>\<open>src/src/s3.cpp\<close> (algorithm names, the Google hash header,
  \<open>DataChecksum\<close>, the combination of CRC64 values) with the parts of
  \<^verbatim>\<open>src/src/fuse.cpp\<close> that choose a checksum, verify an upload and put the checksum
  of a multipart object together. The digests of OpenSSL and xxHash and OpenSSL's base64
  encoder are parameters (\<open>digest_lib\<close>, \<open>encode_block\<close>).
\<close>

section \<open>Algorithms and their names\<close>

datatype ChecksumAlgorithm =
    CHECKSUM_AUTO | CHECKSUM_PROTOCOL_DEFAULT | CHECKSUM_NONE | CHECKSUM_CRC32
  | CHECKSUM_CRC32C | CHECKSUM_CRC64NVME | CHECKSUM_SHA1 | CHECKSUM_SHA256 | CHECKSUM_MD5
  | CHECKSUM_XXHASH64 | CHECKSUM_XXHASH3 | CHECKSUM_XXHASH128 | CHECKSUM_SHA512
  | CHECKSUM_CRC64XZ

fun ascii_equal_ignore_case :: "string \<Rightarrow> string \<Rightarrow> bool" where
  "ascii_equal_ignore_case [] [] = True"
| "ascii_equal_ignore_case (a # as) (b # bs) =
     (tolower a = tolower b \<and> ascii_equal_ignore_case as bs)"
| "ascii_equal_ignore_case _ _ = False"

definition checksum_algorithm_table :: "(string \<times> ChecksumAlgorithm) list" where
  "checksum_algorithm_table =
     [(''auto'', CHECKSUM_AUTO),
      (''default'', CHECKSUM_PROTOCOL_DEFAULT),
      (''protocol-default'', CHECKSUM_PROTOCOL_DEFAULT),
      (''none'', CHECKSUM_NONE),
      (''crc32'', CHECKSUM_CRC32),
      (''crc32c'', CHECKSUM_CRC32C),
      (''crc64nvme'', CHECKSUM_CRC64NVME),
      (''sha1'', CHECKSUM_SHA1),
      (''sha256'', CHECKSUM_SHA256),
      (''md5'', CHECKSUM_MD5),
      (''xxhash64'', CHECKSUM_XXHASH64),
      (''xxhash3'', CHECKSUM_XXHASH3),
      (''xxhash128'', CHECKSUM_XXHASH128),
      (''sha512'', CHECKSUM_SHA512),
      (''crc64xz'', CHECKSUM_CRC64XZ),
      (''crc64-xz'', CHECKSUM_CRC64XZ),
      (''oss-crc64'', CHECKSUM_CRC64XZ)]"

definition parse_checksum_algorithm :: "string \<Rightarrow> ChecksumAlgorithm option" where
  "parse_checksum_algorithm text =
     map_option snd
       (find (\<lambda>(name, value). ascii_equal_ignore_case text name) checksum_algorithm_table)"

fun checksum_option_name :: "ChecksumAlgorithm \<Rightarrow> string" where
  "checksum_option_name CHECKSUM_AUTO = ''auto''"
| "checksum_option_name CHECKSUM_PROTOCOL_DEFAULT = ''default''"
| "checksum_option_name CHECKSUM_NONE = ''none''"
| "checksum_option_name CHECKSUM_CRC32 = ''crc32''"
| "checksum_option_name CHECKSUM_CRC32C = ''crc32c''"
| "checksum_option_name CHECKSUM_CRC64NVME = ''crc64nvme''"
| "checksum_option_name CHECKSUM_SHA1 = ''sha1''"
| "checksum_option_name CHECKSUM_SHA256 = ''sha256''"
| "checksum_option_name CHECKSUM_MD5 = ''md5''"
| "checksum_option_name CHECKSUM_XXHASH64 = ''xxhash64''"
| "checksum_option_name CHECKSUM_XXHASH3 = ''xxhash3''"
| "checksum_option_name CHECKSUM_XXHASH128 = ''xxhash128''"
| "checksum_option_name CHECKSUM_SHA512 = ''sha512''"
| "checksum_option_name CHECKSUM_CRC64XZ = ''crc64xz''"

fun checksum_s3_name :: "ChecksumAlgorithm \<Rightarrow> string" where
  "checksum_s3_name CHECKSUM_CRC32 = ''CRC32''"
| "checksum_s3_name CHECKSUM_CRC32C = ''CRC32C''"
| "checksum_s3_name CHECKSUM_CRC64NVME = ''CRC64NVME''"
| "checksum_s3_name CHECKSUM_SHA1 = ''SHA1''"
| "checksum_s3_name CHECKSUM_SHA256 = ''SHA256''"
| "checksum_s3_name CHECKSUM_MD5 = ''MD5''"
| "checksum_s3_name CHECKSUM_XXHASH64 = ''XXHASH64''"
| "checksum_s3_name CHECKSUM_XXHASH3 = ''XXHASH3''"
| "checksum_s3_name CHECKSUM_XXHASH128 = ''XXHASH128''"
| "checksum_s3_name CHECKSUM_SHA512 = ''SHA512''"
| "checksum_s3_name _ = []"

fun checksum_header_name :: "ChecksumAlgorithm \<Rightarrow> string" where
  "checksum_header_name CHECKSUM_CRC32 = ''x-amz-checksum-crc32''"
| "checksum_header_name CHECKSUM_CRC32C = ''x-amz-checksum-crc32c''"
| "checksum_header_name CHECKSUM_CRC64NVME = ''x-amz-checksum-crc64nvme''"
| "checksum_header_name CHECKSUM_SHA1 = ''x-amz-checksum-sha1''"
| "checksum_header_name CHECKSUM_SHA256 = ''x-amz-checksum-sha256''"
| "checksum_header_name CHECKSUM_MD5 = ''x-amz-checksum-md5''"
| "checksum_header_name CHECKSUM_XXHASH64 = ''x-amz-checksum-xxhash64''"
| "checksum_header_name CHECKSUM_XXHASH3 = ''x-amz-checksum-xxhash3''"
| "checksum_header_name CHECKSUM_XXHASH128 = ''x-amz-checksum-xxhash128''"
| "checksum_header_name CHECKSUM_SHA512 = ''x-amz-checksum-sha512''"
| "checksum_header_name CHECKSUM_CRC64XZ = ''x-oss-hash-crc64ecma''"
| "checksum_header_name _ = []"

fun checksum_xml_name :: "ChecksumAlgorithm \<Rightarrow> string" where
  "checksum_xml_name CHECKSUM_CRC32 = ''ChecksumCRC32''"
| "checksum_xml_name CHECKSUM_CRC32C = ''ChecksumCRC32C''"
| "checksum_xml_name CHECKSUM_CRC64NVME = ''ChecksumCRC64NVME''"
| "checksum_xml_name CHECKSUM_SHA1 = ''ChecksumSHA1''"
| "checksum_xml_name CHECKSUM_SHA256 = ''ChecksumSHA256''"
| "checksum_xml_name CHECKSUM_MD5 = ''ChecksumMD5''"
| "checksum_xml_name CHECKSUM_XXHASH64 = ''ChecksumXXHASH64''"
| "checksum_xml_name CHECKSUM_XXHASH3 = ''ChecksumXXHASH3''"
| "checksum_xml_name CHECKSUM_XXHASH128 = ''ChecksumXXHASH128''"
| "checksum_xml_name CHECKSUM_SHA512 = ''ChecksumSHA512''"
| "checksum_xml_name _ = []"

definition checksum_is_s3 :: "ChecksumAlgorithm \<Rightarrow> bool" where
  "checksum_is_s3 algorithm \<longleftrightarrow> checksum_s3_name algorithm \<noteq> []"

definition checksum_multipart_type :: "ChecksumAlgorithm \<Rightarrow> string" where
  "checksum_multipart_type algorithm =
     (if algorithm = CHECKSUM_CRC64NVME then ''FULL_OBJECT''
      else if checksum_is_s3 algorithm then ''COMPOSITE'' else [])"

definition checksum_has_digest :: "ChecksumAlgorithm \<Rightarrow> bool" where
  "checksum_has_digest algorithm \<longleftrightarrow> checksum_is_s3 algorithm \<or> algorithm = CHECKSUM_CRC64XZ"

section \<open>The Google hash header\<close>

text \<open>
  The lambda \<open>find\<close> of \<open>gcs_checksum_from_header\<close>, on the part of the value
  from \<open>begin\<close> on: the first comma-separated item that starts with the name decides.
\<close>

function gcs_find :: "string \<Rightarrow> string \<Rightarrow> string option" where
  "gcs_find name value =
     (if value = [] then None
      else let item = trim (takeWhile (\<lambda>c. c \<noteq> CHR '','') value)
           in if starts_with item name
              then (let result = drop (length name) item
                    in if result = [] then None else Some result)
              else case dropWhile (\<lambda>c. c \<noteq> CHR '','') value of
                     [] \<Rightarrow> None
                   | _ # rest \<Rightarrow> gcs_find name rest)"
  by pat_completeness auto
termination
proof (relation "measure (\<lambda>(name, value). length value)")
  fix name s c :: string and x1 :: char and rest :: string
  assume "dropWhile (\<lambda>c. c \<noteq> CHR '','') s = x1 # rest"
  then have "length (x1 # rest) \<le> length s" by (metis length_dropWhile_le)
  then show "((name, rest), name, s) \<in> measure (\<lambda>(name, value). length value)"
    by simp
qed simp

declare gcs_find.simps [simp del]

definition gcs_checksum_from_header ::
  "string \<Rightarrow> ChecksumAlgorithm \<Rightarrow> (ChecksumAlgorithm \<times> string) option" where
  "gcs_checksum_from_header value preferred =
     (case (if preferred \<noteq> CHECKSUM_MD5 then gcs_find ''crc32c='' value else None) of
        Some expected \<Rightarrow> Some (CHECKSUM_CRC32C, expected)
      | None \<Rightarrow>
          (case gcs_find ''md5='' value of
             Some expected \<Rightarrow> Some (CHECKSUM_MD5, expected)
           | None \<Rightarrow>
               (case gcs_find ''crc32c='' value of
                  Some expected \<Rightarrow> Some (CHECKSUM_CRC32C, expected)
                | None \<Rightarrow> None)))"


section \<open>Checksum values\<close>

record ChecksumValue =
  base64 :: string
  integer :: u64

text \<open>
  \<open>encode_block\<close> stands for OpenSSL's \<^verbatim>\<open>EVP_EncodeBlock\<close>: the base64 text, or \<open>None\<close>
  for a negative result.
\<close>

definition checksum_base64 :: "(bytes \<Rightarrow> string option) \<Rightarrow> bytes \<Rightarrow> string result" where
  "checksum_base64 encode_block digest =
     (case encode_block digest of
        None \<Rightarrow> Inl (RuntimeError ''unable to encode checksum as base64'')
      | Some text \<Rightarrow> Inr text)"

text \<open>The bytes \<^verbatim>\<open>u_char(value >> (8 * (n - 1 - i)))\<close>, most significant first.\<close>

definition big_endian :: "nat \<Rightarrow> 'a::len word \<Rightarrow> bytes" where
  "big_endian n v = map (\<lambda>i. ucast (drop_bit (8 * (n - 1 - i)) v)) [0..<n]"

definition crc64_checksum_value :: "(bytes \<Rightarrow> string option) \<Rightarrow> u64 \<Rightarrow> ChecksumValue result" where
  "crc64_checksum_value encode_block v =
     ebind (checksum_base64 encode_block (big_endian 8 v))
       (\<lambda>text. Inr \<lparr>base64 = text, integer = v\<rparr>)"

definition crc64_polynomial :: "ChecksumAlgorithm \<Rightarrow> u64 option" where
  "crc64_polynomial algorithm =
     (case algorithm of
        CHECKSUM_CRC64NVME \<Rightarrow> Some 0x9a6c9329ac4bc9b5
      | CHECKSUM_CRC64XZ \<Rightarrow> Some 0xc96c5795d7870f42
      | _ \<Rightarrow> None)"

definition combine_crc64 ::
  "ChecksumAlgorithm \<Rightarrow> u64 \<Rightarrow> u64 \<Rightarrow> u64 \<Rightarrow> u64 result" where
  "combine_crc64 algorithm first second second_length =
     (if second_length = 0 then Inr first
      else case crc64_polynomial algorithm of
             None \<Rightarrow> Inl (InvalidArgument ''checksum is not a combinable CRC64'')
           | Some polynomial \<Rightarrow>
               Inr (combine_crc64_poly polynomial first second (unat second_length)))"

section \<open>DataChecksum\<close>

text \<open>
  \<open>digest_lib\<close> stands for the digests of OpenSSL and xxHash: the zeroed context, and per
  algorithm the init, update and final calls with their success flag.
\<close>

record 'c digest_lib =
  lib_zero :: 'c
  lib_init :: "ChecksumAlgorithm \<Rightarrow> 'c \<Rightarrow> bool \<times> 'c"
  lib_update :: "ChecksumAlgorithm \<Rightarrow> 'c \<Rightarrow> bytes \<Rightarrow> bool \<times> 'c"
  lib_final :: "ChecksumAlgorithm \<Rightarrow> 'c \<Rightarrow> bool \<times> bytes"

text \<open>
  The context storage is one aligned byte array read at the type the algorithm selects; the
  model has one field per type.
\<close>

record 'c DataChecksum =
  context_u32 :: u32
  context_u64 :: u64
  context_lib :: 'c
  dc_algorithm :: ChecksumAlgorithm
  dc_finished :: bool

definition lib_algorithm :: "ChecksumAlgorithm \<Rightarrow> bool" where
  "lib_algorithm algorithm \<longleftrightarrow> algorithm \<in>
     {CHECKSUM_MD5, CHECKSUM_SHA1, CHECKSUM_SHA256, CHECKSUM_SHA512,
      CHECKSUM_XXHASH64, CHECKSUM_XXHASH3, CHECKSUM_XXHASH128}"

definition openssl_algorithm :: "ChecksumAlgorithm \<Rightarrow> bool" where
  "openssl_algorithm algorithm \<longleftrightarrow> algorithm \<in>
     {CHECKSUM_MD5, CHECKSUM_SHA1, CHECKSUM_SHA256, CHECKSUM_SHA512}"

definition crc32_polynomial :: "ChecksumAlgorithm \<Rightarrow> u32 option" where
  "crc32_polynomial algorithm =
     (case algorithm of
        CHECKSUM_CRC32 \<Rightarrow> Some 0xedb88320
      | CHECKSUM_CRC32C \<Rightarrow> Some 0x82f63b78
      | _ \<Rightarrow> None)"

definition DataChecksum_new ::
  "'c digest_lib \<Rightarrow> ChecksumAlgorithm \<Rightarrow> 'c DataChecksum result" where
  "DataChecksum_new lib algorithm =
     (let self = \<lparr>context_u32 = 0, context_u64 = 0, context_lib = lib_zero lib,
                  dc_algorithm = algorithm, dc_finished = False\<rparr>
      in if crc32_polynomial algorithm \<noteq> None then Inr (self\<lparr>context_u32 := - 1\<rparr>)
         else if crc64_polynomial algorithm \<noteq> None then Inr (self\<lparr>context_u64 := - 1\<rparr>)
         else if lib_algorithm algorithm then
           (case lib_init lib algorithm (lib_zero lib) of
              (True, c) \<Rightarrow> Inr (self\<lparr>context_lib := c\<rparr>)
            | (False, c) \<Rightarrow> Inl (RuntimeError ''unable to initialize checksum''))
         else Inl (InvalidArgument ''checksum algorithm has no data digest''))"

definition DataChecksum_update ::
  "'c digest_lib \<Rightarrow> 'c DataChecksum \<Rightarrow> bytes \<Rightarrow> 'c DataChecksum result" where
  "DataChecksum_update lib self data =
     (if dc_finished self then Inl (LogicError ''checksum already finished'')
      else case crc32_polynomial (dc_algorithm self) of
        Some p \<Rightarrow> Inr (self\<lparr>context_u32 := update_crc32 p (context_u32 self) data\<rparr>)
      | None \<Rightarrow>
        (case crc64_polynomial (dc_algorithm self) of
           Some p \<Rightarrow> Inr (self\<lparr>context_u64 := update_crc64 p (context_u64 self) data\<rparr>)
         | None \<Rightarrow>
           if lib_algorithm (dc_algorithm self) then
             (case lib_update lib (dc_algorithm self) (context_lib self) data of
                (True, c) \<Rightarrow> Inr (self\<lparr>context_lib := c\<rparr>)
              | (False, c) \<Rightarrow> Inl (RuntimeError ''unable to update checksum''))
           else Inl (LogicError ''invalid checksum state'')))"

text \<open>
  \<open>finish\<close> marks the object finished before it computes the value; the first component
  is the object after the call. xxHash finals cannot fail.
\<close>

definition DataChecksum_finish ::
  "(bytes \<Rightarrow> string option) \<Rightarrow> 'c digest_lib \<Rightarrow> 'c DataChecksum
     \<Rightarrow> 'c DataChecksum \<times> ChecksumValue result" where
  "DataChecksum_finish encode_block lib self =
     (if dc_finished self then (self, Inl (LogicError ''checksum already finished''))
      else
        (self\<lparr>dc_finished := True\<rparr>,
         case crc32_polynomial (dc_algorithm self) of
           Some p \<Rightarrow>
             (let crc = context_u32 self XOR - 1
              in ebind (checksum_base64 encode_block (big_endian 4 crc))
                   (\<lambda>text. Inr \<lparr>base64 = text, integer = ucast crc\<rparr>))
         | None \<Rightarrow>
           (case crc64_polynomial (dc_algorithm self) of
              Some p \<Rightarrow> crc64_checksum_value encode_block (context_u64 self XOR - 1)
            | None \<Rightarrow>
              if lib_algorithm (dc_algorithm self) then
                (case lib_final lib (dc_algorithm self) (context_lib self) of
                   (ok, digest) \<Rightarrow>
                     if \<not> ok \<and> openssl_algorithm (dc_algorithm self)
                     then Inl (RuntimeError (''unable to finish '' @
                            checksum_s3_name (dc_algorithm self) @ '' checksum''))
                     else ebind (checksum_base64 encode_block digest)
                            (\<lambda>text. Inr \<lparr>base64 = text, integer = 0\<rparr>))
              else Inl (LogicError ''invalid checksum state''))))"

text \<open>A caller that feeds the data in pieces and finishes.\<close>

fun DataChecksum_updates ::
  "'c digest_lib \<Rightarrow> 'c DataChecksum \<Rightarrow> bytes list \<Rightarrow> 'c DataChecksum result" where
  "DataChecksum_updates lib self [] = Inr self"
| "DataChecksum_updates lib self (piece # pieces) =
     ebind (DataChecksum_update lib self piece)
       (\<lambda>self'. DataChecksum_updates lib self' pieces)"

section \<open>Multipart objects\<close>

text \<open>The fields of \<open>OpenHandle\<close> that the multipart completion reads.\<close>

record multipart_handle =
  part_etags :: "string list"
  part_checksums :: "string list"
  part_checksum_values :: "u64 list"
  part_sizes :: "u64 list"
  stream_offset :: u64

fun combine_parts ::
  "ChecksumAlgorithm \<Rightarrow> u64 \<Rightarrow> u64 \<Rightarrow> (u64 \<times> u64) list \<Rightarrow> (u64 \<times> u64) result" where
  "combine_parts algorithm v tot [] = Inr (v, tot)"
| "combine_parts algorithm v tot ((crc, n) # rest) =
     ebind (combine_crc64 algorithm v crc n)
       (\<lambda>v'. combine_parts algorithm v' (tot + n) rest)"

definition combined_multipart_checksum ::
  "(bytes \<Rightarrow> string option) \<Rightarrow> multipart_handle \<Rightarrow> ChecksumAlgorithm \<Rightarrow> ChecksumValue result" where
  "combined_multipart_checksum encode_block handle algorithm =
     (if part_checksum_values handle = [] \<or>
         length (part_checksum_values handle) \<noteq> length (part_sizes handle)
      then Inl (LogicError ''multipart CRC64 part metadata is incomplete'')
      else ebind (combine_parts algorithm (hd (part_checksum_values handle))
                    (hd (part_sizes handle))
                    (zip (tl (part_checksum_values handle)) (tl (part_sizes handle))))
             (\<lambda>(v, tot).
                if tot \<noteq> stream_offset handle
                then Inl (LogicError ''multipart CRC64 byte count is inconsistent'')
                else crc64_checksum_value encode_block v))"


text \<open>The body of CompleteMultipartUpload.\<close>

fun complete_body_parts :: "string \<Rightarrow> string list \<Rightarrow> nat \<Rightarrow> string list \<Rightarrow> string" where
  "complete_body_parts checksum_name checksums i [] = []"
| "complete_body_parts checksum_name checksums i (etag # etags) =
     ''<Part><PartNumber>'' @ to_string (i + 1) @ ''</PartNumber><ETag>'' @ etag @ ''</ETag>'' @
     (if checksum_name = [] then []
      else ''<'' @ checksum_name @ ''>'' @ checksums ! i @ ''</'' @ checksum_name @ ''>'') @
     ''</Part>'' @ complete_body_parts checksum_name checksums (Suc i) etags"

definition complete_body :: "multipart_handle \<Rightarrow> ChecksumAlgorithm \<Rightarrow> string" where
  "complete_body handle algorithm =
     (let checksum_name = (if checksum_multipart_type algorithm = ''COMPOSITE''
                           then checksum_xml_name algorithm else [])
      in ''<CompleteMultipartUpload>'' @
         complete_body_parts checksum_name (part_checksums handle) 0 (part_etags handle) @
         ''</CompleteMultipartUpload>'')"


section \<open>Lemmas\<close>

lemma combine_crc64_append:
  assumes "crc64_polynomial a = Some p" and "length ys < 2 ^ 64"
  shows "combine_crc64 a (crc64_of p xs) (crc64_of p ys) (word_of_nat (length ys)) =
    Inr (crc64_of p (xs @ ys))"
proof (cases "ys = []")
  case True
  then show ?thesis by (simp add: combine_crc64_def)
next
  case False
  have len: "unat (word_of_nat (length ys) :: u64) = length ys"
    using assms(2) by (simp add: unsigned_of_nat take_bit_nat_eq_self)
  then have "(word_of_nat (length ys) :: u64) \<noteq> 0"
    using False by (metis length_0_conv unat_0)
  then show ?thesis
    using assms(1) False len
    by (simp add: combine_crc64_def combine_crc64_poly_eq crc64_of_append)
qed

lemma combine_parts_concat:
  assumes "crc64_polynomial a = Some p" and "\<forall>part\<in>set parts. length part < 2 ^ 64"
  shows "combine_parts a (crc64_of p xs) n (map (\<lambda>part. (crc64_of p part, word_of_nat (length part))) parts)
    = Inr (crc64_of p (xs @ concat parts), n + word_of_nat (length (concat parts)))"
  using assms(2)
proof (induction parts arbitrary: xs n)
  case Nil
  then show ?case by simp
next
  case (Cons part parts)
  then have "combine_crc64 a (crc64_of p xs) (crc64_of p part) (word_of_nat (length part)) =
      Inr (crc64_of p (xs @ part))"
    by (intro combine_crc64_append [OF assms(1)]) simp
  then show ?case using Cons.IH [of "xs @ part"] Cons.prems by (simp add: add.assoc)
qed

lemma crc64_polynomial_not_crc32: "crc64_polynomial a = Some p \<Longrightarrow> crc32_polynomial a = None"
  by (cases a) (simp_all add: crc64_polynomial_def crc32_polynomial_def)

lemma DataChecksum_updates_crc64:
  assumes "crc64_polynomial (dc_algorithm self) = Some p" and "\<not> dc_finished self"
  shows "DataChecksum_updates lib self pieces =
    Inr (self\<lparr>context_u64 := crc_bitwise p (context_u64 self) (concat pieces)\<rparr>)"
  using assms
proof (induction pieces arbitrary: self)
  case Nil
  then show ?case by (simp add: crc_bitwise_def)
next
  case (Cons piece pieces)
  note crc64_polynomial_not_crc32 [OF Cons.prems(1), simp]
  have "DataChecksum_update lib self piece =
      Inr (self\<lparr>context_u64 := crc_bitwise p (context_u64 self) piece\<rparr>)"
    using Cons.prems by (simp add: DataChecksum_update_def update_crc64_bitwise)
  then show ?case using Cons by (simp add: crc_bitwise_append)
qed

lemma DataChecksum_updates_crc32:
  assumes "crc32_polynomial (dc_algorithm self) = Some p" and "\<not> dc_finished self"
  shows "DataChecksum_updates lib self pieces =
    Inr (self\<lparr>context_u32 := crc_bitwise p (context_u32 self) (concat pieces)\<rparr>)"
  using assms
proof (induction pieces arbitrary: self)
  case Nil
  then show ?case by (simp add: crc_bitwise_def)
next
  case (Cons piece pieces)
  have "DataChecksum_update lib self piece =
      Inr (self\<lparr>context_u32 := crc_bitwise p (context_u32 self) piece\<rparr>)"
    using Cons.prems by (simp add: DataChecksum_update_def update_crc32_bitwise)
  then show ?case using Cons by (simp add: crc_bitwise_append)
qed

lemma DataChecksum_crc64_value:
  assumes "crc64_polynomial a = Some p" and "DataChecksum_new lib a = Inr self"
  shows "ebind (DataChecksum_updates lib self pieces)
      (\<lambda>self'. snd (DataChecksum_finish encode_block lib self')) =
    crc64_checksum_value encode_block (crc64_of p (concat pieces))"
proof -
  note n32 = crc64_polynomial_not_crc32 [OF assms(1)]
  have self: "dc_algorithm self = a" "\<not> dc_finished self" "context_u64 self = - 1"
    using assms n32 by (auto simp: DataChecksum_new_def Let_def)
  then show ?thesis
    using assms(1) n32 by (simp add: DataChecksum_updates_crc64 DataChecksum_finish_def crc64_of_def)
qed

section \<open>Properties\<close>

text \<open>
  C2. Slicing by eight is only an optimisation: for every polynomial, start value and input,
  \<open>update_crc32\<close> and \<open>update_crc64\<close> compute what the bit-serial shift register
  (eight single-bit steps per byte) computes.
\<close>

theorem update_crc_is_bit_serial:
  "update_crc32 p32 crc32 data = crc_bitwise p32 crc32 data \<and>
   update_crc64 p64 crc64 data = crc_bitwise p64 crc64 data"
  by (simp add: update_crc32_bitwise update_crc64_bitwise)

text \<open>
  \<open>combine_crc64\<close> is correct: from the CRC64 values of two byte strings and the
  length of the second it returns the CRC64 of their concatenation, for both supported
  polynomials and every length that fits a \<^verbatim>\<open>uint64_t\<close>.
\<close>

lemma combine_crc64_concatenation:
  assumes "crc64_polynomial a = Some p" and "length ys < 2 ^ 64"
  shows "combine_crc64 a (crc64_of p xs) (crc64_of p ys) (word_of_nat (length ys)) =
    Inr (crc64_of p (xs @ ys))"
  using assms by (rule combine_crc64_append)

lemma combine_crc64_concatenation_example:
  "crc64_polynomial CHECKSUM_CRC64NVME = Some 0x9a6c9329ac4bc9b5 \<and>
   length [3 :: u8] < 2 ^ 64 \<and>
   combine_crc64 CHECKSUM_CRC64NVME (crc64_of 0x9a6c9329ac4bc9b5 [1, 2])
     (crc64_of 0x9a6c9329ac4bc9b5 [3]) (word_of_nat (length [3 :: u8])) =
     Inr (crc64_of 0x9a6c9329ac4bc9b5 [1, 2, 3])"
  using combine_crc64_concatenation
      [of CHECKSUM_CRC64NVME "0x9a6c9329ac4bc9b5" "[3]" "[1, 2]"]
  by (simp add: crc64_polynomial_def)

text \<open>
  C1. Completing a multipart upload never has to read the object again: when the handle
  carries the CRC64 value and the size of every part and the stream offset is their total,
  \<open>combined_multipart_checksum\<close> returns exactly the value that \<open>DataChecksum\<close>
  returns for the whole object, fed in whatever pieces.
\<close>

theorem multipart_checksum_is_whole_object_checksum:
  assumes "crc64_polynomial a = Some p" and "parts \<noteq> []"
    and "length (concat parts) < 2 ^ 64"
    and "part_checksum_values handle = map (crc64_of p) parts"
    and "part_sizes handle = map (\<lambda>part. word_of_nat (length part)) parts"
    and "stream_offset handle = word_of_nat (length (concat parts))"
    and "DataChecksum_new lib a = Inr self" and "concat pieces = concat parts"
  shows "combined_multipart_checksum encode_block handle a =
    ebind (DataChecksum_updates lib self pieces)
      (\<lambda>self'. snd (DataChecksum_finish encode_block lib self'))"
proof -
  obtain first rest where parts: "parts = first # rest" using assms(2) by (cases parts) auto
  have "length part < 2 ^ 64" if "part \<in> set rest" for part
    using assms(3) that split_list [OF that] by (auto simp: parts)
  then have "combine_parts a (crc64_of p first) (word_of_nat (length first))
      (map (\<lambda>part. (crc64_of p part, word_of_nat (length part))) rest) =
      Inr (crc64_of p (concat parts), word_of_nat (length (concat parts)))"
    using combine_parts_concat [OF assms(1), of rest first] by (simp add: parts)
  then have "combined_multipart_checksum encode_block handle a =
      crc64_checksum_value encode_block (crc64_of p (concat parts))"
    by (simp add: combined_multipart_checksum_def assms(4-6) parts zip_map_map zip_same_conv_map
          map_zip_map2 comp_def)
  then show ?thesis
    by (simp add: DataChecksum_crc64_value [OF assms(1,7)] assms(8))
qed


definition example_digest_lib :: "unit digest_lib" where
  "example_digest_lib =
     \<lparr>lib_zero = (), lib_init = (\<lambda>_ c. (True, c)), lib_update = (\<lambda>_ c _. (True, c)),
      lib_final = (\<lambda>_ _. (True, []))\<rparr>"

definition example_multipart :: multipart_handle where
  "example_multipart =
     \<lparr>part_etags = [''a'', ''b''], part_checksums = [],
      part_checksum_values = map (crc64_of 0xc96c5795d7870f42) [[1, 2], [3]],
      part_sizes = [2, 1], stream_offset = 3\<rparr>"

theorem multipart_checksum_is_whole_object_checksum_witness:
  "combined_multipart_checksum (\<lambda>_. Some ''x'') example_multipart CHECKSUM_CRC64XZ =
   ebind (DataChecksum_updates example_digest_lib
       \<lparr>context_u32 = 0, context_u64 = - 1, context_lib = (),
        dc_algorithm = CHECKSUM_CRC64XZ, dc_finished = False\<rparr> [[1], [2, 3]])
     (\<lambda>self'. snd (DataChecksum_finish (\<lambda>_. Some ''x'') example_digest_lib self'))"
  by (rule multipart_checksum_is_whole_object_checksum
        [where p = "0xc96c5795d7870f42" and parts = "[[1, 2], [3]]"])
     (simp_all add: crc64_polynomial_def crc32_polynomial_def example_multipart_def
        example_digest_lib_def DataChecksum_new_def Let_def)

lemma ascii_equal_ignore_case_iff:
  "ascii_equal_ignore_case s t \<longleftrightarrow> map tolower s = map tolower t"
  by (induction s t rule: ascii_equal_ignore_case.induct) auto

lemma find_name_map_of:
  "map_option snd (find (\<lambda>(name, v). ascii_equal_ignore_case s name) tab) =
     map_of (map (\<lambda>(name, v). (map tolower name, v)) tab) (map tolower s)"
  by (induction tab) (auto simp: ascii_equal_ignore_case_iff)

lemma checksum_names_distinct:
  "distinct (map fst (map (\<lambda>(name, v). (map tolower name, v)) checksum_algorithm_table))"
  by code_simp

lemma parse_checksum_algorithm_Some:
  "parse_checksum_algorithm s = Some a \<longleftrightarrow>
     (map tolower s, a) \<in> set (map (\<lambda>(name, v). (map tolower name, v)) checksum_algorithm_table)"
  unfolding parse_checksum_algorithm_def find_name_map_of
  by (rule map_of_eq_Some_iff [OF checksum_names_distinct])

text \<open>
  Option names round-trip: every algorithm is recovered from the name
  \<open>checksum_option_name\<close> prints for it, and a text is accepted for an algorithm exactly
  when it is a table entry of that algorithm up to upper and lower case (so the order of
  the table never matters).
\<close>

lemma checksum_option_name_roundtrip:
  "parse_checksum_algorithm (checksum_option_name a) = Some a \<and>
   (parse_checksum_algorithm s = Some a \<longleftrightarrow>
      (\<exists>name. (name, a) \<in> set checksum_algorithm_table \<and> map tolower s = map tolower name))"
proof
  show "parse_checksum_algorithm (checksum_option_name a) = Some a"
    by (cases a; hypsubst; code_simp)
  show "parse_checksum_algorithm s = Some a \<longleftrightarrow>
      (\<exists>name. (name, a) \<in> set checksum_algorithm_table \<and> map tolower s = map tolower name)"
    unfolding parse_checksum_algorithm_Some by force
qed

end
