(* ===== verification/Cache_Pages.thy ===== *)
theory Cache_Pages
  imports NG_Prelude
begin

text \<open>
  The page bitmap of a cache entry (\<^verbatim>\<open>src/src/cache.cpp\<close>, \<open>page_state\<close>,
  \<open>set_page_state\<close>, \<open>range_has_state\<close>, \<open>range_all_state\<close>): two bits
  per page in 64-bit words. The locale \<open>page_map\<close> is the contract the cache entry relies
  on; it is interpreted on the bitmap, and the masked word comparison of
  \<open>range_all_state\<close> is shown to test exactly the pages of the range.
\<close>

datatype CachePageState =
  CACHE_PAGE_MISSING | CACHE_PAGE_READ_PENDING | CACHE_PAGE_CLEAN | CACHE_PAGE_BAD

fun state_code :: "CachePageState \<Rightarrow> u64" where
  "state_code CACHE_PAGE_MISSING = 0"
| "state_code CACHE_PAGE_READ_PENDING = 1"
| "state_code CACHE_PAGE_CLEAN = 2"
| "state_code CACHE_PAGE_BAD = 3"

text \<open>The conversion of a two-bit value to the enumeration.\<close>

definition code_state :: "u64 \<Rightarrow> CachePageState" where
  "code_state v =
     (if v = 0 then CACHE_PAGE_MISSING else if v = 1 then CACHE_PAGE_READ_PENDING
      else if v = 2 then CACHE_PAGE_CLEAN else CACHE_PAGE_BAD)"

definition kCacheBitmapUnit :: nat where
  "kCacheBitmapUnit = 32768"

section \<open>Operations\<close>

definition page_state :: "u64 list \<Rightarrow> nat \<Rightarrow> CachePageState" where
  "page_state words page =
     (let word = page div 32; shift = page mod 32 * 2
      in code_state (drop_bit shift (words ! word) AND 3))"

definition set_page_state :: "nat \<Rightarrow> CachePageState \<Rightarrow> u64 list \<Rightarrow> u64 list" where
  "set_page_state page state words =
     (let word = page div 32; shift = page mod 32 * 2;
          m = push_bit shift 3; current = words ! word
      in words[word := (current AND NOT m) OR push_bit shift (state_code state)])"

text \<open>
  First page and last page of a byte range; the sum is not guarded in the source and wraps.
\<close>

definition range_first_page :: "nat \<Rightarrow> nat" where
  "range_first_page offset = offset div kCacheBitmapUnit"

definition range_last_page :: "nat \<Rightarrow> nat \<Rightarrow> nat" where
  "range_last_page offset len = wrap64 (offset + len - 1) div kCacheBitmapUnit"

definition range_has_state :: "u64 list \<Rightarrow> nat \<Rightarrow> nat \<Rightarrow> CachePageState \<Rightarrow> bool" where
  "range_has_state words offset len state \<longleftrightarrow>
     len \<noteq> 0 \<and>
     list_ex (\<lambda>page. page_state words page = state)
       [range_first_page offset ..< Suc (range_last_page offset len)]"

text \<open>The loop of \<open>range_all_state\<close>: one masked comparison per word.\<close>

function range_all_state_loop :: "u64 list \<Rightarrow> u64 \<Rightarrow> nat \<Rightarrow> nat \<Rightarrow> bool" where
  "range_all_state_loop words pattern page stop =
     (if stop \<le> page then True
      else let word = page div 32; bit0 = page mod 32 * 2;
               cnt = min (32 - page mod 32) (stop - page);
               m = push_bit bit0 (drop_bit ((32 - cnt) * 2) (- 1))
           in if words ! word AND m \<noteq> pattern AND m then False
              else range_all_state_loop words pattern (page + cnt) stop)"
  by pat_completeness auto
termination
proof (relation "measure (\<lambda>(words, pattern, page, stop). stop - page)", goal_cases)
  case 1
  then show ?case by simp
next
  case (2 words pattern page stop word bit0 cnt m)
  from 2(1,4) have "page < stop" and "0 < cnt" by simp_all
  then have "stop - (page + cnt) < stop - page" by arith
  then show ?case by simp
qed

declare range_all_state_loop.simps [simp del]

definition range_all_state :: "u64 list \<Rightarrow> nat \<Rightarrow> nat \<Rightarrow> CachePageState \<Rightarrow> bool" where
  "range_all_state words offset len state \<longleftrightarrow>
     len = 0 \<or>
     range_all_state_loop words (state_code state * 0x5555555555555555)
       (range_first_page offset) (range_last_page offset len + 1)"

section \<open>The contract of a page map\<close>

locale page_map =
  fixes get :: "'m \<Rightarrow> nat \<Rightarrow> CachePageState"
    and put :: "nat \<Rightarrow> CachePageState \<Rightarrow> 'm \<Rightarrow> 'm"
    and cap :: "'m \<Rightarrow> nat"
  assumes get_put: "p < cap m \<Longrightarrow> get (put p s m) q = (if q = p then s else get m q)"
    and cap_put [simp]: "cap (put p s m) = cap m"
begin

lemma cap_fold [simp]: "cap (fold (\<lambda>p. put p (f p)) ps m) = cap m"
  by (induction ps arbitrary: m) auto

text \<open>A loop that stores one state in a list of pages.\<close>

lemma get_fold_put:
  "(\<forall>p\<in>set ps. p < cap m) \<Longrightarrow>
   get (fold (\<lambda>p. put p s) ps m) q = (if q \<in> set ps then s else get m q)"
  by (induction ps arbitrary: m) (auto simp: get_put)

lemma cap_fold_if [simp]:
  "cap (fold (\<lambda>p m. if get m p = a then put p b m else m) ps m) = cap m"
  by (induction ps arbitrary: m) auto

text \<open>A loop that replaces one state by another.\<close>

lemma get_fold_replace:
  "(\<forall>p\<in>set ps. p < cap m) \<Longrightarrow>
   get (fold (\<lambda>p m. if get m p = a then put p b m else m) ps m) q =
     (if q \<in> set ps \<and> get m q = a then b else get m q)"
  by (induction ps arbitrary: m) (auto simp: get_put)

text \<open>A loop that stores a recorded list of states from a first page on.\<close>

lemma cap_fold_restore [simp]:
  "cap (fold (\<lambda>(i, s). put (base + i) s) iss m) = cap m"
  by (induction iss arbitrary: m) auto

lemma get_fold_restore:
  "distinct (map fst iss) \<Longrightarrow> (\<forall>(i, s)\<in>set iss. base + i < cap m) \<Longrightarrow>
   get (fold (\<lambda>(i, s). put (base + i) s) iss m) q =
     (if base \<le> q then case map_of iss (q - base) of Some s \<Rightarrow> s | None \<Rightarrow> get m q
      else get m q)"
proof (induction iss arbitrary: m)
  case Nil
  then show ?case by simp
next
  case (Cons x iss)
  obtain i s where x: "x = (i, s)" by force
  have "i \<notin> fst ` set iss" using Cons.prems(1) by (simp add: x)
  then have none: "map_of iss i = None" by (simp add: map_of_eq_None_iff)
  have "get (put (base + i) s m) q = (if q = base + i then s else get m q)"
    using Cons.prems(2) by (intro get_put) (auto simp: x)
  then show ?case using Cons none
    by (auto simp: x split: option.splits)
qed

end

section \<open>The bitmap is a page map\<close>

lemma state_code_bits:
  "bit (state_code s) 0 \<longleftrightarrow> s = CACHE_PAGE_READ_PENDING \<or> s = CACHE_PAGE_BAD"
  "bit (state_code s) 1 \<longleftrightarrow> s = CACHE_PAGE_CLEAN \<or> s = CACHE_PAGE_BAD"
  "2 \<le> n \<Longrightarrow> \<not> bit (state_code s) n"
proof -
  show "bit (state_code s) 0 \<longleftrightarrow> s = CACHE_PAGE_READ_PENDING \<or> s = CACHE_PAGE_BAD"
    by (cases s) (simp_all add: bit_0)
  show "bit (state_code s) 1 \<longleftrightarrow> s = CACHE_PAGE_CLEAN \<or> s = CACHE_PAGE_BAD"
    by (cases s) (simp_all add: bit_1_iff numeral_eq_Suc)
  show "\<not> bit (state_code s) n" if "2 \<le> n"
  proof -
    have "state_code s AND 3 = state_code s" by (cases s) simp_all
    moreover have "(3 :: u64) = mask 2" by (simp add: mask_eq_exp_minus_1)
    ultimately show ?thesis using that by (metis bit_and_iff bit_mask_iff not_le)
  qed
qed

text \<open>A two-bit field holds a state exactly when its two bits are those of the code.\<close>

lemma field_state_iff:
  "code_state (drop_bit k w AND 3) = s \<longleftrightarrow>
     bit w k = bit (state_code s) 0 \<and> bit w (Suc k) = bit (state_code s) 1"
proof -
  have m: "(3 :: u64) = mask 2" by (simp add: mask_eq_exp_minus_1)
  have "drop_bit k w AND 3 = state_code t" if "bit w k = bit (state_code t) 0"
    "bit w (Suc k) = bit (state_code t) 1" for t
  proof (rule bit_word_eqI)
    fix n assume "n < LENGTH(64)"
    consider "n = 0" | "n = 1" | "2 \<le> n" by linarith
    then show "bit (drop_bit k w AND 3) n = bit (state_code t) n"
      unfolding m using that state_code_bits(3) [of n t] by cases (auto simp: bit_simps)
  qed
  moreover have "\<exists>t. bit w k = bit (state_code t) 0 \<and> bit w (Suc k) = bit (state_code t) 1"
    unfolding state_code_bits by (metis CachePageState.distinct)
  moreover have "code_state (state_code t) = t" for t
    by (cases t) (simp_all add: code_state_def)
  moreover have "bit (state_code s) 0 = bit (state_code t) 0 \<Longrightarrow>
      bit (state_code s) 1 = bit (state_code t) 1 \<Longrightarrow> s = t" for t
    unfolding state_code_bits by (cases s; cases t) simp_all
  ultimately show ?thesis by metis
qed


lemma page_state_iff:
  "page_state words page = s \<longleftrightarrow>
     bit (words ! (page div 32)) (page mod 32 * 2) = bit (state_code s) 0 \<and>
     bit (words ! (page div 32)) (Suc (page mod 32 * 2)) = bit (state_code s) 1"
  by (simp add: page_state_def Let_def field_state_iff)

lemma page_state_eqI:
  assumes "bit (words ! (page div 32)) (page mod 32 * 2) = bit (words' ! (page' div 32)) (page' mod 32 * 2)"
    and "bit (words ! (page div 32)) (Suc (page mod 32 * 2)) =
      bit (words' ! (page' div 32)) (Suc (page' mod 32 * 2))"
  shows "page_state words page = page_state words' page'"
  using assms page_state_iff [of words' page' "page_state words' page'"]
  by (simp add: page_state_iff)

lemma bit_set_field:
  assumes "k < 63"
  shows "bit ((w AND NOT (push_bit k 3)) OR push_bit k (state_code s) :: u64) n \<longleftrightarrow>
    (if n = k then bit (state_code s) 0 else if n = Suc k then bit (state_code s) 1 else bit w n)"
proof -
  have m: "(3 :: u64) = mask 2" by (simp add: mask_eq_exp_minus_1)
  have "\<not> bit (state_code s) (n - k)" if "k \<le> n" "n \<noteq> k" "n \<noteq> Suc k"
    using that by (intro state_code_bits(3)) simp
  then show ?thesis unfolding m using assms
    by (auto simp: bit_simps le_Suc_eq dest: bit_imp_le_length)
qed

interpretation bitmap: page_map page_state set_page_state "\<lambda>words. 32 * length words"
proof
  fix p q :: nat and words :: "u64 list" and s
  assume p: "p < 32 * length words"
  then have len: "p div 32 < length words" by (simp add: less_mult_imp_div_less mult.commute)
  have k: "p mod 32 * 2 < 63" by (simp add: less_Suc_eq_le [symmetric])
  show "page_state (set_page_state p s words) q = (if q = p then s else page_state words q)"
  proof (cases "q div 32 = p div 32")
    case False
    then show ?thesis
      by (auto simp: set_page_state_def Let_def intro!: page_state_eqI)
  next
    case same: True
    show ?thesis
    proof (cases "q = p")
      case True
      then show ?thesis using len k
        by (simp add: page_state_iff set_page_state_def Let_def bit_set_field)
    next
      case False
      then have "q mod 32 \<noteq> p mod 32" using same by (metis div_mult_mod_eq)
      moreover have "a \<noteq> b \<Longrightarrow> a * 2 \<noteq> b * 2 \<and> a * 2 \<noteq> Suc (b * 2) \<and> Suc (a * 2) \<noteq> b * 2" for a b :: nat
        by presburger
      ultimately have ne: "q mod 32 * 2 \<noteq> p mod 32 * 2" "q mod 32 * 2 \<noteq> Suc (p mod 32 * 2)"
        "Suc (q mod 32 * 2) \<noteq> p mod 32 * 2" by blast+
      then show ?thesis using len k same False
        by (auto simp: set_page_state_def Let_def bit_set_field intro!: page_state_eqI)
    qed
  qed
next
  show "32 * length (set_page_state p s words) = 32 * length words" for p s words
    by (simp add: set_page_state_def Let_def)
qed

lemma length_set_page_state [simp]: "length (set_page_state p s words) = length words"
  by (simp add: set_page_state_def Let_def)

section \<open>The masked comparison tests every page\<close>

lemma pattern_bits:
  assumes "k < 32"
  shows "bit (state_code s * 0x5555555555555555) (k * 2) = bit (state_code s) 0 \<and>
    bit (state_code s * 0x5555555555555555) (Suc (k * 2)) = bit (state_code s) 1"
proof -
  have all: "list_all (\<lambda>k. bit (state_code s * 0x5555555555555555) (k * 2) = bit (state_code s) 0 \<and>
      bit (state_code s * 0x5555555555555555) (Suc (k * 2)) = bit (state_code s) 1) [0..<32]"
    by (cases s; hypsubst; code_simp)
  then show ?thesis using assms by (simp add: list_all_iff)
qed

lemma masked_word_iff:
  assumes "b + cnt \<le> 32" and m: "m = push_bit (b * 2) (drop_bit ((32 - cnt) * 2) (- 1 :: u64))"
  shows "w AND m = state_code s * 0x5555555555555555 AND m \<longleftrightarrow>
    (\<forall>k. b \<le> k \<and> k < b + cnt \<longrightarrow>
       bit w (k * 2) = bit (state_code s) 0 \<and> bit w (Suc (k * 2)) = bit (state_code s) 1)"
  (is "?L \<longleftrightarrow> ?R")
proof -
  let ?p = "state_code s * 0x5555555555555555 :: u64"
  have mb: "bit m n \<longleftrightarrow> b * 2 \<le> n \<and> n < (b + cnt) * 2" if "n < 64" for n
    using assms that by (auto simp: bit_simps)
  have L: "?L \<longleftrightarrow> (\<forall>n. b * 2 \<le> n \<and> n < (b + cnt) * 2 \<longrightarrow> bit w n = bit ?p n)"
  proof
    assume l: ?L
    show "\<forall>n. b * 2 \<le> n \<and> n < (b + cnt) * 2 \<longrightarrow> bit w n = bit ?p n"
    proof (intro allI impI)
      fix n assume n: "b * 2 \<le> n \<and> n < (b + cnt) * 2"
      then have "bit m n" using mb [of n] assms(1) by simp
      moreover have "bit (w AND m) n = bit (?p AND m) n" by (simp only: l)
      ultimately show "bit w n = bit ?p n" by (simp add: bit_and_iff)
    qed
  next
    assume R: "\<forall>n. b * 2 \<le> n \<and> n < (b + cnt) * 2 \<longrightarrow> bit w n = bit ?p n"
    show ?L by (rule bit_word_eqI) (use R mb in \<open>auto simp: bit_and_iff\<close>)
  qed
  show ?thesis unfolding L
  proof
    assume H: "\<forall>n. b * 2 \<le> n \<and> n < (b + cnt) * 2 \<longrightarrow> bit w n = bit ?p n"
    show ?R
    proof (intro allI impI)
      fix k assume k: "b \<le> k \<and> k < b + cnt"
      then have "bit w (k * 2) = bit ?p (k * 2)" and "bit w (Suc (k * 2)) = bit ?p (Suc (k * 2))"
        using H by auto
      then show "bit w (k * 2) = bit (state_code s) 0 \<and> bit w (Suc (k * 2)) = bit (state_code s) 1"
        using pattern_bits [of k s] k assms(1) by simp
    qed
  next
    assume R: ?R
    show "\<forall>n. b * 2 \<le> n \<and> n < (b + cnt) * 2 \<longrightarrow> bit w n = bit ?p n"
    proof (intro allI impI)
      fix n assume n: "b * 2 \<le> n \<and> n < (b + cnt) * 2"
      then have k: "b \<le> n div 2 \<and> n div 2 < b + cnt" by auto
      have "n = n div 2 * 2 \<or> n = Suc (n div 2 * 2)" by presburger
      then show "bit w n = bit ?p n"
        using R k pattern_bits [of "n div 2" s] assms(1) by auto
    qed
  qed
qed

lemma same_word:
  assumes "page \<le> p" and "p < page + cnt" and "page mod 32 + cnt \<le> (32 :: nat)"
  shows "p div 32 = page div 32" and "p mod 32 = page mod 32 + (p - page)"
proof -
  have p: "p = page div 32 * 32 + (page mod 32 + (p - page))"
    using assms(1) by (simp add: div_mult_mod_eq)
  have lt: "page mod 32 + (p - page) < 32" using assms by linarith
  have "(k * 32 + r) div 32 = k \<and> (k * 32 + r) mod 32 = r" if "r < 32" for k r :: nat
    using that by simp
  from this [OF lt, of "page div 32"]
  show "p div 32 = page div 32" and "p mod 32 = page mod 32 + (p - page)"
    unfolding p [symmetric] by simp_all
qed

lemma word_pages_iff:
  assumes le: "page mod 32 + cnt \<le> 32"
    and m: "m = push_bit (page mod 32 * 2) (drop_bit ((32 - cnt) * 2) (- 1 :: u64))"
  shows "words ! (page div 32) AND m = state_code s * 0x5555555555555555 AND m \<longleftrightarrow>
    (\<forall>p. page \<le> p \<and> p < page + cnt \<longrightarrow> page_state words p = s)"
  unfolding masked_word_iff [OF assms]
proof (intro iffI allI impI)
  fix p
  assume H: "\<forall>k. page mod 32 \<le> k \<and> k < page mod 32 + cnt \<longrightarrow>
      bit (words ! (page div 32)) (k * 2) = bit (state_code s) 0 \<and>
      bit (words ! (page div 32)) (Suc (k * 2)) = bit (state_code s) 1"
    and p: "page \<le> p \<and> p < page + cnt"
  note w = same_word [OF conjunct1 [OF p] conjunct2 [OF p] le]
  have "page mod 32 \<le> p mod 32 \<and> p mod 32 < page mod 32 + cnt" unfolding w(2) using p by auto
  with H show "page_state words p = s" by (simp add: page_state_iff w(1))
next
  fix k
  assume H: "\<forall>p. page \<le> p \<and> p < page + cnt \<longrightarrow> page_state words p = s"
    and k: "page mod 32 \<le> k \<and> k < page mod 32 + cnt"
  let ?p = "page + (k - page mod 32)"
  have p: "page \<le> ?p" "?p < page + cnt" using k by auto
  have "?p div 32 = page div 32" "?p mod 32 = k"
    using same_word [OF p le] k by simp_all
  moreover have "page_state words ?p = s" using H p by blast
  ultimately show "bit (words ! (page div 32)) (k * 2) = bit (state_code s) 0 \<and>
      bit (words ! (page div 32)) (Suc (k * 2)) = bit (state_code s) 1"
    by (simp add: page_state_iff)
qed

lemma range_all_state_loop_iff:
  "range_all_state_loop words (state_code s * 0x5555555555555555) page stop \<longleftrightarrow>
     (\<forall>p. page \<le> p \<and> p < stop \<longrightarrow> page_state words p = s)"
proof (induction words "state_code s * 0x5555555555555555" page stop
    rule: range_all_state_loop.induct)
  case (1 words page stop)
  show ?case
  proof (cases "stop \<le> page")
    case True
    then show ?thesis by (subst range_all_state_loop.simps) auto
  next
    case False
    let ?cnt = "min (32 - page mod 32) (stop - page)"
    let ?m = "push_bit (page mod 32 * 2) (drop_bit ((32 - ?cnt) * 2) (- 1)) :: u64"
    have "page mod 32 + ?cnt \<le> 32" by simp
    note word = word_pages_iff [OF this refl, of words s]
    have split: "(\<forall>p. page \<le> p \<and> p < stop \<longrightarrow> Q p) \<longleftrightarrow>
        (\<forall>p. page \<le> p \<and> p < page + ?cnt \<longrightarrow> Q p) \<and> (\<forall>p. page + ?cnt \<le> p \<and> p < stop \<longrightarrow> Q p)" for Q
      using False by (auto simp: not_less) (metis not_less)
    have "range_all_state_loop words (state_code s * 0x5555555555555555) page stop \<longleftrightarrow>
        words ! (page div 32) AND ?m = state_code s * 0x5555555555555555 AND ?m \<and>
        range_all_state_loop words (state_code s * 0x5555555555555555) (page + ?cnt) stop"
      using False by (subst range_all_state_loop.simps) (simp only: Let_def if_False, simp only: if_split_eq1, blast)
    also have "\<dots> \<longleftrightarrow> (\<forall>p. page \<le> p \<and> p < page + ?cnt \<longrightarrow> page_state words p = s) \<and>
        (\<forall>p. page + ?cnt \<le> p \<and> p < stop \<longrightarrow> page_state words p = s)"
      using "1.hyps" [OF False refl refl refl refl] word by blast
    finally show ?thesis unfolding split .
  qed
qed

text \<open>In terms of pages, for a range that does not wrap.\<close>

lemma range_last_page_nowrap:
  "offset + len \<le> 2 ^ 64 \<Longrightarrow> len \<noteq> 0 \<Longrightarrow>
   range_last_page offset len = (offset + len - 1) div kCacheBitmapUnit"
  by (simp add: range_last_page_def)

lemma range_all_state_pages:
  assumes "offset + len \<le> 2 ^ 64"
  shows "range_all_state words offset len s \<longleftrightarrow> len = 0 \<or>
    (\<forall>p. offset div kCacheBitmapUnit \<le> p \<and> p \<le> (offset + len - 1) div kCacheBitmapUnit
       \<longrightarrow> page_state words p = s)"
  using range_last_page_nowrap [OF assms]
  by (auto simp: range_all_state_def range_all_state_loop_iff range_first_page_def)

lemma range_has_state_pages:
  assumes "offset + len \<le> 2 ^ 64"
  shows "range_has_state words offset len s \<longleftrightarrow> len \<noteq> 0 \<and>
    (\<exists>p. offset div kCacheBitmapUnit \<le> p \<and> p \<le> (offset + len - 1) div kCacheBitmapUnit
       \<and> page_state words p = s)"
  using range_last_page_nowrap [OF assms]
  by (auto simp: range_has_state_def list_ex_iff range_first_page_def)

text \<open>In terms of bytes: the pages of a range are the pages of its bytes.\<close>

lemma range_pages_bytes:
  assumes "len \<noteq> 0"
  shows "(\<exists>b. offset \<le> b \<and> b < offset + len \<and> p = b div kCacheBitmapUnit) \<longleftrightarrow>
    offset div kCacheBitmapUnit \<le> p \<and> p \<le> (offset + len - 1) div kCacheBitmapUnit"
proof
  assume "\<exists>b. offset \<le> b \<and> b < offset + len \<and> p = b div kCacheBitmapUnit"
  then show "offset div kCacheBitmapUnit \<le> p \<and> p \<le> (offset + len - 1) div kCacheBitmapUnit"
    by (auto intro!: div_le_mono)
next
  assume p: "offset div kCacheBitmapUnit \<le> p \<and> p \<le> (offset + len - 1) div kCacheBitmapUnit"
  let ?b = "max offset (p * kCacheBitmapUnit)"
  have "?b div kCacheBitmapUnit = p"
    using p by (auto simp: max_def kCacheBitmapUnit_def)
  moreover have "p * kCacheBitmapUnit \<le> offset + len - 1"
    using p by (metis div_times_less_eq_dividend le_trans mult_le_mono1)
  ultimately show "\<exists>b. offset \<le> b \<and> b < offset + len \<and> p = b div kCacheBitmapUnit"
    using assms by (intro exI [of _ ?b]) auto
qed

lemma range_all_state_bytes:
  assumes "offset + len \<le> 2 ^ 64"
  shows "range_all_state words offset len s \<longleftrightarrow>
    (\<forall>b. offset \<le> b \<and> b < offset + len \<longrightarrow> page_state words (b div kCacheBitmapUnit) = s)"
proof (cases "len = 0")
  case True
  then show ?thesis using range_all_state_pages [OF assms] by auto
next
  case False
  show ?thesis unfolding range_all_state_pages [OF assms] range_pages_bytes [OF False, symmetric]
    using False by blast
qed

lemma range_has_state_bytes:
  assumes "offset + len \<le> 2 ^ 64"
  shows "range_has_state words offset len s \<longleftrightarrow>
    (\<exists>b. offset \<le> b \<and> b < offset + len \<and> page_state words (b div kCacheBitmapUnit) = s)"
proof (cases "len = 0")
  case True
  then show ?thesis using range_has_state_pages [OF assms] by auto
next
  case False
  have "range_has_state words offset len s \<longleftrightarrow>
      (\<exists>p. (offset div kCacheBitmapUnit \<le> p \<and> p \<le> (offset + len - 1) div kCacheBitmapUnit)
        \<and> page_state words p = s)"
    using range_has_state_pages [OF assms] False by simp
  then show ?thesis unfolding range_pages_bytes [OF False, symmetric] by blast
qed

section \<open>Properties\<close>

text \<open>
  C10. The bitmap stores page states faithfully: a page reads back the state last stored in
  it, every other page keeps its state (also the 31 others in the same word), the
  word-at-a-time comparison of \<open>range_all_state\<close> answers exactly whether every byte of the
  range lies in a page of the state, and \<open>range_has_state\<close> exactly whether some byte does.
\<close>

theorem page_bitmap_correct:
  assumes "page < 32 * length words" and "offset + len \<le> 2 ^ 64"
  shows "page_state (set_page_state page s words) q = (if q = page then s else page_state words q)
    \<and> (range_all_state words offset len s \<longleftrightarrow>
      (\<forall>b. offset \<le> b \<and> b < offset + len \<longrightarrow> page_state words (b div kCacheBitmapUnit) = s))
    \<and> (range_has_state words offset len s \<longleftrightarrow>
      (\<exists>b. offset \<le> b \<and> b < offset + len \<and> page_state words (b div kCacheBitmapUnit) = s))"
proof (intro conjI)
  show "page_state (set_page_state page s words) q = (if q = page then s else page_state words q)"
    using assms(1) by (rule bitmap.get_put)
  show "range_all_state words offset len s \<longleftrightarrow>
      (\<forall>b. offset \<le> b \<and> b < offset + len \<longrightarrow> page_state words (b div kCacheBitmapUnit) = s)"
    using assms(2) by (rule range_all_state_bytes)
  show "range_has_state words offset len s \<longleftrightarrow>
      (\<exists>b. offset \<le> b \<and> b < offset + len \<and> page_state words (b div kCacheBitmapUnit) = s)"
    using assms(2) by (rule range_has_state_bytes)
qed

theorem page_bitmap_correct_witness:
  "page_state (set_page_state 33 CACHE_PAGE_CLEAN [0, 0]) 33 = CACHE_PAGE_CLEAN \<and>
   range_all_state [0, 0] 5 70000 CACHE_PAGE_MISSING =
     (\<forall>b. 5 \<le> b \<and> b < 5 + 70000 \<longrightarrow> page_state [0, 0] (b div kCacheBitmapUnit) = CACHE_PAGE_MISSING) \<and>
   range_has_state [0, 0] 5 70000 CACHE_PAGE_BAD =
     (\<exists>b. 5 \<le> b \<and> b < 5 + 70000 \<and> page_state [0, 0] (b div kCacheBitmapUnit) = CACHE_PAGE_BAD)"
  using page_bitmap_correct [of 33 "[0, 0]" 5 70000 CACHE_PAGE_CLEAN 33]
    page_bitmap_correct [of 33 "[0, 0]" 5 70000 CACHE_PAGE_MISSING]
    page_bitmap_correct [of 33 "[0, 0]" 5 70000 CACHE_PAGE_BAD] by simp

end
