(* ===== verification/Cache_Meta.thy ===== *)
theory Cache_Meta
  imports NG_Prelude Cache_Pages
begin

text \<open>
  The on-disk formats of the local cache (\<^verbatim>\<open>src/src/cache.cpp\<close>): the root and
  generation headers and when a header belongs to an identity, the sizes of the bitmap and
  its mapping, and the encoding of key components as file names. SHA-256 is a parameter.
\<close>

section \<open>Fixed-size arrays\<close>

definition zero_array :: "nat \<Rightarrow> string" where
  "zero_array n = replicate n (char_of (0 :: nat))"

definition memcpy :: "string \<Rightarrow> string \<Rightarrow> nat \<Rightarrow> string" where
  "memcpy dst src n = take n src @ drop n dst"

definition memcmp_eq :: "string \<Rightarrow> string \<Rightarrow> nat \<Rightarrow> bool" where
  "memcmp_eq a b n \<longleftrightarrow> take n a = take n b"

section \<open>Constants\<close>

definition kCacheRootVersion :: nat where "kCacheRootVersion = 2"
definition kCacheMetaVersion :: nat where "kCacheMetaVersion = 5"
definition kCacheByteOrder :: nat where "kCacheByteOrder = 0x01020304"
definition kCachePathVersion :: nat where "kCachePathVersion = 1"
definition kCacheRootHeaderSize :: nat where "kCacheRootHeaderSize = 4096"
definition kCacheMetaHeaderSize :: nat where "kCacheMetaHeaderSize = 4096"
definition kCacheKeyCapacity :: nat where "kCacheKeyCapacity = 1024"
definition kCacheEtagCapacity :: nat where "kCacheEtagCapacity = 512"
definition kCacheVersionCapacity :: nat where "kCacheVersionCapacity = 1024"
definition kCacheUploadIdCapacity :: nat where "kCacheUploadIdCapacity = 1024"
definition kCacheWriteIdCapacity :: nat where "kCacheWriteIdCapacity = 32"
definition kCacheNamespaceCapacity :: nat where "kCacheNamespaceCapacity = 3968"
definition kCacheEscapePrefix :: string where "kCacheEscapePrefix = ''.~ngs3fs~.''"

lemmas cache_capacity_defs =
  kCacheKeyCapacity_def kCacheEtagCapacity_def kCacheVersionCapacity_def
  kCacheUploadIdCapacity_def kCacheWriteIdCapacity_def kCacheNamespaceCapacity_def

section \<open>Configuration and identities\<close>

record CacheConfig =
  cfg_root :: string
  namespace_id :: string
  maximum_bytes :: nat
  reserve_bytes :: nat
  reserve_percent :: nat
  max_prefetch_window_size :: nat
  cfg_page_size :: nat
  cfg_block_size :: nat
  upload_part_size :: nat
  cfg_checksum_algorithm :: nat
  reserve_is_percent :: bool
  unlimited :: bool

record CacheIdentity =
  id_key :: string
  id_etag :: string
  id_version_id :: string
  id_size :: nat
  id_mtime :: int

section \<open>Headers\<close>

record CacheRootHeader =
  r_magic :: string
  r_version :: nat
  r_header_size :: nat
  r_byte_order :: nat
  r_bitmap_unit :: nat
  r_path_version :: nat
  r_namespace_length :: nat
  r_next_epoch :: nat
  r_allocated_bytes :: nat
  r_namespace_id :: string

record CacheMetaHeader =
  m_magic :: string
  m_version :: nat
  m_header_size :: nat
  m_bitmap_unit :: nat
  m_dirty :: bool
  m_exported :: bool
  m_object_size :: nat
  m_mtime :: int
  m_generation_epoch :: nat
  m_written_end :: nat
  m_key_length :: nat
  m_etag_length :: nat
  m_version_length :: nat
  m_upload_id_length :: nat
  m_write_id_length :: nat
  m_upload_part_size :: nat
  m_checksum_algorithm :: nat
  m_write_phase :: nat
  m_key :: string
  m_etag :: string
  m_version_id :: string
  m_upload_id :: string
  m_write_id :: string

text \<open>The two bits of \<^verbatim>\<open>flags\<close> (\<^verbatim>\<open>kCacheMetaDirty\<close>, \<^verbatim>\<open>kCacheMetaExported\<close>) are
  the Boolean fields \<open>m_dirty\<close> and \<open>m_exported\<close>; no other bit is ever set.\<close>

definition cache_root_matches :: "CacheRootHeader \<Rightarrow> CacheConfig \<Rightarrow> bool" where
  "cache_root_matches header config \<longleftrightarrow>
     r_magic header = ''NGS3ROOT'' \<and>
     r_version header = kCacheRootVersion \<and>
     r_header_size header = kCacheRootHeaderSize \<and>
     r_byte_order header = kCacheByteOrder \<and>
     r_bitmap_unit header = kCacheBitmapUnit \<and>
     r_path_version header = kCachePathVersion \<and>
     r_namespace_length header = length (namespace_id config) \<and>
     r_namespace_length header \<le> length (r_namespace_id header) \<and>
     memcmp_eq (r_namespace_id header) (namespace_id config) (length (namespace_id config))"

definition cache_initialize_root :: "CacheConfig \<Rightarrow> CacheRootHeader result" where
  "cache_initialize_root config =
     (if length (namespace_id config) > kCacheNamespaceCapacity
      then Inl (SystemError EOVERFLOW ''cache namespace identity is too large'')
      else Inr \<lparr>r_magic = ''NGS3ROOT'', r_version = kCacheRootVersion,
        r_header_size = kCacheRootHeaderSize, r_byte_order = kCacheByteOrder,
        r_bitmap_unit = kCacheBitmapUnit, r_path_version = kCachePathVersion,
        r_namespace_length = length (namespace_id config), r_next_epoch = 1,
        r_allocated_bytes = 0,
        r_namespace_id = memcpy (zero_array kCacheNamespaceCapacity) (namespace_id config)
          (length (namespace_id config))\<rparr>)"

definition cache_identity_matches :: "CacheMetaHeader \<Rightarrow> CacheIdentity \<Rightarrow> nat \<Rightarrow> bool" where
  "cache_identity_matches header identity bitmap_unit =
     (if m_magic header \<noteq> ''NGS3CACH'' \<or> m_version header \<noteq> kCacheMetaVersion \<or>
         m_header_size header \<noteq> kCacheMetaHeaderSize \<or>
         m_dirty header \<or>
         m_bitmap_unit header \<noteq> bitmap_unit \<or>
         m_object_size header \<noteq> id_size identity \<or>
         m_generation_epoch header = 0 \<or>
         m_key_length header \<noteq> length (id_key identity) \<or>
         m_etag_length header \<noteq> length (id_etag identity) \<or>
         m_version_length header \<noteq> length (id_version_id identity) \<or>
         m_key_length header > length (m_key header) \<or>
         m_etag_length header > length (m_etag header) \<or>
         m_version_length header > length (m_version_id header) \<or>
         m_upload_id_length header > length (m_upload_id header) \<or>
         m_write_id_length header > length (m_write_id header)
      then False
      else if (length (id_key identity) \<noteq> 0 \<and>
               \<not> memcmp_eq (m_key header) (id_key identity) (length (id_key identity))) \<or>
              (length (id_etag identity) \<noteq> 0 \<and>
               \<not> memcmp_eq (m_etag header) (id_etag identity) (length (id_etag identity))) \<or>
              (length (id_version_id identity) \<noteq> 0 \<and>
               \<not> memcmp_eq (m_version_id header) (id_version_id identity)
                   (length (id_version_id identity)))
      then False
      else if id_version_id identity \<noteq> [] \<or> id_etag identity \<noteq> [] then True
      else m_mtime header = id_mtime identity)"

section \<open>Sizes\<close>

definition cache_round_up :: "nat \<Rightarrow> nat \<Rightarrow> nat result" where
  "cache_round_up v alignment =
     (if alignment = 0 \<or> v > UINT64_MAX - (alignment - 1)
      then Inl (OverflowError ''cache size overflow'')
      else Inr ((v + alignment - 1) div alignment * alignment))"

definition cache_bitmap_words :: "nat \<Rightarrow> nat \<Rightarrow> nat result" where
  "cache_bitmap_words sz page_size =
     (let pages = (if sz = 0 then 0 else (sz - 1) div page_size + 1)
      in if pages > UINT64_MAX then Inl (OverflowError ''cache object has too many pages'')
         else Inr (wrap64 (pages + 31) div 32))"

definition cache_mapping_size :: "nat \<Rightarrow> nat \<Rightarrow> nat result" where
  "cache_mapping_size sz page_size =
     ebind (cache_bitmap_words sz page_size)
       (\<lambda>words. if words > (UINT64_MAX - kCacheMetaHeaderSize) div 8
                then Inl (OverflowError ''cache metadata is too large'')
                else Inr (kCacheMetaHeaderSize + words * 8))"

definition cache_recovery_header_matches ::
  "CacheMetaHeader \<Rightarrow> string \<Rightarrow> nat \<Rightarrow> CacheConfig \<Rightarrow> nat \<Rightarrow> bool" where
  "cache_recovery_header_matches header key epoch config mapping_size \<longleftrightarrow>
     m_magic header = ''NGS3CACH'' \<and>
     m_version header = kCacheMetaVersion \<and>
     m_header_size header = kCacheMetaHeaderSize \<and>
     m_bitmap_unit header = kCacheBitmapUnit \<and>
     m_dirty header \<and>
     m_generation_epoch header = epoch \<and>
     m_key_length header = length key \<and>
     m_key_length header \<le> length (m_key header) \<and>
     m_etag_length header \<le> length (m_etag header) \<and>
     m_version_length header \<le> length (m_version_id header) \<and>
     m_upload_id_length header \<le> length (m_upload_id header) \<and>
     m_write_id_length header = kCacheWriteIdCapacity \<and>
     m_upload_part_size header = upload_part_size config \<and>
     m_checksum_algorithm header = cfg_checksum_algorithm config \<and>
     (m_write_phase header = 1 \<or> m_write_phase header = 2) \<and>
     ((m_write_phase header = 1 \<and> m_upload_id_length header = 0) \<or>
      (m_write_phase header = 2 \<and> m_upload_id_length header \<noteq> 0)) \<and>
     m_written_end header = m_object_size header \<and>
     (case cache_mapping_size (m_written_end header) kCacheBitmapUnit of
        Inl _ \<Rightarrow> False | Inr wanted \<Rightarrow> mapping_size \<ge> wanted) \<and>
     memcmp_eq (m_key header) key (length key)"

text \<open>The header after \<^verbatim>\<open>memset\<close>, the field assignments and the copies.\<close>

definition fresh_meta_header :: "CacheIdentity \<Rightarrow> nat \<Rightarrow> nat \<Rightarrow> CacheMetaHeader" where
  "fresh_meta_header identity bitmap_unit epoch =
     \<lparr>m_magic = ''NGS3CACH'', m_version = kCacheMetaVersion,
        m_header_size = kCacheMetaHeaderSize, m_bitmap_unit = bitmap_unit mod 2 ^ 32,
        m_dirty = False, m_exported = False, m_object_size = id_size identity,
        m_mtime = id_mtime identity, m_generation_epoch = epoch, m_written_end = 0,
        m_key_length = length (id_key identity), m_etag_length = length (id_etag identity),
        m_version_length = length (id_version_id identity), m_upload_id_length = 0,
        m_write_id_length = 0, m_upload_part_size = 0, m_checksum_algorithm = 0,
        m_write_phase = 0,
        m_key = memcpy (zero_array kCacheKeyCapacity) (id_key identity) (length (id_key identity)),
        m_etag = memcpy (zero_array kCacheEtagCapacity) (id_etag identity)
          (length (id_etag identity)),
        m_version_id = memcpy (zero_array kCacheVersionCapacity) (id_version_id identity)
          (length (id_version_id identity)),
        m_upload_id = zero_array kCacheUploadIdCapacity,
        m_write_id = zero_array kCacheWriteIdCapacity\<rparr>"

definition cache_initialize_header :: "CacheIdentity \<Rightarrow> nat \<Rightarrow> nat \<Rightarrow> CacheMetaHeader result" where
  "cache_initialize_header identity bitmap_unit epoch =
     (if length (id_key identity) > kCacheKeyCapacity \<or>
         length (id_etag identity) > kCacheEtagCapacity \<or>
         length (id_version_id identity) > kCacheVersionCapacity
      then Inl (SystemError EOVERFLOW ''cache identity exceeds metadata capacity'')
      else Inr (fresh_meta_header identity bitmap_unit epoch))"

section \<open>File names\<close>

definition hex_alphabet :: string where
  "hex_alphabet = ''0123456789abcdef''"

definition hex_digit_lower :: "nat \<Rightarrow> char" where
  "hex_digit_lower n = hex_alphabet ! n"

definition cache_hex :: "string \<Rightarrow> string" where
  "cache_hex bs = concat (map (\<lambda>b. [hex_digit_lower (byte_of b div 16), hex_digit_lower (byte_of b mod 16)]) bs)"

definition base64url_alphabet :: string where
  "base64url_alphabet = ''ABCDEFGHIJKLMNOPQRSTUVWXYZabcdefghijklmnopqrstuvwxyz0123456789-_''"

text \<open>
  \<open>cache_base64url\<close>: three bytes at a time, then one or two left over, without padding.
  The shifts and masks of the source on unsigned values are written as division and
  remainder by powers of two.
\<close>

fun cache_base64url :: "string \<Rightarrow> string" where
  "cache_base64url (x # y # z # rest) =
     (let a = byte_of x; b = byte_of y; c = byte_of z
      in [base64url_alphabet ! (a div 4),
          base64url_alphabet ! (a mod 4 * 16 + b div 16),
          base64url_alphabet ! (b mod 16 * 4 + c div 64),
          base64url_alphabet ! (c mod 64)] @ cache_base64url rest)"
| "cache_base64url [x, y] =
     (let a = byte_of x; b = byte_of y
      in [base64url_alphabet ! (a div 4),
          base64url_alphabet ! (a mod 4 * 16 + b div 16),
          base64url_alphabet ! (b mod 16 * 4)])"
| "cache_base64url [x] =
     (let a = byte_of x
      in [base64url_alphabet ! (a div 4), base64url_alphabet ! (a mod 4 * 16)])"
| "cache_base64url [] = []"

definition cache_component_needs_escape :: "string \<Rightarrow> bool" where
  "cache_component_needs_escape s \<longleftrightarrow>
     s = [] \<or> s = ''.'' \<or> s = ''..'' \<or> starts_with s kCacheEscapePrefix \<or>
     list_ex (\<lambda>ch. byte_of ch < 0x20 \<or> byte_of ch = 0x7f) s"

definition cache_encode_component ::
  "(string \<Rightarrow> string) \<Rightarrow> string \<Rightarrow> nat \<Rightarrow> string result" where
  "cache_encode_component sha256 component name_max =
     (if \<not> cache_component_needs_escape component \<and> length component \<le> name_max
      then Inr component
      else let encoded = kCacheEscapePrefix @ ''b'' @ cache_base64url component
           in if length encoded \<le> name_max then Inr encoded
              else let hashed = kCacheEscapePrefix @ ''h'' @ cache_hex (sha256 component)
                   in if length hashed > name_max
                      then Inl (SystemError ENAMETOOLONG ''cache filesystem NAME_MAX is too small'')
                      else Inr hashed)"

section \<open>Lemmas\<close>

lemma base64url_alphabet_length [simp]: "length base64url_alphabet = 64"
  by (simp add: base64url_alphabet_def)

lemma base64url_alphabet_distinct: "distinct base64url_alphabet"
  by code_simp

lemma base64url_char_eq:
  "i < 64 \<Longrightarrow> j < 64 \<Longrightarrow> base64url_alphabet ! i = base64url_alphabet ! j \<longleftrightarrow> i = j"
  by (simp add: nth_eq_iff_index_eq base64url_alphabet_distinct)

lemma base64url_alphabet_safe:
  "i < 64 \<Longrightarrow> base64url_alphabet ! i \<in> set base64url_alphabet"
  by simp

lemma byte_split_bounds [simp]:
  "byte_of c div 4 < 64" "byte_of c mod 4 * 16 < 64" "byte_of c mod 16 * 4 < 64"
  "byte_of c mod 64 < 64"
  "byte_of c mod 4 * 16 + byte_of d div 16 < 64"
  "byte_of c mod 16 * 4 + byte_of d div 64 < 64"
proof -
  have c: "byte_of c < 256" and d: "byte_of d < 256" by simp_all
  show "byte_of c div 4 < 64" using c by linarith
  show "byte_of c mod 4 * 16 < 64" "byte_of c mod 16 * 4 < 64" "byte_of c mod 64 < 64"
    by (simp_all add: mod_less_divisor less_Suc_eq_le [symmetric])
  have "byte_of d div 16 < 16" "byte_of d div 64 < 4" using d by linarith+
  moreover have "byte_of c mod 4 < 4" "byte_of c mod 16 < 16" by simp_all
  ultimately show "byte_of c mod 4 * 16 + byte_of d div 16 < 64"
    "byte_of c mod 16 * 4 + byte_of d div 64 < 64" by linarith+
qed

lemma two_digits_eq:
  assumes "a * m + b = a' * m + b'" and "b < m" and "b' < (m :: nat)"
  shows "a = a' \<and> b = b'"
proof -
  have "(a * m + b) div m = (a' * m + b') div m" "(a * m + b) mod m = (a' * m + b') mod m"
    by (simp_all only: assms(1))
  then show ?thesis using assms(2,3) by simp
qed

lemma byte_of_split_eq:
  assumes "byte_of c div m = byte_of d div m" and "byte_of c mod m = byte_of d mod m"
  shows "c = d"
  using assms by (metis byte_of_eq_iff div_mult_mod_eq)

lemma length_cache_base64url: "length (cache_base64url s) = (4 * length s + 2) div 3"
  by (induction s rule: cache_base64url.induct) (simp_all add: Let_def)

text \<open>The text determines the bytes.\<close>

lemma cache_base64url_inject: "cache_base64url s = cache_base64url t \<Longrightarrow> s = t"
proof (induction s arbitrary: t rule: cache_base64url.induct)
  case (1 x y z rest)
  have "length t \<ge> 3"
    using arg_cong [OF "1.prems", of length] by (simp add: length_cache_base64url Let_def)
  then obtain x' y' z' rest' where t: "t = x' # y' # z' # rest'"
    by (metis (no_types, opaque_lifting) Suc_le_length_iff numeral_3_eq_3)
  have e: "byte_of x div 4 = byte_of x' div 4"
    "byte_of x mod 4 * 16 + byte_of y div 16 = byte_of x' mod 4 * 16 + byte_of y' div 16"
    "byte_of y mod 16 * 4 + byte_of z div 64 = byte_of y' mod 16 * 4 + byte_of z' div 64"
    "byte_of z mod 64 = byte_of z' mod 64" "cache_base64url rest = cache_base64url rest'"
    using "1.prems" by (simp_all add: t Let_def base64url_char_eq)
  have small: "byte_of c div 16 < 16" "byte_of c div 64 < 4" for c
    using byte_of_less [of c] by linarith+
  have "byte_of x mod 4 = byte_of x' mod 4 \<and> byte_of y div 16 = byte_of y' div 16"
    by (rule two_digits_eq [OF e(2) small(1) small(1)])
  moreover have "byte_of y mod 16 = byte_of y' mod 16 \<and> byte_of z div 64 = byte_of z' div 64"
    by (rule two_digits_eq [OF e(3) small(2) small(2)])
  ultimately have "x = x'" "y = y'" "z = z'"
    using e(1,4) by (auto intro: byte_of_split_eq)
  with e(5) show ?case using "1.IH" by (simp add: t)
next
  case (2 x y)
  have "length t = 2"
    using arg_cong [OF "2.prems", of length] by (simp add: length_cache_base64url Let_def)
  then obtain x' y' where t: "t = [x', y']"
    by (metis (no_types, opaque_lifting) Suc_length_conv length_0_conv numeral_2_eq_2)
  have e: "byte_of x div 4 = byte_of x' div 4"
    "byte_of x mod 4 * 16 + byte_of y div 16 = byte_of x' mod 4 * 16 + byte_of y' div 16"
    "byte_of y mod 16 = byte_of y' mod 16"
    using "2.prems" by (simp_all add: t Let_def base64url_char_eq)
  have small: "byte_of c div 16 < 16" for c using byte_of_less [of c] by linarith
  have "byte_of x mod 4 = byte_of x' mod 4 \<and> byte_of y div 16 = byte_of y' div 16"
    by (rule two_digits_eq [OF e(2) small small])
  then show ?case using e(1,3) by (auto simp: t intro: byte_of_split_eq)
next
  case (3 x)
  have "length t = 1"
    using arg_cong [OF "3.prems", of length] by (simp add: length_cache_base64url Let_def)
  then obtain x' where t: "t = [x']" by (metis One_nat_def Suc_length_conv length_0_conv)
  have "byte_of x div 4 = byte_of x' div 4" "byte_of x mod 4 = byte_of x' mod 4"
    using "3.prems" by (simp_all add: t Let_def base64url_char_eq)
  then show ?case by (auto simp: t intro: byte_of_split_eq)
next
  case 4
  then have "(4 * length t + 2) div 3 = 0"
    by (metis cache_base64url.simps(4) length_cache_base64url list.size(3))
  then have "4 * length t + 2 < 3" by (simp add: div_eq_0_iff)
  then show ?case by simp
qed

lemma cache_base64url_set: "set (cache_base64url s) \<subseteq> set base64url_alphabet"
  by (induction s rule: cache_base64url.induct) (auto simp: Let_def)

lemma hex_digit_lower_in: "n < 16 \<Longrightarrow> hex_digit_lower n \<in> set hex_alphabet"
  unfolding hex_digit_lower_def by (rule nth_mem) (simp add: hex_alphabet_def)

lemma cache_hex_set: "set (cache_hex s) \<subseteq> set hex_alphabet"
proof -
  have "byte_of b div 16 < 16" for b using byte_of_less [of b] by linarith
  then show ?thesis by (auto simp: cache_hex_def hex_digit_lower_in)
qed

lemma length_zero_array [simp]: "length (zero_array n) = n"
  by (simp add: zero_array_def)

lemma memcpy_take: "n \<le> length src \<Longrightarrow> n \<le> length dst \<Longrightarrow> length (memcpy dst src n) = length dst"
  by (simp add: memcpy_def)

lemma cache_mapping_size_total:
  assumes "sz < 2 ^ 64"
  shows "cache_mapping_size sz kCacheBitmapUnit =
    Inr (kCacheMetaHeaderSize +
      ((if sz = 0 then 0 else (sz - 1) div kCacheBitmapUnit + 1) + 31) div 32 * 8)"
proof -
  let ?pages = "if sz = 0 then 0 else (sz - 1) div kCacheBitmapUnit + 1"
  have "(sz - 1) div kCacheBitmapUnit < 2 ^ 49"
    using assms by (simp add: kCacheBitmapUnit_def less_mult_imp_div_less)
  then have p: "?pages \<le> 2 ^ 49" by simp
  then have w: "(?pages + 31) div 32 \<le> 2 ^ 45" by (simp add: div_le_dividend)
  have "cache_bitmap_words sz kCacheBitmapUnit = Inr ((?pages + 31) div 32)"
    using p by (simp add: cache_bitmap_words_def Let_def UINT64_MAX_def)
  moreover have "(?pages + 31) div 32 \<le> (UINT64_MAX - kCacheMetaHeaderSize) div 8"
    using w by (simp add: UINT64_MAX_def kCacheMetaHeaderSize_def)
  ultimately show ?thesis by (simp add: cache_mapping_size_def)
qed


section \<open>Properties\<close>

text \<open>What a cache file name may look like: one directory entry, never a path.\<close>

definition safe_file_name :: "nat \<Rightarrow> string \<Rightarrow> bool" where
  "safe_file_name name_max s \<longleftrightarrow>
     s \<noteq> [] \<and> s \<noteq> ''.'' \<and> s \<noteq> ''..'' \<and> length s \<le> name_max \<and>
     (\<forall>ch\<in>set s. ch \<noteq> CHR ''/'' \<and> \<not> byte_of ch < 0x20 \<and> byte_of ch \<noteq> 0x7f)"

lemma escaped_alphabets_safe:
  "ch \<in> set base64url_alphabet \<union> set hex_alphabet \<union> set (kCacheEscapePrefix @ ''bh'') \<Longrightarrow>
   ch \<noteq> CHR ''/'' \<and> \<not> byte_of ch < 0x20 \<and> byte_of ch \<noteq> 0x7f"
proof -
  have "list_all (\<lambda>ch. ch \<noteq> CHR ''/'' \<and> \<not> byte_of ch < 0x20 \<and> byte_of ch \<noteq> 0x7f)
      (base64url_alphabet @ hex_alphabet @ kCacheEscapePrefix @ ''bh'')"
    by code_simp
  then show "ch \<in> set base64url_alphabet \<union> set hex_alphabet \<union> set (kCacheEscapePrefix @ ''bh'') \<Longrightarrow> ?thesis"
    unfolding list_all_iff set_append by blast
qed

lemma escaped_name_safe:
  assumes "set text \<subseteq> set base64url_alphabet \<union> set hex_alphabet" and "c = CHR ''b'' \<or> c = CHR ''h''"
    and "length (kCacheEscapePrefix @ [c] @ text) \<le> name_max"
  shows "safe_file_name name_max (kCacheEscapePrefix @ [c] @ text)"
proof -
  have "\<forall>ch\<in>set (kCacheEscapePrefix @ [c] @ text).
      ch \<noteq> CHR ''/'' \<and> \<not> byte_of ch < 0x20 \<and> byte_of ch \<noteq> 0x7f"
    using assms(1,2) by (intro ballI escaped_alphabets_safe) auto
  then show ?thesis using assms(3) by (simp add: safe_file_name_def kCacheEscapePrefix_def)
qed

lemma cache_encode_component_cases:
  assumes "cache_encode_component sha256 c n = Inr e"
  obtains (plain) "e = c" "\<not> cache_component_needs_escape c" "length c \<le> n"
  | (escaped) "e = kCacheEscapePrefix @ ''b'' @ cache_base64url c" "length e \<le> n"
  | (hashed) "e = kCacheEscapePrefix @ ''h'' @ cache_hex (sha256 c)" "length e \<le> n"
  using assms by (auto simp: cache_encode_component_def Let_def split: if_splits)

text \<open>
  Object keys cannot escape the cache directory: for every key component without a
  slash, \<open>cache_encode_component\<close> returns a single safe directory entry name (not empty,
  not \<^verbatim>\<open>.\<close> or \<^verbatim>\<open>..\<close>, no slash, no control byte, within \<^verbatim>\<open>NAME_MAX\<close>), and two
  different components get different names unless both are so long that they are stored
  under their SHA-256.
\<close>

lemma cache_file_names_safe_and_distinct:
  assumes "CHR ''/'' \<notin> set c" and "cache_encode_component sha256 c n = Inr e"
  shows "safe_file_name n e \<and>
    (\<forall>d. cache_encode_component sha256 d n = Inr e \<longrightarrow>
       d = c \<or> (e = kCacheEscapePrefix @ ''h'' @ cache_hex (sha256 c) \<and>
                cache_hex (sha256 d) = cache_hex (sha256 c)))"
proof
  show "safe_file_name n e" using assms(2)
  proof (cases rule: cache_encode_component_cases)
    case plain
    then show ?thesis using assms(1)
      by (auto simp: safe_file_name_def cache_component_needs_escape_def list_ex_iff)
  next
    case escaped
    then show ?thesis
      using escaped_name_safe [of "cache_base64url c" "CHR ''b''"] cache_base64url_set [of c] by auto
  next
    case hashed
    then show ?thesis
      using escaped_name_safe [of "cache_hex (sha256 c)" "CHR ''h''"] cache_hex_set by auto
  qed
  have escape: "cache_component_needs_escape (kCacheEscapePrefix @ t)" for t
    by (simp add: cache_component_needs_escape_def)
  show "\<forall>d. cache_encode_component sha256 d n = Inr e \<longrightarrow>
       d = c \<or> (e = kCacheEscapePrefix @ ''h'' @ cache_hex (sha256 c) \<and>
                cache_hex (sha256 d) = cache_hex (sha256 c))"
  proof (intro allI impI)
    fix d assume "cache_encode_component sha256 d n = Inr e"
    then show "d = c \<or> (e = kCacheEscapePrefix @ ''h'' @ cache_hex (sha256 c) \<and>
                cache_hex (sha256 d) = cache_hex (sha256 c))"
      by (cases rule: cache_encode_component_cases)
         (use assms(2) escape in
           \<open>auto elim!: cache_encode_component_cases dest: cache_base64url_inject\<close>)
  qed
qed

lemma cache_file_names_safe_and_distinct_example:
  "cache_encode_component (\<lambda>s. s) ''..'' 255 = Inr ''.~ngs3fs~.bLi4'' \<and>
   safe_file_name 255 ''.~ngs3fs~.bLi4''"
proof -
  have e: "cache_encode_component (\<lambda>s. s) ''..'' 255 = Inr ''.~ngs3fs~.bLi4''" by code_simp
  with cache_file_names_safe_and_distinct [OF _ e] show ?thesis by simp
qed


lemma memcmp_memcpy:
  "length k = length k' \<Longrightarrow> length k \<le> length dst \<Longrightarrow>
   memcmp_eq (memcpy dst k (length k)) k' (length k') \<longleftrightarrow> k = k'"
  by (simp add: memcmp_eq_def memcpy_def)

lemma fresh_meta_header_sel:
  "m_magic (fresh_meta_header a u e) = ''NGS3CACH''"
  "m_version (fresh_meta_header a u e) = kCacheMetaVersion"
  "m_header_size (fresh_meta_header a u e) = kCacheMetaHeaderSize"
  "m_bitmap_unit (fresh_meta_header a u e) = u mod 2 ^ 32"
  "m_dirty (fresh_meta_header a u e) = False"
  "m_object_size (fresh_meta_header a u e) = id_size a"
  "m_mtime (fresh_meta_header a u e) = id_mtime a"
  "m_generation_epoch (fresh_meta_header a u e) = e"
  "m_key_length (fresh_meta_header a u e) = length (id_key a)"
  "m_etag_length (fresh_meta_header a u e) = length (id_etag a)"
  "m_version_length (fresh_meta_header a u e) = length (id_version_id a)"
  "m_upload_id_length (fresh_meta_header a u e) = 0"
  "m_write_id_length (fresh_meta_header a u e) = 0"
  "m_key (fresh_meta_header a u e) =
     memcpy (zero_array kCacheKeyCapacity) (id_key a) (length (id_key a))"
  "m_etag (fresh_meta_header a u e) =
     memcpy (zero_array kCacheEtagCapacity) (id_etag a) (length (id_etag a))"
  "m_version_id (fresh_meta_header a u e) =
     memcpy (zero_array kCacheVersionCapacity) (id_version_id a) (length (id_version_id a))"
  by (simp_all add: fresh_meta_header_def)

lemma array_matches:
  assumes "length k \<le> n"
  shows "length k' = length k \<and> \<not> length k > length (memcpy (zero_array n) k (length k)) \<and>
      (length k' \<noteq> 0 \<longrightarrow> memcmp_eq (memcpy (zero_array n) k (length k)) k' (length k')) \<longleftrightarrow> k' = k"
proof (cases "length k' = length k")
  case True
  have "take (length k) (memcpy (zero_array n) k (length k)) = k"
    by (simp add: memcpy_def)
  moreover have "take (length k) k' = k'" using True by simp
  moreover have "length (memcpy (zero_array n) k (length k)) = n"
    using assms by (simp add: memcpy_take)
  ultimately show ?thesis unfolding memcmp_eq_def True using assms by auto
next
  case False
  then show ?thesis by blast
qed

lemma if_chain:
  "(if A then False else if B then False else if C then True else D) \<longleftrightarrow> \<not> A \<and> \<not> B \<and> (C \<or> D)"
  by auto

lemma fresh_meta_header_matches:
  assumes "length (id_key a) \<le> kCacheKeyCapacity" "length (id_etag a) \<le> kCacheEtagCapacity"
    "length (id_version_id a) \<le> kCacheVersionCapacity" "0 < epoch"
  shows "cache_identity_matches (fresh_meta_header a kCacheBitmapUnit epoch) b kCacheBitmapUnit \<longleftrightarrow>
      id_key b = id_key a \<and> id_etag b = id_etag a \<and> id_version_id b = id_version_id a \<and>
      id_size b = id_size a \<and>
      (id_etag a = [] \<and> id_version_id a = [] \<longrightarrow> id_mtime b = id_mtime a)"
proof -
  have unit: "kCacheBitmapUnit mod 2 ^ 32 = kCacheBitmapUnit" by (simp add: kCacheBitmapUnit_def)
  note m = array_matches [OF assms(1), of "id_key b"] array_matches [OF assms(2), of "id_etag b"]
    array_matches [OF assms(3), of "id_version_id b"]
  have "cache_identity_matches (fresh_meta_header a kCacheBitmapUnit epoch) b kCacheBitmapUnit \<longleftrightarrow>
      id_size a = id_size b \<and> id_key b = id_key a \<and> id_etag b = id_etag a \<and>
      id_version_id b = id_version_id a \<and>
      (id_version_id b \<noteq> [] \<or> id_etag b \<noteq> [] \<or> id_mtime a = id_mtime b)"
    unfolding cache_identity_matches_def fresh_meta_header_sel unit if_chain m [symmetric]
    using assms(4)
    by (simp only: de_Morgan_disj de_Morgan_conj not_not simp_thms not_less_zero neq0_conv
         eq_commute [of "length (id_key a)"] eq_commute [of "length (id_etag a)"]
         eq_commute [of "length (id_version_id a)"]) blast
  then show ?thesis by auto
qed

lemma cache_initialize_root_matches:
  assumes "cache_initialize_root cfg = Inr r"
  shows "cache_root_matches r cfg' \<longleftrightarrow> namespace_id cfg' = namespace_id cfg"
proof -
  from assms have len: "length (namespace_id cfg) \<le> kCacheNamespaceCapacity"
    by (simp add: cache_initialize_root_def split: if_splits)
  from assms len have r: "r_magic r = ''NGS3ROOT''" "r_version r = kCacheRootVersion"
    "r_header_size r = kCacheRootHeaderSize" "r_byte_order r = kCacheByteOrder"
    "r_bitmap_unit r = kCacheBitmapUnit" "r_path_version r = kCachePathVersion"
    "r_namespace_length r = length (namespace_id cfg)"
    "r_namespace_id r = memcpy (zero_array kCacheNamespaceCapacity) (namespace_id cfg)
       (length (namespace_id cfg))"
    by (auto simp: cache_initialize_root_def)
  show ?thesis
    unfolding cache_root_matches_def r
    using array_matches [OF len, of "namespace_id cfg'"] by (auto simp: memcmp_eq_def)
qed

text \<open>
  C11. A cached generation is only ever reused for the object it was made for: the header
  that \<open>cache_initialize_header\<close> writes for an identity matches another identity exactly
  when key, ETag, version and size agree and, if there is neither ETag nor version, the
  modification time does; likewise a cache root only accepts its own namespace.
\<close>

theorem cache_headers_match_only_their_identity:
  assumes "cache_initialize_header a kCacheBitmapUnit epoch = Inr h" and "0 < epoch"
    and "cache_initialize_root cfg = Inr r"
  shows "(cache_identity_matches h b kCacheBitmapUnit \<longleftrightarrow>
      id_key b = id_key a \<and> id_etag b = id_etag a \<and> id_version_id b = id_version_id a \<and>
      id_size b = id_size a \<and>
      (id_etag a = [] \<and> id_version_id a = [] \<longrightarrow> id_mtime b = id_mtime a))
    \<and> (cache_root_matches r cfg' \<longleftrightarrow> namespace_id cfg' = namespace_id cfg)"
proof
  from assms(1) have "length (id_key a) \<le> kCacheKeyCapacity"
    "length (id_etag a) \<le> kCacheEtagCapacity" "length (id_version_id a) \<le> kCacheVersionCapacity"
    and h: "h = fresh_meta_header a kCacheBitmapUnit epoch"
    by (auto simp: cache_initialize_header_def split: if_splits)
  from this(1-3) show "cache_identity_matches h b kCacheBitmapUnit \<longleftrightarrow>
      id_key b = id_key a \<and> id_etag b = id_etag a \<and> id_version_id b = id_version_id a \<and>
      id_size b = id_size a \<and>
      (id_etag a = [] \<and> id_version_id a = [] \<longrightarrow> id_mtime b = id_mtime a)"
    unfolding h by (rule fresh_meta_header_matches) (fact assms(2))
  show "cache_root_matches r cfg' \<longleftrightarrow> namespace_id cfg' = namespace_id cfg"
    by (rule cache_initialize_root_matches [OF assms(3)])
qed

theorem cache_headers_match_only_their_identity_witness:
  "\<exists>h r. cache_initialize_header
       \<lparr>id_key = ''k'', id_etag = ''e'', id_version_id = [], id_size = 7, id_mtime = 0\<rparr>
       kCacheBitmapUnit 1 = Inr h \<and>
     \<not> cache_identity_matches h
       \<lparr>id_key = ''k'', id_etag = ''f'', id_version_id = [], id_size = 7, id_mtime = 0\<rparr>
       kCacheBitmapUnit \<and> cache_root_matches r
       \<lparr>cfg_root = ''/c'', namespace_id = ''n'', maximum_bytes = 0, reserve_bytes = 0, reserve_percent = 5,
        max_prefetch_window_size = 134217728, cfg_page_size = 4096, cfg_block_size = 2097152, upload_part_size = 8388608,
        cfg_checksum_algorithm = 0, reserve_is_percent = True, unlimited = False\<rparr>"
proof -
  let ?a = "\<lparr>id_key = ''k'', id_etag = ''e'', id_version_id = [], id_size = 7, id_mtime = 0\<rparr>"
  let ?cfg = "\<lparr>cfg_root = ''/c'', namespace_id = ''n'', maximum_bytes = 0, reserve_bytes = 0, reserve_percent = 5,
        max_prefetch_window_size = 134217728, cfg_page_size = 4096, cfg_block_size = 2097152, upload_part_size = 8388608,
        cfg_checksum_algorithm = 0, reserve_is_percent = True, unlimited = False\<rparr>"
  obtain h r where "cache_initialize_header ?a kCacheBitmapUnit 1 = Inr h"
    and "cache_initialize_root ?cfg = Inr r"
    by (simp add: cache_initialize_header_def cache_initialize_root_def cache_capacity_defs)
  with cache_headers_match_only_their_identity [OF this(1) _ this(2)] show ?thesis
    by (intro exI [of _ h] exI [of _ r]) simp
qed

end
