(* ===== verification/Cache_Entry.thy ===== *)
theory Cache_Entry
  imports Cache_Meta
begin

text \<open>
  One cached generation of an object (\<^verbatim>\<open>class CacheEntry\<close> of
  \<^verbatim>\<open>src/src/cache.hpp\<close> and \<^verbatim>\<open>src/src/cache.cpp\<close>): its state and
  every operation. Each operation is the critical section of the method under
  \<^verbatim>\<open>mutex_\<close>. A method that blocks in a loop is one turn of that loop, with the
  outcome \<open>Block\<close> when it has to wait. What the operating system decides is an argument:
  \<open>hole\<close> says at which offsets punching a hole in the data file succeeds, \<open>ev\<close> is the
  errno of creating the event file (0 for success).
\<close>

section \<open>Data\<close>

record CacheFetchClaim =
  cl_offset :: nat
  cl_epoch :: nat
  cl_id :: u64
  cl_length :: nat

definition no_claim :: CacheFetchClaim where
  "no_claim = \<lparr>cl_offset = 0, cl_epoch = 0, cl_id = 0, cl_length = 0\<rparr>"

record CacheChecksumPart =
  part_offset :: nat
  part_size :: nat
  part_algorithm :: nat
  part_value :: string

datatype CacheChecksumAction =
  CACHE_CHECKSUM_NONE | CACHE_CHECKSUM_WAIT | CACHE_CHECKSUM_VERIFY | CACHE_CHECKSUM_BAD

record CacheChecksumClaim =
  cc_action :: CacheChecksumAction
  cc_offset :: nat
  cc_size :: nat
  cc_epoch :: nat
  cc_part :: nat
  cc_algorithm :: nat
  cc_value :: string

definition plain_checksum_claim :: "CacheChecksumAction \<Rightarrow> CacheChecksumClaim" where
  "plain_checksum_claim action =
     \<lparr>cc_action = action, cc_offset = 0, cc_size = 0, cc_epoch = 0, cc_part = 0,
      cc_algorithm = 0, cc_value = []\<rparr>"

datatype checksum_manifest_state =
  kChecksumUnknown | kChecksumLoading | kChecksumAvailable | kChecksumUnavailable

text \<open>The codes of the source number the constructors from zero in this order.\<close>

datatype checksum_part_state =
  kPartUnverified | kPartVerifying | kPartRetrying | kPartVerified | kPartBad

record CacheIdentitySnapshot =
  snap_key :: string
  snap_etag :: string
  snap_version_id :: string
  snap_size :: nat
  snap_epoch :: nat

record ActiveFetch =
  af_id :: u64
  af_epoch :: nat
  af_offset :: nat
  af_length :: nat
  af_published :: nat
  af_verifying :: bool
  af_retrying :: bool
  af_prior_states :: "CachePageState list"

text \<open>
  The entry. \<^verbatim>\<open>page_size_\<close> is the constant \<open>kCacheBitmapUnit\<close>; the mapping is its
  header and the bitmap words behind it; \<open>e_dirty_marker\<close> is \<^verbatim>\<open>dirty_fd_ >= 0\<close>;
  \<open>e_wait_event\<close> is the counter of the semaphore \<^verbatim>\<open>eventfd\<close> behind
  \<^verbatim>\<open>wait_fd_\<close>, once it exists; \<open>e_data\<close> are the pages of the data file that hold
  bytes of the object, the rest of the sparse file being holes. The number of waiters is a
  32-bit counter of the source: every waiter is a thread or a request of the process, and
  fewer than \<open>2 ^ 32\<close> of them wait on one generation.
\<close>

record CacheEntry =
  e_config :: CacheConfig
  e_key :: string
  e_header :: CacheMetaHeader
  e_bitmap :: "u64 list"
  e_dirty_marker :: bool
  e_size :: nat
  e_epoch :: nat
  e_block_size :: nat
  e_page_count :: nat
  e_wait_event :: "nat option"
  e_waiters :: nat
  e_referenced :: "bool list"
  e_region_pins :: "nat list"
  e_active_claims :: "ActiveFetch list"
  e_reserved_units :: "bool list"
  e_checksum_parts :: "CacheChecksumPart list"
  e_checksum_states :: "checksum_part_state list"
  e_next_claim_id :: u64
  e_clock_hand :: u64
  e_checksum_ops :: nat
  e_pinned_regions :: u64
  e_checksum_manifest :: checksum_manifest_state
  e_eviction_disabled :: bool
  e_detached :: bool
  e_stale :: bool
  e_data :: "nat set"

datatype 'a blocking = Ready 'a | Block

abbreviation e_dirty :: "CacheEntry \<Rightarrow> bool" where
  "e_dirty e \<equiv> m_dirty (e_header e)"

abbreviation e_exported :: "CacheEntry \<Rightarrow> bool" where
  "e_exported e \<equiv> m_exported (e_header e)"

section \<open>Blocks, pages and holes\<close>

definition block_first_page :: "CacheEntry \<Rightarrow> nat \<Rightarrow> nat" where
  "block_first_page e offset =
     (offset div e_block_size e * e_block_size e) div kCacheBitmapUnit"

definition block_last_page :: "CacheEntry \<Rightarrow> nat \<Rightarrow> nat" where
  "block_last_page e offset =
     (let first = offset div e_block_size e * e_block_size e;
          stop = min (e_size e) (wrap64 (first + e_block_size e))
      in if stop = 0 then 0
         else min (e_page_count e) ((stop - 1) div kCacheBitmapUnit + 1))"

definition block_pages :: "CacheEntry \<Rightarrow> nat \<Rightarrow> nat list" where
  "block_pages e offset = [block_first_page e offset ..< block_last_page e offset]"

text \<open>The two page loops of the methods: store one state, replace one state by another.\<close>

definition fill_states :: "CachePageState \<Rightarrow> nat list \<Rightarrow> u64 list \<Rightarrow> u64 list" where
  "fill_states s pages words = fold (\<lambda>page. set_page_state page s) pages words"

definition replace_states ::
  "CachePageState \<Rightarrow> CachePageState \<Rightarrow> nat list \<Rightarrow> u64 list \<Rightarrow> u64 list" where
  "replace_states a b pages words =
     fold (\<lambda>page w. if page_state w page = a then set_page_state page b w else w) pages words"

text \<open>\<open>LocalCache::punch_range\<close> as far as the data file is concerned.\<close>

definition punch_range :: "(nat \<Rightarrow> bool) \<Rightarrow> nat \<Rightarrow> nat \<Rightarrow> nat set \<Rightarrow> nat set" where
  "punch_range hole offset len pages =
     (if len = 0 \<or> \<not> hole offset then pages
      else pages - set [offset div kCacheBitmapUnit ..< (offset + len) div kCacheBitmapUnit])"

section \<open>Waiters\<close>

definition notify_waiters_locked :: "CacheEntry \<Rightarrow> CacheEntry" where
  "notify_waiters_locked e =
     (case e_wait_event e of
        None \<Rightarrow> e
      | Some n \<Rightarrow> if e_waiters e = 0 then e else e\<lparr>e_wait_event := Some (n + e_waiters e)\<rparr>)"

definition register_waiter :: "nat \<Rightarrow> string \<Rightarrow> CacheEntry \<Rightarrow> CacheEntry result" where
  "register_waiter ev what e =
     (case e_wait_event e of
        Some n \<Rightarrow> Inr (e\<lparr>e_waiters := e_waiters e + 1\<rparr>)
      | None \<Rightarrow>
          if ev \<noteq> 0 then Inl (SystemError ev what)
          else Inr (e\<lparr>e_wait_event := Some 0, e_waiters := e_waiters e + 1\<rparr>))"

text \<open>
  \<open>wait_locked\<close> registers, blocks in \<^verbatim>\<open>read\<close> until the semaphore has a token,
  takes it and deregisters. The two halves are separate steps.
\<close>

definition wait_locked_enter :: "nat \<Rightarrow> CacheEntry \<Rightarrow> CacheEntry result" where
  "wait_locked_enter ev = register_waiter ev ''create cache wait event''"

definition take_token :: "CacheEntry \<Rightarrow> CacheEntry option" where
  "take_token e =
     (case e_wait_event e of
        Some (Suc n) \<Rightarrow> Some (e\<lparr>e_wait_event := Some n\<rparr>)
      | _ \<Rightarrow> None)"

text \<open>\<open>None\<close> is the call of \<^verbatim>\<open>abort()\<close>.\<close>

definition end_async_wait :: "CacheEntry \<Rightarrow> CacheEntry option" where
  "end_async_wait e =
     (if e_waiters e = 0 then None else Some (e\<lparr>e_waiters := e_waiters e - 1\<rparr>))"

section \<open>Construction\<close>

text \<open>
  One turn of the constructor's loop over the blocks: a page left pending by an earlier
  process is missing, and a block without any other page is punched out.
\<close>

definition recover_block ::
  "bool \<Rightarrow> (nat \<Rightarrow> bool) \<Rightarrow> nat \<Rightarrow> CacheEntry \<Rightarrow> CacheEntry" where
  "recover_block punch_missing hole block e =
     (let offset = block * e_block_size e;
          pages = block_pages e offset;
          had_pending = list_ex (\<lambda>p. page_state (e_bitmap e) p = CACHE_PAGE_READ_PENDING) pages;
          words = replace_states CACHE_PAGE_READ_PENDING CACHE_PAGE_MISSING pages (e_bitmap e);
          all_missing = had_pending \<and> list_all (\<lambda>p. page_state words p = CACHE_PAGE_MISSING) pages
      in e\<lparr>e_bitmap := words,
           e_data := (if punch_missing \<and> all_missing \<and> \<not> e_exported e
                      then punch_range hole offset (e_block_size e) (e_data e)
                      else e_data e)\<rparr>)"

definition CacheEntry_new ::
  "CacheConfig \<Rightarrow> string \<Rightarrow> CacheMetaHeader \<Rightarrow> u64 list \<Rightarrow> bool \<Rightarrow> nat \<Rightarrow> nat set \<Rightarrow> bool \<Rightarrow>
   (nat \<Rightarrow> bool) \<Rightarrow> CacheEntry" where
  "CacheEntry_new config key header words dirty_marker sz pages punch_missing hole =
     (let regions = (if sz = 0 then 0 else (sz - 1) div cfg_block_size config + 1);
          e = \<lparr>e_config = config, e_key = key, e_header = header, e_bitmap = words,
               e_dirty_marker = dirty_marker, e_size = sz,
               e_epoch = m_generation_epoch header,
               e_block_size = cfg_block_size config,
               e_page_count = (if sz = 0 then 0 else (sz - 1) div kCacheBitmapUnit + 1),
               e_wait_event = None, e_waiters = 0,
               e_referenced = replicate regions False, e_region_pins = replicate regions 0,
               e_active_claims = [], e_reserved_units = [], e_checksum_parts = [],
               e_checksum_states = [], e_next_claim_id = 1, e_clock_hand = 0,
               e_checksum_ops = 0, e_pinned_regions = 0,
               e_checksum_manifest = kChecksumUnknown,
               e_eviction_disabled = m_exported header, e_detached = False, e_stale = False,
               e_data = pages\<rparr>
      in fold (recover_block punch_missing hole) [0..<regions] e)"

section \<open>Queries\<close>

definition etag :: "CacheEntry \<Rightarrow> string result" where
  "etag e =
     (let h = e_header e
      in if m_etag_length h > length (m_etag h) then Inl (RuntimeError ''invalid cached ETag'')
         else Inr (take (m_etag_length h) (m_etag h)))"

definition version_id :: "CacheEntry \<Rightarrow> string result" where
  "version_id e =
     (let h = e_header e
      in if m_version_length h > length (m_version_id h)
         then Inl (RuntimeError ''invalid cached Version ID'')
         else Inr (take (m_version_length h) (m_version_id h)))"

definition identity_snapshot :: "CacheEntry \<Rightarrow> CacheIdentitySnapshot result" where
  "identity_snapshot e =
     (let h = e_header e
      in if m_etag_length h > length (m_etag h) \<or> m_version_length h > length (m_version_id h)
         then Inl (RuntimeError ''invalid cached identity'')
         else Inr \<lparr>snap_key = e_key e, snap_etag = take (m_etag_length h) (m_etag h),
                   snap_version_id = take (m_version_length h) (m_version_id h),
                   snap_size = e_size e, snap_epoch = e_epoch e\<rparr>)"

definition write_id :: "CacheEntry \<Rightarrow> string result" where
  "write_id e =
     (let h = e_header e
      in if m_write_id_length h > length (m_write_id h)
         then Inl (RuntimeError ''invalid cached write ID'')
         else Inr (take (m_write_id_length h) (m_write_id h)))"

definition upload_id :: "CacheEntry \<Rightarrow> string result" where
  "upload_id e =
     (let h = e_header e
      in if m_upload_id_length h > length (m_upload_id h)
         then Inl (RuntimeError ''invalid cached multipart upload ID'')
         else Inr (take (m_upload_id_length h) (m_upload_id h)))"

definition range_clean :: "CacheEntry \<Rightarrow> nat \<Rightarrow> nat \<Rightarrow> bool" where
  "range_clean e offset len \<longleftrightarrow>
     \<not> e_stale e \<and> range_all_state (e_bitmap e) offset len CACHE_PAGE_CLEAN"

definition range_available_or_pending :: "CacheEntry \<Rightarrow> nat \<Rightarrow> nat \<Rightarrow> bool" where
  "range_available_or_pending e offset len =
     (if e_stale e \<or> len = 0 \<or> offset \<ge> e_size e then False
      else let n = min len (e_size e - offset)
           in list_all (\<lambda>p. page_state (e_bitmap e) p \<in> {CACHE_PAGE_CLEAN, CACHE_PAGE_READ_PENDING})
                [range_first_page offset ..< Suc (range_last_page offset n)])"

definition range_bad :: "CacheEntry \<Rightarrow> nat \<Rightarrow> nat \<Rightarrow> bool" where
  "range_bad e offset len =
     (if e_stale e then False
      else if len = 0 then False
      else list_ex (\<lambda>p. page_state (e_bitmap e) p = CACHE_PAGE_BAD)
             [range_first_page offset ..< Suc (range_last_page offset len)])"

definition fully_clean :: "CacheEntry \<Rightarrow> bool" where
  "fully_clean e \<longleftrightarrow>
     \<not> e_stale e \<and> \<not> e_dirty e \<and>
     range_all_state (e_bitmap e) 0 (min (e_size e) UINT64_MAX) CACHE_PAGE_CLEAN"

definition try_export :: "bool \<Rightarrow> CacheEntry \<Rightarrow> bool \<times> CacheEntry" where
  "try_export verify e =
     (if \<not> unlimited (e_config e) \<or> e_stale e \<or> e_detached e \<or> e_dirty e \<or>
         e_active_claims e \<noteq> [] \<or> e_checksum_ops e \<noteq> 0 \<or> e_pinned_regions e \<noteq> 0 \<or>
         kPartBad \<in> set (e_checksum_states e) \<or>
         \<not> range_all_state (e_bitmap e) 0 (min (e_size e) UINT64_MAX) CACHE_PAGE_CLEAN
      then (False, e)
      else if verify \<and>
         (e_checksum_manifest e \<noteq> kChecksumAvailable \<or>
          (e_size e \<noteq> 0 \<and> e_checksum_parts e = []) \<or>
          length (e_checksum_states e) \<noteq> length (e_checksum_parts e) \<or>
          kPartUnverified \<in> set (e_checksum_states e) \<or>
          list_ex (\<lambda>s. s \<noteq> kPartVerified) (e_checksum_states e))
      then (False, e)
      else (True, e\<lparr>e_header := (e_header e)\<lparr>m_exported := True\<rparr>, e_eviction_disabled := True\<rparr>))"

section \<open>Verification states of a byte range\<close>

fun blocked_scan ::
  "(CacheChecksumPart \<times> checksum_part_state) list \<Rightarrow> nat \<Rightarrow> checksum_part_state \<Rightarrow>
   checksum_part_state" where
  "blocked_scan [] stop blocked = blocked"
| "blocked_scan ((part, s) # rest) stop blocked =
     (if \<not> part_offset part < stop then blocked
      else if s = kPartBad then kPartBad
      else blocked_scan rest stop (if s = kPartRetrying then s else blocked))"

text \<open>The result 0 of the source is \<open>kPartUnverified\<close>.\<close>

definition checksum_blocked_locked :: "CacheEntry \<Rightarrow> nat \<Rightarrow> nat \<Rightarrow> checksum_part_state" where
  "checksum_blocked_locked e offset len =
     (if e_stale e \<or> offset \<ge> e_size e \<or> len = 0 then kPartUnverified
      else let stop = offset + min len (e_size e - offset);
               parts = e_checksum_parts e;
               first = lower_bound (\<lambda>item. wrap64 (part_offset item + part_size item) \<le> offset)
                         parts 0 (length parts)
           in blocked_scan (drop first (zip parts (e_checksum_states e))) stop kPartUnverified)"

definition checksum_failed :: "CacheEntry \<Rightarrow> nat \<Rightarrow> nat \<Rightarrow> bool" where
  "checksum_failed e offset len \<longleftrightarrow> checksum_blocked_locked e offset len = kPartBad"

text \<open>A block of the range that has a pending page, or a hole while it is pinned, is not ready.\<close>

definition block_ready :: "CacheEntry \<Rightarrow> nat \<Rightarrow> bool" where
  "block_ready e block =
     (let pages = block_pages e (block * e_block_size e)
      in if list_ex (\<lambda>p. page_state (e_bitmap e) p = CACHE_PAGE_READ_PENDING) pages then False
         else \<not> (list_ex (\<lambda>p. page_state (e_bitmap e) p \<noteq> CACHE_PAGE_CLEAN) pages \<and>
                 block < length (e_region_pins e) \<and> e_region_pins e ! block \<noteq> 0))"

definition range_ready_locked :: "CacheEntry \<Rightarrow> nat \<Rightarrow> nat \<Rightarrow> bool" where
  "range_ready_locked e offset len =
     (if e_stale e \<or> len = 0 then True
      else let checksum = checksum_blocked_locked e offset len;
               pages = [range_first_page offset ..< Suc (range_last_page offset len)]
           in if checksum = kPartBad then True
              else if checksum = kPartRetrying then False
              else if list_ex (\<lambda>p. page_state (e_bitmap e) p = CACHE_PAGE_BAD) pages then True
              else if list_ex (\<lambda>p. page_state (e_bitmap e) p = CACHE_PAGE_READ_PENDING) pages
              then False
              else list_all (block_ready e)
                [offset div e_block_size e ..<
                 Suc (wrap64 (offset + len - 1) div e_block_size e)])"

section \<open>Pins\<close>

definition span_last :: "CacheEntry \<Rightarrow> nat \<Rightarrow> nat \<Rightarrow> nat" where
  "span_last e offset len =
     min (length (e_region_pins e)) (wrap64 (offset + len - 1) div e_block_size e + 1)"

definition span :: "CacheEntry \<Rightarrow> nat \<Rightarrow> nat \<Rightarrow> nat list" where
  "span e offset len = [offset div e_block_size e ..< span_last e offset len]"

definition increment_pins :: "nat list \<Rightarrow> nat list \<Rightarrow> nat list" where
  "increment_pins regions pins = fold (\<lambda>r ps. ps[r := ps ! r + 1]) regions pins"

text \<open>The count of pinned regions wraps when the range starts behind the last region.\<close>

definition add_pins :: "nat \<Rightarrow> nat \<Rightarrow> CacheEntry \<Rightarrow> CacheEntry" where
  "add_pins offset len e =
     e\<lparr>e_region_pins := increment_pins (span e offset len) (e_region_pins e),
       e_pinned_regions := e_pinned_regions e +
         (of_nat (span_last e offset len) - of_nat (offset div e_block_size e))\<rparr>"

text \<open>The loop that gives pins back; its last component is \<^verbatim>\<open>released_region\<close>.\<close>

fun release_pins :: "nat list \<Rightarrow> nat list \<times> u64 \<times> bool \<Rightarrow> nat list \<times> u64 \<times> bool" where
  "release_pins [] st = st"
| "release_pins (r # rs) (pins, pinned, released) =
     (if pins ! r \<noteq> 0 then release_pins rs (pins[r := pins ! r - 1], pinned - 1, True)
      else release_pins rs (pins, pinned, released))"

definition drop_pins :: "nat list \<Rightarrow> CacheEntry \<Rightarrow> bool \<times> CacheEntry" where
  "drop_pins regions e =
     (let (pins, pinned, released) = release_pins regions (e_region_pins e, e_pinned_regions e, False)
      in (released, e\<lparr>e_region_pins := pins, e_pinned_regions := pinned\<rparr>))"

definition reference_regions :: "nat list \<Rightarrow> bool list \<Rightarrow> bool list" where
  "reference_regions regions refs = fold (\<lambda>r rs. rs[r := True]) regions refs"

definition pin_clean :: "nat \<Rightarrow> nat \<Rightarrow> CacheEntry \<Rightarrow> (bool \<times> CacheEntry) result" where
  "pin_clean offset len e =
     (if e_stale e then Inr (False, e)
      else if len = 0 then Inr (True, e)
      else if \<not> range_all_state (e_bitmap e) offset len CACHE_PAGE_CLEAN \<or>
              checksum_blocked_locked e offset len \<noteq> kPartUnverified then Inr (False, e)
      else if list_ex (\<lambda>r. e_region_pins e ! r = UINT32_MAX) (span e offset len)
      then Inl (OverflowError ''cache region pin count overflow'')
      else let e' = add_pins offset len e
           in Inr (True, e'\<lparr>e_referenced :=
                reference_regions (span e offset len) (e_referenced e')\<rparr>))"

definition pin :: "nat \<Rightarrow> nat \<Rightarrow> CacheEntry \<Rightarrow> CacheEntry result" where
  "pin offset len e =
     (if e_stale e then Inl (SystemError ESTALE ''pin stale cache generation'')
      else if len = 0 then Inr e
      else if list_ex (\<lambda>r. e_region_pins e ! r = UINT32_MAX) (span e offset len)
      then Inl (OverflowError ''cache region pin count overflow'')
      else Inr (add_pins offset len e))"

definition unpin :: "nat \<Rightarrow> nat \<Rightarrow> CacheEntry \<Rightarrow> CacheEntry" where
  "unpin offset len e =
     (if len = 0 then e
      else let (released, e') = drop_pins (span e offset len) e
           in if released then notify_waiters_locked e' else e')"

definition touch :: "nat \<Rightarrow> nat \<Rightarrow> CacheEntry \<Rightarrow> CacheEntry" where
  "touch offset len e =
     (if len = 0 \<or> e_referenced e = [] then e
      else e\<lparr>e_referenced :=
             reference_regions
               [offset div e_block_size e ..<
                min (length (e_referenced e)) (wrap64 (offset + len - 1) div e_block_size e + 1)]
               (e_referenced e)\<rparr>)"

definition disable_eviction :: "CacheEntry \<Rightarrow> CacheEntry" where
  "disable_eviction e = e\<lparr>e_eviction_disabled := True\<rparr>"

section \<open>Fetches\<close>

text \<open>
  The first page of the wanted range that is not clean, when it is missing; a pending or bad
  page before it ends the search without a claim, as does a clean range.
\<close>

fun first_missing :: "u64 list \<Rightarrow> nat list \<Rightarrow> nat option" where
  "first_missing words [] = None"
| "first_missing words (page # pages) =
     (if page_state words page = CACHE_PAGE_CLEAN then first_missing words pages
      else if page_state words page \<noteq> CACHE_PAGE_MISSING then None
      else Some page)"

definition block_blocked :: "CacheEntry \<Rightarrow> nat \<Rightarrow> bool" where
  "block_blocked e block \<longleftrightarrow>
     (let region = block div e_block_size e
      in (region < length (e_region_pins e) \<and> e_region_pins e ! region \<noteq> 0) \<or>
         list_ex (\<lambda>p. page_state (e_bitmap e) p = CACHE_PAGE_READ_PENDING \<or>
                      page_state (e_bitmap e) p = CACHE_PAGE_BAD) (block_pages e block))"

definition block_all_clean :: "CacheEntry \<Rightarrow> nat \<Rightarrow> bool" where
  "block_all_clean e block \<longleftrightarrow>
     list_all (\<lambda>p. page_state (e_bitmap e) p = CACHE_PAGE_CLEAN) (block_pages e block)"

text \<open>
  The loop that cuts the fetch at the first block that is taken, or already clean. A block
  size of zero, for which the loop of the source would not advance, is excluded by the
  constructor of the cache.
\<close>

function claim_scan :: "CacheEntry \<Rightarrow> nat \<Rightarrow> nat \<Rightarrow> nat \<Rightarrow> nat" where
  "claim_scan e start block stop =
     (if \<not> block < stop \<or> e_block_size e = 0 then stop
      else if block_blocked e block \<or> (block \<noteq> start \<and> block_all_clean e block) then block
      else if block > UINT64_MAX - e_block_size e then stop
      else claim_scan e start (block + e_block_size e) stop)"
  by pat_completeness auto
termination by (relation "measure (\<lambda>(e, start, block, stop). stop - block)") auto

declare claim_scan.simps [simp del]

definition round_up_block :: "nat \<Rightarrow> nat \<Rightarrow> nat" where
  "round_up_block bs v =
     (if v > UINT64_MAX - (bs - 1) then UINT64_MAX else (v + bs - 1) div bs * bs)"

definition fetch_limit :: "CacheEntry \<Rightarrow> nat \<Rightarrow> nat \<Rightarrow> nat \<Rightarrow> nat" where
  "fetch_limit e start request_end expansion =
     (let extent = max expansion (e_block_size e);
          expanded_end = (if start > UINT64_MAX - extent then UINT64_MAX else start + extent)
      in min (e_size e) (max (round_up_block (e_block_size e) request_end)
                             (round_up_block (e_block_size e) expanded_end)))"

text \<open>The pages of a claim, recorded and taken.\<close>

definition start_fetch :: "nat \<Rightarrow> nat \<Rightarrow> CacheEntry \<Rightarrow> CacheFetchClaim \<times> CacheEntry" where
  "start_fetch start stop e =
     (let first_page = block_first_page e start;
          end_page = min (e_page_count e) ((stop - 1) div kCacheBitmapUnit + 1);
          pages = [first_page ..< end_page];
          i = e_next_claim_id e;
          id = (if i = 0 then i + 1 else i);
          active = \<lparr>af_id = id, af_epoch = e_epoch e, af_offset = start,
                    af_length = stop - start, af_published = 0, af_verifying = False,
                    af_retrying = False,
                    af_prior_states = map (page_state (e_bitmap e)) pages\<rparr>
      in (\<lparr>cl_offset = start, cl_epoch = e_epoch e, cl_id = id, cl_length = stop - start\<rparr>,
          e\<lparr>e_next_claim_id := id + 1,
            e_bitmap := fill_states CACHE_PAGE_READ_PENDING pages (e_bitmap e),
            e_active_claims := e_active_claims e @ [active]\<rparr>))"

definition claim_fetch ::
  "nat \<Rightarrow> nat \<Rightarrow> nat \<Rightarrow> CacheEntry \<Rightarrow> (CacheFetchClaim \<times> CacheEntry) result" where
  "claim_fetch wanted_offset wanted_length expansion e =
     (if e_stale e then Inl (SystemError ESTALE ''stale cache generation'')
      else if wanted_length = 0 \<or> wanted_offset \<ge> e_size e \<or> e_dirty e \<or> e_exported e
      then Inr (no_claim, e)
      else let wanted = min wanted_length (e_size e - wanted_offset);
               pages = [range_first_page wanted_offset ..<
                        Suc (range_last_page wanted_offset wanted)]
           in case first_missing (e_bitmap e) pages of
                None \<Rightarrow> Inr (no_claim, e)
              | Some missing \<Rightarrow>
                  let start = missing * kCacheBitmapUnit div e_block_size e * e_block_size e;
                      limit = fetch_limit e start (wanted_offset + wanted) expansion;
                      stop = claim_scan e start start limit
                  in if stop \<le> start then Inr (no_claim, e)
                     else Inr (start_fetch start stop e))"

definition claim_matches :: "CacheFetchClaim \<Rightarrow> ActiveFetch \<Rightarrow> bool" where
  "claim_matches claim item \<longleftrightarrow>
     af_id item = cl_id claim \<and> af_epoch item = cl_epoch claim \<and>
     af_offset item = cl_offset claim \<and> af_length item = cl_length claim"

definition find_active :: "CacheFetchClaim \<Rightarrow> CacheEntry \<Rightarrow> nat option" where
  "find_active claim e = find_index (claim_matches claim) (e_active_claims e)"

text \<open>
  The block loop of \<open>publish_clean\<close>, on the bitmap, the published length of the claim and
  whether a page changed.
\<close>

function publish_loop ::
  "CacheEntry \<Rightarrow> CacheFetchClaim \<Rightarrow> nat \<Rightarrow> bool \<Rightarrow> nat \<Rightarrow> u64 list \<times> nat \<times> bool \<Rightarrow>
   u64 list \<times> nat \<times> bool" where
  "publish_loop e claim progress final block st =
     (if \<not> block < cl_offset claim + cl_length claim \<or> e_block_size e = 0 then st
      else let (words, published, changed) = st;
               block_end = min (e_size e) (wrap64 (block + e_block_size e));
               pages = block_pages e block
           in if progress < block_end then st
              else if block_end = e_size e \<and> block_end mod e_block_size e \<noteq> 0 \<and> \<not> final then st
              else let st' =
                  (replace_states CACHE_PAGE_READ_PENDING CACHE_PAGE_CLEAN pages words,
                   block_end - cl_offset claim,
                   changed \<or> list_ex (\<lambda>p. page_state words p = CACHE_PAGE_READ_PENDING) pages)
                in if block > UINT64_MAX - e_block_size e then st'
                   else publish_loop e claim progress final (block + e_block_size e) st')"
  by pat_completeness auto
termination
  by (relation "measure (\<lambda>(e, claim, progress, final, block, st).
        cl_offset claim + cl_length claim - block)") auto

declare publish_loop.simps [simp del]

definition publish_clean ::
  "CacheFetchClaim \<Rightarrow> nat \<Rightarrow> nat \<Rightarrow> bool \<Rightarrow> CacheEntry \<Rightarrow> CacheEntry" where
  "publish_clean claim published len final e =
     (case find_active claim e of
        None \<Rightarrow> e
      | Some i \<Rightarrow>
          if e_stale e \<or> len < published \<or> (len = published \<and> \<not> final) then e
          else let active = e_active_claims e ! i;
                   progress = cl_offset claim + min len (cl_length claim);
                   (words, pub, changed) =
                     publish_loop e claim progress final (cl_offset claim + af_published active)
                       (e_bitmap e, af_published active, False);
                   e' = e\<lparr>e_bitmap := words,
                          e_active_claims := (e_active_claims e)[i := active\<lparr>af_published := pub\<rparr>]\<rparr>
               in if changed then notify_waiters_locked e' else e')"

definition end_fetch_locked :: "CacheFetchClaim \<Rightarrow> CacheEntry \<Rightarrow> CacheEntry" where
  "end_fetch_locked claim e =
     (case find_active claim e of
        None \<Rightarrow> e
      | Some i \<Rightarrow>
          let e' = (if af_verifying (e_active_claims e ! i)
                    then snd (drop_pins
                      [cl_offset claim div e_block_size e ..<
                       (cl_offset claim + cl_length claim - 1) div e_block_size e + 1] e)
                    else e)
          in e'\<lparr>e_active_claims := remove_at i (e_active_claims e)\<rparr>)"

text \<open>The block loop of \<open>finish_fetch\<close>, on the bitmap and the data file.\<close>

function finish_loop ::
  "CacheEntry \<Rightarrow> (nat \<Rightarrow> bool) \<Rightarrow> CacheFetchClaim \<Rightarrow> nat \<Rightarrow> u64 list \<times> nat set \<Rightarrow>
   u64 list \<times> nat set" where
  "finish_loop e hole claim block st =
     (if \<not> block < cl_offset claim + cl_length claim \<or> e_block_size e = 0 then st
      else let (words, pages) = st;
               bp = block_pages e block;
               incomplete = list_ex (\<lambda>p. page_state words p = CACHE_PAGE_READ_PENDING) bp;
               st' = (replace_states CACHE_PAGE_READ_PENDING CACHE_PAGE_MISSING bp words,
                      if incomplete then punch_range hole block (e_block_size e) pages else pages)
           in if block > UINT64_MAX - e_block_size e then st'
              else finish_loop e hole claim (block + e_block_size e) st')"
  by pat_completeness auto
termination
  by (relation "measure (\<lambda>(e, hole, claim, block, st). cl_offset claim + cl_length claim - block)")
     auto

declare finish_loop.simps [simp del]

definition finish_fetch :: "(nat \<Rightarrow> bool) \<Rightarrow> CacheFetchClaim \<Rightarrow> CacheEntry \<Rightarrow> CacheEntry" where
  "finish_fetch hole claim e =
     notify_waiters_locked
       (case find_active claim e of
          None \<Rightarrow> e
        | Some i \<Rightarrow>
            let (words, pages) =
                  finish_loop e hole claim
                    (cl_offset claim + af_published (e_active_claims e ! i)) (e_bitmap e, e_data e)
            in end_fetch_locked claim (e\<lparr>e_bitmap := words, e_data := pages\<rparr>))"

definition rollback_fetch :: "CacheFetchClaim \<Rightarrow> CacheEntry \<Rightarrow> CacheEntry" where
  "rollback_fetch claim e =
     (case find_active claim e of
        None \<Rightarrow> e
      | Some i \<Rightarrow>
          let active = e_active_claims e ! i;
              first = block_first_page e (cl_offset claim);
              prior = af_prior_states active;
              from_index = (af_published active + kCacheBitmapUnit - 1) div kCacheBitmapUnit;
              words = fold (\<lambda>index. set_page_state (first + index) (prior ! index))
                        [from_index ..< length prior] (e_bitmap e)
          in notify_waiters_locked (end_fetch_locked claim (e\<lparr>e_bitmap := words\<rparr>)))"

definition fail_fetch :: "(nat \<Rightarrow> bool) \<Rightarrow> CacheFetchClaim \<Rightarrow> CacheEntry \<Rightarrow> CacheEntry" where
  "fail_fetch hole claim e = finish_fetch hole claim e"

definition claim_end_page :: "CacheEntry \<Rightarrow> CacheFetchClaim \<Rightarrow> nat" where
  "claim_end_page e claim =
     min (e_page_count e) ((cl_offset claim + cl_length claim - 1) div kCacheBitmapUnit + 1)"

definition mark_bad :: "CacheFetchClaim \<Rightarrow> CacheEntry \<Rightarrow> CacheEntry" where
  "mark_bad claim e =
     notify_waiters_locked
       (case find_active claim e of
          None \<Rightarrow> e
        | Some i \<Rightarrow>
            if e_stale e then e
            else let active = e_active_claims e ! i;
                     first = cl_offset claim div kCacheBitmapUnit +
                       (if af_verifying active then 0
                        else (af_published active + kCacheBitmapUnit - 1) div kCacheBitmapUnit)
                 in e\<lparr>e_bitmap :=
                        fill_states CACHE_PAGE_BAD [first ..< claim_end_page e claim] (e_bitmap e)\<rparr>)"

definition claims_overlap :: "CacheFetchClaim \<Rightarrow> ActiveFetch \<Rightarrow> bool" where
  "claims_overlap claim item \<longleftrightarrow>
     af_offset item < cl_offset claim + cl_length claim \<and>
     af_offset item + af_length item > cl_offset claim"

definition other_overlaps :: "CacheFetchClaim \<Rightarrow> nat \<Rightarrow> ActiveFetch list \<Rightarrow> bool" where
  "other_overlaps claim i claims \<longleftrightarrow>
     list_ex (\<lambda>j. j \<noteq> i \<and> claims_overlap claim (claims ! j)) [0..<length claims]"

definition pin_fetch_verification ::
  "CacheFetchClaim \<Rightarrow> CacheEntry \<Rightarrow> (bool \<times> CacheEntry) result" where
  "pin_fetch_verification claim e =
     (case find_active claim e of
        None \<Rightarrow> Inr (False, e)
      | Some i \<Rightarrow>
          let active = e_active_claims e ! i;
              first = cl_offset claim div e_block_size e;
              stop = (cl_offset claim + cl_length claim - 1) div e_block_size e + 1
          in if e_stale e then Inr (False, e)
             else if af_verifying active then Inr (True, e)
             else if af_published active \<noteq> cl_length claim \<or> e_checksum_ops e \<noteq> 0 \<or>
                     e_checksum_manifest e = kChecksumAvailable \<or>
                     \<not> range_all_state (e_bitmap e) (cl_offset claim) (cl_length claim) CACHE_PAGE_CLEAN
             then Inr (False, e)
             else if other_overlaps claim i (e_active_claims e) then Inr (False, e)
             else if list_ex (\<lambda>r. e_region_pins e ! r = UINT32_MAX) [first ..< stop]
             then Inl (OverflowError ''cache verification pin count overflow'')
             else Inr (True, e\<lparr>
               e_region_pins := increment_pins [first ..< stop] (e_region_pins e),
               e_pinned_regions := e_pinned_regions e + (of_nat stop - of_nat first),
               e_active_claims := (e_active_claims e)[i := active\<lparr>af_verifying := True\<rparr>]\<rparr>))"

section \<open>Retries\<close>

definition part_busy :: "checksum_part_state \<Rightarrow> bool" where
  "part_busy s \<longleftrightarrow> s = kPartVerifying \<or> s = kPartRetrying"

definition verification_pins :: "CacheEntry \<Rightarrow> nat \<Rightarrow> nat" where
  "verification_pins e region =
     (let begin = region * e_block_size e;
          stop = min (e_size e) (wrap64 (begin + e_block_size e))
      in length (filter (\<lambda>(part, s). part_busy s \<and> part_offset part < stop \<and>
                  wrap64 (part_offset part + part_size part) > begin)
               (zip (e_checksum_parts e) (e_checksum_states e))) +
         length (filter (\<lambda>fetch. af_verifying fetch \<and> af_offset fetch < stop \<and>
                  af_offset fetch + af_length fetch > begin) (e_active_claims e)))"

definition retry_pins_ready_locked :: "CacheEntry \<Rightarrow> nat \<Rightarrow> nat \<Rightarrow> bool" where
  "retry_pins_ready_locked e offset len \<longleftrightarrow>
     list_all (\<lambda>region. \<not> e_region_pins e ! region > verification_pins e region)
       [offset div e_block_size e ..< wrap64 (offset + len - 1) div e_block_size e + 1]"

definition begin_retry_locked :: "CacheFetchClaim \<Rightarrow> CacheEntry \<Rightarrow> (bool \<times> CacheEntry) result" where
  "begin_retry_locked claim e =
     (case find_active claim e of
        None \<Rightarrow> Inl (SystemError ESTALE ''retry retired cache fetch'')
      | Some i \<Rightarrow>
          let active = e_active_claims e ! i
          in if e_stale e then Inl (SystemError ESTALE ''retry retired cache fetch'')
             else if \<not> af_verifying active
             then Inl (LogicError ''cache retry without verification pin'')
             else let e' = (if af_retrying active then e
                    else notify_waiters_locked (e\<lparr>
                      e_bitmap := fill_states CACHE_PAGE_READ_PENDING
                        [cl_offset claim div kCacheBitmapUnit ..< claim_end_page e claim] (e_bitmap e),
                      e_active_claims := (e_active_claims e)
                        [i := active\<lparr>af_published := 0, af_retrying := True\<rparr>]\<rparr>))
                  in Inr (retry_pins_ready_locked e' (cl_offset claim) (cl_length claim), e'))"

text \<open>The result \<open>True\<close> is a returned event descriptor, \<open>False\<close> the value -1.\<close>

definition wait_unless ::
  "bool \<Rightarrow> nat \<Rightarrow> string \<Rightarrow> CacheEntry \<Rightarrow> (bool \<times> CacheEntry) result" where
  "wait_unless ready ev what e =
     (if ready then Inr (False, e) else ebind (register_waiter ev what e) (\<lambda>e'. Inr (True, e')))"

text \<open>
  A retry waits for the pins of its readers. Its first attempt has marked the pages pending
  when the event cannot be created: the second component is the entry after the call, also on
  an error. \<open>retry_wait\<close> returns the descriptor, \<open>retry_turn\<close> is one turn of the blocking loop.
\<close>

definition retry_wait ::
  "nat \<Rightarrow> string \<Rightarrow> (bool \<times> CacheEntry) result \<Rightarrow> CacheEntry \<Rightarrow> bool result \<times> CacheEntry" where
  "retry_wait ev what attempt e =
     (case attempt of
        Inl err \<Rightarrow> (Inl err, e)
      | Inr (ready, e') \<Rightarrow>
          (case wait_unless ready ev what e' of
             Inl err \<Rightarrow> (Inl err, e')
           | Inr (waits, e'') \<Rightarrow> (Inr waits, e'')))"

definition retry_turn ::
  "nat \<Rightarrow> (bool \<times> CacheEntry) result \<Rightarrow> CacheEntry \<Rightarrow> unit blocking result \<times> CacheEntry" where
  "retry_turn ev attempt e =
     (case attempt of
        Inl err \<Rightarrow> (Inl err, e)
      | Inr (ready, e') \<Rightarrow>
          if ready then (Inr (Ready ()), e')
          else (case wait_locked_enter ev e' of
                  Inl err \<Rightarrow> (Inl err, e')
                | Inr e'' \<Rightarrow> (Inr Block, e'')))"

definition begin_retry_wait ::
  "nat \<Rightarrow> CacheFetchClaim \<Rightarrow> CacheEntry \<Rightarrow> bool result \<times> CacheEntry" where
  "begin_retry_wait ev claim e =
     retry_wait ev ''create cache retry wait event'' (begin_retry_locked claim e) e"

definition begin_retry ::
  "nat \<Rightarrow> CacheFetchClaim \<Rightarrow> CacheEntry \<Rightarrow> unit blocking result \<times> CacheEntry" where
  "begin_retry ev claim e = retry_turn ev (begin_retry_locked claim e) e"

definition finish_retry ::
  "(nat \<Rightarrow> bool) \<Rightarrow> CacheFetchClaim \<Rightarrow> bool \<Rightarrow> CacheEntry \<Rightarrow> CacheEntry" where
  "finish_retry hole claim valid e =
     finish_fetch hole claim
       (if valid then publish_clean claim 0 (cl_length claim) True e else mark_bad claim e)"

section \<open>Waiting for a range\<close>

definition begin_async_wait ::
  "nat \<Rightarrow> nat \<Rightarrow> nat \<Rightarrow> CacheEntry \<Rightarrow> (bool \<times> CacheEntry) result" where
  "begin_async_wait ev offset len e =
     wait_unless (range_ready_locked e offset len) ev ''create cache wait event'' e"

definition wait_for_range ::
  "nat \<Rightarrow> nat \<Rightarrow> nat \<Rightarrow> CacheEntry \<Rightarrow> (unit blocking \<times> CacheEntry) result" where
  "wait_for_range ev offset len e =
     (if \<not> range_ready_locked e offset len
      then ebind (wait_locked_enter ev e) (\<lambda>e'. Inr (Block, e'))
      else if e_stale e then Inl (SystemError ESTALE ''stale cache generation'')
      else Inr (Ready (), e))"

definition begin_checksum_wait ::
  "nat \<Rightarrow> nat \<Rightarrow> nat \<Rightarrow> CacheEntry \<Rightarrow> (bool \<times> CacheEntry) result" where
  "begin_checksum_wait ev offset len e =
     wait_unless (checksum_blocked_locked e offset len \<noteq> kPartRetrying) ev
       ''create checksum wait event'' e"

section \<open>Checksum manifest\<close>

definition begin_checksum_manifest ::
  "nat \<Rightarrow> bool \<Rightarrow> CacheEntry \<Rightarrow> (bool blocking \<times> CacheEntry) result" where
  "begin_checksum_manifest ev wait e =
     (if \<not> e_stale e \<and> e_checksum_manifest e = kChecksumLoading
      then if \<not> wait then Inr (Ready False, e)
           else ebind (wait_locked_enter ev e) (\<lambda>e'. Inr (Block, e'))
      else if e_stale e then Inl (SystemError ESTALE ''stale cache generation'')
      else if e_exported e
      then Inr (Ready False, if e_checksum_manifest e = kChecksumUnknown
                             then e\<lparr>e_checksum_manifest := kChecksumUnavailable\<rparr> else e)
      else if e_checksum_manifest e \<noteq> kChecksumUnknown then Inr (Ready False, e)
      else if list_ex af_verifying (e_active_claims e) then Inr (Ready False, e)
      else Inr (Ready True, e\<lparr>e_checksum_manifest := kChecksumLoading,
                              e_checksum_ops := e_checksum_ops e + 1\<rparr>))"

definition begin_manifest_wait :: "nat \<Rightarrow> CacheEntry \<Rightarrow> (bool \<times> CacheEntry) result" where
  "begin_manifest_wait ev e =
     wait_unless (e_stale e \<or> e_checksum_manifest e \<noteq> kChecksumLoading) ev
       ''create manifest wait event'' e"

text \<open>The loop that checks that the parts tile the object; the result is where they end.\<close>

fun manifest_end :: "nat \<Rightarrow> nat \<Rightarrow> CacheChecksumPart list \<Rightarrow> nat option" where
  "manifest_end sz offset [] = Some offset"
| "manifest_end sz offset (part # parts) =
     (if part_offset part \<noteq> offset \<or> part_size part = 0 \<or> offset > sz \<or>
         part_size part > sz - offset \<or> part_value part = []
      then None else manifest_end sz (offset + part_size part) parts)"

definition finish_checksum_manifest :: "CacheChecksumPart list \<Rightarrow> CacheEntry \<Rightarrow> CacheEntry" where
  "finish_checksum_manifest parts e =
     (let valid = \<not> e_stale e \<and> parts \<noteq> [] \<and> manifest_end (e_size e) 0 parts = Some (e_size e);
          e' = (if valid
                then e\<lparr>e_checksum_parts := parts,
                       e_checksum_states := replicate (length parts) kPartUnverified,
                       e_checksum_manifest := kChecksumAvailable\<rparr>
                else e\<lparr>e_checksum_parts := [], e_checksum_states := [],
                       e_checksum_manifest := kChecksumUnavailable\<rparr>)
      in notify_waiters_locked (e'\<lparr>e_checksum_ops := e_checksum_ops e - 1\<rparr>))"

definition checksum_manifest_unavailable :: "CacheEntry \<Rightarrow> CacheEntry" where
  "checksum_manifest_unavailable e =
     notify_waiters_locked (e\<lparr>e_checksum_parts := [], e_checksum_states := [],
       e_checksum_manifest := kChecksumUnavailable, e_checksum_ops := e_checksum_ops e - 1\<rparr>)"

definition checksum_manifest_available :: "CacheEntry \<Rightarrow> bool" where
  "checksum_manifest_available e \<longleftrightarrow> \<not> e_stale e \<and> e_checksum_manifest e = kChecksumAvailable"

section \<open>Verification of parts\<close>

text \<open>
  The search of \<open>claim_checksum\<close>: \<open>Inl\<close> is a claim that is returned without a change of
  state, \<open>Inr i\<close> the part to verify.
\<close>

fun find_part ::
  "CacheEntry \<Rightarrow> nat \<Rightarrow> nat \<Rightarrow> bool \<Rightarrow> (CacheChecksumPart \<times> checksum_part_state) list \<Rightarrow> nat \<Rightarrow>
   CacheChecksumAction + nat" where
  "find_part e offset stop skip [] i = Inl CACHE_CHECKSUM_NONE"
| "find_part e offset stop skip ((part, s) # rest) i =
     (if part_offset part \<ge> stop \<or> wrap64 (part_offset part + part_size part) \<le> offset
      then find_part e offset stop skip rest (Suc i)
      else if s = kPartBad then Inl CACHE_CHECKSUM_BAD
      else if s = kPartVerifying \<or> s = kPartRetrying
      then if skip then find_part e offset stop skip rest (Suc i) else Inl CACHE_CHECKSUM_WAIT
      else if s \<noteq> kPartUnverified \<or>
              \<not> range_all_state (e_bitmap e) (part_offset part) (part_size part) CACHE_PAGE_CLEAN
      then find_part e offset stop skip rest (Suc i)
      else Inr i)"

definition claim_checksum ::
  "nat \<Rightarrow> nat \<Rightarrow> bool \<Rightarrow> CacheEntry \<Rightarrow> (CacheChecksumClaim \<times> CacheEntry) result" where
  "claim_checksum offset len skip_in_progress e =
     (if e_stale e then Inl (SystemError ESTALE ''stale cache generation'')
      else if e_checksum_manifest e \<noteq> kChecksumAvailable \<or> len = 0 \<or> e_exported e \<or>
              offset \<ge> e_size e
      then Inr (plain_checksum_claim CACHE_CHECKSUM_NONE, e)
      else case find_part e offset (offset + min len (e_size e - offset)) skip_in_progress
                  (zip (e_checksum_parts e) (e_checksum_states e)) 0 of
             Inl action \<Rightarrow> Inr (plain_checksum_claim action, e)
           | Inr i \<Rightarrow>
               let part = e_checksum_parts e ! i
               in if list_ex (\<lambda>r. e_region_pins e ! r = UINT32_MAX)
                       (span e (part_offset part) (part_size part))
                  then Inl (OverflowError ''cache region pin count overflow'')
                  else Inr (\<lparr>cc_action = CACHE_CHECKSUM_VERIFY, cc_offset = part_offset part,
                             cc_size = part_size part, cc_epoch = e_epoch e, cc_part = i,
                             cc_algorithm = part_algorithm part, cc_value = part_value part\<rparr>,
                            (add_pins (part_offset part) (part_size part) e)\<lparr>
                              e_checksum_states := (e_checksum_states e)[i := kPartVerifying],
                              e_checksum_ops := e_checksum_ops e + 1\<rparr>))"

definition checksum_ready :: "CacheEntry \<Rightarrow> nat \<Rightarrow> nat \<Rightarrow> bool" where
  "checksum_ready e offset len \<longleftrightarrow>
     e_stale e \<or> e_checksum_manifest e \<noteq> kChecksumAvailable \<or> len = 0 \<or> offset \<ge> e_size e \<or>
     list_all (\<lambda>(part, s). \<not> (part_offset part < offset + min len (e_size e - offset) \<and>
                  wrap64 (part_offset part + part_size part) > offset \<and> part_busy s))
       (zip (e_checksum_parts e) (e_checksum_states e))"

definition wait_for_checksum ::
  "nat \<Rightarrow> nat \<Rightarrow> nat \<Rightarrow> CacheEntry \<Rightarrow> (unit blocking \<times> CacheEntry) result" where
  "wait_for_checksum ev offset len e =
     (if \<not> checksum_ready e offset len
      then ebind (wait_locked_enter ev e) (\<lambda>e'. Inr (Block, e'))
      else if e_stale e then Inl (SystemError ESTALE ''stale cache generation'')
      else Inr (Ready (), e))"

definition checksum_mismatch :: "CacheChecksumClaim \<Rightarrow> CacheEntry \<Rightarrow> CacheEntry" where
  "checksum_mismatch claim e =
     notify_waiters_locked
       (if \<not> e_stale e \<and> cc_epoch claim = e_epoch e \<and> cc_part claim < length (e_checksum_states e) \<and>
           e_checksum_states e ! cc_part claim = kPartVerifying
        then e\<lparr>e_checksum_states := (e_checksum_states e)[cc_part claim := kPartRetrying]\<rparr>
        else e)"

definition begin_checksum_retry_locked ::
  "CacheChecksumClaim \<Rightarrow> CacheEntry \<Rightarrow> (bool \<times> CacheEntry) result" where
  "begin_checksum_retry_locked claim e =
     (if e_stale e \<or> cc_epoch claim \<noteq> e_epoch e \<or> cc_part claim \<ge> length (e_checksum_states e) \<or>
         \<not> part_busy (e_checksum_states e ! cc_part claim)
      then Inl (SystemError ESTALE ''retry retired cache checksum'')
      else let e' = (if e_checksum_states e ! cc_part claim = kPartVerifying
                     then notify_waiters_locked
                       (e\<lparr>e_checksum_states := (e_checksum_states e)[cc_part claim := kPartRetrying]\<rparr>)
                     else e)
           in Inr (retry_pins_ready_locked e' (cc_offset claim) (cc_size claim), e'))"

definition wait_for_checksum_retry ::
  "nat \<Rightarrow> CacheChecksumClaim \<Rightarrow> CacheEntry \<Rightarrow> unit blocking result \<times> CacheEntry" where
  "wait_for_checksum_retry ev claim e = retry_turn ev (begin_checksum_retry_locked claim e) e"

definition begin_checksum_retry_wait ::
  "nat \<Rightarrow> CacheChecksumClaim \<Rightarrow> CacheEntry \<Rightarrow> bool result \<times> CacheEntry" where
  "begin_checksum_retry_wait ev claim e =
     retry_wait ev ''create checksum retry wait event'' (begin_checksum_retry_locked claim e) e"

definition finish_checksum :: "CacheChecksumClaim \<Rightarrow> bool \<Rightarrow> CacheEntry \<Rightarrow> CacheEntry" where
  "finish_checksum claim valid e =
     (if cc_part claim \<ge> length (e_checksum_states e) \<or> cc_epoch claim \<noteq> e_epoch e \<or>
         \<not> part_busy (e_checksum_states e ! cc_part claim)
      then e
      else let e' = snd (drop_pins (span e (cc_offset claim) (cc_size claim)) e)
           in notify_waiters_locked
                (e'\<lparr>e_checksum_states :=
                     (e_checksum_states e)[cc_part claim := if valid then kPartVerified else kPartBad],
                    e_checksum_ops := e_checksum_ops e - 1\<rparr>))"

definition abandon_checksum :: "CacheChecksumClaim \<Rightarrow> CacheEntry \<Rightarrow> CacheEntry" where
  "abandon_checksum claim e =
     (if cc_part claim \<ge> length (e_checksum_states e) \<or> cc_epoch claim \<noteq> e_epoch e \<or>
         \<not> part_busy (e_checksum_states e ! cc_part claim)
      then e
      else let stop = min (e_size e) (wrap64 (cc_offset claim + cc_size claim));
               last_page = min (e_page_count e) ((stop - 1) div kCacheBitmapUnit + 1);
               last_region = min (length (e_region_pins e)) ((stop - 1) div e_block_size e + 1);
               e' = snd (drop_pins [cc_offset claim div e_block_size e ..< last_region] e)
           in notify_waiters_locked
                (e'\<lparr>e_checksum_states := (e_checksum_states e)[cc_part claim := kPartUnverified],
                    e_bitmap := replace_states CACHE_PAGE_CLEAN CACHE_PAGE_MISSING
                      [cc_offset claim div kCacheBitmapUnit ..< last_page] (e_bitmap e),
                    e_checksum_ops := e_checksum_ops e - 1\<rparr>))"

section \<open>Retirement\<close>

definition quiescent :: "CacheEntry \<Rightarrow> bool" where
  "quiescent e \<longleftrightarrow> e_active_claims e = [] \<and> e_checksum_ops e = 0 \<and> e_pinned_regions e = 0"

text \<open>
  One turn of \<open>retire_generation\<close>; the generation is stale also when the retirement is
  reported as pending (\<open>CacheRetirementPending\<close>, EAGAIN).
\<close>

definition retire_generation ::
  "nat \<Rightarrow> bool \<Rightarrow> bool \<Rightarrow> CacheEntry \<Rightarrow> (unit blocking \<times> CacheEntry) result \<times> CacheEntry" where
  "retire_generation ev wait on_executor e =
     (let e' = (if e_stale e then e else notify_waiters_locked (e\<lparr>e_stale := True\<rparr>))
      in (if quiescent e' then Inr (Ready (), e')
          else if \<not> wait \<or> on_executor
          then Inl (SystemError EAGAIN ''cache generation retirement pending'')
          else ebind (wait_locked_enter ev e') (\<lambda>e''. Inr (Block, e'')), e'))"

definition begin_retire_wait :: "nat \<Rightarrow> CacheEntry \<Rightarrow> (bool \<times> CacheEntry) result" where
  "begin_retire_wait ev e =
     (if \<not> e_stale e then Inl (LogicError ''cache retirement wait without retirement'')
      else wait_unless (quiescent e) ev ''create cache retirement event'' e)"

section \<open>Eviction\<close>

text \<open>
  What the file system answers while one region is evicted: the block counts of the two
  \<^verbatim>\<open>fstat\<close> calls, when they succeed, and whether the hole is punched.
\<close>

record evict_env =
  stat_before :: "nat option"
  punched :: bool
  stat_after :: "nat option"

definition evict_region :: "evict_env \<Rightarrow> nat \<Rightarrow> nat list \<Rightarrow> CacheEntry \<Rightarrow> nat \<times> CacheEntry" where
  "evict_region env offset clean_pages e =
     (case stat_before env of
        None \<Rightarrow> (0, e)
      | Some before \<Rightarrow>
          if \<not> punched env
          then (0, e\<lparr>e_bitmap := fill_states CACHE_PAGE_CLEAN clean_pages
                     (fill_states CACHE_PAGE_MISSING clean_pages (e_bitmap e))\<rparr>)
          else let e' = e\<lparr>e_bitmap := fill_states CACHE_PAGE_MISSING clean_pages (e_bitmap e),
                         e_data := punch_range (\<lambda>_. True) offset (e_block_size e) (e_data e)\<rparr>
               in case stat_after env of
                    None \<Rightarrow> (0, e')
                  | Some after \<Rightarrow> (wrap64 (before * 512) - wrap64 (after * 512),
                                   notify_waiters_locked e'))"

primrec evict_scan :: "nat \<Rightarrow> evict_env \<Rightarrow> CacheEntry \<Rightarrow> nat \<times> CacheEntry" where
  "evict_scan 0 env e = (0, e)"
| "evict_scan (Suc scan) env e =
     (let region = unat (e_clock_hand e) mod length (e_referenced e);
          e1 = e\<lparr>e_clock_hand := e_clock_hand e + 1\<rparr>
      in if e_referenced e ! region
         then evict_scan scan env (e1\<lparr>e_referenced := (e_referenced e)[region := False]\<rparr>)
         else let offset = region * e_block_size e;
                  stop = min (e_size e) (wrap64 (offset + e_block_size e));
                  pages = [offset div kCacheBitmapUnit ..< (stop - 1) div kCacheBitmapUnit + 1];
                  evictable = list_all (\<lambda>p. page_state (e_bitmap e) p = CACHE_PAGE_CLEAN \<or>
                                page_state (e_bitmap e) p = CACHE_PAGE_MISSING) pages \<and>
                              e_region_pins e ! region = 0;
                  clean_pages = filter (\<lambda>p. page_state (e_bitmap e) p = CACHE_PAGE_CLEAN) pages
              in if \<not> evictable \<or> clean_pages = [] then evict_scan scan env e1
                 else evict_region env offset clean_pages e1)"

definition evict_one_region :: "evict_env \<Rightarrow> CacheEntry \<Rightarrow> nat \<times> CacheEntry" where
  "evict_one_region env e =
     (if unlimited (e_config e) \<or> e_stale e \<or> e_eviction_disabled e \<or> e_dirty e \<or> e_exported e \<or>
         e_referenced e = []
      then (0, e)
      else evict_scan (length (e_referenced e)) env e)"

section \<open>Writes\<close>

text \<open>
  \<open>begin_write\<close> creates the dirty marker between two critical sections: \<open>marker\<close> is the
  outcome of creating it, \<open>between\<close> what other threads do to the entry meanwhile.
\<close>

definition begin_write ::
  "unit result \<Rightarrow> (CacheEntry \<Rightarrow> CacheEntry) \<Rightarrow> CacheEntry \<Rightarrow> CacheEntry result" where
  "begin_write marker between e =
     (if e_stale e then Inl (SystemError ESTALE ''begin stale cache write'')
      else if e_dirty_marker e then Inr e
      else ebind marker (\<lambda>_.
        let e1 = between e
        in if e_stale e1 \<or> e_epoch e1 \<noteq> e_epoch e
           then Inl (SystemError ESTALE ''cache generation changed during write'')
           else if e_dirty_marker e1 then Inr e1
           else Inr (e1\<lparr>e_dirty_marker := True,
                       e_header := (e_header e1)\<lparr>m_dirty := True, m_write_phase := 1\<rparr>\<rparr>)))"

text \<open>
  \<open>reserve\<close> answers the capacity reservation, \<open>grow\<close> the system calls that enlarge and
  remap the metadata file; the new words of the mapping are zero.
\<close>

definition mapping_bytes :: "CacheEntry \<Rightarrow> nat" where
  "mapping_bytes e = kCacheMetaHeaderSize + 8 * length (e_bitmap e)"

definition ensure_write_capacity ::
  "(nat \<Rightarrow> bool) \<Rightarrow> unit result \<Rightarrow> nat \<Rightarrow> CacheEntry \<Rightarrow> CacheEntry result" where
  "ensure_write_capacity reserve grow stop e =
     (if stop = 0 then Inr e
      else let unit_size = upload_part_size (e_config e)
           in if unit_size = 0 \<or> stop > UINT64_MAX - (unit_size - 1)
              then Inl (OverflowError ''cache write capacity overflow'')
              else ebind (cache_mapping_size ((stop + unit_size - 1) div unit_size * unit_size)
                            kCacheBitmapUnit) (\<lambda>wanted.
                if wanted \<le> mapping_bytes e then Inr e
                else ebind (cache_round_up (wanted - mapping_bytes e) (cfg_page_size (e_config e)))
                  (\<lambda>amount.
                    if \<not> reserve amount
                    then Inl (SystemError ENOSPC ''reserve cache write metadata'')
                    else ebind grow (\<lambda>_. Inr (e\<lparr>e_bitmap := e_bitmap e @
                           replicate ((wanted - mapping_bytes e) div 8) 0\<rparr>)))))"

text \<open>The loop over the upload parts; \<open>prepare_range\<close> answers the reservation of one part.\<close>

fun reserve_parts :: "(nat \<Rightarrow> bool) \<Rightarrow> nat \<Rightarrow> nat list \<Rightarrow> bool list \<Rightarrow> bool list result" where
  "reserve_parts prepare_range unit_size [] units = Inr units"
| "reserve_parts prepare_range unit_size (part # parts) units =
     (if units ! part then reserve_parts prepare_range unit_size parts units
      else if \<not> prepare_range (part * unit_size)
      then Inl (SystemError ENOSPC ''reserve dirty cache range'')
      else reserve_parts prepare_range unit_size parts (units[part := True]))"

definition prepare_write ::
  "(nat \<Rightarrow> bool) \<Rightarrow> unit result \<Rightarrow> (nat \<Rightarrow> bool) \<Rightarrow> unit result \<Rightarrow> (CacheEntry \<Rightarrow> CacheEntry) \<Rightarrow>
   nat \<Rightarrow> nat \<Rightarrow> CacheEntry \<Rightarrow> CacheEntry result" where
  "prepare_write reserve grow prepare_range marker between offset len e =
     (if len = 0 then Inr e
      else if e_exported e then Inl (SystemError ESTALE ''write to exported cache generation'')
      else if offset > UINT64_MAX - len then Inl (OverflowError ''cache write range overflow'')
      else ebind (ensure_write_capacity reserve grow (offset + len) e) (\<lambda>e1.
        let unit_size = upload_part_size (e_config e1);
            first = offset div unit_size; last_part = (offset + len - 1) div unit_size;
            units = e_reserved_units e1;
            padded = units @ replicate (last_part + 1 - length units) False
        in ebind (reserve_parts prepare_range unit_size [first ..< Suc last_part] padded)
             (\<lambda>units'. begin_write marker between (e1\<lparr>e_reserved_units := units'\<rparr>))))"

definition pad_to :: "nat \<Rightarrow> 'a \<Rightarrow> 'a list \<Rightarrow> 'a list" where
  "pad_to n x xs = xs @ replicate (n - length xs) x"

definition publish_dirty :: "nat \<Rightarrow> nat \<Rightarrow> nat \<Rightarrow> CacheEntry \<Rightarrow> CacheEntry result" where
  "publish_dirty offset len written_end e =
     (if e_stale e \<or> \<not> e_dirty e then Inl (SystemError ESTALE ''publish stale cache write'')
      else if offset \<noteq> m_written_end (e_header e) \<or> len = 0 \<or> written_end \<noteq> wrap64 (offset + len)
      then Inl (LogicError ''non-sequential cache write publication'')
      else let regions = (written_end - 1) div e_block_size e + 1
           in Inr (e\<lparr>e_page_count := (written_end - 1) div kCacheBitmapUnit + 1,
                    e_referenced := pad_to regions False (e_referenced e),
                    e_region_pins := pad_to (if length (e_referenced e) < regions then regions else 0)
                      0 (e_region_pins e),
                    e_bitmap := fill_states CACHE_PAGE_CLEAN
                      [offset div kCacheBitmapUnit ..< Suc ((written_end - 1) div kCacheBitmapUnit)]
                      (e_bitmap e),
                    e_header := (e_header e)\<lparr>m_object_size := written_end,
                                             m_written_end := written_end\<rparr>,
                    e_size := written_end\<rparr>))"

definition set_upload_id :: "string \<Rightarrow> CacheEntry \<Rightarrow> CacheEntry result" where
  "set_upload_id u e =
     (if length u > kCacheUploadIdCapacity
      then Inl (SystemError EOVERFLOW ''multipart upload ID is too large'')
      else Inr (e\<lparr>e_header := (e_header e)\<lparr>
             m_upload_id := memcpy (zero_array kCacheUploadIdCapacity) u (length u),
             m_upload_id_length := length u,
             m_upload_part_size := upload_part_size (e_config e),
             m_write_phase := (if u = [] then 1 else 2)\<rparr>\<rparr>))"

definition isolate_write :: "CacheEntry \<Rightarrow> CacheEntry" where
  "isolate_write e =
     (if \<not> e_dirty e then e else e\<lparr>e_header := (e_header e)\<lparr>m_write_phase := 3\<rparr>\<rparr>)"

definition discard_write :: "CacheEntry \<Rightarrow> CacheEntry" where
  "discard_write e =
     e\<lparr>e_header := (e_header e)\<lparr>m_dirty := False, m_write_phase := 0\<rparr>,
       e_stale := True, e_detached := True, e_dirty_marker := False\<rparr>"

text \<open>The three system calls of \<open>sync_write\<close>, by their errno (0 for success).\<close>

definition sync_write :: "nat \<Rightarrow> nat \<Rightarrow> nat \<Rightarrow> CacheEntry \<Rightarrow> unit result" where
  "sync_write sync_data sync_mapping sync_marker e =
     (if e_stale e then Inl (SystemError ESTALE ''sync stale cache write'')
      else if sync_data \<noteq> 0 then Inl (SystemError sync_data ''fdatasync(cache data)'')
      else if sync_mapping \<noteq> 0 then Inl (SystemError sync_mapping ''msync(cache metadata)'')
      else if e_dirty_marker e \<and> sync_marker \<noteq> 0
      then Inl (SystemError sync_marker ''fdatasync(cache dirty marker)'')
      else Inr ())"

text \<open>
  \<open>commit_write\<close> has changed the header when \<^verbatim>\<open>msync\<close> fails: the second component
  is the entry after the call, also on an error.
\<close>

definition commit_write :: "nat \<Rightarrow> CacheIdentity \<Rightarrow> CacheEntry \<Rightarrow> unit result \<times> CacheEntry" where
  "commit_write sync_mapping identity e =
     (if length (id_etag identity) > kCacheEtagCapacity \<or>
         length (id_version_id identity) > kCacheVersionCapacity
      then (Inl (SystemError EOVERFLOW ''cache write identity is too large''), e)
      else if id_key identity \<noteq> e_key e \<or> id_size identity \<noteq> e_size e
      then (Inl (LogicError ''cache write commit identity mismatch''), e)
      else let e' = e\<lparr>e_header := (e_header e)\<lparr>
                    m_etag := memcpy (zero_array kCacheEtagCapacity) (id_etag identity)
                      (length (id_etag identity)),
                    m_version_id := memcpy (zero_array kCacheVersionCapacity)
                      (id_version_id identity) (length (id_version_id identity)),
                    m_etag_length := length (id_etag identity),
                    m_version_length := length (id_version_id identity),
                    m_mtime := id_mtime identity,
                    m_dirty := False, m_write_phase := 0, m_upload_id_length := 0\<rparr>,
                  e_eviction_disabled := False\<rparr>
           in if sync_mapping \<noteq> 0
              then (Inl (SystemError sync_mapping ''msync(cache write commit)''), e')
              else (Inr (), e'\<lparr>e_dirty_marker := False\<rparr>))"

section \<open>Removal\<close>

text \<open>
  The cache takes a closed generation without bytes out of use, under the lock of the entry;
  \<open>detach\<close> is the first half of removing or replacing a generation.
\<close>

definition reclaimable :: "CacheEntry \<Rightarrow> bool" where
  "reclaimable e \<longleftrightarrow>
     \<not> (e_stale e \<or> e_detached e \<or> e_eviction_disabled e \<or> e_dirty e \<or> e_exported e \<or>
        e_active_claims e \<noteq> [] \<or> e_checksum_ops e \<noteq> 0 \<or> e_pinned_regions e \<noteq> 0) \<and>
     list_all (\<lambda>p. page_state (e_bitmap e) p = CACHE_PAGE_MISSING) [0..<e_page_count e]"

definition detach :: "CacheEntry \<Rightarrow> CacheEntry" where
  "detach e = e\<lparr>e_detached := True\<rparr>"

end
