(* ===== verification/Cache_Entry_Lemmas.thy ===== *)
theory Cache_Entry_Lemmas
  imports Cache_Entry
begin

text \<open>
  Library for the proofs about a cache entry: the arithmetic of pages, blocks and regions,
  and for every loop of the operations what it does to the page states, the data file, the
  pins and the counters.
\<close>

section \<open>Arithmetic of pages and blocks\<close>

abbreviation U :: nat where "U \<equiv> kCacheBitmapUnit"

lemma U_pos [simp]: "0 < U" and U_neq0 [simp]: "U \<noteq> 0"
  by (simp_all add: kCacheBitmapUnit_def)

lemma less_page_end: "0 < x \<Longrightarrow> p < (x - 1) div U + 1 \<longleftrightarrow> p * U < x"
  by (metis One_nat_def Suc_pred add.right_neutral add_Suc_right less_Suc_eq_le
      less_eq_div_iff_mult_less_eq U_pos)

lemma page_start_le: "U dvd x \<Longrightarrow> x div U \<le> p \<longleftrightarrow> x \<le> p * U"
  by (metis dvd_div_mult_self mult_le_cancel2 U_pos)

lemma page_ceil_le: "(x + U - 1) div U \<le> p \<longleftrightarrow> x \<le> p * U"
proof -
  have "(x + U - 1) div U \<le> p \<longleftrightarrow> x + U - 1 < (p + 1) * U"
    by (metis Suc_eq_plus1 div_less_iff_less_mult less_Suc_eq_le U_pos)
  also have "\<dots> \<longleftrightarrow> x \<le> p * U" using U_pos unfolding distrib_right mult_1 by linarith
  finally show ?thesis .
qed

lemma div_eq_iff_between: "0 < (b :: nat) \<Longrightarrow> x div b = k \<longleftrightarrow> k * b \<le> x \<and> x < k * b + b"
  by (metis add.commute div_nat_eqI dividend_less_div_times div_times_less_eq_dividend
      mult.commute mult_Suc)

text \<open>The region of a byte is the region of its page.\<close>

lemma page_region: "U dvd b \<Longrightarrow> (x div U * U) div b = x div b"
  by (metis div_mult2_eq div_mult_mult2 dvd_def mult.commute U_neq0)

definition shape :: "CacheEntry \<Rightarrow> bool" where
  "shape e \<longleftrightarrow>
     0 < e_block_size e \<and> U dvd e_block_size e \<and>
     e_size e + e_block_size e < 2 ^ 64 \<and>
     e_page_count e = (if e_size e = 0 then 0 else (e_size e - 1) div U + 1) \<and>
     e_page_count e \<le> 32 * length (e_bitmap e) \<and>
     length (e_region_pins e) = (if e_size e = 0 then 0 else (e_size e - 1) div e_block_size e + 1) \<and>
     length (e_referenced e) = length (e_region_pins e)"

lemma shapeD:
  assumes "shape e"
  shows "0 < e_block_size e" "U dvd e_block_size e" "e_size e + e_block_size e < 2 ^ 64"
    "e_page_count e \<le> 32 * length (e_bitmap e)"
    "p < e_page_count e \<longleftrightarrow> p * U < e_size e"
    "r < length (e_region_pins e) \<longleftrightarrow> r * e_block_size e < e_size e"
    "length (e_referenced e) = length (e_region_pins e)"
proof -
  show "0 < e_block_size e" "U dvd e_block_size e" "e_size e + e_block_size e < 2 ^ 64"
    "e_page_count e \<le> 32 * length (e_bitmap e)"
    "length (e_referenced e) = length (e_region_pins e)"
    using assms by (simp_all add: shape_def)
  show "p < e_page_count e \<longleftrightarrow> p * U < e_size e"
    using assms less_page_end [of "e_size e" p] by (auto simp: shape_def)
  have "r < (e_size e - 1) div e_block_size e + 1 \<longleftrightarrow> r * e_block_size e < e_size e"
    if "0 < e_size e"
    using that assms
    by (metis One_nat_def Suc_pred add.right_neutral add_Suc_right less_Suc_eq_le
        less_eq_div_iff_mult_less_eq shape_def)
  then show "r < length (e_region_pins e) \<longleftrightarrow> r * e_block_size e < e_size e"
    using assms by (auto simp: shape_def)
qed

text \<open>The pages of the block that holds an offset.\<close>

lemma set_block_pages:
  assumes "shape e" and "off < e_size e"
  shows "set (block_pages e off) =
    {p. p < e_page_count e \<and> p * U div e_block_size e = off div e_block_size e}"
proof -
  let ?b = "e_block_size e"
  let ?f = "off div ?b * ?b"
  note s = shapeD [OF assms(1)]
  have f: "?f \<le> off" by simp
  have dvd: "U dvd ?f" using s(2) by simp
  have w: "wrap64 (?f + ?b) = ?f + ?b"
    by (rule wrap64_id) (use f assms(2) s(3) in linarith)
  have stop: "0 < min (e_size e) (?f + ?b)" using assms(2) s(1) by auto
  have "p \<in> set (block_pages e off) \<longleftrightarrow>
      ?f \<le> p * U \<and> p < e_page_count e \<and> p * U < min (e_size e) (?f + ?b)" for p
    using page_start_le [OF dvd, of p] less_page_end [OF stop, of p] stop
    by (auto simp: block_pages_def block_first_page_def block_last_page_def Let_def w)
  also have "\<dots> p \<longleftrightarrow> p < e_page_count e \<and> p * U div ?b = off div ?b" for p
    using s(5) [of p] div_eq_iff_between [OF s(1), of "p * U" "off div ?b"] by auto
  finally show ?thesis by blast
qed

lemma block_pages_bound:
  "shape e \<Longrightarrow> off < e_size e \<Longrightarrow> \<forall>p\<in>set (block_pages e off). p < 32 * length (e_bitmap e)"
  using shapeD(4) [of e] by (force simp: set_block_pages)

section \<open>Page loops\<close>

lemma length_fill_states [simp]: "length (fill_states s ps w) = length w"
  unfolding fill_states_def by (induction ps arbitrary: w) simp_all

lemma length_replace_states [simp]: "length (replace_states a b ps w) = length w"
  unfolding replace_states_def by (induction ps arbitrary: w) simp_all

lemma page_state_fill:
  "\<forall>p\<in>set ps. p < 32 * length w \<Longrightarrow>
   page_state (fill_states s ps w) q = (if q \<in> set ps then s else page_state w q)"
  unfolding fill_states_def by (rule bitmap.get_fold_put)

lemma page_state_replace:
  "\<forall>p\<in>set ps. p < 32 * length w \<Longrightarrow>
   page_state (replace_states a b ps w) q =
     (if q \<in> set ps \<and> page_state w q = a then b else page_state w q)"
  unfolding replace_states_def by (rule bitmap.get_fold_replace)

lemma page_state_restore:
  assumes "\<forall>i\<in>set is. base + i < 32 * length w"
  shows "page_state (fold (\<lambda>i. set_page_state (base + i) (f i)) is w) q =
    (if \<exists>i\<in>set is. q = base + i then f (q - base) else page_state w q)"
  using assms
proof (induction "is" arbitrary: w)
  case Nil
  then show ?case by simp
next
  case (Cons i js)
  have "page_state (fold (\<lambda>i. set_page_state (base + i) (f i)) js
      (set_page_state (base + i) (f i) w)) q =
    (if \<exists>i\<in>set js. q = base + i then f (q - base)
     else page_state (set_page_state (base + i) (f i) w) q)"
    using Cons.prems by (intro Cons.IH) simp
  then show ?case using Cons.prems bitmap.get_put [of "base + i" w "f i" q] by auto
qed

lemma length_fold_set [simp]: "length (fold (\<lambda>i. set_page_state (g i) (f i)) is w) = length w"
  by (induction "is" arbitrary: w) simp_all

section \<open>Claims and their pages\<close>

text \<open>The pages of a claim that have not been handed back, and all of its pages.\<close>

definition tail :: "ActiveFetch \<Rightarrow> nat \<Rightarrow> bool" where
  "tail a p \<longleftrightarrow> af_offset a + af_published a \<le> p * U \<and> p * U < af_offset a + af_length a"

definition scope :: "ActiveFetch \<Rightarrow> nat \<Rightarrow> bool" where
  "scope a p \<longleftrightarrow> af_offset a \<le> p * U \<and> p * U < af_offset a + af_length a"

lemma tail_scope: "tail a p \<Longrightarrow> scope a p"
  by (simp add: tail_def scope_def)

definition wf_claim :: "CacheEntry \<Rightarrow> ActiveFetch \<Rightarrow> bool" where
  "wf_claim e a \<longleftrightarrow>
     af_epoch a = e_epoch e \<and> e_block_size e dvd af_offset a \<and> 0 < af_length a \<and>
     af_offset a + af_length a \<le> e_size e \<and>
     (af_offset a + af_length a = e_size e \<or> e_block_size e dvd af_offset a + af_length a) \<and>
     af_published a \<le> af_length a \<and>
     (af_published a = af_length a \<or> e_block_size e dvd af_published a) \<and>
     length (af_prior_states a) = (af_offset a + af_length a - 1) div U + 1 - af_offset a div U \<and>
     (\<forall>s\<in>set (af_prior_states a). s = CACHE_PAGE_MISSING \<or> s = CACHE_PAGE_CLEAN) \<and>
     (af_retrying a \<longrightarrow> af_verifying a)"

text \<open>Every block lies in the claim, in its tail, or outside, as a whole.\<close>

lemma aligned_block:
  assumes "0 < (b :: nat)" and "b dvd x" and "y div b = z div b"
  shows "x \<le> y \<longleftrightarrow> x \<le> z"
  using assms by (metis dvd_div_mult_self less_eq_div_iff_mult_less_eq)

lemma block_uniform:
  assumes "shape e" "wf_claim e a" "p * U div e_block_size e = q * U div e_block_size e"
    "p * U < e_size e" "q * U < e_size e"
  shows "scope a p \<longleftrightarrow> scope a q" "tail a p \<longleftrightarrow> tail a q"
proof -
  let ?b = "e_block_size e"
  have b: "0 < ?b" using shapeD(1) [OF assms(1)] .
  note al = aligned_block [OF b _ assms(3)]
  have w: "?b dvd af_offset a" "af_offset a + af_length a = e_size e \<or> ?b dvd af_offset a + af_length a"
    "af_published a = af_length a \<or> ?b dvd af_published a"
    using assms(2) by (simp_all add: wf_claim_def)
  have hi: "p * U < af_offset a + af_length a \<longleftrightarrow> q * U < af_offset a + af_length a"
    using w(2) al [of "af_offset a + af_length a"] assms(4,5) by (metis linorder_not_le)
  then show "scope a p \<longleftrightarrow> scope a q"
    using al [OF w(1)] by (simp add: scope_def)
  show "tail a p \<longleftrightarrow> tail a q"
    using w(3)
  proof
    assume "af_published a = af_length a"
    then show ?thesis by (auto simp: tail_def)
  next
    assume "?b dvd af_published a"
    then show ?thesis using al [of "af_offset a + af_published a"] w(1) hi by (simp add: tail_def)
  qed
qed

section \<open>Publication\<close>

lemma block_range:
  assumes "shape e" "e_block_size e dvd block" "block < e_size e"
  shows "set (block_pages e block) =
    {p. block \<le> p * U \<and> p * U < min (e_size e) (block + e_block_size e)}"
    and "wrap64 (block + e_block_size e) = block + e_block_size e"
    and "\<not> UINT64_MAX - e_block_size e < block"
proof -
  note s = shapeD [OF assms(1)]
  have "p * U div e_block_size e = block div e_block_size e \<longleftrightarrow>
      block \<le> p * U \<and> p * U < block + e_block_size e" for p
    using div_eq_iff_between [OF s(1), of "p * U" "block div e_block_size e"] assms(2) by simp
  then show "set (block_pages e block) =
    {p. block \<le> p * U \<and> p * U < min (e_size e) (block + e_block_size e)}"
    using set_block_pages [OF assms(1,3)] s(5) by auto
  have "block + e_block_size e < 2 ^ 64" using assms(3) s(3) by linarith
  then show "wrap64 (block + e_block_size e) = block + e_block_size e" by (rule wrap64_id)
  show "\<not> UINT64_MAX - e_block_size e < block"
    using assms(3) s(3) unfolding UINT64_MAX_def by linarith
qed

text \<open>Where the block at an aligned offset of an aligned range ends.\<close>

lemma block_end_in_range:
  assumes "0 < (b :: nat)" "b dvd block" "block < stop" "stop \<le> sz" "stop = sz \<or> b dvd stop"
  shows "min sz (block + b) \<le> stop" and "min sz (block + b) = stop \<or> min sz (block + b) = block + b"
proof -
  have le: "block + b \<le> stop" if "b dvd stop"
  proof -
    have "b dvd stop - block" using that assms(2) by (simp add: dvd_diff_nat)
    then have "b \<le> stop - block" using assms(3) by (simp add: dvd_imp_le)
    then show ?thesis using assms(3) by linarith
  qed
  then show "min sz (block + b) \<le> stop" using assms(4,5) by auto
  show "min sz (block + b) = stop \<or> min sz (block + b) = block + b"
    using assms(4,5) le by (auto simp: min_def)
qed

lemma publish_loop_stop:
  "\<not> block < cl_offset claim + cl_length claim \<Longrightarrow> publish_loop e claim progress final block st = st"
  by (subst publish_loop.simps) (simp only: if_True simp_thms)

lemma publish_loop_spec:
  assumes sh: "shape e" and off: "e_block_size e dvd cl_offset claim"
    and stop: "cl_offset claim + cl_length claim \<le> e_size e"
    "cl_offset claim + cl_length claim = e_size e \<or>
     e_block_size e dvd cl_offset claim + cl_length claim"
  shows "\<lbrakk>publish_loop e claim progress final (cl_offset claim + pub) (words, pub, changed) =
       (words', pub', changed'); pub \<le> cl_length claim;
     pub = cl_length claim \<or> e_block_size e dvd pub; length words = length (e_bitmap e)\<rbrakk> \<Longrightarrow>
    length words' = length (e_bitmap e) \<and> pub \<le> pub' \<and> pub' \<le> cl_length claim \<and>
    (pub' = cl_length claim \<or> e_block_size e dvd pub') \<and>
    (pub' = pub \<or> cl_offset claim + pub' \<le> progress) \<and>
    (\<forall>p. page_state words' p =
      (if cl_offset claim + pub \<le> p * U \<and> p * U < cl_offset claim + pub' \<and>
          page_state words p = CACHE_PAGE_READ_PENDING
       then CACHE_PAGE_CLEAN else page_state words p)) \<and>
    (changed' \<longleftrightarrow> changed \<or> (\<exists>p. cl_offset claim + pub \<le> p * U \<and> p * U < cl_offset claim + pub' \<and>
          page_state words p = CACHE_PAGE_READ_PENDING))"
proof (induction "cl_length claim - pub" arbitrary: pub words changed rule: less_induct)
  case less
  let ?b = "e_block_size e" and ?o = "cl_offset claim" and ?l = "cl_length claim"
  let ?block = "?o + pub"
  note b = shapeD(1) [OF sh]
  show ?case
  proof (cases "pub = ?l")
    case True
    then have "words' = words" "pub' = pub" "changed' = changed"
      using less.prems(1) by (simp_all add: publish_loop_stop)
    then show ?thesis using less.prems(2-4) by auto
  next
    case False
    then have pub: "pub < ?l" "?b dvd pub" using less.prems(2,3) by auto
    then have blk: "?b dvd ?block" "?block < e_size e" "?block < ?o + ?l"
      using off stop(1) by auto
    note br = block_range [OF sh blk(1,2)]
    define stp where "stp = min (e_size e) (?block + ?b)"
    have stp: "stp \<le> ?o + ?l" "stp = ?o + ?l \<or> stp = ?block + ?b"
      using block_end_in_range [OF b blk(1,3) stop] by (simp_all add: stp_def)
    have gt: "?block < stp" using blk(2) b by (simp add: stp_def)
    let ?pages = "block_pages e ?block"
    let ?words = "replace_states CACHE_PAGE_READ_PENDING CACHE_PAGE_CLEAN ?pages words"
    let ?ch = "changed \<or> list_ex (\<lambda>p. page_state words p = CACHE_PAGE_READ_PENDING) ?pages"
    have unfold: "publish_loop e claim progress final ?block (words, pub, changed) =
      (if progress < stp \<or> stp = e_size e \<and> stp mod ?b \<noteq> 0 \<and> \<not> final then (words, pub, changed)
       else publish_loop e claim progress final (?block + ?b) (?words, stp - ?o, ?ch))"
    proof -
      have m: "min (e_size e) (wrap64 (?block + ?b)) = stp" by (simp only: br(2) stp_def)
      show ?thesis
        by (subst publish_loop.simps) (use blk(3) b br(3) in \<open>auto simp: Let_def m\<close>)
    qed
    have pages: "set ?pages = {p. ?block \<le> p * U \<and> p * U < stp}"
      using br(1) by (simp add: stp_def)
    have bound: "\<forall>p\<in>set ?pages. p < 32 * length words"
      using block_pages_bound [OF sh blk(2)] less.prems(4) by simp
    note rep = page_state_replace [OF bound, of CACHE_PAGE_READ_PENDING CACHE_PAGE_CLEAN,
        unfolded pages, simplified]
    have ch: "?ch \<longleftrightarrow> changed \<or> (\<exists>p. ?block \<le> p * U \<and> p * U < stp \<and>
        page_state words p = CACHE_PAGE_READ_PENDING)"
      using pages by (auto simp: list_ex_iff)
    show ?thesis
    proof (cases "progress < stp \<or> stp = e_size e \<and> stp mod ?b \<noteq> 0 \<and> \<not> final")
      case True
      have "words' = words" "pub' = pub" "changed' = changed"
        using less.prems(1) unfolding unfold if_P [OF True] by simp_all
      then show ?thesis using less.prems(2-4) by auto
    next
      case False
      then have prog: "stp \<le> progress" by (simp only: de_Morgan_disj not_less)
      have rec: "publish_loop e claim progress final (?block + ?b) (?words, stp - ?o, ?ch) =
          (words', pub', changed')"
        using less.prems(1) unfolding unfold if_not_P [OF False] .
      define pub1 where "pub1 = stp - ?o"
      have p1: "stp = ?o + pub1" "pub < pub1" "pub1 \<le> ?l"
        using gt stp(1) unfolding pub1_def by linarith+
      have p1dvd: "pub1 = ?l \<or> ?b dvd pub1"
        using stp(2)
      proof
        assume "stp = ?block + ?b"
        then have "pub1 = pub + ?b" using p1(1) by linarith
        then show ?thesis using pub(2) by simp
      qed (use p1(1) in linarith)
      have rec': "publish_loop e claim progress final (?o + pub1) (?words, pub1, ?ch) =
          (words', pub', changed')"
      proof (cases "stp = ?block + ?b")
        case True
        then have "?block + ?b = ?o + pub1" using p1(1) by simp
        then show ?thesis using rec unfolding pub1_def [symmetric] by (simp only:)
      next
        case False
        moreover have "stp \<le> ?block + ?b" unfolding stp_def by simp
        ultimately have "pub1 = ?l" "\<not> ?block + ?b < ?o + ?l" using stp(2) p1(1) by linarith+
        then show ?thesis using rec unfolding pub1_def [symmetric] by (simp add: publish_loop_stop)
      qed
      have R: "length words' = length (e_bitmap e) \<and> pub1 \<le> pub' \<and> pub' \<le> ?l \<and>
        (pub' = ?l \<or> ?b dvd pub') \<and> (pub' = pub1 \<or> ?o + pub' \<le> progress) \<and>
        (\<forall>p. page_state words' p =
          (if ?o + pub1 \<le> p * U \<and> p * U < ?o + pub' \<and> page_state ?words p = CACHE_PAGE_READ_PENDING
           then CACHE_PAGE_CLEAN else page_state ?words p)) \<and>
        (changed' \<longleftrightarrow> ?ch \<or> (\<exists>p. ?o + pub1 \<le> p * U \<and> p * U < ?o + pub' \<and>
           page_state ?words p = CACHE_PAGE_READ_PENDING))"
        using pub(1) p1 p1dvd less.prems(4)
        by (intro less.hyps [OF _ rec']) auto
      have le: "pub1 \<le> pub'" using R by blast
      have st: "page_state words' p =
        (if ?block \<le> p * U \<and> p * U < ?o + pub' \<and> page_state words p = CACHE_PAGE_READ_PENDING
         then CACHE_PAGE_CLEAN else page_state words p)" for p
      proof -
        have "page_state words' p =
          (if ?o + pub1 \<le> p * U \<and> p * U < ?o + pub' \<and> page_state ?words p = CACHE_PAGE_READ_PENDING
           then CACHE_PAGE_CLEAN else page_state ?words p)" using R by blast
        moreover have "?block \<le> p * U \<and> p * U < ?o + pub' \<longleftrightarrow>
            (?block \<le> p * U \<and> p * U < stp) \<or> (?o + pub1 \<le> p * U \<and> p * U < ?o + pub')"
          using gt p1(1) le by linarith
        ultimately show ?thesis unfolding rep [of p] by auto
      qed
      have c: "changed' \<longleftrightarrow> changed \<or> (\<exists>p. ?block \<le> p * U \<and> p * U < ?o + pub' \<and>
          page_state words p = CACHE_PAGE_READ_PENDING)"
      proof -
        have "(\<exists>p. ?o + pub1 \<le> p * U \<and> p * U < ?o + pub' \<and>
            page_state ?words p = CACHE_PAGE_READ_PENDING) \<longleftrightarrow>
          (\<exists>p. stp \<le> p * U \<and> p * U < ?o + pub' \<and> page_state words p = CACHE_PAGE_READ_PENDING)"
          unfolding rep using p1(1) by (intro ex_cong1) auto
        moreover have "(\<exists>p. ?block \<le> p * U \<and> p * U < ?o + pub' \<and> Q p) \<longleftrightarrow>
            (\<exists>p. ?block \<le> p * U \<and> p * U < stp \<and> Q p) \<or>
            (\<exists>p. stp \<le> p * U \<and> p * U < ?o + pub' \<and> Q p)" for Q
        proof -
          have "?block \<le> x \<and> x < ?o + pub' \<longleftrightarrow>
              (?block \<le> x \<and> x < stp) \<or> (stp \<le> x \<and> x < ?o + pub')" for x
            using gt p1(1) le by linarith
          then show ?thesis by blast
        qed
        moreover note conjunct2 [OF conjunct2 [OF conjunct2 [OF conjunct2 [OF conjunct2 [OF conjunct2 [OF R]]]]]]
        ultimately show ?thesis unfolding ch by (simp only: disj_assoc)
      qed
      have "pub' = pub \<or> ?o + pub' \<le> progress" using R prog p1(1) by auto
      moreover have "pub \<le> pub'" using p1(2) le by simp
      ultimately show ?thesis using R c by (simp only: st simp_thms)
    qed
  qed
qed

section \<open>The end of a fetch\<close>

lemma finish_loop_stop:
  "\<not> block < cl_offset claim + cl_length claim \<Longrightarrow> finish_loop e hole claim block st = st"
  by (subst finish_loop.simps) (simp only: if_True simp_thms)

lemma punch_range_subset: "punch_range hole offset len pages \<subseteq> pages"
  by (auto simp: punch_range_def)

lemma punched_page:
  assumes "shape e" "e_block_size e dvd block"
    "p \<in> pages - punch_range hole block (e_block_size e) pages"
  shows "p * U div e_block_size e = block div e_block_size e"
proof -
  note s = shapeD [OF assms(1)]
  have dvd: "U dvd block" using s(2) assms(2) by (rule dvd_trans)
  have "block div U \<le> p" "p < (block + e_block_size e) div U"
    using assms(3) by (auto simp: punch_range_def split: if_splits)
  then have "block \<le> p * U" "p * U < block + e_block_size e"
    using page_start_le [OF dvd, of p] page_start_le [of "block + e_block_size e" p] dvd s(2)
    by (auto simp: not_le [symmetric])
  then show ?thesis
    using div_eq_iff_between [OF s(1), of "p * U" "block div e_block_size e"] assms(2) by simp
qed

lemma finish_loop_spec:
  assumes sh: "shape e" and stop: "cl_offset claim + cl_length claim \<le> e_size e"
  shows "\<lbrakk>finish_loop e hole claim block (words, pages) = (words', pages');
     cl_offset claim + cl_length claim \<le> block \<or> e_block_size e dvd block;
     cl_offset claim + cl_length claim = e_size e \<or>
       e_block_size e dvd cl_offset claim + cl_length claim;
     length words = length (e_bitmap e)\<rbrakk> \<Longrightarrow>
    length words' = length (e_bitmap e) \<and>
    (\<forall>p. page_state words' p =
      (if block \<le> p * U \<and> p * U < cl_offset claim + cl_length claim \<and>
          page_state words p = CACHE_PAGE_READ_PENDING
       then CACHE_PAGE_MISSING else page_state words p)) \<and>
    pages' \<subseteq> pages \<and>
    (\<forall>p\<in>pages - pages'. \<exists>q. q * U div e_block_size e = p * U div e_block_size e \<and>
       block \<le> q * U \<and> q * U < cl_offset claim + cl_length claim \<and>
       page_state words q = CACHE_PAGE_READ_PENDING)"
proof (induction "cl_offset claim + cl_length claim - block" arbitrary: block words pages
    rule: less_induct)
  case less
  let ?b = "e_block_size e" and ?s = "cl_offset claim + cl_length claim"
  note b = shapeD(1) [OF sh]
  show ?case
  proof (cases "block < ?s")
    case False
    then have "words' = words" "pages' = pages"
      using less.prems(1) by (simp_all add: finish_loop_stop)
    then show ?thesis using less.prems(4) False by auto
  next
    case True
    then have blk: "?b dvd block" "block < e_size e" using less.prems(2) stop by auto
    note br = block_range [OF sh blk]
    let ?bp = "block_pages e block"
    define w1 where "w1 = replace_states CACHE_PAGE_READ_PENDING CACHE_PAGE_MISSING ?bp words"
    define p1 where "p1 = (if list_ex (\<lambda>p. page_state words p = CACHE_PAGE_READ_PENDING) ?bp
      then punch_range hole block ?b pages else pages)"
    have rec: "finish_loop e hole claim (block + ?b) (w1, p1) = (words', pages')"
      using less.prems(1) True b br(3)
      by (subst (asm) finish_loop.simps) (simp add: Let_def w1_def p1_def)
    have bound: "\<forall>p\<in>set ?bp. p < 32 * length words"
      using block_pages_bound [OF sh blk(2)] less.prems(4) by simp
    have pages: "set ?bp = {p. block \<le> p * U \<and> p * U < min (e_size e) (block + ?b)}"
      by (rule br(1))
    have le: "min (e_size e) (block + ?b) \<le> ?s"
      "min (e_size e) (block + ?b) = ?s \<or> min (e_size e) (block + ?b) = block + ?b"
      using block_end_in_range [OF b blk(1) True stop less.prems(3)] .
    have w1: "page_state w1 p = (if block \<le> p * U \<and> p * U < min (e_size e) (block + ?b) \<and>
        page_state words p = CACHE_PAGE_READ_PENDING then CACHE_PAGE_MISSING
        else page_state words p)" for p
      unfolding w1_def page_state_replace [OF bound] pages by simp
    have IH: "length words' = length (e_bitmap e) \<and>
      (\<forall>p. page_state words' p =
        (if block + ?b \<le> p * U \<and> p * U < ?s \<and> page_state w1 p = CACHE_PAGE_READ_PENDING
         then CACHE_PAGE_MISSING else page_state w1 p)) \<and> pages' \<subseteq> p1 \<and>
      (\<forall>p\<in>p1 - pages'. \<exists>q. q * U div ?b = p * U div ?b \<and> block + ?b \<le> q * U \<and> q * U < ?s \<and>
         page_state w1 q = CACHE_PAGE_READ_PENDING)"
      using True b blk(1) less.prems(3,4)
      by (intro less.hyps [OF _ rec]) (auto simp: w1_def)
    note IH_state = IH [THEN conjunct2, THEN conjunct1]
    note IH_data = IH [THEN conjunct2, THEN conjunct2]
    have in_blk: "block \<le> x \<and> x < ?s \<longleftrightarrow>
        block \<le> x \<and> x < min (e_size e) (block + ?b) \<or> block + ?b \<le> x \<and> x < ?s" for x
      using le by linarith
    have st: "page_state words' p =
      (if block \<le> p * U \<and> p * U < ?s \<and> page_state words p = CACHE_PAGE_READ_PENDING
       then CACHE_PAGE_MISSING else page_state words p)" for p
    proof -
      have "page_state words' p =
        (if block + ?b \<le> p * U \<and> p * U < ?s \<and> page_state w1 p = CACHE_PAGE_READ_PENDING
         then CACHE_PAGE_MISSING else page_state w1 p)" using IH_state by blast
      then show ?thesis unfolding w1 [of p] using in_blk [of "p * U"] by auto
    qed
    have sub: "pages' \<subseteq> p1" "p1 \<subseteq> pages"
      using IH_data punch_range_subset by (blast, auto simp: p1_def)
    have hole: "\<exists>q. q * U div ?b = p * U div ?b \<and> block \<le> q * U \<and> q * U < ?s \<and>
        page_state words q = CACHE_PAGE_READ_PENDING" if pd: "p \<in> pages - pages'" for p
    proof (cases "p \<in> p1")
      case True
      then obtain q where "q * U div ?b = p * U div ?b" "block + ?b \<le> q * U" "q * U < ?s"
        "page_state w1 q = CACHE_PAGE_READ_PENDING" using IH_data pd by blast
      then show ?thesis using w1 [of q] by (intro exI [of _ q]) (auto split: if_splits)
    next
      case False
      then obtain q where q: "q \<in> set ?bp" "page_state words q = CACHE_PAGE_READ_PENDING"
        using pd by (auto simp: p1_def list_ex_iff split: if_splits)
      have "p * U div ?b = block div ?b"
        using punched_page [OF sh blk(1), of p pages hole] False pd q
        by (auto simp: p1_def list_ex_iff split: if_splits)
      moreover have "q * U div ?b = block div ?b"
        using q(1) set_block_pages [OF sh blk(2)] by simp
      ultimately show ?thesis using q pages le(1) by (intro exI [of _ q]) auto
    qed
    show ?thesis using conjunct1 [OF IH] st sub hole by auto
  qed
qed

section \<open>Pins\<close>

text \<open>A byte range covers a region when they share a byte.\<close>

definition cover :: "nat \<Rightarrow> nat \<Rightarrow> nat \<Rightarrow> nat \<Rightarrow> bool" where
  "cover b off len r \<longleftrightarrow> r * b < off + len \<and> off < r * b + b"

lemma cover_div:
  assumes "0 < b" "0 < len"
  shows "off div b \<le> r \<and> r < (off + len - 1) div b + 1 \<longleftrightarrow> cover b off len r"
proof -
  have "off div b \<le> r \<longleftrightarrow> off < r * b + b"
    using assms(1) by (metis add.commute div_less_iff_less_mult less_Suc_eq_le mult_Suc)
  moreover have "r < (off + len - 1) div b + 1 \<longleftrightarrow> r * b < off + len"
    using assms less_eq_div_iff_mult_less_eq [OF assms(1), of r "off + len - 1"] by auto
  ultimately show ?thesis by (auto simp: cover_def)
qed

lemma span_cover:
  assumes "shape e" "0 < len" "off + len \<le> e_size e"
  shows "span e off len = [off div e_block_size e ..< (off + len - 1) div e_block_size e + 1]"
    and "span_last e off len = (off + len - 1) div e_block_size e + 1"
    and "off div e_block_size e \<le> (off + len - 1) div e_block_size e + 1"
    and "(off + len - 1) div e_block_size e + 1 \<le> length (e_region_pins e)"
    and "set (span e off len) = {r. cover (e_block_size e) off len r}"
proof -
  note s = shapeD [OF assms(1)]
  have "(off + len - 1) div e_block_size e * e_block_size e < e_size e"
    using div_times_less_eq_dividend [of "off + len - 1" "e_block_size e"] assms(2,3) by linarith
  then show len: "(off + len - 1) div e_block_size e + 1 \<le> length (e_region_pins e)"
    using s(6) [of "(off + len - 1) div e_block_size e"] by simp
  have w: "wrap64 (off + len - 1) = off + len - 1"
    by (rule wrap64_id) (use assms(3) s(3) in linarith)
  show l: "span_last e off len = (off + len - 1) div e_block_size e + 1"
    unfolding span_last_def w using len by (rule min_absorb2)
  then show sp: "span e off len = [off div e_block_size e ..< (off + len - 1) div e_block_size e + 1]"
    by (simp add: span_def)
  show "off div e_block_size e \<le> (off + len - 1) div e_block_size e + 1"
    using div_le_mono [of off "off + len - 1" "e_block_size e"] assms(2) by linarith
  show "set (span e off len) = {r. cover (e_block_size e) off len r}"
    unfolding sp set_upt atLeastLessThan_def atLeast_def lessThan_def
    by (rule set_eqI) (simp only: mem_Collect_eq Int_iff cover_div [OF s(1) assms(2)])
qed

lemma length_increment_pins [simp]: "length (increment_pins rs pins) = length pins"
  unfolding increment_pins_def by (induction rs arbitrary: pins) simp_all

lemma nth_increment_pins:
  assumes "distinct rs" "r < length pins"
  shows "increment_pins rs pins ! r = pins ! r + (if r \<in> set rs then 1 else 0)"
  using assms
proof (induction rs arbitrary: pins)
  case Nil
  then show ?case by (simp add: increment_pins_def)
next
  case (Cons x rs)
  then have "increment_pins rs (pins[x := pins ! x + 1]) ! r =
      pins[x := pins ! x + 1] ! r + (if r \<in> set rs then 1 else 0)"
    by (intro Cons.IH) simp_all
  then show ?case using Cons.prems by (cases "x = r") (auto simp: increment_pins_def)
qed

lemma sum_increment_pins:
  "\<forall>r\<in>set rs. r < length pins \<Longrightarrow>
   sum_list (increment_pins rs pins) = sum_list pins + length rs"
proof (induction rs arbitrary: pins)
  case Nil
  then show ?case by (simp add: increment_pins_def)
next
  case (Cons x rs)
  have "sum_list (increment_pins rs (pins[x := pins ! x + 1])) =
      sum_list (pins[x := pins ! x + 1]) + length rs"
    using Cons.prems by (intro Cons.IH) simp
  then show ?case
    using Cons.prems sum_list_update_nat [of x pins "pins ! x + 1"] by (simp add: increment_pins_def)
qed

lemma pinned_increment:
  assumes "lo \<le> hi" "hi \<le> length pins" "n = (of_nat (sum_list pins) :: u64)"
  shows "n + (of_nat hi - of_nat lo) = of_nat (sum_list (increment_pins [lo..<hi] pins))"
  using assms by (simp add: sum_increment_pins of_nat_diff)

lemma release_pins_spec:
  assumes "distinct rs" "\<forall>r\<in>set rs. r < length pins"
    "release_pins rs (pins, n, b) = (pins', n', b')"
  shows "length pins' = length pins \<and>
    (\<forall>r<length pins. pins' ! r = pins ! r - (if r \<in> set rs then 1 else 0)) \<and>
    (n = of_nat (sum_list pins) \<longrightarrow> n' = of_nat (sum_list pins')) \<and>
    (b' \<longleftrightarrow> b \<or> (\<exists>r\<in>set rs. pins ! r \<noteq> 0))"
  using assms
proof (induction rs arbitrary: pins n b)
  case Nil
  then show ?case by simp
next
  case (Cons x rs)
  show ?case
  proof (cases "pins ! x = 0")
    case True
    then show ?thesis using Cons.IH [of pins n b] Cons.prems by auto
  next
    case False
    let ?p = "pins[x := pins ! x - 1]"
    have x: "x < length pins" "x \<notin> set rs" using Cons.prems by auto
    have IH: "length pins' = length ?p \<and>
      (\<forall>r<length ?p. pins' ! r = ?p ! r - (if r \<in> set rs then 1 else 0)) \<and>
      (n - 1 = of_nat (sum_list ?p) \<longrightarrow> n' = of_nat (sum_list pins')) \<and>
      (b' \<longleftrightarrow> True \<or> (\<exists>r\<in>set rs. ?p ! r \<noteq> 0))"
      using Cons.prems False by (intro Cons.IH) auto
    have "sum_list ?p + 1 = sum_list pins"
      using sum_list_update_nat [OF x(1), of "pins ! x - 1"] False by simp
    then have "(of_nat (sum_list pins) :: u64) - 1 = of_nat (sum_list ?p)"
      by (metis add_diff_cancel_right' of_nat_1 of_nat_add)
    then show ?thesis using IH False x by (auto simp: nth_list_update)
  qed
qed

lemma drop_pins_spec:
  assumes "drop_pins rs e = (released, e')" "distinct rs" "\<forall>r\<in>set rs. r < length (e_region_pins e)"
  shows "e' = e\<lparr>e_region_pins := e_region_pins e', e_pinned_regions := e_pinned_regions e'\<rparr>"
    and "length (e_region_pins e') = length (e_region_pins e)"
    and "\<forall>r<length (e_region_pins e).
      e_region_pins e' ! r = e_region_pins e ! r - (if r \<in> set rs then 1 else 0)"
    and "e_pinned_regions e = of_nat (sum_list (e_region_pins e)) \<Longrightarrow>
      e_pinned_regions e' = of_nat (sum_list (e_region_pins e'))"
    and "released \<longleftrightarrow> (\<exists>r\<in>set rs. e_region_pins e ! r \<noteq> 0)"
proof -
  obtain pins pinned where r: "release_pins rs (e_region_pins e, e_pinned_regions e, False) =
      (pins, pinned, released)" and e': "e' = e\<lparr>e_region_pins := pins, e_pinned_regions := pinned\<rparr>"
    using assms(1) by (auto simp: drop_pins_def split: prod.splits)
  show "e' = e\<lparr>e_region_pins := e_region_pins e', e_pinned_regions := e_pinned_regions e'\<rparr>"
    by (simp add: e')
  note spec = release_pins_spec [OF assms(2,3) r]
  show "length (e_region_pins e') = length (e_region_pins e)"
    "\<forall>r<length (e_region_pins e).
      e_region_pins e' ! r = e_region_pins e ! r - (if r \<in> set rs then 1 else 0)"
    "e_pinned_regions e = of_nat (sum_list (e_region_pins e)) \<Longrightarrow>
      e_pinned_regions e' = of_nat (sum_list (e_region_pins e'))"
    "released \<longleftrightarrow> (\<exists>r\<in>set rs. e_region_pins e ! r \<noteq> 0)"
    using spec by (simp_all add: e')
qed

end
