(* ===== verification/Cache_Entry_Inv.thy ===== *)
theory Cache_Entry_Inv
  imports Cache_Entry_Lemmas
begin

text \<open>
  The invariant of a cached generation that serves reads, and that every operation keeps it.
  The state is the entry together with the pins held on it: those of the readers that asked for
  clean bytes (\<open>pin_clean\<close>) and those taken without looking at the pages (\<open>pin\<close>).
\<close>

type_synonym pins = "(nat \<times> nat) list \<times> (nat \<times> nat) list"

abbreviation all_pins :: "pins \<Rightarrow> (nat \<times> nat) list" where
  "all_pins h \<equiv> fst h @ snd h"

section \<open>The invariant\<close>

text \<open>
  Ownership of pages: every pending page is in the tail of exactly one active fetch, the
  scope of a verifying fetch is not shared, clean pages have their bytes in the data file,
  and so do the pages that a rollback would make clean again.
\<close>

definition own_inv :: "CacheEntry \<Rightarrow> bool" where
  "own_inv e \<longleftrightarrow>
     (\<forall>a\<in>set (e_active_claims e). wf_claim e a) \<and>
     distinct (map af_id (e_active_claims e)) \<and>
     (\<forall>p<e_page_count e. page_state (e_bitmap e) p = CACHE_PAGE_READ_PENDING \<longrightarrow>
        (\<exists>a\<in>set (e_active_claims e). tail a p)) \<and>
     (\<forall>a\<in>set (e_active_claims e). \<forall>p. tail a p \<longrightarrow>
        page_state (e_bitmap e) p = CACHE_PAGE_READ_PENDING \<or>
        page_state (e_bitmap e) p = CACHE_PAGE_BAD) \<and>
     (\<forall>a\<in>set (e_active_claims e). \<forall>b\<in>set (e_active_claims e). af_id a \<noteq> af_id b \<longrightarrow>
        (\<forall>p. \<not> (tail a p \<and> tail b p)) \<and>
        (af_verifying a \<longrightarrow> (\<forall>p. \<not> (scope a p \<and> scope b p)))) \<and>
     (\<forall>p<e_page_count e. page_state (e_bitmap e) p = CACHE_PAGE_CLEAN \<longrightarrow> p \<in> e_data e) \<and>
     (\<forall>a\<in>set (e_active_claims e). \<forall>k<length (af_prior_states a).
        af_prior_states a ! k = CACHE_PAGE_CLEAN \<longrightarrow> tail a (af_offset a div U + k) \<longrightarrow>
        af_offset a div U + k \<in> e_data e) \<and>
     (\<forall>a\<in>set (e_active_claims e). af_verifying a \<longrightarrow> (\<forall>p. scope a p \<longrightarrow> p \<in> e_data e))"

text \<open>Accounting of pins: the pins of readers, of verified parts and of verifying fetches.\<close>

definition held_pins :: "CacheEntry \<Rightarrow> pins \<Rightarrow> nat \<Rightarrow> nat" where
  "held_pins e h r = length (filter (\<lambda>(off, len). cover (e_block_size e) off len r) (all_pins h))"

definition part_pins :: "CacheEntry \<Rightarrow> nat \<Rightarrow> nat" where
  "part_pins e r =
     length (filter (\<lambda>(part, s). part_busy s \<and>
         cover (e_block_size e) (part_offset part) (part_size part) r)
       (zip (e_checksum_parts e) (e_checksum_states e)))"

definition fetch_pins :: "CacheEntry \<Rightarrow> nat \<Rightarrow> nat" where
  "fetch_pins e r =
     length (filter (\<lambda>a. af_verifying a \<and> cover (e_block_size e) (af_offset a) (af_length a) r)
       (e_active_claims e))"

definition acct_inv :: "CacheEntry \<Rightarrow> pins \<Rightarrow> bool" where
  "acct_inv e h \<longleftrightarrow>
     (\<forall>(off, len)\<in>set (all_pins h). 0 < len \<and> off + len \<le> e_size e) \<and>
     (\<forall>r<length (e_region_pins e).
        e_region_pins e ! r = held_pins e h r + part_pins e r + fetch_pins e r) \<and>
     e_pinned_regions e = of_nat (sum_list (e_region_pins e))"

text \<open>The checksum manifest and the operations in flight.\<close>

definition man_inv :: "CacheEntry \<Rightarrow> bool" where
  "man_inv e \<longleftrightarrow>
     length (e_checksum_states e) = length (e_checksum_parts e) \<and>
     (e_checksum_manifest e = kChecksumAvailable \<longrightarrow>
        manifest_end (e_size e) 0 (e_checksum_parts e) = Some (e_size e)) \<and>
     (e_checksum_manifest e \<noteq> kChecksumAvailable \<longrightarrow> e_checksum_parts e = []) \<and>
     e_checksum_ops e = (if e_checksum_manifest e = kChecksumLoading then 1 else 0) +
       length (filter part_busy (e_checksum_states e)) \<and>
     ((\<exists>a\<in>set (e_active_claims e). af_verifying a) \<longrightarrow>
        e_checksum_manifest e = kChecksumUnknown \<or> e_checksum_manifest e = kChecksumUnavailable)"

text \<open>A fetch that is not a retry never writes where a reader has pinned clean bytes.\<close>

definition sep_inv :: "CacheEntry \<Rightarrow> pins \<Rightarrow> bool" where
  "sep_inv e h \<longleftrightarrow>
     (\<forall>a\<in>set (e_active_claims e). \<not> af_retrying a \<longrightarrow>
        (\<forall>(off, len)\<in>set (fst h). \<forall>p. tail a p \<longrightarrow>
           \<not> cover (e_block_size e) off len (p * U div e_block_size e)))"

text \<open>An exported generation is complete and at rest.\<close>

definition exp_inv :: "CacheEntry \<Rightarrow> bool" where
  "exp_inv e \<longleftrightarrow>
     (e_exported e \<longrightarrow> e_active_claims e = [] \<and>
        (\<forall>s\<in>set (e_checksum_states e). \<not> part_busy s) \<and>
        (\<forall>p<e_page_count e. page_state (e_bitmap e) p = CACHE_PAGE_CLEAN))"

definition entry_inv :: "CacheEntry \<Rightarrow> pins \<Rightarrow> bool" where
  "entry_inv e h \<longleftrightarrow> shape e \<and> own_inv e \<and> acct_inv e h \<and> man_inv e \<and> sep_inv e h \<and> exp_inv e"

section \<open>Which fields the invariants read\<close>

lemma notify_frame [simp]:
  "e_config (notify_waiters_locked e) = e_config e"
  "e_key (notify_waiters_locked e) = e_key e"
  "e_header (notify_waiters_locked e) = e_header e"
  "e_bitmap (notify_waiters_locked e) = e_bitmap e"
  "e_size (notify_waiters_locked e) = e_size e"
  "e_epoch (notify_waiters_locked e) = e_epoch e"
  "e_block_size (notify_waiters_locked e) = e_block_size e"
  "e_page_count (notify_waiters_locked e) = e_page_count e"
  "e_waiters (notify_waiters_locked e) = e_waiters e"
  "e_referenced (notify_waiters_locked e) = e_referenced e"
  "e_region_pins (notify_waiters_locked e) = e_region_pins e"
  "e_active_claims (notify_waiters_locked e) = e_active_claims e"
  "e_checksum_parts (notify_waiters_locked e) = e_checksum_parts e"
  "e_checksum_states (notify_waiters_locked e) = e_checksum_states e"
  "e_checksum_ops (notify_waiters_locked e) = e_checksum_ops e"
  "e_pinned_regions (notify_waiters_locked e) = e_pinned_regions e"
  "e_checksum_manifest (notify_waiters_locked e) = e_checksum_manifest e"
  "e_eviction_disabled (notify_waiters_locked e) = e_eviction_disabled e"
  "e_stale (notify_waiters_locked e) = e_stale e"
  "e_data (notify_waiters_locked e) = e_data e"
  by (simp_all add: notify_waiters_locked_def split: option.splits)

lemma shape_cong:
  assumes "shape e" "e_block_size e' = e_block_size e" "e_size e' = e_size e"
    "e_page_count e' = e_page_count e" "length (e_bitmap e') = length (e_bitmap e)"
    "length (e_region_pins e') = length (e_region_pins e)"
    "length (e_referenced e') = length (e_referenced e)"
  shows "shape e'"
  using assms by (simp add: shape_def)

lemma wf_claim_cong:
  "e_epoch e' = e_epoch e \<Longrightarrow> e_block_size e' = e_block_size e \<Longrightarrow> e_size e' = e_size e \<Longrightarrow>
   wf_claim e' a = wf_claim e a"
  by (simp add: wf_claim_def)

lemma own_cong:
  assumes "own_inv e" "e_epoch e' = e_epoch e" "e_block_size e' = e_block_size e"
    "e_size e' = e_size e" "e_page_count e' = e_page_count e" "e_bitmap e' = e_bitmap e"
    "e_active_claims e' = e_active_claims e" "e_data e' = e_data e"
  shows "own_inv e'"
  using assms by (simp add: own_inv_def wf_claim_def)

lemma acct_cong:
  assumes "acct_inv e h" "e_size e' = e_size e" "e_block_size e' = e_block_size e"
    "e_region_pins e' = e_region_pins e" "e_pinned_regions e' = e_pinned_regions e"
    "e_checksum_parts e' = e_checksum_parts e" "e_checksum_states e' = e_checksum_states e"
    "e_active_claims e' = e_active_claims e"
  shows "acct_inv e' h"
  using assms by (simp add: acct_inv_def held_pins_def part_pins_def fetch_pins_def)

lemma man_cong:
  assumes "man_inv e" "e_size e' = e_size e" "e_checksum_parts e' = e_checksum_parts e"
    "e_checksum_states e' = e_checksum_states e" "e_checksum_ops e' = e_checksum_ops e"
    "e_checksum_manifest e' = e_checksum_manifest e" "e_active_claims e' = e_active_claims e"
  shows "man_inv e'"
  using assms by (simp add: man_inv_def)

lemma sep_cong:
  assumes "sep_inv e h" "e_block_size e' = e_block_size e" "e_active_claims e' = e_active_claims e"
  shows "sep_inv e' h"
  using assms by (simp add: sep_inv_def)

lemma exp_cong:
  assumes "exp_inv e" "e_exported e' = e_exported e" "e_active_claims e' = e_active_claims e"
    "e_checksum_states e' = e_checksum_states e" "e_page_count e' = e_page_count e"
    "e_bitmap e' = e_bitmap e"
  shows "exp_inv e'"
  using assms by (simp add: exp_inv_def)

text \<open>An operation that only changes what no part of the invariant reads.\<close>

lemma inv_frame:
  assumes "entry_inv e h" "e_exported e' = e_exported e" "e_bitmap e' = e_bitmap e"
    "e_size e' = e_size e" "e_epoch e' = e_epoch e" "e_block_size e' = e_block_size e"
    "e_page_count e' = e_page_count e" "length (e_referenced e') = length (e_referenced e)"
    "e_region_pins e' = e_region_pins e" "e_active_claims e' = e_active_claims e"
    "e_checksum_parts e' = e_checksum_parts e" "e_checksum_states e' = e_checksum_states e"
    "e_checksum_ops e' = e_checksum_ops e" "e_pinned_regions e' = e_pinned_regions e"
    "e_checksum_manifest e' = e_checksum_manifest e" "e_data e' = e_data e"
  shows "entry_inv e' h"
  using assms unfolding entry_inv_def
  by (auto intro: shape_cong own_cong acct_cong man_cong sep_cong exp_cong)

lemma inv_notify [simp]: "entry_inv (notify_waiters_locked e) h \<longleftrightarrow> entry_inv e h"
  by (auto intro: inv_frame)

section \<open>Consequences of the invariant\<close>

lemma ownD:
  assumes "own_inv e"
  shows "a \<in> set (e_active_claims e) \<Longrightarrow> wf_claim e a"
    and "distinct (map af_id (e_active_claims e))"
    and "p < e_page_count e \<Longrightarrow> page_state (e_bitmap e) p = CACHE_PAGE_READ_PENDING \<Longrightarrow>
      \<exists>a\<in>set (e_active_claims e). tail a p"
    and "a \<in> set (e_active_claims e) \<Longrightarrow> tail a p \<Longrightarrow>
      page_state (e_bitmap e) p = CACHE_PAGE_READ_PENDING \<or>
      page_state (e_bitmap e) p = CACHE_PAGE_BAD"
    and "a \<in> set (e_active_claims e) \<Longrightarrow> b \<in> set (e_active_claims e) \<Longrightarrow> af_id a \<noteq> af_id b \<Longrightarrow>
      tail a p \<Longrightarrow> \<not> tail b p"
    and "a \<in> set (e_active_claims e) \<Longrightarrow> b \<in> set (e_active_claims e) \<Longrightarrow> af_id a \<noteq> af_id b \<Longrightarrow>
      af_verifying a \<Longrightarrow> scope a p \<Longrightarrow> \<not> scope b p"
    and "p < e_page_count e \<Longrightarrow> page_state (e_bitmap e) p = CACHE_PAGE_CLEAN \<Longrightarrow> p \<in> e_data e"
    and "a \<in> set (e_active_claims e) \<Longrightarrow> k < length (af_prior_states a) \<Longrightarrow>
      af_prior_states a ! k = CACHE_PAGE_CLEAN \<Longrightarrow> tail a (af_offset a div U + k) \<Longrightarrow>
      af_offset a div U + k \<in> e_data e"
    and "a \<in> set (e_active_claims e) \<Longrightarrow> af_verifying a \<Longrightarrow> scope a p \<Longrightarrow> p \<in> e_data e"
  using assms unfolding own_inv_def by blast+

lemma own_invI:
  assumes "\<And>a. a \<in> set (e_active_claims e) \<Longrightarrow> wf_claim e a"
    and "distinct (map af_id (e_active_claims e))"
    and "\<And>p. p < e_page_count e \<Longrightarrow> page_state (e_bitmap e) p = CACHE_PAGE_READ_PENDING \<Longrightarrow>
      \<exists>a\<in>set (e_active_claims e). tail a p"
    and "\<And>a p. a \<in> set (e_active_claims e) \<Longrightarrow> tail a p \<Longrightarrow>
      page_state (e_bitmap e) p = CACHE_PAGE_READ_PENDING \<or>
      page_state (e_bitmap e) p = CACHE_PAGE_BAD"
    and "\<And>a b p. a \<in> set (e_active_claims e) \<Longrightarrow> b \<in> set (e_active_claims e) \<Longrightarrow>
      af_id a \<noteq> af_id b \<Longrightarrow> tail a p \<Longrightarrow> \<not> tail b p"
    and "\<And>a b p. a \<in> set (e_active_claims e) \<Longrightarrow> b \<in> set (e_active_claims e) \<Longrightarrow>
      af_id a \<noteq> af_id b \<Longrightarrow> af_verifying a \<Longrightarrow> scope a p \<Longrightarrow> \<not> scope b p"
    and "\<And>p. p < e_page_count e \<Longrightarrow> page_state (e_bitmap e) p = CACHE_PAGE_CLEAN \<Longrightarrow> p \<in> e_data e"
    and "\<And>a k. a \<in> set (e_active_claims e) \<Longrightarrow> k < length (af_prior_states a) \<Longrightarrow>
      af_prior_states a ! k = CACHE_PAGE_CLEAN \<Longrightarrow> tail a (af_offset a div U + k) \<Longrightarrow>
      af_offset a div U + k \<in> e_data e"
    and "\<And>a p. a \<in> set (e_active_claims e) \<Longrightarrow> af_verifying a \<Longrightarrow> scope a p \<Longrightarrow> p \<in> e_data e"
  shows "own_inv e"
  unfolding own_inv_def using assms by (intro conjI ballI allI impI notI) blast+

lemma sepD:
  "sep_inv e h \<Longrightarrow> a \<in> set (e_active_claims e) \<Longrightarrow> \<not> af_retrying a \<Longrightarrow> (off, len) \<in> set (fst h) \<Longrightarrow>
   tail a p \<Longrightarrow> \<not> cover (e_block_size e) off len (p * U div e_block_size e)"
  unfolding sep_inv_def by blast

lemma sepI:
  assumes "\<And>a off len p. a \<in> set (e_active_claims e) \<Longrightarrow> \<not> af_retrying a \<Longrightarrow> (off, len) \<in> set (fst h) \<Longrightarrow>
   tail a p \<Longrightarrow> \<not> cover (e_block_size e) off len (p * U div e_block_size e)"
  shows "sep_inv e h"
  unfolding sep_inv_def using assms by blast

lemma entryD:
  assumes "entry_inv e h"
  shows "shape e" "own_inv e" "acct_inv e h" "man_inv e" "sep_inv e h" "exp_inv e"
  using assms by (simp_all add: entry_inv_def)

lemma claim_page_bound:
  "shape e \<Longrightarrow> wf_claim e a \<Longrightarrow> scope a p \<Longrightarrow> p < e_page_count e"
  using shapeD(5) [of e p] by (auto simp: wf_claim_def scope_def)

text \<open>A clean byte range has no page of a fetch's tail in any region it touches.\<close>

lemma clean_range_not_tail:
  assumes "shape e" "own_inv e" "a \<in> set (e_active_claims e)" "tail a p"
    "range_all_state (e_bitmap e) off len CACHE_PAGE_CLEAN" "off + len \<le> e_size e" "0 < len"
  shows "\<not> cover (e_block_size e) off len (p * U div e_block_size e)"
proof
  let ?b = "e_block_size e"
  let ?r = "p * U div ?b"
  assume c: "cover ?b off len ?r"
  note s = shapeD [OF assms(1)]
  define x where "x = max off (?r * ?b)"
  have x: "off \<le> x" "x < off + len" "?r * ?b \<le> x" "x < ?r * ?b + ?b"
    using c s(1) assms(7) by (auto simp: x_def cover_def)
  then have xr: "x div ?b = ?r" using div_eq_iff_between [OF s(1)] by simp
  have "off + len \<le> 2 ^ 64" using assms(6) s(3) by linarith
  then have clean: "page_state (e_bitmap e) (x div U) = CACHE_PAGE_CLEAN"
    using assms(5) x(1,2) range_all_state_bytes by blast
  have wf: "wf_claim e a" using assms(2,3) by (simp add: own_inv_def)
  have "p * U < e_size e"
    using claim_page_bound [OF assms(1) wf tail_scope [OF assms(4)]] s(5) by simp
  moreover have "x div U * U < e_size e"
    using x(2) assms(6) div_times_less_eq_dividend [of x U] by linarith
  ultimately have "tail a (x div U)"
    using block_uniform(2) [OF assms(1) wf, of p "x div U"] page_region [OF s(2), of x] xr assms(4)
    by simp
  then show False using ownD(4) [OF assms(2,3), of "x div U"] clean by simp
qed

lemma held_pins_Cons:
  "held_pins e ((off, len) # c, u) r =
     (if cover (e_block_size e) off len r then 1 else 0) + held_pins e (c, u) r"
  "held_pins e (c, (off, len) # u) r =
     (if cover (e_block_size e) off len r then 1 else 0) + held_pins e (c, u) r"
  by (simp_all add: held_pins_def)

lemma filter_remove1_length:
  "(off, len) \<in> set xs \<Longrightarrow>
   length (filter (\<lambda>(off, len). cover b off len r) xs) = (if cover b off len r then 1 else 0) +
     length (filter (\<lambda>(off, len). cover b off len r) (remove1 (off, len) xs))"
  by (induction xs) auto

lemma held_pins_remove1:
  "(off, len) \<in> set (fst h) \<Longrightarrow>
   held_pins e h r = (if cover (e_block_size e) off len r then 1 else 0) +
     held_pins e (remove1 (off, len) (fst h), snd h) r"
  "(off, len) \<in> set (snd h) \<Longrightarrow>
   held_pins e h r = (if cover (e_block_size e) off len r then 1 else 0) +
     held_pins e (fst h, remove1 (off, len) (snd h)) r"
  unfolding held_pins_def using filter_remove1_length [of off len] by simp_all

section \<open>Pins\<close>

lemma add_pins_acct:
  assumes "shape e" "0 < len" "off + len \<le> e_size e"
  shows "length (e_region_pins (add_pins off len e)) = length (e_region_pins e)"
    and "r < length (e_region_pins e) \<Longrightarrow> e_region_pins (add_pins off len e) ! r =
      e_region_pins e ! r + (if cover (e_block_size e) off len r then 1 else 0)"
    and "e_pinned_regions e = of_nat (sum_list (e_region_pins e)) \<Longrightarrow>
      e_pinned_regions (add_pins off len e) =
        of_nat (sum_list (e_region_pins (add_pins off len e)))"
proof -
  note sp = span_cover [OF assms]
  show "length (e_region_pins (add_pins off len e)) = length (e_region_pins e)"
    by (simp add: add_pins_def)
  show "e_region_pins (add_pins off len e) ! r =
      e_region_pins e ! r + (if cover (e_block_size e) off len r then 1 else 0)"
    if "r < length (e_region_pins e)"
  proof -
    have "distinct (span e off len)" by (simp add: span_def)
    from nth_increment_pins [OF this that] show ?thesis by (simp add: add_pins_def sp(5))
  qed
  show "e_pinned_regions (add_pins off len e) =
        of_nat (sum_list (e_region_pins (add_pins off len e)))"
    if "e_pinned_regions e = of_nat (sum_list (e_region_pins e))"
    using pinned_increment [OF sp(3,4) that] by (simp add: add_pins_def sp(1,2) del: upt_Suc)
qed

lemma add_pins_frame [simp]:
  "e_header (add_pins off len e) = e_header e" "e_bitmap (add_pins off len e) = e_bitmap e"
  "e_size (add_pins off len e) = e_size e" "e_epoch (add_pins off len e) = e_epoch e"
  "e_block_size (add_pins off len e) = e_block_size e"
  "e_page_count (add_pins off len e) = e_page_count e"
  "e_referenced (add_pins off len e) = e_referenced e"
  "e_active_claims (add_pins off len e) = e_active_claims e"
  "e_checksum_parts (add_pins off len e) = e_checksum_parts e"
  "e_checksum_states (add_pins off len e) = e_checksum_states e"
  "e_checksum_ops (add_pins off len e) = e_checksum_ops e"
  "e_checksum_manifest (add_pins off len e) = e_checksum_manifest e"
  "e_stale (add_pins off len e) = e_stale e" "e_data (add_pins off len e) = e_data e"
  "e_wait_event (add_pins off len e) = e_wait_event e" "e_waiters (add_pins off len e) = e_waiters e"
  by (simp_all add: add_pins_def)

lemma length_reference_regions [simp]: "length (reference_regions rs refs) = length refs"
  unfolding reference_regions_def by (induction rs arbitrary: refs) simp_all

text \<open>The pins of one more holder, with or without a look at the pages.\<close>

lemma add_pins_inv:
  assumes "entry_inv e h" "0 < len" "off + len \<le> e_size e"
    and eq: "e' = (add_pins off len e)\<lparr>e_referenced := refs\<rparr>" "length refs = length (e_referenced e)"
    and held: "set (all_pins h') = insert (off, len) (set (all_pins h))"
      "\<And>r. held_pins e h' r = (if cover (e_block_size e) off len r then 1 else 0) + held_pins e h r"
    and sep: "sep_inv e h'"
  shows "entry_inv e' h'"
proof -
  note inv = entryD [OF assms(1)]
  have fr: "e_header e' = e_header e" "e_bitmap e' = e_bitmap e" "e_size e' = e_size e"
    "e_epoch e' = e_epoch e" "e_block_size e' = e_block_size e" "e_page_count e' = e_page_count e"
    "length (e_referenced e') = length (e_referenced e)" "e_active_claims e' = e_active_claims e"
    "e_checksum_parts e' = e_checksum_parts e" "e_checksum_states e' = e_checksum_states e"
    "e_checksum_ops e' = e_checksum_ops e" "e_checksum_manifest e' = e_checksum_manifest e"
    "e_data e' = e_data e" "e_region_pins e' = e_region_pins (add_pins off len e)"
    "e_pinned_regions e' = e_pinned_regions (add_pins off len e)"
    by (simp_all add: eq)
  note ap = add_pins_acct [OF inv(1) assms(2,3)]
  have "acct_inv e' h'"
  proof -
    have "part_pins e' r = part_pins e r" "fetch_pins e' r = fetch_pins e r"
      "held_pins e' h' r = held_pins e h' r" for r
      by (simp_all add: part_pins_def fetch_pins_def held_pins_def fr)
    then show ?thesis
      using inv(3) ap(2,3) assms(2,3) unfolding acct_inv_def held(1) held(2) fr ap(1) by auto
  qed
  moreover have "shape e'" by (rule shape_cong [OF inv(1)]) (simp_all add: fr ap(1))
  moreover have "sep_inv e' h'" by (rule sep_cong [OF sep]) (simp_all add: fr)
  ultimately show ?thesis
    using inv fr unfolding entry_inv_def by (auto intro: own_cong man_cong exp_cong)
qed

lemma pin_clean_inv:
  assumes "entry_inv e h" "pin_clean off len e = Inr (True, e')" "0 < len" "off + len \<le> e_size e"
  shows "entry_inv e' ((off, len) # fst h, snd h)"
proof -
  note inv = entryD [OF assms(1)]
  have clean: "range_all_state (e_bitmap e) off len CACHE_PAGE_CLEAN"
    and e': "e' = (add_pins off len e)\<lparr>e_referenced :=
      reference_regions (span e off len) (e_referenced e)\<rparr>"
    using assms(2,3) by (auto simp: pin_clean_def Let_def split: if_splits)
  show ?thesis
  proof (rule add_pins_inv [OF assms(1,3,4) e'])
    show "sep_inv e ((off, len) # fst h, snd h)"
      using inv(5) clean_range_not_tail [OF inv(1,2) _ _ clean assms(4,3)]
      by (auto simp: sep_inv_def)
  qed (simp_all add: held_pins_Cons)
qed

lemma pin_inv:
  assumes "entry_inv e h" "pin off len e = Inr e'" "0 < len" "off + len \<le> e_size e"
  shows "entry_inv e' (fst h, (off, len) # snd h)"
proof -
  have e': "e' = (add_pins off len e)\<lparr>e_referenced := e_referenced e\<rparr>"
    using assms(2,3) by (auto simp: pin_def add_pins_def split: if_splits)
  show ?thesis
  proof (rule add_pins_inv [OF assms(1,3,4) e'])
    show "sep_inv e (fst h, (off, len) # snd h)"
      using entryD(5) [OF assms(1)] by (simp add: sep_inv_def)
  qed (auto simp: held_pins_Cons)
qed

lemma drop_held_inv:
  assumes "entry_inv e h" "(off, len) \<in> set (all_pins h)"
    and held: "set (fst h') \<subseteq> set (fst h)" "set (snd h') \<subseteq> set (snd h)"
      "\<And>r. held_pins e h r = (if cover (e_block_size e) off len r then 1 else 0) + held_pins e h' r"
  shows "entry_inv (unpin off len e) h'"
proof -
  note inv = entryD [OF assms(1)]
  have len: "0 < len" "off + len \<le> e_size e" using inv(3) assms(2) by (auto simp: acct_inv_def)
  note sp = span_cover [OF inv(1) len]
  obtain rel e1 where d: "drop_pins (span e off len) e = (rel, e1)" by fastforce
  have "distinct (span e off len)" "\<forall>r\<in>set (span e off len). r < length (e_region_pins e)"
    using sp(4) by (auto simp: sp(1) simp del: upt_Suc)
  note ds = drop_pins_spec [OF d this]
  have fr: "e_header e1 = e_header e" "e_bitmap e1 = e_bitmap e" "e_size e1 = e_size e"
    "e_epoch e1 = e_epoch e" "e_block_size e1 = e_block_size e" "e_page_count e1 = e_page_count e"
    "e_referenced e1 = e_referenced e" "e_active_claims e1 = e_active_claims e"
    "e_checksum_parts e1 = e_checksum_parts e" "e_checksum_states e1 = e_checksum_states e"
    "e_checksum_ops e1 = e_checksum_ops e" "e_checksum_manifest e1 = e_checksum_manifest e"
    "e_data e1 = e_data e"
    by (subst ds(1), simp)+
  have "acct_inv e1 h'"
  proof -
    have "part_pins e1 r = part_pins e r" "fetch_pins e1 r = fetch_pins e r"
      "held_pins e1 x r = held_pins e x r" for x r
      by (simp_all add: part_pins_def fetch_pins_def held_pins_def fr)
    moreover have "\<forall>(off, len)\<in>set (all_pins h'). 0 < len \<and> off + len \<le> e_size e"
      using held(1,2) inv(3) unfolding acct_inv_def set_append by blast
    ultimately show ?thesis
      using inv(3) ds(2-4) held(3) sp(5) by (simp add: acct_inv_def fr)
  qed
  moreover have "sep_inv e1 h'"
    using inv(5) held(1) by (fastforce simp: sep_inv_def fr)
  moreover have "shape e1" by (rule shape_cong [OF inv(1)]) (simp_all add: fr ds(2))
  ultimately have "entry_inv e1 h'"
    using inv fr unfolding entry_inv_def by (auto intro: own_cong man_cong exp_cong)
  then show ?thesis using len(1) d by (simp add: unpin_def)
qed

lemma unpin_inv:
  "entry_inv e h \<Longrightarrow> (off, len) \<in> set (fst h) \<Longrightarrow>
   entry_inv (unpin off len e) (remove1 (off, len) (fst h), snd h)"
  "entry_inv e h \<Longrightarrow> (off, len) \<in> set (snd h) \<Longrightarrow>
   entry_inv (unpin off len e) (fst h, remove1 (off, len) (snd h))"
  by (rule drop_held_inv [where h = h]; use set_remove1_subset in
      \<open>force simp: held_pins_remove1\<close>)+

section \<open>Claiming a fetch\<close>

lemma claim_scan_spec:
  assumes sh: "shape e" and stop: "stop \<le> e_size e"
  shows "e_block_size e dvd block \<Longrightarrow> block \<le> stop \<Longrightarrow>
    block \<le> claim_scan e start block stop \<and> claim_scan e start block stop \<le> stop \<and>
    (claim_scan e start block stop = stop \<or> e_block_size e dvd claim_scan e start block stop) \<and>
    (\<forall>x. block \<le> x \<and> x < claim_scan e start block stop \<longrightarrow>
       \<not> block_blocked e (x div e_block_size e * e_block_size e))"
proof (induction "stop - block" arbitrary: block rule: less_induct)
  case less
  let ?b = "e_block_size e"
  note s = shapeD [OF sh]
  show ?case
  proof (cases "block < stop")
    case False
    then show ?thesis using less.prems by (subst (1 2 3 4 5) claim_scan.simps) auto
  next
    case True
    then have lt: "block < e_size e" using stop by simp
    note br = block_range [OF sh less.prems(1) lt]
    show ?thesis
    proof (cases "block_blocked e block \<or> (block \<noteq> start \<and> block_all_clean e block)")
      case True
      then have "claim_scan e start block stop = block"
        using \<open>block < stop\<close> s(1) by (subst claim_scan.simps) simp
      then show ?thesis using less.prems by auto
    next
      case False
      define k where "k = claim_scan e start (block + ?b) stop"
      have k: "claim_scan e start block stop = k"
        using \<open>block < stop\<close> s(1) False br(3) unfolding k_def by (subst claim_scan.simps) auto
      have blk: "\<not> block_blocked e (x div ?b * ?b)" if "block \<le> x" "x < block + ?b" for x
      proof -
        have "x div ?b = block div ?b"
          using that less.prems(1) div_eq_iff_between [OF s(1), of x "block div ?b"] by simp
        then show ?thesis using False less.prems(1) by simp
      qed
      show ?thesis
      proof (cases "block + ?b \<le> stop")
        case True
        have "block + ?b \<le> k \<and> k \<le> stop \<and> (k = stop \<or> ?b dvd k) \<and>
            (\<forall>x. block + ?b \<le> x \<and> x < k \<longrightarrow> \<not> block_blocked e (x div ?b * ?b))"
          unfolding k_def using True less.prems(1) s(1) \<open>block < stop\<close>
          by (intro less.hyps) auto
        then show ?thesis unfolding k using blk
          by (metis add_leD1 le_trans linorder_not_less)
      next
        case False
        then have "k = stop" unfolding k_def by (subst claim_scan.simps) simp
        then show ?thesis unfolding k using blk False \<open>block < stop\<close> by auto
      qed
    qed
  qed
qed

lemma round_up_block_cases: "round_up_block b v = UINT64_MAX \<or> b dvd round_up_block b v"
  by (auto simp: round_up_block_def)

lemma fetch_limit_spec:
  assumes "shape e"
  shows "fetch_limit e start request_end expansion \<le> e_size e"
    and "fetch_limit e start request_end expansion = e_size e \<or>
      e_block_size e dvd fetch_limit e start request_end expansion"
proof -
  have sz: "min (e_size e) UINT64_MAX = e_size e"
    using shapeD(3) [OF assms] unfolding UINT64_MAX_def by linarith
  define m where "m = max (round_up_block (e_block_size e) request_end)
    (round_up_block (e_block_size e)
      (if start > UINT64_MAX - max expansion (e_block_size e) then UINT64_MAX
       else start + max expansion (e_block_size e)))"
  have f: "fetch_limit e start request_end expansion = min (e_size e) m"
    by (simp add: fetch_limit_def m_def Let_def)
  have "m = UINT64_MAX \<or> e_block_size e dvd m"
    unfolding m_def using round_up_block_cases by (metis max_def)
  then show "fetch_limit e start request_end expansion \<le> e_size e"
    "fetch_limit e start request_end expansion = e_size e \<or>
      e_block_size e dvd fetch_limit e start request_end expansion"
    unfolding f using sz by (auto simp: min_def)
qed

text \<open>What an unblocked block promises about its pages and its region.\<close>

lemma unblocked_page:
  assumes "shape e" "p * U < e_size e"
    "\<not> block_blocked e (p * U div e_block_size e * e_block_size e)"
  shows "page_state (e_bitmap e) p = CACHE_PAGE_MISSING \<or> page_state (e_bitmap e) p = CACHE_PAGE_CLEAN"
    and "e_region_pins e ! (p * U div e_block_size e) = 0"
    and "p * U div e_block_size e < length (e_region_pins e)"
proof -
  let ?b = "e_block_size e" let ?blk = "p * U div ?b * ?b"
  note s = shapeD [OF assms(1)]
  have lt: "?blk < e_size e" using assms(2) div_times_less_eq_dividend [of "p * U" ?b] by linarith
  have "p \<in> set (block_pages e ?blk)"
    using set_block_pages [OF assms(1) lt] s(1) assms(2) s(5) by simp
  then show "page_state (e_bitmap e) p = CACHE_PAGE_MISSING \<or> page_state (e_bitmap e) p = CACHE_PAGE_CLEAN"
    using assms(3) by (cases "page_state (e_bitmap e) p") (auto simp: block_blocked_def list_ex_iff Let_def)
  show r: "p * U div ?b < length (e_region_pins e)" using s(6) lt by simp
  show "e_region_pins e ! (p * U div ?b) = 0"
    using assms(3) r s(1) by (auto simp: block_blocked_def Let_def)
qed

lemma scope_cover:
  assumes "0 < b" "scope a p"
  shows "cover b (af_offset a) (af_length a) (p * U div b)"
proof -
  have "p * U div b * b \<le> p * U" "p * U < p * U div b * b + b"
    using div_times_less_eq_dividend [of "p * U" b] dividend_less_div_times [OF assms(1), of "p * U"]
    by (simp_all add: add.commute)
  then show ?thesis using assms(2) unfolding scope_def cover_def by linarith
qed

lemma unpinned_region:
  assumes "acct_inv e h" "r < length (e_region_pins e)" "e_region_pins e ! r = 0"
  shows "(off, len) \<in> set (all_pins h) \<Longrightarrow> \<not> cover (e_block_size e) off len r"
    and "a \<in> set (e_active_claims e) \<Longrightarrow> af_verifying a \<Longrightarrow>
      \<not> cover (e_block_size e) (af_offset a) (af_length a) r"
proof -
  have z: "held_pins e h r = 0" "fetch_pins e r = 0"
    using assms by (auto simp: acct_inv_def)
  show "(off, len) \<in> set (all_pins h) \<Longrightarrow> \<not> cover (e_block_size e) off len r"
    using z(1) by (auto simp: held_pins_def filter_empty_conv)
  show "a \<in> set (e_active_claims e) \<Longrightarrow> af_verifying a \<Longrightarrow>
      \<not> cover (e_block_size e) (af_offset a) (af_length a) r"
    using z(2) by (auto simp: fetch_pins_def filter_empty_conv)
qed

lemma start_fetch_inv:
  assumes "entry_inv e h" "\<not> e_exported e" "e_block_size e dvd start" "start < stop" "stop \<le> e_size e"
    "stop = e_size e \<or> e_block_size e dvd stop"
    "\<forall>x. start \<le> x \<and> x < stop \<longrightarrow> \<not> block_blocked e (x div e_block_size e * e_block_size e)"
    "start_fetch start stop e = (claim, e')"
    "cl_id claim \<notin> af_id ` set (e_active_claims e)"
  shows "entry_inv e' h"
proof -
  note inv = entryD [OF assms(1)]
  note s = shapeD [OF inv(1)]
  let ?b = "e_block_size e"
  define pages where "pages = [block_first_page e start ..<
    min (e_page_count e) ((stop - 1) div U + 1)]"
  define act where "act = \<lparr>af_id = cl_id claim, af_epoch = e_epoch e, af_offset = start,
    af_length = stop - start, af_published = 0, af_verifying = False, af_retrying = False,
    af_prior_states = map (page_state (e_bitmap e)) pages\<rparr>"
  have act: "af_id act = cl_id claim" "af_epoch act = e_epoch e" "af_offset act = start"
    "af_length act = stop - start" "af_published act = 0" "\<not> af_verifying act" "\<not> af_retrying act"
    "af_prior_states act = map (page_state (e_bitmap e)) pages"
    by (simp_all add: act_def)
  have e': "e' = e\<lparr>e_next_claim_id := cl_id claim + 1,
      e_bitmap := fill_states CACHE_PAGE_READ_PENDING pages (e_bitmap e),
      e_active_claims := e_active_claims e @ [act]\<rparr>"
    using assms(8) unfolding act_def pages_def by (auto simp: start_fetch_def Let_def)
  have dvd: "U dvd start" using s(2) assms(3) by (rule dvd_trans)
  have first: "block_first_page e start = start div U"
    using assms(3) by (simp add: block_first_page_def)
  have endp: "(stop - 1) div U + 1 \<le> e_page_count e"
    using s(5) [of "(stop - 1) div U"] div_times_less_eq_dividend [of "stop - 1" U] assms(4,5)
    by linarith
  have pages_eq: "pages = [start div U ..< (stop - 1) div U + 1]"
    unfolding pages_def first using endp by (simp only: min_absorb2)
  have set_pages: "p \<in> set pages \<longleftrightarrow> start \<le> p * U \<and> p * U < stop" for p
    unfolding pages_eq using page_start_le [OF dvd, of p] less_page_end [of stop p] assms(4)
    by (simp del: upt_Suc)
  have scope: "scope act p \<longleftrightarrow> p \<in> set pages" "tail act p \<longleftrightarrow> p \<in> set pages" for p
    using assms(4) by (auto simp: scope_def tail_def act set_pages)
  have free: "page_state (e_bitmap e) p = CACHE_PAGE_MISSING \<or> page_state (e_bitmap e) p = CACHE_PAGE_CLEAN"
    "e_region_pins e ! (p * U div ?b) = 0" "p * U div ?b < length (e_region_pins e)"
    if "p \<in> set pages" for p
    using unblocked_page [OF inv(1), of p] assms(5,7) that unfolding set_pages by auto
  have bound: "\<forall>p\<in>set pages. p < 32 * length (e_bitmap e)"
    using endp s(4) by (auto simp: pages_eq simp del: upt_Suc)
  have st: "page_state (e_bitmap e') p = (if p \<in> set pages then CACHE_PAGE_READ_PENDING
      else page_state (e_bitmap e) p)" for p
    unfolding e' by (simp add: page_state_fill [OF bound])
  have fr: "e_header e' = e_header e" "e_size e' = e_size e" "e_epoch e' = e_epoch e"
    "e_block_size e' = e_block_size e" "e_page_count e' = e_page_count e"
    "e_referenced e' = e_referenced e" "e_region_pins e' = e_region_pins e"
    "e_pinned_regions e' = e_pinned_regions e"
    "e_active_claims e' = e_active_claims e @ [act]" "e_data e' = e_data e"
    "e_checksum_parts e' = e_checksum_parts e" "e_checksum_states e' = e_checksum_states e"
    "e_checksum_ops e' = e_checksum_ops e" "e_checksum_manifest e' = e_checksum_manifest e"
    "length (e_bitmap e') = length (e_bitmap e)"
    by (simp_all add: e')
  have wf: "wf_claim e act"
    using assms(3-6) free(1) by (auto simp: wf_claim_def act pages_eq simp del: upt_Suc)
  have old: "\<not> tail a p" if "a \<in> set (e_active_claims e)" "p \<in> set pages" for a p
    using ownD(4) [OF inv(2) that(1), of p] free(1) [OF that(2)] by auto
  have ver: "\<not> scope a p" if "a \<in> set (e_active_claims e)" "af_verifying a" "p \<in> set pages" for a p
    using unpinned_region(2) [OF inv(3) free(3,2) [OF that(3)] that(1,2)] scope_cover [OF s(1)] by blast
  have own: "own_inv e'"
  proof (rule own_invI, goal_cases)
    case (1 a)
    then show ?case using ownD(1) [OF inv(2)] wf by (auto simp: fr wf_claim_cong [OF fr(3,4,2)])
  next
    case 2
    then show ?case using ownD(2) [OF inv(2)] assms(9) by (auto simp: fr act)
  next
    case (3 p)
    then show ?case using ownD(3) [OF inv(2), of p] scope(2) by (auto simp: fr st split: if_splits)
  next
    case (4 a p)
    then show ?case using ownD(4) [OF inv(2), of a p] old scope(2) by (auto simp: fr st)
  next
    case (5 a b p)
    then show ?case using ownD(5) [OF inv(2), of a b p] old scope(2) by (auto simp: fr)
  next
    case (6 a b p)
    then show ?case using ownD(6) [OF inv(2), of a b p] ver scope(1) act(6) by (auto simp: fr)
  next
    case (7 p)
    then show ?case using ownD(7) [OF inv(2), of p] by (auto simp: fr st split: if_splits)
  next
    case (8 a k)
    show ?case
    proof (cases "a = act")
      case True
      then have k: "k < length pages" "page_state (e_bitmap e) (pages ! k) = CACHE_PAGE_CLEAN"
        using 8(2,3) by (auto simp: act)
      then have pk: "pages ! k = af_offset a div U + k"
        using True by (simp add: pages_eq act del: upt_Suc)
      have "pages ! k < e_page_count e"
        using nth_mem [OF k(1)] assms(5) unfolding set_pages s(5) by linarith
      then show ?thesis using ownD(7) [OF inv(2)] k(2) pk by (simp add: fr)
    next
      case False
      then show ?thesis using 8 ownD(8) [OF inv(2), of a k] by (simp add: fr)
    qed
  next
    case (9 a p)
    then show ?case using ownD(9) [OF inv(2), of a p] act(6) by (auto simp: fr)
  qed
  have "acct_inv e' h"
    using inv(3) act(6) by (simp add: acct_inv_def held_pins_def part_pins_def fetch_pins_def fr)
  moreover have "man_inv e'" using inv(4) act(6) by (simp add: man_inv_def fr)
  moreover have "sep_inv e' h"
    using inv(5) unpinned_region(1) [OF inv(3) free(3,2)] scope(2) by (auto simp: sep_inv_def fr)
  moreover have "exp_inv e'" using assms(2) by (simp add: exp_inv_def fr)
  moreover have "shape e'" by (rule shape_cong [OF inv(1)]) (simp_all add: fr)
  ultimately show ?thesis using own by (simp add: entry_inv_def)
qed

lemma first_missing_Some:
  "first_missing words pages = Some p \<Longrightarrow>
   p \<in> set pages \<and> page_state words p = CACHE_PAGE_MISSING \<and>
   (\<forall>q\<in>set (takeWhile (\<lambda>q. q \<noteq> p) pages). page_state words q = CACHE_PAGE_CLEAN)"
  by (induction pages) (auto split: if_splits)

text \<open>What \<open>claim_fetch\<close> returns, when it returns a claim.\<close>

lemma claim_fetch_cases:
  assumes "shape e" "claim_fetch off len expansion e = Inr (claim, e')"
  obtains (none) "claim = no_claim" "e' = e"
  | (fetch) start stop where
      "\<not> e_stale e" "\<not> e_dirty e" "\<not> e_exported e" "0 < len" "off < e_size e"
      "e_block_size e dvd start" "start < stop" "stop \<le> e_size e"
      "stop = e_size e \<or> e_block_size e dvd stop"
      "\<forall>x. start \<le> x \<and> x < stop \<longrightarrow> \<not> block_blocked e (x div e_block_size e * e_block_size e)"
      "\<exists>m. start \<le> m * U \<and> m * U < stop \<and> page_state (e_bitmap e) m = CACHE_PAGE_MISSING \<and>
         off div U \<le> m \<and> m * U < off + len"
      "start_fetch start stop e = (claim, e')"
proof -
  note s = shapeD [OF assms(1)]
  let ?b = "e_block_size e"
  define n where "n = min len (e_size e - off)"
  define pages where "pages = [range_first_page off ..< Suc (range_last_page off n)]"
  show thesis
  proof (cases "\<not> e_stale e \<and> \<not> (len = 0 \<or> off \<ge> e_size e \<or> e_dirty e \<or> e_exported e)")
    case False
    then show thesis using assms(2) none by (auto simp: claim_fetch_def split: if_splits)
  next
    case True
    show thesis
    proof (cases "first_missing (e_bitmap e) pages")
      case None
      then show thesis
        using assms(2) True none by (simp add: claim_fetch_def Let_def pages_def n_def)
    next
      case (Some m)
      define start where "start = m * U div ?b * ?b"
      define limit where "limit = fetch_limit e start (off + n) expansion"
      define stop where "stop = claim_scan e start start limit"
      have r: "(if stop \<le> start then Inr (no_claim, e) else Inr (start_fetch start stop e)) =
          (Inr (claim, e') :: (CacheFetchClaim \<times> CacheEntry) result)"
        using assms(2) True Some unfolding stop_def limit_def start_def n_def pages_def
        by (simp add: claim_fetch_def Let_def del: upt_Suc split del: if_split)
      show thesis
      proof (cases "stop \<le> start")
        case True
        then show thesis using r none by simp
      next
        case False
        have dvd: "?b dvd start" by (simp add: start_def)
        have n: "0 < n" "off + n \<le> e_size e" "n \<le> len" using True by (auto simp: n_def)
        have wrap: "wrap64 (off + n - 1) = off + n - 1"
          by (rule wrap64_id) (use n(2) s(3) in linarith)
        have m: "m \<in> set pages" "page_state (e_bitmap e) m = CACHE_PAGE_MISSING"
          using first_missing_Some [OF Some] by auto
        have mU: "off div U \<le> m" "m * U < off + n"
          using m(1) less_page_end [of "off + n" m] n(1)
          unfolding pages_def range_first_page_def range_last_page_def wrap by auto
        have "start \<le> m * U" by (simp add: start_def)
        have lim: "start \<le> limit"
        proof (rule ccontr)
          assume nl: "\<not> start \<le> limit"
          then have "stop = limit" unfolding stop_def by (subst claim_scan.simps) simp
          then show False using nl False by simp
        qed
        have "limit \<le> e_size e" unfolding limit_def by (rule fetch_limit_spec(1) [OF assms(1)])
        note sc = claim_scan_spec [OF assms(1) this dvd lim, of start, folded stop_def]
        have "m * U < stop"
        proof (rule ccontr)
          assume "\<not> m * U < stop"
          then have le: "stop \<le> m * U" by simp
          have "stop = limit \<or> ?b dvd stop" using sc by blast
          moreover have "\<not> ?b dvd stop"
          proof
            assume "?b dvd stop"
            then have "?b \<le> stop - start" using dvd False by (simp add: dvd_diff_nat dvd_imp_le)
            moreover have "m * U < start + ?b"
              using dividend_less_div_times [OF s(1), of "m * U"] by (simp add: start_def add.commute)
            ultimately show False using le False by linarith
          qed
          ultimately have "limit = e_size e"
            using fetch_limit_spec(2) [OF assms(1), of start "off + n" expansion]
            by (auto simp: limit_def)
          then show False
            using le \<open>stop = limit \<or> ?b dvd stop\<close> \<open>\<not> ?b dvd stop\<close> mU(2) n(2) by linarith
        qed
        moreover have "stop \<le> e_size e"
          using sc fetch_limit_spec(1) [OF assms(1), of start "off + n" expansion]
          unfolding limit_def by linarith
        moreover have "stop = e_size e \<or> ?b dvd stop"
          using sc fetch_limit_spec(2) [OF assms(1), of start "off + n" expansion]
          unfolding limit_def by metis
        moreover have "m * U < off + len" using mU(2) n(3) by linarith
        ultimately show thesis
          using fetch [of start stop] True dvd False r sc m(2) mU(1) \<open>start \<le> m * U\<close>
          by (metis Inr_inject linorder_not_le not_gr_zero)
      qed
    qed
  qed
qed

lemma claim_fetch_inv:
  assumes "entry_inv e h" "claim_fetch off len expansion e = Inr (claim, e')"
    "cl_id claim \<notin> af_id ` set (e_active_claims e)"
  shows "entry_inv e' h"
  using entryD(1) [OF assms(1)] assms(2)
proof (cases rule: claim_fetch_cases)
  case none
  then show ?thesis using assms(1) by simp
next
  case (fetch start stop)
  show ?thesis
    using start_fetch_inv [OF assms(1) fetch(3) fetch(6-10) fetch(12) assms(3)] .
qed

section \<open>Finding a fetch\<close>

lemma find_activeD:
  assumes "find_active claim e = Some i"
  shows "i < length (e_active_claims e)" "e_active_claims e ! i \<in> set (e_active_claims e)"
    "af_id (e_active_claims e ! i) = cl_id claim" "af_epoch (e_active_claims e ! i) = cl_epoch claim"
    "af_offset (e_active_claims e ! i) = cl_offset claim"
    "af_length (e_active_claims e ! i) = cl_length claim"
  using find_index_Some [of "claim_matches claim" "e_active_claims e" i] assms
  by (auto simp: find_active_def claim_matches_def)

lemma find_active_wf:
  assumes "own_inv e" "find_active claim e = Some i"
  shows "e_block_size e dvd cl_offset claim" "0 < cl_length claim"
    "cl_offset claim + cl_length claim \<le> e_size e"
    "cl_offset claim + cl_length claim = e_size e \<or>
     e_block_size e dvd cl_offset claim + cl_length claim"
    "af_published (e_active_claims e ! i) \<le> cl_length claim"
    "af_published (e_active_claims e ! i) = cl_length claim \<or>
     e_block_size e dvd af_published (e_active_claims e ! i)"
  using ownD(1) [OF assms(1) find_activeD(2) [OF assms(2)]] find_activeD(5,6) [OF assms(2)]
  by (auto simp: wf_claim_def)

end
