(* ===== verification/Cache_Entry_Fetch.thy ===== *)
theory Cache_Entry_Fetch
  imports Cache_Entry_Inv
begin

text \<open>
  The operations of a fetch keep the invariant: publication, the three ways it ends, its
  verification and its retry.
\<close>

section \<open>Publication\<close>

text \<open>
  The pages of the unpublished tail that the first \<open>len\<close> bytes of the claim cover
  completely have been written to the data file.
\<close>

definition received :: "CacheFetchClaim \<Rightarrow> nat \<Rightarrow> CacheEntry \<Rightarrow> bool" where
  "received claim len e \<longleftrightarrow>
     (\<forall>i. find_active claim e = Some i \<longrightarrow>
       (\<forall>p. tail (e_active_claims e ! i) p \<and>
            min (e_size e) (p * U + U) \<le> cl_offset claim + min len (cl_length claim) \<longrightarrow>
            p \<in> e_data e))"

lemma publish_clean_cases:
  assumes "shape e" "own_inv e"
  obtains (same) "publish_clean claim published len final e = e"
  | (publish) i words pub ch where "find_active claim e = Some i" "\<not> e_stale e"
      "length words = length (e_bitmap e)" "af_published (e_active_claims e ! i) \<le> pub"
      "pub \<le> cl_length claim" "pub = cl_length claim \<or> e_block_size e dvd pub"
      "pub = af_published (e_active_claims e ! i) \<or> pub \<le> min len (cl_length claim)"
      "\<And>p. page_state words p =
        (if cl_offset claim + af_published (e_active_claims e ! i) \<le> p * U \<and>
            p * U < cl_offset claim + pub \<and> page_state (e_bitmap e) p = CACHE_PAGE_READ_PENDING
         then CACHE_PAGE_CLEAN else page_state (e_bitmap e) p)"
      "ch \<longleftrightarrow> (\<exists>p. cl_offset claim + af_published (e_active_claims e ! i) \<le> p * U \<and>
         p * U < cl_offset claim + pub \<and> page_state (e_bitmap e) p = CACHE_PAGE_READ_PENDING)"
      "publish_clean claim published len final e =
        (if ch then notify_waiters_locked else (\<lambda>x. x)) (e\<lparr>e_bitmap := words,
           e_active_claims := (e_active_claims e)[i := (e_active_claims e ! i)\<lparr>af_published := pub\<rparr>]\<rparr>)"
proof (cases "find_active claim e")
  case None
  then show thesis using same by (simp add: publish_clean_def)
next
  case (Some i)
  show thesis
  proof (cases "e_stale e \<or> len < published \<or> (len = published \<and> \<not> final)")
    case True
    then show thesis using Some same by (simp add: publish_clean_def)
  next
    case False
    let ?a = "e_active_claims e ! i"
    note wf = find_active_wf [OF assms(2) Some]
    obtain words pub ch where r: "publish_loop e claim (cl_offset claim + min len (cl_length claim)) final
        (cl_offset claim + af_published ?a) (e_bitmap e, af_published ?a, False) = (words, pub, ch)"
      by (metis prod_cases3)
    note spec = publish_loop_spec [OF assms(1) wf(1,3,4) r wf(5,6) refl]
    have "publish_clean claim published len final e =
        (if ch then notify_waiters_locked else (\<lambda>x. x)) (e\<lparr>e_bitmap := words,
           e_active_claims := (e_active_claims e)[i := ?a\<lparr>af_published := pub\<rparr>]\<rparr>)"
      using Some False r by (auto simp: publish_clean_def Let_def)
    moreover have "pub = af_published ?a \<or> pub \<le> min len (cl_length claim)"
      using spec by auto
    ultimately show thesis
      using publish [OF Some, of words pub ch] False spec by blast
  qed
qed

lemma publish_clean_inv:
  assumes "entry_inv e h" "received claim len e"
  shows "entry_inv (publish_clean claim published len final e) h"
proof -
  note inv = entryD [OF assms(1)]
  note s = shapeD [OF inv(1)]
  from inv(1,2) show ?thesis
  proof (cases rule: publish_clean_cases [where claim = claim and published = published and
        len = len and final = final])
    case same
    then show ?thesis using assms(1) by simp
  next
    case (publish i words pub ch)
    let ?a = "e_active_claims e ! i"
    let ?a' = "?a\<lparr>af_published := pub\<rparr>"
    define e' where "e' = e\<lparr>e_bitmap := words, e_active_claims := (e_active_claims e)[i := ?a']\<rparr>"
    note f = find_activeD [OF publish(1)]
    note wf = find_active_wf [OF inv(2) publish(1)]
    have st: "page_state words p = (if tail ?a p \<and> \<not> tail ?a' p \<and>
        page_state (e_bitmap e) p = CACHE_PAGE_READ_PENDING then CACHE_PAGE_CLEAN
        else page_state (e_bitmap e) p)" for p
      using publish(5,8) by (auto simp: tail_def f)
    have sub: "tail ?a' p \<Longrightarrow> tail ?a p" "scope ?a' p \<longleftrightarrow> scope ?a p" for p
      using publish(4) by (auto simp: tail_def scope_def)
    have claims: "set (e_active_claims e') =
        insert ?a' {x \<in> set (e_active_claims e). af_id x \<noteq> af_id ?a}"
      using set_update_distinct [OF ownD(2) [OF inv(2)] f(1)] by (simp add: e'_def)
    have fr: "e_header e' = e_header e" "e_size e' = e_size e" "e_epoch e' = e_epoch e"
      "e_block_size e' = e_block_size e" "e_page_count e' = e_page_count e"
      "e_referenced e' = e_referenced e" "e_region_pins e' = e_region_pins e"
      "e_pinned_regions e' = e_pinned_regions e" "e_data e' = e_data e" "e_bitmap e' = words"
      "e_checksum_parts e' = e_checksum_parts e" "e_checksum_states e' = e_checksum_states e"
      "e_checksum_ops e' = e_checksum_ops e" "e_checksum_manifest e' = e_checksum_manifest e"
      by (simp_all add: e'_def)
    have data: "p \<in> e_data e" if "tail ?a p" "\<not> tail ?a' p" for p
    proof -
      have lt: "p * U < cl_offset claim + pub" "cl_offset claim + af_published ?a \<le> p * U"
        using that by (auto simp: tail_def f)
      have "p * U + U \<le> cl_offset claim + pub \<or> cl_offset claim + pub = e_size e"
      proof (cases "cl_offset claim + pub = e_size e")
        case False
        then have "e_block_size e dvd cl_offset claim + pub"
          using publish(6) wf(1,4) by (metis dvd_add)
        with s(2) have "U dvd cl_offset claim + pub" by (rule dvd_trans)
        then obtain m where m: "cl_offset claim + pub = m * U" by (metis dvd_def mult.commute)
        then have "p < m" using lt(1) by simp
        then have "Suc p * U \<le> m * U" by (intro mult_le_mono1) simp
        then show ?thesis unfolding m by simp
      qed simp
      then have "min (e_size e) (p * U + U) \<le> cl_offset claim + min len (cl_length claim)"
        using publish(7) lt by auto
      then show ?thesis using assms(2) publish(1) that(1) by (auto simp: received_def)
    qed
    have own: "own_inv e'"
    proof (rule own_invI, goal_cases)
      case (1 b)
      have "wf_claim e ?a'"
        using ownD(1) [OF inv(2) f(2)] publish(5,6) by (simp add: wf_claim_def f)
      then show ?case
        using 1 ownD(1) [OF inv(2)] by (auto simp: claims wf_claim_cong [OF fr(3,4,2)])
    next
      case 2
      have "map af_id ((e_active_claims e)[i := ?a']) = map af_id (e_active_claims e)"
        using f(1) by (simp add: map_update) (metis list_update_id nth_map)
      then show ?case using ownD(2) [OF inv(2)] by (simp add: e'_def)
    next
      case (3 p)
      then obtain b where b: "b \<in> set (e_active_claims e)" "tail b p"
        using ownD(3) [OF inv(2), of p] by (auto simp: fr st split: if_splits)
      show ?case
      proof (cases "af_id b = af_id ?a")
        case True
        then have "b = ?a" using b(1) f(2) ownD(2) [OF inv(2)]
          by (metis distinct_map inj_on_eq_iff)
        then have "tail ?a' p" using 3(2) b(2) by (auto simp: fr st split: if_splits)
        then show ?thesis by (auto simp: claims)
      next
        case False
        then show ?thesis using b by (auto simp: claims)
      qed
    next
      case (4 b p)
      then consider "b = ?a'" | "b \<in> set (e_active_claims e)" "af_id b \<noteq> af_id ?a"
        by (auto simp: claims)
      then show ?case
      proof cases
        case 1
        then show ?thesis using 4(2) sub(1) ownD(4) [OF inv(2) f(2), of p] by (simp add: fr st)
      next
        case 2
        then show ?thesis using 4(2) ownD(4) [OF inv(2) 2(1), of p] ownD(5) [OF inv(2) 2(1) f(2) 2(2), of p]
          by (auto simp: fr st)
      qed
    next
      case (5 b c p)
      then show ?case using ownD(5) [OF inv(2)] sub(1) f(2) by (auto simp: claims)
    next
      case (6 b c p)
      have old: "\<exists>y\<in>set (e_active_claims e). af_id y = af_id x \<and> af_verifying y = af_verifying x \<and>
          scope y p = scope x p" if "x \<in> set (e_active_claims e')" for x
        using that f(2) sub(2) by (auto simp: claims)
      from 6 old [of b] old [of c] show ?case using ownD(6) [OF inv(2), of _ _ p] by metis
    next
      case (7 p)
      then show ?case using ownD(7) [OF inv(2), of p] data by (auto simp: fr st split: if_splits)
    next
      case (8 b k)
      then show ?case using ownD(8) [OF inv(2), of ?a k] ownD(8) [OF inv(2), of b k] sub(1) f(2)
        by (auto simp: claims fr)
    next
      case (9 b p)
      then show ?case using ownD(9) [OF inv(2), of ?a p] ownD(9) [OF inv(2), of b p] sub(2) f(2)
        by (auto simp: claims fr)
    qed
    have "fetch_pins e' r = fetch_pins e r" for r
      using length_filter_update [OF f(1), of "\<lambda>a. af_verifying a \<and>
        cover (e_block_size e) (af_offset a) (af_length a) r" ?a']
      by (simp add: fetch_pins_def e'_def)
    then have "acct_inv e' h"
      using inv(3) by (simp add: acct_inv_def held_pins_def part_pins_def fr)
    moreover have "man_inv e'" using inv(4) f(2) by (auto simp: man_inv_def fr claims)
    moreover have "sep_inv e' h"
      using inv(5) sub(1) f(2) by (fastforce simp: sep_inv_def fr claims)
    moreover have "exp_inv e'" using inv(6) f(2) by (auto simp: exp_inv_def fr)
    moreover have "shape e'" by (rule shape_cong [OF inv(1)]) (simp_all add: fr publish(3))
    ultimately have "entry_inv e' h" using own by (simp add: entry_inv_def)
    then show ?thesis using publish(10) by (simp add: e'_def)
  qed
qed

section \<open>One fetch changes or ends\<close>

text \<open>
  The general step: the fetch \<open>a\<close> is replaced by the fetches in \<open>A\<close> (none, or one on the same
  bytes), and only pages that are in no other fetch's tail change their state or lose data.
\<close>

lemma own_change:
  assumes own: "own_inv e" and a: "a \<in> set (e_active_claims e)"
    and fr: "e_epoch e' = e_epoch e" "e_block_size e' = e_block_size e" "e_size e' = e_size e"
      "e_page_count e' = e_page_count e"
    and claims: "set (e_active_claims e') = A \<union> {x \<in> set (e_active_claims e). af_id x \<noteq> af_id a}"
    and dist: "distinct (map af_id (e_active_claims e'))"
    and A: "\<And>x. x \<in> A \<Longrightarrow> af_id x = af_id a \<and> wf_claim e x \<and> (\<forall>p. scope x p = scope a p) \<and>
        (\<forall>p. tail x p \<longrightarrow> tail a p \<or> af_verifying a) \<and>
        (af_verifying x \<longrightarrow> af_verifying a \<or>
          (\<forall>b\<in>set (e_active_claims e). af_id b \<noteq> af_id a \<longrightarrow> (\<forall>p. \<not> (scope a p \<and> scope b p))))"
    and state: "\<And>b p. b \<in> set (e_active_claims e) \<Longrightarrow> af_id b \<noteq> af_id a \<Longrightarrow> tail b p \<Longrightarrow>
        page_state (e_bitmap e') p = page_state (e_bitmap e) p"
    and data: "\<And>b p. b \<in> set (e_active_claims e) \<Longrightarrow> af_id b \<noteq> af_id a \<Longrightarrow>
        tail b p \<or> af_verifying b \<and> scope b p \<Longrightarrow> p \<in> e_data e \<Longrightarrow> p \<in> e_data e'"
    and pending: "\<And>p. p < e_page_count e \<Longrightarrow>
        page_state (e_bitmap e') p = CACHE_PAGE_READ_PENDING \<Longrightarrow>
        page_state (e_bitmap e) p \<noteq> CACHE_PAGE_READ_PENDING \<or> tail a p \<Longrightarrow> \<exists>x\<in>A. tail x p"
    and tails: "\<And>x p. x \<in> A \<Longrightarrow> tail x p \<Longrightarrow>
        page_state (e_bitmap e') p = CACHE_PAGE_READ_PENDING \<or>
        page_state (e_bitmap e') p = CACHE_PAGE_BAD"
    and clean: "\<And>p. p < e_page_count e \<Longrightarrow> page_state (e_bitmap e') p = CACHE_PAGE_CLEAN \<Longrightarrow>
        p \<in> e_data e'"
    and prior: "\<And>x k. x \<in> A \<Longrightarrow> k < length (af_prior_states x) \<Longrightarrow>
        af_prior_states x ! k = CACHE_PAGE_CLEAN \<Longrightarrow> tail x (af_offset x div U + k) \<Longrightarrow>
        af_offset x div U + k \<in> e_data e'"
    and verified: "\<And>x p. x \<in> A \<Longrightarrow> af_verifying x \<Longrightarrow> scope x p \<Longrightarrow> p \<in> e_data e'"
  shows "own_inv e'"
proof (rule own_invI, goal_cases)
  case (1 b)
  then show ?case using A [of b] ownD(1) [OF own, of b] by (auto simp: claims wf_claim_cong [OF fr(1-3)])
next
  case 2
  show ?case by (rule dist)
next
  case (3 p)
  then have p: "p < e_page_count e" using fr(4) by simp
  show ?case
  proof (cases "page_state (e_bitmap e) p \<noteq> CACHE_PAGE_READ_PENDING \<or> tail a p")
    case True
    then show ?thesis using pending [OF p 3(2) True] by (auto simp: claims)
  next
    case False
    then obtain b where b: "b \<in> set (e_active_claims e)" "tail b p"
      using ownD(3) [OF own p] by auto
    then have "af_id b \<noteq> af_id a"
      using False a ownD(2) [OF own] by (metis distinct_map inj_on_eq_iff)
    then show ?thesis using b by (auto simp: claims)
  qed
next
  case (4 b p)
  then consider "b \<in> A" | "b \<in> set (e_active_claims e)" "af_id b \<noteq> af_id a" by (auto simp: claims)
  then show ?case
  proof cases
    case 1
    then show ?thesis using tails [OF 1 4(2)] by simp
  next
    case 2
    then show ?thesis using state [OF 2 4(2)] ownD(4) [OF own 2(1) 4(2)] by simp
  qed
next
  case (5 b c p)
  have one: False if "x \<in> A" "tail x p" "y \<in> set (e_active_claims e)" "af_id y \<noteq> af_id a" "tail y p"
    for x y
  proof -
    note Ax = A [OF that(1)]
    have "scope a p" using Ax tail_scope [OF that(2)] by simp
    then show False
      using Ax that ownD(5) [OF own a that(3) that(4) [symmetric], of p]
        ownD(6) [OF own a that(3) that(4) [symmetric], of p] tail_scope [OF that(5)] by blast
  qed
  have "b \<in> A \<or> b \<in> set (e_active_claims e) \<and> af_id b \<noteq> af_id a"
    "c \<in> A \<or> c \<in> set (e_active_claims e) \<and> af_id c \<noteq> af_id a" using 5(1,2) by (auto simp: claims)
  then consider "b \<in> A" "c \<in> A" | "b \<in> A" "c \<in> set (e_active_claims e)" "af_id c \<noteq> af_id a"
    | "c \<in> A" "b \<in> set (e_active_claims e)" "af_id b \<noteq> af_id a"
    | "b \<in> set (e_active_claims e)" "c \<in> set (e_active_claims e)" by blast
  then show ?case
  proof cases
    case 1
    then show ?thesis using A [of b] A [of c] 5(3) by simp
  next
    case 2
    then show ?thesis using one [OF 2(1) 5(4) 2(2,3)] by blast
  next
    case 3
    then show ?thesis using one [OF 3(1) _ 3(2,3) 5(4)] by blast
  next
    case 4
    then show ?thesis using ownD(5) [OF own 4 5(3,4)] by blast
  qed
next
  case (6 b c p)
  have "b \<in> A \<or> b \<in> set (e_active_claims e) \<and> af_id b \<noteq> af_id a"
    "c \<in> A \<or> c \<in> set (e_active_claims e) \<and> af_id c \<noteq> af_id a" using 6(1,2) by (auto simp: claims)
  then consider "b \<in> A" "c \<in> A" | "b \<in> A" "c \<in> set (e_active_claims e)" "af_id c \<noteq> af_id a"
    | "c \<in> A" "b \<in> set (e_active_claims e)" "af_id b \<noteq> af_id a"
    | "b \<in> set (e_active_claims e)" "c \<in> set (e_active_claims e)" by blast
  then show ?case
  proof cases
    case 1
    then show ?thesis using A [of b] A [of c] 6(3) by simp
  next
    case 2
    then show ?thesis
      using A [OF 2(1)] 6(4,5) ownD(6) [OF own a 2(2) 2(3) [symmetric], of p] by blast
  next
    case 3
    then show ?thesis using A [OF 3(1)] ownD(6) [OF own 3(2) a 3(3) 6(4,5)] by blast
  next
    case 4
    then show ?thesis using ownD(6) [OF own 4 6(3-5)] by blast
  qed
next
  case (7 p)
  then show ?case using clean [of p] fr(4) by simp
next
  case (8 b k)
  then consider "b \<in> A" | "b \<in> set (e_active_claims e)" "af_id b \<noteq> af_id a" by (auto simp: claims)
  then show ?case
  proof cases
    case 1
    then show ?thesis using prior 8 by simp
  next
    case 2
    then show ?thesis using data [OF 2] 8(4) ownD(8) [OF own 2(1) 8(2-4)] by simp
  qed
next
  case (9 b p)
  then consider "b \<in> A" | "b \<in> set (e_active_claims e)" "af_id b \<noteq> af_id a" by (auto simp: claims)
  then show ?case
  proof cases
    case 1
    then show ?thesis using verified 9 by simp
  next
    case 2
    then show ?thesis using data [OF 2] 9 ownD(9) [OF own 2(1) 9(2,3)] by simp
  qed
qed

text \<open>The pins of a verifying fetch are given back when it ends.\<close>

lemma end_fetch_spec:
  assumes "shape e" "find_active claim e = Some i" "0 < cl_length claim"
    "cl_offset claim + cl_length claim \<le> e_size e"
  shows "\<exists>pins n. length pins = length (e_region_pins e) \<and>
    end_fetch_locked claim e = e\<lparr>e_region_pins := pins, e_pinned_regions := n,
      e_active_claims := remove_at i (e_active_claims e)\<rparr> \<and>
    (\<forall>r<length (e_region_pins e). pins ! r = e_region_pins e ! r -
      (if af_verifying (e_active_claims e ! i) \<and>
          cover (e_block_size e) (cl_offset claim) (cl_length claim) r then 1 else 0)) \<and>
    (e_pinned_regions e = of_nat (sum_list (e_region_pins e)) \<longrightarrow> n = of_nat (sum_list pins))"
proof (cases "af_verifying (e_active_claims e ! i)")
  case False
  then show ?thesis
    using assms(2)
    by (intro exI [of _ "e_region_pins e"] exI [of _ "e_pinned_regions e"])
       (simp add: end_fetch_locked_def Let_def)
next
  case True
  note sp = span_cover [OF assms(1,3,4)]
  obtain rel e1 where d: "drop_pins (span e (cl_offset claim) (cl_length claim)) e = (rel, e1)"
    by fastforce
  have "distinct (span e (cl_offset claim) (cl_length claim))"
    "\<forall>r\<in>set (span e (cl_offset claim) (cl_length claim)). r < length (e_region_pins e)"
    using sp(4) by (auto simp: sp(1) simp del: upt_Suc)
  note ds = drop_pins_spec [OF d this]
  have "end_fetch_locked claim e = e1\<lparr>e_active_claims := remove_at i (e_active_claims e)\<rparr>"
    using assms(2) True d unfolding sp(1) by (simp add: end_fetch_locked_def Let_def del: upt_Suc)
  also have "\<dots> = e\<lparr>e_region_pins := e_region_pins e1, e_pinned_regions := e_pinned_regions e1,
      e_active_claims := remove_at i (e_active_claims e)\<rparr>"
    by (subst ds(1)) simp
  finally show ?thesis using ds(2-4) True unfolding sp(5)
    by (intro exI [of _ "e_region_pins e1"] exI [of _ "e_pinned_regions e1"]) simp
qed

lemma fetch_end_inv:
  assumes "entry_inv e h" "find_active claim e = Some i"
    and words: "length words = length (e_bitmap e)"
      "\<And>p. \<not> tail (e_active_claims e ! i) p \<Longrightarrow> page_state words p = page_state (e_bitmap e) p"
      "\<And>p. tail (e_active_claims e ! i) p \<Longrightarrow> page_state words p \<noteq> CACHE_PAGE_READ_PENDING"
      "\<And>p. p < e_page_count e \<Longrightarrow> page_state words p = CACHE_PAGE_CLEAN \<Longrightarrow> p \<in> d"
    and data: "\<And>b p. b \<in> set (e_active_claims e) \<Longrightarrow> af_id b \<noteq> cl_id claim \<Longrightarrow>
      tail b p \<or> af_verifying b \<and> scope b p \<Longrightarrow> p \<in> e_data e \<Longrightarrow> p \<in> d"
  shows "entry_inv (end_fetch_locked claim (e\<lparr>e_bitmap := words, e_data := d\<rparr>)) h"
proof -
  note inv = entryD [OF assms(1)]
  note f = find_activeD [OF assms(2)]
  note wf = find_active_wf [OF inv(2) assms(2)]
  let ?a = "e_active_claims e ! i"
  define e1 where "e1 = e\<lparr>e_bitmap := words, e_data := d\<rparr>"
  have sh1: "shape e1" by (rule shape_cong [OF inv(1)]) (simp_all add: e1_def words(1))
  have f1: "find_active claim e1 = Some i" using assms(2) by (simp add: find_active_def e1_def)
  obtain pins n where pins: "length pins = length (e_region_pins e)"
    and e': "end_fetch_locked claim e1 = e1\<lparr>e_region_pins := pins, e_pinned_regions := n,
      e_active_claims := remove_at i (e_active_claims e)\<rparr>"
    and nth: "\<forall>r<length (e_region_pins e). pins ! r = e_region_pins e ! r -
      (if af_verifying ?a \<and> cover (e_block_size e) (cl_offset claim) (cl_length claim) r
       then 1 else 0)"
    and n: "e_pinned_regions e = of_nat (sum_list (e_region_pins e)) \<longrightarrow> n = of_nat (sum_list pins)"
    using end_fetch_spec [OF sh1 f1 wf(2)] wf(3) by (auto simp: e1_def)
  define e' where "e' = end_fetch_locked claim e1"
  have fr: "e_header e' = e_header e" "e_size e' = e_size e" "e_epoch e' = e_epoch e"
    "e_block_size e' = e_block_size e" "e_page_count e' = e_page_count e"
    "e_referenced e' = e_referenced e" "e_region_pins e' = pins" "e_pinned_regions e' = n"
    "e_data e' = d" "e_bitmap e' = words" "e_active_claims e' = remove_at i (e_active_claims e)"
    "e_checksum_parts e' = e_checksum_parts e" "e_checksum_states e' = e_checksum_states e"
    "e_checksum_ops e' = e_checksum_ops e" "e_checksum_manifest e' = e_checksum_manifest e"
    unfolding e'_def e' by (simp_all add: e1_def)
  have claims: "set (e_active_claims e') = {} \<union> {x \<in> set (e_active_claims e). af_id x \<noteq> af_id ?a}"
    using set_remove_distinct [OF ownD(2) [OF inv(2)] f(1)] by (simp add: fr)
  have "own_inv e'"
  proof (rule own_change [OF inv(2) f(2) fr(3,4,2,5) claims], goal_cases)
    case 1
    show ?case using distinct_remove_at [OF ownD(2) [OF inv(2)]] by (simp add: fr)
  next
    case (3 b p)
    then have "\<not> tail ?a p" using ownD(5) [OF inv(2) 3(1) f(2) 3(2,3)] by simp
    then show ?case using words(2) [of p] by (simp add: fr)
  next
    case (4 b p)
    then show ?case using data [of b p] f(3) by (simp add: fr)
  next
    case (5 p)
    then show ?case using words(2,3) [of p] by (cases "tail ?a p") (auto simp: fr)
  next
    case (7 p)
    then show ?case using words(4) by (simp add: fr)
  qed simp_all
  moreover have "acct_inv e' h"
  proof -
    have fp: "fetch_pins e' r + (if af_verifying ?a \<and>
        cover (e_block_size e) (cl_offset claim) (cl_length claim) r then 1 else 0) =
      fetch_pins e r" for r
      using length_filter_remove [OF f(1), of "\<lambda>a. af_verifying a \<and>
        cover (e_block_size e) (af_offset a) (af_length a) r"]
      by (simp add: fetch_pins_def fr f(5,6))
    have "pins ! r = held_pins e h r + part_pins e r + fetch_pins e' r"
      if "r < length (e_region_pins e)" for r
    proof -
      have "e_region_pins e ! r = held_pins e h r + part_pins e r + fetch_pins e r"
        using inv(3) that by (simp add: acct_inv_def)
      then show ?thesis using fp [of r] nth that by (auto split: if_splits)
    qed
    then show ?thesis
      using inv(3) n by (simp add: acct_inv_def fr pins held_pins_def part_pins_def)
  qed
  moreover have "man_inv e'" using inv(4) claims by (auto simp: man_inv_def fr)
  moreover have "sep_inv e' h" using inv(5) claims by (auto simp: sep_inv_def fr)
  moreover have "exp_inv e'" using inv(6) f(2) by (auto simp: exp_inv_def fr)
  moreover have "shape e'" by (rule shape_cong [OF inv(1)]) (simp_all add: fr pins words(1))
  ultimately show ?thesis unfolding e'_def e1_def entry_inv_def by blast
qed

lemma finish_fetch_inv:
  assumes "entry_inv e h"
  shows "entry_inv (finish_fetch hole claim e) h"
proof (cases "find_active claim e")
  case None
  then show ?thesis using assms by (simp add: finish_fetch_def)
next
  case (Some i)
  note inv = entryD [OF assms]
  note s = shapeD [OF inv(1)]
  note f = find_activeD [OF Some]
  note wf = find_active_wf [OF inv(2) Some]
  let ?a = "e_active_claims e ! i"
  obtain words d where r: "finish_loop e hole claim (cl_offset claim + af_published ?a)
      (e_bitmap e, e_data e) = (words, d)" by fastforce
  have start: "cl_offset claim + cl_length claim \<le> cl_offset claim + af_published ?a \<or>
      e_block_size e dvd cl_offset claim + af_published ?a"
    using wf(1,6) by auto
  note spec = finish_loop_spec [OF inv(1) wf(3) r start wf(4) refl]
  have st: "page_state words p = (if tail ?a p \<and> page_state (e_bitmap e) p = CACHE_PAGE_READ_PENDING
      then CACHE_PAGE_MISSING else page_state (e_bitmap e) p)" for p
    using conjunct1 [OF conjunct2 [OF spec]] by (simp add: tail_def f)
  have gone: "tail ?a p" if g: "p \<in> e_data e" "p \<notin> d" "p < e_page_count e" for p
  proof -
    obtain q where q: "q * U div e_block_size e = p * U div e_block_size e" "tail ?a q"
      using conjunct2 [OF conjunct2 [OF conjunct2 [OF spec]]] g(1,2) by (auto simp: tail_def f)
    have "q < e_page_count e"
      using claim_page_bound [OF inv(1) ownD(1) [OF inv(2) f(2)] tail_scope [OF q(2)]] .
    then show ?thesis
      using block_uniform(2) [OF inv(1) ownD(1) [OF inv(2) f(2)] q(1)] q(2) g(3) s(5) by simp
  qed
  have "entry_inv (end_fetch_locked claim (e\<lparr>e_bitmap := words, e_data := d\<rparr>)) h"
  proof (rule fetch_end_inv [OF assms Some], goal_cases)
    case 1
    show ?case using conjunct1 [OF spec] .
  next
    case (4 p)
    then have "page_state (e_bitmap e) p = CACHE_PAGE_CLEAN" by (auto simp: st split: if_splits)
    then show ?case using ownD(7) [OF inv(2) 4(1)] gone 4(1) ownD(4) [OF inv(2) f(2), of p] by auto
  next
    case (5 b p)
    have sc: "scope b p" using 5(3) tail_scope by blast
    have "\<not> tail ?a p"
      using 5(1-3) ownD(5) [OF inv(2) 5(1) f(2), of p] ownD(6) [OF inv(2) 5(1) f(2), of p] f(3)
        tail_scope [of ?a p] by auto
    then show ?case
      using gone [of p] 5(4) claim_page_bound [OF inv(1) ownD(1) [OF inv(2) 5(1)] sc] by blast
  qed (auto simp: st split: if_splits)
  then show ?thesis using Some r by (simp add: finish_fetch_def)
qed

text \<open>What a rollback writes into the bitmap.\<close>

lemma rollback_words:
  assumes "shape e" "own_inv e" "find_active claim e = Some i"
  obtains words where
    "rollback_fetch claim e =
       notify_waiters_locked (end_fetch_locked claim (e\<lparr>e_bitmap := words, e_data := e_data e\<rparr>))"
    "length words = length (e_bitmap e)"
    "\<forall>p. page_state words p = (if tail (e_active_claims e ! i) p
       then af_prior_states (e_active_claims e ! i) ! (p - cl_offset claim div U)
       else page_state (e_bitmap e) p)"
    "\<forall>p. tail (e_active_claims e ! i) p \<longrightarrow>
       p - cl_offset claim div U < length (af_prior_states (e_active_claims e ! i))"
    "\<forall>p. tail (e_active_claims e ! i) p \<longrightarrow> p = cl_offset claim div U + (p - cl_offset claim div U)"
proof -
  note s = shapeD [OF assms(1)]
  note f = find_activeD [OF assms(3)]
  note wf = find_active_wf [OF assms(2,3)]
  let ?a = "e_active_claims e ! i"
  let ?first = "cl_offset claim div U"
  note wa = ownD(1) [OF assms(2) f(2)]
  have prior: "length (af_prior_states ?a) = (cl_offset claim + cl_length claim - 1) div U + 1 - ?first"
    using wa by (auto simp: wf_claim_def f)
  define idx where "idx = [(af_published ?a + U - 1) div U ..< length (af_prior_states ?a)]"
  define words where "words = fold (\<lambda>index. set_page_state (?first + index) (af_prior_states ?a ! index))
    idx (e_bitmap e)"
  have dvd: "U dvd cl_offset claim" using s(2) wf(1) by (rule dvd_trans)
  have idx: "k \<in> set idx \<longleftrightarrow> tail ?a (?first + k)" for k
  proof -
    have pos: "(?first + k) * U = cl_offset claim + k * U" using dvd by (simp add: distrib_right)
    have "k < length (af_prior_states ?a) \<longleftrightarrow> ?first + k < (cl_offset claim + cl_length claim - 1) div U + 1"
      using prior by linarith
    also have "\<dots> \<longleftrightarrow> (?first + k) * U < cl_offset claim + cl_length claim"
      by (rule less_page_end) (use wf(2) in simp)
    finally show ?thesis
      unfolding idx_def tail_def f pos using page_ceil_le [of "af_published ?a" k] by auto
  qed
  have tail_idx: "tail ?a p \<longleftrightarrow> (\<exists>k\<in>set idx. p = ?first + k)" for p
  proof
    assume t: "tail ?a p"
    then have "?first \<le> p" using page_start_le [OF dvd, of p] by (simp add: tail_def f)
    then have "p = ?first + (p - ?first)" by simp
    then show "\<exists>k\<in>set idx. p = ?first + k" using t idx by metis
  qed (use idx in blast)
  have bound: "\<forall>k\<in>set idx. ?first + k < 32 * length (e_bitmap e)"
    using idx claim_page_bound [OF assms(1) wa] tail_scope s(4) by fastforce
  have st: "page_state words p = (if tail ?a p then af_prior_states ?a ! (p - ?first)
      else page_state (e_bitmap e) p)" for p
    unfolding words_def tail_idx by (rule page_state_restore [OF bound])
  have pri: "p - ?first < length (af_prior_states ?a)" "p = ?first + (p - ?first)" if "tail ?a p" for p
    using that unfolding tail_idx by (auto simp: idx_def)
  have "block_first_page e (cl_offset claim) = ?first"
    using wf(1) by (simp add: block_first_page_def)
  then have r: "rollback_fetch claim e =
       notify_waiters_locked (end_fetch_locked claim (e\<lparr>e_bitmap := words, e_data := e_data e\<rparr>))"
    using assms(3) by (simp add: rollback_fetch_def Let_def words_def idx_def)
  show ?thesis by (rule that [OF r]) (use st pri in \<open>auto simp: words_def\<close>)
qed

lemma rollback_fetch_inv:
  assumes "entry_inv e h"
  shows "entry_inv (rollback_fetch claim e) h"
proof (cases "find_active claim e")
  case None
  then show ?thesis using assms by (simp add: rollback_fetch_def)
next
  case (Some i)
  note inv = entryD [OF assms]
  note f = find_activeD [OF Some]
  let ?a = "e_active_claims e ! i"
  let ?first = "cl_offset claim div U"
  have prior: "\<And>k. k < length (af_prior_states ?a) \<Longrightarrow> af_prior_states ?a ! k = CACHE_PAGE_MISSING \<or>
      af_prior_states ?a ! k = CACHE_PAGE_CLEAN"
    using ownD(1) [OF inv(2) f(2)] nth_mem by (auto simp: wf_claim_def)
  obtain words where r: "rollback_fetch claim e =
       notify_waiters_locked (end_fetch_locked claim (e\<lparr>e_bitmap := words, e_data := e_data e\<rparr>))"
    and len: "length words = length (e_bitmap e)"
    and st0: "\<forall>p. page_state words p = (if tail ?a p then af_prior_states ?a ! (p - ?first)
      else page_state (e_bitmap e) p)"
    and pri0: "\<forall>p. tail ?a p \<longrightarrow> p - ?first < length (af_prior_states ?a)"
      "\<forall>p. tail ?a p \<longrightarrow> p = ?first + (p - ?first)"
    by (rule rollback_words [OF inv(1,2) Some])
  note st = st0 [rule_format] and pri = pri0 [rule_format]
  have "entry_inv (end_fetch_locked claim (e\<lparr>e_bitmap := words, e_data := e_data e\<rparr>)) h"
  proof (rule fetch_end_inv [OF assms Some], goal_cases)
    case 1
    show ?case by (rule len)
  next
    case (3 p)
    then show ?case using prior [OF pri(1) [OF 3]] by (auto simp: st)
  next
    case (4 p)
    show ?case
    proof (cases "tail ?a p")
      case True
      then show ?thesis
        using ownD(8) [OF inv(2) f(2) pri(1) [OF True]] 4(2) pri(2) [OF True]
        by (simp add: st f)
    next
      case False
      then show ?thesis using ownD(7) [OF inv(2) 4(1)] 4(2) by (simp add: st)
    qed
  qed (simp_all add: st)
  then show ?thesis by (simp add: r)
qed

section \<open>Bad fetches, verification and retry\<close>

lemma claim_end_page_eq:
  assumes "shape e" "0 < cl_length claim" "cl_offset claim + cl_length claim \<le> e_size e"
  shows "p < claim_end_page e claim \<longleftrightarrow> p * U < cl_offset claim + cl_length claim"
  using less_page_end [of "cl_offset claim + cl_length claim" p] shapeD(5) [OF assms(1), of p] assms(2,3)
  by (auto simp: claim_end_page_def)

text \<open>A fetch is replaced by itself with other flags, its pages become pending or bad.\<close>

lemma fetch_update_inv:
  assumes "entry_inv e h" "find_active claim e = Some i"
    and a': "af_id a' = cl_id claim" "af_offset a' = cl_offset claim" "af_length a' = cl_length claim"
      "af_prior_states a' = af_prior_states (e_active_claims e ! i)" "wf_claim e a'"
      "af_verifying a' = af_verifying (e_active_claims e ! i)"
      "af_verifying a' \<and> af_retrying a' \<or> a' = e_active_claims e ! i"
    and words: "length words = length (e_bitmap e)"
      "\<And>p. \<not> scope a' p \<or> (\<not> af_verifying a' \<and> \<not> tail a' p) \<Longrightarrow>
        page_state words p = page_state (e_bitmap e) p"
      "\<And>p. page_state words p = CACHE_PAGE_CLEAN \<Longrightarrow> page_state (e_bitmap e) p = CACHE_PAGE_CLEAN"
      "\<And>p. tail a' p \<Longrightarrow> page_state words p = CACHE_PAGE_READ_PENDING \<or>
        page_state words p = CACHE_PAGE_BAD"
      "\<And>p. page_state words p = CACHE_PAGE_READ_PENDING \<Longrightarrow>
        page_state (e_bitmap e) p = CACHE_PAGE_READ_PENDING \<and> tail (e_active_claims e ! i) p \<longrightarrow> tail a' p"
      "\<And>p. page_state words p = CACHE_PAGE_READ_PENDING \<Longrightarrow>
        page_state (e_bitmap e) p \<noteq> CACHE_PAGE_READ_PENDING \<Longrightarrow> tail a' p"
    and data: "\<And>k. k < length (af_prior_states a') \<Longrightarrow> af_prior_states a' ! k = CACHE_PAGE_CLEAN \<Longrightarrow>
        tail a' (af_offset a' div U + k) \<Longrightarrow> af_offset a' div U + k \<in> e_data e"
  shows "entry_inv (e\<lparr>e_bitmap := words, e_active_claims := (e_active_claims e)[i := a']\<rparr>) h"
proof -
  note inv = entryD [OF assms(1)]
  note f = find_activeD [OF assms(2)]
  let ?a = "e_active_claims e ! i"
  define e' where "e' = e\<lparr>e_bitmap := words, e_active_claims := (e_active_claims e)[i := a']\<rparr>"
  have fr: "e_header e' = e_header e" "e_size e' = e_size e" "e_epoch e' = e_epoch e"
    "e_block_size e' = e_block_size e" "e_page_count e' = e_page_count e"
    "e_referenced e' = e_referenced e" "e_region_pins e' = e_region_pins e"
    "e_pinned_regions e' = e_pinned_regions e" "e_data e' = e_data e" "e_bitmap e' = words"
    "e_checksum_parts e' = e_checksum_parts e" "e_checksum_states e' = e_checksum_states e"
    "e_checksum_ops e' = e_checksum_ops e" "e_checksum_manifest e' = e_checksum_manifest e"
    by (simp_all add: e'_def)
  have claims: "set (e_active_claims e') = {a'} \<union> {x \<in> set (e_active_claims e). af_id x \<noteq> af_id ?a}"
    using set_update_distinct [OF ownD(2) [OF inv(2)] f(1)] by (simp add: e'_def)
  have sc: "scope a' p \<longleftrightarrow> scope ?a p" for p by (simp add: scope_def f a')
  have ta: "tail a' p \<Longrightarrow> tail ?a p \<or> af_verifying ?a" for p
    using a'(6,7) by auto
  have "own_inv e'"
  proof (rule own_change [OF inv(2) f(2) fr(3,4,2,5) claims], goal_cases)
    case 1
    have "map af_id ((e_active_claims e)[i := a']) = map af_id (e_active_claims e)"
      using f(1,3) a'(1) by (simp add: map_update) (metis list_update_id nth_map)
    then show ?case using ownD(2) [OF inv(2)] by (simp add: e'_def)
  next
    case (2 x)
    then show ?case using a'(1,5,6) f(3) sc ta by auto
  next
    case (3 b p)
    have "\<not> tail ?a p" using ownD(5) [OF inv(2) 3(1) f(2) 3(2,3)] .
    moreover have "af_verifying ?a \<Longrightarrow> \<not> scope ?a p"
      using ownD(6) [OF inv(2) f(2) 3(1) 3(2) [symmetric], of p] tail_scope [OF 3(3)] by blast
    ultimately show ?case using words(2) [of p] a'(6) sc ta by (auto simp: fr)
  next
    case (5 p)
    then show ?case using words(5,6) [of p] by (auto simp: fr)
  next
    case (6 x p)
    then show ?case using words(4) by (auto simp: fr)
  next
    case (7 p)
    then show ?case using words(3) ownD(7) [OF inv(2)] by (simp add: fr)
  next
    case (8 x k)
    then show ?case using data by (simp add: fr)
  next
    case (9 x p)
    then show ?case using ownD(9) [OF inv(2) f(2), of p] sc a'(6) by (simp add: fr)
  qed (simp add: fr)
  moreover have "acct_inv e' h"
  proof -
    have "fetch_pins e' r = fetch_pins e r" for r
      using length_filter_update [OF f(1), of "\<lambda>a. af_verifying a \<and>
        cover (e_block_size e) (af_offset a) (af_length a) r" a']
      by (simp add: fetch_pins_def e'_def a' f)
    then show ?thesis
      using inv(3) by (simp add: acct_inv_def held_pins_def part_pins_def fr)
  qed
  moreover have "man_inv e'" using inv(4) f(2) a'(6) claims by (auto simp: man_inv_def fr)
  moreover have "sep_inv e' h"
  proof (rule sepI)
    fix a off len p
    assume "a \<in> set (e_active_claims e')" "\<not> af_retrying a" "(off, len) \<in> set (fst h)" "tail a p"
    moreover from this have "a \<in> set (e_active_claims e)" using a'(7) f(2) claims by auto
    ultimately show "\<not> cover (e_block_size e') off len (p * U div e_block_size e')"
      using sepD [OF inv(5)] by (simp add: fr)
  qed
  moreover have "exp_inv e'" using inv(6) f(2) by (auto simp: exp_inv_def fr)
  moreover have "shape e'" by (rule shape_cong [OF inv(1)]) (simp_all add: fr words(1))
  ultimately show ?thesis unfolding e'_def entry_inv_def by blast
qed

lemma mark_bad_inv:
  assumes "entry_inv e h"
  shows "entry_inv (mark_bad claim e) h"
proof (cases "find_active claim e")
  case None
  then show ?thesis using assms by (simp add: mark_bad_def)
next
  case (Some i)
  note inv = entryD [OF assms]
  note s = shapeD [OF inv(1)]
  note f = find_activeD [OF Some]
  note wf = find_active_wf [OF inv(2) Some]
  let ?a = "e_active_claims e ! i"
  note wa = ownD(1) [OF inv(2) f(2)]
  define first where "first = cl_offset claim div U +
    (if af_verifying ?a then 0 else (af_published ?a + U - 1) div U)"
  define pages where "pages = [first ..< claim_end_page e claim]"
  have dvd: "U dvd cl_offset claim" using s(2) wf(1) by (rule dvd_trans)
  have ceil: "cl_offset claim div U + (x + U - 1) div U \<le> p \<longleftrightarrow> cl_offset claim + x \<le> p * U" for x p
  proof -
    obtain k where k: "cl_offset claim = k * U" using dvd by (metis dvd_def mult.commute)
    have "k * U + x + U - 1 = x + U - 1 + k * U" using U_pos by linarith
    then have "k + (x + U - 1) div U = (k * U + x + U - 1) div U"
      by (simp only: div_mult_self1 [OF U_neq0])
    then show ?thesis using page_ceil_le [of "k * U + x" p] by (simp add: k)
  qed
  have pages: "p \<in> set pages \<longleftrightarrow> (if af_verifying ?a then scope ?a p else tail ?a p)" for p
    using claim_end_page_eq [OF inv(1) wf(2,3), of p] ceil [of "af_published ?a" p]
      page_start_le [OF dvd, of p]
    by (auto simp: pages_def first_def scope_def tail_def f)
  have bound: "\<forall>p\<in>set pages. p < 32 * length (e_bitmap e)"
    using pages claim_page_bound [OF inv(1) wa] tail_scope s(4) by (fastforce split: if_splits)
  define words where "words = fill_states CACHE_PAGE_BAD pages (e_bitmap e)"
  have st: "page_state words p = (if p \<in> set pages then CACHE_PAGE_BAD
      else page_state (e_bitmap e) p)" for p
    unfolding words_def by (rule page_state_fill [OF bound])
  have "entry_inv (e\<lparr>e_bitmap := words, e_active_claims := (e_active_claims e)[i := ?a]\<rparr>) h"
  proof (rule fetch_update_inv [OF assms Some f(3,5,6) refl wa refl _], goal_cases)
    case 2
    show ?case by (simp add: words_def)
  next
    case (3 p)
    then show ?case using tail_scope by (auto simp: st pages split: if_splits)
  next
    case (5 p)
    then show ?case using ownD(4) [OF inv(2) f(2) 5] by (auto simp: st)
  next
    case (8 k)
    then show ?case using ownD(8) [OF inv(2) f(2)] by simp
  qed (auto simp: st split: if_splits)
  then show ?thesis
    using Some assms f(1)
    by (auto simp: mark_bad_def Let_def words_def pages_def first_def list_update_same_conv)
qed

lemma begin_retry_inv:
  assumes "entry_inv e h" "begin_retry_locked claim e = Inr (b, e')"
  shows "entry_inv e' h"
proof -
  note inv = entryD [OF assms(1)]
  obtain i where Some: "find_active claim e = Some i"
    using assms(2) by (auto simp: begin_retry_locked_def split: option.splits)
  note s = shapeD [OF inv(1)]
  note f = find_activeD [OF Some]
  note wf = find_active_wf [OF inv(2) Some]
  let ?a = "e_active_claims e ! i"
  let ?a' = "?a\<lparr>af_published := 0, af_retrying := True\<rparr>"
  note wa = ownD(1) [OF inv(2) f(2)]
  have ver: "af_verifying ?a"
    using assms(2) Some by (auto simp: begin_retry_locked_def Let_def split: if_splits)
  define pages where "pages = [cl_offset claim div U ..< claim_end_page e claim]"
  have dvd: "U dvd cl_offset claim" using s(2) wf(1) by (rule dvd_trans)
  have pages: "p \<in> set pages \<longleftrightarrow> scope ?a p" for p
    using claim_end_page_eq [OF inv(1) wf(2,3), of p] page_start_le [OF dvd, of p]
    by (auto simp: pages_def scope_def f)
  have bound: "\<forall>p\<in>set pages. p < 32 * length (e_bitmap e)"
    using pages claim_page_bound [OF inv(1) wa] s(4) by fastforce
  define words where "words = fill_states CACHE_PAGE_READ_PENDING pages (e_bitmap e)"
  have st: "page_state words p = (if scope ?a p then CACHE_PAGE_READ_PENDING
      else page_state (e_bitmap e) p)" for p
    unfolding words_def using page_state_fill [OF bound, of CACHE_PAGE_READ_PENDING p] pages by simp
  have tl: "tail ?a' p \<longleftrightarrow> scope ?a p" for p by (simp add: tail_def scope_def)
  have "entry_inv (e\<lparr>e_bitmap := words, e_active_claims := (e_active_claims e)[i := ?a']\<rparr>) h"
  proof (rule fetch_update_inv [OF assms(1) Some], goal_cases)
    case 5
    show ?case using wa ver by (simp add: wf_claim_def)
  next
    case 8
    show ?case by (simp add: words_def)
  next
    case (9 p)
    then show ?case using ver tl by (auto simp: st scope_def)
  next
    case (14 k)
    then show ?case using ownD(9) [OF inv(2) f(2) ver] tl [of "af_offset ?a div U + k"] by simp
  qed (use ver tl in \<open>auto simp: f st tail_scope split: if_splits\<close>)
  then show ?thesis
    using assms Some ver
    by (auto simp: begin_retry_locked_def Let_def words_def pages_def split: if_splits)
qed

lemma pin_fetch_verification_cases:
  assumes "pin_fetch_verification claim e = Inr (b, e')"
  obtains (same) "e' = e"
  | (pinned) i first stop where "find_active claim e = Some i" "b" "\<not> e_stale e"
      "\<not> af_verifying (e_active_claims e ! i)"
      "af_published (e_active_claims e ! i) = cl_length claim" "e_checksum_ops e = 0"
      "e_checksum_manifest e \<noteq> kChecksumAvailable"
      "range_all_state (e_bitmap e) (cl_offset claim) (cl_length claim) CACHE_PAGE_CLEAN"
      "\<not> other_overlaps claim i (e_active_claims e)"
      "first = cl_offset claim div e_block_size e"
      "stop = (cl_offset claim + cl_length claim - 1) div e_block_size e + 1"
      "e' = e\<lparr>e_region_pins := increment_pins [first ..< stop] (e_region_pins e),
         e_pinned_regions := e_pinned_regions e + (of_nat stop - of_nat first),
         e_active_claims := (e_active_claims e)[i := (e_active_claims e ! i)\<lparr>af_verifying := True\<rparr>]\<rparr>"
proof (cases "find_active claim e")
  case None
  then show thesis using assms same by (simp add: pin_fetch_verification_def)
next
  case (Some i)
  define first where "first = cl_offset claim div e_block_size e"
  define stop where "stop = (cl_offset claim + cl_length claim - 1) div e_block_size e + 1"
  note d = assms [unfolded pin_fetch_verification_def Some option.case Let_def,
      folded first_def stop_def]
  show thesis
  proof (cases "e_stale e \<or> af_verifying (e_active_claims e ! i) \<or>
      af_published (e_active_claims e ! i) \<noteq> cl_length claim \<or> e_checksum_ops e \<noteq> 0 \<or>
      e_checksum_manifest e = kChecksumAvailable \<or>
      \<not> range_all_state (e_bitmap e) (cl_offset claim) (cl_length claim) CACHE_PAGE_CLEAN \<or>
      other_overlaps claim i (e_active_claims e)")
    case True
    then have "e' = e" using d by (simp split: if_splits)
    then show thesis by (rule same)
  next
    case False
    have "\<not> list_ex (\<lambda>r. e_region_pins e ! r = UINT32_MAX) [first ..< stop]"
      using d False by (simp split: if_splits)
    then show thesis
      using d False pinned [OF Some, of first stop] by (simp add: first_def stop_def)
  qed
qed

lemma pin_fetch_verification_inv:
  assumes "entry_inv e h" "pin_fetch_verification claim e = Inr (b, e')"
  shows "entry_inv e' h"
  using assms(2)
proof (cases rule: pin_fetch_verification_cases)
  case same
  then show ?thesis using assms(1) by simp
next
  case (pinned i first stop)
  note inv = entryD [OF assms(1)]
  note s = shapeD [OF inv(1)]
  note f = find_activeD [OF pinned(1)]
  note wf = find_active_wf [OF inv(2) pinned(1)]
  let ?a = "e_active_claims e ! i"
  let ?a' = "?a\<lparr>af_verifying := True\<rparr>"
  note sp = span_cover [OF inv(1) wf(2,3)]
  have pins: "increment_pins [first ..< stop] (e_region_pins e) =
      increment_pins (span e (cl_offset claim) (cl_length claim)) (e_region_pins e)"
    by (simp only: sp(1) pinned(10,11))
  have fr: "e_header e' = e_header e" "e_size e' = e_size e" "e_epoch e' = e_epoch e"
    "e_block_size e' = e_block_size e" "e_page_count e' = e_page_count e"
    "e_referenced e' = e_referenced e" "e_data e' = e_data e" "e_bitmap e' = e_bitmap e"
    "e_checksum_parts e' = e_checksum_parts e" "e_checksum_states e' = e_checksum_states e"
    "e_checksum_ops e' = e_checksum_ops e" "e_checksum_manifest e' = e_checksum_manifest e"
    "e_active_claims e' = (e_active_claims e)[i := ?a']"
    "length (e_region_pins e') = length (e_region_pins e)"
    unfolding pinned(12) by (simp_all del: upt_Suc)
  have claims: "set (e_active_claims e') = {?a'} \<union> {x \<in> set (e_active_claims e). af_id x \<noteq> af_id ?a}"
    using set_update_distinct [OF ownD(2) [OF inv(2)] f(1)] by (simp add: fr)
  have apart: "\<not> (scope ?a p \<and> scope c p)"
    if c: "c \<in> set (e_active_claims e)" "af_id c \<noteq> af_id ?a" for c p
  proof
    assume sc: "scope ?a p \<and> scope c p"
    obtain j where j: "j < length (e_active_claims e)" "e_active_claims e ! j = c"
      using c(1) by (metis in_set_conv_nth)
    then have "j \<noteq> i" using c(2) by blast
    then have "\<not> claims_overlap claim c"
      using pinned(9) j by (auto simp: other_overlaps_def list_ex_iff)
    then show False using sc by (auto simp: claims_overlap_def scope_def f)
  qed
  have clean: "page_state (e_bitmap e) p = CACHE_PAGE_CLEAN" if "scope ?a p" for p
  proof -
    have "cl_offset claim + cl_length claim \<le> 2 ^ 64" using wf(3) s(3) by linarith
    then have "page_state (e_bitmap e) (p * U div U) = CACHE_PAGE_CLEAN"
      using pinned(8) that range_all_state_bytes by (simp only: scope_def f)
    then show ?thesis by simp
  qed
  have bound: "p < e_page_count e" if "scope ?a p" for p
    using claim_page_bound [OF inv(1) ownD(1) [OF inv(2) f(2)] that] .
  have "own_inv e'"
  proof (rule own_change [OF inv(2) f(2) fr(3,4,2,5) claims], goal_cases)
    case 1
    have "map af_id ((e_active_claims e)[i := ?a']) = map af_id (e_active_claims e)"
      using f(1) by (simp add: map_update) (metis list_update_id nth_map)
    then show ?case using ownD(2) [OF inv(2)] by (simp add: fr)
  next
    case (2 x)
    then show ?case using ownD(1) [OF inv(2) f(2)] apart
      by (auto simp: wf_claim_def scope_def tail_def)
  next
    case (5 p)
    then show ?case by (auto simp: fr tail_def)
  next
    case (6 x p)
    then show ?case using ownD(4) [OF inv(2) f(2), of p] by (auto simp: fr tail_def)
  next
    case (7 p)
    then show ?case using ownD(7) [OF inv(2)] by (simp add: fr)
  next
    case (8 x k)
    then show ?case using ownD(8) [OF inv(2) f(2), of k] by (auto simp: fr tail_def)
  next
    case (9 x p)
    then have "scope ?a p" by (auto simp: scope_def)
    then show ?case using ownD(7) [OF inv(2) bound clean] by (simp add: fr)
  qed (simp_all add: fr)
  moreover have "acct_inv e' h"
  proof -
    have fp: "fetch_pins e' r = fetch_pins e r +
        (if cover (e_block_size e) (cl_offset claim) (cl_length claim) r then 1 else 0)" for r
      using length_filter_update [OF f(1), of "\<lambda>a. af_verifying a \<and>
        cover (e_block_size e) (af_offset a) (af_length a) r" ?a'] pinned(4)
      by (simp add: fetch_pins_def fr f)
    have "e_region_pins e' ! r = held_pins e h r + part_pins e r + fetch_pins e' r"
      if "r < length (e_region_pins e)" for r
    proof -
      have "distinct (span e (cl_offset claim) (cl_length claim))" by (simp add: span_def)
      then have "e_region_pins e' ! r = e_region_pins e ! r +
          (if cover (e_block_size e) (cl_offset claim) (cl_length claim) r then 1 else 0)"
        using nth_increment_pins [of "span e (cl_offset claim) (cl_length claim)" r] that
        unfolding pinned(12) by (simp add: pins sp(5))
      then show ?thesis using inv(3) that fp [of r] by (simp add: acct_inv_def)
    qed
    moreover have "e_pinned_regions e' = of_nat (sum_list (e_region_pins e'))"
      using pinned_increment [OF sp(3,4), of "e_pinned_regions e"] inv(3)
      unfolding pinned(12) by (simp add: acct_inv_def pinned(10,11) del: upt_Suc)
    ultimately show ?thesis
      using inv(3) by (simp add: acct_inv_def fr held_pins_def part_pins_def)
  qed
  moreover have "man_inv e'"
  proof -
    have "e_checksum_manifest e \<noteq> kChecksumLoading"
      using inv(4) pinned(6) by (auto simp: man_inv_def)
    then show ?thesis using inv(4) pinned(6,7)
      by (cases "e_checksum_manifest e") (simp_all add: man_inv_def fr)
  qed
  moreover have "sep_inv e' h"
  proof (rule sepI)
    fix x off len p
    assume x: "x \<in> set (e_active_claims e')" "\<not> af_retrying x" "(off, len) \<in> set (fst h)" "tail x p"
    then obtain y where "y \<in> set (e_active_claims e)" "\<not> af_retrying y" "tail y p"
      using f(2) claims by (auto simp: tail_def)
    then show "\<not> cover (e_block_size e') off len (p * U div e_block_size e')"
      using sepD [OF inv(5)] x(3) by (simp add: fr)
  qed
  moreover have "exp_inv e'" using inv(6) f(2) by (auto simp: exp_inv_def fr)
  moreover have "shape e'" by (rule shape_cong [OF inv(1)]) (simp_all add: fr)
  ultimately show ?thesis unfolding entry_inv_def by blast
qed

section \<open>Bytes from the network\<close>

text \<open>
  The sink of a fetch writes the received bytes of its claim into the data file: the pages of
  its tail that \<open>len\<close> bytes cover completely now hold them.
\<close>

definition fetch_write :: "CacheFetchClaim \<Rightarrow> nat \<Rightarrow> CacheEntry \<Rightarrow> CacheEntry" where
  "fetch_write claim len e =
     (case find_active claim e of
        None \<Rightarrow> e
      | Some i \<Rightarrow> e\<lparr>e_data := e_data e \<union>
          set (filter (\<lambda>p. tail (e_active_claims e ! i) p \<and>
                 min (e_size e) (p * U + U) \<le> cl_offset claim + min len (cl_length claim))
            [0..<e_page_count e])\<rparr>)"

lemma data_grows_inv:
  assumes "entry_inv e h" "e_data e \<subseteq> d"
  shows "entry_inv (e\<lparr>e_data := d\<rparr>) h"
proof -
  note inv = entryD [OF assms(1)]
  have "own_inv (e\<lparr>e_data := d\<rparr>)"
    using ownD [OF inv(2)] assms(2)
    by (intro own_invI) (auto simp: wf_claim_cong [of "e\<lparr>e_data := d\<rparr>" e])
  then show ?thesis using inv unfolding entry_inv_def
    by (auto intro: shape_cong acct_cong man_cong sep_cong exp_cong)
qed

lemma fetch_write_inv: "entry_inv e h \<Longrightarrow> entry_inv (fetch_write claim len e) h"
  by (auto simp: fetch_write_def split: option.splits intro: data_grows_inv)

lemma received_fetch_write:
  assumes "entry_inv e h"
  shows "received claim len (fetch_write claim len e)"
proof -
  note inv = entryD [OF assms]
  show ?thesis
    unfolding received_def
  proof (intro allI impI)
    fix i p
    assume i: "find_active claim (fetch_write claim len e) = Some i"
    then have fa: "find_active claim e = Some i"
      by (auto simp: fetch_write_def find_active_def split: option.splits)
    assume p: "tail (e_active_claims (fetch_write claim len e) ! i) p \<and>
      min (e_size (fetch_write claim len e)) (p * U + U) \<le> cl_offset claim + min len (cl_length claim)"
    then have t: "tail (e_active_claims e ! i) p" by (simp add: fetch_write_def fa)
    have "p < e_page_count e"
      using claim_page_bound [OF inv(1) ownD(1) [OF inv(2) find_activeD(2) [OF fa]] tail_scope [OF t]] .
    then show "p \<in> e_data (fetch_write claim len e)" using p by (simp add: fetch_write_def fa)
  qed
qed

end
