(* ===== verification/Cache_Entry_Verify.thy ===== *)
theory Cache_Entry_Verify
  imports Cache_Entry_Fetch
begin

text \<open>
  The remaining operations keep the invariant: the checksum manifest and the verification of
  its parts, eviction, export, retirement and waiting.
\<close>

section \<open>Manifest\<close>

lemma manifest_end_parts:
  "manifest_end sz off parts = Some stop \<Longrightarrow> part \<in> set parts \<Longrightarrow>
   0 < part_size part \<and> off \<le> part_offset part \<and> part_offset part + part_size part \<le> sz"
proof (induction parts arbitrary: off)
  case Nil
  then show ?case by simp
next
  case (Cons x xs)
  then show ?case by (fastforce split: if_splits)
qed

lemma busy_none: "\<forall>s\<in>set xs. \<not> part_busy s \<Longrightarrow> filter part_busy xs = []"
  by (simp add: filter_empty_conv)

lemma begin_checksum_manifest_cases:
  assumes "begin_checksum_manifest ev False e = Inr (b, e')"
  shows "e' = e \<or>
    e_checksum_manifest e = kChecksumUnknown \<and> e' = e\<lparr>e_checksum_manifest := kChecksumUnavailable\<rparr> \<or>
    e_checksum_manifest e = kChecksumUnknown \<and> \<not> list_ex af_verifying (e_active_claims e) \<and>
      e' = e\<lparr>e_checksum_manifest := kChecksumLoading, e_checksum_ops := e_checksum_ops e + 1\<rparr>"
proof -
  have "\<not> e_stale e" using assms by (auto simp: begin_checksum_manifest_def)
  then consider "e_checksum_manifest e \<noteq> kChecksumUnknown"
    | "e_checksum_manifest e = kChecksumUnknown" "e_exported e"
    | "e_checksum_manifest e = kChecksumUnknown" "\<not> e_exported e" "list_ex af_verifying (e_active_claims e)"
    | "e_checksum_manifest e = kChecksumUnknown" "\<not> e_exported e" "\<not> list_ex af_verifying (e_active_claims e)"
    by blast
  then show ?thesis
  proof cases
    case 1
    then have "e' = e" using assms by (simp add: begin_checksum_manifest_def split: if_splits)
    then show ?thesis by (rule disjI1)
  next
    case 2
    then have "e' = e\<lparr>e_checksum_manifest := kChecksumUnavailable\<rparr>"
      using assms \<open>\<not> e_stale e\<close> by (simp add: begin_checksum_manifest_def)
    then show ?thesis using 2(1) by blast
  next
    case 3
    then have "e' = e" using assms \<open>\<not> e_stale e\<close> by (simp add: begin_checksum_manifest_def)
    then show ?thesis by (rule disjI1)
  next
    case 4
    then have "e' = e\<lparr>e_checksum_manifest := kChecksumLoading, e_checksum_ops := e_checksum_ops e + 1\<rparr>"
      using assms \<open>\<not> e_stale e\<close> by (simp add: begin_checksum_manifest_def)
    then show ?thesis using 4 by blast
  qed
qed

lemma begin_checksum_manifest_inv:
  assumes "entry_inv e h" "begin_checksum_manifest ev False e = Inr (b, e')"
  shows "entry_inv e' h"
proof -
  note inv = entryD [OF assms(1)]
  consider "e' = e"
    | "e_checksum_manifest e = kChecksumUnknown" "e' = e\<lparr>e_checksum_manifest := kChecksumUnavailable\<rparr>"
    | "e_checksum_manifest e = kChecksumUnknown" "\<not> list_ex af_verifying (e_active_claims e)"
      "e' = e\<lparr>e_checksum_manifest := kChecksumLoading, e_checksum_ops := e_checksum_ops e + 1\<rparr>"
    using begin_checksum_manifest_cases [OF assms(2)] by blast
  then show ?thesis
  proof cases
    case 1
    then show ?thesis using assms(1) by simp
  next
    case 2
    have "man_inv e'" using inv(4) 2 by (simp add: man_inv_def)
    then show ?thesis using inv 2(2) unfolding entry_inv_def
      by (auto intro: shape_cong own_cong acct_cong sep_cong exp_cong)
  next
    case 3
    have "man_inv e'" using inv(4) 3 by (auto simp: man_inv_def list_ex_iff)
    then show ?thesis using inv 3(3) unfolding entry_inv_def
      by (auto intro: shape_cong own_cong acct_cong sep_cong exp_cong)
  qed
qed

text \<open>Both ends of loading the manifest: no part is being verified before or after.\<close>

lemma manifest_loaded_inv:
  assumes "entry_inv e h" "e_checksum_manifest e = kChecksumLoading"
    and new: "m = kChecksumAvailable \<and> manifest_end (e_size e) 0 parts = Some (e_size e) \<or>
      m = kChecksumUnavailable \<and> parts = []"
  shows "entry_inv (notify_waiters_locked (e\<lparr>e_checksum_parts := parts,
    e_checksum_states := replicate (length parts) kPartUnverified,
    e_checksum_manifest := m, e_checksum_ops := e_checksum_ops e - 1\<rparr>)) h"
proof -
  note inv = entryD [OF assms(1)]
  let ?e = "e\<lparr>e_checksum_parts := parts,
    e_checksum_states := replicate (length parts) kPartUnverified,
    e_checksum_manifest := m, e_checksum_ops := e_checksum_ops e - 1\<rparr>"
  have old: "e_checksum_parts e = []" "e_checksum_states e = []" "e_checksum_ops e = 1"
    "\<not> (\<exists>a\<in>set (e_active_claims e). af_verifying a)"
    using inv(4) assms(2) by (auto simp: man_inv_def)
  have zp: "part_pins ?e r = 0" for r
  proof -
    have "s = kPartUnverified" if "(part, s) \<in> set (zip parts (replicate (length parts) kPartUnverified))"
      for part s using that by (metis in_set_replicate set_zip_rightD)
    then show ?thesis by (auto simp: part_pins_def filter_empty_conv part_busy_def)
  qed
  have "part_pins e r = 0" for r by (simp add: part_pins_def old)
  then have "acct_inv ?e h"
    using inv(3) zp by (simp add: acct_inv_def held_pins_def fetch_pins_def)
  moreover have "man_inv ?e"
    using new old by (auto simp: man_inv_def filter_empty_conv part_busy_def)
  moreover have "exp_inv ?e" using inv(6) by (auto simp: exp_inv_def part_busy_def)
  ultimately have "entry_inv ?e h" using inv unfolding entry_inv_def
    by (auto intro: shape_cong own_cong sep_cong)
  then show ?thesis by simp
qed

lemma finish_checksum_manifest_inv:
  assumes "entry_inv e h" "e_checksum_manifest e = kChecksumLoading"
  shows "entry_inv (finish_checksum_manifest parts e) h"
proof (cases "\<not> e_stale e \<and> parts \<noteq> [] \<and> manifest_end (e_size e) 0 parts = Some (e_size e)")
  case True
  then show ?thesis
    using manifest_loaded_inv [OF assms, of kChecksumAvailable parts]
    by (simp add: finish_checksum_manifest_def Let_def)
next
  case False
  then show ?thesis
    using manifest_loaded_inv [OF assms, of kChecksumUnavailable "[]"]
    by (simp only: finish_checksum_manifest_def Let_def if_False) simp
qed

lemma checksum_manifest_unavailable_inv:
  assumes "entry_inv e h" "e_checksum_manifest e = kChecksumLoading"
  shows "entry_inv (checksum_manifest_unavailable e) h"
  using manifest_loaded_inv [OF assms, of kChecksumUnavailable "[]"]
  by (simp add: checksum_manifest_unavailable_def)

section \<open>Verification of a part\<close>

lemma find_part_Inr:
  "find_part e off stop skip xs n = Inr i \<Longrightarrow>
   n \<le> i \<and> i - n < length xs \<and> snd (xs ! (i - n)) = kPartUnverified \<and>
   range_all_state (e_bitmap e) (part_offset (fst (xs ! (i - n)))) (part_size (fst (xs ! (i - n))))
     CACHE_PAGE_CLEAN"
proof (induction e off stop skip xs n rule: find_part.induct)
  case (1 e off stop skip i)
  then show ?case by simp
next
  case (2 e off stop skip part s rest n)
  have step: ?case if "find_part e off stop skip rest (Suc n) = Inr i"
    and IH: "Suc n \<le> i \<and> i - Suc n < length rest \<and> snd (rest ! (i - Suc n)) = kPartUnverified \<and>
      range_all_state (e_bitmap e) (part_offset (fst (rest ! (i - Suc n))))
        (part_size (fst (rest ! (i - Suc n)))) CACHE_PAGE_CLEAN"
  proof -
    have "i - n = Suc (i - Suc n)" using IH by linarith
    then show ?thesis using IH by simp
  qed
  show ?case
    using "2.prems" "2.IH" step by (auto split: if_splits)
qed

text \<open>The part at an index changes its state, the pins follow.\<close>

lemma part_pins_update:
  assumes "length (e_checksum_states e) = length (e_checksum_parts e)" "i < length (e_checksum_parts e)"
    "e_checksum_parts e' = e_checksum_parts e" "e_block_size e' = e_block_size e"
    "e_checksum_states e' = (e_checksum_states e)[i := s]"
  defines "c \<equiv> cover (e_block_size e) (part_offset (e_checksum_parts e ! i))
    (part_size (e_checksum_parts e ! i))"
  shows "part_pins e' r + (if part_busy (e_checksum_states e ! i) \<and> c r then 1 else 0) =
    part_pins e r + (if part_busy s \<and> c r then 1 else 0)"
proof -
  have z: "zip (e_checksum_parts e) ((e_checksum_states e)[i := s]) =
      (zip (e_checksum_parts e) (e_checksum_states e))[i := (e_checksum_parts e ! i, s)]"
    by (simp add: zip_update [symmetric])
  have i: "i < length (zip (e_checksum_parts e) (e_checksum_states e))" using assms(1,2) by simp
  show ?thesis
    using length_filter_update [OF i, of "\<lambda>(part, s). part_busy s \<and>
      cover (e_block_size e) (part_offset part) (part_size part) r" "(e_checksum_parts e ! i, s)"]
      assms(1,2)
    by (simp add: part_pins_def assms(3-5) z c_def)
qed

lemma part_fits:
  assumes "man_inv e" "i < length (e_checksum_parts e)"
  shows "0 < part_size (e_checksum_parts e ! i)"
    "part_offset (e_checksum_parts e ! i) + part_size (e_checksum_parts e ! i) \<le> e_size e"
    "e_checksum_manifest e = kChecksumAvailable"
    "\<not> (\<exists>a\<in>set (e_active_claims e). af_verifying a)"
proof -
  have av: "e_checksum_manifest e = kChecksumAvailable"
    using assms by (auto simp: man_inv_def)
  then show "e_checksum_manifest e = kChecksumAvailable" "\<not> (\<exists>a\<in>set (e_active_claims e). af_verifying a)"
    using assms(1) by (auto simp: man_inv_def)
  have "manifest_end (e_size e) 0 (e_checksum_parts e) = Some (e_size e)"
    using assms(1) av by (simp add: man_inv_def)
  from manifest_end_parts [OF this nth_mem [OF assms(2)]]
  show "0 < part_size (e_checksum_parts e ! i)"
    "part_offset (e_checksum_parts e ! i) + part_size (e_checksum_parts e ! i) \<le> e_size e" by auto
qed

lemma claim_checksum_cases:
  assumes "claim_checksum off len skip e = Inr (claim, e')"
  obtains (same) "e' = e" "cc_action claim \<noteq> CACHE_CHECKSUM_VERIFY \<or> claim = plain_checksum_claim CACHE_CHECKSUM_VERIFY"
  | (verify) i where "\<not> e_stale e" "\<not> e_exported e" "i < length (e_checksum_parts e)"
      "i < length (e_checksum_states e)" "e_checksum_states e ! i = kPartUnverified"
      "range_all_state (e_bitmap e) (part_offset (e_checksum_parts e ! i))
         (part_size (e_checksum_parts e ! i)) CACHE_PAGE_CLEAN"
      "claim = \<lparr>cc_action = CACHE_CHECKSUM_VERIFY, cc_offset = part_offset (e_checksum_parts e ! i),
         cc_size = part_size (e_checksum_parts e ! i), cc_epoch = e_epoch e, cc_part = i,
         cc_algorithm = part_algorithm (e_checksum_parts e ! i),
         cc_value = part_value (e_checksum_parts e ! i)\<rparr>"
      "e' = (add_pins (part_offset (e_checksum_parts e ! i)) (part_size (e_checksum_parts e ! i)) e)\<lparr>
         e_checksum_states := (e_checksum_states e)[i := kPartVerifying],
         e_checksum_ops := e_checksum_ops e + 1\<rparr>"
proof (cases "e_stale e \<or> e_checksum_manifest e \<noteq> kChecksumAvailable \<or> len = 0 \<or> e_exported e \<or>
    off \<ge> e_size e")
  case True
  then show thesis using assms same
    by (auto simp: claim_checksum_def plain_checksum_claim_def split: if_splits)
next
  case False
  let ?z = "zip (e_checksum_parts e) (e_checksum_states e)"
  show thesis
  proof (cases "find_part e off (off + min len (e_size e - off)) skip ?z 0")
    case (Inl act)
    then have "e' = e" "claim = plain_checksum_claim act"
      using assms False by (simp_all add: claim_checksum_def)
    then show thesis using same by (cases act) (auto simp: plain_checksum_claim_def)
  next
    case (Inr i)
    note fp = find_part_Inr [OF Inr]
    then have i: "i < length (e_checksum_parts e)" "i < length (e_checksum_states e)" by auto
    have "\<not> list_ex (\<lambda>r. e_region_pins e ! r = UINT32_MAX)
        (span e (part_offset (e_checksum_parts e ! i)) (part_size (e_checksum_parts e ! i)))"
      using assms False Inr by (simp add: claim_checksum_def Let_def split: if_splits)
    then show thesis
      using verify [of i] assms False Inr fp i by (simp add: claim_checksum_def Let_def)
  qed
qed

lemma claim_checksum_inv:
  assumes "entry_inv e h" "claim_checksum off len skip e = Inr (claim, e')"
  shows "entry_inv e' h"
  using assms(2)
proof (cases rule: claim_checksum_cases)
  case same
  then show ?thesis using assms(1) by simp
next
  case (verify i)
  note inv = entryD [OF assms(1)]
  let ?part = "e_checksum_parts e ! i"
  note fits = part_fits [OF inv(4) verify(3)]
  note ap = add_pins_acct [OF inv(1) fits(1,2)]
  have fr: "e_header e' = e_header e" "e_bitmap e' = e_bitmap e" "e_size e' = e_size e"
    "e_epoch e' = e_epoch e" "e_block_size e' = e_block_size e" "e_page_count e' = e_page_count e"
    "e_referenced e' = e_referenced e" "e_active_claims e' = e_active_claims e"
    "e_checksum_parts e' = e_checksum_parts e" "e_data e' = e_data e"
    "e_checksum_states e' = (e_checksum_states e)[i := kPartVerifying]"
    "e_checksum_ops e' = e_checksum_ops e + 1" "e_checksum_manifest e' = e_checksum_manifest e"
    "e_region_pins e' = e_region_pins (add_pins (part_offset ?part) (part_size ?part) e)"
    "e_pinned_regions e' = e_pinned_regions (add_pins (part_offset ?part) (part_size ?part) e)"
    unfolding verify(8) by simp_all
  have len: "length (e_checksum_states e) = length (e_checksum_parts e)"
    using inv(4) by (simp add: man_inv_def)
  have "acct_inv e' h"
  proof -
    have pp: "part_pins e' r = part_pins e r +
        (if cover (e_block_size e) (part_offset ?part) (part_size ?part) r then 1 else 0)" for r
      using part_pins_update [OF len verify(3) fr(9,5,11), of r] verify(5)
      by (simp add: part_busy_def)
    have "fetch_pins e' r = fetch_pins e r" "held_pins e' h r = held_pins e h r" for r
      by (simp_all add: fetch_pins_def held_pins_def fr)
    then show ?thesis
      using inv(3) ap(2,3) pp by (simp add: acct_inv_def fr(3,14,15) ap(1))
  qed
  moreover have "man_inv e'"
    using inv(4) fits(3,4) verify(4,5)
      length_filter_update [OF verify(4), of part_busy kPartVerifying]
    by (auto simp: man_inv_def fr part_busy_def)
  moreover have "exp_inv e'" using verify(2) by (simp add: exp_inv_def fr)
  moreover have "shape e'" by (rule shape_cong [OF inv(1)]) (simp_all add: fr ap(1))
  ultimately show ?thesis using inv fr unfolding entry_inv_def by (auto intro: own_cong sep_cong)
qed

text \<open>A claim that \<open>claim_checksum\<close> returned names its part by index and byte range.\<close>

definition part_claim :: "CacheChecksumClaim \<Rightarrow> CacheEntry \<Rightarrow> bool" where
  "part_claim claim e \<longleftrightarrow>
     (cc_part claim < length (e_checksum_parts e) \<longrightarrow>
        cc_offset claim = part_offset (e_checksum_parts e ! cc_part claim) \<and>
        cc_size claim = part_size (e_checksum_parts e ! cc_part claim))"

lemma part_retrying_inv:
  assumes "entry_inv e h" "i < length (e_checksum_states e)" "part_busy (e_checksum_states e ! i)"
  shows "entry_inv (e\<lparr>e_checksum_states := (e_checksum_states e)[i := kPartRetrying]\<rparr>) h"
    (is "entry_inv ?e h")
proof -
  note inv = entryD [OF assms(1)]
  have len: "length (e_checksum_states e) = length (e_checksum_parts e)"
    using inv(4) by (simp add: man_inv_def)
  have i: "i < length (e_checksum_parts e)" using assms(2) len by simp
  have "part_pins ?e r = part_pins e r" for r
    using part_pins_update [OF len i, of ?e kPartRetrying r] assms(3) by (simp add: part_busy_def)
  then have "acct_inv ?e h"
    using inv(3) by (simp add: acct_inv_def held_pins_def fetch_pins_def)
  moreover have "man_inv ?e"
    using inv(4) length_filter_update [OF assms(2), of part_busy kPartRetrying] assms(3)
    by (simp add: man_inv_def part_busy_def)
  moreover have "exp_inv ?e" using inv(6) assms(2,3) nth_mem by (auto simp: exp_inv_def)
  ultimately show ?thesis using inv unfolding entry_inv_def
    by (auto intro: shape_cong own_cong sep_cong)
qed

lemma checksum_mismatch_inv: "entry_inv e h \<Longrightarrow> entry_inv (checksum_mismatch claim e) h"
  using part_retrying_inv [of e h "cc_part claim"] by (simp add: checksum_mismatch_def part_busy_def)

lemma begin_checksum_retry_inv:
  assumes "entry_inv e h" "begin_checksum_retry_locked claim e = Inr (b, e')"
  shows "entry_inv e' h"
proof -
  have "\<not> (e_stale e \<or> cc_epoch claim \<noteq> e_epoch e \<or> cc_part claim \<ge> length (e_checksum_states e) \<or>
      \<not> part_busy (e_checksum_states e ! cc_part claim))"
    using assms(2) by (simp add: begin_checksum_retry_locked_def split: if_splits)
  moreover from this have "e' = (if e_checksum_states e ! cc_part claim = kPartVerifying
      then notify_waiters_locked
        (e\<lparr>e_checksum_states := (e_checksum_states e)[cc_part claim := kPartRetrying]\<rparr>) else e)"
    using assms(2) by (simp add: begin_checksum_retry_locked_def Let_def del: de_Morgan_disj)
  ultimately show ?thesis
    using assms(1) part_retrying_inv [OF assms(1), of "cc_part claim"] by simp
qed

lemma page_states_inv:
  assumes "own_inv e" "e_epoch e' = e_epoch e" "e_block_size e' = e_block_size e"
    "e_size e' = e_size e" "e_page_count e' = e_page_count e"
    "e_active_claims e' = e_active_claims e" "e_data e' = e_data e"
    "\<And>p. page_state (e_bitmap e') p = page_state (e_bitmap e) p \<or>
      page_state (e_bitmap e) p = CACHE_PAGE_CLEAN \<and> page_state (e_bitmap e') p = CACHE_PAGE_MISSING"
  shows "own_inv e'"
proof (rule own_invI, goal_cases)
  case (3 p)
  then show ?case using ownD(3) [OF assms(1), of p] assms(8) [of p] assms(5,6) by auto
next
  case (4 a p)
  then show ?case using ownD(4) [OF assms(1), of a p] assms(8) [of p] assms(6) by auto
next
  case (7 p)
  then show ?case using ownD(7) [OF assms(1), of p] assms(8) [of p] assms(5,7) by auto
qed (use ownD [OF assms(1)] assms(2-7) in \<open>auto simp: wf_claim_cong [of e' e]\<close>)

text \<open>A verified or abandoned part gives its pins back.\<close>

lemma part_done_inv:
  assumes "entry_inv e h" "cc_part claim < length (e_checksum_states e)"
    "part_busy (e_checksum_states e ! cc_part claim)" "\<not> part_busy s" "part_claim claim e"
    "drop_pins (span e (cc_offset claim) (cc_size claim)) e = (rel, e1)"
    "e' = e1\<lparr>e_checksum_states := (e_checksum_states e)[cc_part claim := s], e_bitmap := words,
       e_checksum_ops := e_checksum_ops e - 1\<rparr>"
    "length words = length (e_bitmap e)"
    "\<And>p. page_state words p = page_state (e_bitmap e) p \<or>
      page_state (e_bitmap e) p = CACHE_PAGE_CLEAN \<and> page_state words p = CACHE_PAGE_MISSING"
  shows "entry_inv e' h"
proof -
  note inv = entryD [OF assms(1)]
  let ?i = "cc_part claim"
  have len: "length (e_checksum_states e) = length (e_checksum_parts e)"
    using inv(4) by (simp add: man_inv_def)
  have i: "?i < length (e_checksum_parts e)" using assms(2) len by simp
  have cl: "cc_offset claim = part_offset (e_checksum_parts e ! ?i)"
    "cc_size claim = part_size (e_checksum_parts e ! ?i)" using assms(5) i by (auto simp: part_claim_def)
  note fits = part_fits [OF inv(4) i, folded cl]
  note sp = span_cover [OF inv(1) fits(1,2)]
  have "distinct (span e (cc_offset claim) (cc_size claim))"
    "\<forall>r\<in>set (span e (cc_offset claim) (cc_size claim)). r < length (e_region_pins e)"
    using sp(4) by (auto simp: sp(1) simp del: upt_Suc)
  note ds = drop_pins_spec [OF assms(6) this]
  have fr1: "e_header e1 = e_header e" "e_size e1 = e_size e" "e_epoch e1 = e_epoch e"
    "e_block_size e1 = e_block_size e" "e_page_count e1 = e_page_count e"
    "e_referenced e1 = e_referenced e" "e_active_claims e1 = e_active_claims e"
    "e_checksum_parts e1 = e_checksum_parts e" "e_checksum_manifest e1 = e_checksum_manifest e"
    "e_data e1 = e_data e"
    by (subst ds(1), simp)+
  have fr: "e_header e' = e_header e" "e_size e' = e_size e" "e_epoch e' = e_epoch e"
    "e_block_size e' = e_block_size e" "e_page_count e' = e_page_count e"
    "e_referenced e' = e_referenced e" "e_active_claims e' = e_active_claims e"
    "e_checksum_parts e' = e_checksum_parts e" "e_checksum_manifest e' = e_checksum_manifest e"
    "e_data e' = e_data e" "e_region_pins e' = e_region_pins e1"
    "e_pinned_regions e' = e_pinned_regions e1" "e_bitmap e' = words"
    "e_checksum_states e' = (e_checksum_states e)[?i := s]"
    "e_checksum_ops e' = e_checksum_ops e - 1"
    unfolding assms(7) by (simp_all add: fr1)
  have "acct_inv e' h"
  proof -
    have pp: "part_pins e' r + (if cover (e_block_size e) (cc_offset claim) (cc_size claim) r
        then 1 else 0) = part_pins e r" for r
      using part_pins_update [OF len i fr(8,4,14), of r] assms(3,4) by (simp add: cl)
    have "e_region_pins e1 ! r = held_pins e h r + part_pins e' r + fetch_pins e r"
      if r: "r < length (e_region_pins e)" for r
    proof -
      have "e_region_pins e ! r = held_pins e h r + part_pins e r + fetch_pins e r"
        using inv(3) r by (simp add: acct_inv_def)
      then show ?thesis using pp [of r] ds(3) r sp(5) by (auto split: if_splits)
    qed
    moreover have "fetch_pins e' r = fetch_pins e r" "held_pins e' h r = held_pins e h r" for r
      by (simp_all add: fetch_pins_def held_pins_def fr)
    ultimately show ?thesis using inv(3) ds(2,4) by (simp add: acct_inv_def fr)
  qed
  moreover have "man_inv e'"
    using inv(4) length_filter_update [OF assms(2), of part_busy s] assms(3,4) fits(3,4)
    by (auto simp: man_inv_def fr)
  moreover have "exp_inv e'"
    using inv(6) assms(2,3) nth_mem by (fastforce simp: exp_inv_def fr)
  moreover have "own_inv e'"
    by (rule page_states_inv [OF inv(2) fr(3,4,2,5,7,10)]) (simp only: fr assms(9))
  moreover have "shape e'" by (rule shape_cong [OF inv(1)]) (simp_all add: fr ds(2) assms(8))
  moreover have "sep_inv e' h" by (rule sep_cong [OF inv(5) fr(4,7)])
  ultimately show ?thesis unfolding entry_inv_def by blast
qed

lemma finish_checksum_inv:
  assumes "entry_inv e h" "part_claim claim e"
  shows "entry_inv (finish_checksum claim valid e) h"
proof (cases "cc_part claim \<ge> length (e_checksum_states e) \<or> cc_epoch claim \<noteq> e_epoch e \<or>
    \<not> part_busy (e_checksum_states e ! cc_part claim)")
  case True
  then show ?thesis using assms(1) by (simp only: finish_checksum_def if_True)
next
  case False
  obtain rel e1 where d: "drop_pins (span e (cc_offset claim) (cc_size claim)) e = (rel, e1)" by fastforce
  let ?s = "if valid then kPartVerified else kPartBad"
  have "e_bitmap e1 = e_bitmap e" using d by (auto simp: drop_pins_def split: prod.splits)
  then have "e1\<lparr>e_checksum_states := (e_checksum_states e)[cc_part claim := ?s],
        e_checksum_ops := e_checksum_ops e - 1\<rparr> =
      e1\<lparr>e_checksum_states := (e_checksum_states e)[cc_part claim := ?s], e_bitmap := e_bitmap e,
        e_checksum_ops := e_checksum_ops e - 1\<rparr>" by simp
  moreover have "\<not> part_busy ?s" by (simp add: part_busy_def)
  ultimately show ?thesis
    using part_done_inv [OF assms(1) _ _ _ assms(2) d, of ?s _ "e_bitmap e"] False d
    by (simp add: finish_checksum_def Let_def)
qed

lemma abandon_checksum_inv:
  assumes "entry_inv e h" "part_claim claim e"
  shows "entry_inv (abandon_checksum claim e) h"
proof (cases "cc_part claim \<ge> length (e_checksum_states e) \<or> cc_epoch claim \<noteq> e_epoch e \<or>
    \<not> part_busy (e_checksum_states e ! cc_part claim)")
  case True
  then show ?thesis using assms(1) by (simp only: abandon_checksum_def if_True)
next
  case False
  note inv = entryD [OF assms(1)]
  have i: "cc_part claim < length (e_checksum_parts e)"
    using False inv(4) by (simp add: man_inv_def)
  have cl: "cc_offset claim = part_offset (e_checksum_parts e ! cc_part claim)"
    "cc_size claim = part_size (e_checksum_parts e ! cc_part claim)"
    using assms(2) i by (auto simp: part_claim_def)
  note fits = part_fits [OF inv(4) i, folded cl]
  note sp = span_cover [OF inv(1) fits(1,2)]
  obtain rel e1 where d: "drop_pins (span e (cc_offset claim) (cc_size claim)) e = (rel, e1)" by fastforce
  let ?last = "min (e_page_count e) ((cc_offset claim + cc_size claim - 1) div U + 1)"
  let ?pages = "[cc_offset claim div U ..< ?last]"
  define words where "words = replace_states CACHE_PAGE_CLEAN CACHE_PAGE_MISSING ?pages (e_bitmap e)"
  have bound: "\<forall>p\<in>set ?pages. p < 32 * length (e_bitmap e)"
    using shapeD(4) [OF inv(1)] by auto
  have stop: "min (e_size e) (wrap64 (cc_offset claim + cc_size claim)) = cc_offset claim + cc_size claim"
  proof -
    have "wrap64 (cc_offset claim + cc_size claim) = cc_offset claim + cc_size claim"
      by (rule wrap64_id) (use fits(2) shapeD(3) [OF inv(1)] in linarith)
    then show ?thesis using fits(2) by (simp only: min_absorb2)
  qed
  have regions: "[cc_offset claim div e_block_size e ..<
      min (length (e_region_pins e)) ((cc_offset claim + cc_size claim - 1) div e_block_size e + 1)] =
      span e (cc_offset claim) (cc_size claim)"
    unfolding sp(1) using sp(4) by (simp only: min_absorb2)
  have eq: "abandon_checksum claim e = notify_waiters_locked
      (e1\<lparr>e_checksum_states := (e_checksum_states e)[cc_part claim := kPartUnverified],
          e_bitmap := words, e_checksum_ops := e_checksum_ops e - 1\<rparr>)"
    unfolding abandon_checksum_def if_not_P [OF False] Let_def stop regions d words_def by simp
  have "\<not> part_busy kPartUnverified" by (simp add: part_busy_def)
  moreover have "length words = length (e_bitmap e)" by (simp add: words_def)
  moreover have "page_state words p = page_state (e_bitmap e) p \<or>
      page_state (e_bitmap e) p = CACHE_PAGE_CLEAN \<and> page_state words p = CACHE_PAGE_MISSING" for p
    unfolding words_def page_state_replace [OF bound] by (auto split: if_splits)
  ultimately have "entry_inv (e1\<lparr>e_checksum_states := (e_checksum_states e)[cc_part claim := kPartUnverified],
      e_bitmap := words, e_checksum_ops := e_checksum_ops e - 1\<rparr>) h"
    using False by (intro part_done_inv [OF assms(1) _ _ _ assms(2) d refl]) auto
  then show ?thesis unfolding eq by simp
qed

section \<open>Eviction\<close>

text \<open>The pages the eviction of a region looks at are the pages of its block.\<close>

lemma region_pages:
  assumes "shape e" "region < length (e_region_pins e)"
  shows "p \<in> set [region * e_block_size e div U ..<
      (min (e_size e) (wrap64 (region * e_block_size e + e_block_size e)) - 1) div U + 1] \<longleftrightarrow>
    p < e_page_count e \<and> p * U div e_block_size e = region"
proof -
  let ?b = "e_block_size e"
  note s = shapeD [OF assms(1)]
  have lt: "region * ?b < e_size e" using assms(2) s(6) by simp
  have dvd: "U dvd region * ?b" using s(2) by simp
  have w: "wrap64 (region * ?b + ?b) = region * ?b + ?b"
    by (rule wrap64_id) (use lt s(3) in linarith)
  have pos: "0 < min (e_size e) (region * ?b + ?b)" using lt s(1) by simp
  show ?thesis
    unfolding w using page_start_le [OF dvd, of p] less_page_end [OF pos, of p] s(5) [of p]
      div_eq_iff_between [OF s(1), of "p * U" region] by auto
qed

lemma evict_region_inv:
  assumes "entry_inv e h" "\<not> e_exported e" "region < length (e_region_pins e)"
    "e_region_pins e ! region = 0"
    "\<And>p. p < e_page_count e \<Longrightarrow> p * U div e_block_size e = region \<Longrightarrow>
      page_state (e_bitmap e) p = CACHE_PAGE_CLEAN \<or> page_state (e_bitmap e) p = CACHE_PAGE_MISSING"
    "\<And>p. p \<in> set clean_pages \<longleftrightarrow> p < e_page_count e \<and> p * U div e_block_size e = region \<and>
      page_state (e_bitmap e) p = CACHE_PAGE_CLEAN"
  shows "entry_inv (snd (evict_region env (region * e_block_size e) clean_pages e)) h"
proof -
  note inv = entryD [OF assms(1)]
  note s = shapeD [OF inv(1)]
  have bound: "\<forall>p\<in>set clean_pages. p < 32 * length (e_bitmap e)" using assms(6) s(4) by fastforce
  let ?m = "fill_states CACHE_PAGE_MISSING clean_pages (e_bitmap e)"
  have m: "page_state ?m p = (if p \<in> set clean_pages then CACHE_PAGE_MISSING
      else page_state (e_bitmap e) p)" for p by (rule page_state_fill [OF bound])
  have bm: "\<forall>p\<in>set clean_pages. p < 32 * length ?m" using bound by simp
  have restored: "page_state (fill_states CACHE_PAGE_CLEAN clean_pages ?m) p = page_state (e_bitmap e) p" for p
    unfolding page_state_fill [OF bm] m using assms(6) [of p] by simp
  define d where "d = punch_range (\<lambda>_. True) (region * e_block_size e) (e_block_size e) (e_data e)"
  have gone: "p * U div e_block_size e = region" if "p \<in> e_data e" "p \<notin> d" for p
    using punched_page [OF inv(1), of "region * e_block_size e" p "e_data e" "\<lambda>_. True"] that s(1)
    by (auto simp: d_def)
  have kept: "p \<in> d" if "a \<in> set (e_active_claims e)" "tail a p \<or> af_verifying a \<and> scope a p"
    "p \<in> e_data e" for a p
  proof (rule ccontr)
    assume "p \<notin> d"
    then have r: "p * U div e_block_size e = region" using gone that(3) by blast
    have sc: "scope a p" using that(2) tail_scope by blast
    have "p < e_page_count e" using claim_page_bound [OF inv(1) ownD(1) [OF inv(2) that(1)] sc] .
    then have "\<not> tail a p" using ownD(4) [OF inv(2) that(1), of p] assms(5) [OF _ r] by auto
    then show False
      using that(2) unpinned_region(2) [OF inv(3) assms(3,4) that(1)] scope_cover [OF s(1) sc] r by simp
  qed
  let ?e1 = "e\<lparr>e_bitmap := fill_states CACHE_PAGE_CLEAN clean_pages ?m\<rparr>"
  let ?e2 = "e\<lparr>e_bitmap := ?m, e_data := d\<rparr>"
  have "own_inv ?e1" by (rule page_states_inv [OF inv(2)]) (simp_all add: restored)
  moreover have "own_inv ?e2"
  proof (rule own_invI, goal_cases)
    case (3 p)
    then show ?case using ownD(3) [OF inv(2), of p] by (auto simp: m split: if_splits)
  next
    case (4 a p)
    then show ?case using ownD(4) [OF inv(2), of a p] assms(6) [of p] by (auto simp: m)
  next
    case (7 p)
    then have "page_state (e_bitmap e) p = CACHE_PAGE_CLEAN" "p \<notin> set clean_pages"
      by (auto simp: m split: if_splits)
    then show ?case using ownD(7) [OF inv(2), of p] gone [of p] assms(6) [of p] 7(1) by auto
  next
    case (8 a k)
    then show ?case using ownD(8) [OF inv(2), of a k] kept by simp
  next
    case (9 a p)
    then show ?case using ownD(9) [OF inv(2), of a p] kept by simp
  qed (use ownD [OF inv(2)] in \<open>auto simp: wf_claim_cong [of ?e2 e]\<close>)
  moreover have "exp_inv ?e1" "exp_inv ?e2" using assms(2) by (simp_all add: exp_inv_def)
  ultimately have "entry_inv ?e1 h" "entry_inv ?e2 h"
    using inv unfolding entry_inv_def by (auto intro: shape_cong acct_cong man_cong sep_cong)
  then show ?thesis
    using assms(1) by (auto simp: evict_region_def Let_def d_def split: option.splits)
qed

lemma evict_scan_inv:
  assumes "entry_inv e h" "\<not> e_exported e" "e_referenced e \<noteq> []"
  shows "entry_inv (snd (evict_scan n env e)) h"
  using assms
proof (induction n arbitrary: e)
  case 0
  then show ?case by simp
next
  case (Suc n)
  define region where "region = unat (e_clock_hand e) mod length (e_referenced e)"
  define e1 where "e1 = e\<lparr>e_clock_hand := e_clock_hand e + 1\<rparr>"
  note sh = shapeD [OF entryD(1) [OF Suc.prems(1)]]
  have region: "region < length (e_region_pins e)"
    unfolding region_def sh(7) [symmetric] using Suc.prems(3) by simp
  have inv1: "entry_inv e1 h" unfolding e1_def by (rule inv_frame [OF Suc.prems(1)]) simp_all
  show ?case
  proof (cases "e_referenced e ! region")
    case True
    have "entry_inv (e1\<lparr>e_referenced := (e_referenced e)[region := False]\<rparr>) h"
      by (rule inv_frame [OF inv1]) (simp_all add: e1_def)
    then have "entry_inv (snd (evict_scan n env (e1\<lparr>e_referenced := (e_referenced e)[region := False]\<rparr>))) h"
      using Suc.prems(2,3) by (intro Suc.IH) (simp_all add: e1_def)
    then show ?thesis using True by (simp add: Let_def region_def [symmetric] e1_def)
  next
    case False
    define pages where "pages = [region * e_block_size e div U ..<
      (min (e_size e) (wrap64 (region * e_block_size e + e_block_size e)) - 1) div U + 1]"
    define clean where "clean = filter (\<lambda>p. page_state (e_bitmap e) p = CACHE_PAGE_CLEAN) pages"
    define ok where "ok \<longleftrightarrow> list_all (\<lambda>p. page_state (e_bitmap e) p = CACHE_PAGE_CLEAN \<or>
        page_state (e_bitmap e) p = CACHE_PAGE_MISSING) pages \<and> e_region_pins e ! region = 0"
    have step: "evict_scan (Suc n) env e = (if \<not> ok \<or> clean = [] then evict_scan n env e1
        else evict_region env (region * e_block_size e) clean e1)"
      using False by (simp add: Let_def region_def e1_def pages_def clean_def ok_def del: upt_Suc)
    have pages: "p \<in> set pages \<longleftrightarrow> p < e_page_count e \<and> p * U div e_block_size e = region" for p
      unfolding pages_def by (rule region_pages [OF entryD(1) [OF Suc.prems(1)] region])
    show ?thesis
    proof (cases "\<not> ok \<or> clean = []")
      case True
      have "entry_inv (snd (evict_scan n env e1)) h"
        using inv1 Suc.prems(2,3) by (intro Suc.IH) (simp_all add: e1_def)
      then show ?thesis using True by (simp only: step if_True)
    next
      case False
      have eq: "evict_scan (Suc n) env e = evict_region env (region * e_block_size e1) clean e1"
        unfolding step if_not_P [OF False] by (simp add: e1_def)
      have "entry_inv (snd (evict_region env (region * e_block_size e1) clean e1)) h"
      proof (rule evict_region_inv [OF inv1], goal_cases)
        case (4 p)
        then show ?case using False pages by (auto simp: e1_def ok_def list_all_iff)
      next
        case (5 p)
        show ?case using pages by (auto simp: e1_def clean_def)
      qed (use False region Suc.prems(2) in \<open>simp_all add: e1_def ok_def\<close>)
      then show ?thesis unfolding eq .
    qed
  qed
qed

lemma evict_one_region_inv:
  assumes "entry_inv e h"
  shows "entry_inv (snd (evict_one_region env e)) h"
  using evict_scan_inv [OF assms] assms by (simp add: evict_one_region_def)

section \<open>Export\<close>

lemma range_all_clean:
  assumes "shape e" "range_all_state (e_bitmap e) 0 (min (e_size e) UINT64_MAX) CACHE_PAGE_CLEAN"
    "p < e_page_count e"
  shows "page_state (e_bitmap e) p = CACHE_PAGE_CLEAN"
proof -
  note s = shapeD [OF assms(1)]
  have sz: "min (e_size e) UINT64_MAX = e_size e"
    using s(3) unfolding UINT64_MAX_def by linarith
  have "0 + e_size e \<le> 2 ^ 64" using s(3) by linarith
  note bytes = range_all_state_bytes [OF this, of "e_bitmap e" CACHE_PAGE_CLEAN]
  have "page_state (e_bitmap e) (p * U div U) = CACHE_PAGE_CLEAN"
    using assms(2) bytes s(5) [of p] assms(3) unfolding sz by (metis add_0 le0)
  then show ?thesis by simp
qed

lemma try_export_cases:
  assumes "try_export verify e = (b, e')"
  obtains (no) "\<not> b" "e' = e"
  | (yes) "b" "unlimited (e_config e)" "\<not> e_stale e" "\<not> e_dirty e" "e_active_claims e = []"
      "e_checksum_ops e = 0" "e_pinned_regions e = 0"
      "range_all_state (e_bitmap e) 0 (min (e_size e) UINT64_MAX) CACHE_PAGE_CLEAN"
      "e' = e\<lparr>e_header := (e_header e)\<lparr>m_exported := True\<rparr>, e_eviction_disabled := True\<rparr>"
proof (cases b)
  case False
  then show thesis using assms no unfolding try_export_def by (simp split: if_splits)
next
  case True
  have "\<not> (\<not> unlimited (e_config e) \<or> e_stale e \<or> e_detached e \<or> e_dirty e \<or>
         e_active_claims e \<noteq> [] \<or> e_checksum_ops e \<noteq> 0 \<or> e_pinned_regions e \<noteq> 0 \<or>
         kPartBad \<in> set (e_checksum_states e) \<or>
         \<not> range_all_state (e_bitmap e) 0 (min (e_size e) UINT64_MAX) CACHE_PAGE_CLEAN)" (is "\<not> ?g")
  proof
    assume ?g
    then show False using assms True unfolding try_export_def by (simp only: if_True prod.inject)
  qed
  moreover have "e' = e\<lparr>e_header := (e_header e)\<lparr>m_exported := True\<rparr>, e_eviction_disabled := True\<rparr>"
    using assms True unfolding try_export_def by (simp split: if_splits)
  ultimately show thesis using yes True by blast
qed

lemma try_export_inv:
  assumes "entry_inv e h" "try_export verify e = (b, e')"
  shows "entry_inv e' h"
  using assms(2)
proof (cases rule: try_export_cases)
  case no
  then show ?thesis using assms(1) by simp
next
  case yes
  note inv = entryD [OF assms(1)]
  have "filter part_busy (e_checksum_states e) = []"
    using inv(4) yes(6) by (simp add: man_inv_def)
  then have "exp_inv e'"
    using yes(5,9) range_all_clean [OF inv(1) yes(8)] by (auto simp: exp_inv_def filter_empty_conv)
  then show ?thesis using inv yes(9) unfolding entry_inv_def
    by (auto intro: shape_cong own_cong acct_cong man_cong sep_cong)
qed

section \<open>Waiting\<close>

lemma register_waiter_inv:
  "entry_inv e h \<Longrightarrow> register_waiter ev what e = Inr e' \<Longrightarrow> entry_inv e' h"
  by (auto simp: register_waiter_def split: option.splits if_splits intro: inv_frame)

lemma take_token_inv: "entry_inv e h \<Longrightarrow> take_token e = Some e' \<Longrightarrow> entry_inv e' h"
  by (auto simp: take_token_def split: option.splits nat.splits intro: inv_frame)

lemma end_async_wait_inv: "entry_inv e h \<Longrightarrow> end_async_wait e = Some e' \<Longrightarrow> entry_inv e' h"
  by (auto simp: end_async_wait_def split: if_splits intro: inv_frame)

lemma retire_inv: "entry_inv e h \<Longrightarrow> entry_inv (snd (retire_generation ev wait x e)) h"
  by (auto simp: retire_generation_def Let_def intro: inv_frame)

lemma touch_inv: "entry_inv e h \<Longrightarrow> entry_inv (touch off len e) h"
  by (auto simp: touch_def intro: inv_frame)

lemma disable_eviction_inv: "entry_inv e h \<Longrightarrow> entry_inv (disable_eviction e) h"
  by (auto simp: disable_eviction_def intro: inv_frame)

end
