(* ===== verification/Cache_Entry_Write.thy ===== *)
theory Cache_Entry_Write
  imports Cache_Entry_Verify
begin

text \<open>
  The operations of a writer on a generation, and what the cache does to one it removes: each of
  them keeps the invariant. A generation is written before it is read, so that the publication
  of written bytes meets no fetch and no checksum manifest.
\<close>

section \<open>Growing the mapping\<close>

lemma page_state_append: "p < 32 * length ws \<Longrightarrow> page_state (ws @ vs) p = page_state ws p"
  by (simp add: page_state_def nth_append Let_def div_less_iff_less_mult mult.commute)

lemma own_states_cong:
  assumes "shape e" "own_inv e" "e_epoch e' = e_epoch e" "e_block_size e' = e_block_size e"
    "e_size e' = e_size e" "e_page_count e' = e_page_count e"
    "e_active_claims e' = e_active_claims e" "e_data e' = e_data e"
    "\<And>p. p < e_page_count e \<Longrightarrow> page_state (e_bitmap e') p = page_state (e_bitmap e) p"
  shows "own_inv e'"
proof -
  have t: "page_state (e_bitmap e') p = page_state (e_bitmap e) p"
    if "a \<in> set (e_active_claims e)" "tail a p" for a p
    using claim_page_bound [OF assms(1) ownD(1) [OF assms(2) that(1)] tail_scope [OF that(2)]] assms(9) by blast
  have wf: "wf_claim e' a" if "a \<in> set (e_active_claims e)" for a
    using ownD(1) [OF assms(2) that] wf_claim_cong [OF assms(3-5)] by simp
  show ?thesis
  proof (rule own_invI, unfold assms(7), goal_cases)
    case (4 a p)
    then show ?case using ownD(4) [OF assms(2)] t by metis
  qed (use ownD [OF assms(2)] wf assms(6,8,9) in \<open>metis\<close>)+
qed

lemma ensure_write_capacity_cases:
  assumes "ensure_write_capacity reserve grow stop e = Inr e'"
  obtains k where "e' = e\<lparr>e_bitmap := e_bitmap e @ replicate k 0\<rparr>"
proof (cases "e' = e")
  case True
  then show ?thesis using that [of 0] by simp
next
  case False
  then show ?thesis
    using assms that by (auto simp: ensure_write_capacity_def Let_def ebind_Inr_iff split: if_splits)
qed

lemma grow_inv:
  assumes "entry_inv e h"
  shows "entry_inv (e\<lparr>e_bitmap := e_bitmap e @ replicate k 0\<rparr>) h" (is "entry_inv ?e h")
proof -
  note inv = entryD [OF assms]
  have st: "page_state (e_bitmap ?e) p = page_state (e_bitmap e) p" if "p < e_page_count e" for p
    using page_state_append [of p "e_bitmap e" "replicate k 0"] that shapeD(4) [OF inv(1)] by simp
  have "shape ?e" using inv(1) by (simp add: shape_def)
  moreover have "own_inv ?e" by (rule own_states_cong [OF inv(1,2) _ _ _ _ _ _ st]) simp_all
  moreover have "exp_inv ?e" using inv(6) st unfolding exp_inv_def by simp
  ultimately show ?thesis using inv unfolding entry_inv_def by (auto intro: acct_cong man_cong sep_cong)
qed

section \<open>Publication of written bytes\<close>

text \<open>
  The writer has stored the bytes it publishes: \<open>store_write\<close> is their arrival in the data
  file, of which the model counts the pages of the published object.
\<close>

definition store_write :: "nat \<Rightarrow> nat \<Rightarrow> CacheEntry \<Rightarrow> CacheEntry" where
  "store_write offset written_end e =
     e\<lparr>e_data := e_data e \<union> {offset div kCacheBitmapUnit ..< Suc ((written_end - 1) div kCacheBitmapUnit)}\<rparr>"

text \<open>
  What a writer owes when it publishes \<open>len\<close> more bytes: it is alone with the generation, whose
  size is what has been written, and it has prepared the range (\<open>prepare_write\<close> refuses an
  exported generation and a range that overflows, and enlarges the mapping).
\<close>

definition next_write :: "nat \<Rightarrow> nat \<Rightarrow> CacheEntry \<Rightarrow> bool" where
  "next_write offset len e \<longleftrightarrow>
     e_active_claims e = [] \<and> e_checksum_manifest e \<noteq> kChecksumAvailable \<and> \<not> e_exported e \<and>
     e_size e = m_written_end (e_header e) \<and> offset + len + e_block_size e < 2 ^ 64 \<and>
     (offset + len - 1) div kCacheBitmapUnit < 32 * length (e_bitmap e)"

lemma publish_dirty_cases:
  assumes "publish_dirty offset len written_end e = Inr e'"
  obtains "\<not> e_stale e" "e_dirty e" "offset = m_written_end (e_header e)" "0 < len"
    "written_end = wrap64 (offset + len)"
    "e' = e\<lparr>e_page_count := (written_end - 1) div U + 1,
        e_referenced := pad_to ((written_end - 1) div e_block_size e + 1) False (e_referenced e),
        e_region_pins := pad_to (if length (e_referenced e) < (written_end - 1) div e_block_size e + 1
          then (written_end - 1) div e_block_size e + 1 else 0) 0 (e_region_pins e),
        e_bitmap := fill_states CACHE_PAGE_CLEAN
          [offset div U ..< Suc ((written_end - 1) div U)] (e_bitmap e),
        e_header := (e_header e)\<lparr>m_object_size := written_end, m_written_end := written_end\<rparr>,
        e_size := written_end\<rparr>"
proof (cases "e_stale e \<or> \<not> e_dirty e")
  case True
  then show ?thesis using assms by (simp add: publish_dirty_def)
next
  case False
  show ?thesis
    by (rule that) (use assms False in \<open>auto simp: publish_dirty_def Let_def split: if_splits\<close>)
qed

lemma pad_to_simps [simp]:
  "length (pad_to n x xs) = max n (length xs)" "set (pad_to n x xs) \<subseteq> insert x (set xs)"
  "i < length xs \<Longrightarrow> pad_to n x xs ! i = xs ! i"
  "length xs \<le> i \<Longrightarrow> i < n \<Longrightarrow> pad_to n x xs ! i = x"
  "sum_list (pad_to n (0 :: nat) ys) = sum_list ys"
  by (auto simp: pad_to_def nth_append sum_list_replicate)

text \<open>The generation after a publication, field by field.\<close>

lemma next_write_idle:
  assumes "entry_inv e h" "next_write offset len e"
  shows "e_active_claims e = []" "e_checksum_parts e = []" "e_checksum_states e = []" "\<not> e_exported e"
  using assms entryD(4) [OF assms(1)] by (auto simp: next_write_def man_inv_def)

lemma publish_dirty_fields:
  assumes "entry_inv e h" "next_write offset len e"
    and "publish_dirty offset len written_end (store_write offset written_end e) = Inr e'"
  shows "offset = e_size e" "0 < len" "written_end = e_size e + len"
    and "e_block_size e' = e_block_size e" "e_size e' = written_end" "e_active_claims e' = []"
    "e_checksum_parts e' = []" "e_checksum_states e' = []" "e_checksum_ops e' = e_checksum_ops e"
    "e_checksum_manifest e' = e_checksum_manifest e" "e_pinned_regions e' = e_pinned_regions e"
    "e_exported e' = e_exported e" "e_stale e' = e_stale e"
    and "e_page_count e' = (written_end - 1) div U + 1" "length (e_bitmap e') = length (e_bitmap e)"
    and "length (e_region_pins e') = (written_end - 1) div e_block_size e + 1"
    "length (e_referenced e') = (written_end - 1) div e_block_size e + 1"
    "sum_list (e_region_pins e') = sum_list (e_region_pins e)"
    and "r < (written_end - 1) div e_block_size e + 1 \<Longrightarrow> e_region_pins e' ! r =
      (if r < length (e_region_pins e) then e_region_pins e ! r else 0)"
    and "page_state (e_bitmap e') p =
      (if p \<in> set [offset div U ..< Suc ((written_end - 1) div U)] then CACHE_PAGE_CLEAN
       else page_state (e_bitmap e) p)"
    and "e_data e' = e_data e \<union> set [offset div U ..< Suc ((written_end - 1) div U)]"
proof -
  note inv = entryD [OF assms(1)]
  note sh = shapeD [OF inv(1)] and idle = next_write_idle [OF assms(1,2)]
  let ?b = "e_block_size e"
  have nw: "e_size e = m_written_end (e_header e)" "offset + len + ?b < 2 ^ 64"
    "(offset + len - 1) div U < 32 * length (e_bitmap e)"
    using assms(2) by (simp_all add: next_write_def)
  obtain len: "offset = e_size e" "0 < len" and we: "written_end = wrap64 (offset + len)"
    and st: "\<not> e_stale e"
    and e': "e' = (store_write offset written_end e)\<lparr>e_page_count := (written_end - 1) div U + 1,
        e_referenced := pad_to ((written_end - 1) div ?b + 1) False (e_referenced e),
        e_region_pins := pad_to (if length (e_referenced e) < (written_end - 1) div ?b + 1
          then (written_end - 1) div ?b + 1 else 0) 0 (e_region_pins e),
        e_bitmap := fill_states CACHE_PAGE_CLEAN
          [offset div U ..< Suc ((written_end - 1) div U)] (e_bitmap e),
        e_header := (e_header e)\<lparr>m_object_size := written_end, m_written_end := written_end\<rparr>,
        e_size := written_end\<rparr>"
    using assms(3) by (rule publish_dirty_cases) (use nw(1) in \<open>simp add: store_write_def\<close>)
  show w: "written_end = e_size e + len" using we nw(2) len(1) by simp
  show "offset = e_size e" "0 < len" by (fact len)+
  have regions: "length (e_region_pins e) \<le> (written_end - 1) div ?b + 1"
    using inv(1) w div_le_mono [of "e_size e - 1" "written_end - 1" ?b] by (auto simp: shape_def)
  show "e_block_size e' = ?b" "e_size e' = written_end" "e_active_claims e' = []"
    "e_checksum_parts e' = []" "e_checksum_states e' = []" "e_checksum_ops e' = e_checksum_ops e"
    "e_checksum_manifest e' = e_checksum_manifest e" "e_pinned_regions e' = e_pinned_regions e"
    "e_exported e' = e_exported e" "e_stale e' = e_stale e"
    "e_page_count e' = (written_end - 1) div U + 1" "length (e_bitmap e') = length (e_bitmap e)"
    by (simp_all add: e' store_write_def idle)
  show "length (e_region_pins e') = (written_end - 1) div ?b + 1"
    "length (e_referenced e') = (written_end - 1) div ?b + 1"
    "sum_list (e_region_pins e') = sum_list (e_region_pins e)"
    using regions sh(7) by (simp_all add: e')
  show "e_region_pins e' ! r = (if r < length (e_region_pins e) then e_region_pins e ! r else 0)"
    if "r < (written_end - 1) div ?b + 1"
    using regions sh(7) that by (simp add: e')
  have "\<forall>p\<in>set [offset div U ..< Suc ((written_end - 1) div U)]. p < 32 * length (e_bitmap e)"
    using nw(3) w len(1) by auto
  from page_state_fill [OF this]
  show "page_state (e_bitmap e') p =
      (if p \<in> set [offset div U ..< Suc ((written_end - 1) div U)] then CACHE_PAGE_CLEAN
       else page_state (e_bitmap e) p)" by (simp add: e')
  show "e_data e' = e_data e \<union> set [offset div U ..< Suc ((written_end - 1) div U)]"
    by (simp add: e' store_write_def del: upt_Suc)
qed

lemma publish_dirty_own:
  assumes "entry_inv e h" "next_write offset len e"
    and "publish_dirty offset len written_end (store_write offset written_end e) = Inr e'"
  shows "own_inv e'"
proof -
  note inv = entryD [OF assms(1)] and f = publish_dirty_fields [OF assms]
  define pages where "pages = [offset div U ..< Suc ((written_end - 1) div U)]"
  note st = f(20) [folded pages_def]
  have old: "p < e_page_count e" if "p < e_page_count e'" "p \<notin> set pages" for p
  proof -
    have "p < offset div U" using that by (auto simp: f(14) pages_def)
    then have "Suc p * U \<le> offset" using less_eq_div_iff_mult_less_eq [of U "Suc p" offset] by simp
    then show ?thesis using shapeD(5) [OF inv(1), of p] f(1) U_pos by simp
  qed
  show ?thesis
  proof (rule own_invI, unfold f(6), goal_cases)
    case (3 p)
    then have "p \<notin> set pages" "page_state (e_bitmap e) p = CACHE_PAGE_READ_PENDING"
      using st [of p] by (simp_all split: if_splits)
    with ownD(3) [OF inv(2) old [OF 3(1)]] show ?case
      unfolding next_write_idle(1) [OF assms(1,2)] by blast
  next
    case (7 p)
    then have "page_state (e_bitmap e) p = CACHE_PAGE_CLEAN" if "p \<notin> set pages" using st [of p] that by simp
    with ownD(7) [OF inv(2) old [OF 7(1)]] show ?case unfolding f(21) pages_def by blast
  qed simp_all
qed

lemma publish_dirty_acct:
  assumes "entry_inv e h" "next_write offset len e"
    and "publish_dirty offset len written_end (store_write offset written_end e) = Inr e'"
  shows "acct_inv e' h"
proof -
  note inv = entryD [OF assms(1)] and f = publish_dirty_fields [OF assms]
  have held: "held_pins e' h r = held_pins e h r" "part_pins e' r = 0" "fetch_pins e' r = 0"
    "part_pins e r = 0" "fetch_pins e r = 0" for r
    by (simp_all add: held_pins_def part_pins_def fetch_pins_def f next_write_idle [OF assms(1,2)])
  have in_object: "0 < len \<and> off + len \<le> e_size e" if "(off, len) \<in> set (all_pins h)" for off len
    using inv(3) that unfolding acct_inv_def by blast
  have outside: "held_pins e h r = 0" if "\<not> r < length (e_region_pins e)" for r
  proof -
    have "e_size e \<le> r * e_block_size e" using that shapeD(6) [OF inv(1)] by (simp add: not_less)
    then have "\<not> cover (e_block_size e) off len r" if "(off, len) \<in> set (all_pins h)" for off len
      using in_object [OF that] by (simp add: cover_def)
    then show ?thesis unfolding held_pins_def length_0_conv filter_empty_conv by blast
  qed
  have counts: "e_region_pins e' ! r = held_pins e h r"
    if "r < (written_end - 1) div e_block_size e + 1" for r
    using f(19) [OF that] outside [of r] inv(3) by (simp add: acct_inv_def held)
  show ?thesis
    unfolding acct_inv_def f(5,11,16,18) held add_0_right
  proof (intro conjI allI impI ballI, goal_cases)
    case (1 x)
    then show ?case using in_object [of "fst x" "snd x"] f(3) by (simp add: split_beta)
  next
    case (2 r)
    then show ?case using counts by simp
  next
    case 3
    then show ?case using inv(3) by (simp add: acct_inv_def)
  qed
qed

lemma publish_dirty_inv:
  assumes "entry_inv e h" "next_write offset len e"
    and "publish_dirty offset len written_end (store_write offset written_end e) = Inr e'"
  shows "entry_inv e' h"
proof -
  note inv = entryD [OF assms(1)] and f = publish_dirty_fields [OF assms]
    and idle = next_write_idle [OF assms(1,2)]
  have "written_end \<noteq> 0" using f(2,3) by simp
  moreover have "written_end + e_block_size e < 2 ^ 64"
    "(written_end - 1) div U + 1 \<le> 32 * length (e_bitmap e)"
    using assms(2) unfolding next_write_def f(1,3) by linarith+
  ultimately have "shape e'"
    using shapeD(1,2) [OF inv(1)] by (simp only: shape_def f(4,5,14-17) if_False simp_thms)
  moreover have "man_inv e'" using inv(4) assms(2) by (simp add: man_inv_def f idle next_write_def)
  moreover have "sep_inv e' h" by (simp add: sep_inv_def f(6))
  moreover have "exp_inv e'" using idle(4) by (simp add: exp_inv_def f(12))
  ultimately show ?thesis
    using publish_dirty_own [OF assms] publish_dirty_acct [OF assms] by (simp add: entry_inv_def)
qed

section \<open>The other operations\<close>

lemma begin_write_cases:
  assumes "begin_write (Inr ()) (\<lambda>e. e) e = Inr e'"
  obtains "\<not> e_stale e" "e' = e \<or> e' = e\<lparr>e_dirty_marker := True,
    e_header := (e_header e)\<lparr>m_dirty := True, m_write_phase := 1\<rparr>\<rparr>"
  using assms by (auto simp: begin_write_def Let_def split: if_splits)

text \<open>Operations that only touch what concerns the writer: its marker, the header and the flags.\<close>

definition write_frame :: "CacheEntry \<Rightarrow> CacheEntry \<Rightarrow> bool" where
  "write_frame e e' \<longleftrightarrow>
     e_exported e' = e_exported e \<and> e_bitmap e' = e_bitmap e \<and> e_size e' = e_size e \<and>
     e_epoch e' = e_epoch e \<and> e_block_size e' = e_block_size e \<and> e_page_count e' = e_page_count e \<and>
     e_referenced e' = e_referenced e \<and> e_region_pins e' = e_region_pins e \<and>
     e_active_claims e' = e_active_claims e \<and> e_checksum_parts e' = e_checksum_parts e \<and>
     e_checksum_states e' = e_checksum_states e \<and> e_checksum_ops e' = e_checksum_ops e \<and>
     e_pinned_regions e' = e_pinned_regions e \<and> e_checksum_manifest e' = e_checksum_manifest e \<and>
     e_data e' = e_data e \<and> (e_stale e \<longrightarrow> e_stale e')"

lemma write_frame_inv: "write_frame e e' \<Longrightarrow> entry_inv e h \<Longrightarrow> entry_inv e' h"
  by (rule inv_frame) (auto simp: write_frame_def)

lemma commit_write_cases:
  obtains "snd (commit_write sync identity e) = e"
  | header marker where "snd (commit_write sync identity e) = e\<lparr>e_header := header,
      e_eviction_disabled := False, e_dirty_marker := marker\<rparr>" "m_exported header = e_exported e"
proof (cases "length (id_etag identity) > kCacheEtagCapacity \<or>
    length (id_version_id identity) > kCacheVersionCapacity \<or>
    id_key identity \<noteq> e_key e \<or> id_size identity \<noteq> e_size e")
  case True
  then show ?thesis using that(1) by (auto simp: commit_write_def)
next
  case False
  show ?thesis
    by (rule that(2) [of "sync \<noteq> 0 \<and> e_dirty_marker e" "e_header (snd (commit_write sync identity e))"])
      (use False in \<open>simp_all add: commit_write_def Let_def\<close>)
qed

lemma write_frames:
  shows "begin_write (Inr ()) (\<lambda>e. e) e = Inr e' \<Longrightarrow> write_frame e e' \<and> e_stale e' = e_stale e"
    and "write_frame e (e\<lparr>e_reserved_units := units\<rparr>)"
    and "set_upload_id u e = Inr e' \<Longrightarrow> write_frame e e' \<and> e_stale e' = e_stale e"
    and "write_frame e (isolate_write e) \<and> e_stale (isolate_write e) = e_stale e"
    and "write_frame e (discard_write e)"
    and "write_frame e (snd (commit_write sync identity e)) \<and>
      e_stale (snd (commit_write sync identity e)) = e_stale e"
    and "write_frame e (detach e) \<and> e_stale (detach e) = e_stale e"
    and "write_frame e (e\<lparr>e_detached := True, e_stale := True\<rparr>)"
proof -
  show "write_frame e e' \<and> e_stale e' = e_stale e" if "begin_write (Inr ()) (\<lambda>e. e) e = Inr e'"
    using that by (rule begin_write_cases) (auto simp: write_frame_def)
  show "write_frame e e' \<and> e_stale e' = e_stale e" if "set_upload_id u e = Inr e'"
    using that by (auto simp: set_upload_id_def write_frame_def split: if_splits)
  show "write_frame e (snd (commit_write sync identity e)) \<and>
      e_stale (snd (commit_write sync identity e)) = e_stale e"
    by (rule commit_write_cases [of sync identity e]) (auto simp: write_frame_def)
qed (simp_all add: write_frame_def isolate_write_def discard_write_def detach_def)

end
