(* ===== verification/Cache_Entry_Steps.thy ===== *)
theory Cache_Entry_Steps
  imports Cache_Entry_Write
begin

text \<open>
  A cached generation as a state machine: its operations, those of readers, of a writer and of
  the cache that removes it, as labelled steps on the entry and the pins held on it, what can be reached from a freshly opened generation, and the
  properties of all reachable states.
\<close>

section \<open>Opening a generation\<close>

lemma recover_block_spec:
  assumes "shape e" "block < length (e_region_pins e)"
  shows "\<exists>words d. recover_block pm hole block e = e\<lparr>e_bitmap := words, e_data := d\<rparr> \<and>
    length words = length (e_bitmap e) \<and>
    (\<forall>p<e_page_count e. page_state words p =
      (if page_state (e_bitmap e) p = CACHE_PAGE_READ_PENDING \<and> p * U div e_block_size e = block
       then CACHE_PAGE_MISSING else page_state (e_bitmap e) p)) \<and>
    (\<forall>p<e_page_count e. p \<in> e_data e \<longrightarrow> p \<notin> d \<longrightarrow> page_state words p = CACHE_PAGE_MISSING)"
proof -
  let ?b = "e_block_size e"
  let ?off = "block * ?b"
  note s = shapeD [OF assms(1)]
  have lt: "?off < e_size e" using assms(2) s(6) by simp
  define pages where "pages = block_pages e ?off"
  define words where "words = replace_states CACHE_PAGE_READ_PENDING CACHE_PAGE_MISSING pages (e_bitmap e)"
  define all_missing where "all_missing \<longleftrightarrow>
    list_ex (\<lambda>p. page_state (e_bitmap e) p = CACHE_PAGE_READ_PENDING) pages \<and>
    list_all (\<lambda>p. page_state words p = CACHE_PAGE_MISSING) pages"
  define d where "d = (if pm \<and> all_missing \<and> \<not> e_exported e then punch_range hole ?off ?b (e_data e)
    else e_data e)"
  have pages: "set pages = {p. p < e_page_count e \<and> p * U div ?b = block}"
    unfolding pages_def using set_block_pages [OF assms(1) lt] s(1) by simp
  have bound: "\<forall>p\<in>set pages. p < 32 * length (e_bitmap e)"
    unfolding pages_def by (rule block_pages_bound [OF assms(1) lt])
  have "recover_block pm hole block e = e\<lparr>e_bitmap := words, e_data := d\<rparr>"
    by (simp add: recover_block_def Let_def pages_def words_def all_missing_def d_def)
  moreover have "length words = length (e_bitmap e)" by (simp add: words_def)
  moreover have "page_state words p =
      (if page_state (e_bitmap e) p = CACHE_PAGE_READ_PENDING \<and> p * U div ?b = block
       then CACHE_PAGE_MISSING else page_state (e_bitmap e) p)" if "p < e_page_count e" for p
    unfolding words_def page_state_replace [OF bound] pages using that by auto
  moreover have "page_state words p = CACHE_PAGE_MISSING"
    if p: "p < e_page_count e" "p \<in> e_data e" "p \<notin> d" for p
  proof -
    have am: "all_missing" using p(2,3) by (auto simp: d_def split: if_splits)
    have "p * U div ?b = ?off div ?b"
      using punched_page [OF assms(1), of ?off p "e_data e" hole] p(2,3)
      by (auto simp: d_def split: if_splits)
    then have "p \<in> set pages" using p(1) s(1) by (simp add: pages)
    then show ?thesis using am by (auto simp: all_missing_def list_all_iff)
  qed
  ultimately show ?thesis by blast
qed

lemma fold_recover_block:
  assumes "shape e" "\<forall>b\<in>set bs. b < length (e_region_pins e)"
    "\<forall>p<e_page_count e. page_state (e_bitmap e) p = CACHE_PAGE_CLEAN \<longrightarrow> p \<in> e_data e"
  shows "\<exists>words d. fold (recover_block pm hole) bs e = e\<lparr>e_bitmap := words, e_data := d\<rparr> \<and>
    length words = length (e_bitmap e) \<and>
    (\<forall>p<e_page_count e. page_state words p =
      (if page_state (e_bitmap e) p = CACHE_PAGE_READ_PENDING \<and> p * U div e_block_size e \<in> set bs
       then CACHE_PAGE_MISSING else page_state (e_bitmap e) p)) \<and>
    (\<forall>p<e_page_count e. page_state words p = CACHE_PAGE_CLEAN \<longrightarrow> p \<in> d)"
  using assms
proof (induction bs arbitrary: e)
  case Nil
  then show ?case by (intro exI [of _ "e_bitmap e"] exI [of _ "e_data e"]) simp
next
  case (Cons b bs)
  have b: "b < length (e_region_pins e)" using Cons.prems(2) by simp
  obtain w1 d1 where r: "recover_block pm hole b e = e\<lparr>e_bitmap := w1, e_data := d1\<rparr>"
    and len: "length w1 = length (e_bitmap e)"
    and st: "\<forall>p<e_page_count e. page_state w1 p =
      (if page_state (e_bitmap e) p = CACHE_PAGE_READ_PENDING \<and> p * U div e_block_size e = b
       then CACHE_PAGE_MISSING else page_state (e_bitmap e) p)"
    and gone: "\<forall>p<e_page_count e. p \<in> e_data e \<longrightarrow> p \<notin> d1 \<longrightarrow> page_state w1 p = CACHE_PAGE_MISSING"
    using recover_block_spec [OF Cons.prems(1) b, of pm hole] by (elim exE conjE) (rule that)
  define e1 where "e1 = e\<lparr>e_bitmap := w1, e_data := d1\<rparr>"
  have sh1: "shape e1" by (rule shape_cong [OF Cons.prems(1)]) (simp_all add: e1_def len)
  have "p \<in> d1" if "p < e_page_count e" "page_state w1 p = CACHE_PAGE_CLEAN" for p
  proof -
    have "page_state (e_bitmap e) p = CACHE_PAGE_CLEAN" using st that by (auto split: if_splits)
    then have "p \<in> e_data e" using Cons.prems(3) that(1) by blast
    then show ?thesis using gone that by auto
  qed
  then obtain words d where w: "fold (recover_block pm hole) bs e1 = e1\<lparr>e_bitmap := words, e_data := d\<rparr>"
    "length words = length w1"
    "\<forall>p<e_page_count e. page_state words p =
      (if page_state w1 p = CACHE_PAGE_READ_PENDING \<and> p * U div e_block_size e \<in> set bs
       then CACHE_PAGE_MISSING else page_state w1 p)"
    "\<forall>p<e_page_count e. page_state words p = CACHE_PAGE_CLEAN \<longrightarrow> p \<in> d"
    using Cons.IH [OF sh1] Cons.prems(2) by (auto simp: e1_def)
  have "page_state words p =
      (if page_state (e_bitmap e) p = CACHE_PAGE_READ_PENDING \<and> p * U div e_block_size e \<in> set (b # bs)
       then CACHE_PAGE_MISSING else page_state (e_bitmap e) p)" if "p < e_page_count e" for p
    using w(3) [rule_format, OF that] st [rule_format, OF that] by (simp split: if_splits)
  moreover have "fold (recover_block pm hole) (b # bs) e = e\<lparr>e_bitmap := words, e_data := d\<rparr>"
    using w(1) r by (simp add: e1_def)
  ultimately show ?case
    using w(2,4) len by (intro exI [of _ words] exI [of _ d]) simp
qed

text \<open>
  What the cache passes to the constructor: a block size of whole pages, a mapping large
  enough for the object, clean pages that are in the data file, all of them if exported.
\<close>

definition opens_ok :: "CacheConfig \<Rightarrow> CacheMetaHeader \<Rightarrow> u64 list \<Rightarrow> nat \<Rightarrow> nat set \<Rightarrow> bool" where
  "opens_ok config header words sz d \<longleftrightarrow>
     0 < cfg_block_size config \<and> U dvd cfg_block_size config \<and> sz + cfg_block_size config < 2 ^ 64 \<and>
     (if sz = 0 then 0 else (sz - 1) div U + 1) \<le> 32 * length words \<and>
     (\<forall>p\<in>set [0..<if sz = 0 then 0 else (sz - 1) div U + 1].
        (page_state words p = CACHE_PAGE_CLEAN \<longrightarrow> p \<in> d) \<and>
        (m_exported header \<longrightarrow> page_state words p = CACHE_PAGE_CLEAN))"

lemma CacheEntry_new_inv:
  assumes "opens_ok config header words sz d"
  shows "entry_inv (CacheEntry_new config key header words dm sz d pm hole) ([], [])"
    and "\<forall>p<e_page_count (CacheEntry_new config key header words dm sz d pm hole).
      page_state (e_bitmap (CacheEntry_new config key header words dm sz d pm hole)) p \<noteq>
        CACHE_PAGE_READ_PENDING"
proof -
  define regions where "regions = (if sz = 0 then 0 else (sz - 1) div cfg_block_size config + 1)"
  define pc where "pc = (if sz = 0 then 0 else (sz - 1) div U + 1)"
  define e where "e = \<lparr>e_config = config, e_key = key, e_header = header, e_bitmap = words,
     e_dirty_marker = dm, e_size = sz, e_epoch = m_generation_epoch header,
     e_block_size = cfg_block_size config, e_page_count = pc,
     e_wait_event = None, e_waiters = 0,
     e_referenced = replicate regions False, e_region_pins = replicate regions 0,
     e_active_claims = [], e_reserved_units = [], e_checksum_parts = [],
     e_checksum_states = [], e_next_claim_id = 1, e_clock_hand = 0,
     e_checksum_ops = 0, e_pinned_regions = 0,
     e_checksum_manifest = kChecksumUnknown,
     e_eviction_disabled = m_exported header, e_detached = False, e_stale = False,
     e_data = d\<rparr>"
  have new: "CacheEntry_new config key header words dm sz d pm hole =
      fold (recover_block pm hole) [0..<regions] e"
    by (simp add: CacheEntry_new_def Let_def e_def regions_def pc_def)
  have sel: "e_size e = sz" "e_block_size e = cfg_block_size config" "e_page_count e = pc"
    "e_bitmap e = words" "e_region_pins e = replicate regions 0" "e_data e = d"
    "e_active_claims e = []" "e_checksum_parts e = []" "e_checksum_states e = []"
    "e_checksum_ops e = 0" "e_pinned_regions e = 0" "e_checksum_manifest e = kChecksumUnknown"
    "e_header e = header" "e_referenced e = replicate regions False"
    by (simp_all add: e_def)
  have ok: "0 < cfg_block_size config" "U dvd cfg_block_size config"
    "sz + cfg_block_size config < 2 ^ 64" "pc \<le> 32 * length words"
    "p < pc \<Longrightarrow> page_state words p = CACHE_PAGE_CLEAN \<Longrightarrow> p \<in> d"
    "p < pc \<Longrightarrow> m_exported header \<Longrightarrow> page_state words p = CACHE_PAGE_CLEAN" for p
    using assms unfolding opens_ok_def pc_def [symmetric] by auto
  have sh: "shape e" using ok(1-4) by (simp add: shape_def sel pc_def regions_def)
  obtain w d' where e': "fold (recover_block pm hole) [0..<regions] e = e\<lparr>e_bitmap := w, e_data := d'\<rparr>"
    and w: "length w = length words"
      "\<forall>p<pc. page_state w p = (if page_state words p = CACHE_PAGE_READ_PENDING \<and>
         p * U div cfg_block_size config \<in> set [0..<regions] then CACHE_PAGE_MISSING
         else page_state words p)"
      "\<forall>p<pc. page_state w p = CACHE_PAGE_CLEAN \<longrightarrow> p \<in> d'"
    using fold_recover_block [OF sh, of "[0..<regions]" pm hole] ok(5) by (auto simp: sel)
  have reg: "p * U div cfg_block_size config < regions" if "p < pc" for p
  proof -
    have "p * U < sz" using shapeD(5) [OF sh, of p] that by (simp add: sel)
    then have "p * U div cfg_block_size config * cfg_block_size config < sz"
      using div_times_less_eq_dividend le_less_trans by blast
    then show ?thesis using shapeD(6) [OF sh, of "p * U div cfg_block_size config"] by (simp add: sel)
  qed
  have np: "page_state w p \<noteq> CACHE_PAGE_READ_PENDING" if "p < pc" for p
    using w(2) [rule_format, OF that] reg [OF that] by (simp split: if_splits)
  let ?e = "e\<lparr>e_bitmap := w, e_data := d'\<rparr>"
  have "own_inv ?e"
    by (rule own_invI) (use np w(3) in \<open>auto simp: sel\<close>)
  moreover have "acct_inv ?e ([], [])"
    by (simp add: acct_inv_def sel held_pins_def part_pins_def fetch_pins_def sum_list_replicate)
  moreover have "man_inv ?e" by (simp add: man_inv_def sel)
  moreover have "exp_inv ?e" using w(2) ok(6) by (auto simp: exp_inv_def sel)
  moreover have "shape ?e" by (rule shape_cong [OF sh]) (simp_all add: sel w(1))
  moreover have "sep_inv ?e ([], [])" by (simp add: sep_inv_def)
  ultimately show "entry_inv (CacheEntry_new config key header words dm sz d pm hole) ([], [])"
    unfolding new e' entry_inv_def by blast
  show "\<forall>p<e_page_count (CacheEntry_new config key header words dm sz d pm hole).
      page_state (e_bitmap (CacheEntry_new config key header words dm sz d pm hole)) p \<noteq>
        CACHE_PAGE_READ_PENDING"
    unfolding new e' using np by (simp add: sel)
qed

section \<open>Steps\<close>

datatype entry_op =
    OpPin nat nat | OpPinAny nat nat | OpUnpin nat nat | OpUnpinAny nat nat | OpTouch nat nat
  | OpClaim nat nat nat | OpWrite CacheFetchClaim nat | OpPublish CacheFetchClaim nat nat bool
  | OpFinish CacheFetchClaim | OpRollback CacheFetchClaim | OpMarkBad CacheFetchClaim
  | OpPinVerify CacheFetchClaim | OpRetry CacheFetchClaim
  | OpManifest | OpManifestParts "CacheChecksumPart list" | OpManifestNone
  | OpClaimPart nat nat bool | OpMismatch CacheChecksumClaim | OpRetryPart CacheChecksumClaim
  | OpFinishPart CacheChecksumClaim bool | OpAbandonPart CacheChecksumClaim
  | OpEvict evict_env | OpDisable | OpExport bool | OpRetire
  | OpWait | OpToken | OpEndWait
  | OpBeginWrite | OpGrow nat | OpReserve "bool list" | OpPublishDirty nat nat nat
  | OpUploadId string | OpIsolate | OpDiscard | OpCommit CacheIdentity
  | OpDetach | OpReclaim

type_synonym entry_world = "CacheEntry \<times> pins"

text \<open>
  One step of some thread. The guards are what the callers owe: a reader pins a range of the
  object and gives back a pin it holds; the identifier of a new fetch is not that of an
  active one; published bytes have been written; the manifest is finished by the one who
  loads it; a checksum claim is one that was handed out; a writer publishes the bytes behind
  the ones it has published, alone with its generation (\<open>next_write\<close>). A step is one critical
  section: \<open>begin_write\<close> only reads in its first one, \<open>prepare_write\<close> is the steps
  \<open>OpGrow\<close>, \<open>OpReserve\<close> and \<open>OpBeginWrite\<close>, \<open>mark_commit_pending\<close> changes what
  \<open>OpIsolate\<close> changes, and where the cache marks a generation stale and notifies, it takes the
  step \<open>OpRetire\<close>.
\<close>

inductive entry_step :: "entry_world \<Rightarrow> entry_op \<Rightarrow> entry_world \<Rightarrow> bool" where
  step_pin: "pin_clean off len e = Inr (True, e') \<Longrightarrow> 0 < len \<Longrightarrow> off + len \<le> e_size e \<Longrightarrow>
    entry_step (e, h) (OpPin off len) (e', (off, len) # fst h, snd h)"
| step_pin_any: "pin off len e = Inr e' \<Longrightarrow> 0 < len \<Longrightarrow> off + len \<le> e_size e \<Longrightarrow>
    entry_step (e, h) (OpPinAny off len) (e', fst h, (off, len) # snd h)"
| step_unpin: "(off, len) \<in> set (fst h) \<Longrightarrow>
    entry_step (e, h) (OpUnpin off len) (unpin off len e, remove1 (off, len) (fst h), snd h)"
| step_unpin_any: "(off, len) \<in> set (snd h) \<Longrightarrow>
    entry_step (e, h) (OpUnpinAny off len) (unpin off len e, fst h, remove1 (off, len) (snd h))"
| step_touch: "entry_step (e, h) (OpTouch off len) (touch off len e, h)"
| step_claim: "claim_fetch off len expansion e = Inr (claim, e') \<Longrightarrow>
    cl_id claim \<notin> af_id ` set (e_active_claims e) \<Longrightarrow>
    entry_step (e, h) (OpClaim off len expansion) (e', h)"
| step_write: "entry_step (e, h) (OpWrite claim len) (fetch_write claim len e, h)"
| step_publish: "received claim len e \<Longrightarrow>
    entry_step (e, h) (OpPublish claim published len final) (publish_clean claim published len final e, h)"
| step_finish: "entry_step (e, h) (OpFinish claim) (finish_fetch hole claim e, h)"
| step_rollback: "entry_step (e, h) (OpRollback claim) (rollback_fetch claim e, h)"
| step_mark_bad: "entry_step (e, h) (OpMarkBad claim) (mark_bad claim e, h)"
| step_pin_verify: "pin_fetch_verification claim e = Inr (b, e') \<Longrightarrow>
    entry_step (e, h) (OpPinVerify claim) (e', h)"
| step_retry: "begin_retry_locked claim e = Inr (b, e') \<Longrightarrow>
    entry_step (e, h) (OpRetry claim) (e', h)"
| step_manifest: "begin_checksum_manifest ev False e = Inr (r, e') \<Longrightarrow>
    entry_step (e, h) OpManifest (e', h)"
| step_manifest_parts: "e_checksum_manifest e = kChecksumLoading \<Longrightarrow>
    entry_step (e, h) (OpManifestParts parts) (finish_checksum_manifest parts e, h)"
| step_manifest_none: "e_checksum_manifest e = kChecksumLoading \<Longrightarrow>
    entry_step (e, h) OpManifestNone (checksum_manifest_unavailable e, h)"
| step_claim_part: "claim_checksum off len skip e = Inr (c, e') \<Longrightarrow>
    entry_step (e, h) (OpClaimPart off len skip) (e', h)"
| step_mismatch: "entry_step (e, h) (OpMismatch c) (checksum_mismatch c e, h)"
| step_retry_part: "begin_checksum_retry_locked c e = Inr (b, e') \<Longrightarrow>
    entry_step (e, h) (OpRetryPart c) (e', h)"
| step_finish_part: "part_claim c e \<Longrightarrow>
    entry_step (e, h) (OpFinishPart c valid) (finish_checksum c valid e, h)"
| step_abandon_part: "part_claim c e \<Longrightarrow>
    entry_step (e, h) (OpAbandonPart c) (abandon_checksum c e, h)"
| step_evict: "entry_step (e, h) (OpEvict env) (snd (evict_one_region env e), h)"
| step_disable: "entry_step (e, h) OpDisable (disable_eviction e, h)"
| step_export: "try_export verify e = (b, e') \<Longrightarrow> entry_step (e, h) (OpExport verify) (e', h)"
| step_retire: "entry_step (e, h) OpRetire (snd (retire_generation ev wait x e), h)"
| step_wait: "register_waiter ev what e = Inr e' \<Longrightarrow> entry_step (e, h) OpWait (e', h)"
| step_token: "take_token e = Some e' \<Longrightarrow> entry_step (e, h) OpToken (e', h)"
| step_end_wait: "end_async_wait e = Some e' \<Longrightarrow> entry_step (e, h) OpEndWait (e', h)"
| step_begin_write: "begin_write (Inr ()) (\<lambda>e. e) e = Inr e' \<Longrightarrow> entry_step (e, h) OpBeginWrite (e', h)"
| step_grow: "ensure_write_capacity reserve grow stop e = Inr e' \<Longrightarrow>
    entry_step (e, h) (OpGrow stop) (e', h)"
| step_reserve: "entry_step (e, h) (OpReserve units) (e\<lparr>e_reserved_units := units\<rparr>, h)"
| step_publish_dirty: "publish_dirty off len stop (store_write off stop e) = Inr e' \<Longrightarrow> next_write off len e \<Longrightarrow>
    entry_step (e, h) (OpPublishDirty off len stop) (e', h)"
| step_upload_id: "set_upload_id u e = Inr e' \<Longrightarrow> entry_step (e, h) (OpUploadId u) (e', h)"
| step_isolate: "entry_step (e, h) OpIsolate (isolate_write e, h)"
| step_discard: "entry_step (e, h) OpDiscard (discard_write e, h)"
| step_commit: "entry_step (e, h) (OpCommit identity) (snd (commit_write sync identity e), h)"
| step_detach: "entry_step (e, h) OpDetach (detach e, h)"
| step_reclaim: "reclaimable e \<Longrightarrow>
    entry_step (e, h) OpReclaim (e\<lparr>e_detached := True, e_stale := True\<rparr>, h)"

inductive entry_reachable :: "entry_world \<Rightarrow> bool" where
  reach_open: "opens_ok config header words sz d \<Longrightarrow>
    entry_reachable (CacheEntry_new config key header words dm sz d pm hole, [], [])"
| reach_step: "entry_reachable w \<Longrightarrow> entry_step w op w' \<Longrightarrow> entry_reachable w'"

text \<open>The steps of a writer, and of the cache, that leave pages, pins and fetches alone.\<close>

fun writer_op :: "entry_op \<Rightarrow> bool" where
  "writer_op OpBeginWrite = True"
| "writer_op (OpReserve units) = True"
| "writer_op (OpUploadId u) = True"
| "writer_op OpIsolate = True"
| "writer_op OpDiscard = True"
| "writer_op (OpCommit identity) = True"
| "writer_op OpDetach = True"
| "writer_op OpReclaim = True"
| "writer_op op = False"

lemma writer_step:
  assumes "entry_step (e, h) op (e', h')" "writer_op op"
  shows "write_frame e e' \<and> h' = h \<and> (op = OpDiscard \<or> op = OpReclaim \<or> e_stale e' = e_stale e)"
  using assms(1)
proof (cases rule: entry_step.cases)
  case step_begin_write
  then show ?thesis using write_frames(1) by blast
next
  case (step_upload_id u)
  then show ?thesis using write_frames(3) by blast
next
  case (step_commit identity sync)
  then show ?thesis using write_frames(6) by simp
qed (use assms(2) write_frames(2,4,5,7,8) in simp_all)

lemma entry_step_inv:
  assumes "entry_step w op w'" "entry_inv (fst w) (snd w)"
  shows "entry_inv (fst w') (snd w')"
proof (cases "writer_op op")
  case True
  then have "write_frame (fst w) (fst w')" "snd w' = snd w"
    using writer_step [of "fst w" "snd w" op "fst w'" "snd w'"] assms(1) by simp_all
  then show ?thesis using write_frame_inv [OF _ assms(2)] by simp
next
  case False
  from assms False show ?thesis
  proof (induction rule: entry_step.induct)
    case (step_pin off len e e' h)
    then show ?case using pin_clean_inv [OF _ step_pin(1-3)] by simp
  next
    case (step_pin_any off len e e' h)
    then show ?case using pin_inv [OF _ step_pin_any(1-3)] by simp
  next
    case (step_unpin off len h e)
    then show ?case using unpin_inv(1) [OF _ step_unpin(1)] by simp
  next
    case (step_unpin_any off len h e)
    then show ?case using unpin_inv(2) [OF _ step_unpin_any(1)] by simp
  next
    case (step_touch e h off len)
    then show ?case using touch_inv by simp
  next
    case (step_claim off len expansion e claim e' h)
    then show ?case using claim_fetch_inv [OF _ step_claim(1,2)] by simp
  next
    case (step_write e h claim len)
    then show ?case using fetch_write_inv by simp
  next
    case (step_publish claim len e h published final)
    then show ?case using publish_clean_inv [OF _ step_publish(1)] by simp
  next
    case (step_finish e h claim hole)
    then show ?case using finish_fetch_inv by simp
  next
    case (step_rollback e h claim)
    then show ?case using rollback_fetch_inv by simp
  next
    case (step_mark_bad e h claim)
    then show ?case using mark_bad_inv by simp
  next
    case (step_pin_verify claim e b e' h)
    then show ?case using pin_fetch_verification_inv [OF _ step_pin_verify(1)] by simp
  next
    case (step_retry claim e b e' h)
    then show ?case using begin_retry_inv [OF _ step_retry(1)] by simp
  next
    case (step_manifest ev e r e' h)
    then show ?case using begin_checksum_manifest_inv [OF _ step_manifest(1)] by simp
  next
    case (step_manifest_parts e h parts)
    then show ?case using finish_checksum_manifest_inv [OF _ step_manifest_parts(1)] by simp
  next
    case (step_manifest_none e h)
    then show ?case using checksum_manifest_unavailable_inv [OF _ step_manifest_none(1)] by simp
  next
    case (step_claim_part off len skip e c e' h)
    then show ?case using claim_checksum_inv [OF _ step_claim_part(1)] by simp
  next
    case (step_mismatch e h c)
    then show ?case using checksum_mismatch_inv by simp
  next
    case (step_retry_part c e b e' h)
    then show ?case using begin_checksum_retry_inv [OF _ step_retry_part(1)] by simp
  next
    case (step_finish_part c e h valid)
    then show ?case using finish_checksum_inv [OF _ step_finish_part(1)] by simp
  next
    case (step_abandon_part c e h)
    then show ?case using abandon_checksum_inv [OF _ step_abandon_part(1)] by simp
  next
    case (step_evict e h env)
    then show ?case using evict_one_region_inv by simp
  next
    case (step_disable e h)
    then show ?case using disable_eviction_inv by simp
  next
    case (step_export verify e b e' h)
    then show ?case using try_export_inv [OF _ step_export(1)] by simp
  next
    case (step_retire e h ev wait x)
    then show ?case using retire_inv by simp
  next
    case (step_wait ev what e e' h)
    then show ?case using register_waiter_inv [OF _ step_wait(1)] by simp
  next
    case (step_token e e' h)
    then show ?case using take_token_inv [OF _ step_token(1)] by simp
  next
    case (step_end_wait e e' h)
    then show ?case using end_async_wait_inv [OF _ step_end_wait(1)] by simp
  next
    case (step_grow reserve grow stop e e' h)
    from step_grow(1) show ?case by (rule ensure_write_capacity_cases) (use grow_inv step_grow(2) in simp)
  next
    case (step_publish_dirty off len stop e e' h)
    then show ?case using publish_dirty_inv [OF _ step_publish_dirty(2,1)] by simp
  qed simp_all
qed

lemma reachable_inv: "entry_reachable w \<Longrightarrow> entry_inv (fst w) (snd w)"
  by (induction rule: entry_reachable.induct) (auto simp: CacheEntry_new_inv intro: entry_step_inv)

end
