(* ===== verification/Cache_Entry_Example.thy ===== *)
theory Cache_Entry_Example
  imports Cache_Entry_Steps
begin

text \<open>
  A run of a small generation, evaluated step by step: an object of two blocks is fetched,
  published, pinned by a reader and found corrupt; the retry has to wait for the reader, and
  the generation is retired meanwhile.
\<close>

definition ex_config :: CacheConfig where
  "ex_config = \<lparr>cfg_root = [], namespace_id = [], maximum_bytes = 0, reserve_bytes = 0,
     reserve_percent = 0, max_prefetch_window_size = 0, cfg_page_size = 4096,
     cfg_block_size = 32768, upload_part_size = 5242880, cfg_checksum_algorithm = 0,
     reserve_is_percent = False, unlimited = False\<rparr>"

definition ex_header :: "bool \<Rightarrow> CacheMetaHeader" where
  "ex_header exported = \<lparr>m_magic = [], m_version = 0, m_header_size = 0, m_bitmap_unit = 0,
     m_dirty = False, m_exported = exported, m_object_size = 40000, m_mtime = 0,
     m_generation_epoch = 7, m_written_end = 0, m_key_length = 0, m_etag_length = 0,
     m_version_length = 0, m_upload_id_length = 0, m_write_id_length = 0,
     m_upload_part_size = 0, m_checksum_algorithm = 0, m_write_phase = 0, m_key = [],
     m_etag = [], m_version_id = [], m_upload_id = [], m_write_id = []\<rparr>"

definition ex_open :: CacheEntry where
  "ex_open = CacheEntry_new ex_config ''k'' (ex_header False) [0] False 40000 {} True (\<lambda>_. True)"

lemma ex_no_page: "page_state [0] p = CACHE_PAGE_MISSING" if "p < 32"
  using that by (simp add: page_state_def code_state_def)

lemma ex_upt: "[0..<2] = [0, Suc 0]" "[0..<Suc 0] = [0]" "[Suc 0..<2] = [Suc 0]" "[0..<Suc (Suc 0)] = [0, Suc 0]"
  by (simp_all add: upt_rec)

lemma ex_opens: "opens_ok ex_config (ex_header False) [0] 40000 {}"
  by (simp add: opens_ok_def ex_config_def ex_header_def kCacheBitmapUnit_def ex_no_page)

lemma ex_open_eq: "ex_open = \<lparr>e_config = ex_config, e_key = ''k'', e_header = ex_header False,
  e_bitmap = [0], e_dirty_marker = False, e_size = 40000, e_epoch = 7, e_block_size = 32768,
  e_page_count = 2, e_wait_event = None, e_waiters = 0, e_referenced = [False, False],
  e_region_pins = [0, 0], e_active_claims = [], e_reserved_units = [], e_checksum_parts = [],
  e_checksum_states = [], e_next_claim_id = 1, e_clock_hand = 0, e_checksum_ops = 0,
  e_pinned_regions = 0, e_checksum_manifest = kChecksumUnknown, e_eviction_disabled = False,
  e_detached = False, e_stale = False, e_data = {}\<rparr>"
  by (simp add: ex_open_def CacheEntry_new_def ex_config_def ex_header_def Let_def
      kCacheBitmapUnit_def recover_block_def block_pages_def block_first_page_def
      block_last_page_def replace_states_def ex_no_page ex_upt)

definition ex_fetch :: "nat \<Rightarrow> bool \<Rightarrow> bool \<Rightarrow> ActiveFetch" where
  "ex_fetch published verifying retrying = \<lparr>af_id = 1, af_epoch = 7, af_offset = 0,
     af_length = 40000, af_published = published, af_verifying = verifying, af_retrying = retrying,
     af_prior_states = [CACHE_PAGE_MISSING, CACHE_PAGE_MISSING]\<rparr>"

definition ex_claim :: CacheFetchClaim where
  "ex_claim = \<lparr>cl_offset = 0, cl_epoch = 7, cl_id = 1, cl_length = 40000\<rparr>"

lemmas ex_defs = ex_open_eq ex_config_def ex_header_def ex_fetch_def ex_claim_def Let_def
  kCacheBitmapUnit_def UINT64_MAX_def UINT32_MAX_def block_pages_def block_first_page_def
  block_last_page_def range_first_page_def range_last_page_def find_active_def claim_matches_def
  notify_waiters_locked_def  ex_upt

lemma ex_states: 
  "page_state [w] 0 = code_state (w AND 3)" "page_state [w] (Suc 0) = code_state (drop_bit 2 w AND 3)"
  "set_page_state 0 s [w] = [w AND NOT 3 OR state_code s]"
  "set_page_state (Suc 0) s [w] = [w AND NOT 12 OR push_bit 2 (state_code s)]"
  by (simp_all add: page_state_def set_page_state_def)

lemmas ex_ops = claim_fetch_def first_missing.simps fetch_limit_def round_up_block_def
  block_blocked_def block_all_clean_def start_fetch_def fill_states_def ex_states code_state_def

definition ex_claimed :: CacheEntry where
  "ex_claimed = ex_open\<lparr>e_bitmap := [5], e_next_claim_id := 2,
     e_active_claims := [ex_fetch 0 False False]\<rparr>"

lemma ex_claim_step: "claim_fetch 0 40000 0 ex_open = Inr (ex_claim, ex_claimed)"
  by (simp add: ex_ops ex_defs ex_claimed_def, simp add: claim_scan.simps ex_ops ex_defs)

definition ex_written :: CacheEntry where
  "ex_written = ex_claimed\<lparr>e_data := {0, 1}\<rparr>"

lemma ex_write_step: "fetch_write ex_claim 40000 ex_claimed = ex_written"
  by (simp add: fetch_write_def ex_claimed_def ex_written_def tail_def ex_defs)

definition ex_published :: CacheEntry where
  "ex_published = ex_written\<lparr>e_bitmap := [10], e_active_claims := [ex_fetch 40000 False False]\<rparr>"

lemma ex_publish_step: "publish_clean ex_claim 0 40000 True ex_written = ex_published"
  by (simp add: publish_clean_def ex_claimed_def ex_written_def ex_published_def ex_defs
      publish_loop.simps replace_states_def ex_states code_state_def)

definition ex_pinned :: CacheEntry where
  "ex_pinned = ex_published\<lparr>e_region_pins := [1, 0], e_pinned_regions := 1,
     e_referenced := [True, False]\<rparr>"

lemma ex_masks: "10 AND mask 2 = (12297829382473034410 AND mask 2 :: u64)"
  "10 AND mask 4 = (12297829382473034410 AND mask 4 :: u64)"
  by (simp_all add: mask_eq_decr_exp)

lemmas ex_run = ex_claimed_def ex_written_def ex_published_def ex_pinned_def

lemma ex_pin_step: "pin_clean 0 100 ex_published = Inr (True, ex_pinned)"
  by (simp add: pin_clean_def ex_run ex_defs range_all_state_def range_all_state_loop.simps ex_masks
      checksum_blocked_locked_def lower_bound.simps span_def span_last_def add_pins_def
      increment_pins_def reference_regions_def)

definition ex_verifying :: CacheEntry where
  "ex_verifying = ex_pinned\<lparr>e_region_pins := [2, 1], e_pinned_regions := 3,
     e_active_claims := [ex_fetch 40000 True False]\<rparr>"

lemma ex_verify_step: "pin_fetch_verification ex_claim ex_pinned = Inr (True, ex_verifying)"
  by (simp add: pin_fetch_verification_def ex_run ex_verifying_def ex_defs range_all_state_def
      range_all_state_loop.simps ex_masks other_overlaps_def increment_pins_def)

definition ex_retrying :: CacheEntry where
  "ex_retrying = ex_verifying\<lparr>e_bitmap := [5], e_active_claims := [ex_fetch 0 True True]\<rparr>"

lemma ex_retry_step: "begin_retry_locked ex_claim ex_verifying = Inr (False, ex_retrying)"
  by (simp add: begin_retry_locked_def ex_run ex_verifying_def ex_retrying_def ex_defs
      claim_end_page_def fill_states_def ex_states retry_pins_ready_locked_def verification_pins_def
      notify_waiters_locked_def)

definition ex_retired :: CacheEntry where
  "ex_retired = ex_retrying\<lparr>e_stale := True\<rparr>"

lemma ex_retire_step: "snd (retire_generation 0 False True ex_retrying) = ex_retired"
  by (simp add: retire_generation_def ex_run ex_verifying_def ex_retrying_def ex_retired_def ex_defs
      notify_waiters_locked_def)

lemma ex_mark_bad_step: "mark_bad ex_claim ex_retired = ex_retired"
  by (simp add: mark_bad_def ex_run ex_verifying_def ex_retrying_def ex_retired_def ex_defs
      notify_waiters_locked_def)

lemma ex_finish_step: "e_data (finish_fetch (\<lambda>_. True) ex_claim ex_retired) = {}"
  by (simp add: finish_fetch_def ex_run ex_verifying_def ex_retrying_def ex_retired_def ex_defs
      finish_loop.simps replace_states_def ex_states code_state_def punch_range_def
      notify_waiters_locked_def end_fetch_locked_def drop_pins_def)

section \<open>The run is a run of the state machine\<close>

lemma ex_reach_open: "entry_reachable (ex_open, [], [])"
  unfolding ex_open_def by (rule reach_open [OF ex_opens])

lemma ex_reach_claimed: "entry_reachable (ex_claimed, [], [])"
proof -
  have "cl_id ex_claim \<notin> af_id ` set (e_active_claims ex_open)" by (simp add: ex_open_eq)
  then show ?thesis by (rule reach_step [OF ex_reach_open step_claim [OF ex_claim_step]])
qed

lemma ex_reach_published: "entry_reachable (ex_published, [], [])"
proof -
  have w: "entry_reachable (ex_written, [], [])"
    using reach_step [OF ex_reach_claimed step_write] ex_write_step by metis
  have "received ex_claim 40000 ex_written"
    using received_fetch_write [of ex_claimed "([], [])"] reachable_inv [OF ex_reach_claimed] ex_write_step
    by (metis fst_conv snd_conv)
  from reach_step [OF w step_publish [OF this]] show ?thesis using ex_publish_step by metis
qed

lemma ex_reach_pinned: "entry_reachable (ex_pinned, [(0, 100)], [])"
proof -
  have "0 < (100::nat)" "0 + 100 \<le> e_size ex_published"
    by (simp_all add: ex_published_def ex_written_def ex_claimed_def ex_open_eq)
  from reach_step [OF ex_reach_published step_pin [OF ex_pin_step this]] show ?thesis by simp
qed

lemma ex_reach_verifying: "entry_reachable (ex_verifying, [(0, 100)], [])"
  by (rule reach_step [OF ex_reach_pinned step_pin_verify [OF ex_verify_step]])

lemma ex_reach_retrying: "entry_reachable (ex_retrying, [(0, 100)], [])"
  by (rule reach_step [OF ex_reach_verifying step_retry [OF ex_retry_step]])

lemma ex_reach_retired: "entry_reachable (ex_retired, [(0, 100)], [])"
  using reach_step [OF ex_reach_retrying step_retire] ex_retire_step by metis

end
