(* ===== verification/Cache_Entry_Props.thy ===== *)
theory Cache_Entry_Props
  imports Cache_Entry_Example
begin

text \<open>
  The properties of a cached generation: of all reachable states of its state machine, and
  of single operations.
\<close>

section \<open>Verification pins\<close>

lemma verification_pins_eq:
  assumes "entry_inv e h" "r < length (e_region_pins e)"
  shows "verification_pins e r = part_pins e r + fetch_pins e r"
proof -
  note inv = entryD [OF assms(1)]
  note s = shapeD [OF inv(1)]
  let ?b = "e_block_size e"
  have lt: "r * ?b < e_size e" using assms(2) s(6) by simp
  have w: "wrap64 (r * ?b + ?b) = r * ?b + ?b"
    by (rule wrap64_id) (use lt s(3) in linarith)
  have len: "length (e_checksum_states e) = length (e_checksum_parts e)"
    using inv(4) by (simp add: man_inv_def)
  have cov: "off < min (e_size e) (r * ?b + ?b) \<and> off + n > r * ?b \<longleftrightarrow> cover ?b off n r"
    if "0 < n" "off + n \<le> e_size e" for off n
    using that by (auto simp: cover_def)
  have "filter (\<lambda>(part, s). part_busy s \<and> part_offset part < min (e_size e) (r * ?b + ?b) \<and>
      wrap64 (part_offset part + part_size part) > r * ?b) (zip (e_checksum_parts e) (e_checksum_states e)) =
    filter (\<lambda>(part, s). part_busy s \<and> cover ?b (part_offset part) (part_size part) r)
      (zip (e_checksum_parts e) (e_checksum_states e))"
  proof (rule filter_cong [OF refl], clarify)
    fix part st
    assume "(part, st) \<in> set (zip (e_checksum_parts e) (e_checksum_states e))"
    then obtain i where i: "i < length (e_checksum_parts e)" "part = e_checksum_parts e ! i"
      using len by (auto simp: in_set_zip)
    note fits = part_fits [OF inv(4) i(1), folded i(2)]
    have "wrap64 (part_offset part + part_size part) = part_offset part + part_size part"
      by (rule wrap64_id) (use fits(2) s(3) in linarith)
    then show "(part_busy st \<and> part_offset part < min (e_size e) (r * ?b + ?b) \<and>
        wrap64 (part_offset part + part_size part) > r * ?b) =
      (part_busy st \<and> cover ?b (part_offset part) (part_size part) r)"
      using cov [OF fits(1,2)] by metis
  qed
  moreover have "filter (\<lambda>fetch. af_verifying fetch \<and> af_offset fetch < min (e_size e) (r * ?b + ?b) \<and>
      af_offset fetch + af_length fetch > r * ?b) (e_active_claims e) =
    filter (\<lambda>a. af_verifying a \<and> cover ?b (af_offset a) (af_length a) r) (e_active_claims e)"
  proof (rule filter_cong [OF refl])
    fix a assume "a \<in> set (e_active_claims e)"
    then have "0 < af_length a" "af_offset a + af_length a \<le> e_size e"
      using ownD(1) [OF inv(2)] by (auto simp: wf_claim_def)
    then show "(af_verifying a \<and> af_offset a < min (e_size e) (r * ?b + ?b) \<and>
        af_offset a + af_length a > r * ?b) =
      (af_verifying a \<and> cover ?b (af_offset a) (af_length a) r)"
      using cov by metis
  qed
  ultimately show ?thesis
    unfolding verification_pins_def Let_def w part_pins_def fetch_pins_def by simp
qed

lemma retry_pins_ready_iff:
  assumes "entry_inv e h" "0 < len" "off + len \<le> e_size e"
  shows "retry_pins_ready_locked e off len \<longleftrightarrow>
    (\<forall>(o', l')\<in>set (all_pins h). \<forall>r. \<not> (cover (e_block_size e) o' l' r \<and> cover (e_block_size e) off len r))"
proof -
  note inv = entryD [OF assms(1)]
  note s = shapeD [OF inv(1)]
  note sp = span_cover [OF inv(1) assms(2,3)]
  let ?b = "e_block_size e"
  have w: "wrap64 (off + len - 1) = off + len - 1"
    by (rule wrap64_id) (use assms(3) s(3) in linarith)
  have "\<not> e_region_pins e ! r > verification_pins e r \<longleftrightarrow> held_pins e h r = 0"
    if "r < length (e_region_pins e)" for r
    using inv(3) that verification_pins_eq [OF assms(1) that] by (auto simp: acct_inv_def)
  moreover have "r < length (e_region_pins e)" if "cover ?b off len r" for r
    using sp(4,5) that by (metis Un_iff atLeastLessThan_iff less_le_trans mem_Collect_eq set_upt sp(1))
  moreover have "held_pins e h r = 0 \<longleftrightarrow> (\<forall>(o', l')\<in>set (all_pins h). \<not> cover ?b o' l' r)" for r
    by (auto simp: held_pins_def filter_empty_conv)
  ultimately have "retry_pins_ready_locked e off len \<longleftrightarrow>
      (\<forall>r. cover ?b off len r \<longrightarrow> (\<forall>(o', l')\<in>set (all_pins h). \<not> cover ?b o' l' r))"
    unfolding retry_pins_ready_locked_def w sp(1) [symmetric] list_all_iff sp(5)
    by (metis (mono_tags, lifting) mem_Collect_eq)
  then show ?thesis by blast
qed

section \<open>Which steps take bytes out of the data file\<close>

lemma drop_pins_frame [simp]:
  "e_data (snd (drop_pins rs e)) = e_data e" "e_stale (snd (drop_pins rs e)) = e_stale e"
  "e_header (snd (drop_pins rs e)) = e_header e" "e_bitmap (snd (drop_pins rs e)) = e_bitmap e"
  "e_size (snd (drop_pins rs e)) = e_size e" "e_page_count (snd (drop_pins rs e)) = e_page_count e"
  "e_block_size (snd (drop_pins rs e)) = e_block_size e"
  "e_active_claims (snd (drop_pins rs e)) = e_active_claims e"
  "e_checksum_parts (snd (drop_pins rs e)) = e_checksum_parts e"
  "e_checksum_states (snd (drop_pins rs e)) = e_checksum_states e"
  "e_checksum_ops (snd (drop_pins rs e)) = e_checksum_ops e"
  "e_wait_event (snd (drop_pins rs e)) = e_wait_event e" "e_waiters (snd (drop_pins rs e)) = e_waiters e"
  by (simp_all add: drop_pins_def split: prod.splits)

lemma end_fetch_frame [simp]:
  "e_data (end_fetch_locked claim e) = e_data e" "e_stale (end_fetch_locked claim e) = e_stale e"
  "e_header (end_fetch_locked claim e) = e_header e" "e_bitmap (end_fetch_locked claim e) = e_bitmap e"
  "e_wait_event (end_fetch_locked claim e) = e_wait_event e"
  "e_waiters (end_fetch_locked claim e) = e_waiters e"
  by (simp_all add: end_fetch_locked_def Let_def split: option.splits)

lemma finish_fetch_gone:
  assumes "entry_inv e h" "p \<in> e_data e" "p \<notin> e_data (finish_fetch hole claim e)" "p < e_page_count e"
  obtains i where "find_active claim e = Some i" "tail (e_active_claims e ! i) p"
proof (cases "find_active claim e")
  case None
  then show ?thesis using assms by (simp add: finish_fetch_def)
next
  case (Some i)
  note inv = entryD [OF assms(1)]
  note s = shapeD [OF inv(1)]
  note f = find_activeD [OF Some]
  note wf = find_active_wf [OF inv(2) Some]
  let ?a = "e_active_claims e ! i"
  obtain words d where r: "finish_loop e hole claim (cl_offset claim + af_published ?a)
      (e_bitmap e, e_data e) = (words, d)" by fastforce
  have start: "cl_offset claim + cl_length claim \<le> cl_offset claim + af_published ?a \<or>
      e_block_size e dvd cl_offset claim + af_published ?a"
    using wf(1,6) by auto
  note spec = finish_loop_spec [OF inv(1) wf(3) r start wf(4) refl]
  have "p \<notin> d" using assms(3) Some r by (simp add: finish_fetch_def)
  then obtain q where q: "q * U div e_block_size e = p * U div e_block_size e" "tail ?a q"
    using conjunct2 [OF conjunct2 [OF conjunct2 [OF spec]]] assms(2) by (auto simp: tail_def f)
  have "q < e_page_count e"
    using claim_page_bound [OF inv(1) ownD(1) [OF inv(2) f(2)] tail_scope [OF q(2)]] .
  then have "tail ?a p"
    using block_uniform(2) [OF inv(1) ownD(1) [OF inv(2) f(2)] q(1)] q(2) assms(4) s(5) by simp
  then show ?thesis using that Some by blast
qed

text \<open>Eviction takes out pages of one region, which has no pins and nothing pending or bad.\<close>

lemma evict_scan_spec:
  assumes "shape e" "e_referenced e \<noteq> []"
  obtains (same) "e_data (snd (evict_scan n env e)) = e_data e"
      "\<And>p. page_state (e_bitmap (snd (evict_scan n env e))) p = page_state (e_bitmap e) p"
  | (region) r where "r < length (e_region_pins e)" "e_region_pins e ! r = 0"
      "\<And>p. p < e_page_count e \<Longrightarrow> p * U div e_block_size e = r \<Longrightarrow>
        page_state (e_bitmap e) p = CACHE_PAGE_CLEAN \<or> page_state (e_bitmap e) p = CACHE_PAGE_MISSING"
      "\<And>p. page_state (e_bitmap (snd (evict_scan n env e))) p =
        (if p < e_page_count e \<and> p * U div e_block_size e = r \<and>
            page_state (e_bitmap e) p = CACHE_PAGE_CLEAN
         then CACHE_PAGE_MISSING else page_state (e_bitmap e) p)"
      "e_data (snd (evict_scan n env e)) \<subseteq> e_data e"
      "\<And>p. p \<in> e_data e - e_data (snd (evict_scan n env e)) \<Longrightarrow> p * U div e_block_size e = r"
  using assms
proof (induction n arbitrary: e thesis)
  case 0
  then show ?case by simp
next
  case (Suc n)
  define region where "region = unat (e_clock_hand e) mod length (e_referenced e)"
  define e1 where "e1 = e\<lparr>e_clock_hand := e_clock_hand e + 1\<rparr>"
  note sh = shapeD [OF Suc.prems(3)]
  have region: "region < length (e_region_pins e)"
    unfolding region_def sh(7) [symmetric] using Suc.prems(4) by simp
  define pages where "pages = [region * e_block_size e div U ..<
      (min (e_size e) (wrap64 (region * e_block_size e + e_block_size e)) - 1) div U + 1]"
  define clean where "clean = filter (\<lambda>p. page_state (e_bitmap e) p = CACHE_PAGE_CLEAN) pages"
  define ok where "ok \<longleftrightarrow> list_all (\<lambda>p. page_state (e_bitmap e) p = CACHE_PAGE_CLEAN \<or>
        page_state (e_bitmap e) p = CACHE_PAGE_MISSING) pages \<and> e_region_pins e ! region = 0"
  have pages: "p \<in> set pages \<longleftrightarrow> p < e_page_count e \<and> p * U div e_block_size e = region" for p
    unfolding pages_def by (rule region_pages [OF Suc.prems(3) region])
  define e2 where "e2 = (if e_referenced e ! region
    then e1\<lparr>e_referenced := (e_referenced e)[region := False]\<rparr> else e1)"
  have e2: "e_data e2 = e_data e" "e_bitmap e2 = e_bitmap e" "e_region_pins e2 = e_region_pins e"
    "e_page_count e2 = e_page_count e" "e_block_size e2 = e_block_size e"
    "length (e_referenced e2) = length (e_referenced e)" "e_size e2 = e_size e"
    by (simp_all add: e2_def e1_def)
  have step: "evict_scan (Suc n) env e = (if e_referenced e ! region \<or> \<not> ok \<or> clean = []
      then evict_scan n env e2 else evict_region env (region * e_block_size e) clean e1)"
  proof -
    have "evict_scan (Suc n) env e = (if e_referenced e ! region
        then evict_scan n env (e1\<lparr>e_referenced := (e_referenced e)[region := False]\<rparr>)
        else if \<not> ok \<or> clean = [] then evict_scan n env e1
        else evict_region env (region * e_block_size e) clean e1)"
      unfolding evict_scan.simps Let_def region_def e1_def pages_def clean_def ok_def by (rule refl)
    then show ?thesis unfolding e2_def by (cases "e_referenced e ! region") simp_all
  qed
  show ?case
  proof (cases "e_referenced e ! region \<or> \<not> ok \<or> clean = []")
    case True
    have s2: "shape e2" by (rule shape_cong [OF Suc.prems(3)]) (simp_all add: e2)
    have ne: "e_referenced e2 \<noteq> []" using Suc.prems(4) e2(6) by (metis length_0_conv)
    note eq = step [unfolded if_P [OF True]]
    show ?thesis
    proof (rule Suc.IH [OF _ _ s2 ne], goal_cases)
      case 1
      then show ?case using Suc.prems(1) unfolding eq e2 by blast
    next
      case (2 r)
      note r = 2 [unfolded e2]
      show ?case by (rule Suc.prems(2) [of r]; (unfold eq)?) (fact r)+
    qed
  next
    case False
    note eq = step [unfolded if_not_P [OF False]]
    have cl: "p \<in> set clean \<longleftrightarrow> p < e_page_count e \<and> p * U div e_block_size e = region \<and>
        page_state (e_bitmap e) p = CACHE_PAGE_CLEAN" for p using pages by (auto simp: clean_def)
    have bound: "\<forall>p\<in>set clean. p < 32 * length (e_bitmap e)" using cl sh(4) by fastforce
    let ?m = "fill_states CACHE_PAGE_MISSING clean (e_bitmap e)"
    have m: "page_state ?m p = (if p \<in> set clean then CACHE_PAGE_MISSING
        else page_state (e_bitmap e) p)" for p by (rule page_state_fill [OF bound])
    have bm: "\<forall>p\<in>set clean. p < 32 * length ?m" using bound by simp
    have restored: "page_state (fill_states CACHE_PAGE_CLEAN clean ?m) p = page_state (e_bitmap e) p" for p
      unfolding page_state_fill [OF bm] m using cl [of p] by simp
    show ?thesis
    proof (cases "stat_before env = None \<or> \<not> punched env")
      case True
      then have "e_data (snd (evict_region env (region * e_block_size e) clean e1)) = e_data e"
        "page_state (e_bitmap (snd (evict_region env (region * e_block_size e) clean e1))) p =
          page_state (e_bitmap e) p" for p
        by (auto simp: evict_region_def e1_def restored split: option.splits)
      then show ?thesis by (intro Suc.prems(1); unfold eq)
    next
      case pun: False
      define d where "d = punch_range (\<lambda>_. True) (region * e_block_size e) (e_block_size e) (e_data e)"
      have ev: "e_data (snd (evict_region env (region * e_block_size e) clean e1)) = d"
        "e_bitmap (snd (evict_region env (region * e_block_size e) clean e1)) = ?m"
        using pun by (auto simp: evict_region_def e1_def d_def Let_def split: option.splits)
      show ?thesis
      proof (rule Suc.prems(2) [of region], goal_cases)
        case (3 p)
        then show ?case using False pages by (auto simp: ok_def list_all_iff)
      next
        case (4 p)
        show ?case unfolding eq ev m cl by simp
      next
        case 5
        show ?case unfolding eq ev d_def by (rule punch_range_subset)
      next
        case (6 p)
        then show ?case
          using punched_page [OF Suc.prems(3), of "region * e_block_size e" p "e_data e" "\<lambda>_. True"] sh(1)
          unfolding eq ev d_def by simp
      qed (use region False in \<open>simp_all add: ok_def\<close>)
    qed
  qed
qed

lemma evict_one_region_spec:
  assumes "shape e"
  obtains (same) "e_data (snd (evict_one_region env e)) = e_data e"
      "\<And>p. page_state (e_bitmap (snd (evict_one_region env e))) p = page_state (e_bitmap e) p"
  | (region) r where "\<not> unlimited (e_config e)" "\<not> e_stale e" "\<not> e_exported e" "\<not> e_dirty e"
      "r < length (e_region_pins e)" "e_region_pins e ! r = 0"
      "\<And>p. p < e_page_count e \<Longrightarrow> p * U div e_block_size e = r \<Longrightarrow>
        page_state (e_bitmap e) p = CACHE_PAGE_CLEAN \<or> page_state (e_bitmap e) p = CACHE_PAGE_MISSING"
      "\<And>p. page_state (e_bitmap (snd (evict_one_region env e))) p =
        (if p < e_page_count e \<and> p * U div e_block_size e = r \<and>
            page_state (e_bitmap e) p = CACHE_PAGE_CLEAN
         then CACHE_PAGE_MISSING else page_state (e_bitmap e) p)"
      "e_data (snd (evict_one_region env e)) \<subseteq> e_data e"
      "\<And>p. p \<in> e_data e - e_data (snd (evict_one_region env e)) \<Longrightarrow> p * U div e_block_size e = r"
proof (cases "unlimited (e_config e) \<or> e_stale e \<or> e_eviction_disabled e \<or> e_dirty e \<or>
    e_exported e \<or> e_referenced e = []")
  case True
  then have "evict_one_region env e = (0, e)" by (simp add: evict_one_region_def)
  then show ?thesis using same by simp
next
  case False
  then have eq: "evict_one_region env e = evict_scan (length (e_referenced e)) env e"
    unfolding evict_one_region_def by (simp only: if_False)
  have ne: "e_referenced e \<noteq> []" using False by blast
  show ?thesis
  proof (rule evict_scan_spec [OF assms ne, of "length (e_referenced e)" env], goal_cases)
    case 1
    then show ?case by (rule same [unfolded eq])
  next
    case (2 r)
    show ?case by (rule region [unfolded eq, of r]) (use False in blast, use False in blast,
      use False in blast, use False in blast, fact 2(1), fact 2(2), fact 2(3), fact 2(4), fact 2(5), fact 2(6))
  qed
qed

lemma pin_clean_data [simp]: "pin_clean off len e = Inr (b, e') \<Longrightarrow> e_data e' = e_data e"
  by (auto simp: pin_clean_def add_pins_def Let_def split: if_splits)

lemma start_fetch_data: "start_fetch a b e = (c, e') \<Longrightarrow> e_data e' = e_data e"
  by (auto simp: start_fetch_def Let_def)

lemma claim_fetch_data [simp]: "claim_fetch off len x e = Inr (c, e') \<Longrightarrow> e_data e' = e_data e"
  by (auto simp: claim_fetch_def Let_def split: if_splits option.splits dest: start_fetch_data)

lemma publish_clean_data [simp]: "e_data (publish_clean c n len final e) = e_data e"
  by (simp add: publish_clean_def Let_def split: option.splits prod.splits)

lemma claim_checksum_data [simp]: "claim_checksum off len skip e = Inr (c, e') \<Longrightarrow> e_data e' = e_data e"
  by (erule claim_checksum_cases) simp_all

lemma finish_checksum_data [simp]: "e_data (finish_checksum c v e) = e_data e"
  by (simp add: finish_checksum_def Let_def)

lemma abandon_checksum_data [simp]: "e_data (abandon_checksum c e) = e_data e"
  by (simp add: abandon_checksum_def Let_def)

lemma manifest_data [simp]:
  "e_data (finish_checksum_manifest parts e) = e_data e"
  "e_data (checksum_manifest_unavailable e) = e_data e"
  by (simp_all add: finish_checksum_manifest_def checksum_manifest_unavailable_def Let_def)

lemma begin_retry_cases:
  assumes "begin_retry_locked claim e = Inr (ready, e')"
  obtains i where "find_active claim e = Some i" "\<not> e_stale e" "af_verifying (e_active_claims e ! i)"
    "ready = retry_pins_ready_locked e' (cl_offset claim) (cl_length claim)"
    "e' = (if af_retrying (e_active_claims e ! i) then e
       else notify_waiters_locked (e\<lparr>
         e_bitmap := fill_states CACHE_PAGE_READ_PENDING
           [cl_offset claim div U ..< claim_end_page e claim] (e_bitmap e),
         e_active_claims := (e_active_claims e)
           [i := (e_active_claims e ! i)\<lparr>af_published := 0, af_retrying := True\<rparr>]\<rparr>))"
proof (cases "find_active claim e")
  case None
  then show ?thesis using assms by (simp add: begin_retry_locked_def)
next
  case (Some i)
  note d = assms [unfolded begin_retry_locked_def Some option.case Let_def]
  have st: "\<not> e_stale e"
  proof
    assume st: "e_stale e"
    show False using d unfolding if_P [OF st] by simp
  qed
  have ver: "\<not> \<not> af_verifying (e_active_claims e ! i)"
  proof
    assume ver: "\<not> af_verifying (e_active_claims e ! i)"
    show False using d unfolding if_not_P [OF st] if_P [OF ver] by simp
  qed
  note d' = d [unfolded if_not_P [OF st] if_not_P [OF ver] sum.inject prod.inject]
  show ?thesis
    by (rule that [OF Some st]) (use ver in blast, use d' in blast, rule conjunct2 [OF d', symmetric])
qed

lemma begin_checksum_retry_cases:
  assumes "begin_checksum_retry_locked c e = Inr (ready, e')"
  obtains "\<not> e_stale e" "cc_epoch c = e_epoch e" "cc_part c < length (e_checksum_states e)"
    "part_busy (e_checksum_states e ! cc_part c)"
    "ready = retry_pins_ready_locked e' (cc_offset c) (cc_size c)"
    "e' = (if e_checksum_states e ! cc_part c = kPartVerifying
       then notify_waiters_locked
         (e\<lparr>e_checksum_states := (e_checksum_states e)[cc_part c := kPartRetrying]\<rparr>)
       else e)"
proof -
  note d = assms [unfolded begin_checksum_retry_locked_def Let_def]
  have "\<not> (e_stale e \<or> cc_epoch c \<noteq> e_epoch e \<or> cc_part c \<ge> length (e_checksum_states e) \<or>
         \<not> part_busy (e_checksum_states e ! cc_part c))" (is "\<not> ?g")
  proof
    assume g: ?g
    show False using d unfolding if_P [OF g] by simp
  qed
  note d' = d [unfolded if_not_P [OF this] sum.inject prod.inject]
  have "\<not> e_stale e" "cc_epoch c = e_epoch e" "cc_part c < length (e_checksum_states e)"
    "part_busy (e_checksum_states e ! cc_part c)" using \<open>\<not> ?g\<close> by (auto simp: not_le)
  from that [OF this] show ?thesis using d' by blast
qed

lemma retry_data [simp]:
  "begin_retry_locked c e = Inr (b, e') \<Longrightarrow> e_data e' = e_data e"
  "begin_checksum_retry_locked cc e = Inr (b, e') \<Longrightarrow> e_data e' = e_data e"
   by (erule begin_retry_cases, simp) (erule begin_checksum_retry_cases, simp)

lemma unpin_data [simp]: "e_data (unpin off len e) = e_data e"
proof -
  obtain b e' where d: "drop_pins (span e off len) e = (b, e')" by fastforce
  then have "e_data e' = e_data e" using drop_pins_frame(1) [of "span e off len" e] by simp
  then show ?thesis by (simp add: unpin_def d)
qed

lemma step_data_gone:
  assumes "entry_step (e, h) op (e', h')" "entry_inv e h" "p \<in> e_data e" "p \<notin> e_data e'"
    "p < e_page_count e"
  obtains (finish) claim i where "op = OpFinish claim" "find_active claim e = Some i"
      "tail (e_active_claims e ! i) p"
  | (evict) env where "op = OpEvict env" "p * U div e_block_size e < length (e_region_pins e)"
      "e_region_pins e ! (p * U div e_block_size e) = 0"
proof (cases "writer_op op")
  case True
  then show ?thesis using writer_step [OF assms(1)] assms(3,4) by (simp add: write_frame_def)
next
  case False
  from assms(1) show ?thesis
  proof (cases rule: entry_step.cases)
    case (step_finish claim hole)
    have "p \<notin> e_data (finish_fetch hole claim e)" using assms(4) step_finish by simp
    from finish_fetch_gone [OF assms(2,3) this assms(5)] show ?thesis using finish step_finish by metis
  next
    case (step_evict env)
    note inv = entryD [OF assms(2)]
    show ?thesis
    proof (rule evict_one_region_spec [OF inv(1), of env], goal_cases)
      case 1
      then show ?case using assms step_evict by simp
    next
      case (2 r)
      then show ?case using assms(3,4) step_evict evict by blast
    qed
  next
    case (step_write claim len)
    then show ?thesis using assms(3,4) by (auto simp: fetch_write_def split: option.splits)
  next
    case (step_pin_verify claim b)
    then show ?thesis using assms(3,4) by (auto elim: pin_fetch_verification_cases)
  next
    case (step_manifest ev r)
    then show ?thesis using assms(3,4) begin_checksum_manifest_cases by fastforce
  next
    case (step_export verify b)
    then show ?thesis using assms(3,4) by (auto elim: try_export_cases)
  next
    case (step_pin_any off len)
    then show ?thesis using assms(3,4) by (auto simp: pin_def split: if_splits)
  next
    case (step_grow reserve grow stop)
    then show ?thesis using assms(3,4) by (auto elim: ensure_write_capacity_cases)
  next
    case (step_publish_dirty off len stop)
    then show ?thesis using assms(3,4) publish_dirty_fields(21) [OF assms(2) step_publish_dirty(4,3)] by simp
  qed (use assms(3,4) False in \<open>auto simp: touch_def rollback_fetch_def mark_bad_def Let_def
      checksum_mismatch_def disable_eviction_def retire_generation_def register_waiter_def
      take_token_def end_async_wait_def split: option.splits if_splits prod.splits nat.splits\<close>)
qed

section \<open>Ownership and accounting in all reachable states\<close>





text \<open>
  In every reachable state the pin count of a region is the number of reader pins that
  cover it plus the pins of the parts being verified and of the fetches being verified, the
  total the retirement waits for is the sum of the counts, and the number of checksum
  operations is that of the busy parts plus one while the manifest is loading.
\<close>

lemma pins_are_accounted:
  assumes "entry_reachable (e, h)"
  shows "(\<forall>r<length (e_region_pins e). e_region_pins e ! r =
      length (filter (\<lambda>(off, len). cover (e_block_size e) off len r) (all_pins h)) +
      length (filter (\<lambda>(part, s). part_busy s \<and>
        cover (e_block_size e) (part_offset part) (part_size part) r)
        (zip (e_checksum_parts e) (e_checksum_states e))) +
      length (filter (\<lambda>a. af_verifying a \<and> cover (e_block_size e) (af_offset a) (af_length a) r)
        (e_active_claims e))) \<and>
    e_pinned_regions e = of_nat (sum_list (e_region_pins e)) \<and>
    e_checksum_ops e = length (filter part_busy (e_checksum_states e)) +
      (if e_checksum_manifest e = kChecksumLoading then 1 else 0)"
proof -
  have "entry_inv e h" using reachable_inv [OF assms] by simp
  note inv = entryD [OF this]
  show ?thesis
    using inv(3,4)
    by (simp add: acct_inv_def man_inv_def held_pins_def part_pins_def fetch_pins_def)
qed

lemma pins_are_accounted_example: "e_pinned_regions ex_verifying = 3 \<and> e_region_pins ex_verifying ! 0 = 2"
  using pins_are_accounted [OF ex_reach_verifying] by (simp add: ex_verifying_def)

end
