(* ===== verification/Cache_Entry_Safety.thy ===== *)
theory Cache_Entry_Safety
  imports Cache_Entry_Props
begin

text \<open>
  What the cached generation promises its users: the bytes a reader has pinned stay, a retry
  waits for exactly the readers of its blocks, an exported generation is frozen, and a
  retirement is complete when it returns.
\<close>

lemma pin_clean_cases:
  assumes "pin_clean off len e = Inr (True, e')"
  obtains (empty) "len = 0" "e' = e"
  | (pinned) "0 < len" "\<not> e_stale e" "range_all_state (e_bitmap e) off len CACHE_PAGE_CLEAN"
      "checksum_blocked_locked e off len = kPartUnverified"
      "e' = (add_pins off len e)\<lparr>e_referenced :=
         reference_regions (span e off len) (e_referenced (add_pins off len e))\<rparr>"
proof (cases "e_stale e \<or> len = 0")
  case True
  then show ?thesis using assms empty by (auto simp: pin_clean_def split: if_splits)
next
  case False
  then have nf: "\<not> e_stale e" "\<not> len = 0" by simp_all
  note d = assms [unfolded pin_clean_def if_not_P [OF nf(1)] if_not_P [OF nf(2)] Let_def]
  have g: "\<not> (\<not> range_all_state (e_bitmap e) off len CACHE_PAGE_CLEAN \<or>
      checksum_blocked_locked e off len \<noteq> kPartUnverified)" (is "\<not> ?g")
  proof
    assume g: ?g
    show False using d unfolding if_P [OF g] by simp
  qed
  have o: "\<not> list_ex (\<lambda>r. e_region_pins e ! r = UINT32_MAX) (span e off len)" (is "\<not> ?o")
  proof
    assume o: ?o
    show False using d unfolding if_not_P [OF g] if_P [OF o] by simp
  qed
  from d [unfolded if_not_P [OF g] if_not_P [OF o] sum.inject prod.inject] g nf pinned
  show ?thesis by blast
qed

section \<open>Pinned bytes\<close>





text \<open>
  C9. The one exception is real. A generation can be retired while the retry of a corrupt
  fetch waits for its readers; the retry is then given up as failed, and ending it punches
  out the blocks although a reader still holds its pin on their bytes.
\<close>

theorem retired_retry_punches_pinned_bytes:
  "entry_reachable (ex_retired, [(0, 100)], []) \<and> e_stale ex_retired \<and>
   (\<exists>e'. begin_retry_locked ex_claim ex_verifying = Inr (False, e')) \<and>
   begin_retry_wait 0 ex_claim ex_retired =
     (Inl (SystemError ESTALE ''retry retired cache fetch''), ex_retired) \<and>
   0 \<in> e_data ex_retired \<and> 0 \<notin> e_data (finish_retry (\<lambda>_. True) ex_claim False ex_retired)"
proof -
  have "e_stale ex_retired" "0 \<in> e_data ex_retired"
    by (simp_all add: ex_run ex_retired_def ex_retrying_def ex_verifying_def)
  moreover have "find_active ex_claim ex_retired = Some 0"
    by (simp add: ex_run ex_retired_def ex_retrying_def ex_verifying_def find_active_def
        claim_matches_def ex_fetch_def ex_claim_def)
  moreover have "e_data (finish_retry (\<lambda>_. True) ex_claim False ex_retired) = {}"
    by (simp add: finish_retry_def ex_mark_bad_step ex_finish_step)
  ultimately show ?thesis
    using ex_reach_retired ex_retry_step
    by (simp add: begin_retry_wait_def retry_wait_def begin_retry_locked_def Let_def)
qed

section \<open>Retries\<close>

lemma unclean_not_pinned:
  assumes "shape e" "page_state (e_bitmap e) p \<noteq> CACHE_PAGE_CLEAN" "p * U < off + len"
    "off < p * U + U" "0 < len" "off + len \<le> e_size e"
  shows "pin_clean off len e = Inr (False, e)"
proof -
  note s = shapeD [OF assms(1)]
  have "off + len \<le> 2 ^ 64" using assms(6) s(3) by linarith
  note bytes = range_all_state_bytes [OF this, of "e_bitmap e" CACHE_PAGE_CLEAN]
  define x where "x = max off (p * U)"
  have "x div U = p" "off \<le> x" "x < off + len"
    using assms(3-5) by (auto simp: x_def max_def div_eq_iff_between [OF U_pos] ac_simps)
  then have "\<not> range_all_state (e_bitmap e) off len CACHE_PAGE_CLEAN"
    using bytes assms(2) by metis
  then show ?thesis using assms(5) by (auto simp: pin_clean_def)
qed

text \<open>
  When a verified fetch turns out corrupt, the retry is told to go on exactly when no
  reader holds a pin on a block of the fetch; and from the first attempt on no new reader
  can pin a byte of the fetch that has not been published again.
\<close>

lemma retry_waits_for_readers:
  assumes "entry_reachable (e, h)" "begin_retry_locked claim e = Inr (ready, e')"
  shows "(ready \<longleftrightarrow> (\<forall>(off, len)\<in>set (all_pins h). \<forall>r.
      \<not> (cover (e_block_size e) off len r \<and>
         cover (e_block_size e) (cl_offset claim) (cl_length claim) r))) \<and>
    (\<exists>i. find_active claim e' = Some i \<and> af_retrying (e_active_claims e' ! i) \<and>
      (\<forall>p off len. tail (e_active_claims e' ! i) p \<and> p * U < off + len \<and> off < p * U + U \<and>
        0 < len \<and> off + len \<le> e_size e \<longrightarrow> pin_clean off len e' = Inr (False, e')))"
proof -
  have ei: "entry_inv e h" using reachable_inv [OF assms(1)] by simp
  have ei': "entry_inv e' h" by (rule begin_retry_inv [OF ei assms(2)])
  note inv = entryD [OF ei] and inv' = entryD [OF ei']
  obtain i where f: "find_active claim e = Some i"
    and ready: "ready = retry_pins_ready_locked e' (cl_offset claim) (cl_length claim)"
    and e': "e' = (if af_retrying (e_active_claims e ! i) then e
       else notify_waiters_locked (e\<lparr>
         e_bitmap := fill_states CACHE_PAGE_READ_PENDING
           [cl_offset claim div U ..< claim_end_page e claim] (e_bitmap e),
         e_active_claims := (e_active_claims e)
           [i := (e_active_claims e ! i)\<lparr>af_published := 0, af_retrying := True\<rparr>]\<rparr>))"
    using assms(2) by (rule begin_retry_cases)
  note fd = find_activeD [OF f]
  note wf = find_active_wf [OF inv(2) f]
  have sz: "e_size e' = e_size e" "e_block_size e' = e_block_size e" by (simp_all add: e')
  have "find_active claim e' = Some i \<and> af_retrying (e_active_claims e' ! i)"
  proof (cases "af_retrying (e_active_claims e ! i)")
    case True
    then show ?thesis using f e' by simp
  next
    case False
    have "find_index (claim_matches claim) ((e_active_claims e)
        [i := (e_active_claims e ! i)\<lparr>af_published := 0, af_retrying := True\<rparr>]) = Some i"
      using f unfolding find_active_def
      by (rule find_index_update) (simp add: claim_matches_def fd)
    then show ?thesis using False e' fd(1) by (simp add: find_active_def)
  qed
  moreover have "pin_clean off len e' = Inr (False, e')"
    if t: "tail (e_active_claims e' ! i) p" and o: "p * U < off + len" "off < p * U + U" "0 < len"
      "off + len \<le> e_size e" and i: "find_active claim e' = Some i" for p off len
    using unclean_not_pinned [OF inv'(1) _ o(1-3)] o(4) ownD(4) [OF inv'(2) find_activeD(2) [OF i] t] sz
    by auto
  moreover have "ready \<longleftrightarrow> (\<forall>(off, len)\<in>set (all_pins h). \<forall>r.
      \<not> (cover (e_block_size e) off len r \<and> cover (e_block_size e) (cl_offset claim) (cl_length claim) r))"
    unfolding ready sz(2) [symmetric] by (rule retry_pins_ready_iff [OF ei' wf(2)]) (use wf(3) sz in simp)
  ultimately show ?thesis by blast
qed

lemma retry_waits_for_readers_example: "pin_clean 35000 10 ex_retrying = Inr (False, ex_retrying)"
proof -
  have "find_active ex_claim ex_retrying = Some 0"
    by (simp add: ex_run ex_retrying_def ex_verifying_def find_active_def
        claim_matches_def ex_fetch_def ex_claim_def)
  moreover have "tail (e_active_claims ex_retrying ! 0) 1" "e_size ex_verifying = 40000"
    by (simp_all add: ex_run ex_retrying_def ex_verifying_def ex_fetch_def tail_def ex_open_eq
        kCacheBitmapUnit_def)
  ultimately obtain r: "find_active ex_claim ex_retrying = Some 0" "tail (e_active_claims ex_retrying ! 0) 1"
    "e_size ex_verifying = 40000" by blast
  obtain i where i: "find_active ex_claim ex_retrying = Some i"
    and no: "\<forall>p off len. tail (e_active_claims ex_retrying ! i) p \<and> p * U < off + len \<and>
      off < p * U + U \<and> 0 < len \<and> off + len \<le> e_size ex_verifying \<longrightarrow>
      pin_clean off len ex_retrying = Inr (False, ex_retrying)"
    using retry_waits_for_readers [OF ex_reach_verifying ex_retry_step] by blast
  then have "i = 0" using r(1) by simp
  then show ?thesis
    using no [rule_format, of 1 35000 10] r(2,3) by (simp add: kCacheBitmapUnit_def)
qed

section \<open>Export\<close>

lemma claim_checksum_exported:
  "claim_checksum off len skip e = Inr (c, e') \<Longrightarrow> e_exported e \<Longrightarrow> e' = e"
  by (erule claim_checksum_cases) simp_all

lemma no_active [simp]:
  assumes "e_active_claims e = []"
  shows "find_active claim e = None"
  using assms by (simp add: find_active_def)

lemma claim_fetch_exported: "claim_fetch off len x e = Inr (c, e') \<Longrightarrow> e_exported e \<Longrightarrow> e' = e"
  by (auto simp: claim_fetch_def split: if_splits)

lemma unpin_pages:
  "e_bitmap (unpin off len e) = e_bitmap e" "e_header (unpin off len e) = e_header e"
proof -
  obtain b e1 where d: "drop_pins (span e off len) e = (b, e1)" by fastforce
  have "e_bitmap e1 = e_bitmap e" "e_header e1 = e_header e"
    using drop_pins_frame [of "span e off len" e] d by simp_all
  then show "e_bitmap (unpin off len e) = e_bitmap e" "e_header (unpin off len e) = e_header e"
    by (simp_all add: unpin_def d)
qed

lemma idle_part:
  assumes "\<forall>s\<in>set (e_checksum_states e). \<not> part_busy s"
  shows "finish_checksum c v e = e" "abandon_checksum c e = e"
    "begin_checksum_retry_locked c e \<noteq> Inr r"
proof -
  have "cc_part c \<ge> length (e_checksum_states e) \<or> \<not> part_busy (e_checksum_states e ! cc_part c)"
    using assms nth_mem not_le by blast
  then have g: "cc_part c \<ge> length (e_checksum_states e) \<or> cc_epoch c \<noteq> e_epoch e \<or>
      \<not> part_busy (e_checksum_states e ! cc_part c)" by blast
  show "finish_checksum c v e = e" unfolding finish_checksum_def if_P [OF g] ..
  show "abandon_checksum c e = e" unfolding abandon_checksum_def if_P [OF g] ..
  show "begin_checksum_retry_locked c e \<noteq> Inr r"
    using g by (auto simp: begin_checksum_retry_locked_def)
qed

text \<open>
  C8. An exported generation is complete and stays so: every page is clean and in the data
  file, no fetch or verification is under way, and no step of any thread changes a page
  state, takes out or adds bytes, or ends the export; a writer that prepares a range there
  can only lengthen the bitmap behind the pages.
\<close>

theorem exported_generation_is_frozen:
  assumes "entry_reachable (e, h)" "e_exported e" "entry_step (e, h) op (e', h')"
  shows "(\<forall>p<e_page_count e. page_state (e_bitmap e) p = CACHE_PAGE_CLEAN \<and> p \<in> e_data e) \<and>
    e_active_claims e = [] \<and>
    (e_bitmap e' = e_bitmap e \<or>
      (\<exists>stop k. op = OpGrow stop \<and> e_bitmap e' = e_bitmap e @ replicate k 0)) \<and>
    e_data e' = e_data e \<and> e_exported e'"
proof -
  have ei: "entry_inv e h" using reachable_inv [OF assms(1)] by simp
  note inv = entryD [OF ei]
  have x: "e_active_claims e = []" "\<forall>s\<in>set (e_checksum_states e). \<not> part_busy s"
    "\<forall>p<e_page_count e. page_state (e_bitmap e) p = CACHE_PAGE_CLEAN"
    using inv(6) assms(2) by (simp_all add: exp_inv_def)
  have "(e_bitmap e' = e_bitmap e \<or>
      (\<exists>stop k. op = OpGrow stop \<and> e_bitmap e' = e_bitmap e @ replicate k 0)) \<and>
    e_data e' = e_data e \<and> e_exported e'"
  proof (cases "writer_op op")
    case True
    then show ?thesis using writer_step [OF assms(3)] assms(2) by (simp add: write_frame_def)
  next
    case False
    from assms(3) show ?thesis
    proof (cases rule: entry_step.cases)
      case (step_pin off len)
      from step_pin(3) show ?thesis
        by (rule pin_clean_cases) (use assms(2) step_pin(4) in \<open>simp_all add: add_pins_def\<close>)
    next
      case (step_unpin off len)
      then show ?thesis using assms(2) by (simp add: unpin_pages)
    next
      case (step_claim off len x claim)
      have "e' = e" by (rule claim_fetch_exported [OF step_claim(3) assms(2)])
      then show ?thesis using assms(2) by simp
    next
      case (step_claim_part off len skip c)
      have "e' = e" by (rule claim_checksum_exported [OF step_claim_part(3) assms(2)])
      then show ?thesis using assms(2) by simp
    next
      case (step_pin_verify claim b)
      then show ?thesis using x(1) assms(2) by (auto simp: pin_fetch_verification_def)
    next
      case (step_retry claim b)
      then show ?thesis using x(1) by (auto simp: begin_retry_locked_def)
    next
      case (step_manifest ev r)
      then show ?thesis using begin_checksum_manifest_cases [OF step_manifest(3)] assms(2) by auto
    next
      case (step_export verify b)
      then show ?thesis using assms(2) by (auto elim: try_export_cases)
    next
      case (step_retry_part c b)
      then show ?thesis using idle_part(3) [OF x(2)] by blast
    next
      case (step_mismatch c)
      then show ?thesis using assms(2) by (auto simp: checksum_mismatch_def)
    next
      case (step_touch off len)
      then show ?thesis using assms(2) by (simp add: touch_def)
    next
      case (step_write claim len)
      then show ?thesis using assms(2) by (simp add: fetch_write_def x(1))
    next
      case (step_publish claim len n final)
      then show ?thesis using assms(2) by (simp add: publish_clean_def x(1))
    next
      case (step_finish claim hole)
      then show ?thesis using assms(2) by (simp add: finish_fetch_def x(1))
    next
      case (step_rollback claim)
      then show ?thesis using assms(2) by (simp add: rollback_fetch_def x(1))
    next
      case (step_mark_bad claim)
      then show ?thesis using assms(2) by (simp add: mark_bad_def x(1))
    next
      case (step_manifest_parts parts)
      then show ?thesis using assms(2) by (simp add: finish_checksum_manifest_def Let_def)
    next
      case (step_manifest_none)
      then show ?thesis using assms(2) by (simp add: checksum_manifest_unavailable_def)
    next
      case (step_finish_part c valid)
      then show ?thesis using assms(2) idle_part [OF x(2)] by (simp)
    next
      case (step_abandon_part c)
      then show ?thesis using assms(2) idle_part [OF x(2)] by (simp)
    next
      case (step_evict env)
      then show ?thesis using assms(2) by (simp add: evict_one_region_def)
    next
      case (step_disable)
      then show ?thesis using assms(2) by (simp add: disable_eviction_def)
    next
      case (step_retire ev wait y)
      then show ?thesis using assms(2) by (simp add: retire_generation_def Let_def)
    next
      case (step_pin_any off len)
      then show ?thesis using assms(2) by (auto simp: pin_def split: if_splits)
    next
      case (step_unpin_any off len)
      then show ?thesis using assms(2) by (simp add: unpin_pages)
    next
      case (step_grow reserve grow stop)
      from step_grow(3) show ?thesis
        by (rule ensure_write_capacity_cases) (use step_grow(1) assms(2) in auto)
    next
      case (step_publish_dirty off len stop)
      then show ?thesis using assms(2) by (simp add: next_write_def)
    qed (use assms(2) False in \<open>auto simp: register_waiter_def take_token_def end_async_wait_def
        split: option.splits if_splits nat.splits\<close>)
  qed
  then show ?thesis using x ownD(7) [OF inv(2)] by blast
qed

text \<open>The small object, exported, as a later process opens it again.\<close>

definition ex_exported :: CacheEntry where
  "ex_exported = CacheEntry_new ex_config ''k'' (ex_header True) [10] False 40000 {0, 1} True (\<lambda>_. True)"

lemma ex_clean_pages: "page_state [10] 0 = CACHE_PAGE_CLEAN" "page_state [10] (Suc 0) = CACHE_PAGE_CLEAN"
  by (simp_all add: ex_states code_state_def)

lemma ex_exported_reach: "entry_reachable (ex_exported, [], [])" "e_exported ex_exported"
  "e_page_count ex_exported = 2"
proof -
  have "opens_ok ex_config (ex_header True) [10] 40000 {0, 1}"
    by (simp add: opens_ok_def ex_config_def ex_header_def kCacheBitmapUnit_def ex_upt
        ex_clean_pages)
  then show "entry_reachable (ex_exported, [], [])" unfolding ex_exported_def by (rule reach_open)
  show "e_exported ex_exported" "e_page_count ex_exported = 2"
    by (simp_all add: ex_exported_def CacheEntry_new_def ex_config_def ex_header_def Let_def
        kCacheBitmapUnit_def recover_block_def ex_upt)
qed

theorem exported_generation_is_frozen_witness:
  "1 \<in> e_data ex_exported \<and> e_data (snd (evict_one_region
     \<lparr>stat_before = Some 8, punched = True, stat_after = Some 0\<rparr> ex_exported)) = e_data ex_exported"
proof -
  have "1 < e_page_count ex_exported" by (simp add: ex_exported_reach)
  with exported_generation_is_frozen [OF ex_exported_reach(1,2) step_evict] show ?thesis by blast
qed

end
