(* ===== verification/Cache_Entry_Live.thy ===== *)
theory Cache_Entry_Live
  imports Cache_Entry_Safety
begin

text \<open>
  Waiting and retirement: a retirement that returns leaves a generation nobody uses and that
  never changes again, and a step that makes a range ready wakes everybody who waits.
\<close>

section \<open>Retirement\<close>







section \<open>Wake-ups\<close>

text \<open>Changes that cannot make a range ready.\<close>

lemma ready_antimono:
  assumes "range_ready_locked e' off len"
    and fr: "e_stale e' = e_stale e" "e_size e' = e_size e" "e_block_size e' = e_block_size e"
      "e_page_count e' = e_page_count e"
      "checksum_blocked_locked e' off len = checksum_blocked_locked e off len"
    and bad: "\<And>p. page_state (e_bitmap e') p = CACHE_PAGE_BAD \<Longrightarrow> page_state (e_bitmap e) p = CACHE_PAGE_BAD"
    and pend: "\<And>p. page_state (e_bitmap e) p = CACHE_PAGE_READ_PENDING \<Longrightarrow>
      page_state (e_bitmap e') p = CACHE_PAGE_READ_PENDING"
    and pins: "\<And>b p. b < length (e_region_pins e) \<Longrightarrow> e_region_pins e ! b \<noteq> 0 \<Longrightarrow>
      p \<in> set (block_pages e (b * e_block_size e)) \<Longrightarrow> page_state (e_bitmap e) p \<noteq> CACHE_PAGE_CLEAN \<Longrightarrow>
      b < length (e_region_pins e') \<and> e_region_pins e' ! b \<noteq> 0 \<and>
      page_state (e_bitmap e') p \<noteq> CACHE_PAGE_CLEAN"
  shows "range_ready_locked e off len"
proof -
  have bp: "block_pages e' x = block_pages e x" for x
    unfolding block_pages_def block_first_page_def block_last_page_def fr ..
  have br: "block_ready e b" if "block_ready e' b" for b
  proof -
    from that have np: "\<forall>p\<in>set (block_pages e (b * e_block_size e)).
        page_state (e_bitmap e) p \<noteq> CACHE_PAGE_READ_PENDING"
      and hole: "\<not> ((\<exists>p\<in>set (block_pages e (b * e_block_size e)). page_state (e_bitmap e') p \<noteq> CACHE_PAGE_CLEAN) \<and>
        b < length (e_region_pins e') \<and> e_region_pins e' ! b \<noteq> 0)"
      using pend by (auto simp: block_ready_def Let_def bp fr list_ex_iff split: if_splits)
    have "\<not> ((\<exists>p\<in>set (block_pages e (b * e_block_size e)). page_state (e_bitmap e) p \<noteq> CACHE_PAGE_CLEAN) \<and>
        b < length (e_region_pins e) \<and> e_region_pins e ! b \<noteq> 0)"
      using hole pins [of b] by blast
    then show ?thesis using np by (auto simp: block_ready_def Let_def list_ex_iff)
  qed
  show ?thesis
    using assms(1) br bad pend
    by (fastforce simp: range_ready_locked_def Let_def fr list_ex_iff list_all_iff split: if_splits)
qed

lemma blocked_scan_cong:
  assumes "list_all2 (\<lambda>(q, s) (q', s'). q' = q \<and> (s' = kPartBad \<longleftrightarrow> s = kPartBad) \<and>
      (s' = kPartRetrying \<longleftrightarrow> s = kPartRetrying)) xs ys"
  shows "blocked_scan ys stop b = blocked_scan xs stop b"
  using assms by (induction xs ys arbitrary: b rule: list_all2_induct) auto

lemma checksum_blocked_cong:
  assumes "e_stale e' = e_stale e" "e_size e' = e_size e" "e_checksum_parts e' = e_checksum_parts e"
    "length (e_checksum_states e') = length (e_checksum_states e)"
    "\<And>i. i < length (e_checksum_states e) \<Longrightarrow>
      (e_checksum_states e' ! i = kPartBad \<longleftrightarrow> e_checksum_states e ! i = kPartBad) \<and>
      (e_checksum_states e' ! i = kPartRetrying \<longleftrightarrow> e_checksum_states e ! i = kPartRetrying)"
  shows "checksum_blocked_locked e' off len = checksum_blocked_locked e off len"
proof -
  have "list_all2 (\<lambda>(q, s) (q', s'). q' = q \<and> (s' = kPartBad \<longleftrightarrow> s = kPartBad) \<and>
      (s' = kPartRetrying \<longleftrightarrow> s = kPartRetrying))
    (drop n (zip (e_checksum_parts e) (e_checksum_states e)))
    (drop n (zip (e_checksum_parts e) (e_checksum_states e')))" for n
    by (intro list_all2_dropI) (use assms(4,5) in \<open>auto simp: list_all2_conv_all_nth\<close>)
  note eq = blocked_scan_cong [OF this]
  show ?thesis unfolding checksum_blocked_locked_def Let_def assms(1-3) eq ..
qed

text \<open>An operation that changes nothing the readiness of a range depends on.\<close>

lemma ready_cong:
  assumes "range_ready_locked e' off len" "e_stale e' = e_stale e" "e_size e' = e_size e"
    "e_block_size e' = e_block_size e" "e_page_count e' = e_page_count e"
    "e_checksum_parts e' = e_checksum_parts e" "e_checksum_states e' = e_checksum_states e"
    "\<And>p. page_state (e_bitmap e') p = page_state (e_bitmap e) p"
    "length (e_region_pins e') = length (e_region_pins e)"
    "\<And>r. r < length (e_region_pins e) \<Longrightarrow> e_region_pins e ! r \<le> e_region_pins e' ! r"
  shows "range_ready_locked e off len"
proof (rule ready_antimono [OF assms(1-5)], goal_cases)
  case 1
  show ?case by (rule checksum_blocked_cong) (use assms in simp_all)
next
  case (4 b p)
  then show ?case using assms(8,9) assms(10) [of b] by auto
qed (use assms(8) in simp_all)

lemma notify_event:
  "e_wait_event e = Some n \<Longrightarrow> e_wait_event (notify_waiters_locked e) = Some (n + e_waiters e)"
  by (simp add: notify_waiters_locked_def)

text \<open>A step posts a token for every waiter, or it makes no range ready.\<close>

definition wakes :: "CacheEntry \<Rightarrow> CacheEntry \<Rightarrow> bool" where
  "wakes e e' \<longleftrightarrow> (\<forall>n. e_wait_event e = Some n \<longrightarrow> e_wait_event e' = Some (n + e_waiters e))"

definition keeps_waiting :: "CacheEntry \<Rightarrow> CacheEntry \<Rightarrow> bool" where
  "keeps_waiting e e' \<longleftrightarrow>
     (\<forall>off len. off + len \<le> e_size e \<longrightarrow> range_ready_locked e' off len \<longrightarrow> range_ready_locked e off len)"

lemma wakes_notify:
  "e_wait_event e1 = e_wait_event e \<Longrightarrow> e_waiters e1 = e_waiters e \<Longrightarrow> wakes e (notify_waiters_locked e1)"
  by (simp add: wakes_def notify_event)

lemma keeps_refl: "keeps_waiting e e"
  by (simp add: keeps_waiting_def)

lemma keeps_same:
  assumes "e_stale e' = e_stale e" "e_size e' = e_size e"
    "e_block_size e' = e_block_size e" "e_page_count e' = e_page_count e"
    "e_checksum_parts e' = e_checksum_parts e" "e_checksum_states e' = e_checksum_states e"
    "\<And>p. page_state (e_bitmap e') p = page_state (e_bitmap e) p"
    "length (e_region_pins e') = length (e_region_pins e)"
    "\<And>r. r < length (e_region_pins e) \<Longrightarrow> e_region_pins e ! r \<le> e_region_pins e' ! r"
  shows "keeps_waiting e e'"
  unfolding keeps_waiting_def using ready_cong [OF _ assms] by blast

lemma length_add_pins [simp]:
  "length (e_region_pins (add_pins off len e)) = length (e_region_pins e)"
  by (simp add: add_pins_def)

lemma keeps_pinned:
  assumes "shape e" "0 < len" "off + len \<le> e_size e" "r < length (e_region_pins e)"
  shows "e_region_pins e ! r \<le> e_region_pins (add_pins off len e) ! r"
proof -
  note sp = span_cover [OF assms(1-3)]
  have "distinct (span e off len)" "\<forall>r\<in>set (span e off len). r < length (e_region_pins e)"
    using sp(4) by (auto simp: sp(1) simp del: upt_Suc)
  then show "e_region_pins e ! r \<le> e_region_pins (add_pins off len e) ! r"
    using assms(4) by (simp_all add: add_pins_def nth_increment_pins)
qed

lemma pin_keeps:
  assumes "shape e" "pin_clean off len e = Inr (True, e')" "0 < len" "off + len \<le> e_size e"
  shows "keeps_waiting e e'"
  using assms(2)
proof (cases rule: pin_clean_cases)
  case pinned
  then show ?thesis using keeps_pinned [OF assms(1,3,4)] by (intro keeps_same) simp_all
qed (simp add: keeps_refl)

lemma unpin_wakes: 
  assumes "shape e" "0 < len" "off + len \<le> e_size e"
  shows "wakes e (unpin off len e) \<or> keeps_waiting e (unpin off len e)"
proof -
  note sp = span_cover [OF assms]
  obtain b e1 where d: "drop_pins (span e off len) e = (b, e1)" by fastforce
  have "distinct (span e off len)" "\<forall>r\<in>set (span e off len). r < length (e_region_pins e)"
    using sp(4) by (auto simp: sp(1) simp del: upt_Suc)
  note ds = drop_pins_spec [OF d this]
  note fr = drop_pins_frame [of "span e off len" e, unfolded d snd_conv]
  show ?thesis
  proof (cases b)
    case True
    then have "unpin off len e = notify_waiters_locked e1" using assms(2) d by (simp add: unpin_def)
    then show ?thesis using wakes_notify [of e1 e] fr by simp
  next
    case False
    then have "unpin off len e = e1" using assms(2) d by (simp add: unpin_def)
    moreover have "keeps_waiting e e1"
      using ds(3,5) False fr by (intro keeps_same) (auto simp: ds(2))
    ultimately show ?thesis by simp
  qed
qed

lemma claim_fetch_keeps:
  assumes "shape e" "claim_fetch off len x e = Inr (c, e')"
  shows "keeps_waiting e e'"
  using assms
proof (cases rule: claim_fetch_cases)
  case (fetch start stop)
  define pages where "pages = [block_first_page e start ..< min (e_page_count e) ((stop - 1) div U + 1)]"
  have b: "\<forall>p\<in>set pages. p < 32 * length (e_bitmap e)"
    using shapeD(4) [OF assms(1)] by (auto simp: pages_def)
  have e': "e_stale e' = e_stale e" "e_size e' = e_size e" "e_block_size e' = e_block_size e"
    "e_page_count e' = e_page_count e" "e_checksum_parts e' = e_checksum_parts e"
    "e_checksum_states e' = e_checksum_states e" "e_region_pins e' = e_region_pins e"
    "e_bitmap e' = fill_states CACHE_PAGE_READ_PENDING pages (e_bitmap e)"
    using fetch(12) by (auto simp: start_fetch_def Let_def pages_def)
  have "range_ready_locked e off len" if "range_ready_locked e' off len" for off len
  proof (rule ready_antimono [OF that e'(1-4)], goal_cases)
    case 1
    show ?case by (rule checksum_blocked_cong) (simp_all add: e'(1,2,5,6))
  next
    case (4 b p)
    then show ?case unfolding e'(7,8) page_state_fill [OF b] by simp
  qed (simp_all add: e'(8) page_state_fill [OF b] split: if_splits)
  then show ?thesis by (simp add: keeps_waiting_def)
qed (simp add: keeps_refl)

lemma publish_wakes:
  assumes "shape e" "own_inv e"
  shows "wakes e (publish_clean c n len final e) \<or> keeps_waiting e (publish_clean c n len final e)"
  using assms
proof (cases rule: publish_clean_cases [where claim = c and published = n and len = len and final = final])
  case (publish i words pub ch)
  show ?thesis
  proof (cases ch)
    case True
    then show ?thesis using wakes_notify by (simp add: publish(10))
  next
    case False
    then have "page_state words p = page_state (e_bitmap e) p" for p
      using publish(9) unfolding publish(8) by auto
    then have "keeps_waiting e (publish_clean c n len final e)"
      using False by (intro keeps_same) (simp_all add: publish(10))
    then show ?thesis by blast
  qed
qed (simp add: keeps_refl)

lemma pin_verification_keeps:
  assumes "shape e" "own_inv e" "pin_fetch_verification c e = Inr (b, e')"
  shows "keeps_waiting e e'"
  using assms(3)
proof (cases rule: pin_fetch_verification_cases)
  case (pinned i first stop)
  have "distinct [first..<stop]" by simp
  note nth = nth_increment_pins [OF this]
  show ?thesis unfolding pinned(12) by (intro keeps_same) (simp_all add: nth)
qed (simp add: keeps_refl)

lemma retry_wakes:
  "begin_retry_locked c e = Inr (b, e') \<Longrightarrow> wakes e e' \<or> keeps_waiting e e'"
  "begin_checksum_retry_locked cc e = Inr (b, e') \<Longrightarrow> wakes e e' \<or> keeps_waiting e e'"
   by (erule begin_retry_cases, simp add: wakes_notify keeps_refl)
      (erule begin_checksum_retry_cases, simp add: wakes_notify keeps_refl)

lemma claim_part_keeps:
  assumes "entry_inv e h" "claim_checksum off len skip e = Inr (c, e')"
  shows "keeps_waiting e e'"
  using assms(2)
proof (cases rule: claim_checksum_cases)
  case (verify i)
  note inv = entryD [OF assms(1)]
  note fits = part_fits [OF inv(4) verify(3)]
  have "range_ready_locked e off len" if "range_ready_locked e' off len" for off len
  proof (rule ready_antimono [OF that], goal_cases)
    case 5
    show ?case by (rule checksum_blocked_cong) (use verify(5) in \<open>auto simp: verify(8) nth_list_update [OF verify(4)]\<close>)
  next
    case (8 b p)
    then show ?case using keeps_pinned [OF inv(1) fits(1,2), of b] by (simp add: verify(8))
  qed (simp_all add: verify(8))
  then show ?thesis by (simp add: keeps_waiting_def)
qed (simp add: keeps_refl)

definition same_but_pages :: "CacheEntry \<Rightarrow> CacheEntry \<Rightarrow> bool" where
  "same_but_pages e e' \<longleftrightarrow>
     e_stale e' = e_stale e \<and> e_size e' = e_size e \<and> e_block_size e' = e_block_size e \<and>
     e_page_count e' = e_page_count e \<and> e_checksum_parts e' = e_checksum_parts e \<and>
     e_checksum_states e' = e_checksum_states e \<and> e_region_pins e' = e_region_pins e"

lemma same_but_pages_trans: "same_but_pages e e' \<Longrightarrow> same_but_pages e' e'' \<Longrightarrow> same_but_pages e e''"
  by (simp add: same_but_pages_def)

lemma evict_region_frame: "same_but_pages e (snd (evict_region env off pages e))"
  by (simp add: evict_region_def same_but_pages_def Let_def split: option.split)

lemma same_if:
  "same_but_pages e (snd a) \<Longrightarrow> same_but_pages e (snd b) \<Longrightarrow> same_but_pages e (snd (if c then a else b))"
  by simp

lemma evict_scan_frame: "same_but_pages e (snd (evict_scan n env e))"
proof (induction n arbitrary: e)
  case (Suc n)
  have r: "same_but_pages e (e\<lparr>e_clock_hand := c\<rparr>)" "same_but_pages e (e\<lparr>e_clock_hand := c, e_referenced := x\<rparr>)"
    for c x by (simp_all add: same_but_pages_def)
  show ?case unfolding evict_scan.simps Let_def
    by (intro same_if same_but_pages_trans [OF r(2) Suc.IH] same_but_pages_trans [OF r(1) Suc.IH]
        same_but_pages_trans [OF r(1) evict_region_frame])
qed (simp add: same_but_pages_def)

lemma evict_one_region_frame:
  "e_stale (snd (evict_one_region env e)) = e_stale e" "e_size (snd (evict_one_region env e)) = e_size e"
  "e_block_size (snd (evict_one_region env e)) = e_block_size e"
  "e_page_count (snd (evict_one_region env e)) = e_page_count e"
  "e_checksum_parts (snd (evict_one_region env e)) = e_checksum_parts e"
  "e_checksum_states (snd (evict_one_region env e)) = e_checksum_states e"
  "e_region_pins (snd (evict_one_region env e)) = e_region_pins e"
  using evict_scan_frame [of e "length (e_referenced e)" env]
  by (simp_all add: evict_one_region_def same_but_pages_def)

lemma evict_keeps:
  assumes "shape e"
  shows "keeps_waiting e (snd (evict_one_region env e))"
proof -
  let ?e = "snd (evict_one_region env e)"
  have fr: "e_stale ?e = e_stale e" "e_size ?e = e_size e" "e_block_size ?e = e_block_size e"
    "e_page_count ?e = e_page_count e" "e_checksum_parts ?e = e_checksum_parts e"
    "e_checksum_states ?e = e_checksum_states e" "e_region_pins ?e = e_region_pins e"
    using evict_one_region_frame by blast+
  show ?thesis using assms
  proof (cases rule: evict_one_region_spec [where env = env])
    case same
    then show ?thesis by (intro keeps_same) (simp_all add: fr)
  next
    case (region r)
    have "range_ready_locked e off len" if "range_ready_locked ?e off len" for off len
    proof (rule ready_antimono [OF that fr(1-4)], goal_cases)
      case 1
      show ?case by (rule checksum_blocked_cong) (simp_all add: fr)
    next
      case (4 b p)
      then show ?case unfolding fr(7) region(8) by simp
    qed (simp_all add: region(8) split: if_splits)
    then show ?thesis by (simp add: keeps_waiting_def)
  qed
qed

lemma abandon_wakes: "wakes e (abandon_checksum c e) \<or> keeps_waiting e (abandon_checksum c e)"
proof (cases "cc_part c \<ge> length (e_checksum_states e) \<or> cc_epoch c \<noteq> e_epoch e \<or>
    \<not> part_busy (e_checksum_states e ! cc_part c)")
  case True
  show ?thesis unfolding abandon_checksum_def if_P [OF True] by (simp add: keeps_refl)
next
  case False
  show ?thesis unfolding abandon_checksum_def if_not_P [OF False] Let_def
    by (intro disjI1 wakes_notify) simp_all
qed

text \<open>The pages and the blocks of a range of the object.\<close>

lemma object_range:
  assumes "shape e" "0 < len" "off + len \<le> e_size e"
  shows "p \<in> set [range_first_page off ..< Suc (range_last_page off len)] \<Longrightarrow> p < e_page_count e"
    and "b \<in> set [off div e_block_size e ..< Suc (wrap64 (off + len - 1) div e_block_size e)] \<Longrightarrow>
      p \<in> set (block_pages e (b * e_block_size e)) \<Longrightarrow> p < e_page_count e"
proof -
  note sh = shapeD [OF assms(1)]
  have w: "wrap64 (off + len - 1) = off + len - 1" using assms(3) sh(3) by simp
  show "p < e_page_count e" if "p \<in> set [range_first_page off ..< Suc (range_last_page off len)]"
  proof -
    have "p \<le> (off + len - 1) div U" using that w by (auto simp: range_last_page_def)
    then have "p * U \<le> off + len - 1" using less_eq_div_iff_mult_less_eq [OF U_pos] by blast
    then show ?thesis unfolding sh(5) using assms(2,3) by linarith
  qed
  show "p < e_page_count e"
    if b: "b \<in> set [off div e_block_size e ..< Suc (wrap64 (off + len - 1) div e_block_size e)]"
      and p: "p \<in> set (block_pages e (b * e_block_size e))"
  proof -
    have "b \<le> (off + len - 1) div e_block_size e" using b w by auto
    then have "b * e_block_size e \<le> off + len - 1" using less_eq_div_iff_mult_less_eq [OF sh(1)] by blast
    then have "b * e_block_size e < e_size e" using assms(2,3) by linarith
    from set_block_pages [OF assms(1) this] p show ?thesis by simp
  qed
qed

lemma blocked_scan_no_retry:
  "kPartRetrying \<notin> snd ` set xs \<Longrightarrow> b \<noteq> kPartRetrying \<Longrightarrow> blocked_scan xs stop b \<noteq> kPartRetrying"
  by (induction xs stop b rule: blocked_scan.induct) auto

lemma checksum_blocked_no_retry:
  assumes "kPartRetrying \<notin> set (e_checksum_states e)"
  shows "checksum_blocked_locked e off len \<noteq> kPartRetrying"
proof -
  have "kPartRetrying \<notin> snd ` set (drop n (zip (e_checksum_parts e) (e_checksum_states e)))" for n
    using assms by (force dest!: in_set_dropD dest: set_zip_rightD)
  from blocked_scan_no_retry [OF this] show ?thesis
    by (auto simp: checksum_blocked_locked_def Let_def)
qed

text \<open>Nobody has to wait for a range when nothing is in flight and no hole is pinned.\<close>

lemma ready_at_rest:
  assumes "shape e" "off + len \<le> e_size e" "kPartRetrying \<notin> set (e_checksum_states e)"
    and "\<And>p. p < e_page_count e \<Longrightarrow> page_state (e_bitmap e) p \<noteq> CACHE_PAGE_READ_PENDING"
    and "(\<forall>p<e_page_count e. page_state (e_bitmap e) p = CACHE_PAGE_CLEAN) \<or>
      (\<forall>r<length (e_region_pins e). e_region_pins e ! r = 0)"
  shows "range_ready_locked e off len"
proof (cases "len = 0")
  case False
  then have "0 < len" by simp
  note r = object_range [OF assms(1) this assms(2)]
  have "block_ready e b"
    if b: "b \<in> set [off div e_block_size e ..< Suc (wrap64 (off + len - 1) div e_block_size e)]" for b
    using r(2) [OF b] assms(4,5) unfolding block_ready_def Let_def list_ex_iff by (metis (full_types))
  then have "list_all (block_ready e) [off div e_block_size e ..< Suc (wrap64 (off + len - 1) div e_block_size e)]"
    unfolding list_all_iff by blast
  moreover have "\<not> list_ex (\<lambda>p. page_state (e_bitmap e) p = CACHE_PAGE_READ_PENDING)
      [range_first_page off ..< Suc (range_last_page off len)]"
    unfolding list_ex_iff using r(1) assms(4) by blast
  ultimately show ?thesis
    using checksum_blocked_no_retry [OF assms(3), of off len]
    unfolding range_ready_locked_def Let_def by (simp only: if_False simp_thms split: if_split)
qed (simp add: range_ready_locked_def)

lemma grow_keeps:
  assumes "shape e"
  shows "keeps_waiting e (e\<lparr>e_bitmap := e_bitmap e @ replicate k 0\<rparr>)" (is "keeps_waiting e ?e")
  unfolding keeps_waiting_def
proof (intro allI impI)
  fix off len
  assume a: "off + len \<le> e_size e" "range_ready_locked ?e off len"
  show "range_ready_locked e off len"
  proof (cases "len = 0")
    case False
    then have "0 < len" by simp
    note r = object_range [OF assms this a(1)]
    have st: "page_state (e_bitmap e @ replicate k 0) p = page_state (e_bitmap e) p" if "p < e_page_count e" for p
      using page_state_append [of p "e_bitmap e" "replicate k 0"] that shapeD(4) [OF assms] by simp
    have fr: "e_size ?e = e_size e" "e_block_size ?e = e_block_size e" "e_page_count ?e = e_page_count e"
      "e_stale ?e = e_stale e" by simp_all
    have bp: "block_pages ?e x = block_pages e x" for x
      unfolding block_pages_def block_first_page_def block_last_page_def fr ..
    have "block_ready ?e b = block_ready e b"
      if b: "b \<in> set [off div e_block_size e ..< Suc (wrap64 (off + len - 1) div e_block_size e)]" for b
      using r(2) [OF b] st by (simp add: block_ready_def Let_def bp list_ex_iff cong: bex_cong)
    then have blocks: "list_all (block_ready ?e) [off div e_block_size e ..< Suc (wrap64 (off + len - 1) div e_block_size e)] =
      list_all (block_ready e) [off div e_block_size e ..< Suc (wrap64 (off + len - 1) div e_block_size e)]"
      unfolding list_all_iff by blast
    have pages: "list_ex (\<lambda>p. page_state (e_bitmap ?e) p = x) [range_first_page off ..< Suc (range_last_page off len)] =
      list_ex (\<lambda>p. page_state (e_bitmap e) p = x) [range_first_page off ..< Suc (range_last_page off len)]" for x
      unfolding list_ex_iff using r(1) st by (auto simp del: upt_Suc)
    have parts: "checksum_blocked_locked ?e off len = checksum_blocked_locked e off len"
      by (simp add: checksum_blocked_locked_def)
    show ?thesis
      using a(2) unfolding range_ready_locked_def Let_def parts pages fr(2,4) blocks .
  qed (simp add: range_ready_locked_def)
qed

text \<open>
  A generation that is being written has published all its pages, and nobody verifies it.
\<close>

definition fully_written :: "CacheEntry \<Rightarrow> bool" where
  "fully_written e \<longleftrightarrow> kPartRetrying \<notin> set (e_checksum_states e) \<and>
     list_all (\<lambda>p. page_state (e_bitmap e) p = CACHE_PAGE_CLEAN) [0..<e_page_count e]"

lemma fully_written_ready:
  assumes "shape e" "fully_written e"
  shows "keeps_waiting e e'"
  using assms ready_at_rest [OF assms(1)] by (simp add: keeps_waiting_def fully_written_def list_all_iff)

lemma reclaimable_ready:
  assumes "entry_inv e h" "sum_list (e_region_pins e) < 2 ^ 64" "reclaimable e"
  shows "keeps_waiting e e'"
proof -
  note inv = entryD [OF assms(1)]
  have r: "e_checksum_ops e = 0" "e_pinned_regions e = 0"
    "\<And>p. p < e_page_count e \<Longrightarrow> page_state (e_bitmap e) p = CACHE_PAGE_MISSING"
    using assms(3) by (auto simp: reclaimable_def list_all_iff)
  have "kPartRetrying \<notin> set (e_checksum_states e)"
    using inv(4) r(1) by (auto simp: man_inv_def filter_empty_conv part_busy_def split: if_splits)
  moreover have "sum_list (e_region_pins e) = 0"
    using inv(3) r(2) assms(2) unat_of_nat [of "sum_list (e_region_pins e)", where 'a = 64]
    by (simp add: acct_inv_def)
  then have "\<forall>r<length (e_region_pins e). e_region_pins e ! r = 0" by (metis nth_mem sum_list_eq_0_iff)
  ultimately show ?thesis using ready_at_rest [OF inv(1)] r(3) by (simp add: keeps_waiting_def)
qed

lemma write_frame_keeps: "write_frame e e' \<Longrightarrow> e_stale e' = e_stale e \<Longrightarrow> keeps_waiting e e'"
  by (rule keeps_same) (simp_all add: write_frame_def)

text \<open>
  The operations that end or extend a written generation do not notify: they are harmless
  where everything written so far is published.
\<close>

fun ends_write :: "entry_op \<Rightarrow> bool" where
  "ends_write OpDiscard = True"
| "ends_write (OpPublishDirty off len stop) = True"
| "ends_write op = False"

lemma writer_keeps:
  assumes "entry_step (e, h) op (e', h')" "entry_inv e h" "writer_op op"
    "ends_write op \<longrightarrow> fully_written e" "sum_list (e_region_pins e) < 2 ^ 64"
  shows "keeps_waiting e e'"
proof -
  consider "op = OpDiscard" | "op = OpReclaim" | "e_stale e' = e_stale e" "write_frame e e'"
    using writer_step [OF assms(1,3)] by blast
  then show ?thesis
  proof cases
    case 1
    then show ?thesis using fully_written_ready [OF entryD(1) [OF assms(2)]] assms(4) by simp
  next
    case 2
    then have "reclaimable e" using assms(1) by (auto elim: entry_step.cases)
    then show ?thesis by (rule reclaimable_ready [OF assms(2,5)])
  next
    case 3
    then show ?thesis using write_frame_keeps by blast
  qed
qed

lemma step_wakes_or_keeps:
  assumes "entry_step (e, h) op (e', h')" "entry_inv e h"
    "ends_write op \<longrightarrow> fully_written e" "sum_list (e_region_pins e) < 2 ^ 64"
  shows "wakes e e' \<or> keeps_waiting e e'"
proof (cases "writer_op op")
  case True
  then show ?thesis using writer_keeps [OF assms(1,2) _ assms(3,4)] by blast
next
  case False
  from assms(1) show ?thesis
  proof (cases rule: entry_step.cases)
    case (step_pin off len)
    then show ?thesis using pin_keeps [OF entryD(1) [OF assms(2)]] by blast
  next
    case (step_unpin off len)
    then have "0 < len" "off + len \<le> e_size e"
      using entryD(3) [OF assms(2)] by (auto simp: acct_inv_def)
    then show ?thesis using step_unpin unpin_wakes [OF entryD(1) [OF assms(2)]] by blast
  next
    case (step_claim off len x claim)
    then show ?thesis using claim_fetch_keeps [OF entryD(1) [OF assms(2)]] by blast
  next
    case (step_publish claim len n final)
    then show ?thesis using publish_wakes [OF entryD(1,2) [OF assms(2)]] by blast
  next
    case (step_pin_verify claim b)
    then show ?thesis using pin_verification_keeps [OF entryD(1,2) [OF assms(2)]] by blast
  next
    case (step_retry claim b)
    then show ?thesis using retry_wakes(1) by blast
  next
    case (step_retry_part c b)
    then show ?thesis using retry_wakes(2) by blast
  next
    case (step_claim_part off len skip c)
    then show ?thesis using claim_part_keeps [OF assms(2)] by blast
  next
    case (step_evict env)
    then show ?thesis using evict_keeps [OF entryD(1) [OF assms(2)]] by blast
  next
    case (step_manifest ev r)
    then show ?thesis
      using begin_checksum_manifest_cases [OF step_manifest(3)]
      by (auto intro: keeps_refl keeps_same)
  next
    case (step_export verify b)
    from step_export(3) have "keeps_waiting e e'"
      by (cases rule: try_export_cases) (auto intro: keeps_refl keeps_same)
    then show ?thesis ..
  next
    case (step_retire ev wait x)
    then show ?thesis by (auto simp: retire_generation_def Let_def wakes_notify keeps_refl)
  next
    case (step_finish claim hole)
    then show ?thesis
      by (auto simp: finish_fetch_def intro!: disjI1 wakes_notify split: option.splits prod.splits)
  next
    case (step_rollback claim)
    then show ?thesis
      by (cases "find_active claim e") (simp_all add: rollback_fetch_def Let_def wakes_notify keeps_refl)
  next
    case (step_mark_bad claim)
    then show ?thesis
      by (auto simp: mark_bad_def Let_def intro!: disjI1 wakes_notify split: option.splits)
  next
    case (step_manifest_parts parts)
    then show ?thesis by (simp add: finish_checksum_manifest_def Let_def wakes_notify)
  next
    case step_manifest_none
    then show ?thesis by (simp add: checksum_manifest_unavailable_def wakes_notify)
  next
    case (step_mismatch c)
    then show ?thesis by (simp add: checksum_mismatch_def wakes_notify)
  next
    case (step_finish_part c valid)
    then show ?thesis by (simp add: finish_checksum_def Let_def wakes_notify keeps_refl)
  next
    case (step_abandon_part c)
    then show ?thesis using abandon_wakes by simp
  next
    case (step_touch off len)
    then show ?thesis by (auto simp: touch_def intro!: disjI2 keeps_same)
  next
    case (step_write claim len)
    then show ?thesis by (auto simp: fetch_write_def intro!: disjI2 keeps_same split: option.splits)
  next
    case step_disable
    then show ?thesis by (auto simp: disable_eviction_def intro!: disjI2 keeps_same)
  next
    case (step_wait ev what)
    then have "keeps_waiting e e'"
      by (intro keeps_same) (auto simp: register_waiter_def split: option.splits if_splits)
    then show ?thesis ..
  next
    case step_token
    then have "keeps_waiting e e'"
      by (intro keeps_same) (auto simp: take_token_def split: option.splits nat.splits)
    then show ?thesis ..
  next
    case step_end_wait
    then have "keeps_waiting e e'" by (intro keeps_same) (auto simp: end_async_wait_def split: if_splits)
    then show ?thesis ..
  next
    case (step_pin_any off len)
    then have "e' = add_pins off len e" by (auto simp: pin_def split: if_splits)
    then have "keeps_waiting e e'"
      using keeps_pinned [OF entryD(1) [OF assms(2)] step_pin_any(4,5)] by (intro keeps_same) simp_all
    then show ?thesis ..
  next
    case (step_unpin_any off len)
    then have "0 < len" "off + len \<le> e_size e"
      using entryD(3) [OF assms(2)] by (auto simp: acct_inv_def)
    then show ?thesis using step_unpin_any unpin_wakes [OF entryD(1) [OF assms(2)]] by blast
  next
    case (step_grow reserve grow stop)
    from step_grow(3) show ?thesis
      by (rule ensure_write_capacity_cases) (use grow_keeps [OF entryD(1) [OF assms(2)]] in simp)
  next
    case (step_publish_dirty off len stop)
    then show ?thesis using fully_written_ready [OF entryD(1) [OF assms(2)]] assms(3) by simp
  qed (use False in simp_all)
qed

text \<open>
  C6. No wake-up is lost: a step of any thread that makes a range of the object ready for which
  somebody may be waiting posts one token to the event of the generation for every registered
  waiter. \<open>discard_write\<close> and \<open>publish_dirty\<close> never post one; for them it is shown of a
  generation whose pages are all published, as those of a written generation are, where no range
  was waited for. (The pins held do not overflow the 64-bit total.)
\<close>

theorem no_wakeup_is_lost:
  assumes "entry_reachable (e, h)" "entry_step (e, h) op (e', h')"
    and "off + len \<le> e_size e" "\<not> range_ready_locked e off len" "range_ready_locked e' off len"
    and "e_wait_event e = Some n" "sum_list (e_region_pins e) < 2 ^ 64"
    and "ends_write op \<longrightarrow> fully_written e"
  shows "e_wait_event e' = Some (n + e_waiters e)"
  using step_wakes_or_keeps [OF assms(2) _ assms(8,7)] reachable_inv [OF assms(1)] assms(3-6)
  by (auto simp: wakes_def keeps_waiting_def)

definition ex_waiting :: CacheEntry where
  "ex_waiting = ex_claimed\<lparr>e_wait_event := Some 0, e_waiters := 1\<rparr>"

lemma ex_reach_waiting: "entry_reachable (ex_waiting, [], [])"
proof -
  have "register_waiter 0 ''create cache wait event'' ex_claimed = Inr ex_waiting"
    by (simp add: register_waiter_def ex_waiting_def ex_claimed_def ex_open_eq)
  from reach_step [OF ex_reach_claimed step_wait [OF this]] show ?thesis .
qed

theorem no_wakeup_is_lost_witness:
  "\<not> range_ready_locked ex_waiting 0 100 \<and>
   e_wait_event (snd (retire_generation 0 False True ex_waiting)) = Some 1"
proof -
  have nr: "\<not> range_ready_locked ex_waiting 0 100"
    by (simp add: range_ready_locked_def ex_waiting_def ex_claimed_def ex_defs checksum_blocked_locked_def
        lower_bound.simps ex_states code_state_def)
  have "e_stale (snd (retire_generation 0 False True ex_waiting))"
    by (simp add: retire_generation_def Let_def)
  then have "range_ready_locked (snd (retire_generation 0 False True ex_waiting)) 0 100"
    by (simp add: range_ready_locked_def)
  moreover have "e_wait_event ex_waiting = Some 0" "e_waiters ex_waiting = 1"
    by (simp_all add: ex_waiting_def)
  moreover have "0 + 100 \<le> e_size ex_waiting" "sum_list (e_region_pins ex_waiting) < 2 ^ 64"
    by (simp_all add: ex_waiting_def ex_claimed_def ex_open_eq)
  ultimately show ?thesis
    using no_wakeup_is_lost [OF ex_reach_waiting step_retire _ nr] nr by fastforce
qed

end
