(* ===== verification/Cache_Entry_Rounds.thy ===== *)
theory Cache_Entry_Rounds
  imports Cache_Entry_Live
begin

text \<open>
  A fetch from its claim to its end: what a claim takes, that giving it back restores every
  page, and that the bytes it received become readable.
\<close>

section \<open>What a claim takes\<close>

text \<open>A handed-out claim is the last active fetch, with nothing published yet.\<close>

lemma start_fetch_spec:
  assumes "shape e" "e_block_size e dvd start" "start < stop" "stop \<le> e_size e"
    "start_fetch start stop e = (claim, e')"
  obtains act where "cl_offset claim = start" "cl_length claim = stop - start"
    "cl_epoch claim = e_epoch e" "cl_id claim \<noteq> 0"
    "claim_matches claim act" "af_published act = 0" "\<not> af_verifying act"
    "af_prior_states act = map (page_state (e_bitmap e)) [start div U ..< (stop - 1) div U + 1]"
    "e_active_claims e' = e_active_claims e @ [act]" "e_data e' = e_data e" "e_stale e' = e_stale e"
    "e_region_pins e' = e_region_pins e" "e_epoch e' = e_epoch e" "e_size e' = e_size e"
    "e_block_size e' = e_block_size e" "e_page_count e' = e_page_count e"
    "length (e_bitmap e') = length (e_bitmap e)" "e_referenced e' = e_referenced e"
    "\<And>p. page_state (e_bitmap e') p =
      (if start \<le> p * U \<and> p * U < stop then CACHE_PAGE_READ_PENDING else page_state (e_bitmap e) p)"
proof -
  note s = shapeD [OF assms(1)]
  define pages where "pages = [block_first_page e start ..< min (e_page_count e) ((stop - 1) div U + 1)]"
  define act where "act = \<lparr>af_id = cl_id claim, af_epoch = e_epoch e, af_offset = start,
    af_length = stop - start, af_published = 0, af_verifying = False, af_retrying = False,
    af_prior_states = map (page_state (e_bitmap e)) pages\<rparr>"
  have c: "cl_offset claim = start" "cl_length claim = stop - start" "cl_epoch claim = e_epoch e"
    "cl_id claim \<noteq> 0"
    using assms(5) by (auto simp: start_fetch_def Let_def split: if_splits)
  have e': "e' = e\<lparr>e_next_claim_id := cl_id claim + 1,
      e_bitmap := fill_states CACHE_PAGE_READ_PENDING pages (e_bitmap e),
      e_active_claims := e_active_claims e @ [act]\<rparr>"
    using assms(5) unfolding act_def pages_def by (auto simp: start_fetch_def Let_def)
  have dvd: "U dvd start" using s(2) assms(2) by (rule dvd_trans)
  have endp: "(stop - 1) div U + 1 \<le> e_page_count e"
    using s(5) [of "(stop - 1) div U"] div_times_less_eq_dividend [of "stop - 1" U] assms(3,4)
    by linarith
  have pages_eq: "pages = [start div U ..< (stop - 1) div U + 1]"
    unfolding pages_def using endp assms(2) by (simp only: min_absorb2 block_first_page_def dvd_div_mult_self)
  have sp: "p \<in> set pages \<longleftrightarrow> start \<le> p * U \<and> p * U < stop" for p
    unfolding pages_eq using page_start_le [OF dvd, of p] less_page_end [of stop p] assms(3)
    by (simp del: upt_Suc)
  have bound: "\<forall>p\<in>set pages. p < 32 * length (e_bitmap e)" using s(4) by (auto simp: pages_def)
  have ps: "page_state (e_bitmap e') p =
      (if start \<le> p * U \<and> p * U < stop then CACHE_PAGE_READ_PENDING else page_state (e_bitmap e) p)" for p
    by (simp add: e' page_state_fill [OF bound] sp)
  have "claim_matches claim act" by (simp add: claim_matches_def act_def c)
  then show ?thesis
    by (rule that [OF c]) (rule ps | simp add: act_def pages_eq e' del: upt_Suc)+
qed

lemma publish_loop_complete:
  assumes sh: "shape e" and off: "e_block_size e dvd cl_offset claim"
    and stop: "cl_offset claim + cl_length claim \<le> e_size e"
    "cl_offset claim + cl_length claim = e_size e \<or>
     e_block_size e dvd cl_offset claim + cl_length claim"
    and progress: "cl_offset claim + cl_length claim \<le> progress"
  shows "pub \<le> cl_length claim \<Longrightarrow> pub = cl_length claim \<or> e_block_size e dvd pub \<Longrightarrow>
    fst (snd (publish_loop e claim progress True (cl_offset claim + pub) (words, pub, changed))) =
      cl_length claim"
proof (induction "cl_length claim - pub" arbitrary: pub words changed rule: less_induct)
  case less
  let ?b = "e_block_size e" and ?o = "cl_offset claim" and ?l = "cl_length claim"
  let ?block = "?o + pub"
  note b = shapeD(1) [OF sh]
  show ?case
  proof (cases "pub = ?l")
    case True
    then show ?thesis by (simp add: publish_loop_stop)
  next
    case False
    then have pub: "pub < ?l" "?b dvd pub" using less.prems by auto
    then have blk: "?b dvd ?block" "?block < e_size e" "?block < ?o + ?l"
      using off stop(1) by auto
    note br = block_range [OF sh blk(1,2)]
    define stp where "stp = min (e_size e) (?block + ?b)"
    have stp: "stp \<le> ?o + ?l" "stp = ?o + ?l \<or> stp = ?block + ?b"
      using block_end_in_range [OF b blk(1,3) stop] by (simp_all add: stp_def)
    have gt: "?block < stp" using blk(2) b by (simp add: stp_def)
    have m: "min (e_size e) (wrap64 (?block + ?b)) = stp" by (simp only: br(2) stp_def)
    define w where "w = replace_states CACHE_PAGE_READ_PENDING CACHE_PAGE_CLEAN (block_pages e ?block) words"
    define c where "c \<longleftrightarrow> changed \<or>
      list_ex (\<lambda>p. page_state words p = CACHE_PAGE_READ_PENDING) (block_pages e ?block)"
    have unfold: "publish_loop e claim progress True ?block (words, pub, changed) =
        publish_loop e claim progress True (?block + ?b) (w, stp - ?o, c)"
      unfolding w_def c_def
      by (subst publish_loop.simps) (use blk(3) b br(3) stp(1) progress in \<open>auto simp: Let_def m\<close>)
    show ?thesis
    proof (cases "stp = ?o + ?l")
      case True
      then have "\<not> ?block + ?b < ?o + ?l" using stp(2) by (auto simp: stp_def min_def split: if_splits)
      then show ?thesis unfolding unfold by (simp add: publish_loop_stop True)
    next
      case False
      then have st: "stp = ?block + ?b" using stp(2) by blast
      have "fst (snd (publish_loop e claim progress True (?o + (pub + ?b)) (w, pub + ?b, c))) = ?l"
        using st stp(1) pub b by (intro less.hyps) auto
      then show ?thesis unfolding unfold st by (simp add: add.assoc)
    qed
  qed
qed

lemma find_index_append_new:
  "\<forall>x\<in>set xs. \<not> P x \<Longrightarrow> P y \<Longrightarrow> find_index P (xs @ [y]) = Some (length xs)"
  by (induction xs) auto

lemma fresh_claim_active:
  assumes "e_active_claims e' = e_active_claims e @ [act]" "claim_matches claim act"
    "cl_id claim \<notin> af_id ` set (e_active_claims e)"
  shows "find_active claim e' = Some (length (e_active_claims e))"
    "e_active_claims e' ! length (e_active_claims e) = act"
proof -
  have "\<forall>a\<in>set (e_active_claims e). \<not> claim_matches claim a" using assms(3) by (metis claim_matches_def image_eqI)
  then show "find_active claim e' = Some (length (e_active_claims e))"
    unfolding find_active_def assms(1) using assms(2) by (rule find_index_append_new)
qed (simp add: assms(1))

text \<open>The claim a fetch starts with, seen from the state before it.\<close>

lemma claim_fetch_round:
  assumes "entry_inv e h" "claim_fetch off len x e = Inr (claim, e')" "claim \<noteq> no_claim"
    "cl_id claim \<notin> af_id ` set (e_active_claims e)"
  obtains act where "\<not> e_stale e" "0 < cl_length claim" "e_block_size e dvd cl_offset claim"
    "cl_offset claim + cl_length claim \<le> e_size e"
    "cl_offset claim + cl_length claim = e_size e \<or> e_block_size e dvd cl_offset claim + cl_length claim"
    "\<exists>m. cl_offset claim \<le> m * U \<and> m * U < cl_offset claim + cl_length claim \<and>
       page_state (e_bitmap e) m = CACHE_PAGE_MISSING \<and> off div U \<le> m \<and> m * U < off + len"
    "\<forall>y. cl_offset claim \<le> y \<and> y < cl_offset claim + cl_length claim \<longrightarrow>
       \<not> block_blocked e (y div e_block_size e * e_block_size e)"
    "find_active claim e' = Some (length (e_active_claims e))"
    "e_active_claims e' = e_active_claims e @ [act]" "af_published act = 0" "\<not> af_verifying act"
    "af_prior_states act = map (page_state (e_bitmap e))
      [cl_offset claim div U ..< (cl_offset claim + cl_length claim - 1) div U + 1]"
    "e_data e' = e_data e" "e_stale e' = e_stale e" "e_size e' = e_size e"
    "e_block_size e' = e_block_size e" "e_page_count e' = e_page_count e"
    "e_region_pins e' = e_region_pins e"
    "\<And>p. page_state (e_bitmap e') p =
      (if cl_offset claim \<le> p * U \<and> p * U < cl_offset claim + cl_length claim
       then CACHE_PAGE_READ_PENDING else page_state (e_bitmap e) p)"
  using entryD(1) [OF assms(1)] assms(2)
proof (cases rule: claim_fetch_cases)
  case none
  then show ?thesis using assms(3) by simp
next
  case (fetch start stop)
  obtain act where a: "cl_offset claim = start" "cl_length claim = stop - start"
    "claim_matches claim act" "af_published act = 0" "\<not> af_verifying act"
    "af_prior_states act = map (page_state (e_bitmap e)) [start div U ..< (stop - 1) div U + 1]"
    "e_active_claims e' = e_active_claims e @ [act]" "e_data e' = e_data e" "e_stale e' = e_stale e"
    "e_size e' = e_size e" "e_block_size e' = e_block_size e" "e_page_count e' = e_page_count e"
    "e_region_pins e' = e_region_pins e"
    "\<And>p. page_state (e_bitmap e') p =
      (if start \<le> p * U \<and> p * U < stop then CACHE_PAGE_READ_PENDING else page_state (e_bitmap e) p)"
    by (rule start_fetch_spec [OF entryD(1) [OF assms(1)] fetch(6-8,12)]) (rule that, assumption+)
  have stop: "start + (stop - start) = stop" using fetch(7) by simp
  show ?thesis
    by (rule that [of act]; (unfold a(1,2) stop)?)
       (use fetch a(4-14) fresh_claim_active(1) [OF a(7,3) assms(4)] in \<open>simp_all del: upt_Suc\<close>)
qed

text \<open>
  A claim takes whole blocks of the object, among them a missing page of the wanted range;
  none of its blocks is pinned, pending or bad before, all of its pages are pending after, and
  no other page changes. Rolling the claim back at once restores the state of every page and
  the list of active fetches.
\<close>

lemma claim_fetch_takes_whole_free_blocks:
  assumes "entry_reachable (e, h)" "claim_fetch off len x e = Inr (claim, e')" "claim \<noteq> no_claim"
    and "cl_id claim \<notin> af_id ` set (e_active_claims e)"
  shows "e_block_size e dvd cl_offset claim \<and> 0 < cl_length claim \<and>
    (cl_offset claim + cl_length claim = e_size e \<or>
     cl_offset claim + cl_length claim < e_size e \<and> e_block_size e dvd cl_offset claim + cl_length claim) \<and>
    (\<exists>m. cl_offset claim \<le> m * U \<and> m * U < cl_offset claim + cl_length claim \<and>
       page_state (e_bitmap e) m = CACHE_PAGE_MISSING \<and> off div U \<le> m \<and> m * U < off + len) \<and>
    (\<forall>p. cl_offset claim \<le> p * U \<and> p * U < cl_offset claim + cl_length claim \<longrightarrow>
       page_state (e_bitmap e') p = CACHE_PAGE_READ_PENDING \<and>
       e_region_pins e ! (p * U div e_block_size e) = 0 \<and>
       (page_state (e_bitmap e) p = CACHE_PAGE_MISSING \<or> page_state (e_bitmap e) p = CACHE_PAGE_CLEAN)) \<and>
    (\<forall>p. \<not> (cl_offset claim \<le> p * U \<and> p * U < cl_offset claim + cl_length claim) \<longrightarrow>
       page_state (e_bitmap e') p = page_state (e_bitmap e) p) \<and>
    (\<forall>p. page_state (e_bitmap (rollback_fetch claim e')) p = page_state (e_bitmap e) p) \<and>
    e_active_claims (rollback_fetch claim e') = e_active_claims e"
proof -
  have ei: "entry_inv e h" using reachable_inv [OF assms(1)] by simp
  have ei': "entry_inv e' h" by (rule claim_fetch_inv [OF ei assms(2,4)])
  note inv = entryD [OF ei] and inv' = entryD [OF ei']
  obtain act where c: "0 < cl_length claim" "e_block_size e dvd cl_offset claim"
      "cl_offset claim + cl_length claim \<le> e_size e"
      "cl_offset claim + cl_length claim = e_size e \<or> e_block_size e dvd cl_offset claim + cl_length claim"
    and m: "\<exists>m. cl_offset claim \<le> m * U \<and> m * U < cl_offset claim + cl_length claim \<and>
       page_state (e_bitmap e) m = CACHE_PAGE_MISSING \<and> off div U \<le> m \<and> m * U < off + len"
    and free: "\<forall>y. cl_offset claim \<le> y \<and> y < cl_offset claim + cl_length claim \<longrightarrow>
       \<not> block_blocked e (y div e_block_size e * e_block_size e)"
    and f: "find_active claim e' = Some (length (e_active_claims e))"
    and act: "e_active_claims e' = e_active_claims e @ [act]" "af_published act = 0"
      "af_prior_states act = map (page_state (e_bitmap e))
        [cl_offset claim div U ..< (cl_offset claim + cl_length claim - 1) div U + 1]"
    and st: "\<And>p. page_state (e_bitmap e') p =
      (if cl_offset claim \<le> p * U \<and> p * U < cl_offset claim + cl_length claim
       then CACHE_PAGE_READ_PENDING else page_state (e_bitmap e) p)"
    by (rule claim_fetch_round [OF ei assms(2-4)]) (rule that, assumption+)
  have nth: "e_active_claims e' ! length (e_active_claims e) = act" by (simp add: act(1))
  note fd = find_activeD [OF f, unfolded nth]
  have tl: "tail act p \<longleftrightarrow> cl_offset claim \<le> p * U \<and> p * U < cl_offset claim + cl_length claim" for p
    by (simp add: tail_def fd act(2))
  obtain words where r: "rollback_fetch claim e' =
       notify_waiters_locked (end_fetch_locked claim (e'\<lparr>e_bitmap := words, e_data := e_data e'\<rparr>))"
    and w0: "\<forall>p. page_state words p = (if tail act p then af_prior_states act ! (p - cl_offset claim div U)
      else page_state (e_bitmap e') p)"
    and pri: "\<forall>p. tail act p \<longrightarrow> p - cl_offset claim div U < length (af_prior_states act)"
      "\<forall>p. tail act p \<longrightarrow> p = cl_offset claim div U + (p - cl_offset claim div U)"
    by (rule rollback_words [OF inv'(1,2) f, unfolded nth])
  have w: "page_state words p = page_state (e_bitmap e) p" for p
  proof (cases "tail act p")
    case True
    then have lt: "p - cl_offset claim div U <
        (cl_offset claim + cl_length claim - 1) div U + 1 - cl_offset claim div U"
      using pri(1) unfolding act(3) by (simp del: upt_Suc)
    then have "cl_offset claim div U + (p - cl_offset claim div U) <
        (cl_offset claim + cl_length claim - 1) div U + 1" by linarith
    then have "af_prior_states act ! (p - cl_offset claim div U) =
        page_state (e_bitmap e) (cl_offset claim div U + (p - cl_offset claim div U))"
      using lt unfolding act(3) by (subst nth_map) (simp_all only: length_upt nth_upt)
    then show ?thesis using w0 True pri(2) by metis
  next
    case False
    then show ?thesis using w0 st [of p] tl [of p] by auto
  qed
  have "e_bitmap (rollback_fetch claim e') = words" by (simp add: r)
  moreover have "e_active_claims (rollback_fetch claim e') = e_active_claims e"
    using f by (simp add: r end_fetch_locked_def find_active_def Let_def act(1) remove_at_def)
  moreover have "e_region_pins e ! (p * U div e_block_size e) = 0 \<and>
      (page_state (e_bitmap e) p = CACHE_PAGE_MISSING \<or> page_state (e_bitmap e) p = CACHE_PAGE_CLEAN)"
    if "cl_offset claim \<le> p * U" "p * U < cl_offset claim + cl_length claim" for p
    using unblocked_page [OF inv(1), of p] free that c(3) by auto
  ultimately show ?thesis using c m st w by auto
qed

lemma claim_fetch_takes_whole_free_blocks_example:
  "page_state (e_bitmap (rollback_fetch ex_claim ex_claimed)) 1 = CACHE_PAGE_MISSING"
proof -
  have "ex_claim \<noteq> no_claim" "cl_id ex_claim \<notin> af_id ` set (e_active_claims ex_open)"
    "page_state (e_bitmap ex_open) 1 = CACHE_PAGE_MISSING"
    by (simp_all add: ex_claim_def no_claim_def ex_open_eq ex_no_page)
  with claim_fetch_takes_whole_free_blocks [OF ex_reach_open ex_claim_step] show ?thesis by metis
qed

text \<open>
  C4. The bytes of a fetch become readable: when the whole length of a fresh claim has been
  written and published, every page of it is clean and in the data file, and ending the fetch
  neither changes these pages nor takes their bytes away.
\<close>

theorem fetched_bytes_become_readable:
  assumes "entry_reachable (e, h)" "claim_fetch off len x e = Inr (claim, e')" "claim \<noteq> no_claim"
    and "cl_id claim \<notin> af_id ` set (e_active_claims e)"
    and "cl_offset claim \<le> p * U" "p * U < cl_offset claim + cl_length claim"
    and "fin = publish_clean claim 0 (cl_length claim) True (fetch_write claim (cl_length claim) e')"
  shows "page_state (e_bitmap fin) p = CACHE_PAGE_CLEAN \<and> p \<in> e_data fin \<and>
    page_state (e_bitmap (finish_fetch hole claim fin)) p = CACHE_PAGE_CLEAN \<and>
    p \<in> e_data (finish_fetch hole claim fin)"
proof -
  have ei: "entry_inv e h" using reachable_inv [OF assms(1)] by simp
  have ei': "entry_inv e' h" by (rule claim_fetch_inv [OF ei assms(2,4)])
  let ?l = "cl_length claim" and ?o = "cl_offset claim" and ?i = "length (e_active_claims e)"
  define w where "w = fetch_write claim ?l e'"
  have eiw: "entry_inv w h" unfolding w_def by (rule fetch_write_inv [OF ei'])
  note inv = entryD [OF eiw]
  have rec: "received claim ?l w" unfolding w_def by (rule received_fetch_write [OF ei'])
  obtain act where st: "\<not> e_stale e" and f: "find_active claim e' = Some ?i"
    and act: "e_active_claims e' = e_active_claims e @ [act]" "af_published act = 0"
    and fr: "e_stale e' = e_stale e"
    and pend: "\<And>p. page_state (e_bitmap e') p = (if ?o \<le> p * U \<and> p * U < ?o + ?l
       then CACHE_PAGE_READ_PENDING else page_state (e_bitmap e) p)"
    by (rule claim_fetch_round [OF ei assms(2-4)]) (rule that, assumption+)
  have w: "find_active claim w = Some ?i" "e_active_claims w = e_active_claims e @ [act]"
    "\<not> e_stale w" "e_bitmap w = e_bitmap e'"
    using f st fr act(1) by (simp_all add: w_def fetch_write_def find_active_def)
  have nth: "e_active_claims w ! ?i = act" by (simp add: w(2))
  note wf = find_active_wf [OF inv(2) w(1)]
  have p: "page_state (e_bitmap w) p = CACHE_PAGE_READ_PENDING" using pend assms(5,6) w(4) by simp
  obtain words pub ch where r: "publish_loop w claim (?o + min ?l ?l) True (?o + af_published act)
      (e_bitmap w, af_published act, False) = (words, pub, ch)"
    by (metis prod_cases3)
  note spec = publish_loop_spec [OF inv(1) wf(1,3,4) r [unfolded act(2)] _ _ refl]
  have pub: "pub = ?l"
    using publish_loop_complete [OF inv(1) wf(1,3,4), of "?o + min ?l ?l" 0 "e_bitmap w" False] r act(2)
    by simp
  have pc: "fin = (if ch then notify_waiters_locked else (\<lambda>x. x)) (w\<lparr>e_bitmap := words,
      e_active_claims := (e_active_claims w)[?i := act\<lparr>af_published := ?l\<rparr>]\<rparr>)"
    unfolding assms(7) w_def [symmetric] using w r nth
    by (simp add: publish_clean_def Let_def act(2) pub)
  have d1: "page_state (e_bitmap fin) p = CACHE_PAGE_CLEAN"
    using spec p assms(5,6) by (simp add: pc pub)
  have "entry_inv fin h"
    unfolding assms(7) w_def [symmetric] by (rule publish_clean_inv [OF eiw rec])
  note inv2 = entryD [OF this]
  have "p < e_page_count fin"
    using shapeD(5) [OF inv2(1), of p] assms(6) wf(3) by (simp add: pc)
  then have d2: "p \<in> e_data fin" using ownD(7) [OF inv2(2) _ d1] by blast
  have f2: "find_active claim fin = Some ?i"
    using find_index_update [OF w(1) [unfolded find_active_def]] find_activeD [OF w(1)]
    by (simp add: pc find_active_def claim_matches_def nth)
  have stp: "finish_loop fin hole claim (?o + ?l) (e_bitmap fin, e_data fin) = (e_bitmap fin, e_data fin)"
    by (rule finish_loop_stop) simp
  have "e_active_claims fin ! ?i = act\<lparr>af_published := ?l\<rparr>" by (simp add: pc w(2))
  then have "finish_fetch hole claim fin =
      notify_waiters_locked (end_fetch_locked claim (fin\<lparr>e_bitmap := e_bitmap fin, e_data := e_data fin\<rparr>))"
    using f2 stp by (simp add: finish_fetch_def)
  then show ?thesis using d1 d2 by simp
qed

theorem fetched_bytes_become_readable_witness:
  "page_state (e_bitmap (finish_fetch (\<lambda>_. True) ex_claim ex_published)) 1 = CACHE_PAGE_CLEAN"
proof -
  have "ex_claim \<noteq> no_claim" "cl_id ex_claim \<notin> af_id ` set (e_active_claims ex_open)"
    "cl_offset ex_claim \<le> 1 * U" "1 * U < cl_offset ex_claim + cl_length ex_claim"
    by (simp_all add: ex_claim_def no_claim_def ex_open_eq kCacheBitmapUnit_def)
  moreover have "ex_published = publish_clean ex_claim 0 (cl_length ex_claim) True
      (fetch_write ex_claim (cl_length ex_claim) ex_claimed)"
    by (simp add: ex_claim_def [THEN arg_cong, of cl_length] ex_write_step ex_publish_step)
  ultimately show ?thesis
    using fetched_bytes_become_readable [OF ex_reach_open ex_claim_step] by blast
qed

end
