(* ===== verification/S3_Path.thy ===== *)
theory S3_Path
  imports NG_Prelude
begin

text \<open>
  Request paths of the S3 client (\<^verbatim>\<open>src/src/s3.cpp\<close>): percent encoding, the checks on
  encoded paths, the source of a \<^verbatim>\<open>CopyObject\<close> request, virtual-hosted buckets and the
  \<^verbatim>\<open>Content-Range\<close> header. Percent decoding is the reference the encoding is measured by.
\<close>

section \<open>Percent encoding\<close>

definition uri_unreserved :: "bool \<Rightarrow> char \<Rightarrow> bool" where
  "uri_unreserved preserve_slashes c \<longleftrightarrow>
     isalnum c \<or> c \<in> {CHR ''-'', CHR ''.'', CHR ''_'', CHR ''~''} \<or>
     (preserve_slashes \<and> c = CHR ''/'')"

definition uri_digit :: "nat \<Rightarrow> char" where
  "uri_digit n = ''0123456789ABCDEF'' ! n"

definition uri_encode_char :: "bool \<Rightarrow> char \<Rightarrow> string" where
  "uri_encode_char preserve_slashes c =
     (if uri_unreserved preserve_slashes c then [c]
      else [CHR ''%'', uri_digit (byte_of c div 16), uri_digit (byte_of c mod 16)])"

definition uri_encode :: "string \<Rightarrow> bool \<Rightarrow> string" where
  "uri_encode s preserve_slashes = concat (map (uri_encode_char preserve_slashes) s)"

text \<open>The reference decoder.\<close>

definition hex_value :: "char \<Rightarrow> nat" where
  "hex_value c = (if isdigit c then byte_of c - 48
     else if isupper_c c then byte_of c - 55 else byte_of c - 87)"

fun uri_decode :: "string \<Rightarrow> string" where
  "uri_decode [] = []"
| "uri_decode (c # s) =
     (case s of
        a # b # rest \<Rightarrow>
          if c = CHR ''%'' \<and> isxdigit a \<and> isxdigit b
          then char_of (hex_value a * 16 + hex_value b) # uri_decode rest
          else c # uri_decode s
      | _ \<Rightarrow> c # uri_decode s)"

section \<open>Encoded request paths\<close>

fun encoded_path_loop :: "string \<Rightarrow> bool" where
  "encoded_path_loop [] \<longleftrightarrow> True"
| "encoded_path_loop (c # s) \<longleftrightarrow>
     (if byte_of c \<le> 0x20 \<or> byte_of c = 0x7f then False
      else if c = CHR ''%''
      then case s of
             a # b # rest \<Rightarrow> if \<not> isxdigit a \<or> \<not> isxdigit b then False else encoded_path_loop rest
           | _ \<Rightarrow> False
      else encoded_path_loop s)"

definition is_encoded_request_path :: "string \<Rightarrow> bool" where
  "is_encoded_request_path p \<longleftrightarrow>
     p \<noteq> [] \<and> hd p = CHR ''/'' \<and> find_char CHR ''?'' 0 p = None \<and> encoded_path_loop p"

definition request_path_without_query :: "string \<Rightarrow> string" where
  "request_path_without_query p =
     (case find_char CHR ''?'' 0 p of None \<Rightarrow> p | Some i \<Rightarrow> take i p)"

definition request_path_is_directory_marker :: "string \<Rightarrow> bool" where
  "request_path_is_directory_marker path =
     (let p = request_path_without_query path; n = length p
      in if p \<noteq> [] \<and> last p = CHR ''/'' then True
         else if n < 3 \<or> p ! (n - 3) \<noteq> CHR ''%'' then False
         else p ! (n - 2) = CHR ''2'' \<and> tolower (last p) = CHR ''f'')"

definition make_copy_source :: "string \<Rightarrow> string \<Rightarrow> string \<Rightarrow> bool \<Rightarrow> string result" where
  "make_copy_source bucket source_path version_id virtual_hosted =
     (if bucket = [] then Inl (InvalidArgument ''CopyObject source bucket is empty'')
      else let source = request_path_without_query source_path;
               path_style_prefix = CHR ''/'' # uri_encode bucket False;
               result =
                 (if \<not> virtual_hosted \<and>
                     (source = path_style_prefix \<or>
                      (length source > length path_style_prefix \<and>
                       starts_with source path_style_prefix \<and>
                       source ! length path_style_prefix = CHR ''/''))
                  then source else path_style_prefix @ source)
           in Inr (if version_id \<noteq> [] then result @ ''?versionId='' @ uri_encode version_id False
                   else result))"

section \<open>Virtual-hosted buckets\<close>

text \<open>\<^verbatim>\<open>rfind(c)\<close>: the last index that holds \<open>c\<close>.\<close>

definition rfind_char :: "char \<Rightarrow> string \<Rightarrow> nat option" where
  "rfind_char c s =
     (case find_char c 0 (rev s) of None \<Rightarrow> None | Some i \<Rightarrow> Some (length s - 1 - i))"

definition authority_host :: "string \<Rightarrow> string option" where
  "authority_host authority =
     (if starts_with authority ''[''
      then case find_char CHR '']'' 0 authority of
             None \<Rightarrow> None
           | Some bracket \<Rightarrow> Some (substr authority 1 (bracket - 1))
      else case find_char CHR '':'' 0 authority of
             None \<Rightarrow> Some authority
           | Some first_colon \<Rightarrow>
               if rfind_char CHR '':'' authority = Some first_colon
               then Some (take first_colon authority) else Some authority)"

definition authority_uses_virtual_bucket :: "string \<Rightarrow> string \<Rightarrow> bool" where
  "authority_uses_virtual_bucket authority bucket =
     (if bucket = [] then False
      else case authority_host authority of
             None \<Rightarrow> False
           | Some host \<Rightarrow>
               if length host < length bucket then False
               else if \<not> list_all (\<lambda>i. tolower (host ! i) = tolower (bucket ! i)) [0..<length bucket]
               then False
               else length host = length bucket \<or> host ! length bucket = CHR ''.'')"

section \<open>Content-Range\<close>

definition s3_content_range_matches :: "string \<Rightarrow> nat \<Rightarrow> nat \<Rightarrow> nat \<Rightarrow> bool" where
  "s3_content_range_matches text offset len object_size =
     (if len = 0 then False
      else if \<not> starts_with text ''bytes '' then False
      else let v = drop (length ''bytes '') text;
               dash = find_char CHR ''-'' 0 v;
               slash = find_char CHR ''/'' (case dash of None \<Rightarrow> 0 | Some d \<Rightarrow> d + 1) v
           in case (dash, slash) of
                (Some d, Some s) \<Rightarrow>
                  if find_char CHR ''/'' (s + 1) v \<noteq> None then False
                  else (case (parse_unsigned_all 64 (substr v 0 d),
                              parse_unsigned_all 64 (substr v (d + 1) (s - d - 1)),
                              parse_unsigned_all 64 (drop (s + 1) v)) of
                          (Some first, Some last_byte, Some size_total) \<Rightarrow>
                            first = offset \<and> size_total = object_size \<and> last_byte \<ge> first \<and>
                            last_byte - first = len - 1
                        | _ \<Rightarrow> False)
              | _ \<Rightarrow> False)"

section \<open>Encoding and decoding\<close>

lemma byte_nibbles [simp]: "byte_of c div 16 < 16" "byte_of c mod 16 < 16"
  using byte_of_less [of c] by (simp_all add: less_mult_imp_div_less)

lemma uri_digit_props:
  assumes "n < 16"
  shows "isxdigit (uri_digit n)" "hex_value (uri_digit n) = n" "\<not> byte_of (uri_digit n) \<le> 0x20"
    "byte_of (uri_digit n) \<noteq> 0x7f" "uri_digit n \<noteq> CHR ''?'' \<and> uri_digit n \<noteq> CHR ''%''"
proof -
  have "n \<in> {0, 1, 2, 3, 4, 5, 6, 7, 8, 9, 10, 11, 12, 13, 14, 15}"
    using assms unfolding insert_iff empty_iff by presburger
  then show "isxdigit (uri_digit n)" "hex_value (uri_digit n) = n" "\<not> byte_of (uri_digit n) \<le> 0x20"
    "byte_of (uri_digit n) \<noteq> 0x7f" "uri_digit n \<noteq> CHR ''?'' \<and> uri_digit n \<noteq> CHR ''%''"
    by (elim insertE emptyE; simp add: uri_digit_def isxdigit_def isdigit_def hex_value_def
        isupper_c_def)+
qed

lemma unreserved_char:
  assumes "uri_unreserved b c"
  shows "c \<noteq> CHR ''%''" "c \<noteq> CHR ''?''" "byte_of c > 0x20" "byte_of c \<noteq> 0x7f"
  using assms
  by (auto simp: uri_unreserved_def isalnum_def isdigit_def isupper_c_def islower_c_def)

lemma hex_div_mod: "char_of (hex_value (uri_digit (byte_of c div 16)) * 16 +
    hex_value (uri_digit (byte_of c mod 16))) = c"
proof -
  show ?thesis by (simp add: uri_digit_props)
qed

lemma uri_decode_plain: "c \<noteq> CHR ''%'' \<Longrightarrow> uri_decode (c # s) = c # uri_decode s"
  by (simp split: list.split)

lemma uri_decode_char: "uri_decode (uri_encode_char b c @ s) = c # uri_decode s"
proof (cases "uri_unreserved b c")
  case True
  then show ?thesis using unreserved_char(1) [OF True]
    by (simp add: uri_encode_char_def uri_decode_plain del: uri_decode.simps)
next
  case False
  show ?thesis using False hex_div_mod [of c] by (simp add: uri_encode_char_def uri_digit_props)
qed

lemma uri_encode_Cons: "uri_encode (c # s) b = uri_encode_char b c @ uri_encode s b"
  by (simp add: uri_encode_def)

lemma uri_decode_encode: "uri_decode (uri_encode s b) = s"
  by (induction s) (simp_all add: uri_encode_def uri_decode_char [unfolded uri_encode_def])

lemma encoded_path_char:
  "encoded_path_loop (uri_encode_char b c @ s) = encoded_path_loop s"
proof (cases "uri_unreserved b c")
  case True
  then show ?thesis using unreserved_char [OF True] by (simp add: uri_encode_char_def)
next
  case False
  show ?thesis using False by (simp add: uri_encode_char_def uri_digit_props)
qed

lemma encoded_path_encode: "encoded_path_loop (uri_encode s b @ t) = encoded_path_loop t"
  by (induction s) (simp_all add: uri_encode_def encoded_path_char)

lemma no_query_encode: "CHR ''?'' \<notin> set (uri_encode s b)"
proof (induction s)
  case (Cons c s)
  have "CHR ''?'' \<notin> set (uri_encode_char b c)"
    using unreserved_char(2) [of b c] uri_digit_props(5) [of "byte_of c div 16"]
      uri_digit_props(5) [of "byte_of c mod 16"] byte_nibbles [of c]
    by (auto simp: uri_encode_char_def)
  then show ?case using Cons by (simp add: uri_encode_Cons)
qed (simp add: uri_encode_def)

text \<open>
  Percent encoding loses nothing: decoding the encoding of any byte string gives the
  string back, so distinct keys have distinct encodings, with slashes preserved or not; and a
  slash followed by an encoded key is always an acceptable request path.
\<close>

lemma uri_encode_roundtrip:
  "uri_decode (uri_encode s b) = s \<and> (uri_encode s b = uri_encode t b \<longleftrightarrow> s = t) \<and>
   is_encoded_request_path (CHR ''/'' # uri_encode s b)"
proof -
  have "uri_encode s b = uri_encode t b \<longleftrightarrow> s = t" by (metis uri_decode_encode)
  moreover have "find_char CHR ''?'' 0 (CHR ''/'' # uri_encode s b) = None"
    using no_query_encode [of s b] by (simp add: find_char_None)
  moreover have "encoded_path_loop (CHR ''/'' # uri_encode s b)"
    using encoded_path_encode [of s b "[]"] by simp
  ultimately show ?thesis by (simp add: uri_decode_encode is_encoded_request_path_def)
qed

section \<open>Copy sources\<close>

lemma without_query:
  assumes "CHR ''?'' \<notin> set p"
  shows "request_path_without_query p = p" "request_path_without_query (p @ CHR ''?'' # q) = p"
proof -
  have "find_char CHR ''?'' 0 p = None" using assms by (simp add: find_char_None)
  then show "request_path_without_query p = p" by (simp add: request_path_without_query_def)
  have "find_char CHR ''?'' 0 (p @ CHR ''?'' # q) = Some (length p)"
    using assms by (auto simp: find_char_0_Some)
  then show "request_path_without_query (p @ CHR ''?'' # q) = p"
    by (simp add: request_path_without_query_def)
qed

text \<open>
  Both styles of addressing name the same source: for the encoded path of a key, with the
  bucket in the path or in the host name, and with or without a query, the copy source is the
  encoded bucket and key, followed by the encoded version if one is given. An empty bucket is
  refused.
\<close>

lemma copy_source_names_bucket_key_and_version:
  assumes "path = (if virtual_hosted then CHR ''/'' # uri_encode key True
      else CHR ''/'' # uri_encode bucket False @ CHR ''/'' # uri_encode key True)"
  shows "\<forall>query \<in> {[], CHR ''?'' # q}.
    make_copy_source bucket (path @ query) version virtual_hosted =
      (if bucket = [] then Inl (InvalidArgument ''CopyObject source bucket is empty'')
       else Inr (CHR ''/'' # uri_encode bucket False @ CHR ''/'' # uri_encode key True @
              (if version = [] then [] else ''?versionId='' @ uri_encode version False)))"
proof -
  have nq: "CHR ''?'' \<notin> set path" using no_query_encode by (simp add: assms)
  let ?p = "CHR ''/'' # uri_encode bucket False"
  have "make_copy_source bucket (path @ query) version virtual_hosted =
      (if bucket = [] then Inl (InvalidArgument ''CopyObject source bucket is empty'')
       else Inr (CHR ''/'' # uri_encode bucket False @ CHR ''/'' # uri_encode key True @
              (if version = [] then [] else ''?versionId='' @ uri_encode version False)))"
    if "query \<in> {[], CHR ''?'' # q}" for query
  proof -
    have wq: "request_path_without_query (path @ query) = path"
      using that without_query [OF nq] by auto
    show ?thesis
    proof (cases virtual_hosted)
      case True
      then show ?thesis by (simp add: make_copy_source_def Let_def wq) (simp add: assms)
    next
      case False
      then have "length path > length ?p \<and> starts_with path ?p \<and> path ! length ?p = CHR ''/''"
        by (simp add: assms starts_with_def)
      then show ?thesis using False by (simp add: make_copy_source_def Let_def wq) (simp add: assms)
    qed
  qed
  then show ?thesis by blast
qed

lemma copy_source_names_bucket_key_and_version_example:
  "make_copy_source ''b'' ''/b/a%20x?uploads'' ''v1'' False = Inr ''/b/a%20x?versionId=v1''"
proof -
  have "''/b/a%20x'' = CHR ''/'' # uri_encode ''b'' False @ CHR ''/'' # uri_encode ''a x'' True"
    "uri_encode ''v1'' False = ''v1''" "uri_encode ''b'' False = ''b''" "uri_encode ''a x'' True = ''a%20x''"
    by (simp_all add: uri_encode_def uri_encode_char_def uri_unreserved_def uri_digit_def isalnum_def
        isdigit_def isupper_c_def islower_c_def)
  then show ?thesis
    using copy_source_names_bucket_key_and_version
      [of "''/b/a%20x''" False "''a x''" "''b''" "''uploads''" "''v1''"] by simp
qed

section \<open>Content-Range\<close>

lemma decimal_string_chars: "decimal_string v s \<Longrightarrow> c \<in> set s \<Longrightarrow> isdigit c"
  by (auto simp: decimal_string_def list_all_iff)

lemma content_range_split:
  assumes "CHR ''-'' \<notin> set a" "CHR ''/'' \<notin> set b" "CHR ''/'' \<notin> set c" "0 < len"
  shows "s3_content_range_matches (''bytes '' @ a @ CHR ''-'' # b @ CHR ''/'' # c) offset len size_total \<longleftrightarrow>
    (case (parse_unsigned_all 64 a, parse_unsigned_all 64 b, parse_unsigned_all 64 c) of
       (Some first, Some last_byte, Some n) \<Rightarrow>
         first = offset \<and> n = size_total \<and> last_byte \<ge> first \<and> last_byte - first = len - 1
     | _ \<Rightarrow> False)"
proof -
  let ?v = "a @ CHR ''-'' # b @ CHR ''/'' # c"
  have d: "find_char CHR ''-'' 0 ?v = Some (length a)" using assms by (auto simp: find_char_0_Some)
  have s: "find_char CHR ''/'' (length a + 1) ?v = Some (length a + 1 + length b)"
    using assms by (auto simp: find_char_def find_char_from_Some)
  have n: "find_char CHR ''/'' (length a + 1 + length b + 1) ?v = None"
    using assms by (simp add: find_char_None)
  have sub: "substr ?v 0 (length a) = a"
    "substr ?v (length a + 1) (length a + 1 + length b - length a - 1) = b"
    "drop (length a + 1 + length b + 1) ?v = c" by (simp_all add: substr_def)
  have pre: "starts_with (''bytes '' @ ?v) ''bytes ''" "drop (length ''bytes '') (''bytes '' @ ?v) = ?v"
    by (simp_all add: starts_with_def)
  show ?thesis
    unfolding s3_content_range_matches_def Let_def pre(2) d option.case s prod.case n sub
    using assms(4) pre(1) by simp
qed

text \<open>
  A Content-Range header is accepted exactly when it is \<open>bytes\<close> with the wanted first
  byte, the wanted last byte and the object size, each written in decimal digits.
\<close>

lemma content_range_accepts_exactly_the_wanted_range:
  assumes "offset + len \<le> 2 ^ 64" "object_size < 2 ^ 64"
  shows "s3_content_range_matches text offset len object_size \<longleftrightarrow>
    0 < len \<and> (\<exists>a b c. text = ''bytes '' @ a @ ''-'' @ b @ ''/'' @ c \<and>
      decimal_string offset a \<and> decimal_string (offset + len - 1) b \<and> decimal_string object_size c)"
    (is "?L \<longleftrightarrow> ?R")
proof
  assume ?R
  then obtain a b c where t: "text = ''bytes '' @ a @ CHR ''-'' # b @ CHR ''/'' # c" "0 < len"
    and d: "decimal_string offset a" "decimal_string (offset + len - 1) b" "decimal_string object_size c"
    by auto
  have digits: "CHR ''-'' \<notin> set a" "CHR ''/'' \<notin> set b" "CHR ''/'' \<notin> set c"
    using decimal_string_chars [OF d(1), of "CHR ''-''"] decimal_string_chars [OF d(2), of "CHR ''/''"]
      decimal_string_chars [OF d(3), of "CHR ''/''"] by (auto simp: isdigit_def)
  have "parse_unsigned_all 64 a = Some offset" "parse_unsigned_all 64 b = Some (offset + len - 1)"
    "parse_unsigned_all 64 c = Some object_size"
    using d assms t(2) by (auto simp: parse_unsigned_all_Some)
  then show ?L unfolding t(1) content_range_split [OF digits t(2)] using t(2) by simp
next
  assume L: ?L
  then have len: "0 < len" and "starts_with text ''bytes ''"
    by (auto simp: s3_content_range_matches_def split: if_splits)
  then obtain v where v: "text = ''bytes '' @ v" by (auto simp: starts_with_iff)
  obtain d where d: "find_char CHR ''-'' 0 v = Some d"
    using L len by (auto simp: s3_content_range_matches_def v Let_def split: option.splits if_splits)
  obtain a w where a: "v = a @ CHR ''-'' # w" "CHR ''-'' \<notin> set a" "d = length a"
    using d by (auto simp: find_char_0_Some)
  obtain s where s: "find_char CHR ''/'' (d + 1) v = Some s"
    using L len by (auto simp: s3_content_range_matches_def v Let_def d split: option.splits if_splits)
  obtain b c where w: "w = b @ CHR ''/'' # c" "CHR ''/'' \<notin> set b" "s = d + 1 + length b"
    using s by (auto simp: find_char_def find_char_from_Some a)
  have "find_char CHR ''/'' (s + 1) v = None"
    using L len d s by (auto simp: s3_content_range_matches_def v Let_def split: if_splits)
  then have c: "CHR ''/'' \<notin> set c" by (simp add: find_char_None a w)
  have t: "text = ''bytes '' @ a @ CHR ''-'' # b @ CHR ''/'' # c" by (simp add: v a w)
  obtain l where "parse_unsigned_all 64 a = Some offset" "parse_unsigned_all 64 b = Some l"
    "parse_unsigned_all 64 c = Some object_size" "l \<ge> offset" "l - offset = len - 1"
    using L unfolding t content_range_split [OF a(2) w(2) c len] by (auto split: option.splits)
  then have "decimal_string offset a \<and> decimal_string (offset + len - 1) b \<and> decimal_string object_size c"
    using len by (auto simp: parse_unsigned_all_Some) (metis Nat.add_diff_assoc Suc_leI le_add_diff_inverse One_nat_def)
  then show ?R using len t by auto
qed

lemma content_range_accepts_exactly_the_wanted_range_example:
  "s3_content_range_matches ''bytes 10-19/100'' 10 10 100"
proof -
  have "decimal_string 10 ''10''" "decimal_string (10 + 10 - 1) ''19''" "decimal_string 100 ''100''"
    by (simp_all add: decimal_string_def decimal_value_def isdigit_def digit_val_def)
  moreover have "''bytes 10-19/100'' = ''bytes '' @ ''10'' @ ''-'' @ ''19'' @ ''/'' @ ''100''" by simp
  ultimately show ?thesis
    using content_range_accepts_exactly_the_wanted_range [of 10 10 100 "''bytes 10-19/100''"]
    by (auto simp del: append_Cons append_Nil)
qed

section \<open>Virtual-hosted buckets\<close>

lemma rfind_only: "c \<notin> set u \<Longrightarrow> c \<notin> set v \<Longrightarrow> rfind_char c (u @ c # v) = Some (length u)"
proof -
  assume "c \<notin> set u" "c \<notin> set v"
  then have "find_char c 0 (rev v @ c # rev u) = Some (length v)" by (auto simp: find_char_0_Some)
  then show ?thesis by (simp add: rfind_char_def)
qed

lemma authority_host_port:
  assumes "CHR '':'' \<notin> set host" "host \<noteq> []" "hd host \<noteq> CHR ''[''" "CHR '':'' \<notin> set port"
  shows "authority_host host = Some host" "authority_host (host @ CHR '':'' # port) = Some host"
proof -
  have b: "\<not> starts_with host ''[''" "\<not> starts_with (host @ CHR '':'' # port) ''[''"
    using assms(2,3) by (cases host; simp add: starts_with_def)+
  have n: "find_char CHR '':'' 0 host = None" using assms(1) by (simp add: find_char_None)
  have f: "find_char CHR '':'' 0 (host @ CHR '':'' # port) = Some (length host)"
    using assms(1) by (auto simp: find_char_0_Some)
  show "authority_host host = Some host" "authority_host (host @ CHR '':'' # port) = Some host"
    using b n f rfind_only [OF assms(1,4)] by (simp_all add: authority_host_def)
qed

lemma list_all_tolower:
  "length bucket \<le> length host \<Longrightarrow>
   list_all (\<lambda>i. tolower (host ! i) = tolower (bucket ! i)) [0..<length bucket] \<longleftrightarrow>
   map tolower (take (length bucket) host) = map tolower bucket"
  unfolding list_all_iff list_eq_iff_nth_eq by auto

text \<open>
  An authority, with or without a port, addresses a bucket in virtual-hosted style exactly
  when its host is the bucket name, ignoring case, alone or followed by a dot.
\<close>

lemma virtual_bucket_is_host_prefix:
  assumes "CHR '':'' \<notin> set host" "host \<noteq> []" "hd host \<noteq> CHR ''[''" "CHR '':'' \<notin> set port"
    and "bucket \<noteq> []" "authority \<in> {host, host @ CHR '':'' # port}"
  shows "authority_uses_virtual_bucket authority bucket \<longleftrightarrow>
    (\<exists>u rest. host = u @ rest \<and> map tolower u = map tolower bucket \<and> (rest = [] \<or> hd rest = CHR ''.''))"
    (is "_ \<longleftrightarrow> ?R")
proof -
  have h: "authority_host authority = Some host"
    using assms(6) authority_host_port [OF assms(1-4)] by auto
  have r: "?R \<longleftrightarrow> length bucket \<le> length host \<and>
      map tolower (take (length bucket) host) = map tolower bucket \<and>
      (length host = length bucket \<or> host ! length bucket = CHR ''.'')"
  proof
    assume ?R
    then obtain u rest where u: "host = u @ rest" "map tolower u = map tolower bucket"
      "rest = [] \<or> hd rest = CHR ''.''" by blast
    then have "length u = length bucket" by (metis length_map)
    then show "length bucket \<le> length host \<and>
      map tolower (take (length bucket) host) = map tolower bucket \<and>
      (length host = length bucket \<or> host ! length bucket = CHR ''.'')"
      using u by (cases rest) (auto simp: nth_append)
  next
    assume r: "length bucket \<le> length host \<and>
      map tolower (take (length bucket) host) = map tolower bucket \<and>
      (length host = length bucket \<or> host ! length bucket = CHR ''.'')"
    then have "drop (length bucket) host = [] \<or> hd (drop (length bucket) host) = CHR ''.''"
      by (metis drop_all hd_drop_conv_nth le_less order_refl)
    then show ?R using r by (metis append_take_drop_id)
  qed
  have "authority_uses_virtual_bucket authority bucket \<longleftrightarrow> length bucket \<le> length host \<and>
      map tolower (take (length bucket) host) = map tolower bucket \<and>
      (length host = length bucket \<or> host ! length bucket = CHR ''.'')"
  proof (cases "length host < length bucket")
    case True
    then show ?thesis by (simp add: authority_uses_virtual_bucket_def h)
  next
    case False
    then have le: "length bucket \<le> length host" by simp
    show ?thesis
      unfolding authority_uses_virtual_bucket_def h option.case list_all_tolower [OF le]
      using assms(5) False by simp
  qed
  then show ?thesis unfolding r .
qed

lemma virtual_bucket_is_host_prefix_example:
  "authority_uses_virtual_bucket ''My-B.s3:9000'' ''my-b''"
proof -
  have "map tolower ''My-B'' = map tolower ''my-b''"
    by (simp add: tolower_def isupper_c_def char_of_eq_iff)
  then have "\<exists>u rest. ''My-B.s3'' = u @ rest \<and> map tolower u = map tolower ''my-b'' \<and>
      (rest = [] \<or> hd rest = CHR ''.'')"
    by (intro exI [of _ "''My-B''"] exI [of _ "''.s3''"]) simp
  with virtual_bucket_is_host_prefix [of "''My-B.s3''" "''9000''" "''my-b''" "''My-B.s3:9000''"]
  show ?thesis by (simp del: list.map)
qed

end
