(* ===== verification/Memo.thy ===== *)
theory Memo
  imports NG_Prelude
begin

text \<open>
  The contract of a one-entry cache in front of a function, as the code has it for the last time
  stamp and for the signing key: \<open>ok\<close> says that the cache agrees with the function, \<open>fits\<close> which
  arguments keep it so. What a client sees of a run of calls is then what the function answers.
\<close>

fun run_calls :: "('k \<Rightarrow> 'c \<Rightarrow> 'v \<times> 'c) \<Rightarrow> 'k list \<Rightarrow> 'c \<Rightarrow> 'v list \<times> 'c" where
  "run_calls step [] c = ([], c)"
| "run_calls step (k # ks) c =
     (let (v, c1) = step k c; (vs, c2) = run_calls step ks c1 in (v # vs, c2))"

locale memo =
  fixes f :: "'e \<Rightarrow> 'k \<Rightarrow> 'v"
    and fits :: "'e \<Rightarrow> 'k \<Rightarrow> bool"
    and ok :: "'e \<Rightarrow> 'c \<Rightarrow> bool"
    and step :: "'e \<Rightarrow> 'k \<Rightarrow> 'c \<Rightarrow> 'v \<times> 'c"
  assumes answer: "ok e c \<Longrightarrow> fits e k \<Longrightarrow> fst (step e k c) = f e k"
    and keep: "ok e c \<Longrightarrow> fits e k \<Longrightarrow> ok e (snd (step e k c))"
begin

lemma run_answers:
  "ok e c \<Longrightarrow> list_all (fits e) ks \<Longrightarrow>
   fst (run_calls (step e) ks c) = map (f e) ks \<and> ok e (snd (run_calls (step e) ks c))"
proof (induction ks arbitrary: c)
  case Nil
  then show ?case by simp
next
  case (Cons k ks)
  then have k: "ok e c" "fits e k" "list_all (fits e) ks" by simp_all
  have "ok e (snd (step e k c))" by (rule keep [OF k(1,2)])
  from Cons.IH [OF this k(3)] answer [OF k(1,2)] show ?case by (simp add: split_beta)
qed

end

text \<open>
  The same of a cache in front of a function that may fail, where a failure may leave the cache in
  any state: until the first failure of a run, what is answered is what the function answers, and
  a call that succeeds with the empty cache succeeds.
\<close>

locale fallible_memo =
  fixes f :: "'e \<Rightarrow> 'k \<Rightarrow> 'err + 'v"
    and fits :: "'e \<Rightarrow> 'k \<Rightarrow> bool"
    and ok :: "'e \<Rightarrow> 'c \<Rightarrow> bool"
    and init :: "'c"
    and step :: "'k \<Rightarrow> 'c \<Rightarrow> ('err + 'v) \<times> 'c"
  assumes start: "ok e init"
    and answer: "ok e c \<Longrightarrow> fits e k \<Longrightarrow> fst (step k c) = Inr v \<Longrightarrow> f e k = Inr v"
    and keep: "ok e c \<Longrightarrow> fits e k \<Longrightarrow> fst (step k c) = Inr v \<Longrightarrow> ok e (snd (step k c))"
    and serve: "ok e c \<Longrightarrow> fits e k \<Longrightarrow> fst (step k init) = Inr v \<Longrightarrow> fst (step k c) = Inr v"
begin

lemma run_answers:
  assumes "ok e c" "list_all (fits e) ks" "i < length ks"
    and "\<forall>j < i. \<exists>v. fst (run_calls step ks c) ! j = Inr v"
  shows "(fst (run_calls step ks c) ! i = Inr v \<longrightarrow> f e (ks ! i) = Inr v) \<and>
    (fst (step (ks ! i) init) = Inr v \<longrightarrow> fst (run_calls step ks c) ! i = Inr v)"
  using assms
proof (induction ks arbitrary: c i)
  case Nil
  then show ?case by simp
next
  case (Cons k ks)
  then have k: "fits e k" "list_all (fits e) ks" by simp_all
  show ?case
  proof (cases i)
    case 0
    then show ?thesis
      using answer [OF Cons.prems(1) k(1)] serve [OF Cons.prems(1) k(1)] by (simp add: split_beta)
  next
    case (Suc n)
    have "\<exists>v. fst (step k c) = Inr v" and rest: "\<forall>j < n. \<exists>v. fst (run_calls step ks (snd (step k c))) ! j = Inr v"
      using Cons.prems(4) Suc by (force simp: split_beta)+
    then have "ok e (snd (step k c))" using keep [OF Cons.prems(1) k(1)] by blast
    from Cons.IH [OF this k(2) _ rest] Cons.prems(3) Suc show ?thesis by (simp add: split_beta)
  qed
qed

lemmas run_from_start = run_answers [OF start]

end

end
