(* ===== verification/S3_Time.thy ===== *)
theory S3_Time
  imports Memo "HOL-Library.Signed_Division"
begin

text \<open>
  Times of the S3 client (\<^verbatim>\<open>src/src/s3.cpp\<close>): \<open>fixed_decimal\<close>, \<open>leap_year\<close>,
  \<open>utc_time\<close>, the two parsers of modification times and the time stamp of a signature. The
  reference is the Gregorian calendar, counted year by year and month by month.
\<close>

section \<open>The code\<close>

text \<open>The accumulator is an \<^verbatim>\<open>unsigned\<close> and wraps.\<close>

definition unsigned_decimal :: "string \<Rightarrow> nat" where
  "unsigned_decimal s = foldl (\<lambda>v c. (v * 10 + digit_val c) mod 2 ^ 32) 0 s"

definition fixed_decimal :: "string \<Rightarrow> nat \<Rightarrow> nat \<Rightarrow> nat result" where
  "fixed_decimal s p n =
     (if p + n > length s then Inl (RuntimeError ''truncated S3 LastModified'')
      else if \<not> list_all isdigit (substr s p n)
      then Inl (RuntimeError ''invalid S3 LastModified digit'')
      else Inr (unsigned_decimal (substr s p n)))"

definition leap_year :: "nat \<Rightarrow> bool" where
  "leap_year y \<longleftrightarrow> y mod 4 = 0 \<and> (y mod 100 \<noteq> 0 \<or> y mod 400 = 0)"

definition month_days :: "nat list" where
  "month_days = [31, 28, 31, 30, 31, 30, 31, 31, 30, 31, 30, 31]"

definition utc_days :: "nat \<Rightarrow> nat \<Rightarrow> nat \<Rightarrow> int" where
  "utc_days y m d =
     (let adjusted_year = int y - (if m \<le> 2 then 1 else 0);
          era = (if adjusted_year \<ge> 0 then adjusted_year else adjusted_year - 399) sdiv 400;
          year_of_era = nat (adjusted_year - era * 400);
          adjusted_month = (if m > 2 then m - 3 else m + 9);
          day_of_year = (153 * adjusted_month + 2) div 5 + d - 1;
          day_of_era = year_of_era * 365 + year_of_era div 4 - year_of_era div 100 + day_of_year
      in era * 146097 + int day_of_era - 719468)"

text \<open>\<^verbatim>\<open>time_t\<close> is a signed 64-bit integer.\<close>

definition utc_time :: "nat \<Rightarrow> nat \<Rightarrow> nat \<Rightarrow> nat \<Rightarrow> nat \<Rightarrow> nat \<Rightarrow> int result" where
  "utc_time y m d h n z =
     (if m = 0 \<or> m > 12 \<or> d = 0 \<or>
         d > month_days ! (m - 1) + (if m = 2 \<and> leap_year y then 1 else 0) \<or>
         h > 23 \<or> n > 59 \<or> z > 59
      then Inl (RuntimeError ''out-of-range Last-Modified'')
      else let seconds = utc_days y m d * 86400 + int (h * 3600 + n * 60 + z)
           in if seconds < - (2 ^ 63) \<or> seconds > 2 ^ 63 - 1
              then Inl (RuntimeError ''Last-Modified is outside time_t'')
              else Inr seconds)"

definition parse_s3_mtime :: "string \<Rightarrow> int result" where
  "parse_s3_mtime s =
     (if length s < 20 \<or> s ! 4 \<noteq> CHR ''-'' \<or> s ! 7 \<noteq> CHR ''-'' \<or> s ! 10 \<noteq> CHR ''T'' \<or>
         s ! 13 \<noteq> CHR '':'' \<or> s ! 16 \<noteq> CHR '':''
      then Inl (RuntimeError ''invalid S3 LastModified'')
      else if s ! 19 = CHR ''.'' \<and> (last s \<noteq> CHR ''Z'' \<or> length s = 21)
      then Inl (RuntimeError ''invalid S3 LastModified fraction'')
      else if s ! 19 = CHR ''.'' \<and> \<not> list_all isdigit (substr s 20 (length s - 21))
      then Inl (RuntimeError ''invalid S3 LastModified fraction'')
      else if s ! 19 \<noteq> CHR ''.'' \<and> (length s \<noteq> 20 \<or> s ! 19 \<noteq> CHR ''Z'')
      then Inl (RuntimeError ''invalid S3 LastModified timezone'')
      else ebind (fixed_decimal s 0 4) (\<lambda>y. ebind (fixed_decimal s 5 2) (\<lambda>m.
           ebind (fixed_decimal s 8 2) (\<lambda>d. ebind (fixed_decimal s 11 2) (\<lambda>h.
           ebind (fixed_decimal s 14 2) (\<lambda>n. ebind (fixed_decimal s 17 2) (\<lambda>z.
             utc_time y m d h n z)))))))"

definition http_weekdays :: "string list" where
  "http_weekdays = [''Mon'', ''Tue'', ''Wed'', ''Thu'', ''Fri'', ''Sat'', ''Sun'']"

definition http_months :: "string list" where
  "http_months = [''Jan'', ''Feb'', ''Mar'', ''Apr'', ''May'', ''Jun'',
     ''Jul'', ''Aug'', ''Sep'', ''Oct'', ''Nov'', ''Dec'']"

definition parse_http_mtime :: "string \<Rightarrow> int result" where
  "parse_http_mtime s =
     (if length s \<noteq> 29 \<or> s ! 3 \<noteq> CHR '','' \<or> s ! 4 \<noteq> CHR '' '' \<or> s ! 7 \<noteq> CHR '' '' \<or>
         s ! 11 \<noteq> CHR '' '' \<or> s ! 16 \<noteq> CHR '' '' \<or> s ! 19 \<noteq> CHR '':'' \<or> s ! 22 \<noteq> CHR '':'' \<or>
         s ! 25 \<noteq> CHR '' '' \<or> drop 26 s \<noteq> ''GMT''
      then Inl (RuntimeError ''invalid HTTP Last-Modified'')
      else if substr s 0 3 \<notin> set http_weekdays
      then Inl (RuntimeError ''invalid HTTP Last-Modified weekday'')
      else case find_index (\<lambda>x. x = substr s 8 3) http_months of
             None \<Rightarrow> Inl (RuntimeError ''invalid HTTP Last-Modified month'')
           | Some month \<Rightarrow>
               ebind (fixed_decimal s 12 4) (\<lambda>y. ebind (fixed_decimal s 5 2) (\<lambda>d.
               ebind (fixed_decimal s 17 2) (\<lambda>h. ebind (fixed_decimal s 20 2) (\<lambda>n.
               ebind (fixed_decimal s 23 2) (\<lambda>z. utc_time y (month + 1) d h n z))))))"

text \<open>
  \<^verbatim>\<open>std::chrono::year_month_day\<close> of a day number, for the days from the year 0 on: the
  years, then the months, are counted off. The arguments are the day number and the year or
  month it is counted from.
\<close>

function chrono_year :: "nat \<Rightarrow> nat \<Rightarrow> nat \<times> nat" where
  "chrono_year n y =
     (let len = (if leap_year y then 366 else 365)
      in if n < len then (y, n) else chrono_year (n - len) (y + 1))"
  by pat_completeness auto
termination by (relation "measure fst") (auto split: if_splits)

declare chrono_year.simps [simp del]

fun chrono_month :: "bool \<Rightarrow> nat \<Rightarrow> nat \<Rightarrow> nat list \<Rightarrow> nat \<times> nat" where
  "chrono_month leap n m [] = (m, n)"
| "chrono_month leap n m (len # lens) =
     (let l = len + (if m = 2 \<and> leap then 1 else 0)
      in if n < l then (m, n) else chrono_month leap (n - l) (m + 1) lens)"

definition year_month_day :: "nat \<Rightarrow> nat \<times> nat \<times> nat" where
  "year_month_day n =
     (let (y, r) = chrono_year n 0; (m, d) = chrono_month (leap_year y) r 1 month_days
      in (y, m, d + 1))"

definition write_2digits :: "nat \<Rightarrow> string" where
  "write_2digits n = [char_of (48 + n div 10), char_of (48 + n mod 10)]"

definition write_4digits :: "nat \<Rightarrow> string" where
  "write_4digits n = write_2digits (n div 100) @ write_2digits (n mod 100)"

text \<open>Day 0 of the year 0 is 719528 days before the epoch; days before it have a negative year.\<close>

definition amz_datetime :: "int \<Rightarrow> string result" where
  "amz_datetime epoch_seconds =
     (let day = epoch_seconds div 86400;
          time = nat (epoch_seconds mod 86400);
          (y, m, d) = year_month_day (nat (day + 719528))
      in if day + 719528 < 0 \<or> y > 9999
         then Inl (OutOfRange ''SigV4 year is outside YYYY range'')
         else Inr (write_4digits y @ write_2digits m @ write_2digits d @ ''T'' @
                write_2digits (time div 3600) @ write_2digits (time div 60 mod 60) @
                write_2digits (time mod 60) @ ''Z''))"

text \<open>\<open>amz_datetime_now\<close>, with the clock as an argument and the cache of the last second.\<close>

record datetime_cache =
  cached_second :: int
  cached_value :: string

definition amz_datetime_now :: "int option \<Rightarrow> datetime_cache \<Rightarrow> string result \<times> datetime_cache" where
  "amz_datetime_now clock cache =
     (case clock of
        None \<Rightarrow> (Inl (RuntimeError ''clock_gettime(CLOCK_REALTIME_COARSE) failed''), cache)
      | Some second \<Rightarrow>
          if cached_second cache \<noteq> second
          then case amz_datetime second of
                 Inl e \<Rightarrow> (Inl e, cache\<lparr>cached_second := second\<rparr>)
               | Inr v \<Rightarrow> (Inr v, \<lparr>cached_second = second, cached_value = v\<rparr>)
          else (Inr (cached_value cache), cache))"

definition new_datetime_cache :: datetime_cache where
  "new_datetime_cache = \<lparr>cached_second = - (2 ^ 63), cached_value = []\<rparr>"

section \<open>The Gregorian calendar\<close>

definition year_len :: "nat \<Rightarrow> nat" where
  "year_len y = (if leap_year y then 366 else 365)"

definition month_len :: "nat \<Rightarrow> nat \<Rightarrow> nat" where
  "month_len y m = month_days ! (m - 1) + (if m = 2 \<and> leap_year y then 1 else 0)"

fun days_before_year :: "nat \<Rightarrow> nat" where
  "days_before_year 0 = 0"
| "days_before_year (Suc y) = days_before_year y + year_len y"

fun days_before_month :: "nat \<Rightarrow> nat \<Rightarrow> nat" where
  "days_before_month y 0 = 0"
| "days_before_month y (Suc m) = (if m = 0 then 0 else days_before_month y m + month_len y m)"

definition calendar_day :: "nat \<Rightarrow> nat \<Rightarrow> nat \<Rightarrow> nat" where
  "calendar_day y m d = days_before_year y + days_before_month y m + (d - 1)"

definition valid_date :: "nat \<Rightarrow> nat \<Rightarrow> nat \<Rightarrow> bool" where
  "valid_date y m d \<longleftrightarrow> 1 \<le> m \<and> m \<le> 12 \<and> 1 \<le> d \<and> d \<le> month_len y m"

text \<open>The seconds of a date and time of day since 1970.\<close>

definition calendar_seconds :: "nat \<Rightarrow> nat \<Rightarrow> nat \<Rightarrow> nat \<Rightarrow> nat \<Rightarrow> nat \<Rightarrow> int" where
  "calendar_seconds y m d h n z =
     (int (calendar_day y m d) - int (calendar_day 1970 1 1)) * 86400 + int (h * 3600 + n * 60 + z)"

lemma ceil_div:
  assumes "0 < k"
  shows "(y + (k - 1)) div k + (if y mod k = 0 then 1 else 0) = y div k + (1 :: nat)"
proof -
  define q r where "q = y div k" and "r = y mod k"
  have y: "y = q * k + r" and r: "r < k" using assms by (simp_all add: q_def r_def)
  show ?thesis
  proof (cases "r = 0")
    case True
    have "(k - 1 + q * k) div k = q" using assms by (subst div_mult_self1) simp_all
    then have "(y + (k - 1)) div k = q" using True by (simp only: y add.commute add_0_left)
    then show ?thesis using True by (simp add: q_def r_def)
  next
    case False
    then have "y + (k - 1) = (q + 1) * k + (r - 1)" using y r by (simp add: algebra_simps)
    then have "(y + (k - 1)) div k = q + 1" using r False by (simp only: div_mult_self3) simp
    then show ?thesis using False by (simp add: q_def r_def)
  qed
qed

lemmas ceil_div_year = ceil_div [of 4, simplified] ceil_div [of 100, simplified] ceil_div [of 400, simplified]

lemma leap_mods:
  fixes y :: nat
  shows "y mod 400 = 0 \<Longrightarrow> y mod 100 = 0" "y mod 100 = 0 \<Longrightarrow> y mod 4 = 0"
  by presburger+

lemma year_len_eq: "year_len y + (if y mod 100 = 0 then 1 else 0) =
    365 + (if y mod 4 = 0 then 1 else 0) + (if y mod 400 = 0 then 1 else 0)"
  using leap_mods [of y] by (auto simp: year_len_def leap_year_def)

lemma days_before_year_eq:
  "days_before_year y + (y + 99) div 100 = 365 * y + (y + 3) div 4 + (y + 399) div 400"
proof (induction y)
  case (Suc y)
  have "Suc y + 99 = y + 100" "Suc y + 3 = y + 4" "Suc y + 399 = y + 400" by simp_all
  moreover have "(y + 100) div 100 = y div 100 + 1" "(y + 4) div 4 = y div 4 + 1"
    "(y + 400) div 400 = y div 400 + 1" by simp_all
  ultimately show ?case
    using Suc year_len_eq [of y] ceil_div_year [of y]
    by (simp only: days_before_year.simps) (simp split: if_splits)
qed simp

lemma days_before_1970: "days_before_year 1970 = 719528"
  using days_before_year_eq [of 1970] by simp

text \<open>Years counted from March: the closed form the code evaluates.\<close>

definition march_days :: "nat \<Rightarrow> nat" where
  "march_days y = 365 * y + y div 4 - y div 100 + y div 400"

lemma march_days_add: "march_days y + y div 100 = 365 * y + y div 4 + y div 400"
proof -
  define a b c where "a = y div 4" and "b = y div 100" and "c = y div 400"
  have "b \<le> a" unfolding a_def b_def by (rule div_le_mono2) simp_all
  then show ?thesis
    unfolding march_days_def a_def [symmetric] b_def [symmetric] c_def [symmetric] by simp
qed

lemma march_days_era:
  "march_days y = y div 400 * 146097 + (y mod 400 * 365 + y mod 400 div 4 - y mod 400 div 100)"
proof -
  define e r where "e = y div 400" and "r = y mod 400"
  have y: "y = 400 * e + r" by (simp add: e_def r_def)
  define a b where "a = r div 4" and "b = r div 100"
  have "y div 4 = 100 * e + a" "y div 100 = 4 * e + b"
    unfolding y a_def b_def by (simp_all add: div_add1_eq [of "400 * e" r])
  moreover have "b \<le> a" unfolding a_def b_def by (rule div_le_mono2) simp_all
  ultimately have "march_days y + (4 * e + b) = 365 * (400 * e + r) + (100 * e + a) + e"
    using march_days_add [of y] by (simp add: e_def [symmetric]) (simp add: y)
  then show ?thesis
    unfolding e_def [symmetric] r_def [symmetric] a_def [symmetric] b_def [symmetric]
    using \<open>b \<le> a\<close> by (simp add: algebra_simps)
qed

lemma march_days_after: "days_before_year y + (if leap_year y then 1 else 0) = march_days y + 1"
proof -
  define a b c where "a = y div 4" and "b = y div 100" and "c = y div 400"
  define a' b' c' where "a' = (y + 3) div 4" and "b' = (y + 99) div 100" and "c' = (y + 399) div 400"
  have "a' + (if y mod 4 = 0 then 1 else 0) = a + 1" "b' + (if y mod 100 = 0 then 1 else 0) = b + 1"
    "c' + (if y mod 400 = 0 then 1 else 0) = c + 1"
    unfolding a_def b_def c_def a'_def b'_def c'_def using ceil_div_year [of y] by simp_all
  moreover have "days_before_year y + b' = 365 * y + a' + c'" "march_days y + b = 365 * y + a + c"
    unfolding a_def b_def c_def a'_def b'_def c'_def by (rule days_before_year_eq, rule march_days_add)
  ultimately show ?thesis
    using leap_mods [of y] by (auto simp: leap_year_def split: if_splits)
qed

lemma march_days_before: "days_before_year (Suc y) = march_days y + 366"
proof -
  define a b c where "a = y div 4" and "b = y div 100" and "c = y div 400"
  have "(Suc y + 99) div 100 = b + 1" "(Suc y + 3) div 4 = a + 1" "(Suc y + 399) div 400 = c + 1"
    by (simp_all add: a_def b_def c_def)
  then have "days_before_year (Suc y) + (b + 1) = 365 * Suc y + (a + 1) + (c + 1)"
    using days_before_year_eq [of "Suc y"] by simp
  moreover have "march_days y + b = 365 * y + a + c"
    unfolding a_def b_def c_def by (rule march_days_add)
  ultimately show ?thesis by simp
qed

lemma days_before_month_eval:
  "days_before_month y (Suc 0) = 0"
  "days_before_month y 2 = 31"
  "days_before_month y 3 = 59 + (if leap_year y then 1 else 0)"
  "days_before_month y 4 = 90 + (if leap_year y then 1 else 0)"
  "days_before_month y 5 = 120 + (if leap_year y then 1 else 0)"
  "days_before_month y 6 = 151 + (if leap_year y then 1 else 0)"
  "days_before_month y 7 = 181 + (if leap_year y then 1 else 0)"
  "days_before_month y 8 = 212 + (if leap_year y then 1 else 0)"
  "days_before_month y 9 = 243 + (if leap_year y then 1 else 0)"
  "days_before_month y 10 = 273 + (if leap_year y then 1 else 0)"
  "days_before_month y 11 = 304 + (if leap_year y then 1 else 0)"
  "days_before_month y 12 = 334 + (if leap_year y then 1 else 0)"
  by (simp_all add: month_len_def month_days_def eval_nat_numeral)

lemma month_cases:
  assumes "1 \<le> m" "m \<le> (12 :: nat)"
  shows "m = 1 \<or> m = 2 \<or> m = 3 \<or> m = 4 \<or> m = 5 \<or> m = 6 \<or> m = 7 \<or> m = 8 \<or> m = 9 \<or> m = 10 \<or>
    m = 11 \<or> m = 12"
  using assms by presburger

lemma sdiv_era: "int y sdiv 400 = int (y div 400)"
proof (cases "y = 0")
  case False
  then show ?thesis by (simp add: signed_divide_int_def zdiv_int)
qed simp

text \<open>The closed form of the code is the day of the calendar.\<close>

lemma utc_days_era:
  assumes "int y - (if m \<le> 2 then 1 else 0) = int a"
  shows "utc_days y m d = int (march_days a + ((153 * (if m > 2 then m - 3 else m + 9) + 2) div 5 + d - 1)) - 719468"
proof -
  have n: "nat (int a - int (a div 400) * 400) = a mod 400"
    by (metis minus_div_mult_eq_mod of_nat_numeral zdiv_int zmod_int nat_int)
  show ?thesis
    unfolding utc_days_def Let_def assms march_days_era [of a]
    by (simp only: of_nat_0_le_iff if_True sdiv_era n of_nat_add of_nat_mult of_nat_numeral)
qed

lemma utc_days_calendar:
  assumes "1 \<le> m" "m \<le> 12" "1 \<le> d"
  shows "utc_days y m d = int (calendar_day y m d) - 719528"
proof (cases "m > 2")
  case True
  then have "int y - (if m \<le> 2 then 1 else 0) = int y" by simp
  then have "utc_days y m d = int (march_days y + ((153 * (m - 3) + 2) div 5 + d - 1)) - 719468"
    using utc_days_era True by simp
  moreover have "(153 * (m - 3) + 2) div 5 + 60 = days_before_month y m + (if leap_year y then 0 else 1)"
    using month_cases [OF assms(1,2)] True
    by (elim disjE; simp add: days_before_month_eval)
  ultimately show ?thesis
    using march_days_after [of y] assms(3) by (simp add: calendar_day_def split: if_splits)
next
  case False
  then have m: "m = 1 \<or> m = 2" using assms(1) by auto
  have mon: "(153 * (m + 9) + 2) div 5 = days_before_month y m + 306"
    using m by (auto simp: days_before_month_eval)
  show ?thesis
  proof (cases y)
    case 0
    then show ?thesis
      using m assms(3)
      by (auto simp: utc_days_def Let_def calendar_day_def days_before_month_eval signed_divide_int_def)
  next
    case (Suc a)
    then have "int y - (if m \<le> 2 then 1 else 0) = int a" using False by simp
    then have "utc_days y m d = int (march_days a + ((153 * (m + 9) + 2) div 5 + d - 1)) - 719468"
      using utc_days_era False by simp
    then show ?thesis
      using march_days_before [of a] assms(3) mon by (simp add: calendar_day_def Suc del: days_before_year.simps)
  qed
qed

lemma utc_time_calendar:
  assumes "y < 2 ^ 32"
  shows "utc_time y m d h n z =
    (if valid_date y m d \<and> h < 24 \<and> n < 60 \<and> z < 60 then Inr (calendar_seconds y m d h n z)
     else Inl (RuntimeError ''out-of-range Last-Modified''))"
proof (cases "valid_date y m d \<and> h < 24 \<and> n < 60 \<and> z < 60")
  case True
  then have v: "1 \<le> m" "m \<le> 12" "1 \<le> d" "d \<le> month_len y m" by (simp_all add: valid_date_def)
  have day: "utc_days y m d = int (calendar_day y m d) - 719528" by (rule utc_days_calendar [OF v(1-3)])
  have ref: "calendar_day 1970 1 1 = 719528" by (simp add: calendar_day_def days_before_1970)
  have "days_before_month y m \<le> 335" "month_len y m \<le> 31"
    using month_cases [OF v(1,2)]
    by (auto simp: days_before_month_eval month_len_def month_days_def)
  moreover have "days_before_year y \<le> 366 * y" by (induction y) (simp_all add: year_len_def)
  ultimately have "calendar_day y m d \<le> 366 * 2 ^ 32 + 400"
    using v(4) assms unfolding calendar_day_def by linarith
  then have b: "int (calendar_day y m d) \<le> 366 * 2 ^ 32 + 400" by simp
  have t: "int (h * 3600 + n * 60 + z) < 86400" "0 \<le> int (h * 3600 + n * 60 + z)"
    using True by auto
  have "\<not> (utc_days y m d * 86400 + int (h * 3600 + n * 60 + z) < - (2 ^ 63) \<or>
      utc_days y m d * 86400 + int (h * 3600 + n * 60 + z) > 2 ^ 63 - 1)"
    unfolding day using b t by simp
  moreover have "\<not> (m = 0 \<or> m > 12 \<or> d = 0 \<or> d > month_days ! (m - 1) + (if m = 2 \<and> leap_year y then 1 else 0) \<or>
      h > 23 \<or> n > 59 \<or> z > 59)"
    using True v by (auto simp: month_len_def)
  ultimately show ?thesis
    using True unfolding utc_time_def Let_def by (simp only: if_False if_True day calendar_seconds_def ref) simp
next
  case False
  then have "m = 0 \<or> m > 12 \<or> d = 0 \<or> d > month_days ! (m - 1) + (if m = 2 \<and> leap_year y then 1 else 0) \<or>
      h > 23 \<or> n > 59 \<or> z > 59"
    by (auto simp: valid_date_def month_len_def)
  then show ?thesis using False unfolding utc_time_def by (simp only: if_True if_False)
qed

text \<open>
  The closed form the client evaluates is the Gregorian calendar: a date and time of day is
  accepted exactly when the calendar has it, for every year of an unsigned integer, and the
  result is the number of seconds since 1970 counted by years and months of the calendar;
  nothing else is an error.
\<close>

lemma utc_time_is_calendar_time:
  assumes "y < 2 ^ 32"
  shows "utc_time y m d h n z =
    (if valid_date y m d \<and> h < 24 \<and> n < 60 \<and> z < 60 then Inr (calendar_seconds y m d h n z)
     else Inl (RuntimeError ''out-of-range Last-Modified''))"
  by (rule utc_time_calendar [OF assms])

lemma utc_time_is_calendar_time_example:
  "utc_time 2024 2 29 12 0 1 = Inr 1709208001 \<and>
   utc_time 2023 2 29 12 0 1 = Inl (RuntimeError ''out-of-range Last-Modified'')"
proof -
  have "valid_date 2024 2 29" "\<not> valid_date 2023 2 29" "leap_year 2024"
    by (simp_all add: valid_date_def month_len_def month_days_def leap_year_def)
  moreover have "calendar_seconds 2024 2 29 12 0 1 = 1709208001"
    using days_before_year_eq [of 2024]
    by (simp add: calendar_seconds_def calendar_day_def days_before_1970 days_before_month_eval)
  ultimately show ?thesis
    using utc_time_is_calendar_time [of 2024 2 29 12 0 1] utc_time_is_calendar_time [of 2023 2 29 12 0 1]
    by simp
qed

section \<open>From a time to a date and back\<close>

lemma days_before_year_mono: "a \<le> b \<Longrightarrow> days_before_year a \<le> days_before_year b"
  by (rule lift_Suc_mono_le [of days_before_year]) simp_all

lemma month_len_le: "1 \<le> m \<Longrightarrow> m \<le> 12 \<Longrightarrow> month_len y m \<le> 31"
  by (drule (1) month_cases) (auto simp: month_len_def month_days_def)

lemma valid_date_in_year:
  assumes "valid_date y m d"
  shows "calendar_day y m d < days_before_year (Suc y)"
proof -
  have m: "1 \<le> m" "m \<le> 12" using assms by (simp_all add: valid_date_def)
  have "days_before_month y m + month_len y m \<le> year_len y"
    using month_cases [OF m]
    by (auto simp: days_before_month_eval month_len_def month_days_def year_len_def)
  then show ?thesis using assms by (auto simp: calendar_day_def valid_date_def)
qed

lemma time_fields: "time div 3600 * 3600 + time div 60 mod 60 * 60 + time mod 60 = (time :: nat)"
proof -
  define q where "q = time div 60"
  have "time div 3600 = q div 60" by (simp add: q_def div_mult2_eq [symmetric])
  moreover have "q div 60 * 3600 + q mod 60 * 60 = (q div 60 * 60 + q mod 60) * 60"
    unfolding add_mult_distrib by simp
  ultimately have "time div 3600 * 3600 + q mod 60 * 60 = q * 60" by (simp only: div_mult_mod_eq)
  then show ?thesis unfolding q_def [symmetric] by (simp add: q_def)
qed

lemma chrono_year_spec:
  "chrono_year n y = (y', r) \<Longrightarrow>
   y \<le> y' \<and> days_before_year y' + r = days_before_year y + n \<and> r < year_len y'"
proof (induction n arbitrary: y rule: less_induct)
  case (less n)
  show ?case
  proof (cases "n < year_len y")
    case True
    then have "chrono_year n y = (y, n)" by (subst chrono_year.simps) (simp add: year_len_def)
    then show ?thesis using less.prems True by simp
  next
    case False
    then have step: "chrono_year n y = chrono_year (n - year_len y) (y + 1)"
      by (subst chrono_year.simps) (simp add: year_len_def)
    have "n - year_len y < n" using False by (simp add: year_len_def split: if_splits)
    then show ?thesis using less.IH [of "n - year_len y" "y + 1"] less.prems step False by simp
  qed
qed

lemma days_before_month_year_end: "days_before_month y 12 + month_len y 12 = year_len y"
  by (simp add: days_before_month_eval month_len_def month_days_def year_len_def)

lemma chrono_month_spec:
  "lens = drop (m - 1) month_days \<Longrightarrow> 1 \<le> m \<Longrightarrow> m \<le> 12 \<Longrightarrow>
   days_before_month y m + n < year_len y \<Longrightarrow> chrono_month (leap_year y) n m lens = (m', r) \<Longrightarrow>
   m \<le> m' \<and> m' \<le> 12 \<and> days_before_month y m' + r = days_before_month y m + n \<and> r < month_len y m'"
proof (induction lens arbitrary: m n)
  case Nil
  then show ?case by (simp add: month_days_def)
next
  case (Cons len lens)
  have m: "m - 1 < length month_days" using Cons.prems(2,3) by (simp add: month_days_def)
  have "len # lens = month_days ! (m - 1) # drop (Suc (m - 1)) month_days"
    using Cons.prems(1) Cons_nth_drop_Suc [OF m] by simp
  then have len: "len = month_days ! (m - 1)" "lens = drop m month_days"
    using Cons.prems(2) by simp_all
  have l: "len + (if m = 2 \<and> leap_year y then 1 else 0) = month_len y m" by (simp add: len month_len_def)
  show ?case
  proof (cases "n < month_len y m")
    case True
    then show ?thesis using Cons.prems(2,3,5) by (simp add: l)
  next
    case False
    then have step: "chrono_month (leap_year y) (n - month_len y m) (m + 1) lens = (m', r)"
      using Cons.prems(5) by (simp add: l)
    have "m \<noteq> 12" using Cons.prems(4) False days_before_month_year_end [of y] by auto
    then have lt: "m + 1 \<le> 12" using Cons.prems(3) by simp
    have next_month: "days_before_month y (m + 1) = days_before_month y m + month_len y m"
      using Cons.prems(2) by simp
    show ?thesis
      using Cons.IH [of "m + 1" "n - month_len y m"] len(2) lt next_month Cons.prems(4) False step by simp
  qed
qed

lemma year_month_day_spec:
  assumes "year_month_day n = (y, m, d)"
  shows "valid_date y m d" "calendar_day y m d = n"
proof -
  obtain r where r: "chrono_year n 0 = (y, r)" "chrono_month (leap_year y) r 1 month_days = (m, d - 1)" "1 \<le> d"
    using assms by (auto simp: year_month_day_def split: prod.splits)
  note ys = chrono_year_spec [OF r(1)]
  have "m \<le> 12 \<and> 1 \<le> m \<and> days_before_month y m + (d - 1) = r \<and> d - 1 < month_len y m"
    using chrono_month_spec [of month_days 1 y r m "d - 1"] r(2) ys by simp
  then show "valid_date y m d" "calendar_day y m d = n"
    using ys r(3) by (auto simp: valid_date_def calendar_day_def)
qed

lemma digit_chars:
  assumes "n < 10"
  shows "isdigit (char_of (48 + n))" "digit_val (char_of (48 + n)) = n"
  using byte_of_digit [OF assms] assms by (simp_all add: isdigit_def digit_val_def)

lemma two_digits_acc:
  assumes "n < 100" "v < 100"
  shows "foldl (\<lambda>v c. (v * 10 + digit_val c) mod 2 ^ 32) v (write_2digits n) = v * 100 + n"
proof -
  have "n div 10 < 10" "n mod 10 < 10" using assms(1) by auto
  note d = digit_chars(2) [OF this(1)] digit_chars(2) [OF this(2)]
  have "(v * 10 + n div 10) * 10 + n mod 10 = v * 100 + n" by simp
  moreover have "v * 10 + n div 10 < 2 ^ 32" "v * 100 + n < 2 ^ 32" using assms by auto
  ultimately show ?thesis by (simp only: write_2digits_def foldl.simps d mod_less)
qed

lemma two_digits:
  assumes "n < 100"
  shows "list_all isdigit (write_2digits n)" "unsigned_decimal (write_2digits n) = n" "length (write_2digits n) = 2"
proof -
  have "n div 10 < 10" "n mod 10 < 10" using assms by auto
  note d = digit_chars(1) [OF this(1)] digit_chars(1) [OF this(2)]
  show "list_all isdigit (write_2digits n)" "length (write_2digits n) = 2" using d by (simp_all add: write_2digits_def)
  show "unsigned_decimal (write_2digits n) = n"
    using two_digits_acc [OF assms, of 0] by (simp only: unsigned_decimal_def)
qed

lemma four_digits:
  assumes "n < 10000"
  shows "list_all isdigit (write_4digits n)" "unsigned_decimal (write_4digits n) = n" "length (write_4digits n) = 4"
proof -
  have a: "n div 100 < 100" "n mod 100 < 100" using assms by auto
  note t = two_digits [OF a(1)] two_digits [OF a(2)]
  show "list_all isdigit (write_4digits n)" "length (write_4digits n) = 4"
    using t by (simp_all add: write_4digits_def)
  have "n div 100 * 100 + n mod 100 = n" by simp
  then show "unsigned_decimal (write_4digits n) = n"
    using t(2) two_digits_acc [OF a(2,1)] by (simp only: unsigned_decimal_def write_4digits_def foldl_append)
qed

lemma fixed_decimal_append:
  assumes "length u = p" "length ds = n" "list_all isdigit ds"
  shows "fixed_decimal (u @ ds @ v) p n = Inr (unsigned_decimal ds)"
  using assms by (simp add: fixed_decimal_def substr_def)

lemma amz_datetime_cases:
  "(case amz_datetime t of
      Inr s \<Rightarrow> - 62167219200 \<le> t \<and> t < 253402300800 \<and>
        length s = 16 \<and> s ! 8 = CHR ''T'' \<and> last s = CHR ''Z'' \<and>
        (\<exists>y m d h n z. fixed_decimal s 0 4 = Inr y \<and> fixed_decimal s 4 2 = Inr m \<and>
           fixed_decimal s 6 2 = Inr d \<and> fixed_decimal s 9 2 = Inr h \<and>
           fixed_decimal s 11 2 = Inr n \<and> fixed_decimal s 13 2 = Inr z \<and>
           utc_time y m d h n z = Inr t)
    | Inl e \<Rightarrow> t < - 62167219200 \<or> 253402300800 \<le> t)"
proof -
  define day where "day = t div 86400"
  define time where "time = nat (t mod 86400)"
  obtain y m d where ymd: "year_month_day (nat (day + 719528)) = (y, m, d)" by (metis prod_cases3)
  note spec = year_month_day_spec [OF ymd]
  have t: "t = day * 86400 + int time" by (simp add: day_def time_def)
  have time: "time < 86400" by (simp add: time_def nat_less_iff)
  show ?thesis
  proof (cases "day + 719528 < 0 \<or> y > 9999")
    case True
    then have "amz_datetime t = Inl (OutOfRange ''SigV4 year is outside YYYY range'')"
      by (simp add: amz_datetime_def Let_def day_def [symmetric] ymd)
    moreover have "t < - 62167219200 \<or> 253402300800 \<le> t"
    proof (cases "day + 719528 < 0")
      case True
      then show ?thesis using t time by linarith
    next
      case False
      then have "y > 9999" using \<open>day + 719528 < 0 \<or> y > 9999\<close> by simp
      then have "days_before_year 10000 \<le> days_before_year y" by (intro days_before_year_mono) simp
      moreover have "days_before_year 10000 = 3652425" using days_before_year_eq [of 10000] by simp
      ultimately have "3652425 \<le> nat (day + 719528)" using spec(2) unfolding calendar_day_def by linarith
      then show ?thesis using t False by linarith
    qed
    ultimately show ?thesis by simp
  next
    case False
    let ?h = "time div 3600" and ?n = "time div 60 mod 60" and ?z = "time mod 60"
    have v: "y < 10000" "m < 100" "d < 100" "?h < 100" "?n < 100" "?z < 100" "?h < 24" "?n < 60" "?z < 60"
      using False spec(1) month_len_le [of m y] time by (auto simp: valid_date_def less_mult_imp_div_less)
    define s where "s = write_4digits y @ write_2digits m @ write_2digits d @ ''T'' @
      write_2digits ?h @ write_2digits ?n @ write_2digits ?z @ ''Z''"
    have s: "amz_datetime t = Inr s"
      using False by (simp add: amz_datetime_def Let_def day_def [symmetric] time_def [symmetric] ymd s_def)
    note dig = four_digits [OF v(1)] two_digits [OF v(2)] two_digits [OF v(3)] two_digits [OF v(4)]
      two_digits [OF v(5)] two_digits [OF v(6)]
    have f: "fixed_decimal s 0 4 = Inr y" "fixed_decimal s 4 2 = Inr m" "fixed_decimal s 6 2 = Inr d"
      "fixed_decimal s 9 2 = Inr ?h" "fixed_decimal s 11 2 = Inr ?n" "fixed_decimal s 13 2 = Inr ?z"
      using dig by (simp_all add: fixed_decimal_def substr_def s_def)
    have "?h * 3600 + ?n * 60 + ?z = time" by (rule time_fields)
    moreover have "int (calendar_day y m d) - int (calendar_day 1970 1 1) = day"
      using spec(2) False by (simp add: calendar_day_def days_before_1970)
    ultimately have "calendar_seconds y m d ?h ?n ?z = t" by (simp only: calendar_seconds_def t)
    then have u: "utc_time y m d ?h ?n ?z = Inr t"
      using utc_time_calendar [of y m d ?h ?n ?z] spec(1) v by simp
    have "days_before_year (Suc y) \<le> days_before_year 10000"
      using v(1) by (intro days_before_year_mono) simp
    moreover have "days_before_year 10000 = 3652425" using days_before_year_eq [of 10000] by simp
    ultimately have "nat (day + 719528) < 3652425"
      using valid_date_in_year [OF spec(1)] spec(2) by linarith
    then have "- 62167219200 \<le> t \<and> t < 253402300800" using t time False by linarith
    moreover have "length s = 16" "s ! 8 = CHR ''T''" "last s = CHR ''Z''"
      using dig by (simp_all add: s_def nth_append)
    ultimately show ?thesis using s f u by auto
  qed
qed

text \<open>
  The time stamp of a signature denotes the given second: for every second of the years 0 to
  9999, and for no other, a stamp is produced; it has the form the signer demands, and reading
  its fields back gives the same second.
\<close>

lemma amz_datetime_roundtrip:
  "(case amz_datetime t of
      Inr s \<Rightarrow> - 62167219200 \<le> t \<and> t < 253402300800 \<and>
        length s = 16 \<and> s ! 8 = CHR ''T'' \<and> last s = CHR ''Z'' \<and>
        (\<exists>y m d h n z. fixed_decimal s 0 4 = Inr y \<and> fixed_decimal s 4 2 = Inr m \<and>
           fixed_decimal s 6 2 = Inr d \<and> fixed_decimal s 9 2 = Inr h \<and>
           fixed_decimal s 11 2 = Inr n \<and> fixed_decimal s 13 2 = Inr z \<and>
           utc_time y m d h n z = Inr t)
    | Inl e \<Rightarrow> t < - 62167219200 \<or> 253402300800 \<le> t)"
  by (rule amz_datetime_cases)

section \<open>Modification times\<close>

text \<open>The texts of a date and time of day: of a listing, with an optional fraction, and of HTTP.\<close>

definition s3_text :: "nat \<Rightarrow> nat \<Rightarrow> nat \<Rightarrow> nat \<Rightarrow> nat \<Rightarrow> nat \<Rightarrow> string \<Rightarrow> string" where
  "s3_text y m d h n z fraction =
     write_4digits y @ ''-'' @ write_2digits m @ ''-'' @ write_2digits d @ ''T'' @
     write_2digits h @ '':'' @ write_2digits n @ '':'' @ write_2digits z @
     (if fraction = [] then [] else CHR ''.'' # fraction) @ ''Z''"

definition http_text :: "string \<Rightarrow> nat \<Rightarrow> nat \<Rightarrow> nat \<Rightarrow> nat \<Rightarrow> nat \<Rightarrow> nat \<Rightarrow> string" where
  "http_text weekday y m d h n z =
     weekday @ '', '' @ write_2digits d @ '' '' @ http_months ! (m - 1) @ '' '' @ write_4digits y @
     '' '' @ write_2digits h @ '':'' @ write_2digits n @ '':'' @ write_2digits z @ '' GMT''"

lemma write_digits_exp:
  "write_2digits a = [char_of (48 + a div 10), char_of (48 + a mod 10)]"
  "write_4digits a = [char_of (48 + a div 100 div 10), char_of (48 + a div 100 mod 10),
     char_of (48 + a mod 100 div 10), char_of (48 + a mod 100 mod 10)]"
  by (simp_all add: write_2digits_def write_4digits_def)

lemma month_name:
  assumes "1 \<le> m" "m \<le> 12"
  shows "length (http_months ! (m - 1)) = 3"
    "find_index (\<lambda>x. x = http_months ! (m - 1)) http_months = Some (m - 1)"
  using month_cases [OF assms] by (elim disjE; simp add: http_months_def)+

text \<open>
  Both notations of a modification time are read as the same instant of the calendar: the
  listing notation of any valid date, with or without a fraction of a second, and the HTTP
  notation with any week day.
\<close>

lemma mtime_notations_agree:
  assumes "valid_date y m d" "y < 10000" "h < 24" "n < 60" "z < 60"
    and "list_all isdigit fraction" "weekday \<in> set http_weekdays"
  shows "parse_s3_mtime (s3_text y m d h n z fraction) = Inr (calendar_seconds y m d h n z) \<and>
    parse_http_mtime (http_text weekday y m d h n z) = Inr (calendar_seconds y m d h n z)"
proof -
  have v: "m < 100" "d < 100" "h < 100" "n < 100" "z < 100" "1 \<le> m" "m \<le> 12"
    using assms month_len_le [of m y] by (auto simp: valid_date_def)
  note dig = four_digits [OF assms(2)] two_digits [OF v(1)] two_digits [OF v(2)] two_digits [OF v(3)]
    two_digits [OF v(4)] two_digits [OF v(5)]
  have utc: "utc_time y m d h n z = Inr (calendar_seconds y m d h n z)"
    using utc_time_calendar [of y m d h n z] assms by simp
  define r where "r = (if fraction = [] then ''Z'' else CHR ''.'' # fraction @ ''Z'')"
  define s where "s = s3_text y m d h n z fraction"
  have s: "s = write_4digits y @ ''-'' @ write_2digits m @ ''-'' @ write_2digits d @ ''T'' @
      write_2digits h @ '':'' @ write_2digits n @ '':'' @ write_2digits z @ r"
    by (simp add: s_def s3_text_def r_def)
  have len: "length s = 19 + length r" using dig by (simp add: s)
  have f: "fixed_decimal s 0 4 = Inr y" "fixed_decimal s 5 2 = Inr m" "fixed_decimal s 8 2 = Inr d"
    "fixed_decimal s 11 2 = Inr h" "fixed_decimal s 14 2 = Inr n" "fixed_decimal s 17 2 = Inr z"
    using dig by (simp_all add: fixed_decimal_def substr_def s)
  have c: "s ! 4 = CHR ''-''" "s ! 7 = CHR ''-''" "s ! 10 = CHR ''T''" "s ! 13 = CHR '':''"
    "s ! 16 = CHR '':''" "s ! 19 = hd r" "last s = CHR ''Z''" "substr s 20 (length s - 21) = fraction"
    using dig by (simp_all add: s nth_append substr_def r_def)
  have r: "1 \<le> length r" "length r = 1 \<longleftrightarrow> fraction = []" "hd r = (if fraction = [] then CHR ''Z'' else CHR ''.'')"
    "length r \<noteq> 2" "r \<noteq> []"
    by (auto simp: r_def)
  have "parse_s3_mtime s = utc_time y m d h n z"
    unfolding parse_s3_mtime_def c f ebind.simps using r assms(6) len by simp
  moreover have "parse_http_mtime (http_text weekday y m d h n z) = utc_time y m d h n z"
  proof -
    define t where "t = http_text weekday y m d h n z"
    define mon where "mon = http_months ! (m - 1)"
    note mn = month_name [OF v(6,7), folded mon_def]
    have t: "t = weekday @ '', '' @ write_2digits d @ '' '' @ mon @ '' '' @ write_4digits y @
        '' '' @ write_2digits h @ '':'' @ write_2digits n @ '':'' @ write_2digits z @ '' GMT''"
      by (simp add: t_def http_text_def mon_def)
    have w: "length weekday = 3" using assms(7) by (auto simp: http_weekdays_def)
    have len: "length t = 29" using dig w mn(1) by (simp add: t)
    have f: "fixed_decimal t 12 4 = Inr y" "fixed_decimal t 5 2 = Inr d"
      "fixed_decimal t 17 2 = Inr h" "fixed_decimal t 20 2 = Inr n" "fixed_decimal t 23 2 = Inr z"
      using dig w mn(1) by (simp_all add: fixed_decimal_def substr_def t)
    have c: "t ! 3 = CHR '',''" "t ! 4 = CHR '' ''" "t ! 7 = CHR '' ''" "t ! 11 = CHR '' ''" "t ! 16 = CHR '' ''"
      "t ! 19 = CHR '':''" "t ! 22 = CHR '':''" "t ! 25 = CHR '' ''" "drop 26 t = ''GMT''"
      "substr t 0 3 = weekday" "substr t 8 3 = mon"
      using dig w mn(1) by (simp_all add: t nth_append substr_def)
    show ?thesis unfolding t_def [symmetric] parse_http_mtime_def c f ebind.simps mn(2) option.case len
      using assms(7) v(6) by simp
  qed
  ultimately show ?thesis using utc by (simp add: s_def)
qed

lemma mtime_notations_agree_example:
  "parse_s3_mtime (s3_text 2024 2 29 12 0 1 ''250'') = Inr 1709208001 \<and>
   parse_http_mtime (http_text ''Thu'' 2024 2 29 12 0 1) = Inr 1709208001"
proof -
  have "valid_date 2024 2 29" "list_all isdigit ''250''" "''Thu'' \<in> set http_weekdays"
    by (simp_all add: valid_date_def month_len_def month_days_def leap_year_def isdigit_def http_weekdays_def)
  moreover have "calendar_seconds 2024 2 29 12 0 1 = 1709208001"
    using days_before_year_eq [of 2024]
    by (simp add: calendar_seconds_def calendar_day_def days_before_1970 days_before_month_eval)
  ultimately show ?thesis using mtime_notations_agree [of 2024 2 29 12 0 1 "''250''" "''Thu''"] by simp
qed

text \<open>
  The contract of a one-entry cache: what a call answers without it, and the clock readings that
  keep it, those of seconds that have a stamp.
\<close>

definition stamp_of :: "int option \<Rightarrow> string result" where
  "stamp_of clock =
     (case clock of
        None \<Rightarrow> Inl (RuntimeError ''clock_gettime(CLOCK_REALTIME_COARSE) failed'')
      | Some second \<Rightarrow> amz_datetime second)"

definition stampable :: "int option \<Rightarrow> bool" where
  "stampable clock \<longleftrightarrow> (case clock of None \<Rightarrow> True | Some second \<Rightarrow> - 62167219200 \<le> second \<and> second < 253402300800)"

definition datetime_ok :: "datetime_cache \<Rightarrow> bool" where
  "datetime_ok cache \<longleftrightarrow> cached_second cache = - (2 ^ 63) \<or>
     amz_datetime (cached_second cache) = Inr (cached_value cache)"

lemma amz_datetime_in_range:
  "- 62167219200 \<le> t \<Longrightarrow> t < 253402300800 \<Longrightarrow> amz_datetime t \<noteq> Inl e"
  using amz_datetime_cases [of t] by (cases "amz_datetime t") auto

interpretation stamps: memo "\<lambda>u. stamp_of" "\<lambda>u. stampable" "\<lambda>u. datetime_ok" "\<lambda>u. amz_datetime_now"
proof unfold_locales
  fix cache clock
  assume a: "datetime_ok cache" "stampable clock"
  show "fst (amz_datetime_now clock cache) = stamp_of clock"
    and "datetime_ok (snd (amz_datetime_now clock cache))"
    using a amz_datetime_in_range
    by (auto simp: datetime_ok_def stampable_def stamp_of_def amz_datetime_now_def split: option.splits sum.splits)
qed

text \<open>
  The cache of the last time stamp is transparent while stamps can be made: a thread that
  asks for the time at any clock seconds of the years 0 to 9999 gets the stamps of those seconds,
  and an error where the clock failed. But the second is stored before the stamp is made: after
  a failure to make it, the next call in the same second succeeds with the old value.
\<close>

lemma datetime_cache_transparent:
  "(list_all stampable clocks \<longrightarrow>
    fst (run_calls amz_datetime_now clocks new_datetime_cache) = map stamp_of clocks) \<and>
   (amz_datetime second = Inl e \<and> cached_second cache \<noteq> second \<longrightarrow>
    fst (run_calls amz_datetime_now [Some second, Some second] cache) = [Inl e, Inr (cached_value cache)])"
  using stamps.run_answers [of new_datetime_cache clocks]
  by (auto simp: datetime_ok_def amz_datetime_now_def new_datetime_cache_def)

lemma datetime_cache_transparent_example:
  "fst (run_calls amz_datetime_now [Some 1, Some 1, None, Some 0] new_datetime_cache) =
     map stamp_of [Some 1, Some 1, None, Some 0] \<and>
   (\<exists>e. fst (run_calls amz_datetime_now [Some 253402300800, Some 253402300800] new_datetime_cache) =
      [Inl e, Inr []])"
proof -
  obtain e where e: "amz_datetime 253402300800 = Inl e"
    using amz_datetime_cases [of 253402300800] by (cases "amz_datetime 253402300800") auto
  note run = datetime_cache_transparent [of "[Some 1, Some 1, None, Some 0]" 253402300800 e new_datetime_cache]
  have "list_all stampable [Some 1, Some 1, None, Some 0]" by (simp add: stampable_def)
  moreover have "cached_second new_datetime_cache \<noteq> 253402300800" "cached_value new_datetime_cache = []"
    by (simp_all add: new_datetime_cache_def)
  ultimately show ?thesis using run e by auto
qed

text \<open>A time stamp of a listing, for the examples of other theories.\<close>

definition ex_stamp :: string where "ex_stamp = ''1970-01-02T00:00:07Z''"

lemma ex_stamp_mtime: "parse_s3_mtime ex_stamp = Inr 86407"
  by (simp add: ex_stamp_def parse_s3_mtime_def fixed_decimal_def substr_def isdigit_def utc_time_def
      month_days_def utc_days_def unsigned_decimal_def digit_val_def Let_def signed_divide_int_def)

end
