(* ===== verification/S3_Sign.thy ===== *)
theory S3_Sign
  imports S3_Time Memo "HOL-Library.Char_ord" "HOL-Library.List_Lexorder"
begin

text \<open>
  AWS Signature Version 4 (\<^verbatim>\<open>src/src/s3.cpp\<close>, from \<open>hex\<close> to \<open>sign_v4_headers\<close>): HMAC,
  the cache of the signing key, canonical headers with their fast path, and the signer. SHA-256
  is OpenSSL's and a parameter: whether \<open>SHA256_Init\<close> and \<open>SHA256_Update\<close> succeed, and the
  digest \<open>SHA256_Final\<close> answers (\<open>None\<close> when it fails); a context is the bytes it was fed.
  Strings compare by bytes, as the lexicographic order of the library on \<^typ>\<open>char list\<close>.
\<close>

record Sha256Lib =
  SHA256_Init :: bool
  SHA256_Update :: "string \<Rightarrow> string \<Rightarrow> bool"
  SHA256_Final :: "string \<Rightarrow> string option"

definition newline :: string where
  "newline = [CHR 0x0A]"

section \<open>Digests\<close>

definition hex :: "string \<Rightarrow> string" where
  "hex bytes = concat (map (\<lambda>c. [''0123456789abcdef'' ! (byte_of c div 16),
                                 ''0123456789abcdef'' ! (byte_of c mod 16)]) bytes)"

definition sha256 :: "Sha256Lib \<Rightarrow> string \<Rightarrow> string result" where
  "sha256 lib s =
     (if \<not> SHA256_Init lib \<or> \<not> SHA256_Update lib [] s then Inl (RuntimeError ''OpenSSL SHA-256 failed'')
      else case SHA256_Final lib s of
             None \<Rightarrow> Inl (RuntimeError ''OpenSSL SHA-256 failed'')
           | Some digest \<Rightarrow> Inr digest)"

record HmacSha256Key =
  hk_inner :: string
  hk_outer :: string

definition xor_byte :: "nat \<Rightarrow> char \<Rightarrow> char" where
  "xor_byte k c = char_of (byte_of c XOR k)"

definition SHA256_CBLOCK :: nat where
  "SHA256_CBLOCK = 64"

definition make_hmac_key :: "Sha256Lib \<Rightarrow> string \<Rightarrow> HmacSha256Key result" where
  "make_hmac_key lib key =
     ebind (if length key > SHA256_CBLOCK then sha256 lib key else Inr key) (\<lambda>key'.
       let block = take SHA256_CBLOCK (key' @ replicate (SHA256_CBLOCK - length key') (CHR 0x00));
           inner = map (xor_byte 0x36) block;
           outer = map (xor_byte (0x36 XOR 0x5c)) inner
       in if \<not> SHA256_Init lib \<or> \<not> SHA256_Update lib [] inner
          then Inl (RuntimeError ''OpenSSL HMAC-SHA256 inner key failed'')
          else if \<not> SHA256_Init lib \<or> \<not> SHA256_Update lib [] outer
          then Inl (RuntimeError ''OpenSSL HMAC-SHA256 outer key failed'')
          else Inr \<lparr>hk_inner = inner, hk_outer = outer\<rparr>)"

definition hmac_keyed :: "Sha256Lib \<Rightarrow> HmacSha256Key \<Rightarrow> string \<Rightarrow> string result" where
  "hmac_keyed lib key s =
     (case (if SHA256_Update lib (hk_inner key) s then SHA256_Final lib (hk_inner key @ s) else None) of
        None \<Rightarrow> Inl (RuntimeError ''OpenSSL HMAC-SHA256 inner digest failed'')
      | Some digest \<Rightarrow>
          (case (if SHA256_Update lib (hk_outer key) digest
                 then SHA256_Final lib (hk_outer key @ digest) else None) of
             None \<Rightarrow> Inl (RuntimeError ''OpenSSL HMAC-SHA256 outer digest failed'')
           | Some d \<Rightarrow> Inr d))"

definition hmac :: "Sha256Lib \<Rightarrow> string \<Rightarrow> string \<Rightarrow> string result" where
  "hmac lib key s = ebind (make_hmac_key lib key) (\<lambda>k. hmac_keyed lib k s)"

section \<open>The signing key\<close>

record SigningKeyCache =
  kc_secret_access_key :: string
  kc_date :: string
  kc_region :: string
  kc_service :: string
  kc_hmac_key :: HmacSha256Key
  kc_valid :: bool

definition derive_signing_key ::
  "Sha256Lib \<Rightarrow> string \<Rightarrow> string \<Rightarrow> string \<Rightarrow> string \<Rightarrow> string result" where
  "derive_signing_key lib secret date region service =
     ebind (hmac lib (''AWS4'' @ secret) date) (\<lambda>date_key.
     ebind (hmac lib date_key region) (\<lambda>region_key.
     ebind (hmac lib region_key service) (\<lambda>service_key.
       hmac lib service_key ''aws4_request'')))"

text \<open>
  The four identifying fields are assigned before the keyed contexts are made, and \<open>valid\<close> after:
  when making them throws, the cache is left with the new fields and the old key.
\<close>

definition signing_hmac ::
  "Sha256Lib \<Rightarrow> SigningKeyCache \<Rightarrow> string \<Rightarrow> string \<Rightarrow> string \<Rightarrow> string \<Rightarrow> string \<Rightarrow>
   string result \<times> SigningKeyCache" where
  "signing_hmac lib cache secret date region service s =
     (if \<not> kc_valid cache \<or> kc_secret_access_key cache \<noteq> secret \<or> kc_date cache \<noteq> date \<or>
         kc_region cache \<noteq> region \<or> kc_service cache \<noteq> service
      then case derive_signing_key lib secret date region service of
             Inl e \<Rightarrow> (Inl e, cache)
           | Inr signing_key \<Rightarrow>
               let cache1 = cache\<lparr>kc_secret_access_key := secret, kc_date := date,
                                  kc_region := region, kc_service := service\<rparr>
               in case make_hmac_key lib signing_key of
                    Inl e \<Rightarrow> (Inl e, cache1)
                  | Inr key \<Rightarrow>
                      (hmac_keyed lib key s, cache1\<lparr>kc_hmac_key := key, kc_valid := True\<rparr>)
      else (hmac_keyed lib (kc_hmac_key cache) s, cache))"

section \<open>Canonical headers\<close>

definition header_space :: "char \<Rightarrow> bool" where
  "header_space c \<longleftrightarrow> c \<in> {CHR '' '', CHR 0x09, CHR 0x0D, CHR 0x0A}"

definition lowercase :: "string \<Rightarrow> string" where
  "lowercase s = map (\<lambda>c. if CHR ''A'' \<le> c \<and> c \<le> CHR ''Z'' then char_of (byte_of c + 32) else c) s"

definition has_header_whitespace :: "string \<Rightarrow> bool" where
  "has_header_whitespace s \<longleftrightarrow> list_ex header_space s"

fun normalize_loop :: "string \<Rightarrow> string \<Rightarrow> bool \<Rightarrow> string" where
  "normalize_loop [] output pending_space = output"
| "normalize_loop (item # s) output pending_space =
     (if header_space item
      then normalize_loop s output (if output \<noteq> [] then True else pending_space)
      else normalize_loop s ((if pending_space then output @ '' '' else output) @ [item]) False)"

definition normalize_header_value :: "string \<Rightarrow> string" where
  "normalize_header_value s =
     (if \<not> has_header_whitespace s then s else normalize_loop s [] False)"

text \<open>A canonical header is its name and value; what is owned and what is viewed is the same text.\<close>

type_synonym CanonicalHeader = "string \<times> string"

definition canonical_name :: "string \<Rightarrow> string" where
  "canonical_name name =
     (if name = '':authority'' then ''host''
      else if list_ex (\<lambda>c. CHR ''A'' \<le> c \<and> c \<le> CHR ''Z'') name then lowercase name else name)"

definition add_canonical_header ::
  "CanonicalHeader list \<Rightarrow> string \<Rightarrow> string \<Rightarrow> CanonicalHeader list" where
  "add_canonical_header headers name0 s =
     (let name = canonical_name name0;
          position = lower_bound (\<lambda>header. fst header < name) headers 0 (length headers)
      in if position < length headers \<and> fst (headers ! position) = name
         then headers[position :=
                (name, snd (headers ! position) @ '','' @ normalize_header_value s)]
         else take position headers @
              (name, if has_header_whitespace s then normalize_header_value s else s) #
              drop position headers)"

section \<open>The signer\<close>

record Credentials =
  access_key_id :: string
  secret_access_key :: string
  session_token :: string

record SignRequest =
  sr_method :: string
  sr_canonical_uri :: string
  sr_canonical_query :: string
  sr_authority :: string
  sr_headers :: "(string \<times> string) list"
  sr_payload_hash :: string
  sr_amz_datetime :: string
  sr_region :: string
  sr_service :: string
  sr_fast_get :: bool

text \<open>The scan for the two headers of the fast path.\<close>

fun fast_scan ::
  "(string \<times> string) list \<Rightarrow> bool \<times> string option \<times> string option \<Rightarrow>
   bool \<times> string option \<times> string option" where
  "fast_scan [] st = st"
| "fast_scan ((name, s) # hs) (fast, if_match, rng) =
     (if name = ''if-match'' \<and> if_match = None then fast_scan hs (fast, Some s, rng)
      else if name = ''range'' \<and> rng = None then fast_scan hs (fast, if_match, Some s)
      else fast_scan hs (False, if_match, rng))"

text \<open>The header block of the canonical request and the list of the signed names.\<close>

definition fast_header_block ::
  "Credentials \<Rightarrow> SignRequest \<Rightarrow> string option \<Rightarrow> string option \<Rightarrow> string \<times> string" where
  "fast_header_block cred req if_match rng =
     (''host:'' @ sr_authority req @ newline @
      (case if_match of None \<Rightarrow> [] | Some v \<Rightarrow> ''if-match:'' @ v @ newline) @
      (case rng of None \<Rightarrow> [] | Some v \<Rightarrow> ''range:'' @ v @ newline) @
      ''x-amz-content-sha256:'' @ sr_payload_hash req @
      newline @ ''x-amz-date:'' @ sr_amz_datetime req @
      (if session_token cred = [] then []
       else newline @ ''x-amz-security-token:'' @ session_token cred) @ newline,
      ''host'' @ (if if_match = None then [] else '';if-match'') @
      (if rng = None then [] else '';range'') @ '';x-amz-content-sha256;x-amz-date'' @
      (if session_token cred = [] then [] else '';x-amz-security-token''))"

definition request_headers :: "Credentials \<Rightarrow> SignRequest \<Rightarrow> (string \<times> string) list" where
  "request_headers cred req =
     (''host'', sr_authority req) # sr_headers req @
     [(''x-amz-content-sha256'', sr_payload_hash req), (''x-amz-date'', sr_amz_datetime req)] @
     (if session_token cred = [] then [] else [(''x-amz-security-token'', session_token cred)])"

definition canonical_headers :: "Credentials \<Rightarrow> SignRequest \<Rightarrow> CanonicalHeader list" where
  "canonical_headers cred req =
     fold (\<lambda>(name, s) headers. add_canonical_header headers name s) (request_headers cred req) []"

fun join_names :: "CanonicalHeader list \<Rightarrow> string \<Rightarrow> string" where
  "join_names [] names = names"
| "join_names ((name, s) # hs) names =
     join_names hs ((if names \<noteq> [] then names @ '';'' else names) @ name)"

definition header_block :: "CanonicalHeader list \<Rightarrow> string \<times> string" where
  "header_block headers =
     (concat (map (\<lambda>(name, s). name @ '':'' @ s @ newline) headers), join_names headers [])"

definition signed_header_block :: "bool \<Rightarrow> Credentials \<Rightarrow> SignRequest \<Rightarrow> string \<times> string" where
  "signed_header_block diagnostics cred req =
     (let (fast, if_match, rng) =
            (if \<not> diagnostics \<and> sr_fast_get req \<and> length (sr_headers req) \<le> 2
             then fast_scan (sr_headers req) (True, None, None) else (False, None, None))
      in if fast then fast_header_block cred req if_match rng
         else header_block (canonical_headers cred req))"

definition canonical_request :: "SignRequest \<Rightarrow> string \<times> string \<Rightarrow> string" where
  "canonical_request req block =
     sr_method req @ newline @ sr_canonical_uri req @ newline @ sr_canonical_query req @ newline @
     fst block @ newline @ snd block @ newline @ sr_payload_hash req"

definition signing_scope :: "SignRequest \<Rightarrow> string" where
  "signing_scope req =
     take 8 (sr_amz_datetime req) @ ''/'' @ sr_region req @ ''/'' @ sr_service req @ ''/aws4_request''"

record Signature =
  sig_headers :: "(string \<times> string) list"
  sig_canonical_request_hash :: string
  sig_signed_header_names :: string

definition string_to_sign :: "SignRequest \<Rightarrow> string \<Rightarrow> string" where
  "string_to_sign req canonical_hash =
     ''AWS4-HMAC-SHA256'' @ newline @ sr_amz_datetime req @ newline @
     signing_scope req @ newline @ canonical_hash"

definition result_headers ::
  "Credentials \<Rightarrow> SignRequest \<Rightarrow> string \<Rightarrow> string \<Rightarrow> (string \<times> string) list" where
  "result_headers cred req signed_names signature =
     [(''x-amz-content-sha256'', sr_payload_hash req), (''x-amz-date'', sr_amz_datetime req)] @
     (if session_token cred = [] then [] else [(''x-amz-security-token'', session_token cred)]) @
     [(''authorization'', ''AWS4-HMAC-SHA256'' @ '' Credential='' @ access_key_id cred @ ''/'' @
       signing_scope req @ '',SignedHeaders='' @ signed_names @ '',Signature='' @ signature)]"

text \<open>
  The result carries the diagnostics; \<open>sign_v4_headers\<close> drops them. The cache is the key cache
  of the thread's workspace.
\<close>

definition sign_v4_impl ::
  "Sha256Lib \<Rightarrow> Credentials \<Rightarrow> SignRequest \<Rightarrow> bool \<Rightarrow> SigningKeyCache \<Rightarrow>
   Signature result \<times> SigningKeyCache" where
  "sign_v4_impl lib cred req diagnostics cache =
     (if access_key_id cred = [] \<or> secret_access_key cred = []
      then (Inl (InvalidArgument ''SigV4 credentials are incomplete''), cache)
      else if length (sr_amz_datetime req) \<noteq> 16 \<or> sr_amz_datetime req ! 8 \<noteq> CHR ''T'' \<or>
              last (sr_amz_datetime req) \<noteq> CHR ''Z''
      then (Inl (InvalidArgument ''SigV4 timestamp must be YYYYMMDDTHHMMSSZ''), cache)
      else if sr_payload_hash req = [] \<or> sr_authority req = [] \<or> sr_region req = []
      then (Inl (InvalidArgument ''SigV4 request fields are incomplete''), cache)
      else let block = signed_header_block diagnostics cred req
           in case sha256 lib (canonical_request req block) of
                Inl e \<Rightarrow> (Inl e, cache)
              | Inr digest \<Rightarrow>
                  let (sig, cache') = signing_hmac lib cache (secret_access_key cred)
                        (take 8 (sr_amz_datetime req)) (sr_region req) (sr_service req)
                        (string_to_sign req (hex digest))
                  in (ebind sig (\<lambda>d. Inr
                        \<lparr>sig_headers = result_headers cred req (snd block) (hex d),
                         sig_canonical_request_hash = hex digest,
                         sig_signed_header_names = snd block\<rparr>), cache'))"

definition sign_v4 ::
  "Sha256Lib \<Rightarrow> Credentials \<Rightarrow> SignRequest \<Rightarrow> SigningKeyCache \<Rightarrow> Signature result \<times> SigningKeyCache" where
  "sign_v4 lib cred req cache = sign_v4_impl lib cred req True cache"

definition sign_v4_headers ::
  "Sha256Lib \<Rightarrow> Credentials \<Rightarrow> SignRequest \<Rightarrow> SigningKeyCache \<Rightarrow>
   (string \<times> string) list result \<times> SigningKeyCache" where
  "sign_v4_headers lib cred req cache =
     (let (r, cache') = sign_v4_impl lib cred req False cache
      in (ebind r (\<lambda>s. Inr (sig_headers s)), cache'))"

section \<open>Header values\<close>

text \<open>The reference: the maximal runs of characters that are not blank, joined by one space.\<close>

function header_words :: "string \<Rightarrow> string list" where
  "header_words s =
     (let t = dropWhile header_space s
      in if t = [] then []
         else takeWhile (\<lambda>c. \<not> header_space c) t # header_words (dropWhile (\<lambda>c. \<not> header_space c) t))"
  by pat_completeness auto
termination
proof (relation "measure length")
  fix s t :: string
  assume t: "t = dropWhile header_space s" "t \<noteq> []"
  then have "\<not> header_space (hd t)" using hd_dropWhile by blast
  then have "length (dropWhile (\<lambda>c. \<not> header_space c) t) < length t"
    using t(2) length_dropWhile_le [of _ "tl t"] by (cases t) (auto simp: le_imp_less_Suc)
  moreover have "length t \<le> length s" unfolding t(1) by (rule length_dropWhile_le)
  ultimately show "(dropWhile (\<lambda>c. \<not> header_space c) t, s) \<in> measure length" by simp
qed simp

declare header_words.simps [simp del]

fun join_with :: "string \<Rightarrow> string list \<Rightarrow> string" where
  "join_with sep [] = []"
| "join_with sep (w # ws) = w @ concat (map (\<lambda>v. sep @ v) ws)"

lemma header_words_space: "header_space c \<Longrightarrow> header_words (c # s) = header_words s"
  by (subst (1 2) header_words.simps) simp

lemma header_words_Nil: "header_words [] = []"
  by (subst header_words.simps) simp

lemma header_words_solid:
  "\<not> header_space c \<Longrightarrow>
   header_words (c # s) = (c # takeWhile (\<lambda>c. \<not> header_space c) s) #
     header_words (dropWhile (\<lambda>c. \<not> header_space c) s)"
  by (subst header_words.simps) (simp add: Let_def)

lemma header_words_no_space:
  "\<not> has_header_whitespace s \<Longrightarrow> s \<noteq> [] \<Longrightarrow> header_words s = [s]"
proof (cases s)
  case (Cons c t)
  assume "\<not> has_header_whitespace s"
  then have "\<not> header_space c" "\<forall>x\<in>set t. \<not> header_space x"
    by (auto simp: Cons has_header_whitespace_def list_ex_iff)
  then show ?thesis
    by (simp add: Cons header_words_solid header_words_Nil takeWhile_eq_all_conv [THEN iffD2]
        dropWhile_eq_Nil_conv [THEN iffD2])
qed simp

text \<open>
  What the loop still appends: inside a word the rest of that word first, after a blank a space
  before every word, and at the very start no space at all.
\<close>

lemma normalize_loop_words:
  "(out \<noteq> [] \<longrightarrow> normalize_loop s out True = out @ concat (map (\<lambda>v. '' '' @ v) (header_words s))) \<and>
   (out \<noteq> [] \<longrightarrow> normalize_loop s out False =
      out @ takeWhile (\<lambda>c. \<not> header_space c) s @
      concat (map (\<lambda>v. '' '' @ v) (header_words (dropWhile (\<lambda>c. \<not> header_space c) s)))) \<and>
   normalize_loop s [] False = join_with '' '' (header_words s)"
proof (induction s arbitrary: out)
  case Nil
  then show ?case by (simp add: header_words_Nil)
next
  case (Cons c s)
  note ih1 = Cons.IH [THEN conjunct1, rule_format]
    and ih2 = Cons.IH [THEN conjunct2, THEN conjunct1, rule_format]
    and ih3 = Cons.IH [THEN conjunct2, THEN conjunct2]
  have sp: "(@) '' '' = (#) (CHR '' '')" by (rule ext) simp
  show ?case
    by (cases "header_space c")
      (simp_all add: sp header_words_space header_words_solid ih1 ih2 ih3)
qed

lemma normalize_header_value_words: "normalize_header_value s = join_with '' '' (header_words s)"
  using normalize_loop_words [of "[]" s] header_words_no_space [of s]
  by (cases "s = []") (auto simp: normalize_header_value_def header_words_Nil has_header_whitespace_def)

section \<open>The sorted header list\<close>

text \<open>The reference: insertion into a list sorted by name, joining the values of one name.\<close>

fun ins_header :: "CanonicalHeader list \<Rightarrow> string \<Rightarrow> string \<Rightarrow> CanonicalHeader list" where
  "ins_header [] n v = [(n, v)]"
| "ins_header ((n', v') # hs) n v =
     (if n' < n then (n', v') # ins_header hs n v
      else if n' = n then (n, v' @ '','' @ v) # hs
      else (n, v) # (n', v') # hs)"

abbreviation sorted_names :: "CanonicalHeader list \<Rightarrow> bool" where
  "sorted_names hs \<equiv> sorted_wrt (<) (map fst hs)"

lemma ins_header_split:
  assumes "\<forall>x\<in>set as. fst x < n"
  shows "ins_header (as @ bs) n v = as @ ins_header bs n v"
  using assms by (induction as) auto

lemma ins_header_stop:
  assumes "bs = [] \<or> n < fst (hd bs)"
  shows "ins_header bs n v = (n, v) # bs"
  using assms by (cases bs) auto

lemma lower_bound_sorted:
  fixes n :: string
  assumes "sorted_names hs"
  defines "k \<equiv> lower_bound (\<lambda>h. fst h < n) hs 0 (length hs)"
  shows "k \<le> length hs" "\<forall>x\<in>set (take k hs). fst x < n" "k < length hs \<Longrightarrow> n \<le> fst (hs ! k)"
proof -
  have mono: "fst (hs ! i) < n" if "i \<le> j" "j < length hs" "fst (hs ! j) < n" for i j
  proof (cases "i = j")
    case False
    then have "fst (hs ! i) < fst (hs ! j)"
      using assms(1) that by (auto simp: sorted_wrt_iff_nth_less)
    then show ?thesis using that(3) by (rule less_trans)
  qed (use that in simp)
  have "0 \<le> k \<and> k \<le> 0 + length hs \<and> (\<forall>i. 0 \<le> i \<and> i < 0 + length hs \<longrightarrow> (fst (hs ! i) < n \<longleftrightarrow> i < k))"
    unfolding k_def by (rule lower_bound_partition [where m = "length hs"]) (use mono in auto)
  then have *: "k \<le> length hs" "\<forall>i<length hs. fst (hs ! i) < n \<longleftrightarrow> i < k" by simp_all
  show "k \<le> length hs" using * by simp
  show "\<forall>x\<in>set (take k hs). fst x < n" unfolding Ball_set_conv_nth using * by simp
  show "n \<le> fst (hs ! k)" if "k < length hs" using * that by (auto simp: not_less)
qed

lemma normalize_no_space [simp]: "\<not> has_header_whitespace s \<Longrightarrow> normalize_header_value s = s"
  by (simp add: normalize_header_value_def)

lemma add_canonical_header_ins:
  assumes "sorted_names hs"
  shows "add_canonical_header hs name v =
    ins_header hs (canonical_name name) (normalize_header_value v)"
proof -
  define n where "n = canonical_name name"
  define k where "k = lower_bound (\<lambda>h. fst h < n) hs 0 (length hs)"
  note lb = lower_bound_sorted [OF assms, of n, folded k_def]
  have hs: "hs = take k hs @ drop k hs" by simp
  have ins: "ins_header hs n w = take k hs @ ins_header (drop k hs) n w" for w
    by (subst hs, rule ins_header_split [OF lb(2)])
  have if_v: "(if has_header_whitespace v then normalize_header_value v else v) = normalize_header_value v"
    by simp
  show ?thesis
  proof (cases "k < length hs \<and> fst (hs ! k) = n")
    case True
    then have d: "drop k hs = (n, snd (hs ! k)) # drop (Suc k) hs"
      by (metis Cons_nth_drop_Suc prod.collapse)
    show ?thesis unfolding add_canonical_header_def Let_def n_def [symmetric] k_def [symmetric] if_P [OF True]
      using True by (simp add: ins d upd_conv_take_nth_drop)
  next
    case False
    then have "drop k hs = [] \<or> n < fst (hd (drop k hs))"
      using lb(1,3) by (cases "k < length hs") (auto simp: hd_drop_conv_nth)
    then show ?thesis
      unfolding add_canonical_header_def Let_def n_def [symmetric] k_def [symmetric] if_not_P [OF False] if_v
      by (simp add: ins ins_header_stop)
  qed
qed

lemma set_ins_header: "fst ` set (ins_header hs n v) = insert n (fst ` set hs)"
  by (induction hs n v rule: ins_header.induct) auto

lemma sorted_ins_header: "sorted_names hs \<Longrightarrow> sorted_names (ins_header hs n v)"
proof (induction hs n v rule: ins_header.induct)
  case (2 n' v' hs n v)
  have "\<forall>x\<in>fst ` set (ins_header hs n v). n' < x" if "n' < n"
    using 2(2) that unfolding set_ins_header by auto
  then show ?case using 2 by (auto intro: less_trans)
qed simp

lemma map_of_ins_header:
  "sorted_names hs \<Longrightarrow>
   map_of (ins_header hs n v) = (map_of hs)(n \<mapsto> (case map_of hs n of None \<Rightarrow> v | Some w \<Rightarrow> w @ '','' @ v))"
proof (induction hs n v rule: ins_header.induct)
  case (2 n' v' hs n v)
  then have IH: "n' < n \<Longrightarrow> map_of (ins_header hs n v) =
      (map_of hs)(n \<mapsto> (case map_of hs n of None \<Rightarrow> v | Some w \<Rightarrow> w @ '','' @ v))"
    by (simp del: fun_upd_apply)
  have none: "map_of hs n = None" if "\<not> n' < n"
    using 2(2) that by (auto simp: map_of_eq_None_iff intro: less_le_trans dest: bspec)
  show ?case using none by (cases "n' < n") (auto simp: IH fun_eq_iff)
qed auto

text \<open>The canonical headers of a request are the insertions in order of its headers.\<close>

lemma canonical_fold:
  "sorted_names hs \<Longrightarrow>
   fold (\<lambda>(name, s) headers. add_canonical_header headers name s) rs hs =
   fold (\<lambda>(name, s) headers. ins_header headers (canonical_name name) (normalize_header_value s)) rs hs \<and>
   sorted_names (fold (\<lambda>(name, s) headers. add_canonical_header headers name s) rs hs)"
proof (induction rs arbitrary: hs)
  case (Cons r rs)
  obtain m v where r: "r = (m, v)" by (cases r)
  show ?case
    using Cons.IH [OF sorted_ins_header [OF Cons.prems, of "canonical_name m" "normalize_header_value v"]]
    by (auto simp: r add_canonical_header_ins [OF Cons.prems])
qed simp

text \<open>The values the request has for a canonical name, in its order.\<close>

definition values_of :: "string \<Rightarrow> (string \<times> string) list \<Rightarrow> string list" where
  "values_of n rs = map (\<lambda>(m, v). normalize_header_value v) (filter (\<lambda>(m, v). canonical_name m = n) rs)"

lemma map_of_fold_ins:
  "sorted_names hs \<Longrightarrow>
   map_of (fold (\<lambda>(name, s) headers. ins_header headers (canonical_name name) (normalize_header_value s)) rs hs) n =
   (case map_of hs n of
      None \<Rightarrow> if values_of n rs = [] then None else Some (join_with '','' (values_of n rs))
    | Some w \<Rightarrow> Some (w @ concat (map (\<lambda>v. '','' @ v) (values_of n rs))))"
proof (induction rs arbitrary: hs)
  case Nil
  then show ?case by (auto simp: values_of_def split: option.splits)
next
  case (Cons r rs)
  obtain m v where r: "r = (m, v)" by (cases r)
  have vals: "values_of n ((m, v) # rs) =
      (if canonical_name m = n then normalize_header_value v # values_of n rs else values_of n rs)"
    by (simp add: values_of_def)
  show ?case
    using Cons.IH [OF sorted_ins_header [OF Cons.prems, of "canonical_name m" "normalize_header_value v"]]
    by (cases "canonical_name m = n"; cases "map_of hs n")
      (auto simp: vals r map_of_ins_header [OF Cons.prems])
qed

text \<open>
  C14. The canonical headers of a request are what Signature Version 4 asks for: the names are
  strictly ascending, and the value of a name is the comma-separated list of the request's
  values for it, in request order, each with its blanks trimmed and folded to single spaces.
\<close>

theorem canonical_headers_meet_sigv4:
  "sorted_wrt (<) (map fst (canonical_headers cred req)) \<and>
   map_of (canonical_headers cred req) n =
     (let vs = map (\<lambda>(m, v). join_with '' '' (header_words v))
                 (filter (\<lambda>(m, v). canonical_name m = n) (request_headers cred req))
      in if vs = [] then None else Some (join_with '','' vs))"
  using canonical_fold [of "[]" "request_headers cred req"]
    map_of_fold_ins [of "[]" "request_headers cred req" n]
  by (auto simp: canonical_headers_def values_of_def normalize_header_value_words Let_def)

section \<open>The fast path\<close>

definition fast_path_clean :: "Credentials \<Rightarrow> SignRequest \<Rightarrow> bool" where
  "fast_path_clean cred req \<longleftrightarrow>
     list_all (\<lambda>(n, v). \<not> has_header_whitespace v) (request_headers cred req)"

lemma fast_scan_shape:
  assumes "length hs \<le> 2" "fast_scan hs (True, None, None) = (True, im, rg)"
  obtains "hs = []" "im = None" "rg = None"
  | v where "hs = [(''if-match'', v)]" "im = Some v" "rg = None"
  | v where "hs = [(''range'', v)]" "im = None" "rg = Some v"
  | v w where "hs = [(''if-match'', v), (''range'', w)]" "im = Some v" "rg = Some w"
  | v w where "hs = [(''range'', w), (''if-match'', v)]" "im = Some v" "rg = Some w"
proof -
  consider "hs = []" | h where "hs = [h]" | h h' where "hs = [h, h']"
    using assms(1) by (cases hs rule: remdups_adj.cases) auto
  then show thesis
  proof cases
    case 1
    then show thesis using assms(2) that(1) by simp
  next
    case 2
    then show thesis using assms(2) that(2,3) by (cases h) (auto split: if_splits)
  next
    case 3
    then show thesis using assms(2) that(4,5) by (cases h; cases h') (auto split: if_splits)
  qed
qed

lemma canonical_names_fixed [simp]:
  "canonical_name ''host'' = ''host''" "canonical_name ''if-match'' = ''if-match''"
  "canonical_name ''range'' = ''range''" "canonical_name ''x-amz-content-sha256'' = ''x-amz-content-sha256''"
  "canonical_name ''x-amz-date'' = ''x-amz-date''"
  "canonical_name ''x-amz-security-token'' = ''x-amz-security-token''"
  by (simp_all add: canonical_name_def less_eq_char_def)

lemma canonical_headers_ins:
  "canonical_headers cred req =
   fold (\<lambda>(name, s) headers. ins_header headers (canonical_name name) (normalize_header_value s))
     (request_headers cred req) []"
  using canonical_fold [of "[]" "request_headers cred req"] by (simp add: canonical_headers_def)

lemma fast_header_block_general:
  assumes "length (sr_headers req) \<le> 2" "fast_scan (sr_headers req) (True, None, None) = (True, im, rg)"
    and "fast_path_clean cred req"
  shows "fast_header_block cred req im rg = header_block (canonical_headers cred req)"
proof -
  have clean: "\<not> has_header_whitespace (sr_authority req)" "\<not> has_header_whitespace (sr_payload_hash req)"
    "\<not> has_header_whitespace (sr_amz_datetime req)"
    "session_token cred \<noteq> [] \<Longrightarrow> \<not> has_header_whitespace (session_token cred)"
    "\<And>n v. (n, v) \<in> set (sr_headers req) \<Longrightarrow> \<not> has_header_whitespace v"
    using assms(3) by (auto simp: fast_path_clean_def request_headers_def list_all_iff)
  note eval = fast_header_block_def header_block_def canonical_headers_ins request_headers_def
    clean(1-4) less_char_def
  show ?thesis
    using assms(1,2)
  proof (cases rule: fast_scan_shape)
    case 1
    then show ?thesis using clean(5) by (cases "session_token cred = []") (simp_all add: eval)
  next
    case (2 v)
    then show ?thesis using clean(5) by (cases "session_token cred = []") (simp_all add: eval)
  next
    case (3 v)
    then show ?thesis using clean(5) by (cases "session_token cred = []") (simp_all add: eval)
  next
    case (4 v w)
    then have "\<not> has_header_whitespace v" "\<not> has_header_whitespace w" using clean(5) by auto
    then show ?thesis using 4 by (cases "session_token cred = []") (simp_all add: eval)
  next
    case (5 v w)
    then have "\<not> has_header_whitespace v" "\<not> has_header_whitespace w" using clean(5) by auto
    then show ?thesis using 5 by (cases "session_token cred = []") (simp_all add: eval)
  qed
qed

lemma signed_header_block_fast:
  assumes "fast_path_clean cred req"
  shows "signed_header_block diagnostics cred req = header_block (canonical_headers cred req)"
proof (cases "\<not> diagnostics \<and> sr_fast_get req \<and> length (sr_headers req) \<le> 2")
  case True
  obtain fast im rg where scan: "fast_scan (sr_headers req) (True, None, None) = (fast, im, rg)"
    by (metis prod_cases3)
  show ?thesis
    unfolding signed_header_block_def if_P [OF True] scan
    using fast_header_block_general [of req im rg cred] True assms scan by (cases fast) auto
next
  case False
  show ?thesis unfolding signed_header_block_def if_not_P [OF False] by simp
qed

lemma fast_get_parts:
  "request_headers cred (req\<lparr>sr_fast_get := b\<rparr>) = request_headers cred req"
  "canonical_headers cred (req\<lparr>sr_fast_get := b\<rparr>) = canonical_headers cred req"
  "fast_path_clean cred (req\<lparr>sr_fast_get := b\<rparr>) = fast_path_clean cred req"
  "canonical_request (req\<lparr>sr_fast_get := b\<rparr>) block = canonical_request req block"
  "signing_scope (req\<lparr>sr_fast_get := b\<rparr>) = signing_scope req"
  "sr_amz_datetime (req\<lparr>sr_fast_get := b\<rparr>) = sr_amz_datetime req"
  "sr_payload_hash (req\<lparr>sr_fast_get := b\<rparr>) = sr_payload_hash req"
  "sr_authority (req\<lparr>sr_fast_get := b\<rparr>) = sr_authority req"
  "sr_region (req\<lparr>sr_fast_get := b\<rparr>) = sr_region req"
  "sr_service (req\<lparr>sr_fast_get := b\<rparr>) = sr_service req"
  "string_to_sign (req\<lparr>sr_fast_get := b\<rparr>) h = string_to_sign req h"
  "result_headers cred (req\<lparr>sr_fast_get := b\<rparr>) names sign = result_headers cred req names sign"
  by (simp_all add: request_headers_def canonical_headers_def fast_path_clean_def
      canonical_request_def signing_scope_def string_to_sign_def result_headers_def)

text \<open>
  C13. The fast path for GET requests signs the same as the general path: when no header value of
  the request holds a blank, marking the request \<open>fast_get\<close> changes neither the headers the
  signer returns nor the key cache. (The fast path does not normalise: with a blank in a value
  the two differ.)
\<close>

theorem fast_get_signs_the_same:
  assumes "list_all (\<lambda>(n, v). \<not> has_header_whitespace v) (request_headers cred req)"
  shows "sign_v4_headers lib cred (req\<lparr>sr_fast_get := True\<rparr>) cache =
    sign_v4_headers lib cred (req\<lparr>sr_fast_get := False\<rparr>) cache"
proof -
  have clean: "fast_path_clean cred (req\<lparr>sr_fast_get := b\<rparr>)" for b
    using assms unfolding fast_get_parts by (simp add: fast_path_clean_def)
  have blk: "signed_header_block False cred (req\<lparr>sr_fast_get := b\<rparr>) = header_block (canonical_headers cred req)" for b
    unfolding signed_header_block_fast [OF clean] fast_get_parts ..
  have "sign_v4_impl lib cred (req\<lparr>sr_fast_get := True\<rparr>) False cache =
      sign_v4_impl lib cred (req\<lparr>sr_fast_get := False\<rparr>) False cache"
    unfolding sign_v4_impl_def blk fast_get_parts ..
  then show ?thesis unfolding sign_v4_headers_def by simp
qed

definition ex_cred :: Credentials where
  "ex_cred = \<lparr>access_key_id = ''AK'', secret_access_key = ''SK'', session_token = ''tok''\<rparr>"

definition ex_req :: SignRequest where
  "ex_req = \<lparr>sr_method = ''GET'', sr_canonical_uri = ''/b/k'', sr_canonical_query = [],
     sr_authority = ''h:9000'', sr_headers = [(''range'', ''bytes=0-9''), (''if-match'', ''e'')],
     sr_payload_hash = ''UNSIGNED'', sr_amz_datetime = ''20240229T120001Z'', sr_region = ''r'',
     sr_service = ''s3'', sr_fast_get = True\<rparr>"

theorem fast_get_signs_the_same_witness:
  "\<forall>lib cache. sign_v4_headers lib ex_cred (ex_req\<lparr>sr_fast_get := True\<rparr>) cache =
     sign_v4_headers lib ex_cred (ex_req\<lparr>sr_fast_get := False\<rparr>) cache"
  by (intro allI fast_get_signs_the_same)
    (simp add: request_headers_def ex_req_def ex_cred_def has_header_whitespace_def header_space_def)

section \<open>HMAC\<close>

text \<open>
  What the signer relies on of OpenSSL: contexts can be made and fed, and a digest has 32 bytes.
  A digest may still fail.
\<close>

definition openssl_sha256 :: "Sha256Lib \<Rightarrow> bool" where
  "openssl_sha256 lib \<longleftrightarrow> SHA256_Init lib \<and> (\<forall>c s. SHA256_Update lib c s) \<and>
     (\<forall>s d. SHA256_Final lib s = Some d \<longrightarrow> length d = 32)"

lemma byte_of_xor: "k < 256 \<Longrightarrow> byte_of (xor_byte k c) = byte_of c XOR k"
proof -
  assume "k < 256"
  then have "take_bit 8 (byte_of c XOR k) = byte_of c XOR k"
    using take_bit_nat_eq_self_iff [of 8 k] take_bit_nat_eq_self_iff [of 8 "byte_of c"]
    by (simp add: take_bit_xor)
  then have "byte_of c XOR k < 256" using take_bit_nat_less_exp [of 8 "byte_of c XOR k"] by simp
  then show ?thesis by (simp add: xor_byte_def)
qed

lemma xor_byte_twice:
  "k < 256 \<Longrightarrow> xor_byte (k XOR m) (xor_byte k c) = xor_byte m c"
  by (simp add: xor_byte_def [of "k XOR m"] byte_of_xor xor.assoc xor.left_commute)
    (simp add: xor_byte_def xor.assoc [symmetric])

text \<open>The block of a key: hashed when it is longer than a block, then padded with zeros.\<close>

definition key_block :: "Sha256Lib \<Rightarrow> string \<Rightarrow> string" where
  "key_block lib key =
     (let k = (if length key > 64 then the (SHA256_Final lib key) else key)
      in k @ replicate (64 - length k) (CHR 0x00))"

lemma make_hmac_key_total:
  assumes "openssl_sha256 lib" "length key \<le> 64 \<or> SHA256_Final lib key \<noteq> None"
  shows "make_hmac_key lib key =
    Inr \<lparr>hk_inner = map (xor_byte 0x36) (key_block lib key), hk_outer = map (xor_byte 0x5c) (key_block lib key)\<rparr>"
proof -
  define k where "k = (if length key > 64 then the (SHA256_Final lib key) else key)"
  have k: "length k \<le> 64" "(if length key > SHA256_CBLOCK then sha256 lib key else Inr key) = Inr k"
    using assms by (auto simp: k_def openssl_sha256_def sha256_def SHA256_CBLOCK_def)
  have outer: "map (xor_byte (0x36 XOR 0x5c)) (map (xor_byte 0x36) b) = map (xor_byte 0x5c) b" for b
    using xor_byte_twice [of "0x36" "0x5c"] by (simp del: xor_numerals)
  show ?thesis
    unfolding make_hmac_key_def k(2) ebind.simps Let_def outer
    using assms(1) k(1) by (simp add: openssl_sha256_def key_block_def k_def [symmetric] SHA256_CBLOCK_def)
qed

text \<open>
  The keyed contexts compute HMAC-SHA256: with a library that works, \<open>hmac\<close> of a key and a
  text is the digest of the key block masked with \<open>0x5c\<close> followed by the digest of the key block
  masked with \<open>0x36\<close> followed by the text, although the second mask is applied over the first.
\<close>

lemma hmac_is_rfc2104:
  assumes "openssl_sha256 lib" "\<forall>s. SHA256_Final lib s \<noteq> None"
  shows "hmac lib key s =
    Inr (the (SHA256_Final lib (map (xor_byte 0x5c) (key_block lib key) @
           the (SHA256_Final lib (map (xor_byte 0x36) (key_block lib key) @ s)))))"
proof -
  define H where "H = (\<lambda>s. the (SHA256_Final lib s))"
  then have H: "SHA256_Final lib s = Some (H s)" for s using assms(2) by simp
  have up: "SHA256_Update lib c t" for c t using assms(1) by (simp add: openssl_sha256_def)
  show ?thesis
    using make_hmac_key_total [OF assms(1), of key] by (simp add: hmac_def hmac_keyed_def H up)
qed

text \<open>A library for the examples: the digest is 32 copies of the last byte.\<close>

definition ex_sha :: Sha256Lib where
  "ex_sha = \<lparr>SHA256_Init = True, SHA256_Update = (\<lambda>c s. True),
     SHA256_Final = (\<lambda>s. Some (replicate 32 (if s = [] then CHR ''0'' else last s)))\<rparr>"

lemma ex_sha_works: "openssl_sha256 ex_sha" "\<forall>s. SHA256_Final ex_sha s \<noteq> None"
  by (auto simp: openssl_sha256_def ex_sha_def)

lemma hmac_is_rfc2104_example: "hmac ex_sha ''key'' ''text'' = Inr (replicate 32 (CHR ''t''))"
  unfolding hmac_is_rfc2104 [OF ex_sha_works] by (simp add: ex_sha_def numeral_eq_Suc)

section \<open>The cache of the signing key\<close>

text \<open>
  What is assumed of the library: whenever it delivers a digest, the digest is the value of one
  function \<open>H\<close> of the bytes. Contexts may fail to be made, fed or finished at any call; every
  call of the signer may meet a library that fails at other places. \<open>sha256_of H\<close> is the library
  that never fails.
\<close>

definition digests :: "(string \<Rightarrow> string) \<Rightarrow> Sha256Lib \<Rightarrow> bool" where
  "digests H lib \<longleftrightarrow> (\<forall>s d. SHA256_Final lib s = Some d \<longrightarrow> d = H s)"

definition sha256_of :: "(string \<Rightarrow> string) \<Rightarrow> Sha256Lib" where
  "sha256_of H = \<lparr>SHA256_Init = True, SHA256_Update = (\<lambda>c s. True), SHA256_Final = (\<lambda>s. Some (H s))\<rparr>"

lemma sha256_delivers:
  "digests H lib \<Longrightarrow> sha256 lib s = Inr d \<Longrightarrow> sha256 (sha256_of H) s = Inr d"
  by (auto simp: sha256_def digests_def sha256_of_def split: if_splits option.splits)

lemma hmac_keyed_delivers:
  "digests H lib \<Longrightarrow> hmac_keyed lib key s = Inr d \<Longrightarrow> hmac_keyed (sha256_of H) key s = Inr d"
  by (auto simp: hmac_keyed_def digests_def sha256_of_def split: if_splits option.splits)

lemma make_hmac_key_delivers:
  assumes "digests H lib" "make_hmac_key lib key = Inr k"
  shows "make_hmac_key (sha256_of H) key = Inr k"
proof -
  obtain key' where key': "(if length key > SHA256_CBLOCK then sha256 lib key else Inr key) = Inr key'"
    using assms(2) by (auto simp: make_hmac_key_def ebind_Inr_iff)
  then have ideal: "(if length key > SHA256_CBLOCK then sha256 (sha256_of H) key else Inr key) = Inr key'"
    using sha256_delivers [OF assms(1)] by (auto split: if_splits)
  show ?thesis
    using assms(2) unfolding make_hmac_key_def key' ideal
    by (auto simp: Let_def sha256_of_def split: if_splits)
qed

lemma hmac_delivers:
  "digests H lib \<Longrightarrow> hmac lib key s = Inr d \<Longrightarrow> hmac (sha256_of H) key s = Inr d"
  by (auto simp: hmac_def ebind_Inr_iff dest: make_hmac_key_delivers hmac_keyed_delivers)

text \<open>The key of a secret, date, region and service, and when a cache holds the key it names.\<close>

definition signing_key_of ::
  "Sha256Lib \<Rightarrow> string \<Rightarrow> string \<Rightarrow> string \<Rightarrow> string \<Rightarrow> HmacSha256Key result" where
  "signing_key_of lib secret date region service =
     ebind (derive_signing_key lib secret date region service) (make_hmac_key lib)"

lemma signing_key_of_delivers:
  assumes "digests H lib" "signing_key_of lib secret date region service = Inr k"
  shows "signing_key_of (sha256_of H) secret date region service = Inr k"
  using assms(2) hmac_delivers [OF assms(1)] make_hmac_key_delivers [OF assms(1)]
  by (fastforce simp: signing_key_of_def derive_signing_key_def ebind_Inr_iff)

definition key_cache_coherent :: "(string \<Rightarrow> string) \<Rightarrow> SigningKeyCache \<Rightarrow> bool" where
  "key_cache_coherent H cache \<longleftrightarrow> (kc_valid cache \<longrightarrow>
     signing_key_of (sha256_of H) (kc_secret_access_key cache) (kc_date cache) (kc_region cache)
       (kc_service cache) = Inr (kc_hmac_key cache))"

text \<open>A workspace as a thread finds it first.\<close>

definition fresh_key_cache :: SigningKeyCache where
  "fresh_key_cache = \<lparr>kc_secret_access_key = [], kc_date = [], kc_region = [], kc_service = [],
     kc_hmac_key = \<lparr>hk_inner = [], hk_outer = []\<rparr>, kc_valid = False\<rparr>"

lemma fresh_key_cache_coherent: "key_cache_coherent H fresh_key_cache"
  by (simp add: key_cache_coherent_def fresh_key_cache_def)

text \<open>
  A call that succeeds uses the key of its own arguments and leaves it in the cache; and a call
  that succeeds with an empty cache succeeds with a coherent one.
\<close>

lemma signing_hmac_success:
  assumes "digests H lib" "key_cache_coherent H cache"
    and "signing_hmac lib cache secret date region service s = (Inr d, cache')"
  shows "(\<exists>key. signing_key_of (sha256_of H) secret date region service = Inr key \<and>
      hmac_keyed lib key s = Inr d) \<and> key_cache_coherent H cache'"
proof (cases "\<not> kc_valid cache \<or> kc_secret_access_key cache \<noteq> secret \<or> kc_date cache \<noteq> date \<or>
    kc_region cache \<noteq> region \<or> kc_service cache \<noteq> service")
  case True
  have step: "signing_hmac lib cache secret date region service s =
      (case derive_signing_key lib secret date region service of
         Inl e \<Rightarrow> (Inl e, cache)
       | Inr signing_key \<Rightarrow>
           let cache1 = cache\<lparr>kc_secret_access_key := secret, kc_date := date,
                              kc_region := region, kc_service := service\<rparr>
           in case make_hmac_key lib signing_key of
                Inl e \<Rightarrow> (Inl e, cache1)
              | Inr key \<Rightarrow> (hmac_keyed lib key s, cache1\<lparr>kc_hmac_key := key, kc_valid := True\<rparr>))"
    unfolding signing_hmac_def if_P [OF True] ..
  then obtain sk key where k: "derive_signing_key lib secret date region service = Inr sk"
      "make_hmac_key lib sk = Inr key" "hmac_keyed lib key s = Inr d"
      "cache' = cache\<lparr>kc_secret_access_key := secret, kc_date := date, kc_region := region,
         kc_service := service, kc_hmac_key := key, kc_valid := True\<rparr>"
    using assms(3) by (auto simp: Let_def split: sum.splits)
  then have "signing_key_of lib secret date region service = Inr key" by (simp add: signing_key_of_def)
  with signing_key_of_delivers [OF assms(1)] k show ?thesis by (simp add: key_cache_coherent_def)
next
  case False
  then have "signing_hmac lib cache secret date region service s = (hmac_keyed lib (kc_hmac_key cache) s, cache)"
    by (simp add: signing_hmac_def)
  then show ?thesis using assms(2,3) False by (auto simp: key_cache_coherent_def)
qed

lemma signing_hmac_fresh:
  "fst (signing_hmac lib fresh_key_cache secret date region service s) =
     ebind (signing_key_of lib secret date region service) (\<lambda>key. hmac_keyed lib key s)"
  by (simp add: signing_hmac_def signing_key_of_def fresh_key_cache_def Let_def split: sum.split)

lemma signing_hmac_serves:
  assumes "digests H lib" "key_cache_coherent H cache"
    and "fst (signing_hmac lib fresh_key_cache secret date region service s) = Inr d"
  shows "fst (signing_hmac lib cache secret date region service s) = Inr d"
proof -
  obtain key where key: "signing_key_of lib secret date region service = Inr key" "hmac_keyed lib key s = Inr d"
    using assms(3) by (auto simp: signing_hmac_fresh ebind_Inr_iff)
  then have "signing_key_of (sha256_of H) secret date region service = Inr key"
    using signing_key_of_delivers [OF assms(1)] by simp
  with key assms(2) show ?thesis
    by (auto simp: signing_hmac_def signing_key_of_def key_cache_coherent_def ebind_Inr_iff Let_def)
qed

text \<open>The same of a signed request; the checks and the canonical request do not use the cache.\<close>

definition sign_call ::
  "(Sha256Lib \<times> Credentials \<times> SignRequest) \<Rightarrow> SigningKeyCache \<Rightarrow>
   (string \<times> string) list result \<times> SigningKeyCache" where
  "sign_call = (\<lambda>(lib, cred, req). sign_v4_headers lib cred req)"

lemma sign_v4_headers_iff:
  "sign_v4_headers lib cred req cache = (Inr hs, cache') \<longleftrightarrow>
     access_key_id cred \<noteq> [] \<and> secret_access_key cred \<noteq> [] \<and>
     length (sr_amz_datetime req) = 16 \<and> sr_amz_datetime req ! 8 = CHR ''T'' \<and>
     last (sr_amz_datetime req) = CHR ''Z'' \<and>
     sr_payload_hash req \<noteq> [] \<and> sr_authority req \<noteq> [] \<and> sr_region req \<noteq> [] \<and>
     (\<exists>digest d. sha256 lib (canonical_request req (signed_header_block False cred req)) = Inr digest \<and>
        signing_hmac lib cache (secret_access_key cred) (take 8 (sr_amz_datetime req)) (sr_region req)
          (sr_service req) (string_to_sign req (hex digest)) = (Inr d, cache') \<and>
        hs = result_headers cred req (snd (signed_header_block False cred req)) (hex d))"
  by (auto simp: sign_v4_headers_def sign_v4_impl_def Let_def split_beta ebind_Inr_iff prod_eq_iff
      split: sum.splits)

lemma sign_v4_headers_success:
  assumes "digests H lib" "key_cache_coherent H cache"
    and "sign_v4_headers lib cred req cache = (Inr hs, cache')"
  shows "fst (sign_v4_headers (sha256_of H) cred req fresh_key_cache) = Inr hs \<and> key_cache_coherent H cache'"
proof -
  let ?sign = "\<lambda>l c dg. signing_hmac l c (secret_access_key cred) (take 8 (sr_amz_datetime req))
      (sr_region req) (sr_service req) (string_to_sign req (hex dg))"
  obtain digest d where d: "sha256 lib (canonical_request req (signed_header_block False cred req)) = Inr digest"
      "?sign lib cache digest = (Inr d, cache')"
      "hs = result_headers cred req (snd (signed_header_block False cred req)) (hex d)"
    using assms(3) by (auto simp: sign_v4_headers_iff)
  note used = signing_hmac_success [OF assms(1,2) d(2)]
  then have "fst (?sign (sha256_of H) fresh_key_cache digest) = Inr d"
    using hmac_keyed_delivers [OF assms(1)] by (auto simp: signing_hmac_fresh)
  then obtain fresh' where "?sign (sha256_of H) fresh_key_cache digest = (Inr d, fresh')"
    by (metis prod.collapse)
  then have "sign_v4_headers (sha256_of H) cred req fresh_key_cache = (Inr hs, fresh')"
    using assms(3) sha256_delivers [OF assms(1) d(1)] d by (auto simp: sign_v4_headers_iff)
  with used show ?thesis by simp
qed

lemma sign_v4_headers_serves:
  assumes "digests H lib" "key_cache_coherent H cache"
    and "fst (sign_v4_headers lib cred req fresh_key_cache) = Inr hs"
  shows "fst (sign_v4_headers lib cred req cache) = Inr hs"
proof -
  obtain c where "sign_v4_headers lib cred req fresh_key_cache = (Inr hs, c)"
    using assms(3) by (metis prod.collapse)
  then obtain digest d where d: "sha256 lib (canonical_request req (signed_header_block False cred req)) = Inr digest"
      "fst (signing_hmac lib fresh_key_cache (secret_access_key cred) (take 8 (sr_amz_datetime req))
        (sr_region req) (sr_service req) (string_to_sign req (hex digest))) = Inr d"
      "hs = result_headers cred req (snd (signed_header_block False cred req)) (hex d)"
    and ok: "sign_v4_headers lib cred req fresh_key_cache = (Inr hs, c)"
    by (auto simp: sign_v4_headers_iff)
  obtain cache' where "signing_hmac lib cache (secret_access_key cred) (take 8 (sr_amz_datetime req))
        (sr_region req) (sr_service req) (string_to_sign req (hex digest)) = (Inr d, cache')"
    using signing_hmac_serves [OF assms(1,2) d(2)] by (metis prod.collapse)
  then have "sign_v4_headers lib cred req cache = (Inr hs, cache')"
    using ok d by (auto simp: sign_v4_headers_iff)
  then show ?thesis by simp
qed

interpretation signer: fallible_memo
  "\<lambda>H (lib, cred, req). fst (sign_v4_headers (sha256_of H) cred req fresh_key_cache)"
  "\<lambda>H (lib, cred, req). digests H lib" key_cache_coherent fresh_key_cache sign_call
proof unfold_locales
  fix H :: "string \<Rightarrow> string" and k :: "Sha256Lib \<times> Credentials \<times> SignRequest" and cache v
  obtain lib cred req where k: "k = (lib, cred, req)" by (cases k)
  show "key_cache_coherent H fresh_key_cache" by (rule fresh_key_cache_coherent)
  assume coherent: "key_cache_coherent H cache" and fits: "case k of (lib, cred, req) \<Rightarrow> digests H lib"
  show "(case k of (lib, cred, req) \<Rightarrow> fst (sign_v4_headers (sha256_of H) cred req fresh_key_cache)) = Inr v"
    and "key_cache_coherent H (snd (sign_call k cache))"
    if "fst (sign_call k cache) = Inr v"
    using that sign_v4_headers_success [OF _ coherent, of lib cred req] fits
    by (auto simp: k sign_call_def prod_eq_iff)
  show "fst (sign_call k cache) = Inr v" if "fst (sign_call k fresh_key_cache) = Inr v"
    using that sign_v4_headers_serves [OF _ coherent, of lib cred req] fits by (simp add: k sign_call_def)
qed

text \<open>
  C12. The cache of the signing key is not observable until a call fails: let a thread sign any
  sequence of requests, with any mix of credentials, dates, regions and services, where every
  call of the digest library may fail. As long as no earlier request of the thread has failed,
  the headers returned for a request are the ones a thread with an empty cache computes with a
  library that does not fail, and a request that a thread with an empty cache could sign is
  signed. (After a failure this need not hold: see \<open>failed_key_setup_leaves_stale_key\<close>.)
\<close>

theorem signing_key_cache_is_transparent:
  assumes "\<forall>(lib, cred, req) \<in> set calls. \<forall>s d. SHA256_Final lib s = Some d \<longrightarrow> d = H s"
    and "i < length calls" and "calls ! i = (lib, cred, req)"
    and "answers = fst (run_calls (\<lambda>(lib, cred, req). sign_v4_headers lib cred req) calls fresh_key_cache)"
    and "\<forall>j < i. \<exists>headers. answers ! j = Inr headers"
  shows "(answers ! i = Inr headers \<longrightarrow>
      fst (sign_v4_headers (sha256_of H) cred req fresh_key_cache) = Inr headers) \<and>
    (fst (sign_v4_headers lib cred req fresh_key_cache) = Inr headers \<longrightarrow> answers ! i = Inr headers)"
proof -
  have "list_all (\<lambda>(lib, cred, req). digests H lib) calls"
    using assms(1) by (auto simp: list_all_iff digests_def)
  from signer.run_from_start [OF this assms(2)] show ?thesis
    using assms(3,4,5) by (simp add: sign_call_def)
qed

lemma ex_sha_signs:
  assumes "access_key_id cred \<noteq> []" "secret_access_key cred \<noteq> []"
  shows "\<exists>hs. fst (sign_v4_headers ex_sha cred ex_req fresh_key_cache) = Inr hs"
proof -
  have chain: "\<exists>d. ebind r f = Inr d" if "\<exists>x. r = Inr x" "\<And>x. \<exists>d. f x = Inr d"
    for r :: "'a result" and f :: "'a \<Rightarrow> 'b result"
    using that by auto
  have keyed: "\<exists>d. hmac_keyed ex_sha k s = Inr d" for k s by (simp add: hmac_keyed_def ex_sha_def)
  have key: "\<exists>key. make_hmac_key ex_sha k = Inr key" for k
    by (simp add: make_hmac_key_def Let_def sha256_def) (simp add: ex_sha_def)
  have hmac: "\<exists>d. hmac ex_sha k s = Inr d" for k s
    using key [of k] keyed by (auto simp: hmac_def)
  have "\<exists>d. signing_key_of ex_sha a b c d' = Inr d" for a b c d'
    unfolding signing_key_of_def derive_signing_key_def by (intro chain hmac key)
  then have signed: "\<exists>d. fst (signing_hmac ex_sha fresh_key_cache a b c d' s) = Inr d" for a b c d' s
    unfolding signing_hmac_fresh by (intro chain keyed)
  have "\<exists>d. sha256 ex_sha s = Inr d" for s by (simp add: sha256_def ex_sha_def)
  then obtain digest where "sha256 ex_sha (canonical_request ex_req (signed_header_block False cred ex_req)) = Inr digest"
    by blast
  moreover obtain d cache where "signing_hmac ex_sha fresh_key_cache (secret_access_key cred)
      (take 8 (sr_amz_datetime ex_req)) (sr_region ex_req) (sr_service ex_req)
      (string_to_sign ex_req (hex digest)) = (Inr d, cache)"
    using signed by (metis prod.collapse)
  moreover have "length (sr_amz_datetime ex_req) = 16 \<and> sr_amz_datetime ex_req ! 8 = CHR ''T'' \<and>
      last (sr_amz_datetime ex_req) = CHR ''Z'' \<and> sr_payload_hash ex_req \<noteq> [] \<and> sr_authority ex_req \<noteq> [] \<and>
      sr_region ex_req \<noteq> []"
    by (simp add: ex_req_def)
  ultimately have "\<exists>hs cache'. sign_v4_headers ex_sha cred ex_req fresh_key_cache = (Inr hs, cache')"
    unfolding sign_v4_headers_iff using assms by blast
  then show ?thesis by (metis fst_conv)
qed

theorem signing_key_cache_is_transparent_witness:
  "\<exists>headers. fst (sign_v4_headers (sha256_of (\<lambda>s. replicate 32 (if s = [] then CHR ''0'' else last s)))
        ex_cred ex_req fresh_key_cache) = Inr headers \<and>
    fst (run_calls (\<lambda>(lib, cred, req). sign_v4_headers lib cred req)
      [(ex_sha, ex_cred\<lparr>secret_access_key := ''K''\<rparr>, ex_req), (ex_sha, ex_cred, ex_req)] fresh_key_cache) ! 1 =
      Inr headers"
proof -
  let ?calls = "[(ex_sha, ex_cred\<lparr>secret_access_key := ''K''\<rparr>, ex_req), (ex_sha, ex_cred, ex_req)]"
  let ?answers = "fst (run_calls (\<lambda>(lib, cred, req). sign_v4_headers lib cred req) ?calls fresh_key_cache)"
  obtain headers where fresh: "fst (sign_v4_headers ex_sha ex_cred ex_req fresh_key_cache) = Inr headers"
    using ex_sha_signs [of ex_cred] by (auto simp: ex_cred_def)
  have first: "\<forall>j < 1. \<exists>headers. ?answers ! j = Inr headers"
    using ex_sha_signs [of "ex_cred\<lparr>secret_access_key := ''K''\<rparr>"] by (simp add: ex_cred_def split_beta)
  have digest: "\<forall>(lib, cred, req) \<in> set ?calls. \<forall>s d. SHA256_Final lib s = Some d \<longrightarrow>
      d = replicate 32 (if s = [] then CHR ''0'' else last s)"
    by (simp add: ex_sha_def)
  note applied = signing_key_cache_is_transparent [OF digest _ _ refl first, of ex_sha ex_cred ex_req headers]
  show ?thesis using applied fresh by auto
qed

text \<open>
  Preparing the key is not exception safe: the cache takes the identifying fields before the
  keyed contexts are made. When that fails, a valid cache keeps its old key under the new
  fields, and the next signature for the same secret, date, region and service is made, without
  an error, with the key of the previous ones.
\<close>

lemma failed_key_setup_leaves_stale_key:
  assumes "kc_valid cache" "kc_secret_access_key cache \<noteq> secret"
    and "derive_signing_key lib secret date region service = Inr k" "make_hmac_key lib k = Inl e"
  shows "fst (signing_hmac lib cache secret date region service s) = Inl e \<and>
    fst (signing_hmac lib' (snd (signing_hmac lib cache secret date region service s)) secret date region service s') =
      hmac_keyed lib' (kc_hmac_key cache) s'"
  using assms by (simp add: signing_hmac_def)

text \<open>A library that fails to feed the block of a key that begins with \<open>t\<close>.\<close>

definition ex_sha_fails :: Sha256Lib where
  "ex_sha_fails = ex_sha\<lparr>SHA256_Update := (\<lambda>c s. c \<noteq> [] \<or> hd s \<noteq> xor_byte 0x36 (CHR ''t''))\<rparr>"

lemma ex_sha_fails_hmac:
  assumes "c \<in> {CHR ''A'', CHR ''1'', CHR ''r'', CHR ''3''}" "length key < 64" "s \<noteq> []"
  shows "hmac ex_sha_fails (c # key) s = Inr (replicate 32 (last s))"
proof -
  have "xor_byte 0x36 c \<noteq> xor_byte 0x36 (CHR ''t'')" "xor_byte 0x6A (xor_byte 0x36 c) \<noteq> xor_byte 0x36 (CHR ''t'')"
    using assms(1) by (auto simp: xor_byte_def)
  then have "\<exists>a i b out. make_hmac_key ex_sha_fails (c # key) = Inr \<lparr>hk_inner = a # i, hk_outer = b # out\<rparr>"
    using assms(2) by (simp add: make_hmac_key_def SHA256_CBLOCK_def ex_sha_fails_def ex_sha_def Let_def)
  then obtain a i b out where "make_hmac_key ex_sha_fails (c # key) = Inr \<lparr>hk_inner = a # i, hk_outer = b # out\<rparr>"
    by blast
  then show ?thesis using assms(3)
    by (simp add: hmac_def hmac_keyed_def ex_sha_fails_def ex_sha_def)
qed

lemma failed_key_setup_leaves_stale_key_example:
  "\<exists>e. fst (signing_hmac ex_sha_fails (fresh_key_cache\<lparr>kc_valid := True\<rparr>) ''SK'' ''20240221'' ''r'' ''s3'' ''text'') = Inl e \<and>
    fst (signing_hmac ex_sha (snd (signing_hmac ex_sha_fails (fresh_key_cache\<lparr>kc_valid := True\<rparr>)
        ''SK'' ''20240221'' ''r'' ''s3'' ''text'')) ''SK'' ''20240221'' ''r'' ''s3'' ''next'') =
      hmac_keyed ex_sha (kc_hmac_key fresh_key_cache) ''next''"
proof -
  have rep: "replicate 32 c = c # replicate 31 c" for c :: char by (simp add: numeral_eq_Suc)
  have d: "derive_signing_key ex_sha_fails ''SK'' ''20240221'' ''r'' ''s3'' = Inr (replicate 32 (CHR ''t''))"
    by (simp add: derive_signing_key_def ex_sha_fails_hmac rep)
  have m: "make_hmac_key ex_sha_fails (replicate 32 (CHR ''t'')) =
      Inl (RuntimeError ''OpenSSL HMAC-SHA256 inner key failed'')"
    unfolding rep by (simp add: make_hmac_key_def SHA256_CBLOCK_def ex_sha_fails_def ex_sha_def Let_def)
  show ?thesis
    using failed_key_setup_leaves_stale_key [of "fresh_key_cache\<lparr>kc_valid := True\<rparr>", OF _ _ d m, of "''text''" ex_sha "''next''"]
    by (simp add: fresh_key_cache_def)
qed

end
