(* ===== verification/S3_Xml.thy ===== *)
theory S3_Xml
  imports S3_Time
begin

text \<open>
  Responses of the service: \<open>S3Xml\<close> over the document tinyxml2 builds and \<open>parse_s3_error\<close>
  (\<^verbatim>\<open>src/src/s3.cpp\<close>), and what the file system makes of a response (\<^verbatim>\<open>src/src/fuse.cpp\<close>):
  which ones are retried, the errno of a failure, the retry loop and the metadata of a HEAD.
  The parser of tinyxml2 is the parameter \<open>parse\<close>: the nodes of a document, or its error text.
\<close>

definition ENOENT :: nat where "ENOENT = 2"
definition EIO :: nat where "EIO = 5"
definition EACCES :: nat where "EACCES = 13"
definition EBUSY :: nat where "EBUSY = 16"
definition EEXIST :: nat where "EEXIST = 17"
definition EINVAL :: nat where "EINVAL = 22"
definition EFBIG :: nat where "EFBIG = 27"
definition EOPNOTSUPP :: nat where "EOPNOTSUPP = 95"
definition EREMOTEIO :: nat where "EREMOTEIO = 121"

section \<open>Documents\<close>

text \<open>Other nodes are comments, declarations and unknown markup.\<close>

datatype xml_node = Element string "xml_node list" | Text string | Other

type_synonym xml_element = "string \<times> xml_node list"
type_synonym xml_parser = "string \<Rightarrow> string + xml_node list"

fun child_elements :: "xml_node list \<Rightarrow> xml_element list" where
  "child_elements [] = []"
| "child_elements (Element name children # nodes) = (name, children) # child_elements nodes"
| "child_elements (_ # nodes) = child_elements nodes"

record S3Xml =
  x_root :: xml_element
  x_operation :: string

definition fail :: "string \<Rightarrow> string \<Rightarrow> 'a result" where
  "fail operation message = Inl (RuntimeError (operation @ '' '' @ message))"

definition S3Xml_new :: "xml_parser \<Rightarrow> string \<Rightarrow> string \<Rightarrow> S3Xml result" where
  "S3Xml_new parse xml operation =
     (if CHR 0x00 \<in> set xml then fail operation ''returned XML containing a NUL byte''
      else case parse xml of
             Inl detail \<Rightarrow>
               fail operation (''returned invalid XML'' @ (if detail \<noteq> [] then '': '' @ detail else []))
           | Inr nodes \<Rightarrow>
               (case child_elements nodes of
                  [] \<Rightarrow> fail operation ''returned XML without a root element''
                | element # _ \<Rightarrow> Inr \<lparr>x_root = element, x_operation = operation\<rparr>))"

text \<open>The local name: what follows the last colon.\<close>

definition local_name :: "string \<Rightarrow> string" where
  "local_name raw = rev (takeWhile (\<lambda>c. c \<noteq> CHR '':'') (rev raw))"

definition named :: "xml_element \<Rightarrow> string \<Rightarrow> bool" where
  "named element name \<longleftrightarrow> local_name (fst element) = name"

definition xml_root :: "S3Xml \<Rightarrow> string \<Rightarrow> xml_element result" where
  "xml_root x expected =
     (if expected \<noteq> [] \<and> \<not> named (x_root x) expected
      then fail (x_operation x)
        (''returned unexpected XML root <'' @ fst (x_root x) @ ''>; expected <'' @ expected @ ''>'')
      else Inr (x_root x))"

definition root_is :: "S3Xml \<Rightarrow> string \<Rightarrow> bool" where
  "root_is x name \<longleftrightarrow> named (x_root x) name"

text \<open>The first element of that name in a list of siblings, and the siblings after it.\<close>

fun next_sibling :: "xml_element list \<Rightarrow> string \<Rightarrow> (xml_element \<times> xml_element list) option" where
  "next_sibling [] name = None"
| "next_sibling (element # siblings) name =
     (if named element name then Some (element, siblings) else next_sibling siblings name)"

definition first_child :: "xml_element \<Rightarrow> string \<Rightarrow> (xml_element \<times> xml_element list) option" where
  "first_child parent name = next_sibling (child_elements (snd parent)) name"

definition unique_child :: "S3Xml \<Rightarrow> xml_element \<Rightarrow> string \<Rightarrow> bool \<Rightarrow> xml_element option result" where
  "unique_child x parent name required =
     (case first_child parent name of
        None \<Rightarrow>
          if required then fail (x_operation x) (''response omitted <'' @ name @ ''>'') else Inr None
      | Some (child, siblings) \<Rightarrow>
          if next_sibling siblings name \<noteq> None
          then fail (x_operation x) (''response repeated <'' @ name @ ''>'')
          else Inr (Some child))"

definition required_child :: "S3Xml \<Rightarrow> xml_element \<Rightarrow> string \<Rightarrow> xml_element result" where
  "required_child x parent name =
     ebind (unique_child x parent name True) (\<lambda>child. Inr (the child))"

fun element_text_loop :: "S3Xml \<Rightarrow> string \<Rightarrow> xml_node list \<Rightarrow> string \<Rightarrow> string result" where
  "element_text_loop x name [] text = Inr text"
| "element_text_loop x name (Element _ _ # nodes) text =
     fail (x_operation x) (''returned nested XML in <'' @ name @ ''>'')"
| "element_text_loop x name (Text t # nodes) text = element_text_loop x name nodes (text @ t)"
| "element_text_loop x name (Other # nodes) text = element_text_loop x name nodes text"

definition element_text :: "S3Xml \<Rightarrow> xml_element \<Rightarrow> string result" where
  "element_text x element = element_text_loop x (fst element) (snd element) []"

definition required_text :: "S3Xml \<Rightarrow> xml_element \<Rightarrow> string \<Rightarrow> string result" where
  "required_text x parent name =
     ebind (unique_child x parent name True) (\<lambda>child. element_text x (the child))"

definition optional_text :: "S3Xml \<Rightarrow> xml_element \<Rightarrow> string \<Rightarrow> string result" where
  "optional_text x parent name =
     ebind (unique_child x parent name False)
       (\<lambda>child. case child of None \<Rightarrow> Inr [] | Some c \<Rightarrow> element_text x c)"

definition required_bool :: "S3Xml \<Rightarrow> xml_element \<Rightarrow> string \<Rightarrow> bool result" where
  "required_bool x parent name =
     ebind (required_text x parent name) (\<lambda>text.
       let v = trim text
       in if v = ''true'' \<or> v = ''1'' then Inr True
          else if v = ''false'' \<or> v = ''0'' then Inr False
          else fail (x_operation x) (''returned invalid boolean in <'' @ name @ ''>''))"

definition result_root :: "S3Xml \<Rightarrow> string \<Rightarrow> xml_element result" where
  "result_root x expected =
     (if \<not> root_is x ''Error'' then xml_root x expected
      else ebind (optional_text x (x_root x) ''Code'') (\<lambda>code.
        fail (x_operation x)
          (if code = [] then ''returned an S3 error'' else ''returned S3 error '' @ code)))"

section \<open>Errors of the service\<close>

record S3ErrorInfo =
  err_code :: string
  err_message :: string
  err_request_id :: string
  err_host_id :: string

fun contains :: "string \<Rightarrow> string \<Rightarrow> bool" where
  "contains p [] \<longleftrightarrow> p = []"
| "contains p (c # s) \<longleftrightarrow> starts_with (c # s) p \<or> contains p s"

definition parse_s3_error :: "xml_parser \<Rightarrow> string \<Rightarrow> S3ErrorInfo option" where
  "parse_s3_error parse text =
     (let prefix = take 1024 text
      in if \<not> contains ''<Error'' prefix \<and> \<not> contains '':Error'' prefix then None
         else case S3Xml_new parse text ''S3 error response'' of
                Inl _ \<Rightarrow> None
              | Inr x \<Rightarrow>
                  if \<not> root_is x ''Error'' then None
                  else case ebind (xml_root x ''Error'') (\<lambda>root.
                         ebind (optional_text x root ''Code'') (\<lambda>code.
                         ebind (optional_text x root ''Message'') (\<lambda>message.
                         ebind (optional_text x root ''RequestId'') (\<lambda>request_id.
                         ebind (optional_text x root ''HostId'') (\<lambda>host_id.
                           Inr \<lparr>err_code = code, err_message = message, err_request_id = request_id,
                                err_host_id = host_id\<rparr>))))) of
                       Inl _ \<Rightarrow> None
                     | Inr error \<Rightarrow> Some error)"

text \<open>Of a response: its status, its headers by name, its body.\<close>

record Response =
  status :: int
  headers :: "string \<rightharpoonup> string"
  body :: string

definition retryable_status :: "int \<Rightarrow> bool" where
  "retryable_status s \<longleftrightarrow> s = 408 \<or> s = 425 \<or> s = 429 \<or> (500 \<le> s \<and> s \<le> 599 \<and> s \<noteq> 501 \<and> s \<noteq> 505)"

definition retryable_s3_code :: "string \<Rightarrow> bool" where
  "retryable_s3_code code \<longleftrightarrow>
     code = ''RequestTimeout'' \<or> code = ''RequestTimeoutException'' \<or> code = ''SlowDown'' \<or>
     code = ''InternalError'' \<or> code = ''ServiceUnavailable'' \<or> code = ''OperationAborted'' \<or>
     code = ''ConditionalRequestConflict''"

definition response_error :: "xml_parser \<Rightarrow> Response \<Rightarrow> S3ErrorInfo option" where
  "response_error parse r = (if body r = [] then None else parse_s3_error parse (body r))"

definition retryable_response :: "xml_parser \<Rightarrow> Response \<Rightarrow> bool" where
  "retryable_response parse r \<longleftrightarrow> retryable_status (status r) \<or>
     (case response_error parse r of None \<Rightarrow> False | Some error \<Rightarrow> retryable_s3_code (err_code error))"

definition errno_for_s3_status :: "int \<Rightarrow> nat" where
  "errno_for_s3_status s =
     (if s = 400 \<or> s = 416 then EINVAL
      else if s = 401 \<or> s = 403 then EACCES
      else if s = 404 then ENOENT
      else if s = 409 then EBUSY
      else if s = 412 then ESTALE
      else if s = 425 \<or> s = 429 then EAGAIN
      else if s = 507 then ENOSPC
      else if s \<ge> 500 then EREMOTEIO else EIO)"

definition errno_for_s3_error :: "int \<Rightarrow> string \<Rightarrow> nat" where
  "errno_for_s3_error s code =
     (if code \<in> {''NoSuchBucket'', ''NoSuchKey'', ''NoSuchUpload''} then ENOENT
      else if code \<in> {''BucketAlreadyExists'', ''BucketAlreadyOwnedByYou''} then EEXIST
      else if code \<in> {''AccessDenied'', ''InvalidAccessKeyId'', ''SignatureDoesNotMatch'',
        ''ExpiredToken'', ''TokenRefreshRequired''} then EACCES
      else if code \<in> {''InvalidObjectState'', ''ObjectNotInActiveTierError''} then EIO
      else if code \<in> {''InvalidRange'', ''InvalidArgument'', ''InvalidRequest'', ''MalformedXML'',
        ''EntityTooSmall'', ''InvalidPart'', ''InvalidPartOrder''} then EINVAL
      else if code \<in> {''EntityTooLarge'', ''TooManyParts''} then EFBIG
      else if code = ''KeyTooLongError'' then ENAMETOOLONG
      else if code \<in> {''NotImplemented'', ''MethodNotAllowed''} then EOPNOTSUPP
      else if code = ''PreconditionFailed'' then ESTALE
      else if retryable_s3_code code then EAGAIN
      else if code = ''InsufficientStorage'' then ENOSPC
      else errno_for_s3_status s)"

definition append_s3_diagnostic :: "string \<Rightarrow> string \<Rightarrow> string \<Rightarrow> string" where
  "append_s3_diagnostic destination label v =
     (if v = [] then destination
      else destination @ '' '' @ label @ ''='' @
        map (\<lambda>c. if byte_of c < 0x20 \<or> byte_of c = 0x7f then CHR '' '' else c) (take 512 v))"

definition int_string :: "int \<Rightarrow> string" where
  "int_string n = (if n < 0 then ''-'' @ to_string (nat (- n)) else to_string (nat n))"

fun first_header :: "(string \<rightharpoonup> string) \<Rightarrow> string list \<Rightarrow> string option" where
  "first_header hs [] = None"
| "first_header hs (name # names) = (case hs name of None \<Rightarrow> first_header hs names | Some v \<Rightarrow> Some v)"

definition throw_s3_response :: "xml_parser \<Rightarrow> Response \<Rightarrow> string \<Rightarrow> 'a result" where
  "throw_s3_response parse r operation =
     (let error = response_error parse r;
          message = operation @ '' failed with HTTP status '' @ int_string (status r);
          message = (case error of None \<Rightarrow> message
                     | Some e \<Rightarrow> append_s3_diagnostic
                         (append_s3_diagnostic message ''code'' (err_code e)) ''message'' (err_message e));
          request_id = first_header (headers r) [''x-amz-request-id'', ''x-oss-request-id'',
            ''x-goog-request-id'', ''x-guploader-uploadid''];
          message = (case request_id of
                       Some v \<Rightarrow> append_s3_diagnostic message ''request_id'' v
                     | None \<Rightarrow> (case error of None \<Rightarrow> message
                         | Some e \<Rightarrow> append_s3_diagnostic message ''request_id'' (err_request_id e)))
      in Inl (SystemError
           (case error of Some e \<Rightarrow> errno_for_s3_error (status r) (err_code e)
            | None \<Rightarrow> errno_for_s3_status (status r)) message))"

section \<open>Retries\<close>

definition ECANCELED :: nat where "ECANCELED = 125"

text \<open>
  What a retry loop meets: the outcome of each attempt, whether a stop is requested when it is
  asked for the \<open>n\<close>-th time (four times per attempt at most), the wall clock and the jitter of the
  monotonic clock when an attempt is followed by a delay.
\<close>

record retry_env =
  send :: "nat \<Rightarrow> Response result"
  stop_requested :: "nat \<Rightarrow> bool"
  wall_clock :: "nat \<Rightarrow> int option"
  monotonic_ns :: "nat \<Rightarrow> nat"

text \<open>The seconds \<open>retry_after_delay\<close> sleeps for, if it does.\<close>

definition retry_after_delay :: "int option \<Rightarrow> Response \<Rightarrow> nat option" where
  "retry_after_delay now r =
     (case headers r ''retry-after'' of
        None \<Rightarrow> None
      | Some v \<Rightarrow>
          (case parse_unsigned_all 64 v of
             Some seconds \<Rightarrow> Some (min seconds 30)
           | None \<Rightarrow>
               (case parse_http_mtime v of
                  Inl _ \<Rightarrow> None
                | Inr deadline \<Rightarrow>
                    (case now of
                       None \<Rightarrow> None
                     | Some n \<Rightarrow> if deadline \<le> n then None else Some (min (nat (deadline - n)) 30)))))"

definition retry_delay :: "nat \<Rightarrow> nat \<Rightarrow> nat" where
  "retry_delay monotonic attempt = 25 * 2 ^ attempt + monotonic mod 25"

text \<open>What a loop returns: its result, the ambiguity flag, the attempts made and the milliseconds slept.\<close>

record retry_outcome =
  r_result :: "Response result"
  r_ambiguous :: bool
  r_attempts :: nat
  r_slept :: nat

definition request_cancelled :: cpp_error where
  "request_cancelled = SystemError ECANCELED ''request cancelled''"

text \<open>
  The body of the loop for one attempt: it leaves the loop with an outcome, or goes on to the
  next attempt with the ambiguity flag and the milliseconds slept so far (the wait that \<open>Retry-After\<close>
  asks for is over before the last check for a stop). \<open>caught\<close> is the
  \<^verbatim>\<open>catch (...)\<close> block, entered with the exception of the attempt or of the check after it.
\<close>

definition retry_attempt ::
  "xml_parser \<Rightarrow> retry_env \<Rightarrow> nat \<Rightarrow> bool \<Rightarrow> nat \<Rightarrow> retry_outcome + bool \<times> nat" where
  "retry_attempt parse env attempt ambiguous slept =
     (let stop = (\<lambda>k. stop_requested env (4 * attempt + k));
          leave = (\<lambda>r a n ms. Inl \<lparr>r_result = r, r_ambiguous = a, r_attempts = n, r_slept = ms\<rparr>);
          proceed = (\<lambda>delayed.
            let slept = slept + (case delayed of Some seconds \<Rightarrow> 1000 * seconds | None \<Rightarrow> 0)
            in if stop 3 then leave (Inl request_cancelled) True (attempt + 1) slept
               else Inr (True, slept + (case delayed of Some seconds \<Rightarrow> 0
                                        | None \<Rightarrow> retry_delay (monotonic_ns env attempt) attempt)));
          caught = (\<lambda>error.
            if stop 2 then leave (Inl request_cancelled) ambiguous (attempt + 1) slept
            else if attempt = 3 then leave (Inl error) True (attempt + 1) slept
            else proceed None)
      in if stop 0 then leave (Inl request_cancelled) ambiguous attempt slept
         else case send env attempt of
                Inl error \<Rightarrow> caught error
              | Inr response \<Rightarrow>
                  if stop 1 then caught request_cancelled
                  else if \<not> retryable_response parse response \<or> attempt = 3
                  then leave (Inr response) ambiguous (attempt + 1) slept
                  else proceed (retry_after_delay (wall_clock env attempt) response))"

text \<open>
  The loop over the attempts \<open>4 - n, ..., 3\<close>. The fourth attempt always leaves it, so the end of
  the loop, which rethrows the last exception, is not reached.
\<close>

fun retry_loop :: "xml_parser \<Rightarrow> retry_env \<Rightarrow> nat \<Rightarrow> bool \<Rightarrow> nat \<Rightarrow> retry_outcome" where
  "retry_loop parse env 0 ambiguous slept =
     \<lparr>r_result = Inl (LogicError ''end of the retry loop''), r_ambiguous = ambiguous, r_attempts = 4,
      r_slept = slept\<rparr>"
| "retry_loop parse env (Suc n) ambiguous slept =
     (case retry_attempt parse env (3 - n) ambiguous slept of
        Inl outcome \<Rightarrow> outcome
      | Inr (a, ms) \<Rightarrow> retry_loop parse env n a ms)"

definition request_with_retries :: "xml_parser \<Rightarrow> retry_env \<Rightarrow> retry_outcome" where
  "request_with_retries parse env = retry_loop parse env 4 False 0"

section \<open>The metadata of an object\<close>

record ObjectMetadata =
  md_size :: nat
  md_mtime :: int
  md_last_modified :: string
  md_etag :: string
  md_version_id :: string
  md_write_id :: string

definition decode_head_response :: "xml_parser \<Rightarrow> Response \<Rightarrow> ObjectMetadata result" where
  "decode_head_response parse r =
     (if status r = 404 then Inl (SystemError ENOENT ''S3 HEAD'')
      else if status r \<noteq> 200 then throw_s3_response parse r ''S3 HEAD''
      else case headers r ''content-length'' of
             None \<Rightarrow> Inl (RuntimeError ''S3 HEAD omitted content-length'')
           | Some len \<Rightarrow>
          (case parse_unsigned_all 64 len of
             None \<Rightarrow> Inl (RuntimeError ''S3 HEAD returned invalid content-length'')
           | Some object_size \<Rightarrow>
          (case headers r ''last-modified'' of
             None \<Rightarrow> Inl (RuntimeError ''S3 HEAD omitted Last-Modified'')
           | Some modified \<Rightarrow>
          ebind (parse_http_mtime modified) (\<lambda>mtime.
          let etag = (case headers r ''etag'' of None \<Rightarrow> [] | Some v \<Rightarrow> v);
              version = (case first_header (headers r) [''x-amz-version-id'', ''x-oss-version-id''] of
                           None \<Rightarrow> [] | Some v \<Rightarrow> if v = ''null'' then [] else v);
              write_id = (case first_header (headers r)
                            [''x-amz-meta-ngs3fs-write-id'', ''x-oss-meta-ngs3fs-write-id''] of
                            None \<Rightarrow> [] | Some v \<Rightarrow> v)
          in if list_ex (\<lambda>c. c \<in> {CHR '' '', CHR 0x09, CHR 0x0D, CHR 0x0A}) etag
             then Inl (RuntimeError ''S3 HEAD returned an unsafe ETag'')
             else Inr \<lparr>md_size = object_size, md_mtime = mtime, md_last_modified = modified,
                       md_etag = etag, md_version_id = version, md_write_id = write_id\<rparr>))))"

section \<open>What a caller can rely on\<close>

lemma retry_after_bound: "retry_after_delay now r = Some seconds \<Longrightarrow> seconds \<le> 30"
  by (auto simp: retry_after_delay_def split: option.splits sum.splits if_splits)

text \<open>
  The first attempt was cut short: a stop was seen in the handler of its failure, or in the
  handler of the cancellation thrown after its answer, before the flag is set.
\<close>

definition cut_short :: "retry_env \<Rightarrow> bool" where
  "cut_short env \<longleftrightarrow> stop_requested env 2 \<and> (stop_requested env 1 \<or> (\<exists>error. send env 0 = Inl error))"

definition retry_outcome_ok :: "xml_parser \<Rightarrow> retry_env \<Rightarrow> retry_outcome \<Rightarrow> bool" where
  "retry_outcome_ok parse env out \<longleftrightarrow>
     (case r_result out of
        Inr response \<Rightarrow> 1 \<le> r_attempts out \<and> send env (r_attempts out - 1) = Inr response \<and>
          (\<not> retryable_response parse response \<or> r_attempts out = 4) \<and> (r_ambiguous out \<longleftrightarrow> 1 < r_attempts out)
      | Inl error \<Rightarrow>
          error = request_cancelled \<and> (\<exists>k. stop_requested env k) \<and>
            (r_ambiguous out \<longleftrightarrow> 1 < r_attempts out \<or> r_attempts out = 1 \<and> \<not> cut_short env) \<or>
          r_attempts out = 4 \<and> send env 3 = Inl error \<and> r_ambiguous out)"

lemma retry_after_ms: "retry_after_delay now r = Some s \<Longrightarrow> 1000 * s \<le> 30000"
  using retry_after_bound [of now r s] by simp

lemma retry_attempt_leaves:
  assumes "retry_attempt parse env attempt ambiguous slept = Inl out" "ambiguous \<longleftrightarrow> 0 < attempt" "attempt \<le> 3"
    and "0 < attempt \<Longrightarrow> \<not> cut_short env"
  shows "r_attempts out \<le> 4" "r_slept out \<le> slept + (if attempt < 3 then 30000 else 0)" "retry_outcome_ok parse env out"
proof -
  show "r_attempts out \<le> 4"
    using assms(1,3) unfolding retry_attempt_def Let_def by (auto split: sum.splits if_splits)
  show "r_slept out \<le> slept + (if attempt < 3 then 30000 else 0)"
    using assms(1,3) retry_after_ms unfolding retry_attempt_def Let_def
    by (auto split: sum.splits if_splits option.splits)
  show "retry_outcome_ok parse env out"
  proof (cases "attempt = 0")
    case True
    then show ?thesis
      using assms(1,2) unfolding retry_attempt_def Let_def retry_outcome_ok_def cut_short_def
      by (auto simp: numeral_2_eq_2 split: sum.splits if_splits)
  next
    case False
    then have ok: "ambiguous" "\<not> cut_short env" "1 < attempt + 1" using assms(2,4) by simp_all
    then show ?thesis
      using assms(1,3) False unfolding retry_attempt_def Let_def retry_outcome_ok_def
      by (auto split: sum.splits if_splits)
  qed
qed

lemma retry_attempt_proceeds:
  assumes "retry_attempt parse env attempt ambiguous slept = Inr (a, ms)" "attempt \<le> 3"
  shows "a" "attempt < 3" "ms \<le> slept + 30000" "attempt = 0 \<Longrightarrow> \<not> cut_short env"
proof -
  show a: "a" "attempt < 3"
    using assms unfolding retry_attempt_def Let_def by (auto split: sum.splits if_splits)
  have "retry_delay m attempt \<le> 30000" for m
  proof -
    have "(2::nat) ^ attempt \<le> 8" using power_increasing [of attempt 3 "2::nat"] a(2) by simp
    moreover have "m mod 25 < 25" by simp
    ultimately show ?thesis unfolding retry_delay_def by linarith
  qed
  then show "ms \<le> slept + 30000"
    using assms(1) retry_after_ms unfolding retry_attempt_def Let_def
    by (auto split: sum.splits if_splits option.splits)
  show "\<not> cut_short env" if "attempt = 0"
    using assms(1) that unfolding retry_attempt_def Let_def cut_short_def
    by (auto simp: numeral_2_eq_2 split: sum.splits if_splits)
qed

lemma retry_loop_ok:
  assumes "n \<le> 3" "ambiguous \<longleftrightarrow> n < 3" "slept \<le> (3 - n) * 30000" "n < 3 \<Longrightarrow> \<not> cut_short env"
  shows "r_attempts (retry_loop parse env (Suc n) ambiguous slept) \<le> 4 \<and>
    r_slept (retry_loop parse env (Suc n) ambiguous slept) \<le> 90000 \<and>
    retry_outcome_ok parse env (retry_loop parse env (Suc n) ambiguous slept)"
  using assms
proof (induction n arbitrary: ambiguous slept)
  case (Suc n)
  show ?case
  proof (cases "retry_attempt parse env (3 - Suc n) ambiguous slept")
    case (Inl out)
    have "slept + 30000 \<le> 90000" "0 < 3 - Suc n \<Longrightarrow> \<not> cut_short env" "ambiguous \<longleftrightarrow> 0 < 3 - Suc n"
      using Suc.prems by simp_all
    moreover have "3 - Suc n \<le> 3" by simp
    note left = retry_attempt_leaves [OF Inl \<open>ambiguous \<longleftrightarrow> 0 < 3 - Suc n\<close> this]
    ultimately have "r_attempts out \<le> 4" "retry_outcome_ok parse env out"
      "r_slept out \<le> slept + (if 3 - Suc n < 3 then 30000 else 0)" using left by simp_all
    moreover have "3 - Suc n < 3" by simp
    ultimately show ?thesis using \<open>slept + 30000 \<le> 90000\<close> Inl by (simp only: if_True retry_loop.simps sum.case) simp
  next
    case (Inr r)
    obtain a ms where r: "r = (a, ms)" by (cases r)
    note p = retry_attempt_proceeds [OF Inr [unfolded r]]
    have "a" "ms \<le> slept + 30000" "3 - Suc n = 0 \<Longrightarrow> \<not> cut_short env" using p by simp_all
    moreover have "\<not> cut_short env" using p(4) Suc.prems by (cases "n = 2") simp_all
    ultimately show ?thesis using Suc.IH [of a ms] Suc.prems Inr r
      by (simp del: retry_loop.simps(2) add: retry_loop.simps(2) [of _ _ "Suc n"])
  qed
next
  case 0
  show ?case
  proof (cases "retry_attempt parse env 3 ambiguous slept")
    case (Inl out)
    then show ?thesis using retry_attempt_leaves [OF Inl] 0 by simp
  next
    case (Inr r)
    then show ?thesis using retry_attempt_proceeds(2) [of parse env 3 ambiguous slept] by (cases r) auto
  qed
qed

text \<open>
  C21. A request to the service is sent at most four times and waits at most 90 seconds in all,
  whatever the service answers and asks for in \<open>Retry-After\<close>, also when it is cancelled after a
  wait. A response is returned when it is not worth a retry or the attempts are used up, and the
  ambiguity flag is then set exactly when it is not the answer of the first attempt; an error is
  the failure of the fourth attempt, with the flag set, or the cancellation that was requested.
  A cancelled request has the flag set exactly when an attempt was sent, except that the flag
  stays clear when the stop is seen in the handler of the first attempt.
\<close>

theorem retries_are_bounded:
  "let out = request_with_retries parse env
   in r_attempts out \<le> 4 \<and> r_slept out \<le> 90000 \<and>
      (case r_result out of
         Inr response \<Rightarrow> 1 \<le> r_attempts out \<and> send env (r_attempts out - 1) = Inr response \<and>
           (\<not> retryable_response parse response \<or> r_attempts out = 4) \<and> (r_ambiguous out \<longleftrightarrow> 1 < r_attempts out)
       | Inl error \<Rightarrow>
           error = request_cancelled \<and> (\<exists>k. stop_requested env k) \<and>
             (r_ambiguous out \<longleftrightarrow> 1 < r_attempts out \<or> r_attempts out = 1 \<and>
                \<not> (stop_requested env 2 \<and> (stop_requested env 1 \<or> (\<exists>e. send env 0 = Inl e)))) \<or>
           r_attempts out = 4 \<and> send env 3 = Inl error \<and> r_ambiguous out)"
proof -
  have "Suc 3 = 4" by simp
  then show ?thesis
    using retry_loop_ok [of 3 False 0 env parse]
    unfolding request_with_retries_def Let_def retry_outcome_ok_def cut_short_def by (simp only:) simp
qed

definition ex_response :: "int \<Rightarrow> Response" where
  "ex_response s = \<lparr>status = s, headers = (\<lambda>n. if n = ''retry-after'' then Some ''7'' else None), body = []\<rparr>"

text \<open>A service that is unavailable once and then answers.\<close>

definition ex_retry_env :: retry_env where
  "ex_retry_env = \<lparr>send = (\<lambda>n. Inr (ex_response (if n = 0 then 503 else 200))), stop_requested = (\<lambda>k. False),
     wall_clock = (\<lambda>n. None), monotonic_ns = (\<lambda>n. 0)\<rparr>"

theorem retries_are_bounded_witness:
  "let out = request_with_retries (\<lambda>text. Inl []) ex_retry_env
   in r_result out = Inr (ex_response 200) \<and> r_attempts out = 2 \<and> r_ambiguous out \<and>
      send ex_retry_env (r_attempts out - 1) = Inr (ex_response 200) \<and> r_slept out \<le> 90000"
proof -
  let ?out = "request_with_retries (\<lambda>text. Inl []) ex_retry_env"
  have f: "(4::nat) = Suc (Suc (Suc (Suc 0)))" by simp
  have "r_result ?out = Inr (ex_response 200)" "r_attempts ?out = 2"
    unfolding request_with_retries_def f
    by (simp_all add: retry_attempt_def ex_retry_env_def ex_response_def retryable_response_def
        retryable_status_def response_error_def Let_def split: option.split)
  then show ?thesis using retries_are_bounded [of "\<lambda>text. Inl []" ex_retry_env]
    unfolding Let_def by simp
qed

end
