(* ===== verification/Interleave.thy ===== *)
theory Interleave
  imports NG_Prelude
begin

text \<open>
  Threads that share memory: each thread is at a program point, one atomic access at a time takes
  it to the next one, and any thread may move. \<open>nxt i p s\<close> lists what thread \<open>i\<close> at point \<open>p\<close>
  may do to the shared state \<open>s\<close>. The interleaving is sequentially consistent.
\<close>

type_synonym ('p, 's) world = "'p list \<times> 's"

inductive interleaved ::
  "(nat \<Rightarrow> 'p \<Rightarrow> 's \<Rightarrow> ('p \<times> 's) list) \<Rightarrow> (('p, 's) world \<Rightarrow> bool) \<Rightarrow> ('p, 's) world \<Rightarrow> bool"
  for nxt :: "nat \<Rightarrow> 'p \<Rightarrow> 's \<Rightarrow> ('p \<times> 's) list" and start :: "('p, 's) world \<Rightarrow> bool" where
  begin_world: "start w \<Longrightarrow> interleaved nxt start w"
| move_thread: "interleaved nxt start (ths, s) \<Longrightarrow> i < length ths \<Longrightarrow>
    (p', s') \<in> set (nxt i (ths ! i) s) \<Longrightarrow> interleaved nxt start (ths[i := p'], s')"

text \<open>One thread moving, as a function, for concrete runs.\<close>

definition moves :: "(nat \<Rightarrow> 'p \<Rightarrow> 's \<Rightarrow> ('p \<times> 's) list) \<Rightarrow> nat \<times> nat \<Rightarrow> ('p, 's) world \<Rightarrow> ('p, 's) world" where
  "moves nxt c w =
     (let (i, k) = c; (ths, s) = w
      in if i < length ths \<and> k < length (nxt i (ths ! i) s)
         then (ths[i := fst (nxt i (ths ! i) s ! k)], snd (nxt i (ths ! i) s ! k)) else w)"

lemma interleaved_moves: "interleaved nxt start w \<Longrightarrow> interleaved nxt start (moves nxt c w)"
proof (cases c; cases w)
  fix i k ths s
  assume "c = (i, k)" "w = (ths, s)" "interleaved nxt start w"
  then show ?thesis
    using move_thread [of nxt start ths s i "fst (nxt i (ths ! i) s ! k)" "snd (nxt i (ths ! i) s ! k)"]
    by (auto simp: moves_def)
qed

lemma interleaved_run: "interleaved nxt start w \<Longrightarrow> interleaved nxt start (fold (moves nxt) cs w)"
  by (induction cs arbitrary: w) (simp_all add: interleaved_moves)

text \<open>The number of threads at points of a kind.\<close>

definition cnt :: "('p \<Rightarrow> bool) \<Rightarrow> 'p list \<Rightarrow> nat" where
  "cnt P ths = length (filter P ths)"

lemma cnt_le [simp]: "cnt P ths \<le> length ths"
  by (simp add: cnt_def)

lemma cnt_less [simp]: "length ths < n \<Longrightarrow> cnt P ths < n"
  using cnt_le [of P ths] by (rule le_less_trans)

lemma cnt_zero: "cnt P ths = 0 \<longleftrightarrow> (\<forall>p\<in>set ths. \<not> P p)"
  by (simp add: cnt_def filter_empty_conv)

lemma cnt_pos: "0 < cnt P ths \<longleftrightarrow> (\<exists>p\<in>set ths. P p)"
  using cnt_zero [of P ths] by auto

lemma cnt_here: "i < length ths \<Longrightarrow> P (ths ! i) \<Longrightarrow> 0 < cnt P ths"
  unfolding cnt_pos by auto

lemma cnt_update:
  assumes "i < length ths"
  shows "cnt P (ths[i := p]) + (if P (ths ! i) then 1 else 0) = cnt P ths + (if P p then 1 else 0)"
  unfolding cnt_def by (rule length_filter_update [OF assms])

lemma cnt_keep:
  assumes "i < length ths" "P p \<longleftrightarrow> P (ths ! i)"
  shows "cnt P (ths[i := p]) = cnt P ths"
  using cnt_update [OF assms(1), of P p] assms(2) by (simp split: if_splits)

lemma cnt_add:
  assumes "i < length ths" "P p" "\<not> P (ths ! i)"
  shows "cnt P (ths[i := p]) = Suc (cnt P ths)"
  using cnt_update [OF assms(1), of P p] assms(2,3) by simp

lemma cnt_sub:
  assumes "i < length ths" "\<not> P p" "P (ths ! i)"
  shows "cnt P (ths[i := p]) = cnt P ths - 1" "0 < cnt P ths"
  using cnt_update [OF assms(1), of P p] assms(2,3) by simp_all

lemma cnt_all_but:
  assumes "i < length ths" "\<not> P (ths ! i)"
  shows "cnt P ths < length ths"
  using cnt_here [OF assms(1), of "\<lambda>p. \<not> P p"] assms(2) sum_length_filter_compl [of P ths]
  unfolding cnt_def by linarith

locale thread_invariant =
  fixes nxt :: "nat \<Rightarrow> 'p \<Rightarrow> 's \<Rightarrow> ('p \<times> 's) list"
    and start :: "('p, 's) world \<Rightarrow> bool"
    and inv :: "('p, 's) world \<Rightarrow> bool"
  assumes start_inv: "start w \<Longrightarrow> inv w"
    and step_inv: "inv (ths, s) \<Longrightarrow> i < length ths \<Longrightarrow> (p', s') \<in> set (nxt i (ths ! i) s) \<Longrightarrow>
      inv (ths[i := p'], s')"
begin

lemma interleaved_inv: "interleaved nxt start w \<Longrightarrow> inv w"
  by (induction rule: interleaved.induct) (auto intro: start_inv step_inv)

end

end
