(* ===== verification/Fuse_Lock.thy ===== *)
theory Fuse_Lock
  imports Interleave
begin

text \<open>
  \<open>ReactorSharedMutex\<close> (\<^verbatim>\<open>src/src/fuse.cpp\<close>), the reader-writer lock of an open handle's
  identity, one atomic access at a time: blocking \<open>lock\<close> and \<open>lock_shared\<close>, the \<open>try\<close> forms, the
  unlocks, \<open>notify\<close>, and the protocol by which reactor tasks wait for it on an event descriptor
  (\<open>AsyncReadIdentityGate\<close>, and alike the other tasks that lock identities). Whether a thread
  runs on a reactor is a parameter: there \<open>wait\<close> throws EDEADLK instead of blocking. No caller sets
  the \<open>writer\<close> flag of \<open>begin_async_wait\<close> and \<open>end_async_wait\<close>; they are modelled without it.
\<close>

section \<open>The lock\<close>

text \<open>
  The words of the lock; \<open>l_notified\<close> counts the notifications, and \<open>wake_generation_\<close> is that
  count at 32 bits. The event is an \<^verbatim>\<open>EFD_SEMAPHORE\<close> counter.
\<close>

record ReactorSharedMutex =
  l_state :: u32
  l_notified :: nat
  l_waiting_writers :: u32
  l_reactor_waiters :: u32
  l_event :: nat

definition kWriter :: u32 where "kWriter = push_bit 31 1"

definition kReaders :: u32 where "kReaders = kWriter - 1"

definition wake_generation :: "ReactorSharedMutex \<Rightarrow> u32" where
  "wake_generation l = of_nat (l_notified l)"

definition begin_async_wait_lock :: "ReactorSharedMutex \<Rightarrow> ReactorSharedMutex" where
  "begin_async_wait_lock l = l\<lparr>l_reactor_waiters := l_reactor_waiters l + 1\<rparr>"

definition end_async_wait_lock :: "ReactorSharedMutex \<Rightarrow> ReactorSharedMutex" where
  "end_async_wait_lock l = l\<lparr>l_reactor_waiters := l_reactor_waiters l - 1\<rparr>"

section \<open>The threads\<close>

datatype lock_mode = Reader | Writer

text \<open>
  Who tries: a bare \<open>try_lock\<close>, a blocking call that has read generation \<open>g\<close>, the first try of a
  reactor task and its second one, after it has registered as a waiter.
\<close>

datatype lock_call = Bare | Blocking nat | First | Second

text \<open>
  Program points. \<open>Trying\<close> is the exchange of \<open>try_lock\<close>, or the load of the waiting writers in
  \<open>try_lock_shared\<close>; \<open>ReadState\<close> and \<open>Exchange\<close> are the two accesses that follow there. \<open>Won\<close> and
  \<open>Refused\<close> are \<open>lock\<close> after its exchange and after \<open>wait\<close> threw. The three \<open>Notify\<close> points are
  the accesses of \<open>notify\<close>. From \<open>Begin\<close> on, a reactor task: registering, submitting the read of
  the event, sleeping, woken, and deregistering with the lock or after an error.
\<close>

datatype lock_point =
    Idle
  | LoadGeneration lock_mode
  | Trying lock_mode lock_call
  | ReadState lock_call
  | Exchange lock_call u32
  | Won
  | Waiting lock_mode nat
  | Refused
  | Holding lock_mode
  | NotifyBump
  | NotifyLoad
  | NotifyWrite u32
  | Begin lock_mode
  | Submit lock_mode
  | Asleep lock_mode
  | Awake lock_mode
  | EndHold lock_mode
  | EndFail
  | Aborted

fun after_win :: "lock_mode \<Rightarrow> lock_call \<Rightarrow> lock_point" where
  "after_win Writer (Blocking g) = Won"
| "after_win m Second = EndHold m"
| "after_win m c = Holding m"

fun after_fail :: "lock_mode \<Rightarrow> lock_call \<Rightarrow> lock_point" where
  "after_fail m Bare = Idle"
| "after_fail m (Blocking g) = Waiting m g"
| "after_fail m First = Begin m"
| "after_fail m Second = Submit m"

text \<open>The condition of the loop in \<open>try_lock_shared\<close>, on a value of \<open>state_\<close> just read.\<close>

definition examine :: "lock_call \<Rightarrow> u32 \<Rightarrow> lock_point" where
  "examine c s =
     (if s AND kWriter \<noteq> 0 \<or> s AND kReaders = kReaders then after_fail Reader c else Exchange c s)"

text \<open>
  \<open>compare_exchange_weak\<close> may fail although the value matches; \<open>submit\<close> may be refused, and a
  submitted read may fail.
\<close>

fun lock_next :: "bool \<Rightarrow> lock_point \<Rightarrow> ReactorSharedMutex \<Rightarrow> (lock_point \<times> ReactorSharedMutex) list" where
  "lock_next rc Idle l =
     [(LoadGeneration Writer, l\<lparr>l_waiting_writers := l_waiting_writers l + 1\<rparr>),
      (LoadGeneration Reader, l), (Trying Writer Bare, l), (Trying Reader Bare, l),
      (Trying Writer First, l), (Trying Reader First, l)]"
| "lock_next rc (LoadGeneration m) l = [(Trying m (Blocking (l_notified l)), l)]"
| "lock_next rc (Trying Writer c) l =
     (if l_state l = 0 then [(after_win Writer c, l\<lparr>l_state := kWriter\<rparr>)] else [(after_fail Writer c, l)])"
| "lock_next rc (Trying Reader c) l =
     (if l_waiting_writers l \<noteq> 0 then [(after_fail Reader c, l)] else [(ReadState c, l)])"
| "lock_next rc (ReadState c) l = [(examine c (l_state l), l)]"
| "lock_next rc (Exchange c s) l =
     (if l_state l = s then [(after_win Reader c, l\<lparr>l_state := s + 1\<rparr>)] else []) @
     [(examine c (l_state l), l)]"
| "lock_next rc Won l = [(Holding Writer, l\<lparr>l_waiting_writers := l_waiting_writers l - 1\<rparr>)]"
| "lock_next rc (Waiting m g) l =
     (if rc then [(if m = Writer then Refused else Idle, l)]
      else if wake_generation l = of_nat g then [] else [(LoadGeneration m, l)])"
| "lock_next rc Refused l = [(NotifyBump, l\<lparr>l_waiting_writers := l_waiting_writers l - 1\<rparr>)]"
| "lock_next rc (Holding Writer) l = [(NotifyBump, l\<lparr>l_state := 0\<rparr>)]"
| "lock_next rc (Holding Reader) l =
     (let previous = l_state l
      in [(if previous AND kReaders = 0 \<or> previous AND kWriter \<noteq> 0 then Aborted
           else if previous = 1 then NotifyBump else Idle, l\<lparr>l_state := previous - 1\<rparr>)])"
| "lock_next rc NotifyBump l = [(NotifyLoad, l\<lparr>l_notified := l_notified l + 1\<rparr>)]"
| "lock_next rc NotifyLoad l =
     [(if l_reactor_waiters l = 0 then Idle else NotifyWrite (l_reactor_waiters l), l)]"
| "lock_next rc (NotifyWrite n) l = [(Idle, l\<lparr>l_event := l_event l + unat n\<rparr>)]"
| "lock_next rc (Begin m) l = [(Trying m Second, begin_async_wait_lock l)]"
| "lock_next rc (EndHold m) l = [(Holding m, end_async_wait_lock l)]"
| "lock_next rc (Submit m) l = [(Asleep m, l), (EndFail, l)]"
| "lock_next rc (Asleep m) l =
     (if 0 < l_event l then [(Awake m, l\<lparr>l_event := l_event l - 1\<rparr>)] else []) @ [(EndFail, l)]"
| "lock_next rc (Awake m) l = [(Trying m First, end_async_wait_lock l)]"
| "lock_next rc EndFail l = [(Idle, end_async_wait_lock l)]"
| "lock_next rc Aborted l = []"

text \<open>A new lock, and threads that have not used it; fewer than half of what a counter holds.\<close>

definition new_mutex :: ReactorSharedMutex where
  "new_mutex = \<lparr>l_state = 0, l_notified = 0, l_waiting_writers = 0, l_reactor_waiters = 0, l_event = 0\<rparr>"

definition lock_start :: "(lock_point, ReactorSharedMutex) world \<Rightarrow> bool" where
  "lock_start w \<longleftrightarrow> snd w = new_mutex \<and> length (fst w) < 2 ^ 31 \<and> (\<forall>p\<in>set (fst w). p = Idle)"

abbreviation lock_reachable ::
  "(nat \<Rightarrow> bool) \<Rightarrow> (lock_point, ReactorSharedMutex) world \<Rightarrow> bool" where
  "lock_reachable rc \<equiv> interleaved (\<lambda>i. lock_next (rc i)) lock_start"

section \<open>What the words count\<close>

fun holds_writer :: "lock_point \<Rightarrow> bool" where
  "holds_writer Won = True"
| "holds_writer (Holding m) = (m = Writer)"
| "holds_writer (EndHold m) = (m = Writer)"
| "holds_writer _ = False"

fun holds_reader :: "lock_point \<Rightarrow> bool" where
  "holds_reader (Holding m) = (m = Reader)"
| "holds_reader (EndHold m) = (m = Reader)"
| "holds_reader _ = False"

fun blocking_call :: "lock_call \<Rightarrow> bool" where
  "blocking_call (Blocking g) = True"
| "blocking_call _ = False"

fun announced :: "lock_point \<Rightarrow> bool" where
  "announced (LoadGeneration m) = (m = Writer)"
| "announced (Trying m c) = (m = Writer \<and> blocking_call c)"
| "announced (Waiting m g) = (m = Writer)"
| "announced Won = True"
| "announced Refused = True"
| "announced _ = False"

fun registered :: "lock_point \<Rightarrow> bool" where
  "registered (Trying m c) = (c = Second)"
| "registered (ReadState c) = (c = Second)"
| "registered (Exchange c s) = (c = Second)"
| "registered (Submit m) = True"
| "registered (Asleep m) = True"
| "registered (Awake m) = True"
| "registered (EndHold m) = True"
| "registered EndFail = True"
| "registered _ = False"

text \<open>Points that will end in a wake-up of the sleeping tasks, or in a try of a woken one.\<close>

fun stirring :: "lock_point \<Rightarrow> bool" where
  "stirring NotifyBump = True"
| "stirring NotifyLoad = True"
| "stirring (NotifyWrite n) = True"
| "stirring (Awake m) = True"
| "stirring (Trying m c) = (c = First)"
| "stirring (ReadState c) = (c = First)"
| "stirring (Exchange c s) = (c = First)"
| "stirring _ = False"

fun sleeper :: "lock_point \<Rightarrow> bool" where
  "sleeper (Submit m) = True"
| "sleeper (Asleep m) = True"
| "sleeper _ = False"

text \<open>What a thread remembers: the generation a blocking call read, the state an exchange expects.\<close>

fun call_remembers :: "nat \<Rightarrow> lock_call \<Rightarrow> bool" where
  "call_remembers n (Blocking g) = (g \<le> n)"
| "call_remembers n _ = True"

fun remembers :: "nat \<Rightarrow> lock_point \<Rightarrow> bool" where
  "remembers n (Trying m c) = call_remembers n c"
| "remembers n (ReadState c) = call_remembers n c"
| "remembers n (Exchange c s) = (unat s < 2 ^ 31 - 1 \<and> call_remembers n c)"
| "remembers n (Waiting m g) = (g \<le> n)"
| "remembers n (NotifyWrite k) = (k \<noteq> 0)"
| "remembers n p = (p \<noteq> Aborted)"

definition counters_inv :: "(lock_point, ReactorSharedMutex) world \<Rightarrow> bool" where
  "counters_inv w \<longleftrightarrow> (case w of (ths, l) \<Rightarrow>
     length ths < 2 ^ 31 \<and>
     unat (l_state l) = cnt holds_writer ths * 2 ^ 31 + cnt holds_reader ths \<and>
     cnt holds_writer ths \<le> 1 \<and> (cnt holds_writer ths = 1 \<longrightarrow> cnt holds_reader ths = 0) \<and>
     unat (l_waiting_writers l) = cnt announced ths \<and>
     unat (l_reactor_waiters l) = cnt registered ths \<and>
     (\<forall>p\<in>set ths. remembers (l_notified l) p))"

definition wake_inv :: "(lock_point, ReactorSharedMutex) world \<Rightarrow> bool" where
  "wake_inv w \<longleftrightarrow> (case w of (ths, l) \<Rightarrow>
     (Waiting Writer (l_notified l) \<in> set ths \<longrightarrow> l_state l \<noteq> 0 \<or> NotifyBump \<in> set ths) \<and>
     (Waiting Reader (l_notified l) \<in> set ths \<longrightarrow>
        l_state l \<noteq> 0 \<or> l_waiting_writers l \<noteq> 0 \<or> NotifyBump \<in> set ths) \<and>
     (0 < cnt sleeper ths \<longrightarrow>
        l_state l \<noteq> 0 \<or> l_waiting_writers l \<noteq> 0 \<or> 0 < l_event l \<or> 0 < cnt stirring ths))"

lemma kWriter_unat: "unat kWriter = 2 ^ 31"
  by (simp add: kWriter_def)

lemma kReaders_eq: "kReaders = mask 31"
  by (simp add: kReaders_def kWriter_def mask_eq_exp_minus_1)

lemma writer_bit: "s AND kWriter = 0 \<longleftrightarrow> unat s < 2 ^ 31" for s :: u32
proof -
  have k: "kWriter = 2 ^ 31" by (simp add: kWriter_def)
  have "s AND kWriter = 0 \<longleftrightarrow> \<not> bit s 31" unfolding k by (rule and_exp_eq_0_iff_not_bit)
  also have "bit s 31 \<longleftrightarrow> odd (unat s div 2 ^ 31)"
    using bit_unsigned_iff [where 'a = nat, of s 31] by (simp add: bit_iff_odd)
  also have "\<not> \<dots> \<longleftrightarrow> unat s < 2 ^ 31"
  proof (cases "unat s < 2 ^ 31")
    case False
    then have "unat s div 2 ^ 31 = 1" using unsigned_less [where 'a = nat, of s] by (intro div_nat_eqI) auto
    then show ?thesis using False by simp
  qed simp
  finally show ?thesis .
qed

lemma reader_bits: "unat s < 2 ^ 31 \<Longrightarrow> s AND kReaders = s" for s :: u32
proof -
  assume "unat s < 2 ^ 31"
  then have "unat (take_bit 31 s) = unat s" by (simp add: unsigned_take_bit_eq take_bit_nat_eq_self)
  then show ?thesis by (simp add: kReaders_eq take_bit_eq_mask [symmetric] word_unat_eq_iff)
qed

lemma kReaders_unat: "unat kReaders = 2 ^ 31 - 1"
  by (simp add: kReaders_def kWriter_def)

lemma examine_eq: "examine c s = (if unat s < 2 ^ 31 - 1 then Exchange c s else after_fail Reader c)"
proof (cases "unat s < 2 ^ 31")
  case True
  have "s AND kReaders = kReaders \<longleftrightarrow> unat s = 2 ^ 31 - 1"
    unfolding reader_bits [OF True] word_unat_eq_iff kReaders_unat ..
  then show ?thesis using True by (auto simp: examine_def writer_bit)
next
  case False
  then show ?thesis by (auto simp: examine_def writer_bit)
qed

lemma unat_inc: "unat w + 1 < 2 ^ 32 \<Longrightarrow> unat (w + 1) = unat w + 1" for w :: u32
  by (simp add: unat_word_ariths(1))

lemma unat_dec: "0 < unat w \<Longrightarrow> unat (w - 1) = unat w - 1" for w :: u32
  by (rule unat_minus_one) auto

lemma unat_zero: "w = 0 \<longleftrightarrow> unat w = 0" for w :: u32
  by (simp add: unat_eq_0)

section \<open>The counters\<close>

lemma point_classes [simp]:
  "holds_writer (after_win m c) \<longleftrightarrow> m = Writer" "holds_reader (after_win m c) \<longleftrightarrow> m = Reader"
  "announced (after_win m c) \<longleftrightarrow> m = Writer \<and> blocking_call c" "registered (after_win m c) \<longleftrightarrow> c = Second"
  "remembers n (after_win m c)" "\<not> sleeper (after_win m c)"
  "\<not> holds_writer (after_fail m c)" "\<not> holds_reader (after_fail m c)"
  "announced (after_fail m c) \<longleftrightarrow> m = Writer \<and> blocking_call c" "registered (after_fail m c) \<longleftrightarrow> c = Second"
  "remembers n (after_fail m c) \<longleftrightarrow> call_remembers n c"
  "\<not> holds_writer (examine c s)" "\<not> holds_reader (examine c s)"
  "\<not> announced (examine c s)" "registered (examine c s) \<longleftrightarrow> c = Second"
  "remembers n (examine c s) \<longleftrightarrow> call_remembers n c"
  by (cases m; cases c; simp add: examine_eq)+

lemma remembers_mono: "remembers n p \<Longrightarrow> remembers (Suc n) p"
proof -
  have c: "call_remembers n c \<Longrightarrow> call_remembers (Suc n) c" for c by (cases c) auto
  show "remembers n p \<Longrightarrow> remembers (Suc n) p" by (cases p) (auto simp: c)
qed

lemma holding_state:
  assumes "counters_inv (ths, l)" "i < length ths" "holds_reader (ths ! i)"
  shows "0 < unat (l_state l)" "unat (l_state l) < 2 ^ 31" "unat (l_state l) = cnt holds_reader ths"
    "cnt holds_writer ths = 0"
  using assms cnt_here [of i ths holds_reader] cnt_le [of holds_reader ths]
  by (auto simp: counters_inv_def le_Suc_eq)

lemma lock_next_cases:
  "(p', l') \<in> set (lock_next rc p l) \<Longrightarrow>
   l_notified l' = (if p = NotifyBump then Suc (l_notified l) else l_notified l)"
  by (cases "(rc, p, l)" rule: lock_next.cases)
    (auto simp: begin_async_wait_lock_def end_async_wait_lock_def Let_def split: if_splits)

lemma remembers_step:
  assumes inv: "counters_inv (ths, l)" and i: "i < length ths"
    and step: "(p', l') \<in> set (lock_next rc (ths ! i) l)"
  shows "\<forall>p\<in>set (ths[i := p']). remembers (l_notified l') p"
proof -
  have mem: "\<forall>p\<in>set ths. remembers (l_notified l) p" using inv by (simp add: counters_inv_def)
  have here: "remembers (l_notified l) (ths ! i)" using mem i by simp
  have hold: "l_state l AND kReaders \<noteq> 0 \<and> l_state l AND kWriter = 0" if "ths ! i = Holding Reader"
    using holding_state [OF inv i] that unfolding writer_bit by (auto simp: reader_bits)
  have "remembers (l_notified l') p'"
    using step here hold by (cases "(rc, ths ! i, l)" rule: lock_next.cases)
      (auto simp: begin_async_wait_lock_def end_async_wait_lock_def Let_def split: if_splits)
  moreover have "\<forall>p\<in>set ths. remembers (l_notified l') p"
    using mem remembers_mono unfolding lock_next_cases [OF step] by auto
  ultimately show ?thesis using set_update_subset_insert [of ths i p'] by blast
qed

lemma waiters_step:
  assumes inv: "counters_inv (ths, l)" and i: "i < length ths"
    and step: "(p', l') \<in> set (lock_next rc (ths ! i) l)"
  shows "unat (l_waiting_writers l') = cnt announced (ths[i := p'])"
    "unat (l_reactor_waiters l') = cnt registered (ths[i := p'])"
proof -
  have c: "unat (l_waiting_writers l) = cnt announced ths" "unat (l_reactor_waiters l) = cnt registered ths"
    "cnt announced ths < 2 ^ 31" "cnt registered ths < 2 ^ 31"
    using inv by (simp_all add: counters_inv_def)
  note u = cnt_update [OF i, of announced p'] cnt_update [OF i, of registered p']
  show "unat (l_waiting_writers l') = cnt announced (ths[i := p'])"
    using step u(1) c by (cases "(rc, ths ! i, l)" rule: lock_next.cases)
      (auto simp: begin_async_wait_lock_def end_async_wait_lock_def Let_def unat_inc unat_dec split: if_splits)
  show "unat (l_reactor_waiters l') = cnt registered (ths[i := p'])"
    using step u(2) c by (cases "(rc, ths ! i, l)" rule: lock_next.cases)
      (auto simp: begin_async_wait_lock_def end_async_wait_lock_def Let_def unat_inc unat_dec split: if_splits)
qed

lemma state_access:
  assumes "(p', l') \<in> set (lock_next rc p l)"
  obtains (frame) "l_state l' = l_state l" "holds_writer p' = holds_writer p" "holds_reader p' = holds_reader p"
  | (acquire) c where "p = Trying Writer c" "l_state l = 0" "p' = after_win Writer c" "l_state l' = kWriter"
  | (share) c where "p = Exchange c (l_state l)" "p' = after_win Reader c" "l_state l' = l_state l + 1"
  | (unlock) "p = Holding Writer" "p' = NotifyBump" "l_state l' = 0"
  | (unlock_shared) "p = Holding Reader" "l_state l' = l_state l - 1"
      "p' = (if l_state l AND kReaders = 0 \<or> l_state l AND kWriter \<noteq> 0 then Aborted
             else if l_state l = 1 then NotifyBump else Idle)"
  using assms by (cases "(rc, p, l)" rule: lock_next.cases)
    (auto simp: begin_async_wait_lock_def end_async_wait_lock_def Let_def split: if_splits)

lemma state_step:
  assumes inv: "counters_inv (ths, l)" and i: "i < length ths"
    and step: "(p', l') \<in> set (lock_next rc (ths ! i) l)"
  defines "ths' \<equiv> ths[i := p']"
  shows "unat (l_state l') = cnt holds_writer ths' * 2 ^ 31 + cnt holds_reader ths' \<and>
     cnt holds_writer ths' \<le> 1 \<and> (cnt holds_writer ths' = 1 \<longrightarrow> cnt holds_reader ths' = 0)"
proof -
  have st: "unat (l_state l) = cnt holds_writer ths * 2 ^ 31 + cnt holds_reader ths"
    "cnt holds_writer ths \<le> 1" "cnt holds_writer ths = 1 \<longrightarrow> cnt holds_reader ths = 0"
    "remembers (l_notified l) (ths ! i)" "cnt holds_reader ths < 2 ^ 31"
    using inv i by (simp_all add: counters_inv_def)
  note u = cnt_update [OF i, of holds_writer p', folded ths'_def] cnt_update [OF i, of holds_reader p', folded ths'_def]
  from step show ?thesis
  proof (cases rule: state_access)
    case frame
    then show ?thesis using u st(1-3) by simp
  next
    case (acquire c)
    then have "cnt holds_writer ths = 0" "cnt holds_reader ths = 0" using st(1) by auto
    then show ?thesis using u acquire by (simp add: kWriter_unat)
  next
    case (share c)
    then have lt: "unat (l_state l) < 2 ^ 31 - 1" using st(4) by simp
    then have "cnt holds_writer ths = 0" using st(1,2) by (cases "cnt holds_writer ths") auto
    then show ?thesis using u share st(1) lt by (simp add: unat_inc)
  next
    case unlock
    then have "0 < cnt holds_writer ths" using cnt_here [OF i, of holds_writer] by simp
    then have "cnt holds_writer ths = 1" "cnt holds_reader ths = 0" using st(2,3) by auto
    then show ?thesis using u unlock by simp
  next
    case unlock_shared
    have "holds_reader (ths ! i)" using unlock_shared(1) by simp
    note h = holding_state [OF inv i this]
    have "\<not> holds_writer p' \<and> \<not> holds_reader p'" by (simp add: unlock_shared(3))
    then show ?thesis using u h unlock_shared(1,2) by (simp add: unat_dec)
  qed
qed

lemma counters_step:
  assumes "counters_inv (ths, l)" "i < length ths" "(p', l') \<in> set (lock_next rc (ths ! i) l)"
  shows "counters_inv (ths[i := p'], l')"
  using state_step [OF assms] waiters_step [OF assms] remembers_step [OF assms] assms(1)
  by (simp add: counters_inv_def)

section \<open>Wake-ups\<close>

lemma freed_notifies:
  assumes inv: "counters_inv (ths, l)" and i: "i < length ths"
    and step: "(p', l') \<in> set (lock_next rc (ths ! i) l)" and "l_state l \<noteq> 0" "l_state l' = 0"
  shows "p' = NotifyBump"
  using step
proof (cases rule: state_access)
  case acquire
  then show ?thesis using assms(4) by simp
next
  case (share c)
  have "remembers (l_notified l) (ths ! i)" using inv i by (simp add: counters_inv_def)
  then have "unat (l_state l) < 2 ^ 31 - 1" using share(1) by (metis remembers.simps(3))
  then have "unat (l_state l + 1) \<noteq> 0" by (simp add: unat_inc)
  then show ?thesis using share(3) assms(5) by simp
next
  case unlock_shared
  have "remembers (l_notified l') p'"
    using remembers_step [OF inv i step] set_update_memI [OF i] by blast
  then have "p' \<noteq> Aborted" by auto
  moreover have "l_state l = 1" using unlock_shared(2) assms(5) by simp
  ultimately show ?thesis unfolding unlock_shared(3) by (simp split: if_splits)
qed (use assms(4,5) in simp_all)

lemma announce_access:
  assumes "(p', l') \<in> set (lock_next rc p l)"
  obtains (frame) "l_waiting_writers l' = l_waiting_writers l"
  | (announce) "p = Idle" "p' = LoadGeneration Writer" "l_waiting_writers l' = l_waiting_writers l + 1"
  | (won) "p = Won" "p' = Holding Writer" "l_state l' = l_state l"
  | (refused) "p = Refused" "p' = NotifyBump"
  using assms by (cases "(rc, p, l)" rule: lock_next.cases)
    (auto simp: begin_async_wait_lock_def end_async_wait_lock_def Let_def split: if_splits)

lemma unannounced_holds_or_notifies:
  assumes inv: "counters_inv (ths, l)" and i: "i < length ths"
    and step: "(p', l') \<in> set (lock_next rc (ths ! i) l)"
    and "l_waiting_writers l \<noteq> 0" "l_waiting_writers l' = 0"
  shows "l_state l' \<noteq> 0 \<or> p' = NotifyBump"
  using step
proof (cases rule: announce_access)
  case announce
  then have "0 < cnt announced (ths[i := p'])" using i by (intro cnt_here) auto
  then show ?thesis using waiters_step(1) [OF inv i step] assms(5) by simp
next
  case won
  then have "0 < cnt holds_writer ths" using i by (intro cnt_here) auto
  then have "l_state l \<noteq> 0" using inv by (auto simp: counters_inv_def)
  then show ?thesis using won by simp
qed (use assms(4,5) in simp_all)

lemma stirring_ends:
  assumes inv: "counters_inv (ths, l)" and i: "i < length ths"
    and step: "(p', l') \<in> set (lock_next rc (ths ! i) l)"
    and "stirring (ths ! i)" "\<not> stirring p'" "0 < cnt registered ths"
  shows "l_state l' \<noteq> 0 \<or> l_waiting_writers l' \<noteq> 0 \<or> 0 < l_event l'"
proof -
  have "remembers (l_notified l) (ths ! i)" "l_reactor_waiters l \<noteq> 0"
    using inv i assms(6) by (auto simp: counters_inv_def)
  moreover have "unat s < 2147483647 \<Longrightarrow> s + 1 \<noteq> 0" for s :: u32
    using unat_inc [of s] by auto
  moreover have "kWriter \<noteq> 0" using kWriter_unat by auto
  ultimately show ?thesis
    using step assms(4,5) by (cases "(rc, ths ! i, l)" rule: lock_next.cases)
      (auto simp: begin_async_wait_lock_def end_async_wait_lock_def examine_eq unat_gt_0 split: if_splits)
qed

lemma failed_try_is_blocked:
  assumes step: "(p', l') \<in> set (lock_next rc p l)" and "\<not> sleeper p"
  shows "p' = Waiting Writer g \<Longrightarrow> l_state l' \<noteq> 0"
    "p' = Waiting Reader g \<or> sleeper p' \<Longrightarrow> l_state l' \<noteq> 0 \<or> l_waiting_writers l' \<noteq> 0"
proof -
  have ex: "examine c s \<noteq> Waiting Writer g" "examine c 0 = Exchange c 0"
    for c s by (cases c; simp add: examine_eq)+
  have wf: "after_win m c \<noteq> Waiting m' g" "after_fail Reader c \<noteq> Waiting Writer g" for m m' c
    by (cases m; cases c; simp)+
  show "p' = Waiting Writer g \<Longrightarrow> l_state l' \<noteq> 0"
    using step by (cases "(rc, p, l)" rule: lock_next.cases) (auto simp: ex wf ex(1) [symmetric] wf [symmetric] Let_def split: if_splits)
  show "p' = Waiting Reader g \<or> sleeper p' \<Longrightarrow> l_state l' \<noteq> 0 \<or> l_waiting_writers l' \<noteq> 0"
    using step assms(2) by (cases "(rc, p, l)" rule: lock_next.cases)
      (auto simp: ex(2) wf wf [symmetric] Let_def split: if_splits)
qed

lemma registered_sleeper: "sleeper p \<Longrightarrow> registered p"
  by (cases p) auto

lemma wake_step:
  assumes inv: "counters_inv (ths, l)" and wake: "wake_inv (ths, l)" and i: "i < length ths"
    and step: "(p', l') \<in> set (lock_next rc (ths ! i) l)"
  shows "wake_inv (ths[i := p'], l')"
proof -
  let ?ths = "ths[i := p']"
  have old: "x \<in> set ths \<or> x = p'" if "x \<in> set ?ths" for x
    using that set_update_subset_insert [of ths i p'] by auto
  have new: "p' \<in> set ?ths" by (rule set_update_memI [OF i])
  have kept: "x \<in> set ?ths" if "x \<in> set ths" "x \<noteq> ths ! i" for x
    using that by (metis in_set_conv_nth length_list_update nth_list_update_neq)
  have seen: "g \<le> l_notified l" if "Waiting m g \<in> set ths" for m g
    using inv that by (fastforce simp: counters_inv_def)
  note notif = lock_next_cases [OF step]
  note freed = freed_notifies [OF inv i step] unannounced_holds_or_notifies [OF inv i step]
  have sync: "Waiting m (l_notified l) \<in> set ths \<and> ths ! i \<noteq> NotifyBump \<or> p' = Waiting m (l_notified l')"
    if "Waiting m (l_notified l') \<in> set ?ths" for m
    using old [OF that] seen [of m "l_notified l'"] notif by (cases "ths ! i = NotifyBump") auto
  have point: "\<not> sleeper (ths ! i)" if "p' = Waiting m g" for m g
    using step that by (cases "ths ! i") auto
  have a: "l_state l' \<noteq> 0 \<or> NotifyBump \<in> set ?ths" if "Waiting Writer (l_notified l') \<in> set ?ths"
    using sync [OF that]
  proof
    assume "Waiting Writer (l_notified l) \<in> set ths \<and> ths ! i \<noteq> NotifyBump"
    then show ?thesis using wake freed(1) new kept [of NotifyBump] unfolding wake_inv_def by auto
  next
    assume "p' = Waiting Writer (l_notified l')"
    then show ?thesis using failed_try_is_blocked(1) [OF step point] by blast
  qed
  have b: "l_state l' \<noteq> 0 \<or> l_waiting_writers l' \<noteq> 0 \<or> NotifyBump \<in> set ?ths"
    if "Waiting Reader (l_notified l') \<in> set ?ths"
    using sync [OF that]
  proof
    assume "Waiting Reader (l_notified l) \<in> set ths \<and> ths ! i \<noteq> NotifyBump"
    then show ?thesis using wake freed new kept [of NotifyBump] unfolding wake_inv_def by auto
  next
    assume "p' = Waiting Reader (l_notified l')"
    then show ?thesis using failed_try_is_blocked(2) [OF step point] by blast
  qed
  have c: "l_state l' \<noteq> 0 \<or> l_waiting_writers l' \<noteq> 0 \<or> 0 < l_event l' \<or> 0 < cnt stirring ?ths"
    if "0 < cnt sleeper ?ths"
  proof (cases "0 < cnt sleeper ths")
    case True
    then have reg: "0 < cnt registered ths" using registered_sleeper unfolding cnt_pos by blast
    have bump: "0 < cnt stirring ?ths" if "p' = NotifyBump" using new that unfolding cnt_pos by force
    have event: "0 < l_event l' \<or> 0 < cnt stirring ?ths" if "0 < l_event l"
    proof -
      have "0 < l_event l' \<or> stirring p'" using step that
        by (cases "(rc, ths ! i, l)" rule: lock_next.cases)
          (auto simp: begin_async_wait_lock_def end_async_wait_lock_def Let_def split: if_splits)
      then show ?thesis using new unfolding cnt_pos by blast
    qed
    have stir: ?thesis if "0 < cnt stirring ths"
    proof (cases "stirring (ths ! i) \<and> \<not> stirring p'")
      case True
      then show ?thesis using stirring_ends [OF inv i step _ _ reg] by blast
    next
      case False
      then have "0 < cnt stirring ?ths" using cnt_update [OF i, of stirring p'] that by (auto split: if_splits)
      then show ?thesis by simp
    qed
    show ?thesis using wake True freed bump event stir unfolding wake_inv_def by auto
  next
    case False
    then have "\<not> sleeper (ths ! i)" "sleeper p'"
      using that cnt_here [OF i, of sleeper] cnt_update [OF i, of sleeper p'] by (auto split: if_splits)
    then show ?thesis using failed_try_is_blocked(2) [OF step] by blast
  qed
  show ?thesis unfolding wake_inv_def using a b c by simp
qed

interpretation lock_threads: thread_invariant "\<lambda>i. lock_next (rc i)" lock_start "\<lambda>w. counters_inv w \<and> wake_inv w" for rc
proof unfold_locales
  fix w :: "(lock_point, ReactorSharedMutex) world"
  assume w: "lock_start w"
  have none: "cnt P (fst w) = 0" if "\<not> P Idle" for P
    using w that by (auto simp: cnt_zero lock_start_def)
  show "counters_inv w \<and> wake_inv w"
    using w none by (cases w) (auto simp: counters_inv_def wake_inv_def lock_start_def new_mutex_def)
next
  fix ths l i p' l'
  assume "counters_inv (ths, l) \<and> wake_inv (ths, l)" "i < length ths" "(p', l') \<in> set (lock_next (rc i) (ths ! i) l)"
  then show "counters_inv (ths[i := p'], l') \<and> wake_inv (ths[i := p'], l')"
    using counters_step wake_step by blast
qed

text \<open>
  C15. The identity lock is a reader-writer lock under every interleaving of its users, blocking,
  trying and waiting on a reactor: while a writer holds it nobody else does, its word is the
  writer bit or the number of readers, and \<open>unlock_shared\<close> never finds a word it aborts on.
\<close>

theorem identity_lock_excludes:
  assumes "lock_reachable rc (ths, l)"
  shows "(i < length ths \<and> j < length ths \<and> i \<noteq> j \<and> holds_writer (ths ! i) \<longrightarrow>
      \<not> holds_writer (ths ! j) \<and> \<not> holds_reader (ths ! j)) \<and>
    l_state l = (if \<exists>p\<in>set ths. holds_writer p then kWriter else of_nat (cnt holds_reader ths)) \<and>
    Aborted \<notin> set ths"
proof -
  have inv: "counters_inv (ths, l)" using lock_threads.interleaved_inv [OF assms] by simp
  have st: "unat (l_state l) = cnt holds_writer ths * 2 ^ 31 + cnt holds_reader ths"
    "cnt holds_writer ths \<le> 1" "cnt holds_writer ths = 1 \<longrightarrow> cnt holds_reader ths = 0"
    "\<forall>p\<in>set ths. remembers (l_notified l) p"
    using inv by (simp_all add: counters_inv_def)
  have one: "\<not> holds_writer (ths ! j) \<and> \<not> holds_reader (ths ! j)"
    if ij: "i < length ths" "j < length ths" "i \<noteq> j" "holds_writer (ths ! i)"
  proof -
    have "cnt holds_writer (ths[i := Idle]) = 0" "cnt holds_writer ths = 1"
      using cnt_update [OF ij(1), of holds_writer Idle] ij(4) st(2) by simp_all
    then have "\<not> holds_writer (ths[i := Idle] ! j)" "cnt holds_reader ths = 0"
      using ij(2) st(3) by (simp_all add: cnt_zero)
    then show ?thesis using ij by (simp add: cnt_zero)
  qed
  have w: "(\<exists>p\<in>set ths. holds_writer p) \<longleftrightarrow> cnt holds_writer ths = 1"
    using st(2) cnt_pos [of holds_writer ths] by auto
  have "l_state l = (if cnt holds_writer ths = 1 then kWriter else of_nat (cnt holds_reader ths))"
  proof (cases "cnt holds_writer ths = 1")
    case True
    then have "unat (l_state l) = unat kWriter" using st(1,3) by (simp add: kWriter_unat)
    then show ?thesis using True by (simp add: word_unat_eq_iff)
  next
    case False
    then have "unat (l_state l) = cnt holds_reader ths" using st(1,2) by (simp add: le_Suc_eq)
    moreover have "l_state l = of_nat (unat (l_state l))" by simp
    ultimately show ?thesis using False by simp
  qed
  moreover have "Aborted \<notin> set ths" using st(4) by auto
  ultimately show ?thesis using one w by auto
qed

text \<open>A run: one thread locks, another one registers as a reader on a reactor and goes to sleep.\<close>

definition ex_lock_run :: "(lock_point, ReactorSharedMutex) world" where
  "ex_lock_run = fold (moves (\<lambda>i. lock_next False))
     [(0, 0), (0, 0), (0, 0), (0, 0), (1, 5), (1, 0), (1, 0), (1, 0), (1, 0), (1, 0), (1, 0)]
     ([Idle, Idle], new_mutex)"

lemma ex_lock_run_eq:
  "ex_lock_run = ([Holding Writer, Asleep Reader],
     \<lparr>l_state = kWriter, l_notified = 0, l_waiting_writers = 0, l_reactor_waiters = 1, l_event = 0\<rparr>)"
  by (simp add: ex_lock_run_def moves_def new_mutex_def begin_async_wait_lock_def examine_eq kWriter_unat)

lemma ex_lock_run_reachable: "lock_reachable (\<lambda>i. False) ex_lock_run"
  unfolding ex_lock_run_def
  by (intro interleaved_run begin_world) (simp add: lock_start_def)

theorem identity_lock_excludes_witness:
  "holds_writer (fst ex_lock_run ! 0) \<and> \<not> holds_reader (fst ex_lock_run ! 1) \<and> l_state (snd ex_lock_run) = kWriter"
  using identity_lock_excludes [OF ex_lock_run_reachable [unfolded ex_lock_run_eq], of 0 1]
  by (simp add: ex_lock_run_eq)

text \<open>
  A thread that cannot move by itself: it waits for a generation that has not changed, or for an
  event that has no token. A generation is 32 bits wide, so a thread that slept through a
  multiple of \<open>2 ^ 32\<close> notifications would be counted as one that cannot move; \<open>fewer than that\<close>
  is part of the definition.
\<close>

definition lock_blocked :: "bool \<Rightarrow> ReactorSharedMutex \<Rightarrow> lock_point \<Rightarrow> bool" where
  "lock_blocked rc l p \<longleftrightarrow>
     (case p of
        Waiting m g \<Rightarrow> \<not> rc \<and> wake_generation l = of_nat g \<and> l_notified l - g < 2 ^ 32
      | Asleep m \<Rightarrow> l_event l = 0
      | _ \<Rightarrow> False)"

text \<open>
  C16. No wake-up of the identity lock is lost: in no interleaving do its users reach a state
  where every one of them is outside the lock or blocked, and one of them is blocked. A thread
  blocked in \<open>lock\<close> or \<open>lock_shared\<close>, or a reactor task asleep on the event, always has another
  user that holds the lock or is about to take it, to notify or to retry.
\<close>

theorem identity_lock_never_stuck:
  assumes "lock_reachable rc (ths, l)"
    and "\<forall>i<length ths. ths ! i = Idle \<or> lock_blocked (rc i) l (ths ! i)"
  shows "\<forall>i<length ths. ths ! i = Idle"
proof -
  have inv: "counters_inv (ths, l)" and wake: "wake_inv (ths, l)"
    using lock_threads.interleaved_inv [OF assms(1)] by simp_all
  have pt: "p = Idle \<or> (\<exists>m g. p = Waiting m g \<and> of_nat (l_notified l) = (of_nat g :: u32) \<and> l_notified l - g < 2 ^ 32) \<or>
      (\<exists>m. p = Asleep m \<and> l_event l = 0)" if "p \<in> set ths" for p
  proof -
    from that obtain i where "i < length ths" "p = ths ! i" by (auto simp: in_set_conv_nth)
    then have "p = Idle \<or> lock_blocked (rc i) l p" using assms(2) by simp
    then show ?thesis by (cases p) (auto simp: lock_blocked_def wake_generation_def)
  qed
  have gen: "g = l_notified l" if w: "Waiting m g \<in> set ths" for m g
  proof -
    have "g \<le> l_notified l" using inv w by (fastforce simp: counters_inv_def)
    moreover have "of_nat (l_notified l) = (of_nat g :: u32)" "l_notified l - g < 2 ^ 32" using pt [OF w] by auto
    ultimately have "2 ^ 32 dvd l_notified l - g" "l_notified l - g < 2 ^ 32"
      by (simp_all add: mod_eq_dvd_iff_nat [symmetric] word_unat_eq_iff unat_of_nat)
    then have "l_notified l - g = 0" using dvd_imp_le by fastforce
    then show ?thesis using \<open>g \<le> l_notified l\<close> by simp
  qed
  have no: "cnt P ths = 0" if "\<not> P Idle" "\<And>m g. \<not> P (Waiting m g)" "\<And>m. \<not> P (Asleep m)" for P
    using pt that by (force simp: cnt_zero)
  have free: "l_state l = 0" using inv no [of holds_writer] no [of holds_reader]
    by (simp add: counters_inv_def word_unat_eq_iff)
  have quiet: "NotifyBump \<notin> set ths" "cnt stirring ths = 0" using pt no [of stirring] by auto
  have no_writer: "Waiting Writer g \<notin> set ths" for g
    using wake free quiet gen [of Writer g] unfolding wake_inv_def by auto
  have "\<not> announced p" if p: "p \<in> set ths" for p
    using pt [OF p] p no_writer by auto
  then have "cnt announced ths = 0" unfolding cnt_zero by simp
  then have ww: "l_waiting_writers l = 0" using inv by (simp add: counters_inv_def unat_eq_0)
  have "Waiting Reader g \<notin> set ths" for g
    using wake free quiet ww gen [of Reader g] unfolding wake_inv_def by auto
  then have no_wait: "Waiting m g \<notin> set ths" for m g using no_writer by (cases m) auto
  have "Asleep m \<notin> set ths" for m
  proof
    assume m: "Asleep m \<in> set ths"
    then have "0 < cnt sleeper ths" "l_event l = 0" using pt [OF m] unfolding cnt_pos by force+
    then show False using wake free quiet ww unfolding wake_inv_def by auto
  qed
  then show ?thesis using pt no_wait by (metis nth_mem)
qed

text \<open>The writer of the run unlocks and notifies, and the sleeping reader takes the lock and leaves.\<close>

definition ex_lock_done :: "(lock_point, ReactorSharedMutex) world" where
  "ex_lock_done = fold (moves (\<lambda>i. lock_next False))
     [(0, 0), (0, 0), (0, 0), (0, 0), (1, 0), (1, 0), (1, 0), (1, 0), (1, 0), (1, 0), (1, 0), (1, 0)] ex_lock_run"

lemma ex_lock_done_eq:
  "ex_lock_done = ([Idle, Idle],
     \<lparr>l_state = 0, l_notified = 2, l_waiting_writers = 0, l_reactor_waiters = 0, l_event = 0\<rparr>)"
  by (simp add: ex_lock_done_def ex_lock_run_eq moves_def end_async_wait_lock_def examine_eq kReaders_def kWriter_def)

theorem identity_lock_never_stuck_witness:
  "lock_blocked False (snd ex_lock_run) (fst ex_lock_run ! 1) \<and>
   fst ex_lock_done ! 0 = Idle \<and> fst ex_lock_done ! 1 = Idle"
proof -
  have "lock_reachable (\<lambda>i. False) ex_lock_done"
    unfolding ex_lock_done_def by (rule interleaved_run [OF ex_lock_run_reachable])
  then have "\<forall>i<length (fst ex_lock_done). fst ex_lock_done ! i = Idle"
    unfolding ex_lock_done_eq fst_conv
    by (rule identity_lock_never_stuck) (auto simp: less_Suc_eq)
  then show ?thesis by (simp add: ex_lock_done_eq ex_lock_run_eq lock_blocked_def)
qed

end
