(* ===== verification/Fuse_Open.thy ===== *)
theory Fuse_Open
  imports Interleave
begin

text \<open>
  The lifetime of an open handle (\<^verbatim>\<open>src/src/fuse.cpp\<close>): the word \<open>request_state\<close> with its
  published and closing bits over a count of references, \<open>OpenRequestGuard\<close> that admits and
  copies references, \<open>drop_open_request\<close>, \<open>publish_open_handle\<close> and the closing of
  \<open>ngs3fs_release\<close>. Whoever drops the last reference after the close runs \<open>release_ready\<close>, which
  deletes the handle. One atomic access per step.
\<close>

section \<open>The word\<close>

text \<open>\<open>h_retired\<close> counts the calls of \<open>release_ready\<close>; \<open>h_ready\<close> says that it was set.\<close>

record OpenHandle =
  h_request_state :: u64
  h_ready :: bool
  h_retired :: nat

definition kOpenPublished :: u64 where "kOpenPublished = push_bit 62 1"

definition kOpenRequestMask :: u64 where "kOpenRequestMask = kOpenPublished - 1"

definition kClosing :: u64 where "kClosing = push_bit 63 1"

definition publish_open_handle :: "OpenHandle \<Rightarrow> OpenHandle" where
  "publish_open_handle h = h\<lparr>h_request_state := h_request_state h OR kOpenPublished\<rparr>"

definition drop_open_request :: "OpenHandle \<Rightarrow> OpenHandle" where
  "drop_open_request h =
     (let previous = h_request_state h; h' = h\<lparr>h_request_state := previous - 1\<rparr>
      in if previous AND kClosing \<noteq> 0 \<and> previous AND kOpenRequestMask = 1
         then h'\<lparr>h_retired := h_retired h + 1\<rparr> else h')"

definition new_open_handle :: OpenHandle where
  "new_open_handle = \<lparr>h_request_state = 1, h_ready = False, h_retired = 0\<rparr>"

section \<open>The threads\<close>

text \<open>
  The application's side of the handle (opened, published, \<open>release_ready\<close> set, closing, closed), and
  requests with the number of references they and their continuations hold: loading the word
  for a new guard or for a copy, and the exchange that follows. A guard that is refused (EBADF,
  EOVERFLOW) leaves its thread as it was.
\<close>

datatype open_point =
    Opened
  | Published
  | ReadySet
  | Closing
  | Closed
  | Active nat
  | Load nat
  | Admit u64
  | CopyLoad nat
  | CopyExchange nat u64

definition admit_examine :: "u64 \<Rightarrow> open_point" where
  "admit_examine s =
     (if s AND kClosing \<noteq> 0 then Active 0
      else if s AND kOpenRequestMask = kOpenRequestMask then Active 0 else Admit s)"

definition copy_examine :: "nat \<Rightarrow> u64 \<Rightarrow> open_point" where
  "copy_examine n s =
     (if s AND kOpenRequestMask = kOpenRequestMask then Active n else CopyExchange n s)"

fun open_next :: "open_point \<Rightarrow> OpenHandle \<Rightarrow> (open_point \<times> OpenHandle) list" where
  "open_next Opened h = [(Published, publish_open_handle h)]"
| "open_next Published h = [(ReadySet, h\<lparr>h_ready := True\<rparr>)]"
| "open_next ReadySet h = [(Closing, h\<lparr>h_request_state := h_request_state h OR kClosing\<rparr>)]"
| "open_next Closing h = [(Closed, drop_open_request h)]"
| "open_next Closed h = []"
| "open_next (Active n) h =
     (if n = 0 then [(Load 0, h)] else [(CopyLoad n, h), (Active (n - 1), drop_open_request h)])"
| "open_next (Load n) h = [(admit_examine (h_request_state h), h)]"
| "open_next (Admit s) h =
     (if h_request_state h = s then [(Active 1, h\<lparr>h_request_state := s + 1\<rparr>)] else []) @
     [(admit_examine (h_request_state h), h)]"
| "open_next (CopyLoad n) h = [(copy_examine n (h_request_state h), h)]"
| "open_next (CopyExchange n s) h =
     (if h_request_state h = s then [(Active (n + 1), h\<lparr>h_request_state := s + 1\<rparr>)] else []) @
     [(copy_examine n (h_request_state h), h)]"

definition open_start :: "(open_point, OpenHandle) world \<Rightarrow> bool" where
  "open_start w \<longleftrightarrow> snd w = new_open_handle \<and> (\<exists>n. fst w = Opened # replicate n (Active 0))"

abbreviation open_reachable :: "(open_point, OpenHandle) world \<Rightarrow> bool" where
  "open_reachable \<equiv> interleaved (\<lambda>i. open_next) open_start"

section \<open>What the word counts\<close>

fun refs :: "open_point \<Rightarrow> nat" where
  "refs Closed = 0"
| "refs (Active n) = n"
| "refs (Load n) = 0"
| "refs (Admit s) = 0"
| "refs (CopyLoad n) = n"
| "refs (CopyExchange n s) = n"
| "refs _ = 1"

fun application :: "open_point \<Rightarrow> bool" where
  "application Opened = True"
| "application Published = True"
| "application ReadySet = True"
| "application Closing = True"
| "application Closed = True"
| "application _ = False"

fun point_ok :: "open_point \<Rightarrow> bool" where
  "point_ok (Admit s) = (unat s < 2 ^ 63 \<and> unat s mod 2 ^ 62 < 2 ^ 62 - 1)"
| "point_ok (CopyExchange n s) = (0 < n \<and> unat s mod 2 ^ 62 < 2 ^ 62 - 1)"
| "point_ok (CopyLoad n) = (0 < n)"
| "point_ok _ = True"

definition total_refs :: "open_point list \<Rightarrow> nat" where
  "total_refs ths = sum_list (map refs ths)"

definition published :: "open_point \<Rightarrow> bool" where
  "published p \<longleftrightarrow> p \<noteq> Opened"

definition closing :: "open_point \<Rightarrow> bool" where
  "closing p \<longleftrightarrow> p = Closing \<or> p = Closed"

definition open_inv :: "(open_point, OpenHandle) world \<Rightarrow> bool" where
  "open_inv w \<longleftrightarrow> (case w of (ths, h) \<Rightarrow>
     ths \<noteq> [] \<and> application (ths ! 0) \<and> (\<forall>i<length ths. 0 < i \<longrightarrow> \<not> application (ths ! i)) \<and>
     (\<forall>p\<in>set ths. point_ok p) \<and> total_refs ths < 2 ^ 62 \<and>
     unat (h_request_state h) = total_refs ths + (if published (ths ! 0) then 2 ^ 62 else 0) +
       (if closing (ths ! 0) then 2 ^ 63 else 0) \<and>
     h_retired h = (if ths ! 0 = Closed \<and> total_refs ths = 0 then 1 else 0) \<and>
     (closing (ths ! 0) \<or> ths ! 0 = ReadySet \<longrightarrow> h_ready h))"

lemma total_update:
  assumes "i < length ths"
  shows "total_refs (ths[i := p]) + refs (ths ! i) = total_refs ths + refs p"
  using sum_list_update_nat [of i "map refs ths" "refs p"] assms
  by (simp add: total_refs_def map_update)

lemma unat_closing: "s AND kClosing = 0 \<longleftrightarrow> unat s < 2 ^ 63" for s :: u64
proof -
  have k: "kClosing = 2 ^ 63" by (simp add: kClosing_def)
  have "s AND kClosing = 0 \<longleftrightarrow> \<not> bit s 63" unfolding k by (rule and_exp_eq_0_iff_not_bit)
  also have "bit s 63 \<longleftrightarrow> odd (unat s div 2 ^ 63)"
    using bit_unsigned_iff [where 'a = nat, of s 63] by (simp add: bit_iff_odd)
  also have "\<not> \<dots> \<longleftrightarrow> unat s < 2 ^ 63"
  proof (cases "unat s < 2 ^ 63")
    case False
    then have "unat s div 2 ^ 63 = 1" using unsigned_less [where 'a = nat, of s] by (intro div_nat_eqI) auto
    then show ?thesis using False by simp
  qed simp
  finally show ?thesis .
qed

lemma unat_request_mask: "unat (s AND kOpenRequestMask) = unat s mod 2 ^ 62" for s :: u64
proof -
  have "kOpenRequestMask = mask 62"
    by (simp add: kOpenRequestMask_def kOpenPublished_def mask_eq_exp_minus_1)
  then have "s AND kOpenRequestMask = take_bit 62 s" by (simp only: take_bit_eq_mask)
  then show ?thesis by (simp add: unsigned_take_bit_eq take_bit_nat_def)
qed

lemma unat_or_bit:
  fixes s :: u64
  assumes "\<not> bit s n" "n < 64"
  shows "unat (s OR push_bit n 1) = unat s + 2 ^ n"
proof -
  have or: "unat (s OR push_bit n 1) = unat s OR push_bit n 1"
    using assms(2) by (simp only: unsigned_or_eq unsigned_push_bit_eq) (simp add: take_bit_nat_eq_self)
  have "unat s AND push_bit n 1 = 0"
    using assms by (intro bit_eqI) (auto simp: bit_and_iff bit_push_bit_iff bit_1_iff bit_unsigned_iff bit_exp_iff)
  then have "unat s OR push_bit n 1 = unat s + push_bit n 1" by (simp only: disjunctive_add_eq_or)
  then show ?thesis unfolding or by (simp add: push_bit_eq_mult)
qed

text \<open>The word of a handle: a count below the two flags.\<close>

definition word_holds :: "u64 \<Rightarrow> nat \<Rightarrow> bool \<Rightarrow> bool \<Rightarrow> bool" where
  "word_holds s t pub clo \<longleftrightarrow>
     t < 2 ^ 62 \<and> unat s = t + (if pub then 2 ^ 62 else 0) + (if clo then 2 ^ 63 else 0)"

lemma word_holds_read:
  assumes "word_holds s t pub clo"
  shows "s AND kClosing = 0 \<longleftrightarrow> \<not> clo" "unat s mod 2 ^ 62 = t" "unat (s AND kOpenRequestMask) = t"
    "s AND kOpenRequestMask = kOpenRequestMask \<longleftrightarrow> t = 2 ^ 62 - 1" "s AND kOpenRequestMask = 1 \<longleftrightarrow> t = 1"
proof -
  note w = assms [unfolded word_holds_def]
  show "s AND kClosing = 0 \<longleftrightarrow> \<not> clo" unfolding unat_closing using w by auto
  have "unat s = t + (of_bool pub + 2 * of_bool clo) * 2 ^ 62" using w by (cases pub; cases clo; simp)
  then show m: "unat s mod 2 ^ 62 = t" using w by (simp only: mod_mult_self1) simp
  then show u: "unat (s AND kOpenRequestMask) = t" unfolding unat_request_mask .
  have "unat kOpenRequestMask = 2 ^ 62 - 1" by (simp add: kOpenRequestMask_def kOpenPublished_def)
  then show "s AND kOpenRequestMask = kOpenRequestMask \<longleftrightarrow> t = 2 ^ 62 - 1"
    unfolding word_unat_eq_iff u by simp
  show "s AND kOpenRequestMask = 1 \<longleftrightarrow> t = 1" unfolding word_unat_eq_iff u by simp
qed

lemma word_holds_write:
  assumes "word_holds s t pub clo"
  shows "\<not> pub \<Longrightarrow> \<not> clo \<Longrightarrow> word_holds (s OR kOpenPublished) t True clo"
    "\<not> clo \<Longrightarrow> word_holds (s OR kClosing) t pub True"
    "0 < t \<Longrightarrow> word_holds (s - 1) (t - 1) pub clo"
    "t < 2 ^ 62 - 1 \<Longrightarrow> word_holds (s + 1) (t + 1) pub clo"
proof -
  note w = assms [unfolded word_holds_def]
  have b: "bit s n \<longleftrightarrow> odd (unat s div 2 ^ n)" if "n < 64" for n
    using bit_unsigned_iff [where 'a = nat, of s n] that by (simp add: bit_iff_odd)
  show "word_holds (s OR kOpenPublished) t True clo" if "\<not> pub" "\<not> clo"
    using that w unat_or_bit [of s 62] b [of 62] by (simp add: word_holds_def kOpenPublished_def)
  show "word_holds (s OR kClosing) t pub True" if "\<not> clo"
  proof -
    have "unat s div 2 ^ 63 = 0" using that w by simp
    then have "\<not> bit s 63" using b [of 63] by simp
    then show ?thesis using that w unat_or_bit [of s 63] by (simp add: word_holds_def kClosing_def)
  qed
  show "word_holds (s - 1) (t - 1) pub clo" if "0 < t"
  proof -
    have "s \<noteq> 0" using w that by auto
    then show ?thesis using w that by (auto simp: word_holds_def unat_minus_one)
  qed
  show "word_holds (s + 1) (t + 1) pub clo" if "t < 2 ^ 62 - 1"
  proof -
    have "unat s + 1 < 2 ^ 64" using w that by (simp split: if_splits)
    then have "unat (s + 1) = unat s + 1" by (simp add: unat_word_ariths(1))
    then show ?thesis using w that by (simp add: word_holds_def)
  qed
qed

lemma drop_holds:
  assumes "word_holds (h_request_state h) t pub clo" "0 < t"
  shows "word_holds (h_request_state (drop_open_request h)) (t - 1) pub clo"
    "h_retired (drop_open_request h) = h_retired h + (if clo \<and> t = 1 then 1 else 0)"
    "h_ready (drop_open_request h) = h_ready h"
  using word_holds_write(3) [OF assms] word_holds_read(1,5) [OF assms(1)]
  by (auto simp: drop_open_request_def Let_def)

lemma open_inv_iff:
  "open_inv (ths, h) \<longleftrightarrow> ths \<noteq> [] \<and> application (ths ! 0) \<and> (\<forall>i<length ths. 0 < i \<longrightarrow> \<not> application (ths ! i)) \<and>
     (\<forall>p\<in>set ths. point_ok p) \<and>
     word_holds (h_request_state h) (total_refs ths) (published (ths ! 0)) (closing (ths ! 0)) \<and>
     h_retired h = (if ths ! 0 = Closed \<and> total_refs ths = 0 then 1 else 0) \<and>
     (closing (ths ! 0) \<or> ths ! 0 = ReadySet \<longrightarrow> h_ready h)"
  unfolding open_inv_def word_holds_def prod.case by blast

text \<open>The steps of a request, sorted by what they do to the word.\<close>

lemma request_step:
  assumes "(p', h') \<in> set (open_next p h)" "\<not> application p" "point_ok p"
    and "word_holds (h_request_state h) t pub clo" "refs p \<le> t"
  shows "\<not> application p' \<and> point_ok p' \<and>
    (refs p' = refs p \<and> h' = h \<or>
     refs p' = refs p + 1 \<and> t < 2 ^ 62 - 1 \<and> (clo \<longrightarrow> 0 < refs p) \<and>
       h' = h\<lparr>h_request_state := h_request_state h + 1\<rparr> \<or>
     0 < refs p \<and> refs p' = refs p - 1 \<and> h' = drop_open_request h)"
proof -
  note r = word_holds_read [OF assms(4)]
  have ad: "admit_examine (h_request_state h) = (if clo \<or> t = 2 ^ 62 - 1 then Active 0 else Admit (h_request_state h))"
    unfolding admit_examine_def r(4) using r(1) by simp
  have co: "copy_examine n (h_request_state h) = (if t = 2 ^ 62 - 1 then Active n else CopyExchange n (h_request_state h))" for n
    unfolding copy_examine_def r(4) by simp
  have lt: "unat (h_request_state h) < 2 ^ 63 \<longleftrightarrow> \<not> clo" using r(1) unfolding unat_closing by simp
  have le: "t \<noteq> 2 ^ 62 - 1 \<Longrightarrow> t < 2 ^ 62 - 1" using assms(4) by (simp add: word_holds_def)
  define m :: nat where "m = 2 ^ 62 - 1"
  have okA: "point_ok (Admit s) \<longleftrightarrow> unat s < 2 ^ 63 \<and> unat s mod 2 ^ 62 < m"
    and okC: "point_ok (CopyExchange n s) \<longleftrightarrow> 0 < n \<and> unat s mod 2 ^ 62 < m" for s n
    by (simp_all add: m_def)
  show ?thesis unfolding m_def [symmetric]
    using assms(1-3) le [folded m_def]
    by (cases p) (auto simp: ad [folded m_def] co [folded m_def] okA okC r(2) lt
        simp del: power_numeral point_ok.simps(1,2) split: if_splits)
qed

lemma refs_le_total: "i < length ths \<Longrightarrow> refs (ths ! i) \<le> total_refs ths"
  using total_update [of i ths Closed] by simp

lemma request_keeps:
  assumes inv: "open_inv (ths, h)" and i: "i < length ths" "0 < i"
    and step: "(p', h') \<in> set (open_next (ths ! i) h)"
  shows "open_inv (ths[i := p'], h')"
proof -
  note v = inv [unfolded open_inv_iff]
  let ?t = "total_refs ths" and ?t' = "total_refs (ths[i := p'])"
  have app: "\<not> application (ths ! i)" "point_ok (ths ! i)" using v i by auto
  have w: "word_holds (h_request_state h) ?t (published (ths ! 0)) (closing (ths ! 0))" using v by blast
  have le: "refs (ths ! i) \<le> ?t" by (rule refs_le_total [OF i(1)])
  note st = request_step [OF step app w le]
  note up = total_update [OF i(1), of p']
  have same: "(ths[i := p']) ! 0 = ths ! 0" using i by simp
  have np: "\<not> application p'" "point_ok p'" using st by blast+
  have "\<not> application (ths[i := p'] ! j)" if "j < length ths" "0 < j" for j
    using v np(1) that by (cases "j = i") simp_all
  then have pts: "ths[i := p'] \<noteq> []" "application (ths ! 0)"
    "\<forall>j<length (ths[i := p']). 0 < j \<longrightarrow> \<not> application (ths[i := p'] ! j)"
    using v by simp_all
  have ok: "\<forall>p\<in>set (ths[i := p']). point_ok p"
    using v np(2) set_update_subset_insert [of ths i p'] by blast
  from st consider (frame) "?t' = ?t" "h' = h"
    | (add) "?t' = ?t + 1" "?t < 2 ^ 62 - 1" "closing (ths ! 0) \<longrightarrow> 0 < ?t"
        "h' = h\<lparr>h_request_state := h_request_state h + 1\<rparr>"
    | (sub) "0 < ?t" "?t' = ?t - 1" "h' = drop_open_request h"
    using up le by fastforce
  then show ?thesis
  proof cases
    case frame
    then show ?thesis unfolding open_inv_iff same using v pts ok by simp
  next
    case add
    have "word_holds (h_request_state h') ?t' (published (ths ! 0)) (closing (ths ! 0))"
      using word_holds_write(4) [OF w add(2)] add(1,4) by simp
    moreover have "h_retired h' = (if ths ! 0 = Closed \<and> ?t' = 0 then 1 else 0)"
      using v add by (auto simp: closing_def)
    ultimately show ?thesis unfolding open_inv_iff same using v pts ok add(4) by simp
  next
    case sub
    note d = drop_holds [OF w sub(1), folded sub(3)]
    have c: "ths ! 0 = Closing \<Longrightarrow> ?t \<noteq> 1 \<or> refs (ths ! i) = 0"
      using total_update [of 0 "ths[i := Closed]" Closed] total_update [OF i(1), of Closed] i pts(1) by auto
    have "0 < refs (ths ! i)" using up sub by (simp split: if_splits)
    then have "h_retired h' = (if ths ! 0 = Closed \<and> ?t' = 0 then 1 else 0)"
      unfolding d(2) sub(2) using v sub(1) c by (auto simp: closing_def)
    then show ?thesis unfolding open_inv_iff same using v pts ok d sub(2) by simp
  qed
qed

lemma application_keeps:
  assumes inv: "open_inv (ths, h)" and step: "(p', h') \<in> set (open_next (ths ! 0) h)"
  shows "open_inv (ths[0 := p'], h')"
proof -
  note v = inv [unfolded open_inv_iff]
  let ?t = "total_refs ths" and ?t' = "total_refs (ths[0 := p'])"
  have ne: "0 < length ths" and app: "application (ths ! 0)" using v by auto
  have w: "word_holds (h_request_state h) ?t (published (ths ! 0)) (closing (ths ! 0))" using v by blast
  note up = total_update [OF ne, of p']
  note wr = word_holds_write [OF w]
  have le: "refs (ths ! 0) \<le> ?t" by (rule refs_le_total [OF ne])
  have p': "application p' \<and> point_ok p'" using step app by (cases "ths ! 0") auto
  have pts: "ths[0 := p'] \<noteq> []" "application (ths[0 := p'] ! 0)"
    "\<forall>j<length (ths[0 := p']). 0 < j \<longrightarrow> \<not> application (ths[0 := p'] ! j)"
    using v p' ne by simp_all
  have ok: "\<forall>p\<in>set (ths[0 := p']). point_ok p"
    using v p' set_update_subset_insert [of ths 0 p'] by blast
  have "word_holds (h_request_state h') ?t' (published p') (closing p') \<and>
    h_retired h' = (if p' = Closed \<and> ?t' = 0 then 1 else 0) \<and> (closing p' \<or> p' = ReadySet \<longrightarrow> h_ready h')"
  proof (cases "ths ! 0")
    case Closing
    then have "h' = drop_open_request h" "p' = Closed" "?t' = ?t - 1" "0 < ?t" using step up le by auto
    then show ?thesis using drop_holds [OF w, of] v Closing w by (auto simp: published_def closing_def)
  qed (use step up le v wr w app in \<open>auto simp: published_def closing_def publish_open_handle_def\<close>)
  then show ?thesis unfolding open_inv_iff using pts ok ne by simp
qed

interpretation handle_threads: thread_invariant "\<lambda>i. open_next" open_start open_inv
proof unfold_locales
  fix w :: "(open_point, OpenHandle) world"
  assume "open_start w"
  then obtain n where w: "w = (Opened # replicate n (Active 0), new_open_handle)"
    by (cases w) (auto simp: open_start_def)
  have "total_refs (Opened # replicate n (Active 0)) = 1"
    by (simp add: total_refs_def sum_list_replicate)
  then show "open_inv w"
    by (auto simp: w open_inv_iff word_holds_def new_open_handle_def published_def closing_def nth_Cons' split: if_splits)
next
  fix ths h i p' h'
  assume "open_inv (ths, h)" "i < length ths" "(p', h') \<in> set (open_next (ths ! i) h)"
  then show "open_inv (ths[i := p'], h')"
    using request_keeps application_keeps by (cases "i = 0") auto
qed

text \<open>
  C17. An open handle is retired exactly once and never under a user: under every interleaving of
  requests, their continuations and the close, \<open>release_ready\<close> has been called at most once, it
  has been called exactly when the application has closed the handle and no reference is left
  (so a handle is not leaked either), it was set before, and from then on no thread can get a
  reference.
\<close>

theorem open_handle_retires_exactly_once:
  assumes "open_reachable (ths, h)"
  shows "h_retired h = (if ths ! 0 = Closed \<and> (\<forall>p\<in>set ths. refs p = 0) then 1 else 0) \<and>
    (h_retired h = 1 \<longrightarrow> h_ready h \<and>
      (\<forall>i p' h'. i < length ths \<and> (p', h') \<in> set (open_next (ths ! i) h) \<longrightarrow> refs p' = 0 \<and> h_retired h' = 1))"
proof -
  have inv: "open_inv (ths, h)" by (rule handle_threads.interleaved_inv [OF assms])
  note v = inv [unfolded open_inv_iff]
  have zero: "total_refs ths = 0 \<longleftrightarrow> (\<forall>p\<in>set ths. refs p = 0)" by (simp add: total_refs_def)
  have v1: "h_retired h = (if ths ! 0 = Closed \<and> total_refs ths = 0 then 1 else 0)" using v by blast
  have gone: "ths ! 0 = Closed" "total_refs ths = 0" if "h_retired h = 1"
    using that v1 by (metis zero_neq_one)+
  have later: "refs p' = 0 \<and> h_retired h' = 1"
    if "h_retired h = 1" "i < length ths" "(p', h') \<in> set (open_next (ths ! i) h)" for i p' h'
  proof -
    note c = gone [OF that(1)]
    have i: "0 < i" using that(3) c(1) by (cases i) auto
    have w: "word_holds (h_request_state h) 0 (published (ths ! 0)) True" using v c by (simp add: closing_def)
    have "\<not> application (ths ! i)" "point_ok (ths ! i)" "refs (ths ! i) = 0" using v i that(2) c(2) zero by auto
    from request_step [OF that(3) this(1,2) w] this(3) show ?thesis using that(1) by auto
  qed
  have ret: "h_retired h = (if ths ! 0 = Closed \<and> (\<forall>p\<in>set ths. refs p = 0) then 1 else 0)"
    using v unfolding zero by blast
  have "h_ready h" if "h_retired h = 1"
  proof -
    have "closing (ths ! 0)" using gone(1) [OF that] by (simp add: closing_def)
    then show ?thesis using v by blast
  qed
  then show ?thesis using ret later by blast
qed

text \<open>A request is admitted, the application closes, and the request drops the last reference.\<close>

definition ex_open_run :: "(open_point, OpenHandle) world" where
  "ex_open_run = fold (moves (\<lambda>i. open_next))
     [(0, 0), (1, 0), (1, 0), (1, 0), (0, 0), (0, 0), (0, 0), (1, 1)] ([Opened, Active 0], new_open_handle)"

theorem open_handle_retires_exactly_once_witness:
  "\<exists>ths h. ex_open_run = (ths, h) \<and> ths ! 0 = Closed \<and> (\<forall>p\<in>set ths. refs p = 0) \<and> h_retired h = 1 \<and> h_ready h"
proof -
  have "open_start ([Opened, Active 0], new_open_handle)"
    by (auto simp: open_start_def intro!: exI [of _ 1])
  then have reach: "open_reachable ex_open_run" unfolding ex_open_run_def by (intro interleaved_run begin_world)
  have pts: "fst ex_open_run = [Closed, Active 0]"
    by (simp add: ex_open_run_def moves_def new_open_handle_def publish_open_handle_def admit_examine_def
        drop_open_request_def kOpenPublished_def kOpenRequestMask_def kClosing_def Let_def)
  obtain ths h where w: "ex_open_run = (ths, h)" by (cases ex_open_run)
  then have ths: "ths = [Closed, Active 0]" using pts by (metis fst_conv)
  note once = open_handle_retires_exactly_once [OF reach [unfolded w]]
  have one: "h_retired h = 1" unfolding once [THEN conjunct1] by (simp add: ths)
  then have "h_ready h" using once [THEN conjunct2] by blast
  then show ?thesis using w one ths by (intro exI [of _ ths] exI [of _ h]) simp
qed

end
