(* ===== verification/Fuse_Upload.thy ===== *)
theory Fuse_Upload
  imports NG_Prelude "HOL-Library.Multiset"
begin

text \<open>
  \<open>UploadScheduler\<close> (\<^verbatim>\<open>src/src/fuse.cpp\<close>): the queue of the upload workers, the queue of reactor
  tasks that wait for an upload slot, and the slots themselves. Every operation runs under the
  scheduler's mutex and is one step; what a job's closure does is left out, a job is known by a
  number. A slot of an asynchronous upload is given back by its completion, not by its worker.
\<close>

definition ECANCELED :: nat where "ECANCELED = 125"

record Job =
  j_owner :: nat
  j_upload :: bool
  j_asynchronous :: bool
  j_run :: nat

text \<open>\<open>u_owner_jobs\<close> are the numbers of the waiting reactor tasks.\<close>

record UploadScheduler =
  u_threads :: nat
  u_jobs :: "Job list"
  u_owner_jobs :: "nat list"
  u_max_uploads :: nat
  u_active_uploads :: nat
  u_last_owner :: "nat option"
  u_stopping :: bool

definition UploadScheduler_new :: "nat \<Rightarrow> UploadScheduler" where
  "UploadScheduler_new concurrency =
     \<lparr>u_threads = 0, u_jobs = [], u_owner_jobs = [], u_max_uploads = concurrency,
      u_active_uploads = 0, u_last_owner = None, u_stopping = False\<rparr>"

definition start_workers_locked :: "UploadScheduler \<Rightarrow> UploadScheduler" where
  "start_workers_locked s = s\<lparr>u_threads := max (u_threads s) (u_max_uploads s)\<rparr>"

text \<open>\<open>submit\<close> and \<open>submit_upload\<close>, which differ in the flags of the job.\<close>

definition submit_job :: "Job \<Rightarrow> UploadScheduler \<Rightarrow> UploadScheduler result" where
  "submit_job job s =
     (if u_stopping s then Inl (SystemError ECANCELED ''upload scheduler stopped'')
      else let s' = start_workers_locked s in Inr (s'\<lparr>u_jobs := u_jobs s' @ [job]\<rparr>))"

definition submit :: "nat \<Rightarrow> nat \<Rightarrow> UploadScheduler \<Rightarrow> UploadScheduler result" where
  "submit owner run s =
     submit_job \<lparr>j_owner = owner, j_upload = False, j_asynchronous = False, j_run = run\<rparr> s"

definition submit_upload :: "nat \<Rightarrow> nat \<Rightarrow> bool \<Rightarrow> UploadScheduler \<Rightarrow> UploadScheduler result" where
  "submit_upload owner run asynchronous s =
     submit_job \<lparr>j_owner = owner, j_upload = True, j_asynchronous = asynchronous, j_run = run\<rparr> s"

text \<open>Whether the task is activated at once.\<close>

definition submit_owner_upload :: "nat \<Rightarrow> UploadScheduler \<Rightarrow> (bool \<times> UploadScheduler) result" where
  "submit_owner_upload run s =
     (if u_stopping s then Inl (SystemError ECANCELED ''upload scheduler stopped'')
      else if u_active_uploads s < u_max_uploads s
      then Inr (True, s\<lparr>u_active_uploads := u_active_uploads s + 1\<rparr>)
      else Inr (False, s\<lparr>u_owner_jobs := u_owner_jobs s @ [run]\<rparr>))"

text \<open>The task that is activated with the slot, if any; \<open>None\<close> is \<open>abort\<close>.\<close>

definition finish_upload :: "UploadScheduler \<Rightarrow> (nat option \<times> UploadScheduler) option" where
  "finish_upload s =
     (if u_active_uploads s = 0 then None
      else let s' = s\<lparr>u_active_uploads := u_active_uploads s - 1\<rparr>
           in case u_owner_jobs s' of
                [] \<Rightarrow> Some (None, s')
              | run # rest \<Rightarrow>
                  if u_stopping s' then Some (None, s')
                  else Some (Some run, s'\<lparr>u_owner_jobs := rest, u_active_uploads := u_active_uploads s' + 1\<rparr>))"

text \<open>The tasks whose continuations are completed without a slot.\<close>

definition shutdown_uploads :: "UploadScheduler \<Rightarrow> nat list \<times> UploadScheduler" where
  "shutdown_uploads s =
     (if u_stopping s then ([], s) else (u_owner_jobs s, s\<lparr>u_stopping := True, u_owner_jobs := []\<rparr>))"

section \<open>A worker\<close>

definition eligible :: "UploadScheduler \<Rightarrow> Job \<Rightarrow> bool" where
  "eligible s candidate \<longleftrightarrow> \<not> j_upload candidate \<or> u_active_uploads s < u_max_uploads s"

definition select_job :: "UploadScheduler \<Rightarrow> nat option" where
  "select_job s =
     (let selected = find_index (eligible s) (u_jobs s)
      in case u_last_owner s of
           None \<Rightarrow> selected
         | Some last_owner \<Rightarrow>
             (case find_index (\<lambda>c. j_owner c \<noteq> last_owner \<and> eligible s c) (u_jobs s) of
                Some different \<Rightarrow> Some different
              | None \<Rightarrow> selected))"

datatype worker_turn = WorkerWaits | WorkerExits | WorkerRuns Job UploadScheduler

definition worker_take :: "UploadScheduler \<Rightarrow> worker_turn" where
  "worker_take s =
     (if \<not> (u_stopping s \<and> u_jobs s = []) \<and> \<not> list_ex (eligible s) (u_jobs s) then WorkerWaits
      else if u_jobs s = [] then WorkerExits
      else case select_job s of
             None \<Rightarrow> WorkerExits
           | Some i \<Rightarrow>
               let job = u_jobs s ! i
               in WorkerRuns job (s\<lparr>u_jobs := remove_at i (u_jobs s), u_last_owner := Some (j_owner job),
                    u_active_uploads := (if j_upload job then u_active_uploads s + 1 else u_active_uploads s)\<rparr>))"

section \<open>Steps\<close>

text \<open>
  What happened beside the scheduler: how many jobs and tasks were accepted (each is numbered
  on acceptance), which were started, which were told that they are cancelled, and which hold
  a slot.
\<close>

record upload_log =
  accepted :: nat
  started :: "nat list"
  cancelled :: "nat list"
  held :: "nat list"

inductive upload_step :: "UploadScheduler \<times> upload_log \<Rightarrow> UploadScheduler \<times> upload_log \<Rightarrow> bool" where
  step_submit: "submit owner (accepted g) s = Inr s' \<Longrightarrow>
    upload_step (s, g) (s', g\<lparr>accepted := accepted g + 1\<rparr>)"
| step_submit_upload: "submit_upload owner (accepted g) asynchronous s = Inr s' \<Longrightarrow>
    upload_step (s, g) (s', g\<lparr>accepted := accepted g + 1\<rparr>)"
| step_owner_now: "submit_owner_upload (accepted g) s = Inr (True, s') \<Longrightarrow>
    upload_step (s, g) (s', g\<lparr>accepted := accepted g + 1, started := accepted g # started g,
      held := accepted g # held g\<rparr>)"
| step_owner_later: "submit_owner_upload (accepted g) s = Inr (False, s') \<Longrightarrow>
    upload_step (s, g) (s', g\<lparr>accepted := accepted g + 1\<rparr>)"
| step_take: "worker_take s = WorkerRuns job s' \<Longrightarrow>
    upload_step (s, g) (s', g\<lparr>started := j_run job # started g,
      held := (if j_upload job then j_run job # held g else held g)\<rparr>)"
| step_finish: "run \<in> set (held g) \<Longrightarrow> finish_upload s = Some (None, s') \<Longrightarrow>
    upload_step (s, g) (s', g\<lparr>held := remove1 run (held g)\<rparr>)"
| step_finish_next: "run \<in> set (held g) \<Longrightarrow> finish_upload s = Some (Some task, s') \<Longrightarrow>
    upload_step (s, g) (s', g\<lparr>started := task # started g, held := task # remove1 run (held g)\<rparr>)"
| step_shutdown: "shutdown_uploads s = (tasks, s') \<Longrightarrow>
    upload_step (s, g) (s', g\<lparr>cancelled := tasks @ cancelled g\<rparr>)"

definition upload_start :: "nat \<Rightarrow> UploadScheduler \<times> upload_log" where
  "upload_start concurrency =
     (UploadScheduler_new concurrency, \<lparr>accepted = 0, started = [], cancelled = [], held = []\<rparr>)"

section \<open>Slots and jobs\<close>

definition upload_inv :: "nat \<Rightarrow> UploadScheduler \<times> upload_log \<Rightarrow> bool" where
  "upload_inv concurrency w \<longleftrightarrow> (case w of (s, g) \<Rightarrow>
     u_max_uploads s = concurrency \<and> u_active_uploads s = length (held g) \<and> u_active_uploads s \<le> concurrency \<and>
     (u_owner_jobs s \<noteq> [] \<longrightarrow> u_active_uploads s = concurrency \<and> \<not> u_stopping s) \<and>
     mset (map j_run (u_jobs s)) + mset (u_owner_jobs s) + mset (started g) + mset (cancelled g) =
       mset [0 ..< accepted g])"

lemma mset_remove_at: "i < length xs \<Longrightarrow> add_mset (xs ! i) (mset (remove_at i xs)) = mset xs"
proof -
  assume i: "i < length xs"
  have "mset xs = mset (take i xs @ xs ! i # drop (Suc i) xs)" using id_take_nth_drop [OF i] by simp
  then show ?thesis by (simp add: remove_at_def)
qed

lemma select_job_Some:
  assumes "select_job s = Some i"
  shows "i < length (u_jobs s)" "eligible s (u_jobs s ! i)"
    "\<exists>job\<in>set (u_jobs s). eligible s job \<and> u_last_owner s \<noteq> Some (j_owner job) \<Longrightarrow>
     u_last_owner s \<noteq> Some (j_owner (u_jobs s ! i))"
  using assms find_index_None [of _ "u_jobs s"]
  by (auto simp: select_job_def Let_def dest!: find_index_Some split: option.splits)

lemma worker_take_Runs:
  assumes "worker_take s = WorkerRuns job s'"
  obtains i where "select_job s = Some i" "job = u_jobs s ! i"
    "s' = s\<lparr>u_jobs := remove_at i (u_jobs s), u_last_owner := Some (j_owner job),
       u_active_uploads := (if j_upload job then u_active_uploads s + 1 else u_active_uploads s)\<rparr>"
  using assms by (auto simp: worker_take_def Let_def split: if_splits option.splits)

lemma upload_inv_step:
  assumes "upload_step w w'" "upload_inv n w"
  shows "upload_inv n w'"
  using assms
proof (induction rule: upload_step.induct)
  case (step_submit owner g s s')
  then show ?case
    by (auto simp: upload_inv_def atLeast0_lessThan_Suc submit_def submit_job_def start_workers_locked_def Let_def split: if_splits)
next
  case (step_submit_upload owner g asynchronous s s')
  then show ?case
    by (auto simp: upload_inv_def atLeast0_lessThan_Suc submit_upload_def submit_job_def start_workers_locked_def Let_def split: if_splits)
next
  case (step_owner_now g s s')
  then show ?case by (auto simp: upload_inv_def atLeast0_lessThan_Suc submit_owner_upload_def split: if_splits)
next
  case (step_owner_later g s s')
  then show ?case by (auto simp: upload_inv_def atLeast0_lessThan_Suc submit_owner_upload_def split: if_splits)
next
  case (step_take s job s' g)
  obtain i where i: "select_job s = Some i" "job = u_jobs s ! i"
    "s' = s\<lparr>u_jobs := remove_at i (u_jobs s), u_last_owner := Some (j_owner job),
       u_active_uploads := (if j_upload job then u_active_uploads s + 1 else u_active_uploads s)\<rparr>"
    by (rule worker_take_Runs [OF step_take(1)])
  note sel = select_job_Some [OF i(1)]
  have el: "j_upload job \<Longrightarrow> u_active_uploads s < u_max_uploads s" using sel(2) i(2) by (simp add: eligible_def)
  have "mset (map j_run (u_jobs s)) = add_mset (j_run job) (mset (map j_run (remove_at i (u_jobs s))))"
    using mset_remove_at [OF sel(1)] i(2) by (metis image_mset_add_mset mset_map)
  then show ?case using step_take(2) el unfolding i(3) by (auto simp: upload_inv_def atLeast0_lessThan_Suc)
next
  case (step_finish run g s s')
  then have "length (held g) = Suc (length (remove1 run (held g)))"
    by (simp add: length_remove1) (metis Suc_pred length_pos_if_in_set)
  then show ?case using step_finish
    by (auto simp: upload_inv_def atLeast0_lessThan_Suc finish_upload_def Let_def split: if_splits list.splits)
next
  case (step_finish_next run g s task s')
  then have "length (held g) = Suc (length (remove1 run (held g)))"
    by (simp add: length_remove1) (metis Suc_pred length_pos_if_in_set)
  then show ?case using step_finish_next
    by (auto simp: upload_inv_def atLeast0_lessThan_Suc finish_upload_def Let_def split: if_splits list.splits)
next
  case (step_shutdown s tasks s' g)
  then show ?case by (auto simp: upload_inv_def atLeast0_lessThan_Suc shutdown_uploads_def ac_simps split: if_splits)
qed

lemma upload_reachable_inv: "upload_step\<^sup>*\<^sup>* (upload_start n) w \<Longrightarrow> upload_inv n w"
  by (induction rule: rtranclp_induct)
    (simp add: upload_inv_def upload_start_def UploadScheduler_new_def, rule upload_inv_step)

text \<open>
  C25. Upload slots and jobs are accounted for in every run of the scheduler. The slots in use are
  the uploads that hold one and never exceed the limit, so \<open>finish_upload\<close> does not reach its
  \<open>abort\<close>; a reactor task waits only while every slot is in use; and every job or task that was
  accepted is in exactly one place: still queued, started once, or told once that it is
  cancelled. A worker passes over the owner it served last while another one has a job.
\<close>

theorem upload_slots_and_jobs_are_accounted:
  assumes "upload_step\<^sup>*\<^sup>* (upload_start concurrency) (s, g)"
  shows "u_active_uploads s = length (held g) \<and> length (held g) \<le> concurrency \<and>
    (held g \<noteq> [] \<longrightarrow> finish_upload s \<noteq> None) \<and>
    (u_owner_jobs s \<noteq> [] \<longrightarrow> length (held g) = concurrency) \<and>
    distinct (map j_run (u_jobs s) @ u_owner_jobs s @ started g @ cancelled g) \<and>
    set (map j_run (u_jobs s) @ u_owner_jobs s @ started g @ cancelled g) = {0 ..< accepted g} \<and>
    (\<forall>job s'. worker_take s = WorkerRuns job s' \<and>
       (\<exists>other\<in>set (u_jobs s). eligible s other \<and> u_last_owner s \<noteq> Some (j_owner other)) \<longrightarrow>
       u_last_owner s \<noteq> Some (j_owner job))"
proof -
  note v = upload_reachable_inv [OF assms, unfolded upload_inv_def prod.case]
  have m: "mset (map j_run (u_jobs s) @ u_owner_jobs s @ started g @ cancelled g) = mset [0 ..< accepted g]"
    using v by (simp add: ac_simps)
  have "distinct (map j_run (u_jobs s) @ u_owner_jobs s @ started g @ cancelled g)"
    using mset_eq_imp_distinct_iff [OF m] by simp
  moreover have "set (map j_run (u_jobs s) @ u_owner_jobs s @ started g @ cancelled g) = {0 ..< accepted g}"
    using mset_eq_setD [OF m] by simp
  moreover have "finish_upload s \<noteq> None" if "held g \<noteq> []"
    using v that by (simp add: finish_upload_def Let_def split: list.split)
  moreover have "u_last_owner s \<noteq> Some (j_owner job)"
    if "worker_take s = WorkerRuns job s'"
      "\<exists>other\<in>set (u_jobs s). eligible s other \<and> u_last_owner s \<noteq> Some (j_owner other)" for job s'
    using worker_take_Runs [OF that(1)] select_job_Some(3) that(2) by metis
  moreover have "u_active_uploads s = length (held g)" "length (held g) \<le> concurrency"
    "u_owner_jobs s \<noteq> [] \<longrightarrow> length (held g) = concurrency" using v by auto
  ultimately show ?thesis by blast
qed

text \<open>With one slot: an upload is running, a task waits for its slot, and a shutdown cancels the task.\<close>

theorem upload_slots_and_jobs_are_accounted_witness:
  "\<exists>s g. upload_step\<^sup>*\<^sup>* (upload_start 1) (s, g) \<and> started g = [0] \<and> cancelled g = [1] \<and>
     length (held g) = 1 \<and> set (map j_run (u_jobs s) @ u_owner_jobs s @ started g @ cancelled g) = {0 ..< 2}"
proof -
  let ?s0 = "UploadScheduler_new 1"
  let ?g0 = "\<lparr>accepted = 0, started = [], cancelled = [], held = []\<rparr>"
  let ?s1 = "?s0\<lparr>u_active_uploads := 1\<rparr>" and ?g1 = "?g0\<lparr>accepted := 1, started := [0], held := [0]\<rparr>"
  let ?s2 = "?s1\<lparr>u_owner_jobs := [1]\<rparr>" and ?g2 = "?g1\<lparr>accepted := 2\<rparr>"
  let ?s3 = "?s2\<lparr>u_stopping := True, u_owner_jobs := []\<rparr>" and ?g3 = "?g2\<lparr>cancelled := [1]\<rparr>"
  have a: "upload_step (?s0, ?g0) (?s1, ?g1)"
    using step_owner_now [of ?g0 ?s0 ?s1] by (simp add: submit_owner_upload_def UploadScheduler_new_def)
  have b: "upload_step (?s1, ?g1) (?s2, ?g2)"
    using step_owner_later [of ?g1 ?s1 ?s2] by (simp add: submit_owner_upload_def UploadScheduler_new_def numeral_2_eq_2)
  have c: "upload_step (?s2, ?g2) (?s3, ?g3)"
    using step_shutdown [of ?s2 "[1]" ?s3 ?g2] by (simp add: shutdown_uploads_def UploadScheduler_new_def)
  have "upload_step\<^sup>*\<^sup>* (upload_start 1) (?s3, ?g3)"
    unfolding upload_start_def using a b c by (meson r_into_rtranclp rtranclp_trans)
  from this upload_slots_and_jobs_are_accounted [OF this] show ?thesis
    by (intro exI [of _ ?s3] exI [of _ ?g3]) simp
qed

end
