(* ===== verification/Fuse_Pool.thy ===== *)
theory Fuse_Pool
  imports Interleave
begin

text \<open>
  \<open>HttpPool\<close> (\<^verbatim>\<open>src/src/fuse.cpp\<close>): the leases of the HTTP connections of a mount, with the threads
  that block for one (\<open>acquire\<close>, \<open>acquire_bulk\<close>) and the reactor tasks that wait for one
  (\<open>AsyncS3Request\<close>: \<open>try_acquire\<close>, \<open>begin_async_wait\<close>, a read of the release pipe). One step is one
  atomic access. \<open>released_\<close> has 64 bits and is taken as unbounded; \<open>notify_one\<close> wakes one of the
  threads that sleep, as the standard promises.
\<close>

section \<open>The code\<close>

record HttpPool =
  hp_busy :: "bool list"
  hp_next :: nat
  hp_cursors :: "nat list"
  hp_released :: nat
  hp_reactor_waiters :: nat
  hp_pipe :: nat
  hp_sleepers :: "nat list"

text \<open>
  The connections are dealt to the workers of the reactor in turn. A task of a worker tries the
  slots of its worker first, everyone else tries them in rotation.
\<close>

definition slot_owner :: "nat \<Rightarrow> nat \<Rightarrow> nat" where
  "slot_owner worker_count i = (if worker_count = 0 then 0 else i mod worker_count)"

definition slot_rotation :: "nat \<Rightarrow> nat \<Rightarrow> nat list" where
  "slot_rotation usable first = map (\<lambda>n. (first + n) mod usable) [0 ..< usable]"

definition slot_order :: "nat \<Rightarrow> nat option \<Rightarrow> nat \<Rightarrow> nat \<Rightarrow> nat list" where
  "slot_order worker_count worker usable first =
     (case worker of
        None \<Rightarrow> slot_rotation usable first
      | Some w \<Rightarrow>
          filter (\<lambda>i. slot_owner worker_count i = w) (slot_rotation usable first) @
          filter (\<lambda>i. slot_owner worker_count i \<noteq> w) (slot_rotation usable first))"

text \<open>\<^verbatim>\<open>next_.fetch_add(1)\<close>, or the increment of the cursor of a worker.\<close>

definition take_cursor :: "nat option \<Rightarrow> HttpPool \<Rightarrow> nat \<times> HttpPool" where
  "take_cursor worker s =
     (case worker of
        None \<Rightarrow> (hp_next s, s\<lparr>hp_next := wrap64 (hp_next s + 1)\<rparr>)
      | Some w \<Rightarrow> (hp_cursors s ! w, s\<lparr>hp_cursors := (hp_cursors s)[w := wrap64 (hp_cursors s ! w + 1)]\<rparr>))"

text \<open>
  Where a user of the pool stands; \<open>u\<close> is the number of slots it may use, all of them or, for a bulk
  transfer, all but the last. \<open>Blocked r\<close> is the loop of \<open>acquire_slots\<close> after it has read \<open>r\<close> from
  \<open>released_\<close>, \<open>First\<close> and \<open>Second\<close> are the two tries of a reactor task.
\<close>

datatype pool_call = Blocked nat | First | Second

datatype pool_point =
    Out
  | LoadReleased nat
  | Cursor pool_call nat
  | Scan pool_call nat "nat list"
  | WaitReleased nat nat
  | Sleeping nat nat nat
  | Register nat
  | Submitting nat
  | Reading nat
  | Arrived nat
  | Registered_lease nat nat
  | Lease nat nat
  | Released
  | Notify
  | CheckWaiters
  | WriteByte
  | GiveUp

fun after_scan :: "pool_call \<Rightarrow> nat \<Rightarrow> pool_point" where
  "after_scan (Blocked r) u = WaitReleased u r"
| "after_scan First u = Register u"
| "after_scan Second u = Submitting u"

definition take_slot :: "pool_call \<Rightarrow> nat \<Rightarrow> nat \<Rightarrow> pool_point" where
  "take_slot c u j = (if c = Second then Registered_lease u j else Lease u j)"

text \<open>
  The accesses of a user \<open>i\<close>. \<open>worker\<close> is the worker of a reactor task, \<open>None\<close> for a thread and for a
  reactor with one worker; \<open>blocking\<close> says that the user is a thread that may block. A task whose
  byte has arrived gives up when it was cancelled (\<open>cancels\<close>); submitting a read may fail, and a
  pending read may be cancelled. A full pipe drops the byte.
\<close>

fun pool_next :: "nat \<Rightarrow> bool \<Rightarrow> bool \<Rightarrow> nat option \<Rightarrow> nat \<Rightarrow> pool_point \<Rightarrow> HttpPool \<Rightarrow> (pool_point \<times> HttpPool) list" where
  "pool_next workers cancels blocking worker i Out s =
     (let n = length (hp_busy s)
      in if blocking then [(LoadReleased n, s), (LoadReleased (n - 1), s)] else [(Cursor First n, s), (Cursor First (n - 1), s)])"
| "pool_next workers cancels blocking worker i (LoadReleased u) s = [(Cursor (Blocked (hp_released s)) u, s)]"
| "pool_next workers cancels blocking worker i (Cursor c u) s =
     (case take_cursor worker s of (first, s') \<Rightarrow> [(Scan c u (slot_order workers worker u first), s')])"
| "pool_next workers cancels blocking worker i (Scan c u []) s = [(after_scan c u, s)]"
| "pool_next workers cancels blocking worker i (Scan c u (j # js)) s =
     (if hp_busy s ! j then [(Scan c u js, s)]
      else [(take_slot c u j, s\<lparr>hp_busy := (hp_busy s)[j := True]\<rparr>)])"
| "pool_next workers cancels blocking worker i (WaitReleased u r) s =
     (if hp_released s \<noteq> r then [(LoadReleased u, s)]
      else [(Sleeping u r i, s\<lparr>hp_sleepers := hp_sleepers s @ [i]\<rparr>)])"
| "pool_next workers cancels blocking worker i (Sleeping u r k) s =
     (if k \<in> set (hp_sleepers s) then [] else [(WaitReleased u r, s)])"
| "pool_next workers cancels blocking worker i (Register u) s =
     [(Cursor Second u, s\<lparr>hp_reactor_waiters := hp_reactor_waiters s + 1\<rparr>)]"
| "pool_next workers cancels blocking worker i (Submitting u) s = [(Reading u, s), (GiveUp, s)]"
| "pool_next workers cancels blocking worker i (Reading u) s =
     (if 0 < hp_pipe s then [(Arrived u, s\<lparr>hp_pipe := hp_pipe s - 1\<rparr>)] else []) @ [(GiveUp, s)]"
| "pool_next workers cancels blocking worker i (Arrived u) s =
     (Cursor First u, s\<lparr>hp_reactor_waiters := hp_reactor_waiters s - 1\<rparr>) #
     (if cancels then [(Out, s\<lparr>hp_reactor_waiters := hp_reactor_waiters s - 1\<rparr>)] else [])"
| "pool_next workers cancels blocking worker i (Registered_lease u j) s =
     [(Lease u j, s\<lparr>hp_reactor_waiters := hp_reactor_waiters s - 1\<rparr>)]"
| "pool_next workers cancels blocking worker i (Lease u j) s = [(Released, s\<lparr>hp_busy := (hp_busy s)[j := False]\<rparr>)]"
| "pool_next workers cancels blocking worker i Released s = [(Notify, s\<lparr>hp_released := hp_released s + 1\<rparr>)]"
| "pool_next workers cancels blocking worker i Notify s =
     (if hp_sleepers s = [] then [(CheckWaiters, s)]
      else map (\<lambda>k. (CheckWaiters, s\<lparr>hp_sleepers := filter (\<lambda>x. x \<noteq> k) (hp_sleepers s)\<rparr>)) (hp_sleepers s))"
| "pool_next workers cancels blocking worker i CheckWaiters s =
     [(if hp_reactor_waiters s \<noteq> 0 then WriteByte else Out, s)]"
| "pool_next workers cancels blocking worker i WriteByte s = [(Out, s\<lparr>hp_pipe := min 4096 (hp_pipe s + 1)\<rparr>)]"
| "pool_next workers cancels blocking worker i GiveUp s =
     [(Out, s\<lparr>hp_reactor_waiters := hp_reactor_waiters s - 1\<rparr>)]"

text \<open>
  A pool of at least two connections (\<^verbatim>\<open>--max-connections\<close> exceeds \<^verbatim>\<open>--max-uploads\<close>, which is not 0),
  and users that have not used it.
\<close>

definition new_pool :: "nat \<Rightarrow> nat \<Rightarrow> HttpPool" where
  "new_pool n workers = \<lparr>hp_busy = replicate n False, hp_next = 0, hp_cursors = replicate workers 0,
     hp_released = 0, hp_reactor_waiters = 0, hp_pipe = 0, hp_sleepers = []\<rparr>"

definition pool_start :: "nat \<Rightarrow> nat \<Rightarrow> (pool_point, HttpPool) world \<Rightarrow> bool" where
  "pool_start n workers w \<longleftrightarrow> snd w = new_pool n workers \<and> 2 \<le> n \<and> (\<forall>p\<in>set (fst w). p = Out)"

record pool_users =
  us_workers :: nat
  us_cancels :: bool
  us_blocking :: "nat \<Rightarrow> bool"
  us_worker :: "nat \<Rightarrow> nat option"

definition users_next :: "pool_users \<Rightarrow> nat \<Rightarrow> pool_point \<Rightarrow> HttpPool \<Rightarrow> (pool_point \<times> HttpPool) list" where
  "users_next us i = pool_next (us_workers us) (us_cancels us) (us_blocking us i)
     (if us_blocking us i then None else us_worker us i) i"

abbreviation pool_reachable :: "nat \<Rightarrow> pool_users \<Rightarrow> (pool_point, HttpPool) world \<Rightarrow> bool" where
  "pool_reachable n us \<equiv> interleaved (users_next us) (pool_start n (us_workers us))"


section \<open>What the counters count\<close>

fun holds_slot :: "nat \<Rightarrow> pool_point \<Rightarrow> bool" where
  "holds_slot j (Registered_lease u k) = (k = j)"
| "holds_slot j (Lease u k) = (k = j)"
| "holds_slot j _ = False"

fun registered_user :: "pool_point \<Rightarrow> bool" where
  "registered_user (Cursor c u) = (c = Second)"
| "registered_user (Scan c u js) = (c = Second)"
| "registered_user (Submitting u) = True"
| "registered_user (Reading u) = True"
| "registered_user (Arrived u) = True"
| "registered_user (Registered_lease u j) = True"
| "registered_user GiveUp = True"
| "registered_user _ = False"

text \<open>The slots a user may use, and those it still has to try, are those of the pool.\<close>

fun usable_ok :: "nat \<Rightarrow> pool_point \<Rightarrow> bool" where
  "usable_ok n (LoadReleased u) = (n \<le> u + 1 \<and> u \<le> n)"
| "usable_ok n (Cursor c u) = (n \<le> u + 1 \<and> u \<le> n)"
| "usable_ok n (Scan c u js) = (n \<le> u + 1 \<and> u \<le> n \<and> length js \<le> u \<and> list_all (\<lambda>j. j < u) js)"
| "usable_ok n (WaitReleased u r) = (n \<le> u + 1 \<and> u \<le> n)"
| "usable_ok n (Sleeping u r k) = (n \<le> u + 1 \<and> u \<le> n)"
| "usable_ok n (Register u) = (n \<le> u + 1 \<and> u \<le> n)"
| "usable_ok n (Submitting u) = (n \<le> u + 1 \<and> u \<le> n)"
| "usable_ok n (Reading u) = (n \<le> u + 1 \<and> u \<le> n)"
| "usable_ok n (Arrived u) = (n \<le> u + 1 \<and> u \<le> n)"
| "usable_ok n (Registered_lease u j) = (n \<le> u + 1 \<and> u \<le> n \<and> j < u)"
| "usable_ok n (Lease u j) = (n \<le> u + 1 \<and> u \<le> n \<and> j < u)"
| "usable_ok n _ = True"

lemma slot_order_props:
  assumes "0 < u"
  shows "length (slot_order workers worker u first) = u" "list_all (\<lambda>j. j < u) (slot_order workers worker u first)"
proof -
  have l: "length (filter P xs) + length (filter (\<lambda>x. \<not> P x) xs) = length xs" for P and xs :: "nat list"
    by (rule sum_length_filter_compl)
  show "length (slot_order workers worker u first) = u"
    using l [of "\<lambda>i. slot_owner workers i = the worker" "slot_rotation u first"]
    by (auto simp: slot_order_def slot_rotation_def split: option.split)
  show "list_all (\<lambda>j. j < u) (slot_order workers worker u first)"
    using assms by (auto simp: slot_order_def slot_rotation_def list_all_iff split: option.split)
qed

lemma take_cursor_frame:
  assumes "take_cursor worker s = (first, s')"
  shows "hp_busy s' = hp_busy s" "hp_released s' = hp_released s" "hp_reactor_waiters s' = hp_reactor_waiters s"
    "hp_pipe s' = hp_pipe s" "hp_sleepers s' = hp_sleepers s"
  using assms by (auto simp: take_cursor_def split: option.splits)

definition leases_inv :: "nat \<Rightarrow> (pool_point, HttpPool) world \<Rightarrow> bool" where
  "leases_inv n w \<longleftrightarrow> (case w of (ths, s) \<Rightarrow>
     2 \<le> n \<and> length (hp_busy s) = n \<and> (\<forall>p\<in>set ths. usable_ok n p) \<and>
     (\<forall>j<n. cnt (holds_slot j) ths = (if hp_busy s ! j then 1 else 0)) \<and>
     hp_reactor_waiters s = cnt registered_user ths)"

lemma in_set_update: "p \<in> set (xs[i := x]) \<Longrightarrow> p \<in> set xs \<or> p = x"
  using set_update_subset_insert [of xs i x] by auto

text \<open>
  How a step changes what is counted: a slot is taken or given back by the user itself, and a
  user registers or leaves.
\<close>

lemma after_scan_props [simp]:
  "usable_ok n (after_scan c u) = (n \<le> u + 1 \<and> u \<le> n)" "\<not> holds_slot j (after_scan c u)"
  "registered_user (after_scan c u) = (c = Second)"
  by (cases c; simp)+

lemma take_slot_props [simp]:
  "usable_ok n (take_slot c u k) = (n \<le> u + 1 \<and> u \<le> n \<and> k < u)" "holds_slot j (take_slot c u k) = (k = j)"
  "registered_user (take_slot c u k) = (c = Second)"
  by (simp_all add: take_slot_def)

lemma pool_step_usable:
  assumes "(p', s') \<in> set (pool_next workers cancels blocking worker i p s)" "usable_ok n p" "length (hp_busy s) = n" "2 \<le> n"
  shows "usable_ok n p'" "length (hp_busy s') = n"
proof -
  have "usable_ok n p' \<and> length (hp_busy s') = n"
    using assms
  proof (cases p)
    case (Scan c u js)
    then show ?thesis using assms by (cases js) (auto split: if_splits)
  next
    case (Cursor c u)
    then show ?thesis using assms slot_order_props [of u]
      by (cases "take_cursor worker s") (auto dest: take_cursor_frame)
  qed (auto simp: Let_def split: if_splits)
  then show "usable_ok n p'" "length (hp_busy s') = n" by simp_all
qed

lemma pool_step_waiters:
  assumes "(p', s') \<in> set (pool_next workers cancels blocking worker i p s)" "registered_user p \<Longrightarrow> 0 < hp_reactor_waiters s"
  shows "hp_reactor_waiters s' + (if registered_user p then 1 else 0) =
     hp_reactor_waiters s + (if registered_user p' then 1 else 0)"
  using assms
proof (cases p)
  case (Scan c u js)
  then show ?thesis using assms by (cases js) (auto split: if_splits)
next
  case (Cursor c u)
  then show ?thesis using assms by (cases "take_cursor worker s") (auto dest: take_cursor_frame)
qed (auto simp: Let_def split: if_splits)

lemma pool_step_slots:
  assumes "(p', s') \<in> set (pool_next workers cancels blocking worker i p s)" "usable_ok n p" "length (hp_busy s) = n" "j < n"
  shows "hp_busy s' ! j = (if holds_slot j p' then if holds_slot j p then hp_busy s ! j else True
      else if holds_slot j p then False else hp_busy s ! j)"
    "holds_slot j p' \<Longrightarrow> \<not> holds_slot j p \<Longrightarrow> \<not> hp_busy s ! j"
proof -
  have "hp_busy s' ! j = (if holds_slot j p' then if holds_slot j p then hp_busy s ! j else True
      else if holds_slot j p then False else hp_busy s ! j) \<and>
    (holds_slot j p' \<longrightarrow> \<not> holds_slot j p \<longrightarrow> \<not> hp_busy s ! j)"
    using assms
  proof (cases p)
    case (Scan c u js)
    then show ?thesis using assms by (cases js) (auto simp: nth_list_update split: if_splits)
  next
    case (Cursor c u)
    then show ?thesis using assms by (cases "take_cursor worker s") (auto dest: take_cursor_frame)
  qed (auto simp: Let_def nth_list_update split: if_splits)
  then show "hp_busy s' ! j = (if holds_slot j p' then if holds_slot j p then hp_busy s ! j else True
      else if holds_slot j p then False else hp_busy s ! j)"
    "holds_slot j p' \<Longrightarrow> \<not> holds_slot j p \<Longrightarrow> \<not> hp_busy s ! j" by simp_all
qed

lemma leases_step:
  assumes "leases_inv n (ths, s)" "i < length ths" "(p', s') \<in> set (users_next us i (ths ! i) s)"
  shows "leases_inv n (ths[i := p'], s')"
proof -
  let ?p = "ths ! i"
  have inv: "2 \<le> n" "length (hp_busy s) = n" "\<forall>p\<in>set ths. usable_ok n p"
    "\<forall>j<n. cnt (holds_slot j) ths = (if hp_busy s ! j then 1 else 0)" "hp_reactor_waiters s = cnt registered_user ths"
    using assms(1) by (simp_all add: leases_inv_def)
  note st = assms(3) [unfolded users_next_def]
  have u: "usable_ok n ?p" using inv(3) assms(2) by simp
  have us: "usable_ok n p'" "length (hp_busy s') = n" using pool_step_usable [OF st u inv(2,1)] .
  have w: "hp_reactor_waiters s' = cnt registered_user (ths[i := p'])"
  proof -
    have "registered_user ?p \<Longrightarrow> 0 < hp_reactor_waiters s" unfolding inv(5) using cnt_here [OF assms(2)] by simp
    from pool_step_waiters [OF st this] show ?thesis
      using cnt_update [OF assms(2), of registered_user p'] inv(5) by (auto split: if_splits)
  qed
  have b: "cnt (holds_slot j) (ths[i := p']) = (if hp_busy s' ! j then 1 else 0)" if j: "j < n" for j
  proof -
    have c: "cnt (holds_slot j) ths = (if hp_busy s ! j then 1 else 0)" using inv(4) j by simp
    have "holds_slot j ?p \<Longrightarrow> hp_busy s ! j"
      using cnt_here [OF assms(2), of "holds_slot j"] c by (auto split: if_splits)
    then show ?thesis
      using pool_step_slots [OF st u inv(2) j] cnt_update [OF assms(2), of "holds_slot j" p'] c
      by (auto split: if_splits)
  qed
  have "usable_ok n p" if "p \<in> set (ths[i := p'])" for p using in_set_update [OF that] inv(3) us(1) by auto
  then show ?thesis using inv(1) us(2) w b by (simp add: leases_inv_def)
qed


interpretation pool_leases: thread_invariant "users_next us" "pool_start n (us_workers us)" "leases_inv n"
proof
  fix w
  assume "pool_start n (us_workers us) w"
  then show "leases_inv n w"
    by (cases w) (auto simp: pool_start_def leases_inv_def new_pool_def cnt_zero)
next
  fix ths s i p' s'
  assume "leases_inv n (ths, s)" "i < length ths" "(p', s') \<in> set (users_next us i (ths ! i) s)"
  then show "leases_inv n (ths[i := p'], s')" by (rule leases_step)
qed

text \<open>
  C26. A connection is leased to one user at a time, and bulk transfers leave one connection for
  everything else: in every interleaving a slot is marked busy exactly while one user holds its
  lease, nobody shares it, and a user that may take all but the last slot never holds the last.
\<close>

theorem http_leases_are_exclusive:
  assumes "pool_reachable n us (ths, s)" "i < length ths" "j < n"
  shows "(holds_slot j (ths ! i) \<longrightarrow> hp_busy s ! j \<and>
      (\<forall>k<length ths. k \<noteq> i \<longrightarrow> \<not> holds_slot j (ths ! k))) \<and>
    (hp_busy s ! j \<longrightarrow> (\<exists>k<length ths. holds_slot j (ths ! k))) \<and>
    (\<forall>u k. ths ! i = Lease u k \<or> ths ! i = Registered_lease u k \<longrightarrow> (u = n \<or> u = n - 1) \<and> k < u)"
proof -
  have inv: "leases_inv n (ths, s)" using assms(1) by (rule pool_leases.interleaved_inv)
  have c: "cnt (holds_slot j) ths = (if hp_busy s ! j then 1 else 0)" using inv assms(3) by (simp add: leases_inv_def)
  have u: "usable_ok n (ths ! i)" using inv assms(2) by (simp add: leases_inv_def)
  have one: "hp_busy s ! j \<and> \<not> holds_slot j (ths ! k)" if h: "holds_slot j (ths ! i)" and k: "k < length ths" "k \<noteq> i" for k
  proof -
    have b: "cnt (holds_slot j) ths = 1" "hp_busy s ! j"
      using cnt_here [OF assms(2), of "holds_slot j"] h c by (auto split: if_splits)
    have "cnt (holds_slot j) (ths[i := Out]) = 0" using cnt_sub(1) [OF assms(2), of "holds_slot j" Out] h b(1) by simp
    moreover have "ths[i := Out] ! k \<in> set (ths[i := Out])" using k by (intro nth_mem) simp
    ultimately have "\<not> holds_slot j (ths[i := Out] ! k)" unfolding cnt_zero by blast
    then show ?thesis using b k by simp
  qed
  have "holds_slot j (ths ! i) \<Longrightarrow> hp_busy s ! j"
    using cnt_here [OF assms(2), of "holds_slot j"] c by (auto split: if_splits)
  moreover have "hp_busy s ! j \<Longrightarrow> \<exists>k<length ths. holds_slot j (ths ! k)"
    using c cnt_pos [of "holds_slot j" ths] by (auto simp: in_set_conv_nth)
  moreover have "\<forall>u k. ths ! i = Lease u k \<or> ths ! i = Registered_lease u k \<longrightarrow> (u = n \<or> u = n - 1) \<and> k < u"
    using u by (auto simp: le_Suc_eq)
  ultimately show ?thesis using one by blast
qed

section \<open>Nobody is forgotten\<close>

text \<open>
  For the tasks that read the release pipe: \<open>awaiting\<close> tasks are registered and have found a slot
  busy, \<open>stirring\<close> users hold a lease, are about to write a byte, or have yet to try the slots.
\<close>

fun awaiting :: "pool_point \<Rightarrow> bool" where
  "awaiting (Scan c u js) = (c = Second \<and> length js < u)"
| "awaiting (Submitting u) = True"
| "awaiting (Reading u) = True"
| "awaiting _ = False"

fun pool_stirring :: "pool_point \<Rightarrow> bool" where
  "pool_stirring (Cursor c u) = (c = First \<or> c = Second)"
| "pool_stirring (Scan c u js) = (c = First \<or> c = Second \<and> u \<le> length js)"
| "pool_stirring (Register u) = True"
| "pool_stirring (Arrived u) = True"
| "pool_stirring (Registered_lease u j) = True"
| "pool_stirring (Lease u j) = True"
| "pool_stirring Released = True"
| "pool_stirring Notify = True"
| "pool_stirring CheckWaiters = True"
| "pool_stirring WriteByte = True"
| "pool_stirring _ = False"

definition pipe_inv :: "(pool_point, HttpPool) world \<Rightarrow> bool" where
  "pipe_inv w \<longleftrightarrow> (case w of (ths, s) \<Rightarrow> 0 < cnt awaiting ths \<longrightarrow> 0 < hp_pipe s \<or> 0 < cnt pool_stirring ths)"

lemma holds_stirring: "holds_slot j p \<Longrightarrow> pool_stirring p"
  by (cases p) auto

lemma awaiting_registered: "awaiting p \<Longrightarrow> registered_user p"
  by (cases p) auto

text \<open>
  A step of a user that stirred and stirs no longer: a byte is in the pipe, nobody is registered,
  or the slot it found busy is held by someone else.
\<close>

lemma pool_step_pipe:
  assumes "(p', s') \<in> set (pool_next workers False blocking worker i p s)" "usable_ok n p" "2 \<le> n"
  shows "pool_stirring p' \<or> \<not> awaiting p' \<and> \<not> pool_stirring p \<and> (hp_pipe s' = hp_pipe s) \<or>
    awaiting p \<and> awaiting p' \<and> hp_pipe s' = hp_pipe s \<or> 0 < hp_pipe s' \<or>
    hp_reactor_waiters s = 0 \<and> \<not> awaiting p' \<and> \<not> registered_user p \<or>
    (\<exists>c u j js. p = Scan c u (j # js) \<and> hp_busy s ! j \<and> s' = s \<and> j < u \<and> u \<le> n)"
  using assms
proof (cases p)
  case (Scan c u js)
  then show ?thesis using assms by (cases js; cases c) (auto simp: take_slot_def split: if_splits)
next
  case (Cursor c u)
  then show ?thesis using assms slot_order_props [of u]
    by (cases "take_cursor worker s"; cases c) (auto dest: take_cursor_frame)
qed (auto simp: Let_def split: if_splits)


lemma cnt_other:
  assumes "k < length ths" "k \<noteq> i" "P (ths ! k)"
  shows "0 < cnt P (ths[i := p])"
  using cnt_here [of k "ths[i := p]" P] assms by simp

lemma cnt_updateE:
  assumes "0 < cnt P (ths[i := p])" "i < length ths"
  obtains "P p" | k where "k < length ths" "k \<noteq> i" "P (ths ! k)"
proof -
  obtain q where "q \<in> set (ths[i := p])" "P q" using assms(1) unfolding cnt_pos by blast
  then obtain k where "k < length ths" "P (ths[i := p] ! k)" by (auto simp: in_set_conv_nth)
  then show thesis using that assms(2) by (cases "k = i") auto
qed

lemma busy_holder:
  assumes "leases_inv n (ths, s)" "hp_busy s ! j" "j < n"
  obtains k where "k < length ths" "holds_slot j (ths ! k)"
proof -
  have "0 < cnt (holds_slot j) ths" using assms by (auto simp: leases_inv_def)
  then show thesis using that unfolding cnt_pos by (auto simp: in_set_conv_nth)
qed

lemma pipe_step:
  assumes "leases_inv n (ths, s)" "pipe_inv (ths, s)" "i < length ths"
    "(p', s') \<in> set (users_next us i (ths ! i) s)" "\<not> us_cancels us"
  shows "pipe_inv (ths[i := p'], s')"
proof -
  let ?p = "ths ! i"
  have st: "(p', s') \<in> set (pool_next (us_workers us) False (us_blocking us i)
      (if us_blocking us i then None else us_worker us i) i ?p s)"
    using assms(4,5) unfolding users_next_def by simp
  have u: "usable_ok n ?p" "2 \<le> n" using assms(1,3) by (auto simp: leases_inv_def)
  have disjoint: "\<not> (awaiting q \<and> pool_stirring q)" for q by (cases q) auto
  have old: "0 < hp_pipe s \<or> (\<exists>k<length ths. pool_stirring (ths ! k))" if "0 < cnt awaiting ths"
    using assms(2) that unfolding pipe_inv_def prod.case cnt_pos by (auto simp: in_set_conv_nth)
  have kept: "0 < cnt pool_stirring (ths[i := p'])" if q: "\<not> pool_stirring ?p" "\<exists>k<length ths. pool_stirring (ths ! k)"
  proof -
    from q obtain k where k: "k < length ths" "pool_stirring (ths ! k)" by blast
    then have "k \<noteq> i" using q(1) by blast
    then show ?thesis using cnt_other [of k ths i pool_stirring] k by simp
  qed
  have "0 < hp_pipe s' \<or> 0 < cnt pool_stirring (ths[i := p'])" if a: "0 < cnt awaiting (ths[i := p'])"
    using pool_step_pipe [OF st u]
  proof (elim disjE)
    assume "pool_stirring p'"
    then show ?thesis using cnt_here [of i "ths[i := p']" pool_stirring] assms(3) by simp
  next
    assume h: "\<not> awaiting p' \<and> \<not> pool_stirring ?p \<and> hp_pipe s' = hp_pipe s"
    from a assms(3) obtain k where "k < length ths" "awaiting (ths ! k)" by (rule cnt_updateE) (use h in auto)
    then have "0 < cnt awaiting ths" by (rule cnt_here)
    then show ?thesis using old h kept by metis
  next
    assume h: "awaiting ?p \<and> awaiting p' \<and> hp_pipe s' = hp_pipe s"
    then have "0 < cnt awaiting ths" "\<not> pool_stirring ?p" using cnt_here [OF assms(3)] disjoint by blast+
    then show ?thesis using old h kept by metis
  next
    assume h: "hp_reactor_waiters s = 0 \<and> \<not> awaiting p' \<and> \<not> registered_user ?p"
    from a assms(3) obtain k where "k < length ths" "awaiting (ths ! k)" by (rule cnt_updateE) (use h in auto)
    then have "0 < cnt registered_user ths" using awaiting_registered by (intro cnt_here)
    then show ?thesis using h assms(1) by (simp add: leases_inv_def)
  next
    assume "\<exists>c u j js. ?p = Scan c u (j # js) \<and> hp_busy s ! j \<and> s' = s \<and> j < u \<and> u \<le> n"
    then obtain c u j js where h: "?p = Scan c u (j # js)" "hp_busy s ! j" "j < n" by auto
    then obtain k where k: "k < length ths" "holds_slot j (ths ! k)" using busy_holder [OF assms(1)] by blast
    then have "k \<noteq> i" using h(1) by auto
    then show ?thesis using cnt_other [of k ths i pool_stirring] k(1) holds_stirring [OF k(2)] by simp
  qed simp
  then show ?thesis by (simp add: pipe_inv_def)
qed


text \<open>
  For the threads that sleep on \<open>released_\<close>: \<open>prebump\<close> users have yet to increment it, a thread
  \<open>remembers\<close> the value it read, and \<open>waits_for\<close> a change of it once it has found a slot busy.
\<close>

fun prebump :: "pool_point \<Rightarrow> bool" where
  "prebump (Registered_lease u j) = True"
| "prebump (Lease u j) = True"
| "prebump Released = True"
| "prebump _ = False"

fun pool_remembers :: "pool_point \<Rightarrow> nat option" where
  "pool_remembers (Cursor (Blocked r) u) = Some r"
| "pool_remembers (Scan (Blocked r) u js) = Some r"
| "pool_remembers (WaitReleased u r) = Some r"
| "pool_remembers (Sleeping u r k) = Some r"
| "pool_remembers _ = None"

fun waits_for :: "pool_point \<Rightarrow> nat option" where
  "waits_for (Scan (Blocked r) u js) = (if length js < u then Some r else None)"
| "waits_for (WaitReleased u r) = Some r"
| "waits_for (Sleeping u r k) = Some r"
| "waits_for _ = None"

text \<open>Users that will wake a sleeping thread, hold what it waits for, or are awake themselves.\<close>

fun waking :: "HttpPool \<Rightarrow> pool_point \<Rightarrow> bool" where
  "waking s (LoadReleased u) = True"
| "waking s (Cursor (Blocked r) u) = True"
| "waking s (Scan (Blocked r) u js) = (u \<le> length js)"
| "waking s (WaitReleased u r) = (r < hp_released s)"
| "waking s (Sleeping u r k) = (k \<notin> set (hp_sleepers s) \<and> r < hp_released s)"
| "waking s (Registered_lease u j) = True"
| "waking s (Lease u j) = True"
| "waking s Released = True"
| "waking s Notify = True"
| "waking s _ = False"

definition sleep_inv :: "(pool_point, HttpPool) world \<Rightarrow> bool" where
  "sleep_inv w \<longleftrightarrow> (case w of (ths, s) \<Rightarrow>
     (\<forall>p\<in>set ths. \<forall>r. pool_remembers p = Some r \<longrightarrow> r \<le> hp_released s) \<and>
     (\<forall>p\<in>set ths. \<forall>r. waits_for p = Some r \<longrightarrow> r < hp_released s \<or> 0 < cnt prebump ths) \<and>
     (\<forall>k<length ths. \<forall>u r x. ths ! k = Sleeping u r x \<longrightarrow> x = k) \<and>
     (\<forall>k\<in>set (hp_sleepers s). k < length ths \<and> (\<exists>u r. ths ! k = Sleeping u r k)) \<and>
     (hp_sleepers s \<noteq> [] \<longrightarrow> 0 < cnt (waking s) ths))"

lemma holds_prebump: "holds_slot j p \<Longrightarrow> prebump p"
  by (cases p) auto

lemma prebump_waking: "prebump p \<Longrightarrow> waking s p"
  by (cases p) auto

lemma after_scan_sleep [simp]:
  "pool_remembers (after_scan c u) = (case c of Blocked r \<Rightarrow> Some r | _ \<Rightarrow> None)"
  "waits_for (after_scan c u) = (case c of Blocked r \<Rightarrow> Some r | _ \<Rightarrow> None)"
  "\<not> prebump (after_scan c u)" "after_scan c u \<noteq> Sleeping v r k"
  by (cases c; simp)+

lemma take_slot_sleep [simp]:
  "pool_remembers (take_slot c u j) = None" "waits_for (take_slot c u j) = None" "prebump (take_slot c u j)"
  "take_slot c u j \<noteq> Sleeping v r k" "waking s (take_slot c u j)"
  by (simp_all add: take_slot_def)

lemma pool_step_released:
  assumes "(p', s') \<in> set (pool_next workers cancels blocking worker i p s)"
  shows "hp_released s \<le> hp_released s'" "prebump p \<Longrightarrow> prebump p' \<or> hp_released s < hp_released s'"
    "pool_remembers p' = Some r \<Longrightarrow> pool_remembers p = Some r \<or> r = hp_released s"
proof -
  have "hp_released s \<le> hp_released s' \<and> (prebump p \<longrightarrow> prebump p' \<or> hp_released s < hp_released s') \<and>
      (pool_remembers p' = Some r \<longrightarrow> pool_remembers p = Some r \<or> r = hp_released s)"
    using assms
  proof (cases p)
    case (Scan c u js)
    then show ?thesis using assms by (cases js; cases c) (auto split: if_splits)
  next
    case (Cursor c u)
    then show ?thesis using assms by (cases "take_cursor worker s"; cases c) (auto dest: take_cursor_frame)
  qed (auto simp: Let_def split: if_splits)
  then show "hp_released s \<le> hp_released s'" "prebump p \<Longrightarrow> prebump p' \<or> hp_released s < hp_released s'"
    "pool_remembers p' = Some r \<Longrightarrow> pool_remembers p = Some r \<or> r = hp_released s" by simp_all
qed

lemma pool_step_waits:
  assumes "(p', s') \<in> set (pool_next workers cancels blocking worker i p s)" "usable_ok n p" "2 \<le> n" "waits_for p' = Some r"
  shows "waits_for p = Some r \<or> (\<exists>c u j js. p = Scan c u (j # js) \<and> hp_busy s ! j \<and> j < n)"
  using assms
proof (cases p)
  case (Scan c u js)
  then show ?thesis using assms by (cases js; cases c) (auto split: if_splits)
next
  case (Cursor c u)
  then show ?thesis using assms slot_order_props [of u]
    by (cases "take_cursor worker s"; cases c) (auto dest: take_cursor_frame)
qed (auto simp: Let_def split: if_splits)

lemma pool_step_sleepers:
  assumes "(p', s') \<in> set (pool_next workers cancels blocking worker i p s)"
  obtains (asleep) u r where "p = WaitReleased u r" "p' = Sleeping u r i" "hp_released s = r" "hp_released s' = r"
      "hp_sleepers s' = hp_sleepers s @ [i]"
  | (notified) k where "p = Notify" "p' = CheckWaiters" "k \<in> set (hp_sleepers s)" "hp_released s' = hp_released s"
      "hp_sleepers s' = filter (\<lambda>x. x \<noteq> k) (hp_sleepers s)"
  | (other) "hp_sleepers s' = hp_sleepers s" "\<forall>u r k. p' \<noteq> Sleeping u r k" "p = Notify \<longrightarrow> hp_sleepers s = []"
      "\<forall>u r k. p = Sleeping u r k \<longrightarrow> k \<notin> set (hp_sleepers s)"
  using assms
proof (cases p)
  case (Scan c u js)
  then show ?thesis using assms other by (cases js) (auto split: if_splits)
next
  case (Cursor c u)
  then show ?thesis using assms other by (cases "take_cursor worker s") (auto dest: take_cursor_frame)
next
  case (WaitReleased u r)
  then show ?thesis using assms asleep other by (auto split: if_splits)
next
  case Notify
  then show ?thesis using assms notified other by (auto split: if_splits)
qed (auto simp: Let_def intro: other split: if_splits)

lemma pool_step_waking:
  assumes "(p', s') \<in> set (pool_next workers cancels blocking worker i p s)" "usable_ok n p" "2 \<le> n" "waking s p"
  shows "waking s' p' \<or> p = Notify \<or> (\<exists>c u j js. p = Scan c u (j # js) \<and> hp_busy s ! j \<and> j < n)"
  using assms
proof (cases p)
  case (Scan c u js)
  then show ?thesis using assms by (cases js; cases c) (auto split: if_splits)
next
  case (Cursor c u)
  then show ?thesis using assms slot_order_props [of u]
    by (cases "take_cursor worker s"; cases c) (auto dest: take_cursor_frame)
qed (auto simp: Let_def split: if_splits)


lemma prebump_kept:
  assumes "i < length ths" "(p', s') \<in> set (users_next us i (ths ! i) s)" "0 < cnt prebump ths"
  shows "0 < cnt prebump (ths[i := p']) \<or> hp_released s < hp_released s'"
proof -
  obtain k where k: "k < length ths" "prebump (ths ! k)" using assms(3) unfolding cnt_pos by (auto simp: in_set_conv_nth)
  show ?thesis
  proof (cases "k = i")
    case True
    then have "prebump p' \<or> hp_released s < hp_released s'"
      using pool_step_released(2) [OF assms(2) [unfolded users_next_def]] k by simp
    then show ?thesis using cnt_here [of i "ths[i := p']" prebump] assms(1) by auto
  next
    case False
    then show ?thesis using cnt_other [of k ths i prebump] k by simp
  qed
qed

lemma scan_holder:
  assumes "leases_inv n (ths, s)" "ths ! i = Scan c u (j # js)" "hp_busy s ! j" "j < n"
  shows "0 < cnt prebump (ths[i := p'])"
proof -
  obtain k where k: "k < length ths" "holds_slot j (ths ! k)" using busy_holder [OF assms(1,3,4)] .
  then have "k \<noteq> i" using assms(2) by auto
  then show ?thesis using cnt_other [of k ths i prebump] k(1) holds_prebump [OF k(2)] by simp
qed

lemma waits_pool_remembers: "waits_for q = Some r \<Longrightarrow> pool_remembers q = Some r"
  by (cases q rule: waits_for.cases) (simp_all split: if_splits)

lemma sleep_invD:
  assumes "sleep_inv (ths, s)"
  shows "p \<in> set ths \<Longrightarrow> pool_remembers p = Some r \<Longrightarrow> r \<le> hp_released s"
    "p \<in> set ths \<Longrightarrow> waits_for p = Some r \<Longrightarrow> r < hp_released s \<or> 0 < cnt prebump ths"
    "k < length ths \<Longrightarrow> ths ! k = Sleeping u r x \<Longrightarrow> x = k"
    "k \<in> set (hp_sleepers s) \<Longrightarrow> k < length ths \<and> (\<exists>u r. ths ! k = Sleeping u r k)"
    "hp_sleepers s \<noteq> [] \<Longrightarrow> 0 < cnt (waking s) ths"
  using assms unfolding sleep_inv_def prod.case by metis+

lemma sleep_waits_step:
  assumes "leases_inv n (ths, s)" "sleep_inv (ths, s)" "i < length ths" "(p', s') \<in> set (users_next us i (ths ! i) s)"
    and "p \<in> set (ths[i := p'])" "waits_for p = Some r"
  shows "r < hp_released s' \<or> 0 < cnt prebump (ths[i := p'])"
proof -
  note st = assms(4) [unfolded users_next_def]
  have old: "r < hp_released s' \<or> 0 < cnt prebump (ths[i := p'])"
    if q: "q \<in> set ths" "waits_for q = Some r" for q
  proof -
    have "r \<le> hp_released s" using sleep_invD(1) [OF assms(2) q(1) waits_pool_remembers [OF q(2)]] .
    then show ?thesis using sleep_invD(2) [OF assms(2) q] prebump_kept [OF assms(3,4)] pool_step_released(1) [OF st]
      by linarith
  qed
  from in_set_update [OF assms(5)] show ?thesis
  proof
    assume "p \<in> set ths"
    then show ?thesis using assms(6) by (rule old)
  next
    assume p: "p = p'"
    have ok: "usable_ok n (ths ! i)" "2 \<le> n" using assms(1,3) by (simp_all add: leases_inv_def)
    from pool_step_waits [OF st ok assms(6) [unfolded p]] show ?thesis
    proof
      assume "waits_for (ths ! i) = Some r"
      then show ?thesis by (rule old [OF nth_mem [OF assms(3)]])
    next
      assume "\<exists>c u j js. ths ! i = Scan c u (j # js) \<and> hp_busy s ! j \<and> j < n"
      then show ?thesis using scan_holder [OF assms(1)] by (elim exE conjE) simp
    qed
  qed
qed

lemma sleepers_step:
  assumes "sleep_inv (ths, s)" "i < length ths" "(p', s') \<in> set (users_next us i (ths ! i) s)"
  shows "k < length ths \<Longrightarrow> ths[i := p'] ! k = Sleeping u r x \<Longrightarrow> x = k"
    "k \<in> set (hp_sleepers s') \<Longrightarrow> k < length ths \<and> (\<exists>u r. ths[i := p'] ! k = Sleeping u r k)"
proof -
  note asleep = sleep_invD(4) [OF assms(1)]
  note cs = pool_step_sleepers [OF assms(3) [unfolded users_next_def]]
  have self: "x = i" if "p' = Sleeping u r x" for u r x by (cases rule: cs) (use that in simp_all)
  show "x = k" if "k < length ths" "ths[i := p'] ! k = Sleeping u r x"
  proof (cases "k = i")
    case True
    then show ?thesis using that self assms(2) by simp
  next
    case False
    then have "ths ! k = Sleeping u r x" using that(2) by simp
    then show ?thesis by (rule sleep_invD(3) [OF assms(1) that(1)])
  qed
  have new: "k = i \<and> (\<exists>u r. p' = Sleeping u r i) \<or> k \<noteq> i \<and> k \<in> set (hp_sleepers s)"
    if k: "k \<in> set (hp_sleepers s')"
  proof (cases rule: cs)
    case (1 u r)
    have "i \<notin> set (hp_sleepers s)" using asleep [of i] 1(1) by auto
    then show ?thesis using k 1(2,5) by auto
  next
    case (2 l)
    have "i \<notin> set (hp_sleepers s)" using asleep [of i] 2(1) by auto
    then show ?thesis using k 2(5) by auto
  next
    case 3
    have "i \<notin> set (hp_sleepers s)" using asleep [of i] 3(4) by auto
    then show ?thesis using k 3(1) by auto
  qed
  show "k < length ths \<and> (\<exists>u r. ths[i := p'] ! k = Sleeping u r k)" if "k \<in> set (hp_sleepers s')"
    using new [OF that]
  proof (elim disjE conjE exE)
    fix u r assume "k = i" "p' = Sleeping u r i"
    then show ?thesis using assms(2) by simp
  next
    assume "k \<noteq> i" "k \<in> set (hp_sleepers s)"
    then show ?thesis using asleep [of k] by simp
  qed
qed

lemma waking_kept:
  assumes "waking s q" "hp_released s \<le> hp_released s'" "hp_sleepers s' = hp_sleepers s"
  shows "waking s' q"
  using assms by (cases "(s, q)" rule: waking.cases) auto

lemma waking_step:
  assumes "leases_inv n (ths, s)" "sleep_inv (ths, s)" "i < length ths" "(p', s') \<in> set (users_next us i (ths ! i) s)"
    and "hp_sleepers s' \<noteq> []"
  shows "0 < cnt (waking s') (ths[i := p'])"
proof -
  note st = assms(4) [unfolded users_next_def]
  have ok: "usable_ok n (ths ! i)" "2 \<le> n" using assms(1,3) by (simp_all add: leases_inv_def)
  have pre: "0 < cnt (waking s') (ths[i := p'])" if "0 < cnt prebump (ths[i := p'])"
    using that prebump_waking unfolding cnt_pos by blast
  note waits = sleep_invD(2) [OF assms(2)] and kept = prebump_kept [OF assms(3,4)]
  show ?thesis
  proof (cases rule: pool_step_sleepers [OF st])
    case (1 u r)
    have "r < hp_released s \<or> 0 < cnt prebump ths" by (rule waits [OF nth_mem [OF assms(3)]]) (simp add: 1(1))
    then show ?thesis using kept pre 1(3,4) by linarith
  next
    case (2 k)
    obtain u r where k: "k < length ths" "ths ! k = Sleeping u r k" using sleep_invD(4) [OF assms(2) 2(3)] by blast
    have "k \<noteq> i" using k 2(1) by auto
    have "r < hp_released s \<or> 0 < cnt prebump ths" by (rule waits [OF nth_mem [OF k(1)]]) (simp add: k(2))
    then show ?thesis
    proof
      assume "r < hp_released s"
      then have "waking s' (ths ! k)" using k(2) 2(4,5) by simp
      then show ?thesis using cnt_other [of k ths i "waking s'"] k(1) \<open>k \<noteq> i\<close> by simp
    next
      assume "0 < cnt prebump ths"
      then show ?thesis using kept pre 2(4) by linarith
    qed
  next
    case 3
    have "0 < cnt (waking s) ths" using sleep_invD(5) [OF assms(2)] assms(5) 3(1) by simp
    then obtain k where k: "k < length ths" "waking s (ths ! k)" unfolding cnt_pos by (auto simp: in_set_conv_nth)
    show ?thesis
    proof (cases "k = i")
      case True
      from pool_step_waking [OF st ok] k(2) [unfolded True] show ?thesis
      proof (elim disjE exE conjE meta_impE)
        assume "waking s' p'"
        then show ?thesis using cnt_here [of i "ths[i := p']" "waking s'"] assms(3) by simp
      next
        assume "ths ! i = Notify"
        then show ?thesis using 3(1,3) assms(5) by simp
      next
        fix c u j js assume "ths ! i = Scan c u (j # js)" "hp_busy s ! j" "j < n"
        then show ?thesis using pre scan_holder [OF assms(1)] by simp
      qed
    next
      case False
      have "waking s' (ths ! k)" using k(2) pool_step_released(1) [OF st] 3(1) by (rule waking_kept)
      then show ?thesis using cnt_other [of k ths i "waking s'"] k False by simp
    qed
  qed
qed

lemma sleep_step:
  assumes "leases_inv n (ths, s)" "sleep_inv (ths, s)" "i < length ths" "(p', s') \<in> set (users_next us i (ths ! i) s)"
  shows "sleep_inv (ths[i := p'], s')"
proof -
  note st = assms(4) [unfolded users_next_def]
  have "r \<le> hp_released s'" if q: "q \<in> set (ths[i := p'])" "pool_remembers q = Some r" for q r
  proof -
    have old: "x \<in> set ths \<Longrightarrow> pool_remembers x = Some r \<Longrightarrow> r \<le> hp_released s" for x by (rule sleep_invD(1) [OF assms(2)])
    have "r \<le> hp_released s"
      using in_set_update [OF q(1)] q(2) old [of q] old [OF nth_mem [OF assms(3)]] pool_step_released(3) [OF st, of r] by auto
    then show ?thesis using pool_step_released(1) [OF st] by linarith
  qed
  moreover note sleep_waits_step [OF assms] sleepers_step(1) [OF assms(2-4)] sleepers_step(2) [OF assms(2-4), THEN conjunct1]
    sleepers_step(2) [OF assms(2-4), THEN conjunct2] waking_step [OF assms]
  ultimately show ?thesis unfolding sleep_inv_def prod.case length_list_update by (intro conjI ballI allI impI)
qed

definition pool_inv :: "nat \<Rightarrow> (pool_point, HttpPool) world \<Rightarrow> bool" where
  "pool_inv n w \<longleftrightarrow> leases_inv n w \<and> pipe_inv w \<and> sleep_inv w"

interpretation pool_alive: thread_invariant
  "users_next (us\<lparr>us_cancels := False\<rparr>)" "pool_start n (us_workers us)" "pool_inv n"
proof
  fix w
  assume start: "pool_start n (us_workers us) w"
  then have "leases_inv n w" by (rule pool_leases.start_inv)
  moreover have "pipe_inv w" "sleep_inv w"
    using start by (cases w; force simp: pool_start_def new_pool_def pipe_inv_def sleep_inv_def cnt_pos in_set_conv_nth)+
  ultimately show "pool_inv n w" by (simp add: pool_inv_def)
next
  fix ths s i p' s'
  assume "pool_inv n (ths, s)" "i < length ths" "(p', s') \<in> set (users_next (us\<lparr>us_cancels := False\<rparr>) i (ths ! i) s)"
  then show "pool_inv n (ths[i := p'], s')"
    unfolding pool_inv_def using leases_step pipe_step sleep_step by (elim conjE) (intro conjI; metis pool_users.select_convs(2) pool_users.surjective pool_users.update_convs(2))
qed

text \<open>A user that can only wait for the others: it is not in the pool, sleeps, or reads an empty pipe.\<close>

fun pool_idle :: "HttpPool \<Rightarrow> pool_point \<Rightarrow> bool" where
  "pool_idle s Out = True"
| "pool_idle s (Sleeping u r k) = (k \<in> set (hp_sleepers s))"
| "pool_idle s (Reading u) = (hp_pipe s = 0)"
| "pool_idle s _ = False"

lemma idle_kinds:
  assumes "pool_idle s p"
  shows "\<not> pool_stirring p" "\<not> waking s p" "p \<noteq> Out \<Longrightarrow> (awaiting p \<and> hp_pipe s = 0) \<or> hp_sleepers s \<noteq> []"
  using assms by (cases p; auto)+

text \<open>
  C27. No lease is waited for in vain: unless requests are cancelled, whenever some user waits for a
  connection, asleep on \<open>released_\<close> or reading the release pipe, another user has a step to make
  that it does not have to wait for. A wake-up is never lost between the last failed try and the wait.
\<close>

theorem http_pool_never_stuck:
  assumes "pool_reachable n us (ths, s)" "\<not> us_cancels us" "k < length ths" "ths ! k \<noteq> Out"
  shows "\<exists>i<length ths. \<not> pool_idle s (ths ! i)"
proof (rule ccontr)
  assume "\<not> ?thesis"
  then have idle: "pool_idle s p" if "p \<in> set ths" for p using that by (auto simp: in_set_conv_nth)
  have "us\<lparr>us_cancels := False\<rparr> = us" using assms(2) by simp
  then have "pool_inv n (ths, s)" using pool_alive.interleaved_inv [of us n "(ths, s)"] assms(1) by simp
  then have inv: "pipe_inv (ths, s)" "sleep_inv (ths, s)" by (simp_all add: pool_inv_def)
  have k: "ths ! k \<in> set ths" using assms(3) by simp
  from idle_kinds(3) [OF idle [OF k] assms(4)] show False
  proof
    assume a: "awaiting (ths ! k) \<and> hp_pipe s = 0"
    then have "0 < cnt pool_stirring ths"
      using inv(1) cnt_here [OF assms(3), of awaiting] by (simp add: pipe_inv_def)
    then show False using idle idle_kinds(1) unfolding cnt_pos by blast
  next
    assume "hp_sleepers s \<noteq> []"
    then have "0 < cnt (waking s) ths" by (rule sleep_invD(5) [OF inv(2)])
    then show False using idle idle_kinds(2) unfolding cnt_pos by blast
  qed
qed

section \<open>Runs\<close>

text \<open>
  Three reactor tasks that transfer in bulk, on two connections: the first holds the only
  connection bulk transfers may use, the others wait for it. The first releases it, and the
  second takes the byte.
\<close>

definition ex_users :: "bool \<Rightarrow> pool_users" where
  "ex_users cancels = \<lparr>us_workers = 0, us_cancels = cancels, us_blocking = (\<lambda>i. False), us_worker = (\<lambda>i. None)\<rparr>"

definition ex_pool_wait :: "bool \<Rightarrow> (pool_point, HttpPool) world" where
  "ex_pool_wait cancels = fold (moves (users_next (ex_users cancels)))
     [(0, 1), (0, 0), (0, 0),
      (1, 1), (1, 0), (1, 0), (1, 0), (1, 0), (1, 0), (1, 0), (1, 0), (1, 0),
      (2, 1), (2, 0), (2, 0), (2, 0), (2, 0), (2, 0), (2, 0), (2, 0), (2, 0)]
     ([Out, Out, Out], new_pool 2 0)"

definition ex_pool_taken :: "(pool_point, HttpPool) world" where
  "ex_pool_taken = fold (moves (users_next (ex_users True)))
     [(0, 0), (0, 0), (0, 0), (0, 0), (0, 0), (1, 0), (1, 1)] (ex_pool_wait True)"

lemma ex_new_pool:
  "new_pool 2 0 = \<lparr>hp_busy = [False, False], hp_next = 0, hp_cursors = [], hp_released = 0,
     hp_reactor_waiters = 0, hp_pipe = 0, hp_sleepers = []\<rparr>"
  by (simp add: new_pool_def numeral_2_eq_2)

lemmas ex_pool_simps = ex_users_def users_next_def moves_def take_cursor_def slot_order_def slot_rotation_def
  ex_new_pool take_slot_def Let_def

lemma ex_pool_wait_eq:
  "ex_pool_wait cancels = ([Lease 1 0, Reading 1, Reading 1], \<lparr>hp_busy = [True, False], hp_next = 5, hp_cursors = [],
     hp_released = 0, hp_reactor_waiters = 2, hp_pipe = 0, hp_sleepers = []\<rparr>)"
  by (simp add: ex_pool_wait_def ex_pool_simps wrap64_def)

lemma ex_pool_wait_reachable: "pool_reachable 2 (ex_users cancels) (ex_pool_wait cancels)"
  unfolding ex_pool_wait_def
  by (intro interleaved_run begin_world) (simp add: pool_start_def ex_users_def)

theorem http_leases_are_exclusive_witness:
  "hp_busy (snd (ex_pool_wait False)) ! 0 \<and> holds_slot 0 (fst (ex_pool_wait False) ! 0) \<and>
   \<not> holds_slot 0 (fst (ex_pool_wait False) ! 1)"
  using http_leases_are_exclusive [of "ex_users False" 2 "fst (ex_pool_wait False)" "snd (ex_pool_wait False)" 0 0]
    ex_pool_wait_reachable [of False] by (simp add: ex_pool_wait_eq)

theorem http_pool_never_stuck_witness:
  "\<exists>i. i < 3 \<and> \<not> pool_idle (snd (ex_pool_wait False)) (fst (ex_pool_wait False) ! i)"
  using http_pool_never_stuck [of "ex_users False" 2 "fst (ex_pool_wait False)" "snd (ex_pool_wait False)" 1]
    ex_pool_wait_reachable [of False] by (simp add: ex_pool_wait_eq ex_users_def numeral_3_eq_3)

text \<open>
  C28. Cancelling a request may strand another one: a request whose read has taken the byte of a
  release, and that was cancelled before the completion ran, neither takes a connection nor passes
  the wake-up on. Every connection is then free and every other request has ended, and yet one
  request goes on waiting at an empty pipe.
\<close>

theorem cancelled_wait_strands_a_request:
  "\<exists>us ths s. pool_reachable 2 us (ths, s) \<and> ths = [Out, Out, Reading 1] \<and> hp_busy s = [False, False] \<and>
     list_all (pool_idle s) ths"
proof -
  have run: "ex_pool_taken = ([Out, Out, Reading 1], \<lparr>hp_busy = [False, False], hp_next = 5, hp_cursors = [],
     hp_released = 1, hp_reactor_waiters = 1, hp_pipe = 0, hp_sleepers = []\<rparr>)"
    unfolding ex_pool_taken_def ex_pool_wait_eq by (simp add: ex_pool_simps)
  have "pool_reachable 2 (ex_users True) ex_pool_taken"
    unfolding ex_pool_taken_def by (rule interleaved_run [OF ex_pool_wait_reachable])
  then show ?thesis unfolding run by (intro exI conjI) (assumption | simp)+
qed

end
