(* ===== verification/Fuse_List.thy ===== *)
theory Fuse_List
  imports S3_Path S3_Xml
begin

text \<open>
  Directory listings (\<^verbatim>\<open>src/src/fuse.cpp\<close>, from \<open>query_path\<close> to \<open>for_each_directory_page\<close>): the
  request of a page, the decoding of its XML, the entries of the directory, and the loop over the
  pages. Signing and sending a request is the parameter \<open>fetch\<close> of the loop.
\<close>

section \<open>Names\<close>

definition kInternalDeleteDirectory :: string where
  "kInternalDeleteDirectory = ''.~ngs3fs~.pending-delete''"

definition NAME_MAX :: nat where "NAME_MAX = 255"

definition query_path :: "string \<Rightarrow> string \<Rightarrow> string" where
  "query_path path query =
     path @ [if find_char CHR ''?'' 0 path = None then CHR ''?'' else CHR ''&''] @ query"

definition list_hex_value :: "char \<Rightarrow> nat" where
  "list_hex_value ch =
     (if 48 \<le> byte_of ch \<and> byte_of ch \<le> 57 then byte_of ch - 48 else (byte_of ch OR 0x20) - 97 + 10)"

definition valid_fuse_component :: "string \<Rightarrow> bool" where
  "valid_fuse_component name \<longleftrightarrow>
     name \<noteq> [] \<and> length name \<le> NAME_MAX \<and> name \<noteq> ''.'' \<and> name \<noteq> ''..'' \<and>
     name \<noteq> kInternalDeleteDirectory \<and> CHR 0x00 \<notin> set name \<and> CHR ''/'' \<notin> set name"

fun percent_decode :: "string \<Rightarrow> string result" where
  "percent_decode [] = Inr []"
| "percent_decode (c # text) =
     (if c \<noteq> CHR ''%'' then ebind (percent_decode text) (\<lambda>r. Inr (c # r))
      else case text of
             a # b # rest \<Rightarrow>
               if \<not> isxdigit a \<or> \<not> isxdigit b
               then Inl (RuntimeError ''invalid URL encoding in ListObjectsV2'')
               else ebind (percent_decode rest)
                      (\<lambda>r. Inr (char_of (push_bit 4 (list_hex_value a) OR list_hex_value b) # r))
           | _ \<Rightarrow> Inl (RuntimeError ''invalid URL encoding in ListObjectsV2''))"

section \<open>Pages\<close>

record ListedChild =
  ch_name :: string
  ch_mtime :: int
  ch_size :: nat
  ch_directory :: bool

record ListedObject =
  ob_key :: string
  ob_etag :: string
  ob_mtime :: int
  ob_size :: nat

record ListedPage =
  pg_children :: "ListedChild list"
  pg_token :: string
  pg_truncated :: bool

record ListedXmlPage =
  xp_objects :: "ListedObject list"
  xp_prefixes :: "string list"
  xp_token :: string
  xp_truncated :: bool

definition parse_contents :: "S3Xml \<Rightarrow> string \<Rightarrow> xml_element \<Rightarrow> ListedObject result" where
  "parse_contents x operation child =
     ebind (required_text x child ''Key'') (\<lambda>key_text.
     ebind (percent_decode key_text) (\<lambda>key.
     ebind (required_text x child ''Size'') (\<lambda>size_text.
     (case parse_unsigned_all 64 (trim size_text) of
        None \<Rightarrow> Inl (RuntimeError (operation @ '' returned invalid Size''))
      | Some object_size \<Rightarrow>
          ebind (optional_text x child ''ETag'') (\<lambda>etag.
          ebind (required_text x child ''LastModified'') (\<lambda>modified.
          ebind (parse_s3_mtime (trim modified)) (\<lambda>mtime.
            Inr \<lparr>ob_key = key, ob_etag = etag, ob_mtime = mtime, ob_size = object_size\<rparr>)))))))"

fun parse_list_children ::
  "S3Xml \<Rightarrow> string \<Rightarrow> xml_element list \<Rightarrow> ListedObject list \<times> string list \<Rightarrow>
   (ListedObject list \<times> string list) result" where
  "parse_list_children x operation [] page = Inr page"
| "parse_list_children x operation (child # children) (objects, prefixes) =
     (if named child ''Contents''
      then ebind (parse_contents x operation child)
             (\<lambda>object. parse_list_children x operation children (objects @ [object], prefixes))
      else if named child ''CommonPrefixes''
      then ebind (required_text x child ''Prefix'') (\<lambda>text. ebind (percent_decode text)
             (\<lambda>prefix. parse_list_children x operation children (objects, prefixes @ [prefix])))
      else parse_list_children x operation children (objects, prefixes))"

definition parse_list_xml :: "xml_parser \<Rightarrow> Response \<Rightarrow> string \<Rightarrow> ListedXmlPage result" where
  "parse_list_xml parse response operation =
     ebind (S3Xml_new parse (body response) operation) (\<lambda>x.
     ebind (result_root x ''ListBucketResult'') (\<lambda>root.
     ebind (parse_list_children x operation (child_elements (snd root)) ([], [])) (\<lambda>(objects, prefixes).
     ebind (required_bool x root ''IsTruncated'') (\<lambda>truncated.
     ebind (optional_text x root ''NextContinuationToken'') (\<lambda>token.
       if truncated = (token = [])
       then Inl (RuntimeError (operation @ '' returned inconsistent IsTruncated and NextContinuationToken''))
       else Inr \<lparr>xp_objects = objects, xp_prefixes = prefixes, xp_token = token,
                 xp_truncated = truncated\<rparr>)))))"

definition kDirectoryListLimit :: nat where "kDirectoryListLimit = 1000"

definition directory_request_path :: "string \<Rightarrow> string \<Rightarrow> string \<Rightarrow> string" where
  "directory_request_path bucket_path prefix token =
     (let query = ''delimiter=%2F&encoding-type=url&list-type=2&prefix='' @ uri_encode prefix False;
          query = (if token \<noteq> [] then query @ ''&continuation-token='' @ uri_encode token False else query);
          query = query @ ''&max-keys='' @ to_string kDirectoryListLimit
      in query_path (if bucket_path = [] then ''/'' else bucket_path) query)"

section \<open>Entries of a directory\<close>

definition object_child :: "string \<Rightarrow> ListedObject \<Rightarrow> ListedChild option" where
  "object_child prefix object =
     (let key = ob_key object
      in if \<not> starts_with key prefix \<or> length key = length prefix then None
         else let relative = drop (length prefix) key;
                  marker = (relative \<noteq> [] \<and> last relative = CHR ''/'');
                  relative = (if marker then butlast relative else relative)
              in if \<not> valid_fuse_component relative then None
                 else Some \<lparr>ch_name = relative, ch_mtime = ob_mtime object, ch_size = ob_size object,
                            ch_directory = marker\<rparr>)"

definition prefix_child :: "string \<Rightarrow> string \<Rightarrow> ListedChild option" where
  "prefix_child prefix key =
     (if \<not> starts_with key prefix \<or> length key \<le> length prefix \<or> last key \<noteq> CHR ''/'' then None
      else let relative = drop (length prefix) (butlast key)
           in if \<not> valid_fuse_component relative then None
              else Some \<lparr>ch_name = relative, ch_mtime = 0, ch_size = 0, ch_directory = True\<rparr>)"

definition decode_directory_response :: "xml_parser \<Rightarrow> Response \<Rightarrow> string \<Rightarrow> ListedPage result" where
  "decode_directory_response parse response prefix =
     (if status response \<noteq> 200 then throw_s3_response parse response ''ListObjectsV2''
      else ebind (parse_list_xml parse response ''ListObjectsV2'') (\<lambda>listed.
        Inr \<lparr>pg_children = List.map_filter (object_child prefix) (xp_objects listed) @
                 List.map_filter (prefix_child prefix) (xp_prefixes listed),
             pg_token = xp_token listed, pg_truncated = xp_truncated listed\<rparr>))"

text \<open>The loop over the pages; it ends when the service says so.\<close>

partial_function (option) for_each_directory_page ::
  "(string \<Rightarrow> ListedPage result) \<Rightarrow> string \<Rightarrow> ListedChild list list \<Rightarrow> ListedChild list list result option" where
  "for_each_directory_page fetch token seen =
     (case fetch token of
        Inl e \<Rightarrow> Some (Inl e)
      | Inr page \<Rightarrow>
          if \<not> pg_truncated page then Some (Inr (seen @ [pg_children page]))
          else for_each_directory_page fetch (pg_token page) (seen @ [pg_children page]))"

section \<open>Decoding what was encoded\<close>

lemma list_hex_digit: "n < 16 \<Longrightarrow> list_hex_value (uri_digit n) = n"
proof -
  assume "n < 16"
  then have "n \<in> {0, 1, 2, 3, 4, 5, 6, 7, 8, 9, 10, 11, 12, 13, 14, 15}"
    unfolding insert_iff empty_iff by presburger
  then show ?thesis by (elim insertE emptyE; simp add: uri_digit_def list_hex_value_def)
qed

lemma nibble_or: "b < 16 \<Longrightarrow> push_bit 4 a OR b = a * 16 + b" for a b :: nat
proof -
  assume b: "b < 16"
  have "push_bit 4 a AND b = 0"
  proof (rule bit_eqI)
    fix n :: nat
    have "\<not> bit b n" if "4 \<le> n"
    proof -
      have "(2::nat) ^ 4 \<le> 2 ^ n" using that by (intro power_increasing) auto
      then have "b < 2 ^ n" using b by simp
      then show ?thesis by (simp add: bit_iff_odd)
    qed
    then show "bit (push_bit 4 a AND b) n \<longleftrightarrow> bit (0 :: nat) n"
      by (auto simp: bit_and_iff bit_push_bit_iff)
  qed
  then have "push_bit 4 a OR b = push_bit 4 a + b" by (simp only: disjunctive_add_eq_or)
  then show ?thesis by (simp add: push_bit_eq_mult)
qed

lemma percent_decode_char:
  "percent_decode (uri_encode_char b c @ s) = ebind (percent_decode s) (\<lambda>r. Inr (c # r))"
proof (cases "uri_unreserved b c")
  case True
  then show ?thesis using unreserved_char(1) [OF True] by (simp add: uri_encode_char_def)
next
  case False
  have "char_of (byte_of c div 16 * 16 + byte_of c mod 16) = c" by simp
  then show ?thesis using False
    by (simp add: uri_encode_char_def uri_digit_props list_hex_digit nibble_or)
qed

lemma percent_decode_encode: "percent_decode (uri_encode s b) = Inr s"
  by (induction s) (simp_all add: uri_encode_def percent_decode_char)

lemma decimal_no_space: "trim (to_string n) = to_string n"
proof -
  have d: "decimal_string n (to_string n)" by (rule decimal_string_to_string)
  have "\<not> isspace c" if "isdigit c" for c using that by (auto simp: isspace_def isdigit_def)
  then have ns: "\<forall>c\<in>set (to_string n). \<not> isspace c" using d by (auto simp: decimal_string_def list_all_iff)
  have drop: "dropWhile isspace t = t" if "\<forall>c\<in>set t. \<not> isspace c" for t using that by (cases t) auto
  have "dropWhile isspace (rev (to_string n)) = rev (to_string n)" by (rule drop) (use ns in simp)
  then show ?thesis unfolding trim_def drop [OF ns] by simp
qed

lemma parse_size: "n < 2 ^ 64 \<Longrightarrow> parse_unsigned_all 64 (trim (to_string n)) = Some n"
  unfolding decimal_no_space by (simp add: parse_unsigned_all_Some decimal_string_to_string)

lemma mtime_text:
  assumes "valid_date y m d" "y < 10000" "h < 24" "n < 60" "z < 60" "list_all isdigit fraction"
  shows "parse_s3_mtime (trim (s3_text y m d h n z fraction)) = Inr (calendar_seconds y m d h n z)"
proof -
  have d: "isdigit (hd (write_4digits y))" "length (write_4digits y) = 4"
    using four_digits [OF assms(2)] by (cases "write_4digits y"; simp)+
  obtain c cs where c: "write_4digits y = c # cs" using d(2) by (cases "write_4digits y") auto
  have "\<not> isspace c" using d(1) c by (auto simp: isspace_def isdigit_def)
  moreover have "\<not> isspace (CHR ''Z'')" by (simp add: isspace_def)
  ultimately have "trim (s3_text y m d h n z fraction) = s3_text y m d h n z fraction"
    by (simp add: trim_def s3_text_def c)
  then show ?thesis using mtime_notations_agree [OF assms, of "''Mon''"] by (simp add: http_weekdays_def)
qed

section \<open>Answers of the service\<close>

text \<open>
  A page of a listing as the service documents it. The names of elements may carry a namespace
  prefix, the elements stand in any order among any others, text may come in pieces with
  comments between them, and a key is URL-encoded in any way.
\<close>

definition is_tag :: "string \<Rightarrow> string \<Rightarrow> bool" where
  "is_tag n name \<longleftrightarrow> name = n \<or> (\<exists>p. name = p @ CHR '':'' # n)"

text \<open>The contents of the children of that name, and the text of an element with no child.\<close>

fun fields :: "string \<Rightarrow> xml_node list \<Rightarrow> xml_node list list" where
  "fields n [] = []"
| "fields n (Element name kids # nodes) = (if is_tag n name then kids # fields n nodes else fields n nodes)"
| "fields n (_ # nodes) = fields n nodes"

fun plain_text :: "xml_node list \<Rightarrow> string option" where
  "plain_text [] = Some []"
| "plain_text (Element _ _ # nodes) = None"
| "plain_text (Text t # nodes) = map_option (\<lambda>s. t @ s) (plain_text nodes)"
| "plain_text (Other # nodes) = plain_text nodes"

definition text_field :: "string \<Rightarrow> xml_node list \<Rightarrow> string \<Rightarrow> bool" where
  "text_field n nodes text \<longleftrightarrow> (\<exists>kids. fields n nodes = [kids] \<and> plain_text kids = Some text)"

definition hex_digit :: "char \<Rightarrow> nat \<Rightarrow> bool" where
  "hex_digit c n \<longleftrightarrow> n < 16 \<and> (c = ''0123456789ABCDEF'' ! n \<or> c = ''0123456789abcdef'' ! n)"

inductive url_encoded :: "string \<Rightarrow> string \<Rightarrow> bool" where
  finish: "url_encoded [] []"
| literal: "c \<noteq> CHR ''%'' \<Longrightarrow> url_encoded text s \<Longrightarrow> url_encoded (c # text) (c # s)"
| escape: "hex_digit a m \<Longrightarrow> hex_digit b n \<Longrightarrow> url_encoded text s \<Longrightarrow>
    url_encoded (CHR ''%'' # a # b # text) (char_of (16 * m + n) # s)"

text \<open>An object with its size and its time, and a group of keys.\<close>

definition object_answer :: "xml_node list \<Rightarrow> ListedObject \<Rightarrow> bool" where
  "object_answer nodes ob \<longleftrightarrow>
     (\<exists>key. text_field ''Key'' nodes key \<and> url_encoded key (ob_key ob)) \<and>
     ob_size ob < 2 ^ 64 \<and> text_field ''Size'' nodes (to_string (ob_size ob)) \<and>
     (fields ''ETag'' nodes = [] \<and> ob_etag ob = [] \<or> text_field ''ETag'' nodes (ob_etag ob)) \<and>
     (\<exists>y m d h n z fraction. valid_date y m d \<and> y < 10000 \<and> h < 24 \<and> n < 60 \<and> z < 60 \<and> list_all isdigit fraction \<and>
        text_field ''LastModified'' nodes (s3_text y m d h n z fraction) \<and>
        ob_mtime ob = calendar_seconds y m d h n z)"

definition prefix_answer :: "xml_node list \<Rightarrow> string \<Rightarrow> bool" where
  "prefix_answer nodes prefix \<longleftrightarrow> (\<exists>text. text_field ''Prefix'' nodes text \<and> url_encoded text prefix)"

text \<open>The page: a last page has no continuation token.\<close>

definition list_answer :: "xml_node list \<Rightarrow> ListedObject list \<Rightarrow> string list \<Rightarrow> string \<Rightarrow> bool" where
  "list_answer document objects prefixes token \<longleftrightarrow>
     (\<exists>name nodes others. child_elements document = (name, nodes) # others \<and> is_tag ''ListBucketResult'' name \<and>
        list_all2 object_answer (fields ''Contents'' nodes) objects \<and>
        list_all2 prefix_answer (fields ''CommonPrefixes'' nodes) prefixes \<and>
        (\<exists>text. text \<in> (if token = [] then {''false'', ''0''} else {''true'', ''1''}) \<and>
           text_field ''IsTruncated'' nodes text) \<and>
        (token = [] \<and> fields ''NextContinuationToken'' nodes = [] \<or>
         text_field ''NextContinuationToken'' nodes token))"

lemmas xml_eval = named_def local_name_def first_child_def unique_child_def required_text_def
  optional_text_def element_text_def

lemma is_tag_local:
  assumes n: "CHR '':'' \<notin> set n"
  shows "is_tag n name \<longleftrightarrow> local_name name = n"
proof
  have "takeWhile (\<lambda>c. c \<noteq> CHR '':'') (rev n @ CHR '':'' # r) = rev n" for r
    using n by (subst takeWhile_append2) auto
  moreover have "takeWhile (\<lambda>c. c \<noteq> CHR '':'') (rev n) = rev n"
    using n by (subst takeWhile_eq_all_conv) auto
  moreover assume "is_tag n name"
  ultimately show "local_name name = n" unfolding is_tag_def local_name_def
    by (elim disjE exE) (simp_all only: rev_append rev.simps append_assoc append.simps rev_rev_ident)
next
  assume "local_name name = n"
  then have t: "takeWhile (\<lambda>c. c \<noteq> CHR '':'') (rev name) = rev n" by (auto simp: local_name_def)
  have split: "rev name = rev n @ dropWhile (\<lambda>c. c \<noteq> CHR '':'') (rev name)"
    using takeWhile_dropWhile_id [of "\<lambda>c. c \<noteq> CHR '':''" "rev name"] unfolding t by simp
  show "is_tag n name"
  proof (cases "dropWhile (\<lambda>c. c \<noteq> CHR '':'') (rev name)")
    case Nil
    then have "rev name = rev n" using split by (simp only: append_Nil2)
    then show ?thesis by (simp add: is_tag_def)
  next
    case (Cons c r)
    then have "c = CHR '':''" using hd_dropWhile [of "\<lambda>c. c \<noteq> CHR '':''" "rev name"] by simp
    then have "rev name = rev n @ CHR '':'' # r" using split unfolding Cons by simp
    then have "name = rev (rev n @ CHR '':'' # r)" by (metis rev_rev_ident)
    then show ?thesis by (auto simp: is_tag_def)
  qed
qed

lemma named_tag: "CHR '':'' \<notin> set n \<Longrightarrow> named (name, kids) n \<longleftrightarrow> is_tag n name"
  by (simp add: named_def is_tag_local)

text \<open>How the reader finds a field.\<close>

lemma next_sibling_fields:
  assumes "CHR '':'' \<notin> set n"
  shows "fields n nodes = [] \<Longrightarrow> next_sibling (child_elements nodes) n = None"
    "fields n nodes = kids # ks \<Longrightarrow> \<exists>name rest. next_sibling (child_elements nodes) n =
       Some ((name, kids), child_elements rest) \<and> fields n rest = ks"
proof -
  show "fields n nodes = [] \<Longrightarrow> next_sibling (child_elements nodes) n = None"
    using assms by (induction n nodes rule: fields.induct) (auto simp: named_tag split: if_splits)
  show "fields n nodes = kids # ks \<Longrightarrow> \<exists>name rest. next_sibling (child_elements nodes) n =
       Some ((name, kids), child_elements rest) \<and> fields n rest = ks"
    using assms
    by (induction n nodes rule: fields.induct) (auto simp: named_tag split: if_splits)
qed

lemma element_text_plain: "plain_text kids = Some tx \<Longrightarrow> element_text x (name, kids) = Inr tx"
proof -
  have "plain_text kids = Some tx \<Longrightarrow> element_text_loop x name kids acc = Inr (acc @ tx)" for acc
    by (induction kids arbitrary: tx acc rule: plain_text.induct) auto
  then show "plain_text kids = Some tx \<Longrightarrow> element_text x (name, kids) = Inr tx"
    by (simp add: element_text_def)
qed

lemma unique_child_fields:
  assumes "CHR '':'' \<notin> set n"
  shows "fields n nodes = [] \<Longrightarrow> unique_child x (parent, nodes) n False = Inr None"
    "fields n nodes = [kids] \<Longrightarrow> \<exists>name. unique_child x (parent, nodes) n required = Inr (Some (name, kids))"
proof -
  show "fields n nodes = [] \<Longrightarrow> unique_child x (parent, nodes) n False = Inr None"
    using next_sibling_fields(1) [OF assms] by (simp add: unique_child_def first_child_def)
  assume "fields n nodes = [kids]"
  then obtain name rest where "next_sibling (child_elements nodes) n = Some ((name, kids), child_elements rest)"
      "fields n rest = []"
    using next_sibling_fields(2) [OF assms] by blast
  then show "\<exists>name. unique_child x (parent, nodes) n required = Inr (Some (name, kids))"
    using next_sibling_fields(1) [OF assms] by (simp add: unique_child_def first_child_def)
qed

lemma text_fields:
  assumes "CHR '':'' \<notin> set n"
  shows "text_field n nodes tx \<Longrightarrow> required_text x (parent, nodes) n = Inr tx"
    "text_field n nodes tx \<Longrightarrow> optional_text x (parent, nodes) n = Inr tx"
    "fields n nodes = [] \<Longrightarrow> optional_text x (parent, nodes) n = Inr []"
proof -
  show "required_text x (parent, nodes) n = Inr tx" "optional_text x (parent, nodes) n = Inr tx" if given: "text_field n nodes tx"
  proof -
    obtain kids where kids: "fields n nodes = [kids]" "plain_text kids = Some tx" using given by (auto simp: text_field_def)
    obtain name where "unique_child x (parent, nodes) n True = Inr (Some (name, kids))"
      using unique_child_fields(2) [OF assms kids(1)] by blast
    then show "required_text x (parent, nodes) n = Inr tx"
      using element_text_plain [OF kids(2)] by (simp add: required_text_def)
    obtain name where "unique_child x (parent, nodes) n False = Inr (Some (name, kids))"
      using unique_child_fields(2) [OF assms kids(1)] by blast
    then show "optional_text x (parent, nodes) n = Inr tx"
      using element_text_plain [OF kids(2)] by (simp add: optional_text_def)
  qed
  show "fields n nodes = [] \<Longrightarrow> optional_text x (parent, nodes) n = Inr []"
    using unique_child_fields(1) [OF assms] by (simp add: optional_text_def)
qed

lemma hex_digit_code: "hex_digit c n \<Longrightarrow> isxdigit c \<and> list_hex_value c = n \<and> n < 16"
proof -
  assume c: "hex_digit c n"
  then have "n < 16" by (simp add: hex_digit_def)
  then have "n \<in> {0, 1, 2, 3, 4, 5, 6, 7, 8, 9, 10, 11, 12, 13, 14, 15}"
    unfolding insert_iff empty_iff by presburger
  then show ?thesis using c
    by (elim insertE emptyE) (auto simp: hex_digit_def list_hex_value_def isxdigit_def isdigit_def)
qed

lemma percent_decode_url: "url_encoded tx s \<Longrightarrow> percent_decode tx = Inr s"
proof (induction rule: url_encoded.induct)
  case (escape a m b n tx s)
  then show ?case using hex_digit_code [of a m] hex_digit_code [of b n] by (simp add: nibble_or mult.commute)
qed auto

lemma parse_contents_answer:
  assumes "object_answer nodes ob"
  shows "parse_contents x operation (name, nodes) = Inr ob"
proof -
  obtain key where key: "text_field ''Key'' nodes key" "url_encoded key (ob_key ob)"
    using assms by (auto simp: object_answer_def)
  obtain modified where m: "text_field ''LastModified'' nodes modified" "parse_s3_mtime (trim modified) = Inr (ob_mtime ob)"
    using assms mtime_text by (force simp: object_answer_def)
  have sz: "text_field ''Size'' nodes (to_string (ob_size ob))" "parse_unsigned_all 64 (trim (to_string (ob_size ob))) = Some (ob_size ob)"
    and etag: "optional_text x (name, nodes) ''ETag'' = Inr (ob_etag ob)"
    using assms parse_size text_fields [of "''ETag''"] by (auto simp: object_answer_def)
  have texts: "required_text x (name, nodes) ''Key'' = Inr key" "required_text x (name, nodes) ''LastModified'' = Inr modified"
    "required_text x (name, nodes) ''Size'' = Inr (to_string (ob_size ob))"
    using key(1) m(1) sz(1) by (intro text_fields; simp)+
  show ?thesis
    unfolding parse_contents_def texts etag percent_decode_url [OF key(2)] ebind.simps sz(2) m(2) option.case by simp
qed

lemma parse_prefix_answer:
  assumes "prefix_answer nodes prefix"
  shows "\<exists>tx. required_text x (name, nodes) ''Prefix'' = Inr tx \<and> percent_decode tx = Inr prefix"
  using assms text_fields(1) [of "''Prefix''" nodes _ x name] percent_decode_url by (fastforce simp: prefix_answer_def)

lemma parse_list_answer:
  assumes "list_all2 object_answer (fields ''Contents'' nodes) objects"
    "list_all2 prefix_answer (fields ''CommonPrefixes'' nodes) prefixes"
  shows "parse_list_children x operation (child_elements nodes) (os, ps) = Inr (os @ objects, ps @ prefixes)"
  using assms
proof (induction nodes arbitrary: objects prefixes os ps rule: child_elements.induct)
  case (2 name kids nodes)
  note IH = 2(1) and objs = 2(2) and pres = 2(3)
  have disj: "\<not> (is_tag ''Contents'' name \<and> is_tag ''CommonPrefixes'' name)" by (simp add: is_tag_local)
  consider "is_tag ''Contents'' name" | "is_tag ''CommonPrefixes'' name" "\<not> is_tag ''Contents'' name"
    | "\<not> is_tag ''Contents'' name" "\<not> is_tag ''CommonPrefixes'' name" by blast
  then show ?case
  proof cases
    case 1
    then obtain ob obs where ob: "objects = ob # obs" "object_answer kids ob"
        "list_all2 object_answer (fields ''Contents'' nodes) obs"
      using objs by (auto simp: list_all2_Cons1)
    from IH [OF ob(3), of prefixes "os @ [ob]" ps] 1 disj pres show ?thesis
      by (simp add: named_tag ob(1) parse_contents_answer [OF ob(2)])
  next
    case 2
    note tag = this
    obtain p pre where p: "prefixes = p # pre" "prefix_answer kids p"
        "list_all2 prefix_answer (fields ''CommonPrefixes'' nodes) pre"
      using pres tag by (auto simp: list_all2_Cons1)
    obtain tx where tx: "required_text x (name, kids) ''Prefix'' = Inr tx" "percent_decode tx = Inr p"
      using parse_prefix_answer [OF p(2)] by blast
    from IH [OF _ p(3), of objects os "ps @ [p]"] tag objs show ?thesis
      by (simp add: named_tag p(1) tx)
  next
    case 3
    then show ?thesis using IH [of objects prefixes os ps] objs pres by (simp add: named_tag)
  qed
qed (auto simp: list_all2_Nil)

lemma trim_booleans: "trim ''false'' = ''false''" "trim ''true'' = ''true''" "trim ''0'' = ''0''" "trim ''1'' = ''1''"
  by (simp_all add: trim_def isspace_def)

lemma parse_list_document:
  assumes "CHR 0x00 \<notin> set (body r)" "parse (body r) = Inr document" "list_answer document objects prefixes token"
  shows "parse_list_xml parse r operation =
    Inr \<lparr>xp_objects = objects, xp_prefixes = prefixes, xp_token = token, xp_truncated = (token \<noteq> [])\<rparr>"
proof -
  obtain name nodes others where d: "child_elements document = (name, nodes) # others" "is_tag ''ListBucketResult'' name"
      "list_all2 object_answer (fields ''Contents'' nodes) objects"
      "list_all2 prefix_answer (fields ''CommonPrefixes'' nodes) prefixes"
    and truncated: "\<exists>tx. tx \<in> (if token = [] then {''false'', ''0''} else {''true'', ''1''}) \<and>
        text_field ''IsTruncated'' nodes tx"
    and next_token: "token = [] \<and> fields ''NextContinuationToken'' nodes = [] \<or>
        text_field ''NextContinuationToken'' nodes token"
    using assms(3) unfolding list_answer_def by blast
  let ?x = "\<lparr>x_root = (name, nodes), x_operation = operation\<rparr>"
  have x: "S3Xml_new parse (body r) operation = Inr ?x"
    using assms(1,2) d(1) by (simp add: S3Xml_new_def)
  have "local_name name = ''ListBucketResult''" using d(2) by (simp add: is_tag_local)
  then have root: "result_root ?x ''ListBucketResult'' = Inr (name, nodes)"
    by (simp add: result_root_def root_is_def xml_root_def named_def)
  have kids: "parse_list_children ?x operation (child_elements nodes) ([], []) = Inr (objects, prefixes)"
    using parse_list_answer [OF d(3,4), of ?x operation "[]" "[]"] by simp
  obtain tx where tx: "tx \<in> (if token = [] then {''false'', ''0''} else {''true'', ''1''})"
      "text_field ''IsTruncated'' nodes tx" using truncated by blast
  have bool: "required_bool ?x (name, nodes) ''IsTruncated'' = Inr (token \<noteq> [])"
    using tx(1) text_fields(1) [OF _ tx(2), of ?x name]
    by (auto simp: required_bool_def Let_def trim_booleans split: if_splits)
  have tok: "optional_text ?x (name, nodes) ''NextContinuationToken'' = Inr token"
    using next_token text_fields(2,3) [of "''NextContinuationToken''" nodes] by auto
  show ?thesis
    unfolding parse_list_xml_def x ebind.simps root snd_conv kids prod.case bool tok by simp
qed

section \<open>Children\<close>

lemma valid_no_slash: "valid_fuse_component n \<Longrightarrow> n \<noteq> [] \<and> last n \<noteq> CHR ''/''"
  by (metis last_in_set valid_fuse_component_def)

lemma object_child_iff:
  "(\<exists>t z. object_child prefix ob = Some \<lparr>ch_name = n, ch_mtime = t, ch_size = z, ch_directory = d\<rparr>) \<longleftrightarrow>
   valid_fuse_component n \<and> ob_key ob = prefix @ n @ (if d then ''/'' else [])"
proof
  assume "valid_fuse_component n \<and> ob_key ob = prefix @ n @ (if d then ''/'' else [])"
  then show "\<exists>t z. object_child prefix ob = Some \<lparr>ch_name = n, ch_mtime = t, ch_size = z, ch_directory = d\<rparr>"
    using valid_no_slash [of n] by (cases d) (auto simp: object_child_def Let_def)
next
  assume "\<exists>t z. object_child prefix ob = Some \<lparr>ch_name = n, ch_mtime = t, ch_size = z, ch_directory = d\<rparr>"
  then show "valid_fuse_component n \<and> ob_key ob = prefix @ n @ (if d then ''/'' else [])"
    by (auto simp: object_child_def Let_def starts_with_iff split: if_splits)
      (metis append_butlast_last_id)
qed

lemma prefix_child_iff:
  "(\<exists>t z. prefix_child prefix p = Some \<lparr>ch_name = n, ch_mtime = t, ch_size = z, ch_directory = d\<rparr>) \<longleftrightarrow>
   d \<and> valid_fuse_component n \<and> p = prefix @ n @ ''/''"
proof
  assume "d \<and> valid_fuse_component n \<and> p = prefix @ n @ ''/''"
  then show "\<exists>t z. prefix_child prefix p = Some \<lparr>ch_name = n, ch_mtime = t, ch_size = z, ch_directory = d\<rparr>"
    by (auto simp: prefix_child_def Let_def butlast_append)
next
  assume "\<exists>t z. prefix_child prefix p = Some \<lparr>ch_name = n, ch_mtime = t, ch_size = z, ch_directory = d\<rparr>"
  then have p: "starts_with p prefix" "length prefix < length p" "last p = CHR ''/''"
    "valid_fuse_component n" "d" "n = drop (length prefix) (butlast p)"
    by (auto simp: prefix_child_def Let_def split: if_splits)
  obtain q where q: "p = prefix @ q" using p(1) by (auto simp: starts_with_iff)
  then have "q \<noteq> []" "last q = CHR ''/''" using p(2,3) by auto
  then have "q = n @ ''/''" using p(6) q append_butlast_last_id [of q] by (simp add: butlast_append)
  then show "d \<and> valid_fuse_component n \<and> p = prefix @ n @ ''/''" using p(4,5) q by simp
qed


lemma object_child_entry:
  "map_option (\<lambda>c. (ch_name c, ch_directory c)) (object_child prefix ob) = Some (n, d) \<longleftrightarrow>
   valid_fuse_component n \<and> ob_key ob = prefix @ n @ (if d then ''/'' else [])"
proof -
  have "map_option (\<lambda>c. (ch_name c, ch_directory c)) (object_child prefix ob) = Some (n, d) \<longleftrightarrow>
      (\<exists>t z. object_child prefix ob = Some \<lparr>ch_name = n, ch_mtime = t, ch_size = z, ch_directory = d\<rparr>)"
    by (auto simp: object_child_def Let_def)
  then show ?thesis unfolding object_child_iff .
qed

lemma prefix_child_entry:
  "map_option (\<lambda>c. (ch_name c, ch_directory c)) (prefix_child prefix p) = Some (n, d) \<longleftrightarrow>
   d \<and> valid_fuse_component n \<and> p = prefix @ n @ ''/''"
proof -
  have "map_option (\<lambda>c. (ch_name c, ch_directory c)) (prefix_child prefix p) = Some (n, d) \<longleftrightarrow>
      (\<exists>t z. prefix_child prefix p = Some \<lparr>ch_name = n, ch_mtime = t, ch_size = z, ch_directory = d\<rparr>)"
    by (auto simp: prefix_child_def Let_def)
  then show ?thesis unfolding prefix_child_iff .
qed

lemma set_map_filter_entry:
  "(n, d) \<in> (\<lambda>c. (ch_name c, ch_directory c)) ` set (List.map_filter f xs) \<longleftrightarrow>
   (\<exists>x\<in>set xs. map_option (\<lambda>c. (ch_name c, ch_directory c)) (f x) = Some (n, d))"
proof -
  have "set (List.map_filter f xs) = {c. \<exists>x\<in>set xs. f x = Some c}"
    by (force simp: List.map_filter_def image_iff)
  then show ?thesis by (auto simp: image_iff)
qed

section \<open>What a directory shows\<close>

text \<open>
  The service, from its documentation: the answer to a token is a page of the listing, in any
  form \<open>list_answer\<close> allows, and the pages together hold, for a prefix and the delimiter \<open>/\<close>, the keys with no further delimiter and
  the distinct groups of the others.
\<close>

type_synonym page = "ListedObject list \<times> string list"

fun serves :: "xml_parser \<Rightarrow> (string \<Rightarrow> Response) \<Rightarrow> string \<Rightarrow> (page \<times> string) list \<Rightarrow> bool" where
  "serves parse respond token [] = False"
| "serves parse respond token (((objects, prefixes), token') # pages) =
     (status (respond token) = 200 \<and> CHR 0x00 \<notin> set (body (respond token)) \<and>
      (case parse (body (respond token)) of
         Inl _ \<Rightarrow> False | Inr document \<Rightarrow> list_answer document objects prefixes token') \<and>
      (if token' = [] then pages = [] else serves parse respond token' pages))"

definition delimited :: "string set \<Rightarrow> string \<Rightarrow> (page \<times> string) list \<Rightarrow> bool" where
  "delimited keys prefix pages \<longleftrightarrow>
     ob_key ` (\<Union>p\<in>set pages. set (fst (fst p))) = {k \<in> keys. \<exists>n. k = prefix @ n \<and> CHR ''/'' \<notin> set n} \<and>
     (\<Union>p\<in>set pages. set (snd (fst p))) =
       {prefix @ n @ ''/'' | n. CHR ''/'' \<notin> set n \<and> (\<exists>r. prefix @ n @ ''/'' @ r \<in> keys)}"

definition page_children :: "string \<Rightarrow> page \<Rightarrow> ListedChild list" where
  "page_children prefix pg = List.map_filter (object_child prefix) (fst pg) @
     List.map_filter (prefix_child prefix) (snd pg)"

lemma decode_served:
  assumes "serves parse respond token ((pg, token') # pages)"
  shows "decode_directory_response parse (respond token) prefix =
    Inr \<lparr>pg_children = page_children prefix pg, pg_token = token', pg_truncated = (token' \<noteq> [])\<rparr>"
proof -
  obtain objects prefixes where pg: "pg = (objects, prefixes)" by (cases pg)
  have "parse_list_xml parse (respond token) ''ListObjectsV2'' =
      Inr \<lparr>xp_objects = objects, xp_prefixes = prefixes, xp_token = token', xp_truncated = (token' \<noteq> [])\<rparr>"
    using assms unfolding pg by (auto split: sum.splits intro: parse_list_document)
  then show ?thesis using assms unfolding pg by (simp add: decode_directory_response_def page_children_def)
qed

lemma for_each_page_served:
  "serves parse respond token pages \<Longrightarrow>
   for_each_directory_page (\<lambda>token. decode_directory_response parse (respond token) prefix) token seen =
     Some (Inr (seen @ map (page_children prefix \<circ> fst) pages))"
proof (induction pages arbitrary: token seen)
  case Nil
  then show ?case by simp
next
  case (Cons p pages)
  obtain pg token' where p: "p = (pg, token')" by (cases p)
  note d = decode_served [OF Cons.prems [unfolded p], of prefix]
  show ?case
  proof (cases "token' = []")
    case True
    then have "pages = []" using Cons.prems unfolding p by (cases pg) simp
    then show ?thesis using True by (subst for_each_directory_page.simps) (simp add: d p)
  next
    case False
    then have "serves parse respond token' pages" using Cons.prems unfolding p by (cases pg) simp
    from Cons.IH [OF this] show ?thesis
      using False by (subst for_each_directory_page.simps) (simp add: d p)
  qed
qed

lemma page_children_entry:
  "(n, d) \<in> (\<lambda>c. (ch_name c, ch_directory c)) ` set (page_children prefix pg) \<longleftrightarrow>
   valid_fuse_component n \<and>
   ((\<exists>ob\<in>set (fst pg). ob_key ob = prefix @ n @ (if d then ''/'' else [])) \<or>
    d \<and> prefix @ n @ ''/'' \<in> set (snd pg))"
  unfolding page_children_def set_append image_Un Un_iff set_map_filter_entry object_child_entry prefix_child_entry
  by auto

lemma delimited_entry:
  assumes "delimited keys prefix pages" "valid_fuse_component n"
  shows "(\<exists>p\<in>set pages. (\<exists>ob\<in>set (fst (fst p)). ob_key ob = prefix @ n @ (if d then ''/'' else [])) \<or>
      d \<and> prefix @ n @ ''/'' \<in> set (snd (fst p))) \<longleftrightarrow>
    (if d then \<exists>r. prefix @ n @ ''/'' @ r \<in> keys else prefix @ n \<in> keys)"
proof -
  have n: "CHR ''/'' \<notin> set n" using assms(2) by (simp add: valid_fuse_component_def)
  have ob: "(\<exists>p\<in>set pages. \<exists>ob\<in>set (fst (fst p)). ob_key ob = k) \<longleftrightarrow>
      k \<in> ob_key ` (\<Union>p\<in>set pages. set (fst (fst p)))" for k by force
  have pre: "(\<exists>p\<in>set pages. k \<in> set (snd (fst p))) \<longleftrightarrow> k \<in> (\<Union>p\<in>set pages. set (snd (fst p)))" for k by blast
  have o: "(\<exists>p\<in>set pages. \<exists>ob\<in>set (fst (fst p)). ob_key ob = prefix @ n @ (if d then ''/'' else [])) \<longleftrightarrow>
      \<not> d \<and> prefix @ n \<in> keys"
    unfolding ob using assms(1) n by (auto simp: delimited_def)
  have p: "(\<exists>p\<in>set pages. prefix @ n @ ''/'' \<in> set (snd (fst p))) \<longleftrightarrow> (\<exists>r. prefix @ n @ ''/'' @ r \<in> keys)"
    unfolding pre using assms(1) n by (auto simp: delimited_def)
  show ?thesis unfolding bex_disj_distrib o using p by (cases d) simp_all
qed

text \<open>
  C18. A directory shows what the bucket holds: over any service that pages the delimited
  listing of a prefix as documented, the loop over the pages ends, and the entries it delivers
  are exactly the usable names \<open>n\<close> such that the bucket has the key \<open>prefix n\<close> (a file) or some
  key below \<open>prefix n/\<close> (a directory).
\<close>

theorem directory_listing_shows_bucket:
  assumes "serves parse respond [] pages" "delimited keys prefix pages"
  shows "\<exists>out. for_each_directory_page (\<lambda>token. decode_directory_response parse (respond token) prefix) [] [] =
      Some (Inr out) \<and>
    (\<lambda>c. (ch_name c, ch_directory c)) ` set (concat out) =
      {(n, d). valid_fuse_component n \<and> (if d then \<exists>r. prefix @ n @ ''/'' @ r \<in> keys else prefix @ n \<in> keys)}"
proof -
  let ?f = "\<lambda>c :: ListedChild. (ch_name c, ch_directory c)"
  let ?out = "map (page_children prefix \<circ> fst) pages"
  have "(n, d) \<in> ?f ` set (concat ?out) \<longleftrightarrow> (\<exists>p\<in>set pages. (n, d) \<in> ?f ` set (page_children prefix (fst p)))" for n d
    by auto
  then have "(n, d) \<in> ?f ` set (concat ?out) \<longleftrightarrow> valid_fuse_component n \<and>
      (if d then \<exists>r. prefix @ n @ ''/'' @ r \<in> keys else prefix @ n \<in> keys)" for n d
    unfolding page_children_entry using delimited_entry [OF assms(2), of n d] by blast
  then have "?f ` set (concat ?out) =
      {(n, d). valid_fuse_component n \<and> (if d then \<exists>r. prefix @ n @ ''/'' @ r \<in> keys else prefix @ n \<in> keys)}"
    by (simp only: set_eq_iff split_paired_all mem_Collect_eq prod.case) simp
  then show ?thesis using for_each_page_served [OF assms(1), of prefix "[]"] by auto
qed


text \<open>A bucket with a file and a directory below \<open>d/\<close>, listed in two pages.\<close>

definition ex_object :: ListedObject where
  "ex_object = \<lparr>ob_key = ''d/a'', ob_etag = ''e'', ob_mtime = 86407, ob_size = 7\<rparr>"

definition ex_pages :: "(page \<times> string) list" where
  "ex_pages = [(([ex_object], []), ''t''), (([], [''d/b/'']), [])]"

definition ex_list_response :: "string \<Rightarrow> Response" where
  "ex_list_response token = \<lparr>status = 200, headers = (\<lambda>n. None), body = ''<'' @ token\<rparr>"

text \<open>The first page has a namespace prefix and elements the program does not know.\<close>

definition ex_list_parse :: xml_parser where
  "ex_list_parse text = Inr (
     if text = ''<''
     then [Other, Element ''s3:ListBucketResult''
       [Element ''s3:Name'' [Text ''bucket''], Element ''s3:IsTruncated'' [Text ''1''],
        Element ''s3:NextContinuationToken'' [Text ''t''], Element ''s3:KeyCount'' [Text ''1''],
        Element ''s3:Contents'' [Element ''s3:Key'' [Text ''d%2'', Other, Text ''Fa''], Element ''s3:StorageClass'' [Text ''STANDARD''],
          Element ''s3:Size'' [Text ''7''], Element ''s3:ETag'' [Text ''e''],
          Element ''s3:LastModified'' [Text (s3_text 1970 1 2 0 0 7 [])]]]]
     else [Element ''ListBucketResult''
       [Element ''Prefix'' [Text ''d/''], Element ''CommonPrefixes'' [Element ''Prefix'' [Text ''d%2fb/'']],
        Element ''IsTruncated'' [Text ''false'']]])"

lemma ex_url: "url_encoded ''d%2Fa'' ''d/a''" "url_encoded ''d%2fb/'' ''d/b/''"
proof -
  have h: "hex_digit (CHR ''2'') 2" "hex_digit (CHR ''F'') 15" "hex_digit (CHR ''f'') 15"
    by (simp_all add: hex_digit_def)
  have c: "char_of (16 * 2 + 15 :: nat) = CHR ''/''" by code_simp
  note slash = url_encoded.escape [OF h(1) h(2), unfolded c] url_encoded.escape [OF h(1) h(3), unfolded c]
  show "url_encoded ''d%2Fa'' ''d/a''" "url_encoded ''d%2fb/'' ''d/b/''"
    by (intro url_encoded.finish url_encoded.literal slash; simp)+
qed

lemma ex_object_answer:
  "object_answer [Element ''s3:Key'' [Text ''d%2'', Other, Text ''Fa''], Element ''s3:StorageClass'' [Text ''STANDARD''],
     Element ''s3:Size'' [Text ''7''], Element ''s3:ETag'' [Text ''e''],
     Element ''s3:LastModified'' [Text (s3_text 1970 1 2 0 0 7 [])]] ex_object"
  (is "object_answer ?nodes _")
proof -
  have "to_string 7 = ''7''" by code_simp
  then have texts: "text_field ''Key'' ?nodes ''d%2Fa''" "text_field ''Size'' ?nodes (to_string 7)"
      "text_field ''ETag'' ?nodes ''e''" "text_field ''LastModified'' ?nodes (s3_text 1970 1 2 0 0 7 [])"
    by (simp_all add: text_field_def is_tag_local local_name_def)
  moreover have "valid_date 1970 1 2 \<and> (1970::nat) < 10000 \<and> (0::nat) < 24 \<and> (0::nat) < 60 \<and> (7::nat) < 60 \<and> list_all isdigit []"
    by (simp add: valid_date_def month_len_def month_days_def)
  moreover have "calendar_seconds 1970 1 2 0 0 7 = 86407"
    by (simp add: calendar_seconds_def calendar_day_def)
  ultimately show ?thesis
    unfolding object_answer_def ex_object_def ListedObject.simps using ex_url(1)
    by (intro conjI) (blast, simp, blast, blast, metis)
qed

lemma ex_serves: "serves ex_list_parse ex_list_response [] ex_pages"
proof -
  have first: "list_answer (projr (ex_list_parse ''<'')) [ex_object] [] ''t''"
    by (simp add: list_answer_def ex_list_parse_def is_tag_local local_name_def text_field_def
        ex_object_answer [unfolded One_nat_def])
  have second: "list_answer (projr (ex_list_parse ''<t'')) [] [''d/b/''] []"
    using ex_url(2)
    by (simp add: list_answer_def ex_list_parse_def is_tag_local local_name_def text_field_def prefix_answer_def)
  show ?thesis using first second by (simp add: ex_pages_def ex_list_response_def ex_list_parse_def)
qed

lemma ex_delimited: "delimited {''d/a'', ''d/b/c'', ''x''} ''d/'' ex_pages"
  by (auto simp: delimited_def ex_pages_def ex_object_def append_eq_Cons_conv Cons_eq_append_conv)

theorem directory_listing_shows_bucket_witness:
  "\<exists>out. for_each_directory_page
      (\<lambda>token. decode_directory_response ex_list_parse (ex_list_response token) ''d/'') [] [] = Some (Inr out) \<and>
     (\<lambda>c. (ch_name c, ch_directory c)) ` set (concat out) = {(''a'', False), (''b'', True)}"
proof -
  have v: "valid_fuse_component ''a''" "valid_fuse_component ''b''"
    by (simp_all add: valid_fuse_component_def NAME_MAX_def kInternalDeleteDirectory_def)
  have "{(n, d). valid_fuse_component n \<and> (if d then \<exists>r. ''d/'' @ n @ ''/'' @ r \<in> {''d/a'', ''d/b/c'', ''x''}
      else ''d/'' @ n \<in> {''d/a'', ''d/b/c'', ''x''})} = {(''a'', False), (''b'', True)}"
    using v by (auto simp: append_eq_Cons_conv Cons_eq_append_conv valid_fuse_component_def split: if_splits)
  then show ?thesis using directory_listing_shows_bucket [OF ex_serves ex_delimited] by (simp only:)
qed

lemma parse_list_children_sizes:
  assumes "parse_list_children x operation children (objects, prefixes) = Inr (objects', prefixes')"
    "list_all (\<lambda>ob. ob_size ob < 2 ^ 64) objects"
  shows "list_all (\<lambda>ob. ob_size ob < 2 ^ 64) objects'"
  using assms
proof (induction x operation children "(objects, prefixes)" arbitrary: objects prefixes
    rule: parse_list_children.induct)
  case (1 x operation)
  then show ?case by simp
next
  case (2 x operation child children objects prefixes)
  have "ob_size ob < 2 ^ 64" if "parse_contents x operation child = Inr ob" for ob
    using that by (auto simp: parse_contents_def ebind_Inr_iff parse_unsigned_all_Some split: option.splits)
  then show ?case using 2 by (auto simp: ebind_Inr_iff split: if_splits)
qed

lemma object_child_ok:
  "object_child prefix ob = Some c \<Longrightarrow> valid_fuse_component (ch_name c) \<and> ch_size c = ob_size ob"
  "prefix_child prefix p = Some c \<Longrightarrow> valid_fuse_component (ch_name c) \<and> ch_size c = 0"
  by (auto simp: object_child_def prefix_child_def Let_def split: if_splits)

text \<open>
  C19. Whatever the service answers, a page that is accepted is well formed: every name is one
  the kernel may be given (not empty, at most 255 bytes, no \<open>/\<close> and no null byte, not \<open>.\<close>, \<open>..\<close> or the
  reserved directory), every size fits 64 bits, and there is a continuation token exactly when
  the page is not the last.
\<close>

theorem listed_page_is_well_formed:
  "case decode_directory_response parse response prefix of
     Inl e \<Rightarrow> True
   | Inr page \<Rightarrow> status response = 200 \<and> pg_truncated page = (pg_token page \<noteq> []) \<and>
       list_all (\<lambda>c. valid_fuse_component (ch_name c) \<and> ch_size c < 2 ^ 64) (pg_children page)"
proof (cases "decode_directory_response parse response prefix")
  case (Inr page)
  have st: "status response = 200"
    using Inr by (simp add: decode_directory_response_def throw_s3_response_def Let_def split: if_splits)
  then obtain listed where l: "parse_list_xml parse response ''ListObjectsV2'' = Inr listed"
    "pg_children page = List.map_filter (object_child prefix) (xp_objects listed) @
       List.map_filter (prefix_child prefix) (xp_prefixes listed)"
    "pg_token page = xp_token listed" "pg_truncated page = xp_truncated listed"
    using Inr by (auto simp: decode_directory_response_def ebind_Inr_iff)
  obtain x cs ps where "parse_list_children x ''ListObjectsV2'' cs ([], []) = Inr (xp_objects listed, ps)"
    and t: "xp_truncated listed = (xp_token listed \<noteq> [])"
    using l(1) by (auto simp: parse_list_xml_def ebind_Inr_iff split: if_splits)
  then have "list_all (\<lambda>ob. ob_size ob < 2 ^ 64) (xp_objects listed)"
    using parse_list_children_sizes by fastforce
  then show ?thesis
    using st l t object_child_ok by (fastforce simp: Inr list_all_iff List.map_filter_def)
qed simp

end
