(* ===== verification/Fuse_Manifest.thy ===== *)
theory Fuse_Manifest
  imports Checksum Cache_Entry_Example Fuse_List
begin

text \<open>
  The checksums of the parts of a multipart object (\<^verbatim>\<open>src/src/fuse.cpp\<close>, from
  \<open>part_checksum\<close> to \<open>ensure_checksum_manifest\<close>): the pages of \<open>GetObjectAttributes\<close>, the loop that asks
  for them, and the hand-over to the cache entry. Signing and sending the \<open>n\<close>-th request is the
  parameter \<open>fetch\<close>.
\<close>

section \<open>The code\<close>

definition kMaximumMultipartParts :: nat where "kMaximumMultipartParts = 10000"

fun algorithm_number :: "ChecksumAlgorithm \<Rightarrow> nat" where
  "algorithm_number CHECKSUM_AUTO = 0"
| "algorithm_number CHECKSUM_PROTOCOL_DEFAULT = 1"
| "algorithm_number CHECKSUM_NONE = 2"
| "algorithm_number CHECKSUM_CRC32 = 3"
| "algorithm_number CHECKSUM_CRC32C = 4"
| "algorithm_number CHECKSUM_CRC64NVME = 5"
| "algorithm_number CHECKSUM_SHA1 = 6"
| "algorithm_number CHECKSUM_SHA256 = 7"
| "algorithm_number CHECKSUM_MD5 = 8"
| "algorithm_number CHECKSUM_XXHASH64 = 9"
| "algorithm_number CHECKSUM_XXHASH3 = 10"
| "algorithm_number CHECKSUM_XXHASH128 = 11"
| "algorithm_number CHECKSUM_SHA512 = 12"
| "algorithm_number CHECKSUM_CRC64XZ = 13"

definition part_algorithms :: "ChecksumAlgorithm list" where
  "part_algorithms =
     [CHECKSUM_CRC64NVME, CHECKSUM_CRC32C, CHECKSUM_CRC32, CHECKSUM_SHA256, CHECKSUM_SHA1,
      CHECKSUM_XXHASH128, CHECKSUM_XXHASH3, CHECKSUM_XXHASH64, CHECKSUM_SHA512, CHECKSUM_MD5]"

text \<open>The lambda \<open>read\<close>: the trimmed text of a candidate's element, empty when there is none.\<close>

definition read_part_checksum :: "S3Xml \<Rightarrow> xml_element \<Rightarrow> ChecksumAlgorithm \<Rightarrow> string result" where
  "read_part_checksum x part candidate =
     ebind (optional_text x part (checksum_xml_name candidate)) (\<lambda>v. Inr (trim v))"

fun try_algorithms ::
  "S3Xml \<Rightarrow> xml_element \<Rightarrow> ChecksumAlgorithm \<Rightarrow> ChecksumAlgorithm list \<Rightarrow>
   (ChecksumAlgorithm \<times> string) option result" where
  "try_algorithms x part preferred [] = Inr None"
| "try_algorithms x part preferred (candidate # candidates) =
     (if candidate = preferred then try_algorithms x part preferred candidates
      else ebind (read_part_checksum x part candidate) (\<lambda>v.
        if v \<noteq> [] then Inr (Some (candidate, v)) else try_algorithms x part preferred candidates))"

definition part_checksum ::
  "S3Xml \<Rightarrow> xml_element \<Rightarrow> ChecksumAlgorithm \<Rightarrow> (ChecksumAlgorithm \<times> string) option result" where
  "part_checksum x part preferred =
     (if checksum_is_s3 preferred
      then ebind (read_part_checksum x part preferred) (\<lambda>v.
        if v \<noteq> [] then Inr (Some (preferred, v)) else try_algorithms x part preferred part_algorithms)
      else try_algorithms x part preferred part_algorithms)"

record ChecksumManifestState =
  m_parts :: "CacheChecksumPart list"
  m_expected_number :: nat
  m_marker :: nat
  m_offset :: nat

definition new_manifest :: ChecksumManifestState where
  "new_manifest = \<lparr>m_parts = [], m_expected_number = 1, m_marker = 0, m_offset = 0\<rparr>"

text \<open>One turn of the loop over the elements below \<open>ObjectParts\<close>.\<close>

definition parse_manifest_part ::
  "S3Xml \<Rightarrow> nat \<Rightarrow> ChecksumAlgorithm \<Rightarrow> xml_element \<Rightarrow> ChecksumManifestState \<Rightarrow> ChecksumManifestState result" where
  "parse_manifest_part x object_size preferred part m =
     ebind (required_text x part ''PartNumber'') (\<lambda>number_text.
     ebind (required_text x part ''Size'') (\<lambda>size_text.
     (case (parse_unsigned_all 64 (trim number_text), parse_unsigned_all 64 (trim size_text)) of
        (Some n, Some sz) \<Rightarrow>
          if n \<noteq> m_expected_number m \<or> n > kMaximumMultipartParts \<or> sz = 0 \<or>
             m_offset m > object_size \<or> sz > object_size - m_offset m
          then Inl (RuntimeError ''GetObjectAttributes returned an invalid part sequence'')
          else ebind (part_checksum x part preferred) (\<lambda>found.
            case found of
              None \<Rightarrow> Inl (RuntimeError ''GetObjectAttributes omitted a usable part checksum'')
            | Some (algorithm, v) \<Rightarrow>
                Inr (m\<lparr>m_parts := m_parts m @ [\<lparr>part_offset = m_offset m, part_size = sz,
                         part_algorithm = algorithm_number algorithm, part_value = v\<rparr>],
                       m_offset := m_offset m + sz,
                       m_expected_number := m_expected_number m + 1\<rparr>))
      | _ \<Rightarrow> Inl (RuntimeError ''GetObjectAttributes returned an invalid part sequence''))))"

fun parse_manifest_parts ::
  "S3Xml \<Rightarrow> nat \<Rightarrow> ChecksumAlgorithm \<Rightarrow> xml_element list \<Rightarrow> ChecksumManifestState \<Rightarrow> ChecksumManifestState result" where
  "parse_manifest_parts x object_size preferred [] m = Inr m"
| "parse_manifest_parts x object_size preferred (part # rest) m =
     (if \<not> named part ''Part'' then parse_manifest_parts x object_size preferred rest m
      else ebind (parse_manifest_part x object_size preferred part m)
             (parse_manifest_parts x object_size preferred rest))"

text \<open>The result says whether the page was the last.\<close>

definition parse_checksum_manifest_page ::
  "xml_parser \<Rightarrow> ChecksumManifestState \<Rightarrow> Response \<Rightarrow> nat \<Rightarrow> ChecksumAlgorithm \<Rightarrow>
   (bool \<times> ChecksumManifestState) result" where
  "parse_checksum_manifest_page parse m response object_size preferred =
     (if status response \<noteq> 200 then throw_s3_response parse response ''GetObjectAttributes''
      else ebind (S3Xml_new parse (body response) ''GetObjectAttributes'') (\<lambda>x.
        ebind (result_root x ''GetObjectAttributesOutput'') (\<lambda>root.
        ebind (required_child x root ''ObjectParts'') (\<lambda>parts.
        ebind (parse_manifest_parts x object_size preferred (child_elements (snd parts)) m) (\<lambda>m.
        ebind (required_bool x parts ''IsTruncated'') (\<lambda>truncated.
          if \<not> truncated
          then if m_offset m \<noteq> object_size
               then Inl (RuntimeError ''GetObjectAttributes part sizes do not match the object'')
               else Inr (True, m)
          else ebind (required_text x parts ''NextPartNumberMarker'') (\<lambda>next_text.
            case parse_unsigned_all 64 (trim next_text) of
              None \<Rightarrow> Inl (RuntimeError ''GetObjectAttributes returned invalid part pagination'')
            | Some n \<Rightarrow>
                if n \<le> m_marker m \<or> n \<noteq> m_expected_number m - 1 \<or> n > kMaximumMultipartParts
                then Inl (RuntimeError ''GetObjectAttributes returned invalid part pagination'')
                else Inr (False, m\<lparr>m_marker := n\<rparr>))))))))"

definition manifest_request_path :: "string \<Rightarrow> string \<Rightarrow> string" where
  "manifest_request_path object_path vid =
     query_path object_path ''attributes'' @
     (if vid \<noteq> [] then ''&versionId='' @ uri_encode vid False else [])"

definition manifest_request_headers :: "nat \<Rightarrow> (string \<times> string) list" where
  "manifest_request_headers marker =
     [(''x-amz-max-parts'', ''1000''), (''x-amz-object-attributes'', ''ObjectParts,Checksum'')] @
     (if marker \<noteq> 0 then [(''x-amz-part-number-marker'', to_string marker)] else [])"

record manifest_object =
  mo_path :: string
  mo_version_id :: string
  mo_size :: nat

type_synonym manifest_fetch = "nat \<Rightarrow> string \<Rightarrow> (string \<times> string) list \<Rightarrow> Response result"

text \<open>The loop; beside the parts, or the failure, it returns the number of requests.\<close>

partial_function (option) get_manifest_pages ::
  "xml_parser \<Rightarrow> manifest_fetch \<Rightarrow> manifest_object \<Rightarrow> ChecksumAlgorithm \<Rightarrow> nat \<Rightarrow>
   ChecksumManifestState \<Rightarrow> (CacheChecksumPart list result \<times> nat) option" where
  "get_manifest_pages parse fetch ob preferred n m =
     (case ebind (fetch n (manifest_request_path (mo_path ob) (mo_version_id ob))
                    (manifest_request_headers (m_marker m)))
             (\<lambda>response. parse_checksum_manifest_page parse m response (mo_size ob) preferred) of
        Inl e \<Rightarrow> Some (Inl e, n + 1)
      | Inr (final, m) \<Rightarrow>
          if final then Some (Inr (m_parts m), n + 1)
          else get_manifest_pages parse fetch ob preferred (n + 1) m)"

definition get_checksum_manifest ::
  "xml_parser \<Rightarrow> manifest_fetch \<Rightarrow> manifest_object \<Rightarrow> ChecksumAlgorithm \<Rightarrow>
   (CacheChecksumPart list result \<times> nat) option" where
  "get_checksum_manifest parse fetch ob preferred =
     get_manifest_pages parse fetch ob preferred 0 new_manifest"

text \<open>
  What follows a successful \<open>begin_checksum_manifest\<close> in \<open>ensure_checksum_manifest\<close>: \<open>outcome\<close> is what
  the requests gave, \<open>e\<close> the entry once they are over.
\<close>

definition settle_checksum_manifest ::
  "ChecksumAlgorithm \<Rightarrow> CacheChecksumPart list result \<Rightarrow> CacheEntry \<Rightarrow> CacheEntry" where
  "settle_checksum_manifest preferred outcome e =
     (if \<not> checksum_is_s3 preferred then checksum_manifest_unavailable e
      else case outcome of
             Inl error \<Rightarrow> checksum_manifest_unavailable e
           | Inr parts \<Rightarrow> finish_checksum_manifest parts e)"

section \<open>The parts collected so far\<close>

definition manifest_ok :: "nat \<Rightarrow> ChecksumManifestState \<Rightarrow> bool" where
  "manifest_ok object_size m \<longleftrightarrow>
     manifest_end object_size 0 (m_parts m) = Some (m_offset m) \<and>
     m_expected_number m = length (m_parts m) + 1 \<and> length (m_parts m) \<le> kMaximumMultipartParts \<and>
     m_marker m \<le> length (m_parts m)"

lemma manifest_end_snoc:
  "manifest_end z off (ps @ [p]) =
     (case manifest_end z off ps of None \<Rightarrow> None | Some off' \<Rightarrow> manifest_end z off' [p])"
  by (induction z off ps rule: manifest_end.induct) auto

lemma try_algorithms_nonempty:
  "try_algorithms x part preferred cs = Inr (Some (a, v)) \<Longrightarrow> v \<noteq> []"
  by (induction cs) (auto simp: ebind_Inr_iff split: if_splits)

lemma part_checksum_nonempty: "part_checksum x part preferred = Inr (Some (a, v)) \<Longrightarrow> v \<noteq> []"
  by (auto simp: part_checksum_def ebind_Inr_iff dest: try_algorithms_nonempty split: if_splits)

lemma parse_manifest_part_ok:
  assumes "parse_manifest_part x z preferred part m = Inr m'" "manifest_ok z m"
  shows "manifest_ok z m'" "m_marker m' = m_marker m"
proof -
  obtain n sz a v where part: "n = m_expected_number m" "n \<le> kMaximumMultipartParts" "sz \<noteq> 0"
      "m_offset m \<le> z" "sz \<le> z - m_offset m" "part_checksum x part preferred = Inr (Some (a, v))"
    and m': "m' = m\<lparr>m_parts := m_parts m @ [\<lparr>part_offset = m_offset m, part_size = sz,
        part_algorithm = algorithm_number a, part_value = v\<rparr>],
      m_offset := m_offset m + sz, m_expected_number := m_expected_number m + 1\<rparr>"
    using assms(1) unfolding parse_manifest_part_def ebind_Inr_iff
    by (elim exE conjE) (auto simp: ebind_Inr_iff split: option.split_asm if_split_asm)
  have "v \<noteq> []" using part(6) by (rule part_checksum_nonempty)
  then show "manifest_ok z m'" using assms(2) part unfolding m' manifest_ok_def
    by (simp add: manifest_end_snoc)
  show "m_marker m' = m_marker m" by (simp add: m')
qed

lemma parse_manifest_parts_ok:
  assumes "parse_manifest_parts x z preferred parts m = Inr m'" "manifest_ok z m"
  shows "manifest_ok z m' \<and> m_marker m' = m_marker m"
  using assms
proof (induction parts arbitrary: m)
  case Nil
  then show ?case by simp
next
  case (Cons part parts)
  show ?case
  proof (cases "named part ''Part''")
    case True
    then obtain m1 where m1: "parse_manifest_part x z preferred part m = Inr m1"
      "parse_manifest_parts x z preferred parts m1 = Inr m'"
      using Cons.prems(1) by (auto simp: ebind_Inr_iff)
    note ok = parse_manifest_part_ok [OF m1(1) Cons.prems(2)]
    show ?thesis using Cons.IH [OF m1(2) ok(1)] ok(2) by simp
  next
    case False
    then show ?thesis using Cons by simp
  qed
qed

lemma parse_manifest_page_ok:
  assumes "parse_checksum_manifest_page parse m response z preferred = Inr (final, m')" "manifest_ok z m"
  shows "manifest_ok z m'" "final \<Longrightarrow> m_offset m' = z" "\<not> final \<Longrightarrow> m_marker m < m_marker m'"
proof -
  obtain x parts m1 where m1: "parse_manifest_parts x z preferred parts m = Inr m1"
    and pg: "final \<and> m' = m1 \<and> m_offset m1 = z \<or>
      \<not> final \<and> (\<exists>n. m' = m1\<lparr>m_marker := n\<rparr> \<and> m_marker m1 < n \<and> n = m_expected_number m1 - 1)"
    using assms(1) unfolding parse_checksum_manifest_page_def
    by (auto simp: ebind_Inr_iff throw_s3_response_def Let_def split: if_splits option.splits)
  have ok: "manifest_ok z m1" "m_marker m1 = m_marker m"
    using parse_manifest_parts_ok [OF m1 assms(2)] by auto
  show "manifest_ok z m'" using ok pg by (auto simp: manifest_ok_def)
  show "final \<Longrightarrow> m_offset m' = z" "\<not> final \<Longrightarrow> m_marker m < m_marker m'" using ok pg by auto
qed

definition manifest_outcome_ok :: "nat \<Rightarrow> CacheChecksumPart list result \<Rightarrow> bool" where
  "manifest_outcome_ok z outcome \<longleftrightarrow>
     (case outcome of
        Inl e \<Rightarrow> True
      | Inr parts \<Rightarrow> length parts \<le> 10000 \<and> manifest_end z 0 parts = Some z)"

lemma get_manifest_pages_returns:
  assumes "manifest_ok (mo_size ob) m"
  shows "\<exists>out k. get_manifest_pages parse fetch ob preferred n m = Some (out, k) \<and>
    k + m_marker m \<le> n + 10001 \<and> n < k \<and> manifest_outcome_ok (mo_size ob) out"
  using assms
proof (induction "10000 - m_marker m" arbitrary: m n rule: less_induct)
  case less
  have mk: "m_marker m \<le> 10000" using less.prems by (simp add: manifest_ok_def kMaximumMultipartParts_def)
  let ?r = "ebind (fetch n (manifest_request_path (mo_path ob) (mo_version_id ob))
    (manifest_request_headers (m_marker m)))
    (\<lambda>response. parse_checksum_manifest_page parse m response (mo_size ob) preferred)"
  consider (error) e where "?r = Inl e" | (final) m' where "?r = Inr (True, m')"
    | (more) m' where "?r = Inr (False, m')"
  proof (cases ?r)
    case (Inr p)
    obtain final m' where "p = (final, m')" by (cases p)
    then show ?thesis using Inr that(2,3) by (cases final) auto
  qed (rule that(1))
  then show ?case
  proof cases
    case error
    then show ?thesis using mk by (subst get_manifest_pages.simps) (simp add: manifest_outcome_ok_def)
  next
    case final
    then obtain response where "parse_checksum_manifest_page parse m response (mo_size ob) preferred = Inr (True, m')"
      by (auto simp: ebind_Inr_iff)
    note ok = parse_manifest_page_ok [OF this less.prems]
    have "manifest_outcome_ok (mo_size ob) (Inr (m_parts m'))"
      using ok(1,2) by (simp add: manifest_outcome_ok_def manifest_ok_def kMaximumMultipartParts_def)
    then show ?thesis using final mk by (subst get_manifest_pages.simps) simp
  next
    case more
    then obtain response where "parse_checksum_manifest_page parse m response (mo_size ob) preferred = Inr (False, m')"
      by (auto simp: ebind_Inr_iff)
    note ok = parse_manifest_page_ok [OF this less.prems]
    have mk': "m_marker m' \<le> 10000" "m_marker m < m_marker m'"
      using ok(1,3) by (simp_all add: manifest_ok_def kMaximumMultipartParts_def)
    then have "10000 - m_marker m' < 10000 - m_marker m" by simp
    from less.hyps [OF this ok(1), of "n + 1"] show ?thesis
      using more mk' by (subst get_manifest_pages.simps) auto
  qed
qed

lemma new_manifest_ok: "manifest_ok z new_manifest"
  by (simp add: manifest_ok_def new_manifest_def)

text \<open>
  C20. The loop that collects the checksums of the parts ends against any service: after at most
  10,001 requests it has failed or has returned at most 10,000 parts that follow each other
  without gap or overlap from byte 0 to the size of the object, each with a checksum.
\<close>

theorem checksum_manifest_paging_ends:
  "\<exists>outcome requests. get_checksum_manifest parse fetch ob preferred = Some (outcome, requests) \<and>
     1 \<le> requests \<and> requests \<le> 10001 \<and>
     (case outcome of
        Inl e \<Rightarrow> True
      | Inr parts \<Rightarrow> length parts \<le> 10000 \<and> manifest_end (mo_size ob) 0 parts = Some (mo_size ob))"
  using get_manifest_pages_returns [OF new_manifest_ok [of "mo_size ob"], of parse fetch preferred "0"]
  unfolding get_checksum_manifest_def manifest_outcome_ok_def [symmetric]
  by (auto simp: new_manifest_def)

text \<open>
  What was collected for an object is what the cache entry of that object takes: when the
  requests are over the entry no longer loads, and it has a manifest exactly when they
  succeeded, the object is not empty, the checksum of the mount is one of S3 and the entry was
  not made stale meanwhile; its parts are then those that were collected, none verified yet.
\<close>

lemma collected_manifest_is_accepted:
  assumes "get_checksum_manifest parse fetch ob preferred = Some (outcome, requests)" "e_size e = mo_size ob"
  shows "let e' = settle_checksum_manifest preferred outcome e
    in if checksum_is_s3 preferred \<and> \<not> e_stale e \<and> 0 < e_size e
       then (case outcome of
               Inl error \<Rightarrow> e_checksum_manifest e' = kChecksumUnavailable \<and> e_checksum_parts e' = []
             | Inr parts \<Rightarrow> e_checksum_manifest e' = kChecksumAvailable \<and> e_checksum_parts e' = parts \<and>
                 e_checksum_states e' = replicate (length parts) kPartUnverified)
       else e_checksum_manifest e' = kChecksumUnavailable \<and> e_checksum_parts e' = []"
proof (cases outcome)
  case (Inl error)
  then show ?thesis
    by (simp add: settle_checksum_manifest_def checksum_manifest_unavailable_def Let_def)
next
  case (Inr parts)
  have "manifest_outcome_ok (mo_size ob) outcome"
    using get_manifest_pages_returns [OF new_manifest_ok [of "mo_size ob"], of parse fetch preferred "0"] assms(1)
    unfolding get_checksum_manifest_def by auto
  then have m: "manifest_end (e_size e) 0 parts = Some (e_size e)"
    using assms(2) Inr by (simp add: manifest_outcome_ok_def)
  then have "parts = [] \<longleftrightarrow> e_size e = 0" by (cases parts) (auto split: if_split_asm)
  then show ?thesis using m
    by (simp add: Inr settle_checksum_manifest_def checksum_manifest_unavailable_def
        finish_checksum_manifest_def Let_def)
qed


text \<open>An object of 40,000 bytes in two parts, told on two pages.\<close>

definition ex_part :: "string \<Rightarrow> string \<Rightarrow> xml_node" where
  "ex_part n sz = Element ''Part'' [Element ''PartNumber'' [Text n], Element ''Size'' [Text sz],
     Element ''ChecksumCRC32'' [Text ''AAAAAA=='']]"

definition ex_manifest_parse :: xml_parser where
  "ex_manifest_parse text = Inr [Element ''GetObjectAttributesOutput'' [Element ''ObjectParts''
     (if text = ''1''
      then [ex_part ''1'' ''30000'', Element ''IsTruncated'' [Text ''true''],
            Element ''NextPartNumberMarker'' [Text ''1'']]
      else [ex_part ''2'' ''10000'', Element ''IsTruncated'' [Text ''false'']])]]"

definition ex_manifest_fetch :: manifest_fetch where
  "ex_manifest_fetch n path hs =
     Inr \<lparr>status = 200, headers = (\<lambda>n. None), body = if length hs = 2 then ''1'' else ''2''\<rparr>"

definition ex_manifest_object :: manifest_object where
  "ex_manifest_object = \<lparr>mo_path = ''/b/k'', mo_version_id = [], mo_size = 40000\<rparr>"

definition ex_manifest_part :: "nat \<Rightarrow> nat \<Rightarrow> CacheChecksumPart" where
  "ex_manifest_part off sz = \<lparr>part_offset = off, part_size = sz, part_algorithm = 3, part_value = ''AAAAAA==''\<rparr>"

lemma ex_decimal:
  "parse_unsigned_all 64 (trim ''1'') = Some 1" "parse_unsigned_all 64 (trim ''2'') = Some 2"
  "parse_unsigned_all 64 (trim ''30000'') = Some 30000" "parse_unsigned_all 64 (trim ''10000'') = Some 10000"
  "trim ''true'' = ''true''" "trim ''false'' = ''false''" "trim [] = []" "trim ''AAAAAA=='' = ''AAAAAA==''"
  by (simp_all add: parse_unsigned_all_def from_chars_def trim_def isspace_def isdigit_def digit_val_def
      decimal_value_def Let_def)

lemma ex_part_checksum:
  "part_checksum x (''Part'', [Element ''PartNumber'' [Text n], Element ''Size'' [Text sz],
     Element ''ChecksumCRC32'' [Text ''AAAAAA=='']]) CHECKSUM_CRC64NVME = Inr (Some (CHECKSUM_CRC32, ''AAAAAA==''))"
  by (simp add: part_checksum_def read_part_checksum_def part_algorithms_def checksum_is_s3_def xml_eval
      ex_decimal)

lemmas ex_page_eval = parse_checksum_manifest_page_def ex_manifest_parse_def S3Xml_new_def result_root_def
  root_is_def xml_root_def required_child_def parse_manifest_part_def ex_part_def ex_part_checksum
  ex_decimal required_bool_def xml_eval kMaximumMultipartParts_def

lemma ex_manifest:
  "get_checksum_manifest ex_manifest_parse ex_manifest_fetch ex_manifest_object CHECKSUM_CRC64NVME =
     Some (Inr [ex_manifest_part 0 30000, ex_manifest_part 30000 10000], 2)"
  unfolding get_checksum_manifest_def
  by (subst get_manifest_pages.simps, subst get_manifest_pages.simps)
    (simp add: ex_page_eval ex_manifest_fetch_def ex_manifest_object_def new_manifest_def
      manifest_request_headers_def ex_manifest_part_def)

lemma collected_manifest_is_accepted_example:
  "let e' = settle_checksum_manifest CHECKSUM_CRC64NVME
     (Inr [ex_manifest_part 0 30000, ex_manifest_part 30000 10000]) ex_open
   in e_checksum_manifest e' = kChecksumAvailable \<and>
      e_checksum_parts e' = [ex_manifest_part 0 30000, ex_manifest_part 30000 10000] \<and>
      e_checksum_states e' = [kPartUnverified, kPartUnverified]"
proof -
  have "e_size ex_open = mo_size ex_manifest_object" "\<not> e_stale ex_open" "0 < e_size ex_open"
    "checksum_is_s3 CHECKSUM_CRC64NVME"
    by (simp_all add: ex_open_eq ex_manifest_object_def checksum_is_s3_def)
  then show ?thesis using collected_manifest_is_accepted [OF ex_manifest, of ex_open] by (simp add: Let_def)
qed

end
