(* ===== verification/Cred_Source.thy ===== *)
theory Cred_Source
  imports S3_Path S3_Sign S3_Xml Checksum
begin

text \<open>
  The sources of AWS credentials (\<^verbatim>\<open>src/src/credentials.cpp\<close>): expiration times, credential JSON,
  endpoint URLs, profile files, and the loaders of each source. Files, environment variables,
  processes, HTTP, yyjson and \<^verbatim>\<open>inet_pton\<close> are the fields of \<open>cred_env\<close>, arguments of the
  definitions; every HTTP request of a loader is kept in a log.
\<close>

section \<open>What the code relies on\<close>

text \<open>
  A JSON value as yyjson presents it: \<open>JInt\<close> carries what \<^verbatim>\<open>yyjson_get_int\<close> returns, and an object
  keeps the order of its members.
\<close>

datatype json = JObj "(string \<times> json) list" | JStr string | JInt int | JOther

record CredentialProviderOptions =
  o_region :: string
  o_connect_timeout_ms :: int
  o_request_timeout_ms :: int
  o_protocol_probe_timeout_ms :: int
  o_metadata_timeout_ms :: int
  o_shared_reload_ms :: int

record http_call =
  hc_host :: string
  hc_port :: nat
  hc_authority :: string
  hc_tls :: bool
  hc_io_timeout :: int
  hc_connect_timeout :: int
  hc_probe_timeout :: int
  hc_method :: string
  hc_path :: string
  hc_headers :: "(string \<times> string) list"

text \<open>
  \<open>file_text\<close> is the content of a file or the errno of opening it; \<open>inet4\<close> the address of a dotted
  quad in host order; \<open>inet6\<close> whether an IPv6 address is the loopback; \<open>epoch k\<close> the \<open>k\<close>-th reading of
  the real-time clock in an operation and \<open>monotonic\<close> that of the monotonic clock in seconds and
  nanoseconds, or the errno of a failed call.
\<close>

record cred_env =
  getenv :: "string \<rightharpoonup> string"
  file_text :: "string \<Rightarrow> nat + string"
  run_process :: "string \<Rightarrow> int \<Rightarrow> string result"
  http :: "http_call \<Rightarrow> Response result"
  read_json :: "string \<Rightarrow> (nat \<times> string) + json"
  read_xml :: xml_parser
  inet4 :: "string \<rightharpoonup> u32"
  inet6 :: "string \<rightharpoonup> bool"
  getpid :: nat
  epoch :: "nat \<Rightarrow> nat + int"
  monotonic :: "nat + nat \<times> nat"

text \<open>A computation that may throw, with the requests it has sent.\<close>

type_synonym 'a traced = "'a result \<times> http_call list"

definition pure_result :: "'a result \<Rightarrow> 'a traced" where
  "pure_result r = (r, [])"

fun tbind :: "'a traced \<Rightarrow> ('a \<Rightarrow> 'b traced) \<Rightarrow> 'b traced" where
  "tbind (Inl e, log) f = (Inl e, log)"
| "tbind (Inr x, log) f = (case f x of (r, log') \<Rightarrow> (r, log @ log'))"

section \<open>Texts and files\<close>

definition environment_value :: "cred_env \<Rightarrow> string \<Rightarrow> string" where
  "environment_value env name = (case getenv env name of None \<Rightarrow> [] | Some v \<Rightarrow> v)"

definition environment_true :: "cred_env \<Rightarrow> string \<Rightarrow> bool" where
  "environment_true env name =
     (case getenv env name of None \<Rightarrow> False | Some s \<Rightarrow> ascii_equal_ignore_case s ''true'' \<or> s = ''1'')"

definition read_credential_file :: "cred_env \<Rightarrow> string \<Rightarrow> nat \<Rightarrow> string result" where
  "read_credential_file env path limit =
     (case file_text env path of
        Inl errno \<Rightarrow> Inl (SystemError (if errno = 0 then ENOENT else errno) path)
      | Inr text \<Rightarrow>
          if length text > limit then Inl (RuntimeError (''credential file is too large: '' @ path))
          else Inr text)"

definition has_line_break :: "string \<Rightarrow> bool" where
  "has_line_break s \<longleftrightarrow> CHR 0x0d \<in> set s \<or> CHR 0x0a \<in> set s"

definition validate_credentials :: "Credentials \<Rightarrow> string \<Rightarrow> unit result" where
  "validate_credentials c source =
     (if access_key_id c = [] \<or> secret_access_key c = []
      then Inl (RuntimeError (source @ '' returned incomplete credentials''))
      else if has_line_break (access_key_id c) \<or> has_line_break (session_token c)
      then Inl (RuntimeError (source @ '' returned unsafe credential header text''))
      else Inr ())"

section \<open>Expiration times\<close>

definition cred_leap_year :: "int \<Rightarrow> bool" where
  "cred_leap_year year \<longleftrightarrow> year mod 4 = 0 \<and> (year mod 100 \<noteq> 0 \<or> year mod 400 = 0)"

definition days_from_civil :: "int \<Rightarrow> nat \<Rightarrow> nat \<Rightarrow> int" where
  "days_from_civil year month day =
     (let year = year - (if month \<le> 2 then 1 else 0);
          era = (if year \<ge> 0 then year else year - 399) sdiv 400;
          yoe = nat (year - era * 400);
          shifted_month = (if month > 2 then month - 3 else month + 9);
          doy = (153 * shifted_month + 2) div 5 + day - 1;
          doe = yoe * 365 + yoe div 4 - yoe div 100 + doy
      in era * 146097 + int doe - 719468)"

definition days_per_month :: "nat list" where
  "days_per_month = [0, 31, 28, 31, 30, 31, 30, 31, 31, 30, 31, 30, 31]"

definition expiration_number :: "string \<Rightarrow> nat \<Rightarrow> nat \<Rightarrow> nat result" where
  "expiration_number s begin_at n =
     (case parse_unsigned_all 32 (substr s begin_at n) of
        None \<Rightarrow> Inl (RuntimeError ''credential expiration contains invalid digits'')
      | Some v \<Rightarrow> Inr v)"

text \<open>The end of the date, behind an optional fraction; the fraction may not be empty.\<close>

definition expiration_end :: "string \<Rightarrow> nat result" where
  "expiration_end s =
     (if 19 < length s \<and> s ! 19 = CHR ''.''
      then let n = length (takeWhile isdigit (drop 20 s))
           in if n = 0 then Inl (RuntimeError ''credential expiration has an empty fraction'')
              else Inr (20 + n)
      else Inr 19)"

definition parse_expiration :: "string \<Rightarrow> int result" where
  "parse_expiration s =
     (if length s < 20 \<or> s ! 4 \<noteq> CHR ''-'' \<or> s ! 7 \<noteq> CHR ''-'' \<or>
         (s ! 10 \<noteq> CHR ''T'' \<and> s ! 10 \<noteq> CHR ''t'') \<or> s ! 13 \<noteq> CHR '':'' \<or> s ! 16 \<noteq> CHR '':''
      then Inl (RuntimeError ''credential expiration is not ISO-8601 UTC'')
      else ebind (expiration_number s 0 4) (\<lambda>year. ebind (expiration_number s 5 2) (\<lambda>month.
           ebind (expiration_number s 8 2) (\<lambda>day. ebind (expiration_number s 11 2) (\<lambda>hour.
           ebind (expiration_number s 14 2) (\<lambda>minute. ebind (expiration_number s 17 2) (\<lambda>second.
             if year < 1970 \<or> month = 0 \<or> month > 12 \<or> day = 0 \<or>
                day > days_per_month ! month + (if month = 2 \<and> cred_leap_year (int year) then 1 else 0) \<or>
                hour > 23 \<or> minute > 59 \<or> second > 60
             then Inl (RuntimeError ''credential expiration is out of range'')
             else ebind (expiration_end s) (\<lambda>stop.
               if stop + 1 \<noteq> length s \<or> (s ! stop \<noteq> CHR ''Z'' \<and> s ! stop \<noteq> CHR ''z'')
               then Inl (RuntimeError ''credential expiration is not UTC'')
               else Inr (days_from_civil (int year) month day * 86400 +
                         int hour * 3600 + int minute * 60 + int second)))))))))"

section \<open>Credential JSON\<close>

record Snapshot =
  credentials :: Credentials
  expiration :: int

definition obj_get :: "json \<Rightarrow> string \<Rightarrow> json option" where
  "obj_get root name = (case root of JObj members \<Rightarrow> map_of members name | _ \<Rightarrow> None)"

definition json_string :: "json \<Rightarrow> string \<Rightarrow> bool \<Rightarrow> string result" where
  "json_string root name required =
     (case obj_get root name of
        None \<Rightarrow> if \<not> required then Inr [] else Inl (RuntimeError (''credential JSON omitted '' @ name))
      | Some (JStr s) \<Rightarrow> Inr s
      | Some _ \<Rightarrow> Inl (RuntimeError (''credential JSON field is not text: '' @ name)))"

definition optional_expiration :: "string \<Rightarrow> int result" where
  "optional_expiration text = (if text = [] then Inr 0 else parse_expiration text)"

definition json_snapshot :: "json \<Rightarrow> string \<Rightarrow> bool \<Rightarrow> Snapshot result" where
  "json_snapshot root source process_format =
     ebind (json_string root ''AccessKeyId'' True) (\<lambda>key.
     ebind (json_string root ''SecretAccessKey'' True) (\<lambda>secret.
     ebind (json_string root (if process_format then ''SessionToken'' else ''Token'') False) (\<lambda>token.
     ebind (json_string root ''Expiration'' False) (\<lambda>expiration_text.
     ebind (optional_expiration expiration_text) (\<lambda>expires.
       let c = \<lparr>access_key_id = key, secret_access_key = secret, session_token = token\<rparr>
       in ebind (validate_credentials c source) (\<lambda>_. Inr \<lparr>credentials = c, expiration = expires\<rparr>))))))"

definition parse_json_credentials :: "cred_env \<Rightarrow> string \<Rightarrow> string \<Rightarrow> bool \<Rightarrow> Snapshot result" where
  "parse_json_credentials env text source process_format =
     (case read_json env text of
        Inl (pos, msg) \<Rightarrow> Inl (RuntimeError (source @ '' returned invalid JSON at byte '' @ to_string pos @ '': '' @ msg))
      | Inr root \<Rightarrow>
          if \<not> (case root of JObj _ \<Rightarrow> True | _ \<Rightarrow> False)
          then Inl (RuntimeError (source @ '' credential JSON is not an object''))
          else if process_format \<and> obj_get root ''Version'' \<noteq> Some (JInt 1)
          then Inl (RuntimeError ''credential_process JSON Version must be 1'')
          else json_snapshot root source process_format)"

section \<open>Endpoints\<close>

record CredentialEndpoint =
  ep_host :: string
  ep_authority :: string
  ep_path :: string
  ep_port :: nat
  ep_tls :: bool

text \<open>The host and the text of the port of an authority.\<close>

definition endpoint_host :: "string \<Rightarrow> (string \<times> string) result" where
  "endpoint_host authority =
     (if hd authority = CHR ''[''
      then case find_char CHR '']'' 0 authority of
             None \<Rightarrow> Inl (RuntimeError ''invalid IPv6 credential endpoint'')
           | Some close \<Rightarrow>
               if close + 1 < length authority
               then if authority ! (close + 1) \<noteq> CHR '':''
                    then Inl (RuntimeError ''invalid IPv6 credential endpoint port'')
                    else Inr (substr authority 1 (close - 1), drop (close + 2) authority)
               else Inr (substr authority 1 (close - 1), [])
      else case rfind_char CHR '':'' authority of
             None \<Rightarrow> Inr (authority, [])
           | Some colon \<Rightarrow> Inr (take colon authority, drop (colon + 1) authority))"

definition endpoint_port :: "string \<Rightarrow> nat \<Rightarrow> nat result" where
  "endpoint_port port_text default_port =
     (if port_text = [] then Inr default_port
      else case parse_unsigned_all 32 port_text of
             None \<Rightarrow> Inl (RuntimeError ''invalid credential endpoint port'')
           | Some v \<Rightarrow>
               if v = 0 \<or> v > 65535 then Inl (RuntimeError ''invalid credential endpoint port'')
               else Inr v)"

definition endpoint_of_rest :: "bool \<Rightarrow> nat \<Rightarrow> string \<Rightarrow> CredentialEndpoint result" where
  "endpoint_of_rest tls default_port url =
     (let authority = takeWhile (\<lambda>c. c \<noteq> CHR ''/'') url;
          path = (case find_char CHR ''/'' 0 url of None \<Rightarrow> ''/'' | Some slash \<Rightarrow> drop slash url)
      in if authority = [] \<or> CHR ''@'' \<in> set authority \<or> CHR ''?'' \<in> set authority \<or>
            CHR ''#'' \<in> set authority \<or> CHR ''#'' \<in> set path
         then Inl (RuntimeError ''invalid credential endpoint URL'')
         else ebind (endpoint_host authority) (\<lambda>(host, port_text).
           if host = [] then Inl (RuntimeError ''credential endpoint omitted its host'')
           else ebind (endpoint_port port_text default_port) (\<lambda>port.
             Inr \<lparr>ep_host = host, ep_authority = authority, ep_path = path, ep_port = port, ep_tls = tls\<rparr>)))"

definition parse_credential_endpoint :: "string \<Rightarrow> CredentialEndpoint result" where
  "parse_credential_endpoint url =
     (if starts_with url ''https://'' then endpoint_of_rest True 443 (drop 8 url)
      else if starts_with url ''http://'' then endpoint_of_rest False 80 (drop 7 url)
      else Inl (RuntimeError ''credential endpoint must use http or https''))"

definition c_string :: "string \<Rightarrow> string" where
  "c_string s = takeWhile (\<lambda>c. c \<noteq> CHR 0x00) s"

definition safe_plaintext_container_host :: "cred_env \<Rightarrow> string \<Rightarrow> bool" where
  "safe_plaintext_container_host env host \<longleftrightarrow>
     host = ''localhost'' \<or> host = ''fd00:ec2::23'' \<or> host = ''fd00:ec2::254'' \<or>
     (case inet4 env (c_string host) of
        Some address \<Rightarrow> address AND 0xff000000 = 0x7f000000 \<or> address AND 0xffff0000 = 0xa9fe0000
      | None \<Rightarrow> inet6 env (c_string host) = Some True)"

definition credential_request ::
  "cred_env \<Rightarrow> CredentialProviderOptions \<Rightarrow> CredentialEndpoint \<Rightarrow> string \<Rightarrow> (string \<times> string) list \<Rightarrow>
   bool \<Rightarrow> Response traced" where
  "credential_request env options endpoint meth hs metadata =
     (let limit = (\<lambda>timeout. if metadata then min timeout (o_metadata_timeout_ms options) else timeout);
          call = \<lparr>hc_host = ep_host endpoint, hc_port = ep_port endpoint, hc_authority = ep_authority endpoint,
            hc_tls = ep_tls endpoint, hc_io_timeout = limit (o_request_timeout_ms options),
            hc_connect_timeout = limit (o_connect_timeout_ms options),
            hc_probe_timeout = limit (o_protocol_probe_timeout_ms options),
            hc_method = meth, hc_path = ep_path endpoint, hc_headers = hs\<rparr>
      in (http env call, [call]))"


section \<open>Profiles\<close>

record Profile =
  pf_credentials :: Credentials
  pf_process :: string
  pf_token_file :: string
  pf_role_arn :: string
  pf_role_session_name :: string
  pf_credential_source :: string
  pf_source_profile :: string
  pf_sso_session :: string

definition no_credentials :: Credentials where
  "no_credentials = \<lparr>access_key_id = [], secret_access_key = [], session_token = []\<rparr>"

definition empty_profile :: Profile where
  "empty_profile = \<lparr>pf_credentials = no_credentials, pf_process = [], pf_token_file = [], pf_role_arn = [],
     pf_role_session_name = [], pf_credential_source = [], pf_source_profile = [], pf_sso_session = []\<rparr>"

text \<open>\<^verbatim>\<open>std::getline\<close> until the end of the file.\<close>

function getlines :: "string \<Rightarrow> string list" where
  "getlines text =
     (if text = [] then []
      else takeWhile (\<lambda>c. c \<noteq> CHR 0x0a) text # getlines (drop 1 (dropWhile (\<lambda>c. c \<noteq> CHR 0x0a) text)))"
  by auto

termination getlines
proof (relation "measure length")
  fix t :: string
  assume "t \<noteq> []"
  then have "length (drop 1 (dropWhile (\<lambda>c. c \<noteq> CHR 0x0a) t)) < length t"
    using length_dropWhile_le [of "\<lambda>c. c \<noteq> CHR 0x0a" t] by (cases t) auto
  then show "(drop 1 (dropWhile (\<lambda>c. c \<noteq> CHR 0x0a) t), t) \<in> measure length" by simp
qed simp

declare getlines.simps [simp del]

definition assign_profile :: "string \<Rightarrow> string \<Rightarrow> Profile \<Rightarrow> Profile" where
  "assign_profile name v r =
     (if name = ''aws_access_key_id'' then r\<lparr>pf_credentials := (pf_credentials r)\<lparr>access_key_id := v\<rparr>\<rparr>
      else if name = ''aws_secret_access_key'' then r\<lparr>pf_credentials := (pf_credentials r)\<lparr>secret_access_key := v\<rparr>\<rparr>
      else if name = ''aws_session_token'' \<or> name = ''aws_security_token''
      then r\<lparr>pf_credentials := (pf_credentials r)\<lparr>session_token := v\<rparr>\<rparr>
      else if name = ''credential_process'' then r\<lparr>pf_process := v\<rparr>
      else if name = ''web_identity_token_file'' then r\<lparr>pf_token_file := v\<rparr>
      else if name = ''role_arn'' then r\<lparr>pf_role_arn := v\<rparr>
      else if name = ''role_session_name'' then r\<lparr>pf_role_session_name := v\<rparr>
      else if name = ''credential_source'' then r\<lparr>pf_credential_source := v\<rparr>
      else if name = ''source_profile'' then r\<lparr>pf_source_profile := v\<rparr>
      else if name = ''sso_session'' \<or> name = ''sso_start_url'' then r\<lparr>pf_sso_session := v\<rparr>
      else r)"

definition section_name :: "bool \<Rightarrow> string \<Rightarrow> string" where
  "section_name config_file text =
     (let section = trim (substr text 1 (length text - 2))
      in if config_file \<and> starts_with section ''profile '' then trim (drop 8 section) else section)"

definition profile_line :: "string \<Rightarrow> bool \<Rightarrow> string \<Rightarrow> bool \<times> Profile \<Rightarrow> bool \<times> Profile" where
  "profile_line profile config_file line st =
     (case st of (selected, r) \<Rightarrow>
        let text = trim line
        in if text = [] \<or> hd text = CHR ''#'' \<or> hd text = CHR '';'' then (selected, r)
           else if hd text = CHR ''['' \<and> last text = CHR '']''
           then (section_name config_file text = profile, r)
           else if \<not> selected then (selected, r)
           else case find_char CHR ''='' 0 text of
                  None \<Rightarrow> (selected, r)
                | Some equal \<Rightarrow>
                    (selected, assign_profile (trim (take equal text)) (trim (drop (equal + 1) text)) r))"

definition parse_profile_file :: "cred_env \<Rightarrow> string \<Rightarrow> string \<Rightarrow> bool \<Rightarrow> Profile \<Rightarrow> Profile" where
  "parse_profile_file env path profile config_file r =
     (case file_text env path of
        Inl errno \<Rightarrow> r
      | Inr text \<Rightarrow> snd (foldl (\<lambda>st line. profile_line profile config_file line st) (False, r) (getlines text)))"

section \<open>The sources\<close>

datatype Source =
    SOURCE_ANONYMOUS | SOURCE_ENVIRONMENT | SOURCE_SHARED_FILE | SOURCE_PROCESS
  | SOURCE_WEB_IDENTITY | SOURCE_CONTAINER | SOURCE_IMDS

record CredentialSource =
  cs_options :: CredentialProviderOptions
  cs_source :: Source
  cs_profile :: string
  cs_shared_credentials_file :: string
  cs_config_file :: string
  cs_process :: string
  cs_token_file :: string
  cs_role_arn :: string
  cs_role_session_name :: string
  cs_container_uri :: string
  cs_container_token :: string
  cs_imds_endpoint :: string

fun source_name :: "Source \<Rightarrow> string" where
  "source_name SOURCE_ANONYMOUS = ''anonymous''"
| "source_name SOURCE_ENVIRONMENT = ''environment''"
| "source_name SOURCE_SHARED_FILE = ''shared-file''"
| "source_name SOURCE_PROCESS = ''credential-process''"
| "source_name SOURCE_WEB_IDENTITY = ''web-identity''"
| "source_name SOURCE_CONTAINER = ''container''"
| "source_name SOURCE_IMDS = ''imds-v2''"

definition refreshable :: "Source \<Rightarrow> bool" where
  "refreshable source \<longleftrightarrow> source \<noteq> SOURCE_ANONYMOUS \<and> source \<noteq> SOURCE_ENVIRONMENT"

definition load_profile :: "cred_env \<Rightarrow> CredentialSource \<Rightarrow> Profile" where
  "load_profile env cs =
     parse_profile_file env (cs_shared_credentials_file cs) (cs_profile cs) False
       (parse_profile_file env (cs_config_file cs) (cs_profile cs) True empty_profile)"

definition load_shared_file :: "cred_env \<Rightarrow> CredentialSource \<Rightarrow> Snapshot traced" where
  "load_shared_file env cs =
     (let c = pf_credentials (load_profile env cs)
      in pure_result (ebind (validate_credentials c ''shared credentials file'')
           (\<lambda>_. Inr \<lparr>credentials = c, expiration = 0\<rparr>)))"

definition load_process :: "cred_env \<Rightarrow> CredentialSource \<Rightarrow> Snapshot traced" where
  "load_process env cs =
     pure_result (ebind (run_process env (cs_process cs) (o_request_timeout_ms (cs_options cs)))
       (\<lambda>text. parse_json_credentials env text ''credential_process'' True))"

definition web_identity_url :: "cred_env \<Rightarrow> CredentialSource \<Rightarrow> string" where
  "web_identity_url env cs =
     (let host = ''sts.'' @ o_region (cs_options cs) @
            (if starts_with (cs_role_arn cs) ''arn:aws-cn:'' then ''.amazonaws.com.cn'' else ''.amazonaws.com'');
          url = environment_value env ''AWS_ENDPOINT_URL_STS''
      in if url = [] then ''https://'' @ host else url)"

definition web_identity_path :: "cred_env \<Rightarrow> CredentialSource \<Rightarrow> string \<Rightarrow> string" where
  "web_identity_path env cs token =
     (let session = (if cs_role_session_name cs = [] then ''ngs3fs-'' @ to_string (getpid env)
                     else cs_role_session_name cs)
      in ''/?Action=AssumeRoleWithWebIdentity&Version=2011-06-15'' @
         ''&RoleArn='' @ uri_encode (cs_role_arn cs) False @
         ''&RoleSessionName='' @ uri_encode session False @
         ''&WebIdentityToken='' @ uri_encode token False)"

definition web_identity_snapshot :: "cred_env \<Rightarrow> Response \<Rightarrow> Snapshot result" where
  "web_identity_snapshot env response =
     (if status response \<noteq> 200
      then Inl (RuntimeError (''AssumeRoleWithWebIdentity failed with HTTP status '' @ int_string (status response)))
      else ebind (S3Xml_new (read_xml env) (body response) ''AssumeRoleWithWebIdentity'') (\<lambda>x.
        ebind (xml_root x ''AssumeRoleWithWebIdentityResponse'') (\<lambda>root.
        ebind (required_child x root ''AssumeRoleWithWebIdentityResult'') (\<lambda>result.
        ebind (required_child x result ''Credentials'') (\<lambda>values.
        ebind (required_text x values ''AccessKeyId'') (\<lambda>key.
        ebind (required_text x values ''SecretAccessKey'') (\<lambda>secret.
        ebind (required_text x values ''SessionToken'') (\<lambda>token.
        ebind (required_text x values ''Expiration'') (\<lambda>text.
        ebind (parse_expiration text) (\<lambda>expires.
          let c = \<lparr>access_key_id = key, secret_access_key = secret, session_token = token\<rparr>
          in ebind (validate_credentials c ''AssumeRoleWithWebIdentity'')
               (\<lambda>_. Inr \<lparr>credentials = c, expiration = expires\<rparr>)))))))))))"

definition load_web_identity :: "cred_env \<Rightarrow> CredentialSource \<Rightarrow> Snapshot traced" where
  "load_web_identity env cs =
     tbind (pure_result (read_credential_file env (cs_token_file cs) (256 * 1024))) (\<lambda>token_text.
       let token = trim token_text
       in if token = [] then pure_result (Inl (RuntimeError ''web identity token file is empty''))
          else tbind (pure_result (parse_credential_endpoint (web_identity_url env cs))) (\<lambda>endpoint.
            tbind (credential_request env (cs_options cs)
                     (endpoint\<lparr>ep_path := web_identity_path env cs token\<rparr>) ''GET'' [] False)
              (\<lambda>response. pure_result (web_identity_snapshot env response))))"

definition expect_ok :: "string \<Rightarrow> Response \<Rightarrow> string result" where
  "expect_ok message response =
     (if status response \<noteq> 200 then Inl (RuntimeError (message @ int_string (status response)))
      else Inr (body response))"

definition load_container :: "cred_env \<Rightarrow> CredentialSource \<Rightarrow> Snapshot traced" where
  "load_container env cs =
     tbind (pure_result (parse_credential_endpoint (cs_container_uri cs))) (\<lambda>endpoint.
       if \<not> ep_tls endpoint \<and> \<not> safe_plaintext_container_host env (ep_host endpoint)
       then pure_result (Inl (RuntimeError ''plaintext container credential endpoint is not loopback/link-local''))
       else tbind (credential_request env (cs_options cs) endpoint ''GET''
                (if cs_container_token cs \<noteq> [] then [(''authorization'', cs_container_token cs)] else []) True)
         (\<lambda>response. pure_result (ebind (expect_ok ''container credential endpoint returned HTTP '' response)
            (\<lambda>text. parse_json_credentials env text ''container credential endpoint'' False))))"

definition imds_token :: "string \<Rightarrow> string result" where
  "imds_token text =
     (let token = trim text
      in if token = [] \<or> has_line_break token then Inl (RuntimeError ''IMDSv2 returned an invalid token'')
         else Inr token)"

definition imds_role :: "string \<Rightarrow> string result" where
  "imds_role text =
     (let role = trim text
      in if role = [] \<or> CHR ''/'' \<in> set role \<or> has_line_break role
         then Inl (RuntimeError ''IMDS returned an invalid IAM role name'') else Inr role)"

definition load_imds :: "cred_env \<Rightarrow> CredentialSource \<Rightarrow> Snapshot traced" where
  "load_imds env cs =
     tbind (pure_result (parse_credential_endpoint (cs_imds_endpoint cs))) (\<lambda>endpoint.
       if ep_tls endpoint \<or> \<not> safe_plaintext_container_host env (ep_host endpoint)
       then pure_result (Inl (RuntimeError ''IMDS endpoint must be a local plaintext address''))
       else
         let base_path = (if ep_path endpoint = ''/'' then [] else ep_path endpoint);
             request = (\<lambda>path meth hs. credential_request env (cs_options cs) (endpoint\<lparr>ep_path := path\<rparr>) meth hs True);
             roles = base_path @ ''/latest/meta-data/iam/security-credentials/''
         in tbind (request (base_path @ ''/latest/api/token'') ''PUT''
                     [(''x-aws-ec2-metadata-token-ttl-seconds'', ''21600'')]) (\<lambda>response.
            tbind (pure_result (ebind (expect_ok ''IMDSv2 token request returned HTTP '' response) imds_token)) (\<lambda>token.
            tbind (request roles ''GET'' [(''x-aws-ec2-metadata-token'', token)]) (\<lambda>response.
            tbind (pure_result (ebind (expect_ok ''IMDS role request returned HTTP '' response) imds_role)) (\<lambda>role.
            tbind (request (roles @ uri_encode role False) ''GET'' [(''x-aws-ec2-metadata-token'', token)]) (\<lambda>response.
              pure_result (ebind (expect_ok ''IMDS credential request returned HTTP '' response)
                (\<lambda>text. parse_json_credentials env text ''IMDS'' False))))))))"

definition load_source :: "cred_env \<Rightarrow> CredentialSource \<Rightarrow> Snapshot traced" where
  "load_source env cs =
     (case cs_source cs of
        SOURCE_SHARED_FILE \<Rightarrow> load_shared_file env cs
      | SOURCE_PROCESS \<Rightarrow> load_process env cs
      | SOURCE_WEB_IDENTITY \<Rightarrow> load_web_identity env cs
      | SOURCE_CONTAINER \<Rightarrow> load_container env cs
      | SOURCE_IMDS \<Rightarrow> load_imds env cs
      | _ \<Rightarrow> pure_result (Inl (LogicError ''static credential source cannot refresh'')))"

end
