(* ===== verification/Cred_Time.thy ===== *)
theory Cred_Time
  imports Cred_Source
begin

text \<open>
  Expiration times are those of the Gregorian calendar, and the reader of expirations takes
  every time from 1970 on that the reader of modification times takes.
\<close>

lemma decimal_value_bound: "list_all isdigit s \<Longrightarrow> decimal_value s < 10 ^ length s"
proof (induction s rule: rev_induct)
  case Nil
  then show ?case by (simp add: decimal_value_def)
next
  case (snoc c s)
  then have "decimal_value s < 10 ^ length s" "digit_val c < 10"
    by (auto simp: digit_val_def isdigit_def)
  then show ?case by (simp add: decimal_value_snoc)
qed

lemma unsigned_decimal_eq: "unsigned_decimal s = decimal_value s mod 2 ^ 32"
proof (induction s rule: rev_induct)
  case Nil
  then show ?case by (simp add: unsigned_decimal_def decimal_value_def)
next
  case (snoc c s)
  have "unsigned_decimal (s @ [c]) = (unsigned_decimal s * 10 + digit_val c) mod 2 ^ 32"
    by (simp add: unsigned_decimal_def)
  then show ?case unfolding snoc decimal_value_snoc by (metis mod_add_left_eq mod_mult_left_eq)
qed

lemma expiration_number_eq:
  assumes "p + n \<le> length s" "0 < n" "n \<le> 4"
  shows "expiration_number s p n = Inr v \<longleftrightarrow> fixed_decimal s p n = Inr v"
proof (cases "list_all isdigit (substr s p n)")
  case True
  have l: "length (substr s p n) = n" using assms by (simp add: substr_def)
  have "decimal_value (substr s p n) < 10 ^ n" using decimal_value_bound [OF True] l by simp
  also have "(10::nat) ^ n \<le> 10 ^ 4" using assms(3) by (intro power_increasing) auto
  finally have "decimal_value (substr s p n) < 10000" by simp
  moreover have "substr s p n \<noteq> []" using l assms(2) by auto
  ultimately have "parse_unsigned_all 32 (substr s p n) = Some (decimal_value (substr s p n))"
    "decimal_value (substr s p n) mod 2 ^ 32 = decimal_value (substr s p n)"
    using True by (simp_all add: parse_unsigned_all_Some decimal_string_def)
  then show ?thesis using True assms
    by (simp add: expiration_number_def fixed_decimal_def unsigned_decimal_eq)
next
  case False
  then have "parse_unsigned_all 32 (substr s p n) = None"
    using parse_unsigned_all_Some [of 32 "substr s p n"] by (auto simp: decimal_string_def)
  then show ?thesis using False assms by (simp add: expiration_number_def fixed_decimal_def)
qed

lemma cred_leap_year_eq: "cred_leap_year (int y) = leap_year y"
proof -
  have "int y mod 4 = int (y mod 4)" "int y mod 100 = int (y mod 100)" "int y mod 400 = int (y mod 400)"
    by (simp_all add: zmod_int)
  then show ?thesis by (simp add: cred_leap_year_def leap_year_def)
qed

lemma days_from_civil_eq: "days_from_civil (int y) m d = utc_days y m d"
  by (simp add: days_from_civil_def utc_days_def)

lemma days_per_month_eq: "1 \<le> m \<Longrightarrow> days_per_month ! m = month_days ! (m - 1)"
  by (cases m) (simp_all add: days_per_month_def month_days_def)

definition expiration_fields ::
  "string \<Rightarrow> nat \<Rightarrow> nat \<Rightarrow> nat \<Rightarrow> nat \<Rightarrow> nat \<Rightarrow> nat \<Rightarrow> bool" where
  "expiration_fields s y m d h n z \<longleftrightarrow>
     fixed_decimal s 0 4 = Inr y \<and> fixed_decimal s 5 2 = Inr m \<and> fixed_decimal s 8 2 = Inr d \<and>
     fixed_decimal s 11 2 = Inr h \<and> fixed_decimal s 14 2 = Inr n \<and> fixed_decimal s 17 2 = Inr z"

definition expiration_shape :: "string \<Rightarrow> bool" where
  "expiration_shape s \<longleftrightarrow>
     20 \<le> length s \<and> s ! 4 = CHR ''-'' \<and> s ! 7 = CHR ''-'' \<and> (s ! 10 = CHR ''T'' \<or> s ! 10 = CHR ''t'') \<and>
     s ! 13 = CHR '':'' \<and> s ! 16 = CHR '':'' \<and>
     (\<exists>stop. expiration_end s = Inr stop \<and> stop + 1 = length s \<and> (s ! stop = CHR ''Z'' \<or> s ! stop = CHR ''z''))"

lemma if_Inl_eq_Inr: "(if A then Inl e else X) = Inr t \<longleftrightarrow> \<not> A \<and> X = Inr t"
  by simp

lemma parse_expiration_iff:
  "parse_expiration s = Inr t \<longleftrightarrow>
   expiration_shape s \<and> (\<exists>y m d h n z. expiration_fields s y m d h n z \<and> valid_date y m d \<and> 1970 \<le> y \<and>
     h < 24 \<and> n < 60 \<and> z \<le> 60 \<and> t = calendar_seconds y m d h n z)"
proof (cases "20 \<le> length s")
  case False
  then show ?thesis by (simp add: parse_expiration_def expiration_shape_def)
next
  case True
  have num: "expiration_number s 0 4 = Inr v \<longleftrightarrow> fixed_decimal s 0 4 = Inr v"
    "expiration_number s 5 2 = Inr v \<longleftrightarrow> fixed_decimal s 5 2 = Inr v"
    "expiration_number s 8 2 = Inr v \<longleftrightarrow> fixed_decimal s 8 2 = Inr v"
    "expiration_number s 11 2 = Inr v \<longleftrightarrow> fixed_decimal s 11 2 = Inr v"
    "expiration_number s 14 2 = Inr v \<longleftrightarrow> fixed_decimal s 14 2 = Inr v"
    "expiration_number s 17 2 = Inr v \<longleftrightarrow> fixed_decimal s 17 2 = Inr v" for v
    using True by (simp_all add: expiration_number_eq)
  have date: "\<not> (y < 1970 \<or> m = 0 \<or> m > 12 \<or> d = 0 \<or>
      d > days_per_month ! m + (if m = 2 \<and> cred_leap_year (int y) then 1 else 0) \<or> h > 23 \<or> n > 59 \<or> z > 60) \<longleftrightarrow>
    valid_date y m d \<and> 1970 \<le> y \<and> h < 24 \<and> n < 60 \<and> z \<le> 60" for y m d h n z :: nat
    using days_per_month_eq [of m] by (auto simp: valid_date_def month_len_def cred_leap_year_eq)
  have secs: "days_from_civil (int y) m d * 86400 + int h * 3600 + int n * 60 + int z = calendar_seconds y m d h n z"
    if "valid_date y m d" for y m d h n z
  proof -
    have "utc_days y m d = int (calendar_day y m d) - 719528"
      using that by (intro utc_days_calendar) (auto simp: valid_date_def)
    moreover have "calendar_day 1970 1 1 = 719528" by (simp add: calendar_day_def days_before_1970)
    ultimately show ?thesis by (simp add: days_from_civil_eq calendar_seconds_def)
  qed
  have "parse_expiration s = Inr t \<longleftrightarrow>
      expiration_shape s \<and> (\<exists>y m d h n z. expiration_fields s y m d h n z \<and>
        (valid_date y m d \<and> 1970 \<le> y \<and> h < 24 \<and> n < 60 \<and> z \<le> 60) \<and>
        days_from_civil (int y) m d * 86400 + int h * 3600 + int n * 60 + int z = t)"
    unfolding parse_expiration_def if_Inl_eq_Inr ebind_Inr_iff num date expiration_shape_def expiration_fields_def sum.inject
    using True by (auto simp: not_less)
  moreover have "(valid_date y m d \<and> 1970 \<le> y \<and> h < 24 \<and> n < 60 \<and> z \<le> 60) \<and>
      days_from_civil (int y) m d * 86400 + int h * 3600 + int n * 60 + int z = t \<longleftrightarrow>
    valid_date y m d \<and> 1970 \<le> y \<and> h < 24 \<and> n < 60 \<and> z \<le> 60 \<and> t = calendar_seconds y m d h n z" for y m d h n z
    using secs [of y m d h n z] by auto
  ultimately show ?thesis by (simp only:)
qed

lemma day_of_year:
  assumes "1 \<le> m" "m \<le> 12" "d \<le> month_len y m"
  shows "days_before_month y m + d \<le> year_len y"
  using month_cases [OF assms(1,2)] assms(3)
  by (elim disjE) (simp_all add: days_before_month_eval month_len_def month_days_def year_len_def split: if_splits)

lemma expiration_year:
  assumes "valid_date y m d" "h < 24" "n < 60" "z < 60" "0 \<le> calendar_seconds y m d h n z"
  shows "1970 \<le> y"
proof (rule ccontr)
  assume "\<not> 1970 \<le> y"
  then have y: "Suc y \<le> 1970" by simp
  have m: "1 \<le> m" "m \<le> 12" "1 \<le> d" "d \<le> month_len y m" using assms(1) by (auto simp: valid_date_def)
  have "calendar_day y m d < days_before_year (Suc y)"
    using m(3) day_of_year [OF m(1,2,4)] by (simp add: calendar_day_def)
  also have "days_before_year (Suc y) \<le> days_before_year 1970" using y by (rule days_before_year_mono)
  finally have "calendar_day y m d < calendar_day 1970 1 1" by (simp add: calendar_day_def)
  then have "int (calendar_day y m d) - int (calendar_day 1970 1 1) \<le> - 1" by linarith
  then have "(int (calendar_day y m d) - int (calendar_day 1970 1 1)) * 86400 \<le> - 1 * 86400"
    by (rule mult_right_mono) simp
  moreover have "int (h * 3600 + n * 60 + z) < 86400" using assms(2-4) by simp
  ultimately show False using assms(5) unfolding calendar_seconds_def by linarith
qed

lemma fraction_digits:
  assumes "20 \<le> length s" "length s \<noteq> 21" "s ! 19 = CHR ''.''" "last s = CHR ''Z''"
    "list_all isdigit (substr s 20 (length s - 21))"
  shows "22 \<le> length s" "takeWhile isdigit (drop 20 s) = substr s 20 (length s - 21)"
proof -
  have "length s \<noteq> 20"
  proof
    assume l: "length s = 20"
    then have "last s = s ! 19" using last_conv_nth [of s] by (cases s) auto
    then show False using assms by simp
  qed
  then show l: "22 \<le> length s" using assms(1,2) by linarith
  have "drop 20 s \<noteq> []" using l by simp
  then have "drop 20 s = butlast (drop 20 s) @ [last (drop 20 s)]" by (rule append_butlast_last_id [symmetric])
  moreover have "butlast (drop 20 s) = substr s 20 (length s - 21)" by (simp add: substr_def butlast_conv_take)
  moreover have "last (drop 20 s) = CHR ''Z''" using l assms(4) by (simp add: last_drop)
  ultimately have d: "drop 20 s = substr s 20 (length s - 21) @ ''Z''" by (simp only:)
  have "\<not> isdigit CHR ''Z''" by (simp add: isdigit_def)
  then show "takeWhile isdigit (drop 20 s) = substr s 20 (length s - 21)"
    unfolding d using assms(5) by (simp add: takeWhile_append list_all_iff)
qed

lemma mtime_expiration_end:
  assumes "20 \<le> length s"
    and "s ! 19 = CHR ''.'' \<Longrightarrow> last s = CHR ''Z'' \<and> length s \<noteq> 21 \<and> list_all isdigit (substr s 20 (length s - 21))"
    and "s ! 19 \<noteq> CHR ''.'' \<Longrightarrow> length s = 20 \<and> s ! 19 = CHR ''Z''"
  shows "\<exists>stop. expiration_end s = Inr stop \<and> stop + 1 = length s \<and> s ! stop = CHR ''Z''"
proof (cases "s ! 19 = CHR ''.''")
  case True
  have l: "22 \<le> length s" "takeWhile isdigit (drop 20 s) = substr s 20 (length s - 21)" "last s = CHR ''Z''"
    using assms True fraction_digits [of s] by auto
  then have "length (takeWhile isdigit (drop 20 s)) = length s - 21" by (simp add: substr_def)
  then have "expiration_end s = Inr (length s - 1)"
    using True l(1) by (simp add: expiration_end_def Let_def)
  moreover have "s ! (length s - 1) = CHR ''Z''" using l(1,3) last_conv_nth [of s] by (cases s) auto
  ultimately show ?thesis using l(1) by (intro exI [of _ "length s - 1"]) simp
next
  case False
  then show ?thesis using assms(3) by (simp add: expiration_end_def)
qed

lemma mtime_expiration_shape: "parse_s3_mtime s = Inr t \<Longrightarrow> expiration_shape s"
  using mtime_expiration_end [of s] unfolding parse_s3_mtime_def expiration_shape_def
  by (auto split: if_split_asm)

lemma mtime_is_expiration:
  assumes m: "parse_s3_mtime s = Inr t" and t: "0 \<le> t"
  shows "parse_expiration s = Inr t"
proof -
  obtain y mo d h n z where f: "expiration_fields s y mo d h n z" and u: "utc_time y mo d h n z = Inr t"
    using m unfolding parse_s3_mtime_def expiration_fields_def if_Inl_eq_Inr ebind_Inr_iff by blast
  have "y < 2 ^ 32" using f by (auto simp: expiration_fields_def fixed_decimal_def unsigned_decimal_eq split: if_split_asm)
  then have v: "valid_date y mo d" "h < 24" "n < 60" "z < 60" "t = calendar_seconds y mo d h n z"
    using u by (auto simp: utc_time_calendar split: if_split_asm)
  then have "1970 \<le> y" using t by (intro expiration_year) auto
  moreover have "z \<le> 60" using v(4) by simp
  ultimately show ?thesis
    unfolding parse_expiration_iff using mtime_expiration_shape [OF m] f v by blast
qed

text \<open>
  The expiration of a credential is the instant its text names: whatever is accepted is a
  date of the Gregorian calendar from 1970 on with a time of day (a leap second included), and
  the result is its number of seconds since 1970; and every time from 1970 on that the reader of
  modification times accepts is accepted with the same result.
\<close>

lemma expiration_is_calendar_time:
  "(\<forall>t. parse_expiration s = Inr t \<longrightarrow>
      (\<exists>y m d h n z. expiration_fields s y m d h n z \<and> valid_date y m d \<and> 1970 \<le> y \<and>
         h < 24 \<and> n < 60 \<and> z \<le> 60 \<and> t = calendar_seconds y m d h n z)) \<and>
   (\<forall>t. parse_s3_mtime s = Inr t \<and> 0 \<le> t \<longrightarrow> parse_expiration s = Inr t)"
  using mtime_is_expiration [of s] by (auto simp: parse_expiration_iff)


lemma expiration_is_calendar_time_example:
  "parse_expiration ex_stamp = Inr 86407 \<and>
   (\<exists>y m d h n z. expiration_fields ex_stamp y m d h n z \<and> valid_date y m d \<and> 1970 \<le> y \<and>
      h < 24 \<and> n < 60 \<and> z \<le> 60 \<and> 86407 = calendar_seconds y m d h n z)"
  using expiration_is_calendar_time [of ex_stamp] ex_stamp_mtime by auto

end
