(* ===== verification/Cred_Load.thy ===== *)
theory Cred_Load
  imports Cred_Time
begin

text \<open>
  What the loaders guarantee: the credentials they return can be signed with and sent, their
  requests are encrypted or stay on the machine, endpoint URLs are read back as they are
  written, and profile files are read with the precedence of the AWS tools.
\<close>

section \<open>Traced computations\<close>

lemma fst_tbind [simp]: "fst (tbind m f) = ebind (fst m) (\<lambda>x. fst (f x))"
  by (cases "(m, f)" rule: tbind.cases) (auto split: prod.split)

lemma snd_tbind:
  "snd (tbind m f) = snd m @ (case fst m of Inl e \<Rightarrow> [] | Inr x \<Rightarrow> snd (f x))"
  by (cases "(m, f)" rule: tbind.cases) (auto split: prod.split)

lemma pure_result_sel [simp]: "fst (pure_result r) = r" "snd (pure_result r) = []"
  by (simp_all add: pure_result_def)

lemma log_tbind:
  "list_all P (snd (tbind m f)) \<longleftrightarrow> list_all P (snd m) \<and> (\<forall>x. fst m = Inr x \<longrightarrow> list_all P (snd (f x)))"
  by (cases "fst m") (auto simp: snd_tbind)

section \<open>Usable credentials\<close>

definition usable :: "Credentials \<Rightarrow> bool" where
  "usable c \<longleftrightarrow> access_key_id c \<noteq> [] \<and> secret_access_key c \<noteq> [] \<and>
     \<not> has_line_break (access_key_id c) \<and> \<not> has_line_break (session_token c)"

lemma validate_credentials_ok: "validate_credentials c source = Inr u \<longleftrightarrow> usable c"
  by (auto simp: validate_credentials_def usable_def)

lemma json_usable:
  "parse_json_credentials env text source process_format = Inr s \<Longrightarrow> usable (credentials s)"
  by (auto simp: parse_json_credentials_def json_snapshot_def ebind_Inr_iff Let_def validate_credentials_ok
      split: sum.splits if_splits)

lemma web_identity_usable: "web_identity_snapshot env r = Inr s \<Longrightarrow> usable (credentials s)"
  by (auto simp: web_identity_snapshot_def ebind_Inr_iff Let_def validate_credentials_ok split: if_splits)

lemma load_source_usable:
  assumes "fst (load_source env cs) = Inr s"
  shows "usable (credentials s)"
  using assms unfolding load_source_def
  by (cases "cs_source cs")
    (auto simp: load_shared_file_def load_process_def load_web_identity_def load_container_def load_imds_def
      ebind_Inr_iff Let_def validate_credentials_ok dest: json_usable web_identity_usable split: if_splits)

section \<open>Requests\<close>

lemma credential_request_log: "snd (credential_request env options endpoint meth hs metadata) =
  [\<lparr>hc_host = ep_host endpoint, hc_port = ep_port endpoint, hc_authority = ep_authority endpoint,
    hc_tls = ep_tls endpoint,
    hc_io_timeout = (if metadata then min (o_request_timeout_ms options) (o_metadata_timeout_ms options)
                     else o_request_timeout_ms options),
    hc_connect_timeout = (if metadata then min (o_connect_timeout_ms options) (o_metadata_timeout_ms options)
                          else o_connect_timeout_ms options),
    hc_probe_timeout = (if metadata then min (o_protocol_probe_timeout_ms options) (o_metadata_timeout_ms options)
                        else o_protocol_probe_timeout_ms options),
    hc_method = meth, hc_path = ep_path endpoint, hc_headers = hs\<rparr>]"
  by (simp add: credential_request_def Let_def)

definition private_call :: "cred_env \<Rightarrow> http_call \<Rightarrow> bool" where
  "private_call env call \<longleftrightarrow> hc_tls call \<or> safe_plaintext_container_host env (hc_host call)"

definition clean_headers :: "http_call \<Rightarrow> bool" where
  "clean_headers call \<longleftrightarrow> list_all (\<lambda>(name, v). \<not> has_line_break v) (hc_headers call)"

lemma https_endpoint: "parse_credential_endpoint (''https://'' @ rest) = Inr ep \<Longrightarrow> ep_tls ep"
  by (auto simp: parse_credential_endpoint_def endpoint_of_rest_def ebind_Inr_iff Let_def starts_with_def
      split: if_splits)

lemma load_imds_calls:
  "list_all (\<lambda>call. private_call env call \<and> clean_headers call) (snd (load_imds env cs))"
  unfolding load_imds_def Let_def log_tbind
  by (auto simp: log_tbind credential_request_log private_call_def clean_headers_def has_line_break_def
      ebind_Inr_iff imds_token_def Let_def split: if_splits)

lemma load_container_calls:
  "\<not> has_line_break (cs_container_token cs) \<Longrightarrow>
   list_all (\<lambda>call. private_call env call \<and> clean_headers call) (snd (load_container env cs))"
  unfolding load_container_def Let_def log_tbind
  by (auto simp: log_tbind credential_request_log private_call_def clean_headers_def)

lemma web_identity_tls:
  assumes "parse_credential_endpoint (web_identity_url env cs) = Inr ep"
    "environment_value env ''AWS_ENDPOINT_URL_STS'' = []"
  shows "ep_tls ep"
  using assms https_endpoint unfolding web_identity_url_def Let_def assms(2) if_P [OF refl] by blast

lemma load_web_identity_calls:
  "list_all (\<lambda>call. (private_call env call \<or> environment_value env ''AWS_ENDPOINT_URL_STS'' \<noteq> []) \<and> clean_headers call)
     (snd (load_web_identity env cs))"
  unfolding load_web_identity_def Let_def log_tbind
  by (auto simp: log_tbind credential_request_log private_call_def clean_headers_def Let_def
      dest: web_identity_tls)

text \<open>
  The local addresses, without the masks of the code: the three names it lists, IPv4 addresses in
  127.0.0.0/8 or 169.254.0.0/16, and the IPv6 loopback.
\<close>

lemma masked_prefix:
  fixes address :: u32
  assumes "n < 32"
  shows "unat (address AND push_bit n (mask (32 - n))) = unat address div 2 ^ n * 2 ^ n"
proof -
  have small: "unat address < 2 ^ 32" using unsigned_less [of address] by simp
  have "address AND push_bit n (mask (32 - n)) = push_bit n (drop_bit n address)"
    using assms by (intro bit_word_eqI) (auto simp: bit_simps)
  then have "unat (address AND push_bit n (mask (32 - n))) = (unat address div 2 ^ n * 2 ^ n) mod 2 ^ 32"
    by (simp only: unsigned_push_bit_eq unsigned_drop_bit_eq)
      (use small in \<open>simp add: take_bit_eq_mod push_bit_eq_mult drop_bit_eq_div\<close>)
  moreover have "unat address div 2 ^ n * 2 ^ n < 2 ^ 32"
    by (rule le_less_trans [OF div_times_less_eq_dividend small])
  ultimately show ?thesis by simp
qed

lemma ipv4_prefix:
  "(address AND 0xff000000 = 0x7f000000) = (unat address div 2 ^ 24 = 127)"
  "(address AND 0xffff0000 = 0xa9fe0000) = (unat address div 2 ^ 16 = 169 * 256 + 254)"
  for address :: u32
  using masked_prefix [of 24 address] masked_prefix [of 16 address]
  by (auto simp: word_unat_eq_iff mask_eq_exp_minus_1 push_bit_eq_mult)
lemma safe_host_is_local:
  assumes "safe_plaintext_container_host env host"
  shows "host \<in> {''localhost'', ''fd00:ec2::23'', ''fd00:ec2::254''} \<or>
    (\<exists>address. inet4 env (c_string host) = Some address \<and>
      (unat address div 2 ^ 24 = 127 \<or> unat address div 2 ^ 16 = 169 * 256 + 254)) \<or>
    inet6 env (c_string host) = Some True"
  using assms by (auto simp: safe_plaintext_container_host_def ipv4_prefix split: option.splits)

lemma loads_private:
  assumes "\<not> has_line_break (cs_container_token cs)"
  shows "list_all (\<lambda>call.
      (private_call env call \<or>
       cs_source cs = SOURCE_WEB_IDENTITY \<and> environment_value env ''AWS_ENDPOINT_URL_STS'' \<noteq> []) \<and>
      clean_headers call) (snd (load_source env cs))"
  using load_imds_calls [of env cs] load_container_calls [OF assms, of env] load_web_identity_calls [of env cs]
  unfolding load_source_def
  by (cases "cs_source cs") (auto simp: load_shared_file_def load_process_def list_all_iff Let_def)

text \<open>The local addresses and the TLS endpoint of an instance with a metadata service.\<close>

definition ex_options :: CredentialProviderOptions where
  "ex_options = \<lparr>o_region = ''r'', o_connect_timeout_ms = 5, o_request_timeout_ms = 30, o_protocol_probe_timeout_ms = 2,
     o_metadata_timeout_ms = 1, o_shared_reload_ms = 60000\<rparr>"

definition ex_cred_env :: cred_env where
  "ex_cred_env = \<lparr>getenv = Map.empty, file_text = (\<lambda>path. Inl 2), run_process = (\<lambda>command timeout. Inr []),
     http = (\<lambda>call. Inr \<lparr>status = 200, headers = (\<lambda>n. None),
       body = if hc_method call = ''PUT'' then ''tok'' else if last (hc_path call) = CHR ''/'' then ''role'' else ''json''\<rparr>),
     read_json = (\<lambda>text. Inr (JObj [(''AccessKeyId'', JStr ''id''), (''SecretAccessKey'', JStr ''key''),
       (''Token'', JStr ''session''), (''Expiration'', JStr ex_stamp)])),
     read_xml = (\<lambda>text. Inl []), inet4 = [''169.254.169.254'' \<mapsto> 0xa9fea9fe], inet6 = Map.empty,
     getpid = 1, epoch = (\<lambda>k. Inr 1000), monotonic = Inr (5, 0)\<rparr>"

definition ex_source :: CredentialSource where
  "ex_source = \<lparr>cs_options = ex_options, cs_source = SOURCE_IMDS, cs_profile = ''default'',
     cs_shared_credentials_file = [], cs_config_file = [], cs_process = [], cs_token_file = [], cs_role_arn = [],
     cs_role_session_name = [], cs_container_uri = [], cs_container_token = [],
     cs_imds_endpoint = ''http://169.254.169.254''\<rparr>"

definition ex_snapshot :: Snapshot where
  "ex_snapshot = \<lparr>credentials = \<lparr>access_key_id = ''id'', secret_access_key = ''key'', session_token = ''session''\<rparr>,
     expiration = 86407\<rparr>"

lemma ex_endpoint:
  "parse_credential_endpoint ''http://169.254.169.254'' =
     Inr \<lparr>ep_host = ''169.254.169.254'', ep_authority = ''169.254.169.254'', ep_path = ''/'', ep_port = 80, ep_tls = False\<rparr>"
  by (simp add: parse_credential_endpoint_def starts_with_def endpoint_of_rest_def Let_def find_char_def
      endpoint_host_def rfind_char_def endpoint_port_def)

lemma ex_expiration: "parse_expiration ex_stamp = Inr 86407"
  by (rule mtime_is_expiration [OF ex_stamp_mtime]) simp

lemma ex_load:
  "fst (load_source ex_cred_env ex_source) = Inr ex_snapshot" "length (snd (load_source ex_cred_env ex_source)) = 3"
  "map (\<lambda>call. (hc_tls call, hc_host call)) (snd (load_source ex_cred_env ex_source)) =
     [(False, ''169.254.169.254''), (False, ''169.254.169.254''), (False, ''169.254.169.254'')]"
proof -
  have safe: "safe_plaintext_container_host ex_cred_env ''169.254.169.254''"
    by (simp add: safe_plaintext_container_host_def ex_cred_env_def c_string_def)
  have tr: "trim ''tok'' = ''tok''" "trim ''role'' = ''role''" "\<not> has_line_break ''tok''" "\<not> has_line_break ''role''"
    by (simp_all add: trim_def isspace_def has_line_break_def)
  have st: "ex_stamp \<noteq> []" by (simp add: ex_stamp_def)
  have js: "parse_json_credentials ex_cred_env t ''IMDS'' False = Inr ex_snapshot" for t
    by (simp add: parse_json_credentials_def ex_cred_env_def json_snapshot_def json_string_def obj_get_def
        optional_expiration_def ex_expiration st ex_snapshot_def validate_credentials_def
        has_line_break_def Let_def)
  have web: "http ex_cred_env call = Inr \<lparr>status = 200, headers = (\<lambda>n. None),
      body = if hc_method call = ''PUT'' then ''tok'' else if last (hc_path call) = CHR ''/'' then ''role'' else ''json''\<rparr>"
    for call by (simp add: ex_cred_env_def)
  note ev = load_source_def ex_source_def load_imds_def ex_endpoint safe credential_request_def expect_ok_def
    imds_token_def imds_role_def tr js web Let_def snd_tbind
  show "fst (load_source ex_cred_env ex_source) = Inr ex_snapshot" "length (snd (load_source ex_cred_env ex_source)) = 3"
    "map (\<lambda>call. (hc_tls call, hc_host call)) (snd (load_source ex_cred_env ex_source)) =
       [(False, ''169.254.169.254''), (False, ''169.254.169.254''), (False, ''169.254.169.254'')]"
    by (simp_all add: ev pure_result_def uri_encode_def uri_encode_char_def uri_unreserved_def isalnum_def ctype_defs)
qed

section \<open>Endpoint URLs\<close>

definition endpoint_authority :: "bool \<Rightarrow> string \<Rightarrow> nat option \<Rightarrow> string" where
  "endpoint_authority ipv6 host port =
     (if ipv6 then ''['' @ host @ '']'' else host) @
     (case port of None \<Rightarrow> [] | Some p \<Rightarrow> '':'' @ to_string p)"

definition endpoint_url :: "bool \<Rightarrow> string \<Rightarrow> string \<Rightarrow> string" where
  "endpoint_url tls authority path = (if tls then ''https://'' else ''http://'') @ authority @ path"

definition host_ok :: "bool \<Rightarrow> string \<Rightarrow> bool" where
  "host_ok ipv6 host \<longleftrightarrow> host \<noteq> [] \<and> list_all (\<lambda>c. c \<notin> set ''/@?#[]'') host \<and> (ipv6 \<or> CHR '':'' \<notin> set host)"

lemma to_string_digits: "c \<in> set (to_string n) \<Longrightarrow> isdigit c"
  using decimal_string_to_string [of n] by (auto simp: decimal_string_def list_all_iff)

lemma to_string_nonempty [simp]: "to_string n \<noteq> []"
  using decimal_string_to_string [of n] by (simp add: decimal_string_def)

lemma endpoint_host_authority:
  assumes "host_ok ipv6 host"
  shows "endpoint_host (endpoint_authority ipv6 host port) =
    Inr (host, case port of None \<Rightarrow> [] | Some p \<Rightarrow> to_string p)"
proof (cases ipv6)
  case True
  have "CHR '']'' \<notin> set host" using assms by (auto simp: host_ok_def list_all_iff)
  then have "find_char CHR '']'' 0 (CHR ''['' # host @ CHR '']'' # rest) = Some (Suc (length host))" for rest
    unfolding find_char_0_Some by (intro exI [of _ "CHR ''['' # host"] exI [of _ rest]) simp
  then show ?thesis using True
    by (cases port) (simp_all add: endpoint_host_def endpoint_authority_def substr_def nth_append)
next
  case False
  then have h: "hd (host @ rest) \<noteq> CHR ''[''" "CHR '':'' \<notin> set host" for rest
    using assms by (cases host; auto simp: host_ok_def)+
  have "CHR '':'' \<notin> set (to_string p)" for p using to_string_digits by (fastforce simp: isdigit_def)
  then have "rfind_char CHR '':'' (host @ CHR '':'' # to_string p) = Some (length host)" for p
    using h(2) by (intro rfind_only)
  moreover have "find_char CHR '':'' 0 (rev host) = None" using h(2) by (simp add: find_char_None)
  then have "rfind_char CHR '':'' host = None" by (simp add: rfind_char_def)
  ultimately show ?thesis using False h(1) [of "[]"] h(1) [of "CHR '':'' # to_string (the port)"]
    by (cases port) (simp_all add: endpoint_host_def endpoint_authority_def)
qed


text \<open>
  The URL of a credential endpoint is read back exactly: scheme, host (a name, an IPv4
  address or a bracketed IPv6 address), optional port and path give an endpoint of that host
  with that port, or the default port of the scheme, and that path, with TLS for https only.
\<close>

lemma endpoint_url_roundtrip:
  assumes "host_ok ipv6 host" "case port of None \<Rightarrow> True | Some p \<Rightarrow> 0 < p \<and> p < 2 ^ 16"
    and "starts_with path ''/''" "CHR ''#'' \<notin> set path"
  shows "parse_credential_endpoint (endpoint_url tls (endpoint_authority ipv6 host port) path) =
    Inr \<lparr>ep_host = host, ep_authority = endpoint_authority ipv6 host port, ep_path = path,
         ep_port = (case port of None \<Rightarrow> if tls then 443 else 80 | Some p \<Rightarrow> p), ep_tls = tls\<rparr>"
proof -
  let ?a = "endpoint_authority ipv6 host port"
  let ?d = "if tls then 443 else 80 :: nat"
  let ?port = "case port of None \<Rightarrow> [] | Some p \<Rightarrow> to_string p"
  obtain rest where path: "path = CHR ''/'' # rest" using assms(3) by (auto simp: starts_with_iff)
  have a: "?a \<noteq> []" "CHR ''/'' \<notin> set ?a" "CHR ''@'' \<notin> set ?a" "CHR ''?'' \<notin> set ?a" "CHR ''#'' \<notin> set ?a"
    using assms(1) to_string_digits
    by (auto simp: endpoint_authority_def host_ok_def list_all_iff isdigit_def split: option.splits dest!: to_string_digits)
  have auth: "takeWhile (\<lambda>c. c \<noteq> CHR ''/'') (?a @ path) = ?a"
    unfolding path using a(2) by (induction ?a) (auto simp: takeWhile_append)
  have slash: "find_char CHR ''/'' 0 (?a @ path) = Some (length ?a)"
    unfolding find_char_0_Some path using a(2) by blast
  have port: "endpoint_port ?port ?d = Inr (case port of None \<Rightarrow> ?d | Some p \<Rightarrow> p)"
  proof (cases port)
    case (Some p)
    then have "parse_unsigned_all 32 (to_string p) = Some p"
      using assms(2) by (simp add: parse_unsigned_all_Some decimal_string_to_string)
    then show ?thesis using Some assms(2) by (simp add: endpoint_port_def)
  qed (simp add: endpoint_port_def)
  have "endpoint_of_rest tls ?d (?a @ path) = Inr \<lparr>ep_host = host, ep_authority = ?a, ep_path = path,
      ep_port = (case port of None \<Rightarrow> ?d | Some p \<Rightarrow> p), ep_tls = tls\<rparr>"
    unfolding endpoint_of_rest_def Let_def auth slash endpoint_host_authority [OF assms(1)] ebind.simps prod.case port
    using a assms(1,4) by (simp add: host_ok_def)
  then show ?thesis by (cases tls) (simp_all add: parse_credential_endpoint_def endpoint_url_def starts_with_def)
qed

lemma endpoint_url_roundtrip_example:
  "parse_credential_endpoint (endpoint_url False (endpoint_authority True ''fd00:ec2::23'' (Some 8080)) ''/v2'') =
    Inr \<lparr>ep_host = ''fd00:ec2::23'', ep_authority = endpoint_authority True ''fd00:ec2::23'' (Some 8080),
      ep_path = ''/v2'', ep_port = 8080, ep_tls = False\<rparr>"
  using endpoint_url_roundtrip [of True "''fd00:ec2::23''" "Some 8080" "''/v2''" False]
  by (simp add: host_ok_def starts_with_def)

section \<open>Profile files\<close>

text \<open>The settings of a profile in a file, in order, and the last one of some names.\<close>

fun profile_settings :: "string \<Rightarrow> bool \<Rightarrow> bool \<Rightarrow> string list \<Rightarrow> (string \<times> string) list" where
  "profile_settings profile config selected [] = []"
| "profile_settings profile config selected (line # ls) =
     (let text = trim line
      in if text = [] \<or> hd text = CHR ''#'' \<or> hd text = CHR '';'' then profile_settings profile config selected ls
         else if hd text = CHR ''['' \<and> last text = CHR '']''
         then profile_settings profile config (section_name config text = profile) ls
         else if selected \<and> CHR ''='' \<in> set text
         then (trim (takeWhile (\<lambda>c. c \<noteq> CHR ''='') text), trim (drop 1 (dropWhile (\<lambda>c. c \<noteq> CHR ''='') text))) #
                profile_settings profile config selected ls
         else profile_settings profile config selected ls)"

definition file_settings :: "cred_env \<Rightarrow> string \<Rightarrow> string \<Rightarrow> bool \<Rightarrow> (string \<times> string) list" where
  "file_settings env path profile config =
     (case file_text env path of Inl e \<Rightarrow> [] | Inr text \<Rightarrow> profile_settings profile config False (getlines text))"

definition last_setting :: "string list \<Rightarrow> (string \<times> string) list \<Rightarrow> string" where
  "last_setting names settings =
     (let found = filter (\<lambda>(n, v). n \<in> set names) settings in if found = [] then [] else snd (last found))"

definition profile_fields :: "(string list \<times> (Profile \<Rightarrow> string)) list" where
  "profile_fields =
     [([''aws_access_key_id''], access_key_id \<circ> pf_credentials),
      ([''aws_secret_access_key''], secret_access_key \<circ> pf_credentials),
      ([''aws_session_token'', ''aws_security_token''], session_token \<circ> pf_credentials),
      ([''credential_process''], pf_process), ([''web_identity_token_file''], pf_token_file),
      ([''role_arn''], pf_role_arn), ([''role_session_name''], pf_role_session_name),
      ([''credential_source''], pf_credential_source), ([''source_profile''], pf_source_profile),
      ([''sso_session'', ''sso_start_url''], pf_sso_session)]"

lemma find_char_split:
  assumes "find_char d 0 t = Some k"
  shows "take k t = takeWhile (\<lambda>c. c \<noteq> d) t" "drop (Suc k) t = drop (Suc 0) (dropWhile (\<lambda>c. c \<noteq> d) t)" "d \<in> set t"
proof -
  from assms obtain u v where u: "t = u @ d # v" "d \<notin> set u" "k = length u" by (auto simp: find_char_0_Some)
  have "takeWhile (\<lambda>c. c \<noteq> d) (u @ d # v) = u" "dropWhile (\<lambda>c. c \<noteq> d) (u @ d # v) = d # v"
    using u(2) by (induction u) auto
  then show "take k t = takeWhile (\<lambda>c. c \<noteq> d) t" "drop (Suc k) t = drop (Suc 0) (dropWhile (\<lambda>c. c \<noteq> d) t)" "d \<in> set t"
    unfolding u by simp_all
qed

lemma profile_line_fold:
  "snd (foldl (\<lambda>st line. profile_line profile config line st) (selected, r) ls) =
     foldl (\<lambda>r (n, v). assign_profile n v r) r (profile_settings profile config selected ls)"
proof (induction ls arbitrary: selected r)
  case (Cons line ls)
  show ?case
  proof (cases "find_char CHR ''='' 0 (trim line)")
    case None
    then have "CHR ''='' \<notin> set (trim line)" by (simp add: find_char_None)
    then show ?thesis using None Cons by (auto simp: profile_line_def Let_def)
  next
    case (Some k)
    show ?thesis using Cons Some find_char_split [OF Some] by (auto simp: profile_line_def Let_def)
  qed
qed simp

lemma assign_field:
  assumes "(names, get) \<in> set profile_fields"
  shows "get (assign_profile n v r) = (if n \<in> set names then v else get r)"
  using assms unfolding profile_fields_def
  by (simp only: set_simps insert_iff empty_iff prod.inject)
    (elim disjE conjE FalseE; simp add: assign_profile_def)

lemma assign_fields:
  assumes "(names, get) \<in> set profile_fields"
  shows "get (foldl (\<lambda>r (n, v). assign_profile n v r) r settings) =
    (if filter (\<lambda>(n, v). n \<in> set names) settings = [] then get r else last_setting names settings)"
proof (induction settings rule: rev_induct)
  case (snoc x settings)
  obtain n v where "x = (n, v)" by (cases x)
  then show ?case using snoc assign_field [OF assms] by (auto simp: last_setting_def Let_def)
qed simp

text \<open>
  Profiles are read with the precedence of the AWS tools: every field is the last setting of
  its names in the selected profile, where the settings of the shared credentials file come
  after those of the config file; a field without a setting is empty.
\<close>

lemma profile_settings_precedence:
  assumes "(names, get) \<in> set profile_fields"
  shows "get (load_profile env cs) =
    last_setting names (file_settings env (cs_config_file cs) (cs_profile cs) True @
                        file_settings env (cs_shared_credentials_file cs) (cs_profile cs) False)"
proof -
  have "get empty_profile = []"
    using assms unfolding profile_fields_def
    by (simp only: set_simps insert_iff empty_iff prod.inject)
      (elim disjE conjE FalseE; simp add: empty_profile_def no_credentials_def)
  moreover have "parse_profile_file env path profile config r =
      foldl (\<lambda>r (n, v). assign_profile n v r) r (file_settings env path profile config)" for path profile config r
    by (simp add: parse_profile_file_def file_settings_def profile_line_fold split: sum.split)
  ultimately have "get (load_profile env cs) = (let s = file_settings env (cs_config_file cs) (cs_profile cs) True @
        file_settings env (cs_shared_credentials_file cs) (cs_profile cs) False
      in if filter (\<lambda>(n, v). n \<in> set names) s = [] then [] else last_setting names s)"
    using assign_fields [OF assms] by (simp add: load_profile_def Let_def foldl_append [symmetric] del: foldl_append)
  then show ?thesis by (simp add: Let_def last_setting_def)
qed


text \<open>A config file and a credentials file with two profiles.\<close>

definition newline_text :: string where "newline_text = [CHR 0x0a]"

definition ex_profile_env :: cred_env where
  "ex_profile_env = ex_cred_env\<lparr>file_text := (\<lambda>path.
     if path = ''config'' then Inr (''[profile p]'' @ newline_text @ ''role_arn = a'' @ newline_text @ ''aws_access_key_id=old'')
     else Inr (''[q]'' @ newline_text @ ''aws_access_key_id=other'' @ newline_text @ '' [ p ]'' @ newline_text @
       ''# comment'' @ newline_text @ ''aws_access_key_id = new''))\<rparr>"

definition ex_profile_source :: CredentialSource where
  "ex_profile_source = ex_source\<lparr>cs_profile := ''p'', cs_config_file := ''config'', cs_shared_credentials_file := ''shared''\<rparr>"

lemma profile_settings_precedence_example:
  "access_key_id (pf_credentials (load_profile ex_profile_env ex_profile_source)) = ''new'' \<and>
   pf_role_arn (load_profile ex_profile_env ex_profile_source) = ''a''"
proof -
  have sets: "file_settings ex_profile_env ''config'' ''p'' True = [(''role_arn'', ''a''), (''aws_access_key_id'', ''old'')]"
    "file_settings ex_profile_env ''shared'' ''p'' False = [(''aws_access_key_id'', ''new'')]"
    by (simp_all add: file_settings_def ex_profile_env_def newline_text_def getlines.simps trim_def isspace_def
        section_name_def substr_def starts_with_def Let_def)
  have f: "([''aws_access_key_id''], access_key_id \<circ> pf_credentials) \<in> set profile_fields"
    "([''role_arn''], pf_role_arn) \<in> set profile_fields"
    by (simp_all add: profile_fields_def)
  show ?thesis
    using profile_settings_precedence [OF f(1), of ex_profile_env ex_profile_source]
      profile_settings_precedence [OF f(2), of ex_profile_env ex_profile_source] sets
    by (simp add: ex_profile_source_def last_setting_def Let_def)
qed

end
