(* ===== verification/Cred_Provider.thy ===== *)
theory Cred_Provider
  imports Cred_Load
begin

text \<open>
  \<open>CredentialProvider\<close> (\<^verbatim>\<open>src/src/credentials.cpp\<close>): the discovery of a source, the installation of a
  snapshot, the schedule of the refreshes, one turn of the refresher thread, and \<open>get\<close>. A
  snapshot is referred to by its index in \<open>snapshots_\<close>, as the code refers to it by its address.
  Where two arguments of a call may throw, the left one is taken to be evaluated first.
\<close>

section \<open>The code\<close>

definition kCredentialRetryNs :: nat where "kCredentialRetryNs = 30 * 1000 * 1000 * 1000"

definition credential_monotonic_ns :: "cred_env \<Rightarrow> nat result" where
  "credential_monotonic_ns env =
     (case monotonic env of
        Inl errno \<Rightarrow> Inl (SystemError errno ''clock_gettime'')
      | Inr (seconds, nanoseconds) \<Rightarrow> Inr (wrap64 (seconds * 1000000000 + nanoseconds)))"

definition credential_epoch_seconds :: "cred_env \<Rightarrow> nat \<Rightarrow> int result" where
  "credential_epoch_seconds env k =
     (case epoch env k of Inl errno \<Rightarrow> Inl (SystemError errno ''clock_gettime'') | Inr t \<Rightarrow> Inr t)"

record CredentialProvider =
  cp_source :: CredentialSource
  cp_snapshots :: "Snapshot list"
  cp_current :: "nat option"
  cp_next_refresh_ns :: nat
  cp_refresh_error :: "cpp_error option"

definition add_saturating :: "nat \<Rightarrow> nat \<Rightarrow> nat" where
  "add_saturating now_ns delay = (if delay > UINT64_MAX - now_ns then UINT64_MAX else now_ns + delay)"

definition refresh_delay :: "cred_env \<Rightarrow> nat \<Rightarrow> CredentialSource \<Rightarrow> Snapshot \<Rightarrow> nat result" where
  "refresh_delay env k cs v =
     (if cs_source cs = SOURCE_SHARED_FILE
      then Inr (wrap64 (nat (o_shared_reload_ms (cs_options cs) mod 2 ^ 64) * 1000000))
      else if cs_source cs \<in> {SOURCE_PROCESS, SOURCE_WEB_IDENTITY, SOURCE_CONTAINER, SOURCE_IMDS}
      then ebind (credential_epoch_seconds env k) (\<lambda>now.
        let refresh = (if expiration v = 0 then 300 else max 1 (expiration v - now - 300))
        in Inr (wrap64 (nat refresh * 1000000000)))
      else Inr UINT64_MAX)"

definition schedule_refresh ::
  "cred_env \<Rightarrow> nat \<Rightarrow> Snapshot \<Rightarrow> nat \<Rightarrow> CredentialProvider \<Rightarrow> unit result \<times> CredentialProvider" where
  "schedule_refresh env k v now_ns p =
     (case refresh_delay env k (cp_source p) v of
        Inl e \<Rightarrow> (Inl e, p)
      | Inr delay \<Rightarrow>
          (Inr (), p\<lparr>cp_next_refresh_ns :=
             (if delay = UINT64_MAX then UINT64_MAX else add_saturating now_ns delay)\<rparr>))"

definition expired_error :: "CredentialProvider \<Rightarrow> cpp_error" where
  "expired_error p = RuntimeError (source_name (cs_source (cp_source p)) @ '' returned expired credentials'')"

definition install ::
  "cred_env \<Rightarrow> nat \<Rightarrow> Snapshot \<Rightarrow> nat \<Rightarrow> CredentialProvider \<Rightarrow> unit result \<times> CredentialProvider" where
  "install env k v now_ns p =
     (case credential_epoch_seconds env k of
        Inl e \<Rightarrow> (Inl e, p)
      | Inr now \<Rightarrow>
          if expiration v \<noteq> 0 \<and> expiration v \<le> now then (Inl (expired_error p), p)
          else schedule_refresh env (k + 1) v now_ns
                 (p\<lparr>cp_snapshots := cp_snapshots p @ [v], cp_current := Some (length (cp_snapshots p))\<rparr>))"

definition current_snapshot :: "CredentialProvider \<Rightarrow> Snapshot option" where
  "current_snapshot p = map_option (\<lambda>i. cp_snapshots p ! i) (cp_current p)"

text \<open>The body of the \<^verbatim>\<open>try\<close> block of \<open>refresh_locked\<close>.\<close>

definition refresh_try :: "cred_env \<Rightarrow> nat \<Rightarrow> CredentialProvider \<Rightarrow> unit result \<times> CredentialProvider" where
  "refresh_try env now_ns p =
     (case ebind (fst (load_source env (cp_source p))) (\<lambda>v.
             if expiration v = 0 then Inr v
             else ebind (credential_epoch_seconds env 0) (\<lambda>now.
               if expiration v \<le> now then Inl (expired_error p) else Inr v)) of
        Inl e \<Rightarrow> (Inl e, p)
      | Inr v \<Rightarrow>
          (case current_snapshot p of
             Some c \<Rightarrow> if expiration c = expiration v \<and> credentials c = credentials v
                       then schedule_refresh env 1 c now_ns p else install env 1 v now_ns p
           | None \<Rightarrow> install env 1 v now_ns p))"

text \<open>The \<^verbatim>\<open>catch\<close> block: a current snapshot that has not expired is retained.\<close>

definition refresh_catch ::
  "cred_env \<Rightarrow> nat \<Rightarrow> cpp_error \<Rightarrow> CredentialProvider \<Rightarrow> unit result \<times> CredentialProvider" where
  "refresh_catch env now_ns error p =
     (case credential_epoch_seconds env 3 of
        Inl e \<Rightarrow> (Inl e, p)
      | Inr now \<Rightarrow>
          (case current_snapshot p of
             Some c \<Rightarrow>
               if expiration c = 0 \<or> expiration c > now
               then let retry = (if expiration c \<noteq> 0
                                 then min kCredentialRetryNs (wrap64 (nat (expiration c - now) * 1000000000))
                                 else kCredentialRetryNs)
                    in (Inr (), p\<lparr>cp_next_refresh_ns := add_saturating now_ns retry\<rparr>)
               else (Inl error, p)
           | None \<Rightarrow> (Inl error, p)))"

definition refresh_locked :: "cred_env \<Rightarrow> nat \<Rightarrow> CredentialProvider \<Rightarrow> unit result \<times> CredentialProvider" where
  "refresh_locked env now_ns p =
     (case refresh_try env now_ns p of
        (Inr u, p') \<Rightarrow> (Inr u, p')
      | (Inl e, p') \<Rightarrow> refresh_catch env now_ns e p')"

text \<open>
  One turn of \<open>refresh_loop\<close>, from the wake-up on; the result says whether the thread goes on.
\<close>

definition refresh_turn :: "cred_env \<Rightarrow> CredentialProvider \<Rightarrow> bool \<times> CredentialProvider" where
  "refresh_turn env p =
     (case credential_monotonic_ns env of
        Inl e \<Rightarrow> (False, p\<lparr>cp_refresh_error := Some e, cp_current := None\<rparr>)
      | Inr now \<Rightarrow>
          if cp_next_refresh_ns p = UINT64_MAX \<or> now < cp_next_refresh_ns p then (True, p)
          else (case refresh_locked env now p of
                  (Inr u, p') \<Rightarrow> (True, p'\<lparr>cp_refresh_error := None\<rparr>)
                | (Inl e, p') \<Rightarrow>
                    (True, p'\<lparr>cp_refresh_error := Some e, cp_current := None,
                              cp_next_refresh_ns := (if now > UINT64_MAX - kCredentialRetryNs then UINT64_MAX
                                                     else now + kCredentialRetryNs)\<rparr>)))"

text \<open>
  \<open>get\<close>: \<open>p\<close> is the provider at the first reading of the current snapshot and \<open>p'\<close> at the second,
  once the mutex is held or \<^verbatim>\<open>try_lock\<close> of a reactor has failed.
\<close>

definition credential_refresh_pending :: cpp_error where
  "credential_refresh_pending = SystemError EAGAIN ''credentials are refreshing; retry later''"

definition get_credentials :: "bool \<Rightarrow> bool \<Rightarrow> CredentialProvider \<Rightarrow> CredentialProvider \<Rightarrow> Credentials result" where
  "get_credentials reactor lock_free p p' =
     (case current_snapshot p of
        Some s \<Rightarrow> Inr (credentials s)
      | None \<Rightarrow>
          (case current_snapshot p' of
             Some s \<Rightarrow> Inr (credentials s)
           | None \<Rightarrow>
               if reactor \<and> \<not> lock_free then Inl credential_refresh_pending
               else case cp_refresh_error p' of
                      Some e \<Rightarrow> Inl e
                    | None \<Rightarrow> Inl (LogicError ''credential provider has no snapshot'')))"


section \<open>Discovery\<close>

definition new_provider :: "CredentialSource \<Rightarrow> CredentialProvider" where
  "new_provider cs = \<lparr>cp_source = cs, cp_snapshots = [], cp_current = None, cp_next_refresh_ns = UINT64_MAX,
     cp_refresh_error = None\<rparr>"

text \<open>\<^verbatim>\<open>install(load(), credential_monotonic_ns())\<close>, with the readings of the clock from \<open>k\<close> on.\<close>

definition install_loaded ::
  "cred_env \<Rightarrow> nat \<Rightarrow> Snapshot result \<Rightarrow> CredentialProvider \<Rightarrow> unit result \<times> CredentialProvider" where
  "install_loaded env k loaded p =
     (case ebind loaded (\<lambda>v. ebind (credential_monotonic_ns env) (\<lambda>now_ns. Inr (v, now_ns))) of
        Inl e \<Rightarrow> (Inl e, p)
      | Inr (v, now_ns) \<Rightarrow> install env k v now_ns p)"

definition initial_source :: "cred_env \<Rightarrow> CredentialProviderOptions \<Rightarrow> CredentialSource" where
  "initial_source env options =
     (let home = environment_value env ''HOME'';
          or_else = (\<lambda>a b. if a = [] then b else a :: string);
          below_home = (\<lambda>path. if home = [] then [] else home @ path)
      in \<lparr>cs_options = options, cs_source = SOURCE_ANONYMOUS,
          cs_profile = or_else (or_else (environment_value env ''AWS_PROFILE'')
            (environment_value env ''AWS_DEFAULT_PROFILE'')) ''default'',
          cs_shared_credentials_file = or_else (environment_value env ''AWS_SHARED_CREDENTIALS_FILE'')
            (below_home ''/.aws/credentials''),
          cs_config_file = or_else (environment_value env ''AWS_CONFIG_FILE'') (below_home ''/.aws/config''),
          cs_process = [], cs_token_file = [], cs_role_arn = [], cs_role_session_name = [],
          cs_container_uri = [], cs_container_token = [], cs_imds_endpoint = []\<rparr>)"

definition environment_credentials :: "cred_env \<Rightarrow> Credentials" where
  "environment_credentials env =
     \<lparr>access_key_id = environment_value env ''AWS_ACCESS_KEY_ID'',
      secret_access_key = environment_value env ''AWS_SECRET_ACCESS_KEY'',
      session_token = environment_value env ''AWS_SESSION_TOKEN''\<rparr>"

definition static_snapshot :: "Credentials \<Rightarrow> string \<Rightarrow> Snapshot result" where
  "static_snapshot c source =
     ebind (validate_credentials c source) (\<lambda>_. Inr \<lparr>credentials = c, expiration = 0\<rparr>)"

definition container_token :: "cred_env \<Rightarrow> string result" where
  "container_token env =
     (let token = environment_value env ''AWS_CONTAINER_AUTHORIZATION_TOKEN'';
          token_path = environment_value env ''AWS_CONTAINER_AUTHORIZATION_TOKEN_FILE''
      in ebind (if token = [] \<and> token_path \<noteq> []
                then ebind (read_credential_file env token_path (64 * 1024)) (\<lambda>text. Inr (trim text))
                else Inr token)
           (\<lambda>token. if has_line_break token
                    then Inl (RuntimeError ''container authorization token contains CR/LF'') else Inr token))"

text \<open>The last two sources: the instance metadata service, and none.\<close>

definition discover_imds :: "cred_env \<Rightarrow> CredentialSource \<Rightarrow> unit result \<times> CredentialProvider" where
  "discover_imds env cs =
     (let anonymous = (\<lambda>p. install_loaded env 2 (Inr \<lparr>credentials = no_credentials, expiration = 0\<rparr>)
            (p\<lparr>cp_source := (cp_source p)\<lparr>cs_source := SOURCE_ANONYMOUS\<rparr>\<rparr>))
      in if environment_true env ''AWS_EC2_METADATA_DISABLED'' then anonymous (new_provider cs)
         else let endpoint = environment_value env ''AWS_EC2_METADATA_SERVICE_ENDPOINT'';
                  cs = cs\<lparr>cs_source := SOURCE_IMDS, cs_imds_endpoint :=
                    (if endpoint = [] then ''http://169.254.169.254'' else endpoint)\<rparr>
              in case install_loaded env 0 (fst (load_imds env cs)) (new_provider cs) of
                   (Inr u, p) \<Rightarrow> (Inr u, p)
                 | (Inl error, p) \<Rightarrow> anonymous p)"

definition discover_container ::
  "cred_env \<Rightarrow> string \<Rightarrow> string \<Rightarrow> CredentialSource \<Rightarrow> unit result \<times> CredentialProvider" where
  "discover_container env relative full cs =
     (let uri = (if relative \<noteq> [] then ''http://169.254.170.2'' @ relative else full);
          cs = cs\<lparr>cs_container_uri := uri\<rparr>
      in if uri = []
         then (Inl (RuntimeError ''EcsContainer credential source omitted its endpoint environment''), new_provider cs)
         else case container_token env of
                Inl e \<Rightarrow> (Inl e, new_provider cs)
              | Inr token \<Rightarrow>
                  let cs = cs\<lparr>cs_container_token := token, cs_source := SOURCE_CONTAINER\<rparr>
                  in install_loaded env 0 (fst (load_container env cs)) (new_provider cs))"

definition discover_profile ::
  "cred_env \<Rightarrow> Profile \<Rightarrow> CredentialSource \<Rightarrow> unit result \<times> CredentialProvider" where
  "discover_profile env profile cs =
     (if access_key_id (pf_credentials profile) \<noteq> [] \<or> secret_access_key (pf_credentials profile) \<noteq> []
      then install_loaded env 0 (static_snapshot (pf_credentials profile) ''shared credentials file'')
             (new_provider (cs\<lparr>cs_source := SOURCE_SHARED_FILE\<rparr>))
      else if pf_process profile \<noteq> []
      then let cs = cs\<lparr>cs_process := pf_process profile, cs_source := SOURCE_PROCESS\<rparr>
           in install_loaded env 0 (fst (load_process env cs)) (new_provider cs)
      else if pf_token_file profile \<noteq> []
      then if pf_role_arn profile = []
           then (Inl (RuntimeError ''profile web_identity_token_file and role_arn must be set together''), new_provider cs)
           else let cs = cs\<lparr>cs_token_file := pf_token_file profile, cs_role_arn := pf_role_arn profile,
                            cs_role_session_name := pf_role_session_name profile, cs_source := SOURCE_WEB_IDENTITY\<rparr>
                in install_loaded env 0 (fst (load_web_identity env cs)) (new_provider cs)
      else if pf_role_arn profile \<noteq> [] \<or> pf_source_profile profile \<noteq> [] \<or> pf_sso_session profile \<noteq> []
      then (Inl (RuntimeError (''selected AWS profile requires AssumeRole/SSO; configure '' @
                    ''credential_process to export refreshable credentials'')), new_provider cs)
      else let relative = environment_value env ''AWS_CONTAINER_CREDENTIALS_RELATIVE_URI'';
               full = environment_value env ''AWS_CONTAINER_CREDENTIALS_FULL_URI''
           in if relative \<noteq> [] \<or> full \<noteq> [] \<or> ascii_equal_ignore_case (pf_credential_source profile) ''EcsContainer''
              then discover_container env relative full cs else discover_imds env cs)"

definition discover :: "cred_env \<Rightarrow> CredentialProviderOptions \<Rightarrow> unit result \<times> CredentialProvider" where
  "discover env options =
     (let cs = initial_source env options; c = environment_credentials env
      in if access_key_id c \<noteq> [] \<or> secret_access_key c \<noteq> []
         then install_loaded env 0 (static_snapshot c ''environment'')
                (new_provider (cs\<lparr>cs_source := SOURCE_ENVIRONMENT\<rparr>))
         else let cs = cs\<lparr>cs_token_file := environment_value env ''AWS_WEB_IDENTITY_TOKEN_FILE'',
                          cs_role_arn := environment_value env ''AWS_ROLE_ARN'',
                          cs_role_session_name := environment_value env ''AWS_ROLE_SESSION_NAME''\<rparr>
              in if cs_token_file cs \<noteq> [] \<or> cs_role_arn cs \<noteq> []
                 then if cs_token_file cs = [] \<or> cs_role_arn cs = []
                      then (Inl (RuntimeError ''AWS_WEB_IDENTITY_TOKEN_FILE and AWS_ROLE_ARN must be set together''),
                            new_provider cs)
                      else let cs = cs\<lparr>cs_source := SOURCE_WEB_IDENTITY\<rparr>
                           in install_loaded env 0 (fst (load_web_identity env cs)) (new_provider cs)
                 else discover_profile env (load_profile env cs) cs)"

text \<open>
  A provider with a flag that says whether its refresher runs: as it is constructed, and the
  turns of the refresher, each under an environment of its own.
\<close>

definition provider_started :: "CredentialProvider \<times> bool \<Rightarrow> bool" where
  "provider_started w \<longleftrightarrow>
     (\<exists>env options. discover env options = (Inr (), fst w)) \<and> snd w = refreshable (cs_source (cp_source (fst w)))"

inductive provider_step :: "CredentialProvider \<times> bool \<Rightarrow> CredentialProvider \<times> bool \<Rightarrow> bool" where
  turn: "refresh_turn env p = (run, p') \<Longrightarrow> provider_step (p, True) (p', run)"

section \<open>Invariant\<close>

definition snapshot_ok :: "CredentialSource \<Rightarrow> Snapshot \<Rightarrow> bool" where
  "snapshot_ok cs s \<longleftrightarrow>
     (usable (credentials s) \<or> cs_source cs = SOURCE_ANONYMOUS \<and> credentials s = no_credentials) \<and>
     (cs_source cs = SOURCE_SHARED_FILE \<longrightarrow> expiration s = 0)"

lemma load_source_ok:
  assumes "fst (load_source env cs) = Inr s"
  shows "snapshot_ok cs s"
  using assms load_source_usable [OF assms]
  by (auto simp: snapshot_ok_def load_source_def load_shared_file_def Let_def ebind_Inr_iff)

definition provider_inv :: "CredentialProvider \<Rightarrow> bool" where
  "provider_inv p \<longleftrightarrow>
     list_all (snapshot_ok (cp_source p)) (cp_snapshots p) \<and>
     (case cp_current p of Some i \<Rightarrow> i < length (cp_snapshots p) | None \<Rightarrow> True) \<and>
     \<not> has_line_break (cs_container_token (cp_source p))"

text \<open>What an operation of a provider may change: it appends usable snapshots.\<close>

definition grows :: "CredentialProvider \<Rightarrow> CredentialProvider \<Rightarrow> bool" where
  "grows p p' \<longleftrightarrow> cp_source p' = cp_source p \<and> (\<exists>new. cp_snapshots p' = cp_snapshots p @ new)"

lemma schedule_refresh_frame:
  "grows p (snd (schedule_refresh env k v now_ns p)) \<and>
   cp_snapshots (snd (schedule_refresh env k v now_ns p)) = cp_snapshots p \<and>
   cp_current (snd (schedule_refresh env k v now_ns p)) = cp_current p \<and>
   cp_refresh_error (snd (schedule_refresh env k v now_ns p)) = cp_refresh_error p"
  by (simp add: schedule_refresh_def grows_def split: sum.split)

lemma install_cases:
  obtains (refused) e where "install env k v now_ns p = (Inl e, p)"
  | (installed) now p1 where "credential_epoch_seconds env k = Inr now" "expiration v = 0 \<or> now < expiration v"
      "p1 = p\<lparr>cp_snapshots := cp_snapshots p @ [v], cp_current := Some (length (cp_snapshots p))\<rparr>"
      "install env k v now_ns p = schedule_refresh env (k + 1) v now_ns p1"
proof (cases "credential_epoch_seconds env k")
  case (Inl e)
  then show thesis by (intro refused [of e]) (simp add: install_def)
next
  case (Inr now)
  show thesis
  proof (cases "expiration v \<noteq> 0 \<and> expiration v \<le> now")
    case True
    then show thesis using Inr by (intro refused [of "expired_error p"]) (simp add: install_def)
  next
    case False
    then show thesis using Inr by (intro installed [OF Inr _ refl]) (auto simp: install_def)
  qed
qed

lemma install_inv:
  assumes "provider_inv p" "snapshot_ok (cp_source p) v"
  shows "provider_inv (snd (install env k v now_ns p)) \<and> grows p (snd (install env k v now_ns p)) \<and>
    cp_refresh_error (snd (install env k v now_ns p)) = cp_refresh_error p \<and>
    (fst (install env k v now_ns p) = Inr () \<longrightarrow> cp_current (snd (install env k v now_ns p)) \<noteq> None)"
proof (cases rule: install_cases [of env k v now_ns p])
  case refused
  then show ?thesis using assms by (simp add: grows_def)
next
  case (installed now p1)
  have "provider_inv p1" "grows p p1" "cp_current p1 \<noteq> None" "cp_refresh_error p1 = cp_refresh_error p"
    using assms by (auto simp: installed(3) provider_inv_def grows_def split: option.splits)
  then show ?thesis using schedule_refresh_frame [of p1 env "k + 1" v now_ns]
    unfolding installed(4) by (auto simp: provider_inv_def grows_def)
qed


lemma refresh_try_cases:
  obtains (failed) e where "refresh_try env now_ns p = (Inl e, p)"
  | (same) c i where "cp_current p = Some i" "c = cp_snapshots p ! i"
      "expiration c = 0 \<or> (\<exists>now. credential_epoch_seconds env 0 = Inr now \<and> now < expiration c)"
      "refresh_try env now_ns p = schedule_refresh env 1 c now_ns p"
  | (fresh) v where "snapshot_ok (cp_source p) v" "refresh_try env now_ns p = install env 1 v now_ns p"
proof -
  let ?r = "ebind (fst (load_source env (cp_source p))) (\<lambda>v. if expiration v = 0 then Inr v
    else ebind (credential_epoch_seconds env 0) (\<lambda>now. if expiration v \<le> now then Inl (expired_error p) else Inr v))"
  show thesis
  proof (cases ?r)
    case (Inl e)
    then show thesis by (intro failed [of e]) (simp add: refresh_try_def)
  next
    case (Inr v)
    then have l: "fst (load_source env (cp_source p)) = Inr v"
      "expiration v = 0 \<or> (\<exists>now. credential_epoch_seconds env 0 = Inr now \<and> now < expiration v)"
      by (auto simp: ebind_Inr_iff split: if_splits)
    have u: "snapshot_ok (cp_source p) v" using l(1) by (rule load_source_ok)
    show thesis
    proof (cases "cp_current p")
      case None
      then show thesis using Inr u by (intro fresh [of v]) (simp_all add: refresh_try_def current_snapshot_def)
    next
      case (Some i)
      let ?c = "cp_snapshots p ! i"
      show thesis
      proof (cases "expiration ?c = expiration v \<and> credentials ?c = credentials v")
        case True
        then show thesis using Inr Some l(2)
          by (intro same [OF Some refl]) (simp_all add: refresh_try_def current_snapshot_def)
      next
        case False
        then show thesis using Inr Some u
          by (intro fresh [of v]) (auto simp: refresh_try_def current_snapshot_def)
      qed
    qed
  qed
qed

lemma refresh_try_inv:
  assumes "provider_inv p"
  shows "provider_inv (snd (refresh_try env now_ns p)) \<and> grows p (snd (refresh_try env now_ns p)) \<and>
    cp_refresh_error (snd (refresh_try env now_ns p)) = cp_refresh_error p \<and>
    (fst (refresh_try env now_ns p) = Inr () \<longrightarrow> cp_current (snd (refresh_try env now_ns p)) \<noteq> None)"
proof (cases rule: refresh_try_cases [of env now_ns p])
  case failed
  then show ?thesis using assms by (simp add: grows_def)
next
  case (same c i)
  then show ?thesis using assms schedule_refresh_frame [of p env 1 c now_ns]
    by (simp add: provider_inv_def grows_def)
next
  case (fresh v)
  then show ?thesis using install_inv [OF assms, of v env 1 now_ns] by simp
qed

lemma refresh_catch_cases:
  obtains (rethrown) e' where "refresh_catch env now_ns e p = (Inl e', p)"
  | (retained) c i now retry where "cp_current p = Some i" "c = cp_snapshots p ! i"
      "credential_epoch_seconds env 3 = Inr now" "expiration c = 0 \<or> now < expiration c"
      "retry = (if expiration c \<noteq> 0 then min kCredentialRetryNs (wrap64 (nat (expiration c - now) * 1000000000))
                else kCredentialRetryNs)"
      "refresh_catch env now_ns e p = (Inr (), p\<lparr>cp_next_refresh_ns := add_saturating now_ns retry\<rparr>)"
proof (cases "credential_epoch_seconds env 3")
  case (Inl e')
  then show thesis by (intro rethrown [of e']) (simp add: refresh_catch_def)
next
  case (Inr now)
  show thesis
  proof (cases "cp_current p")
    case None
    then show thesis using Inr by (intro rethrown [of e]) (simp add: refresh_catch_def current_snapshot_def)
  next
    case (Some i)
    show thesis
    proof (cases "expiration (cp_snapshots p ! i) = 0 \<or> now < expiration (cp_snapshots p ! i)")
      case True
      then show thesis using Inr Some
        by (intro retained [OF Some refl Inr True refl]) (simp add: refresh_catch_def current_snapshot_def Let_def)
    next
      case False
      then show thesis using Inr Some
        by (intro rethrown [of e]) (simp add: refresh_catch_def current_snapshot_def)
    qed
  qed
qed

lemma refresh_locked_inv:
  assumes "provider_inv p"
  shows "provider_inv (snd (refresh_locked env now_ns p)) \<and> grows p (snd (refresh_locked env now_ns p)) \<and>
    (fst (refresh_locked env now_ns p) = Inr () \<longrightarrow> cp_current (snd (refresh_locked env now_ns p)) \<noteq> None)"
proof -
  obtain r p1 where t: "refresh_try env now_ns p = (r, p1)" by (cases "refresh_try env now_ns p")
  have inv: "provider_inv p1" "grows p p1" "r = Inr () \<longrightarrow> cp_current p1 \<noteq> None"
    using refresh_try_inv [OF assms, of env now_ns] by (simp_all add: t)
  show ?thesis
  proof (cases r)
    case (Inr u)
    then show ?thesis using inv by (simp add: refresh_locked_def t)
  next
    case (Inl e)
    then show ?thesis using inv
      by (cases rule: refresh_catch_cases [of env now_ns e p1])
        (auto simp: refresh_locked_def t provider_inv_def grows_def)
  qed
qed

lemma refresh_turn_inv:
  assumes "provider_inv p" "cp_current p = None \<longrightarrow> cp_refresh_error p \<noteq> None" "refresh_turn env p = (run, p')"
  shows "provider_inv p' \<and> grows p p' \<and> (cp_current p' = None \<longrightarrow> cp_refresh_error p' \<noteq> None)"
proof (cases "credential_monotonic_ns env")
  case (Inl e)
  then show ?thesis using assms by (auto simp: refresh_turn_def provider_inv_def grows_def)
next
  case (Inr now)
  obtain r p1 where t: "refresh_locked env now p = (r, p1)" by (cases "refresh_locked env now p")
  have inv: "provider_inv p1" "grows p p1" "r = Inr () \<longrightarrow> cp_current p1 \<noteq> None"
    using refresh_locked_inv [OF assms(1), of env now] by (simp_all add: t)
  show ?thesis
  proof (cases r)
    case (Inr u)
    then show ?thesis using assms inv \<open>credential_monotonic_ns env = Inr now\<close>
      by (auto simp: refresh_turn_def t provider_inv_def grows_def split: if_splits)
  next
    case (Inl e)
    then show ?thesis using assms inv \<open>credential_monotonic_ns env = Inr now\<close>
      by (auto simp: refresh_turn_def t provider_inv_def grows_def split: if_splits)
  qed
qed


section \<open>Discovery keeps the invariant\<close>

definition started_ok :: "unit result \<times> CredentialProvider \<Rightarrow> bool" where
  "started_ok rp \<longleftrightarrow> (fst rp = Inr () \<longrightarrow> provider_inv (snd rp) \<and> cp_current (snd rp) \<noteq> None)"

lemma started_ok_error [simp]: "started_ok (Inl e, p)"
  by (simp add: started_ok_def)

lemma new_provider_inv: "\<not> has_line_break (cs_container_token cs) \<Longrightarrow> provider_inv (new_provider cs)"
  by (simp add: provider_inv_def new_provider_def)

lemma install_loaded_inv:
  assumes "provider_inv p" "\<And>v. loaded = Inr v \<Longrightarrow> snapshot_ok (cp_source p) v"
  shows "provider_inv (snd (install_loaded env k loaded p))" "started_ok (install_loaded env k loaded p)"
    "cp_source (snd (install_loaded env k loaded p)) = cp_source p"
proof -
  have "provider_inv (snd (install_loaded env k loaded p)) \<and> started_ok (install_loaded env k loaded p) \<and>
      cp_source (snd (install_loaded env k loaded p)) = cp_source p"
  proof (cases "ebind loaded (\<lambda>v. ebind (credential_monotonic_ns env) (\<lambda>now_ns. Inr (v, now_ns)))")
    case (Inl e)
    then show ?thesis using assms(1) by (simp add: install_loaded_def)
  next
    case (Inr x)
    obtain v now_ns where x: "x = (v, now_ns)" by (cases x)
    have "loaded = Inr v" using Inr by (auto simp: ebind_Inr_iff x)
    then show ?thesis using Inr install_inv [OF assms(1) assms(2), of v env k now_ns]
      by (simp add: install_loaded_def x started_ok_def grows_def)
  qed
  then show "provider_inv (snd (install_loaded env k loaded p))" "started_ok (install_loaded env k loaded p)"
    "cp_source (snd (install_loaded env k loaded p)) = cp_source p" by simp_all
qed

lemma install_loaded_source:
  assumes "\<not> has_line_break (cs_container_token cs)" "load_source env cs = loaded"
  shows "started_ok (install_loaded env 0 (fst loaded) (new_provider cs))"
  using install_loaded_inv(2) [OF new_provider_inv [OF assms(1)], of "fst loaded"] load_source_ok assms(2)
  by (auto simp: new_provider_def)

lemma start_source:
  assumes "\<not> has_line_break (cs_container_token cs)"
  shows "cs_source cs = SOURCE_PROCESS \<Longrightarrow> started_ok (install_loaded env 0 (fst (load_process env cs)) (new_provider cs))"
    "cs_source cs = SOURCE_WEB_IDENTITY \<Longrightarrow> started_ok (install_loaded env 0 (fst (load_web_identity env cs)) (new_provider cs))"
    "cs_source cs = SOURCE_CONTAINER \<Longrightarrow> started_ok (install_loaded env 0 (fst (load_container env cs)) (new_provider cs))"
  by (rule install_loaded_source [OF assms]; simp add: load_source_def)+

lemma static_snapshot_ok: "static_snapshot c source = Inr v \<Longrightarrow> snapshot_ok cs v"
  by (auto simp: static_snapshot_def ebind_Inr_iff validate_credentials_ok snapshot_ok_def)

lemma start_static:
  assumes "\<not> has_line_break (cs_container_token cs)"
  shows "started_ok (install_loaded env 0 (static_snapshot c source) (new_provider cs))"
  by (rule install_loaded_inv(2) [OF new_provider_inv [OF assms] static_snapshot_ok])

lemma anonymous_inv:
  assumes "provider_inv p" "cs_source (cp_source p) \<noteq> SOURCE_ANONYMOUS"
  shows "provider_inv (p\<lparr>cp_source := (cp_source p)\<lparr>cs_source := SOURCE_ANONYMOUS\<rparr>\<rparr>)"
  using assms by (auto simp: provider_inv_def snapshot_ok_def list_all_iff split: option.splits)

lemma discover_imds_ok:
  assumes "\<not> has_line_break (cs_container_token cs)"
  shows "started_ok (discover_imds env cs)"
proof -
  let ?anonymous = "\<lambda>p. install_loaded env 2 (Inr \<lparr>credentials = no_credentials, expiration = 0\<rparr>)
    (p\<lparr>cp_source := (cp_source p)\<lparr>cs_source := SOURCE_ANONYMOUS\<rparr>\<rparr>)"
  have anon: "started_ok (?anonymous p)"
    if "provider_inv (p\<lparr>cp_source := (cp_source p)\<lparr>cs_source := SOURCE_ANONYMOUS\<rparr>\<rparr>)" for p
    by (rule install_loaded_inv(2) [OF that]) (simp add: snapshot_ok_def)
  have fresh: "started_ok (?anonymous (new_provider cs))"
    by (rule anon) (use assms in \<open>simp add: provider_inv_def new_provider_def\<close>)
  define cs' where "cs' = cs\<lparr>cs_source := SOURCE_IMDS, cs_imds_endpoint :=
    (if environment_value env ''AWS_EC2_METADATA_SERVICE_ENDPOINT'' = [] then ''http://169.254.169.254''
     else environment_value env ''AWS_EC2_METADATA_SERVICE_ENDPOINT'')\<rparr>"
  have cs': "\<not> has_line_break (cs_container_token cs')" "load_source env cs' = load_imds env cs'"
    "cs_source cs' = SOURCE_IMDS"
    using assms by (simp_all add: cs'_def load_source_def)
  obtain r p where i: "install_loaded env 0 (fst (load_imds env cs')) (new_provider cs') = (r, p)"
    by (cases "install_loaded env 0 (fst (load_imds env cs')) (new_provider cs')")
  have p: "provider_inv p" "cp_source p = cs'" "started_ok (r, p)"
    using install_loaded_inv [OF new_provider_inv [OF cs'(1)], of "fst (load_imds env cs')" env 0]
      load_source_ok [of env cs'] cs'(2) i
    by (auto simp: new_provider_def)
  have "started_ok (case (r, p) of (Inr u, p) \<Rightarrow> (Inr u, p) | (Inl error, p) \<Rightarrow> ?anonymous p)"
    using p(3) anon [OF anonymous_inv [OF p(1)]] cs'(3) by (cases r) (simp_all add: p(2))
  then show ?thesis using fresh by (simp add: discover_imds_def Let_def i [unfolded cs'_def])
qed

lemma container_token_ok: "container_token env = Inr token \<Longrightarrow> \<not> has_line_break token"
  by (auto simp: container_token_def Let_def ebind_Inr_iff split: if_splits)

lemma discover_container_ok:
  assumes "\<not> has_line_break (cs_container_token cs)"
  shows "started_ok (discover_container env relative full cs)"
  using container_token_ok [of env]
  by (simp add: discover_container_def Let_def start_source split: sum.split)

lemma discover_profile_ok:
  assumes "\<not> has_line_break (cs_container_token cs)"
  shows "started_ok (discover_profile env profile cs)"
  using assms
  by (simp add: discover_profile_def Let_def start_source start_static discover_imds_ok discover_container_ok)

lemma discover_ok: "started_ok (discover env options)"
proof -
  have "\<not> has_line_break (cs_container_token (initial_source env options))"
    by (simp add: initial_source_def Let_def has_line_break_def)
  then show ?thesis
    by (simp add: discover_def Let_def start_source start_static discover_profile_ok)
qed

definition world_inv :: "CredentialProvider \<times> bool \<Rightarrow> bool" where
  "world_inv w \<longleftrightarrow> (case w of (p, run) \<Rightarrow>
     provider_inv p \<and> (run \<longrightarrow> refreshable (cs_source (cp_source p))) \<and>
     (cp_current p = None \<longrightarrow> cp_refresh_error p \<noteq> None \<and> refreshable (cs_source (cp_source p))))"

lemma started_world: "provider_started w \<Longrightarrow> world_inv w"
proof -
  assume "provider_started w"
  then obtain env options where "discover env options = (Inr (), fst w)" "snd w = refreshable (cs_source (cp_source (fst w)))"
    by (auto simp: provider_started_def)
  then show ?thesis using discover_ok [of env options] by (cases w) (auto simp: world_inv_def started_ok_def)
qed

lemma step_world:
  assumes "provider_step w w'" "world_inv w"
  shows "world_inv w' \<and> grows (fst w) (fst w')"
  using assms(1)
proof cases
  case (turn env p run p')
  then show ?thesis using refresh_turn_inv [of p env run p'] assms(2)
    by (auto simp: world_inv_def grows_def)
qed

lemma steps_world:
  assumes "provider_step\<^sup>*\<^sup>* w w'" "world_inv w"
  shows "world_inv w' \<and> grows (fst w) (fst w')"
  using assms
proof (induction rule: rtranclp_induct)
  case base
  then show ?case by (simp add: grows_def)
next
  case (step w1 w2)
  then show ?case using step_world [of w1 w2] by (auto simp: grows_def)
qed

text \<open>
  C22. Only checked credentials are handed out. For every environment a provider is constructed
  in and every run of its refresher, \<open>get\<close> returns credentials with a key id, a secret and no line
  break in what goes into a header, or the empty credentials of an anonymous mount; it fails
  only where a refreshable source has failed, with the error of that failure, or, on a reactor,
  with \<open>EAGAIN\<close> while the refresher is at work. And the reference it returns stays valid: a
  snapshot is never changed or dropped while the provider lives.
\<close>

theorem provider_hands_out_checked_credentials:
  assumes "provider_started w" "provider_step\<^sup>*\<^sup>* w (p, run)" "provider_step\<^sup>*\<^sup>* (p, run) (p', run')"
  shows "(case get_credentials reactor lock_free p p' of
      Inr c \<Rightarrow> usable c \<or> cs_source (cp_source p) = SOURCE_ANONYMOUS \<and> c = no_credentials
    | Inl e \<Rightarrow> refreshable (cs_source (cp_source p)) \<and>
        (cp_refresh_error p' = Some e \<or> reactor \<and> \<not> lock_free \<and> e = credential_refresh_pending)) \<and>
    (\<forall>i < length (cp_snapshots p). i < length (cp_snapshots p') \<and> cp_snapshots p' ! i = cp_snapshots p ! i)"
proof -
  have w: "world_inv (p, run)" using steps_world [OF assms(2) started_world [OF assms(1)]] by simp
  have w': "world_inv (p', run')" and g: "grows p p'" using steps_world [OF assms(3) w] by simp_all
  have ok: "snapshot_ok (cp_source q) s" if "provider_inv q" "current_snapshot q = Some s" for q s
    using that by (auto simp: provider_inv_def current_snapshot_def list_all_length)
  have "cp_source p' = cp_source p" using g by (simp add: grows_def)
  then have "case get_credentials reactor lock_free p p' of
      Inr c \<Rightarrow> usable c \<or> cs_source (cp_source p) = SOURCE_ANONYMOUS \<and> c = no_credentials
    | Inl e \<Rightarrow> refreshable (cs_source (cp_source p)) \<and>
        (cp_refresh_error p' = Some e \<or> reactor \<and> \<not> lock_free \<and> e = credential_refresh_pending)"
    using w w' ok [of p] ok [of p']
    by (auto simp: get_credentials_def world_inv_def snapshot_ok_def current_snapshot_def split: option.split)
  moreover have "\<forall>i < length (cp_snapshots p). i < length (cp_snapshots p') \<and> cp_snapshots p' ! i = cp_snapshots p ! i"
    using g by (auto simp: grows_def nth_append)
  ultimately show ?thesis by simp
qed


text \<open>
  C24. A loader sends its requests, and with them the tokens of the machine, over TLS or to a
  local address: \<open>localhost\<close>, the two addresses of the container and instance services, an IPv4
  address of 127.0.0.0/8 or 169.254.0.0/16, or the IPv6 loopback; except to the STS endpoint that
  the operator has set in the environment. And no header it sends holds a line break. This holds
  of every load of a provider's refresher and of every load during discovery, where the source
  has no container token or the one \<open>container_token\<close> has read.
\<close>

theorem credential_requests_stay_private:
  assumes "(\<exists>w run p. provider_started w \<and> provider_step\<^sup>*\<^sup>* w (p, run) \<and> cs = cp_source p) \<or>
    cs_container_token cs = [] \<or> (\<exists>env'. container_token env' = Inr (cs_container_token cs))"
    and "call \<in> set (snd (load_source env cs))"
  shows "(hc_tls call \<or>
      hc_host call \<in> {''localhost'', ''fd00:ec2::23'', ''fd00:ec2::254''} \<or>
      (\<exists>address. inet4 env (c_string (hc_host call)) = Some address \<and>
        (unat address div 2 ^ 24 = 127 \<or> unat address div 2 ^ 16 = 169 * 256 + 254)) \<or>
      inet6 env (c_string (hc_host call)) = Some True \<or>
      cs_source cs = SOURCE_WEB_IDENTITY \<and> environment_value env ''AWS_ENDPOINT_URL_STS'' \<noteq> []) \<and>
    list_all (\<lambda>(name, v). CHR 0x0D \<notin> set v \<and> CHR 0x0A \<notin> set v) (hc_headers call)"
proof -
  have "\<not> has_line_break (cs_container_token (cp_source p))"
    if "provider_started w" "provider_step\<^sup>*\<^sup>* w (p, run)" for w p run
    using steps_world [OF that(2) started_world [OF that(1)]] by (simp add: world_inv_def provider_inv_def)
  then have "\<not> has_line_break (cs_container_token cs)"
    using assms(1) container_token_ok by (auto simp: has_line_break_def)
  from loads_private [OF this, of env] assms(2)
  have call: "(private_call env call \<or>
      cs_source cs = SOURCE_WEB_IDENTITY \<and> environment_value env ''AWS_ENDPOINT_URL_STS'' \<noteq> []) \<and> clean_headers call"
    by (simp add: list_all_iff)
  then show ?thesis
    using safe_host_is_local [of env "hc_host call"]
    by (auto simp: private_call_def clean_headers_def has_line_break_def)
qed

theorem credential_requests_stay_private_witness:
  "\<exists>call address. call \<in> set (snd (load_source ex_cred_env ex_source)) \<and> \<not> hc_tls call \<and>
     inet4 ex_cred_env (c_string (hc_host call)) = Some address \<and>
     (unat address div 2 ^ 24 = 127 \<or> unat address div 2 ^ 16 = 169 * 256 + 254) \<and>
     list_all (\<lambda>(name, v). CHR 0x0D \<notin> set v \<and> CHR 0x0A \<notin> set v) (hc_headers call)"
proof -
  obtain call rest where log: "snd (load_source ex_cred_env ex_source) = call # rest"
    using ex_load(2) by (cases "snd (load_source ex_cred_env ex_source)") auto
  have host: "hc_host call = ''169.254.169.254''" "\<not> hc_tls call" using ex_load(3) by (simp_all add: log)
  have "cs_container_token ex_source = []" "cs_source ex_source = SOURCE_IMDS" by (simp_all add: ex_source_def)
  then have "(\<exists>address. inet4 ex_cred_env (c_string (hc_host call)) = Some address \<and>
        (unat address div 2 ^ 24 = 127 \<or> unat address div 2 ^ 16 = 169 * 256 + 254)) \<and>
      list_all (\<lambda>(name, v). CHR 0x0D \<notin> set v \<and> CHR 0x0A \<notin> set v) (hc_headers call)"
    using credential_requests_stay_private [of ex_source call ex_cred_env] host log
    by (simp add: ex_cred_env_def)
  then show ?thesis using host log by auto
qed

section \<open>The schedule\<close>

text \<open>
  When a snapshot with expiration \<open>x\<close> is scheduled at the monotonic time \<open>now\<close> and the real time \<open>t\<close>:
  no later than it expires, and, unless it expires in centuries, not within a second.
\<close>

definition due_ok :: "nat \<Rightarrow> int \<Rightarrow> int \<Rightarrow> nat \<Rightarrow> bool" where
  "due_ok now t x due \<longleftrightarrow> x = 0 \<or>
     t < x \<and> int due \<le> int now + (x - t) * 1000000000 \<and>
     (x - t < 2 ^ 34 \<longrightarrow> min (now + 1000000000) UINT64_MAX \<le> due)"

lemma wrap64_le: "wrap64 n \<le> n"
  by (simp add: wrap64_def)

lemma seconds_delay:
  assumes "1 \<le> r" "r \<le> d"
  shows "int (wrap64 (nat r * 1000000000)) \<le> d * 1000000000"
    "d < 2 ^ 34 \<Longrightarrow> 1000000000 \<le> wrap64 (nat r * 1000000000)"
proof -
  have "int (wrap64 (nat r * 1000000000)) \<le> int (nat r * 1000000000)" using wrap64_le by (simp only: of_nat_le_iff)
  also have "\<dots> = r * 1000000000" using assms(1) by simp
  also have "\<dots> \<le> d * 1000000000" using assms(2) by simp
  finally show "int (wrap64 (nat r * 1000000000)) \<le> d * 1000000000" .
  assume "d < 2 ^ 34"
  then have "r < 2 ^ 34" using assms(2) by simp
  then have "nat r < 2 ^ 34" by simp
  then have "nat r * 1000000000 < 2 ^ 64" by simp
  then have "wrap64 (nat r * 1000000000) = nat r * 1000000000" by (rule wrap64_id)
  then show "1000000000 \<le> wrap64 (nat r * 1000000000)" using assms(1) by simp
qed

lemma add_saturating_due:
  assumes "int delay \<le> (x - t) * 1000000000" "x - t < 2 ^ 34 \<Longrightarrow> 1000000000 \<le> delay" "t < x"
  shows "due_ok now t x (add_saturating now delay)"
proof -
  have "int (add_saturating now delay) \<le> int now + int delay" "min (now + delay) UINT64_MAX \<le> add_saturating now delay"
    by (auto simp: add_saturating_def)
  then show ?thesis using assms unfolding due_ok_def by (auto simp: min_def split: if_splits)
qed

lemma schedule_refresh_due:
  assumes "schedule_refresh env k v now p = (Inr u, p')" "refreshable (cs_source (cp_source p))"
    and "snapshot_ok (cp_source p) v" "expiration v = 0 \<or> t < expiration v"
    and "\<forall>k r. credential_epoch_seconds env k = Inr r \<longrightarrow> t \<le> r"
  shows "due_ok now t (expiration v) (cp_next_refresh_ns p')"
proof (cases "expiration v = 0")
  case False
  then have x: "t < expiration v" "cs_source (cp_source p) \<noteq> SOURCE_SHARED_FILE"
    using assms(3,4) by (auto simp: snapshot_ok_def)
  then have src: "cs_source (cp_source p) \<in> {SOURCE_PROCESS, SOURCE_WEB_IDENTITY, SOURCE_CONTAINER, SOURCE_IMDS}"
    using assms(2) by (cases "cs_source (cp_source p)") (auto simp: refreshable_def)
  obtain r where r: "credential_epoch_seconds env k = Inr r"
  proof (cases "credential_epoch_seconds env k")
    case (Inl e)
    then have "refresh_delay env k (cp_source p) v = Inl e" using x(2) src by (auto simp: refresh_delay_def)
    then show thesis using assms(1) by (simp add: schedule_refresh_def)
  qed (rule that)
  have delay: "refresh_delay env k (cp_source p) v = Inr (wrap64 (nat (max 1 (expiration v - r - 300)) * 1000000000))"
    using x(2) src r False by (auto simp: refresh_delay_def Let_def)
  let ?d = "wrap64 (nat (max 1 (expiration v - r - 300)) * 1000000000)"
  have "1 \<le> max 1 (expiration v - r - 300)" "max 1 (expiration v - r - 300) \<le> expiration v - t"
    using x(1) assms(5) [rule_format, OF r] by auto
  note sd = seconds_delay [OF this]
  have "cp_next_refresh_ns p' = (if ?d = UINT64_MAX then UINT64_MAX else add_saturating now ?d)"
    using assms(1) by (auto simp: schedule_refresh_def delay)
  moreover have "add_saturating now UINT64_MAX = (if now = 0 then UINT64_MAX else UINT64_MAX)"
    by (auto simp: add_saturating_def UINT64_MAX_def)
  ultimately have "cp_next_refresh_ns p' = add_saturating now ?d" by (auto split: if_splits)
  then show ?thesis using add_saturating_due [OF sd x(1)] by simp
qed (simp add: due_ok_def)


lemma refresh_locked_due:
  assumes "refresh_locked env now p = (Inr u, p')" "provider_inv p" "refreshable (cs_source (cp_source p))"
    and epoch: "\<forall>k r. credential_epoch_seconds env k = Inr r \<longrightarrow> t \<le> r"
  shows "\<exists>s. current_snapshot p' = Some s \<and> due_ok now t (expiration s) (cp_next_refresh_ns p')"
proof -
  obtain r p1 where t: "refresh_try env now p = (r, p1)" by (cases "refresh_try env now p")
  have p1: "provider_inv p1" using refresh_try_inv [OF assms(2), of env now] by (simp add: t)
  show ?thesis
  proof (cases r)
    case (Inl e)
    then have "refresh_catch env now e p1 = (Inr u, p')" using assms(1) by (simp add: refresh_locked_def t)
    then show ?thesis
    proof (cases rule: refresh_catch_cases [of env now e p1])
      case (retained c i n retry)
      have s: "current_snapshot p' = Some c" "cp_next_refresh_ns p' = add_saturating now retry"
        using retained \<open>refresh_catch env now e p1 = (Inr u, p')\<close> by (auto simp: current_snapshot_def)
      have "due_ok now t (expiration c) (add_saturating now retry)"
      proof (cases "expiration c = 0")
        case False
        then have x: "n < expiration c" "t \<le> n" using retained(3,4) epoch by auto
        then have "1 \<le> expiration c - n" "expiration c - n \<le> expiration c - t" by auto
        note sd = seconds_delay [OF this]
        have "retry = min kCredentialRetryNs (wrap64 (nat (expiration c - n) * 1000000000))"
          using False retained(5) by simp
        then show ?thesis
          using sd x by (intro add_saturating_due) (auto simp: kCredentialRetryNs_def min_def)
      qed (simp add: due_ok_def)
      then show ?thesis using s by simp
    qed simp
  next
    case (Inr u')
    then have p': "p' = p1" "refresh_try env now p = (Inr u', p')" using assms(1) t by (auto simp: refresh_locked_def)
    show ?thesis
    proof (cases rule: refresh_try_cases [of env now p])
      case (same c i)
      have i: "i < length (cp_snapshots p)" using assms(2) same(1) by (simp add: provider_inv_def)
      have "snapshot_ok (cp_source p) c" using assms(2) i same(2) by (simp add: provider_inv_def list_all_length)
      moreover have "expiration c = 0 \<or> t < expiration c" using same(3) epoch by force
      moreover have sch: "schedule_refresh env 1 c now p = (Inr u', p')" using same(4) p'(2) by simp
      ultimately have "due_ok now t (expiration c) (cp_next_refresh_ns p')"
        using schedule_refresh_due [OF sch assms(3) _ _ epoch] by blast
      moreover have "current_snapshot p' = Some c"
        using schedule_refresh_frame [of p env 1 c now] sch same(1,2) by (simp add: current_snapshot_def)
      ultimately show ?thesis by simp
    next
      case (fresh v)
      have ins: "install env 1 v now p = (Inr u', p')" using fresh p'(2) by simp
      show ?thesis
      proof (cases rule: install_cases [of env 1 v now p])
        case (installed n q)
        have sch: "schedule_refresh env (1 + 1) v now q = (Inr u', p')" using installed(4) ins by simp
        have q: "cp_source q = cp_source p" "current_snapshot q = Some v"
          by (simp_all add: installed(3) current_snapshot_def)
        have "expiration v = 0 \<or> t < expiration v" using installed(1,2) epoch by force
        then have "due_ok now t (expiration v) (cp_next_refresh_ns p')"
          using schedule_refresh_due [OF sch _ _ _ epoch] fresh(1) assms(3) q(1) by simp
        moreover have "current_snapshot p' = Some v"
          using schedule_refresh_frame [of q env "1 + 1" v now] sch q(2) by (simp add: current_snapshot_def)
        ultimately show ?thesis by simp
      qed (use ins in simp)
    qed (use p' in simp)
  qed
qed

text \<open>
  C23. A refresh is due before its credentials expire. After a turn of the refresher that was due
  at the monotonic time \<open>now\<close>, in which the real-time clock showed no time before \<open>t\<close>: credentials
  that are current have not expired at \<open>t\<close>, and the next turn is due no later than they expire
  (which a refresh that fails keeps up, down to the last second), but not within a second unless
  they expire in more than 500 years; when there are none, because they expired and could not be
  replaced, the next attempt is due within 30 seconds.
\<close>

theorem refresh_is_due_before_expiry:
  assumes "provider_started w" "provider_step\<^sup>*\<^sup>* w (p, True)" "refresh_turn env p = (run, p')"
    and "credential_monotonic_ns env = Inr now" "cp_next_refresh_ns p \<noteq> UINT64_MAX" "cp_next_refresh_ns p \<le> now"
    and "\<forall>k r. epoch env k = Inr r \<longrightarrow> t \<le> r"
  shows "case current_snapshot p' of
      None \<Rightarrow> cp_next_refresh_ns p' \<le> now + 30000000000
    | Some s \<Rightarrow> expiration s = 0 \<or>
        t < expiration s \<and> int (cp_next_refresh_ns p') \<le> int now + (expiration s - t) * 1000000000 \<and>
        (expiration s - t < 2 ^ 34 \<longrightarrow> min (now + 1000000000) UINT64_MAX \<le> cp_next_refresh_ns p')"
proof -
  have w: "provider_inv p" "refreshable (cs_source (cp_source p))"
    using steps_world [OF assms(2) started_world [OF assms(1)]] by (simp_all add: world_inv_def)
  have epoch: "\<forall>k r. credential_epoch_seconds env k = Inr r \<longrightarrow> t \<le> r"
    using assms(7) by (auto simp: credential_epoch_seconds_def split: sum.splits)
  obtain r p1 where l: "refresh_locked env now p = (r, p1)" by (cases "refresh_locked env now p")
  have turn: "refresh_turn env p = (case (r, p1) of
      (Inr u, p') \<Rightarrow> (True, p'\<lparr>cp_refresh_error := None\<rparr>)
    | (Inl e, p') \<Rightarrow> (True, p'\<lparr>cp_refresh_error := Some e, cp_current := None,
        cp_next_refresh_ns := (if now > UINT64_MAX - kCredentialRetryNs then UINT64_MAX else now + kCredentialRetryNs)\<rparr>))"
    using assms(4-6) by (simp add: refresh_turn_def l)
  show ?thesis
  proof (cases r)
    case (Inl e)
    then show ?thesis using turn assms(3) by (auto simp: current_snapshot_def kCredentialRetryNs_def)
  next
    case (Inr u)
    then have p': "p' = p1\<lparr>cp_refresh_error := None\<rparr>" using turn assms(3) by simp
    obtain s where "current_snapshot p1 = Some s" "due_ok now t (expiration s) (cp_next_refresh_ns p1)"
      using refresh_locked_due [OF l [unfolded Inr] w epoch] by blast
    moreover from this have "current_snapshot p' = Some s" "cp_next_refresh_ns p' = cp_next_refresh_ns p1"
      by (simp_all add: p' current_snapshot_def)
    ultimately show ?thesis unfolding due_ok_def by (simp only: option.case)
  qed
qed


text \<open>
  A provider constructed on an instance, at real time 1000 and monotonic time 5 seconds, whose
  credentials expire at 86407: the refresh is due 85107 seconds later. The turn at that time
  finds the metadata service unreachable and keeps the credentials.
\<close>

definition ex_provider :: CredentialProvider where
  "ex_provider = \<lparr>cp_source = ex_source, cp_snapshots = [ex_snapshot], cp_current = Some 0, cp_next_refresh_ns = 85112000000000, cp_refresh_error = None\<rparr>"

definition ex_due_env :: cred_env where
  "ex_due_env = ex_cred_env\<lparr>http := (\<lambda>call. Inl (RuntimeError [])), epoch := (\<lambda>k. Inr 86107),
     monotonic := Inr (85112, 0)\<rparr>"

lemma ex_environment: "environment_value ex_cred_env name = []"
  by (simp add: environment_value_def ex_cred_env_def)

lemma ex_discover: "discover ex_cred_env ex_options = (Inr (), ex_provider)"
proof -
  define cs0 where "cs0 = ex_source\<lparr>cs_source := SOURCE_ANONYMOUS, cs_imds_endpoint := []\<rparr>"
  have init: "initial_source ex_cred_env ex_options = cs0"
    by (simp add: initial_source_def ex_environment cs0_def ex_source_def Let_def)
  have cs0: "cs0\<lparr>cs_token_file := [], cs_role_arn := [], cs_role_session_name := []\<rparr> = cs0"
    "cs0\<lparr>cs_source := SOURCE_IMDS, cs_imds_endpoint := ''http://169.254.169.254''\<rparr> = ex_source"
    "cs_token_file cs0 = []" "cs_role_arn cs0 = []"
    by (simp_all add: cs0_def ex_source_def)
  have imds: "fst (load_imds ex_cred_env ex_source) = Inr ex_snapshot"
    using ex_load(1) by (simp add: load_source_def ex_source_def)
  have prof: "load_profile ex_cred_env cs = empty_profile" for cs
    by (simp add: load_profile_def parse_profile_file_def ex_cred_env_def)
  have e: "\<not> environment_true ex_cred_env ''AWS_EC2_METADATA_DISABLED''" "\<not> ascii_equal_ignore_case [] ''EcsContainer''"
    by (simp_all add: environment_true_def ex_cred_env_def)
  have ins: "install_loaded ex_cred_env 0 (Inr ex_snapshot) (new_provider ex_source) = (Inr (), ex_provider)"
    by (simp add: install_loaded_def credential_monotonic_ns_def credential_epoch_seconds_def install_def
        schedule_refresh_def refresh_delay_def add_saturating_def ex_provider_def new_provider_def
        ex_cred_env_def ex_snapshot_def ex_source_def UINT64_MAX_def)
  have "discover_imds ex_cred_env cs0 = (Inr (), ex_provider)"
    unfolding discover_imds_def Let_def ex_environment if_not_P [OF e(1)] if_P [OF refl] cs0(2) imds ins by simp
  then have "discover_profile ex_cred_env empty_profile cs0 = (Inr (), ex_provider)"
    using e(2) by (simp add: discover_profile_def ex_environment empty_profile_def no_credentials_def Let_def)
  then show ?thesis
    unfolding discover_def Let_def init ex_environment cs0(1) prof by (simp add: environment_credentials_def ex_environment cs0)
qed

lemma ex_started: "provider_started (ex_provider, True)"
  using ex_discover by (auto simp: provider_started_def ex_provider_def ex_source_def refreshable_def)

definition ex_kept :: CredentialProvider where
  "ex_kept = ex_provider\<lparr>cp_next_refresh_ns := 85142000000000\<rparr>"

lemma ex_turn: "refresh_turn ex_due_env ex_provider = (True, ex_kept)"
proof -
  have ep: "parse_credential_endpoint (cs_imds_endpoint ex_source) =
      Inr \<lparr>ep_host = ''169.254.169.254'', ep_authority = ''169.254.169.254'', ep_path = ''/'', ep_port = 80, ep_tls = False\<rparr>"
    using ex_endpoint by (simp add: ex_source_def)
  have safe: "safe_plaintext_container_host ex_due_env ''169.254.169.254''"
    by (simp add: safe_plaintext_container_host_def ex_due_env_def ex_cred_env_def c_string_def)
  have "fst (load_imds ex_due_env ex_source) = Inl (RuntimeError [])"
    by (simp add: load_imds_def ep safe Let_def credential_request_def) (simp add: ex_due_env_def)
  then have load: "fst (load_source ex_due_env ex_source) = Inl (RuntimeError [])"
    by (simp add: load_source_def ex_source_def)
  have attempt: "refresh_try ex_due_env n ex_provider = (Inl (RuntimeError []), ex_provider)" for n
    by (simp add: refresh_try_def ex_provider_def load)
  have mono: "credential_monotonic_ns ex_due_env = Inr 85112000000000" "credential_epoch_seconds ex_due_env k = Inr 86107" for k
    by (simp_all add: credential_monotonic_ns_def credential_epoch_seconds_def ex_due_env_def)
  have "refresh_catch ex_due_env 85112000000000 (RuntimeError []) ex_provider = (Inr (), ex_kept)"
    by (simp add: refresh_catch_def mono current_snapshot_def ex_provider_def ex_snapshot_def ex_kept_def
        add_saturating_def kCredentialRetryNs_def UINT64_MAX_def)
  then show ?thesis
    by (simp add: refresh_turn_def mono refresh_locked_def attempt)
      (simp add: ex_provider_def ex_kept_def UINT64_MAX_def)
qed

theorem provider_hands_out_checked_credentials_witness:
  "get_credentials True False ex_provider ex_kept = Inr (credentials ex_snapshot) \<and> usable (credentials ex_snapshot) \<and>
   cp_snapshots ex_kept ! 0 = cp_snapshots ex_provider ! 0"
proof -
  have "provider_step (ex_provider, True) (ex_kept, True)" using ex_turn by (rule provider_step.turn)
  then have steps: "provider_step\<^sup>*\<^sup>* (ex_provider, True) (ex_kept, True)" by simp
  have g: "get_credentials True False ex_provider ex_kept = Inr (credentials ex_snapshot)"
    "cs_source (cp_source ex_provider) \<noteq> SOURCE_ANONYMOUS" "length (cp_snapshots ex_provider) = 1"
    by (simp_all add: get_credentials_def current_snapshot_def ex_provider_def ex_source_def)
  show ?thesis
    using provider_hands_out_checked_credentials [OF ex_started rtranclp.rtrancl_refl steps, of True False] g by simp
qed

theorem refresh_is_due_before_expiry_witness:
  "current_snapshot ex_kept = Some ex_snapshot \<and> 86107 < expiration ex_snapshot \<and>
   int (cp_next_refresh_ns ex_kept) \<le> 85112000000000 + (expiration ex_snapshot - 86107) * 1000000000 \<and>
   min (85112000000000 + 1000000000) UINT64_MAX \<le> cp_next_refresh_ns ex_kept"
proof -
  have s: "current_snapshot ex_kept = Some ex_snapshot" "expiration ex_snapshot = 86407"
    by (simp_all add: current_snapshot_def ex_kept_def ex_provider_def ex_snapshot_def)
  have h: "credential_monotonic_ns ex_due_env = Inr 85112000000000" "cp_next_refresh_ns ex_provider \<noteq> UINT64_MAX"
    "cp_next_refresh_ns ex_provider \<le> 85112000000000" "\<forall>k r. epoch ex_due_env k = Inr r \<longrightarrow> 86107 \<le> r"
    by (simp_all add: credential_monotonic_ns_def ex_due_env_def ex_provider_def UINT64_MAX_def)
  show ?thesis
    using refresh_is_due_before_expiry [OF ex_started rtranclp.rtrancl_refl ex_turn h] s by simp
qed

end
