(* ===== verification/Cache_Capacity.thy ===== *)
theory Cache_Capacity
  imports Cache_Entry_Live
begin

text \<open>
  The space of the local cache (\<^verbatim>\<open>class LocalCache\<close> of \<^verbatim>\<open>src/src/cache.cpp\<close>): the counter of
  allocated bytes in the superblock, the reservations of space that is about to be allocated, the
  choice of a generation to evict, and the open generations that are kept although nobody uses
  them. Generations are named by numbers; \<open>lc_heap\<close> is the \<^verbatim>\<open>CacheEntry\<close> behind a number, or
  what its files hold while it is not open, \<open>lc_disk\<close> lists the generations that have files, and
  \<open>lc_users\<close> counts the shared pointers outside the cache. What the file system answers is an
  argument: an errno value or the result of the call.
\<close>

section \<open>State\<close>

record statvfs =
  f_bsize :: nat
  f_frsize :: nat
  f_blocks :: nat
  f_bavail :: nat

record KeepaliveSlot =
  ks_entry :: nat
  ks_base_metadata_bytes :: nat

record LocalCache =
  lc_config :: CacheConfig
  lc_superblock :: bool
  lc_allocated :: nat
  lc_pending :: nat
  lc_entries :: "nat list"
  lc_heap :: "nat \<Rightarrow> CacheEntry"
  lc_disk :: "nat list"
  lc_users :: "nat \<Rightarrow> nat"
  lc_keepalive :: "KeepaliveSlot list"
  lc_keepalive_bytes :: nat
  lc_clock_entry :: u64

definition kept :: "LocalCache \<Rightarrow> nat \<Rightarrow> bool" where
  "kept s i \<longleftrightarrow> i \<in> ks_entry ` set (lc_keepalive s)"

text \<open>A weak pointer can be locked as long as somebody holds the generation.\<close>

definition alive :: "LocalCache \<Rightarrow> nat \<Rightarrow> bool" where
  "alive s i \<longleftrightarrow> 0 < lc_users s i \<or> kept s i"


section \<open>Allocated and reserved bytes\<close>

definition allocated_bytes :: "LocalCache \<Rightarrow> nat" where
  "allocated_bytes s = (if lc_superblock s then lc_allocated s else 0)"

definition add_allocated :: "int \<Rightarrow> LocalCache \<Rightarrow> LocalCache" where
  "add_allocated delta s =
     (if \<not> lc_superblock s \<or> delta = 0 then s
      else let current = lc_allocated s
           in s\<lparr>lc_allocated :=
                if 0 < delta then (if UINT64_MAX - nat delta < current then UINT64_MAX else current + nat delta)
                else (if nat (- delta) < current then current - nat (- delta) else 0)\<rparr>)"

definition fs_unit :: "statvfs \<Rightarrow> nat" where
  "fs_unit fs = (if f_frsize fs = 0 then f_bsize fs else f_frsize fs)"

text \<open>The products are those of \<^verbatim>\<open>__uint128_t\<close>, the result is stored in 64 bits.\<close>

definition floor_of :: "CacheConfig \<Rightarrow> statvfs \<Rightarrow> nat" where
  "floor_of config fs =
     (if reserve_is_percent config
      then wrap64 ((f_blocks fs * fs_unit fs * reserve_percent config) mod 2 ^ 128 div 100)
      else reserve_bytes config)"

definition reserve_floor_bytes :: "nat + statvfs \<Rightarrow> LocalCache \<Rightarrow> nat result" where
  "reserve_floor_bytes answer s =
     (if \<not> reserve_is_percent (lc_config s) then Inr (reserve_bytes (lc_config s))
      else case answer of
             Inl e \<Rightarrow> Inl (SystemError e ''fstatvfs(cache reserve)'')
           | Inr fs \<Rightarrow> Inr (floor_of (lc_config s) fs))"

definition try_reserve_capacity :: "nat + statvfs \<Rightarrow> nat \<Rightarrow> LocalCache \<Rightarrow> bool result \<times> LocalCache" where
  "try_reserve_capacity answer n s =
     (if unlimited (lc_config s)
      then (Inr True, s\<lparr>lc_pending := (if UINT64_MAX - n < lc_pending s then UINT64_MAX else lc_pending s + n)\<rparr>)
      else case answer of
             Inl e \<Rightarrow> (Inl (SystemError e ''fstatvfs(cache capacity)''), s)
           | Inr fs \<Rightarrow>
               let available = min UINT64_MAX (f_bavail fs * fs_unit fs);
                   floor = floor_of (lc_config s) fs;
                   allocated = allocated_bytes s;
                   maximum = maximum_bytes (lc_config s);
                   maximum_ok = (maximum = 0 \<or>
                     allocated \<le> maximum \<and> lc_pending s \<le> maximum - allocated \<and>
                     n \<le> maximum - allocated - lc_pending s);
                   free_ok = (floor \<le> available \<and> lc_pending s \<le> available - floor \<and>
                     n \<le> available - floor - lc_pending s)
               in if \<not> maximum_ok \<or> \<not> free_ok then (Inr False, s)
                  else (Inr True, s\<lparr>lc_pending := lc_pending s + n\<rparr>))"

definition cancel_reservation :: "nat \<Rightarrow> LocalCache \<Rightarrow> LocalCache" where
  "cancel_reservation n s = s\<lparr>lc_pending := (if n < lc_pending s then lc_pending s - n else 0)\<rparr>"

definition finish_reservation :: "nat \<Rightarrow> nat \<Rightarrow> LocalCache \<Rightarrow> LocalCache" where
  "finish_reservation reserved allocated s =
     add_allocated (int (min allocated INT64_MAX))
       (s\<lparr>lc_pending := (if reserved < lc_pending s then lc_pending s - reserved else 0)\<rparr>)"

text \<open>\<open>- int64_t(std::min<uint64_t>(bytes, INT64_MAX))\<close>, how bytes are given back everywhere.\<close>

definition give_back :: "nat \<Rightarrow> LocalCache \<Rightarrow> LocalCache" where
  "give_back n s = add_allocated (- int (min n INT64_MAX)) s"



section \<open>Keys and kept generations\<close>

definition fnv_step :: "char \<Rightarrow> u64 \<Rightarrow> u64" where
  "fnv_step ch hash = (hash XOR of_char ch) * 1099511628211"

definition key_mutex :: "string \<Rightarrow> nat" where
  "key_mutex key = unat (fold fnv_step key 1469598103934665603) mod 127"

definition kKeepaliveEntryLimit :: nat where "kKeepaliveEntryLimit = 64"

definition kKeepaliveBaseMetadataLimit :: nat where
  "kKeepaliveBaseMetadataLimit = 8 * 1024 * 1024"

fun release_slot :: "nat \<Rightarrow> KeepaliveSlot list \<Rightarrow> nat \<Rightarrow> KeepaliveSlot list \<times> nat" where
  "release_slot i [] n = ([], n)"
| "release_slot i (slot # slots) n =
     (if ks_entry slot = i then (slots, n - ks_base_metadata_bytes slot)
      else let (slots', n') = release_slot i slots n in (slot # slots', n'))"

definition release_keepalive_locked :: "nat \<Rightarrow> LocalCache \<Rightarrow> LocalCache" where
  "release_keepalive_locked i s =
     (let (slots, n) = release_slot i (lc_keepalive s) (lc_keepalive_bytes s)
      in s\<lparr>lc_keepalive := slots, lc_keepalive_bytes := n\<rparr>)"

fun release_key_slots :: "(nat \<Rightarrow> bool) \<Rightarrow> KeepaliveSlot list \<Rightarrow> nat \<Rightarrow> KeepaliveSlot list \<times> nat" where
  "release_key_slots of_key [] n = ([], n)"
| "release_key_slots of_key (slot # slots) n =
     (if of_key (ks_entry slot) then release_key_slots of_key slots (n - ks_base_metadata_bytes slot)
      else let (slots', n') = release_key_slots of_key slots n in (slot # slots', n'))"

definition release_key_keepalive_locked :: "string \<Rightarrow> LocalCache \<Rightarrow> LocalCache" where
  "release_key_keepalive_locked key s =
     (let (slots, n) = release_key_slots (\<lambda>i. e_key (lc_heap s i) = key) (lc_keepalive s) (lc_keepalive_bytes s)
      in s\<lparr>lc_keepalive := slots, lc_keepalive_bytes := n\<rparr>)"

text \<open>The loop that drops the oldest slots until one more of \<open>n\<close> bytes fits.\<close>

fun make_room :: "nat \<Rightarrow> KeepaliveSlot list \<Rightarrow> nat \<Rightarrow> KeepaliveSlot list \<times> nat" where
  "make_room n [] held = ([], held)"
| "make_room n (slot # slots) held =
     (if kKeepaliveEntryLimit \<le> length (slot # slots) \<or> kKeepaliveBaseMetadataLimit - n < held
      then make_room n slots (held - ks_base_metadata_bytes slot)
      else (slot # slots, held))"

text \<open>The sizes of the mapping and of the two arrays of the generation are arguments.\<close>

definition retain_entry_locked :: "nat \<Rightarrow> nat \<Rightarrow> nat \<Rightarrow> nat \<Rightarrow> LocalCache \<Rightarrow> LocalCache" where
  "retain_entry_locked i mapping_size referenced_bytes pin_bytes s =
     (if kept s i then s
      else if kKeepaliveBaseMetadataLimit < mapping_size \<or>
              kKeepaliveBaseMetadataLimit - mapping_size < referenced_bytes \<or>
              kKeepaliveBaseMetadataLimit - mapping_size - referenced_bytes < pin_bytes
      then s
      else let n = mapping_size + referenced_bytes + pin_bytes;
               (slots, held) = make_room n (lc_keepalive s) (lc_keepalive_bytes s)
           in s\<lparr>lc_keepalive := slots @ [\<lparr>ks_entry = i, ks_base_metadata_bytes = n\<rparr>],
                lc_keepalive_bytes := held + n\<rparr>)"

text \<open>
  The lookup that never blocks: \<open>locked\<close> says which of the locks of the key, of the cache and of
  the generation could be taken.
\<close>

definition try_open :: "bool \<Rightarrow> bool \<Rightarrow> (nat \<Rightarrow> bool) \<Rightarrow> CacheIdentity \<Rightarrow> LocalCache \<Rightarrow> nat option" where
  "try_open key_locked cache_locked entry_locked identity s =
     (if kCacheKeyCapacity < length (id_key identity) \<or> kCacheEtagCapacity < length (id_etag identity) \<or>
         kCacheVersionCapacity < length (id_version_id identity)
      then None
      else if \<not> key_locked \<or> \<not> cache_locked then None
      else case find (\<lambda>slot. e_key (lc_heap s (ks_entry slot)) = id_key identity) (lc_keepalive s) of
             None \<Rightarrow> None
           | Some slot \<Rightarrow>
               let i = ks_entry slot; e = lc_heap s i
               in if \<not> entry_locked i then None
                  else if \<not> e_detached e \<and> \<not> e_stale e \<and> cache_identity_matches (e_header e) identity kCacheBitmapUnit
                  then Some i else None)"


section \<open>Eviction\<close>

text \<open>
  \<open>reclaim_closed_clean\<close> removes a generation without pages that only the cache holds: whether the
  lock of its key was free, and what the file system answers to the rest. The bytes of the
  unlinked files are given back when the generation is destroyed, which is a step of its own.
\<close>

record reclaim_env =
  rc_locked :: bool
  rc_files_found :: bool
  rc_same_files :: bool
  rc_data_unlinked :: bool
  rc_meta_unlinked :: bool

definition reclaim_closed_clean :: "reclaim_env \<Rightarrow> nat \<Rightarrow> LocalCache \<Rightarrow> bool \<times> LocalCache" where
  "reclaim_closed_clean env i s =
     (if \<not> rc_locked env then (False, s)
      else let seen = filter (alive s) (takeWhile (\<lambda>j. j \<noteq> i) (lc_entries s));
               others = dropWhile (\<lambda>j. j \<noteq> i) (lc_entries s);
               s1 = s\<lparr>lc_entries := seen @ others\<rparr>
           in if others = [] \<or> lc_users s i \<noteq> 0 \<or> \<not> reclaimable (lc_heap s i) then (False, s1)
              else let s2 = release_keepalive_locked i s1;
                       removed = rc_files_found env \<and> rc_same_files env \<and> rc_data_unlinked env \<and> rc_meta_unlinked env
                   in (removed,
                       s2\<lparr>lc_heap := (lc_heap s)(i := (lc_heap s i)\<lparr>e_detached := True, e_stale := True\<rparr>),
                          lc_entries := seen @ tl others,
                          lc_disk := if removed then filter (\<lambda>j. j \<noteq> i) (lc_disk s) else lc_disk s\<rparr>))"

text \<open>The loops of \<open>evict_one\<close>: a pass over the generations, and the attempts to remove one.\<close>

fun evict_pass :: "(nat \<Rightarrow> evict_env) \<Rightarrow> nat list \<Rightarrow> LocalCache \<Rightarrow> bool \<times> LocalCache" where
  "evict_pass env [] s = (False, s)"
| "evict_pass env (i # rest) s =
     (let (freed, e) = evict_one_region (env i) (lc_heap s i);
          s' = s\<lparr>lc_heap := (lc_heap s)(i := e)\<rparr>
      in if freed \<noteq> 0 then (True, give_back freed s') else evict_pass env rest s')"

fun reclaim_pass :: "(nat \<Rightarrow> reclaim_env) \<Rightarrow> nat list \<Rightarrow> LocalCache \<Rightarrow> bool \<times> LocalCache" where
  "reclaim_pass env [] s = (False, s)"
| "reclaim_pass env (i # rest) s =
     (let (done1, s') = reclaim_closed_clean (env i) i s
      in if done1 then (True, s') else reclaim_pass env rest s')"

text \<open>
  The scan of the generations that have files. What one visit meets: whether the lock of the key
  was free, whether opening the files succeeded, which holes the constructor could punch and the
  bytes that freed, the capacities of the two arrays of the new entry, and the answers to the two
  evictions and to the removal. The record that the scan has just read from the files is the one
  that \<open>open\<close> finds there, so that it keeps their contents.
\<close>

record cold_env =
  co_locked :: bool
  co_opened :: bool
  co_hole :: "nat \<Rightarrow> bool"
  co_recovered :: nat
  co_referenced_bytes :: nat
  co_pin_bytes :: nat
  co_first :: evict_env
  co_second :: evict_env
  co_reclaim :: reclaim_env

definition cold_open :: "cold_env \<Rightarrow> nat \<Rightarrow> LocalCache \<Rightarrow> LocalCache" where
  "cold_open env i s =
     (let old = lc_heap s i;
          e = CacheEntry_new (lc_config s) (e_key old) (e_header old) (e_bitmap old) False (e_size old)
                (e_data old) True (co_hole env);
          s1 = give_back (co_recovered env) (s\<lparr>lc_heap := (lc_heap s)(i := e), lc_entries := lc_entries s @ [i]\<rparr>)
      in retain_entry_locked i (mapping_bytes e) (co_referenced_bytes env) (co_pin_bytes env) s1)"

definition cold_visit :: "cold_env \<Rightarrow> nat \<Rightarrow> LocalCache \<Rightarrow> bool \<times> LocalCache" where
  "cold_visit env i s =
     (if i \<notin> set (lc_disk s) \<or> e_dirty (lc_heap s i) \<or> \<not> co_locked env \<or>
         list_ex (\<lambda>j. alive s j \<and> e_key (lc_heap s j) = e_key (lc_heap s i)) (lc_entries s)
      then (False, s)
      else let s1 = s\<lparr>lc_entries := filter (alive s) (lc_entries s)\<rparr>
           in if \<not> co_opened env then (False, s1)
              else let (done1, s2) = evict_pass (\<lambda>_. co_first env) [i] (cold_open env i s1)
                   in if done1 then (True, s2)
                      else let (done2, s3) = evict_pass (\<lambda>_. co_second env) [i] s2
                           in if done2 then (True, s3) else reclaim_closed_clean (co_reclaim env) i s3)"

fun cold_scan :: "(nat \<times> cold_env) list \<Rightarrow> LocalCache \<Rightarrow> bool \<times> LocalCache" where
  "cold_scan [] s = (False, s)"
| "cold_scan ((i, env) # rest) s =
     (let (done1, s') = cold_visit env i s
      in if done1 then (True, s') else cold_scan rest s')"

text \<open>
  One call of \<open>evict_one\<close>. \<open>ev_cold\<close> lists the generations that the scan of the files comes to, up
  to its end or to the error that stops it.
\<close>

record evict_answers =
  ev_first :: "nat \<Rightarrow> evict_env"
  ev_second :: "nat \<Rightarrow> evict_env"
  ev_reclaim :: "nat \<Rightarrow> reclaim_env"
  ev_cold :: "(nat \<times> cold_env) list"

definition evict_cold :: "evict_answers \<Rightarrow> LocalCache \<Rightarrow> bool \<times> LocalCache" where
  "evict_cold answers s =
     (if unlimited (lc_config s) then (False, s) else cold_scan (ev_cold answers) s)"

definition evict_one :: "evict_answers \<Rightarrow> LocalCache \<Rightarrow> bool \<times> LocalCache" where
  "evict_one answers s =
     (if unlimited (lc_config s) then (False, s)
      else let entries = filter (alive s) (lc_entries s);
               s1 = s\<lparr>lc_entries := entries\<rparr>
           in if entries = [] then evict_cold answers s1
              else let order = rotate (unat (lc_clock_entry s) mod length entries) entries;
                       (done1, s2) = evict_pass (ev_first answers) order (s1\<lparr>lc_clock_entry := lc_clock_entry s + 1\<rparr>)
                   in if done1 then (True, s2)
                      else let (done2, s3) = evict_pass (ev_second answers) order s2
                           in if done2 then (True, s3)
                              else let (done3, s4) = reclaim_pass (ev_reclaim answers) order s3
                                   in if done3 then (True, s4) else evict_cold answers s4)"

text \<open>
  The loop of \<open>reserve_capacity\<close> over the answers of its turns; it is still running when they are
  used up.
\<close>

fun reserve_capacity ::
  "nat \<Rightarrow> ((nat + statvfs) \<times> evict_answers) list \<Rightarrow> LocalCache \<Rightarrow> (bool result \<times> LocalCache) option" where
  "reserve_capacity n [] s = None"
| "reserve_capacity n ((fs, answers) # turns) s =
     (case try_reserve_capacity fs n s of
        (Inl e, s') \<Rightarrow> Some (Inl e, s')
      | (Inr True, s') \<Rightarrow> Some (Inr True, s')
      | (Inr False, s') \<Rightarrow>
          let (again, s'') = evict_one answers s'
          in if again then reserve_capacity n turns s'' else Some (Inr False, s''))"


section \<open>Preparation of a range\<close>

record prepare_answers =
  pa_turns :: "((nat + statvfs) \<times> evict_answers) list"
  pa_before :: "nat + nat"
  pa_fallocate :: nat
  pa_after :: "nat + nat"

text \<open>Where the allocation starts and how much is reserved for it.\<close>

definition prepare_plan :: "CacheConfig \<Rightarrow> nat \<Rightarrow> nat \<Rightarrow> bool \<Rightarrow> (nat \<times> nat) result" where
  "prepare_plan config offset len write =
     ebind (cache_round_up len (cfg_page_size config)) (\<lambda>_.
       if write then Inr (offset div upload_part_size config * upload_part_size config, upload_part_size config)
       else ebind (cache_round_up len (cfg_block_size config)) (\<lambda>reserve.
              Inr (offset div cfg_block_size config * cfg_block_size config, reserve)))"

definition prepare_range ::
  "prepare_answers \<Rightarrow> nat \<Rightarrow> nat \<Rightarrow> bool \<Rightarrow> LocalCache \<Rightarrow> (bool result \<times> LocalCache) option" where
  "prepare_range answers offset len write s =
     (if len = 0 then Some (Inr True, s)
      else case prepare_plan (lc_config s) offset len write of
        Inl e \<Rightarrow> Some (Inl e, s)
      | Inr (start, reserve) \<Rightarrow>
          (case reserve_capacity reserve (pa_turns answers) s of
             None \<Rightarrow> None
           | Some (Inl e, s1) \<Rightarrow> Some (Inl e, s1)
           | Some (Inr False, s1) \<Rightarrow> Some (Inr False, s1)
           | Some (Inr True, s1) \<Rightarrow>
               (case pa_before answers of
                  Inl e \<Rightarrow> Some (Inl (SystemError e ''fstat(cache allocation)''), cancel_reservation reserve s1)
                | Inr before \<Rightarrow>
                    let e = pa_fallocate answers
                    in if e \<noteq> 0
                       then Some (if \<not> write \<and> (e = ENOSPC \<or> e = EDQUOT) then Inr False
                                  else Inl (SystemError e ''fallocate(cache range)''), cancel_reservation reserve s1)
                       else case pa_after answers of
                              Inl e \<Rightarrow> Some (Inl (SystemError e ''fstat(cache allocation result)''), cancel_reservation reserve s1)
                            | Inr after \<Rightarrow> Some (Inr True,
                                finish_reservation reserve (wrap64 (after * 512) - wrap64 (before * 512)) s1))))"


section \<open>What an operation leaves alone\<close>

lemma add_allocated_frame [simp]:
  "lc_config (add_allocated d s) = lc_config s" "lc_superblock (add_allocated d s) = lc_superblock s"
  "lc_pending (add_allocated d s) = lc_pending s" "lc_entries (add_allocated d s) = lc_entries s"
  "lc_heap (add_allocated d s) = lc_heap s" "lc_users (add_allocated d s) = lc_users s"
  "lc_keepalive (add_allocated d s) = lc_keepalive s" "lc_keepalive_bytes (add_allocated d s) = lc_keepalive_bytes s"
  "lc_disk (add_allocated d s) = lc_disk s"
  by (simp_all add: add_allocated_def Let_def)

lemma give_back_frame [simp]:
  "lc_config (give_back n s) = lc_config s" "lc_superblock (give_back n s) = lc_superblock s"
  "lc_pending (give_back n s) = lc_pending s" "lc_entries (give_back n s) = lc_entries s"
  "lc_heap (give_back n s) = lc_heap s" "lc_users (give_back n s) = lc_users s" "lc_disk (give_back n s) = lc_disk s"
  "lc_keepalive (give_back n s) = lc_keepalive s" "lc_keepalive_bytes (give_back n s) = lc_keepalive_bytes s"
  by (simp_all add: give_back_def)

lemma release_keepalive_frame [simp]:
  "lc_config (release_keepalive_locked i s) = lc_config s" "lc_superblock (release_keepalive_locked i s) = lc_superblock s"
  "lc_pending (release_keepalive_locked i s) = lc_pending s" "lc_allocated (release_keepalive_locked i s) = lc_allocated s"
  "lc_heap (release_keepalive_locked i s) = lc_heap s" "lc_entries (release_keepalive_locked i s) = lc_entries s"
  "lc_users (release_keepalive_locked i s) = lc_users s" "lc_disk (release_keepalive_locked i s) = lc_disk s"
  by (simp_all add: release_keepalive_locked_def Let_def split_beta)

lemma retain_entry_frame [simp]:
  "lc_config (retain_entry_locked i m r p s) = lc_config s" "lc_superblock (retain_entry_locked i m r p s) = lc_superblock s"
  "lc_pending (retain_entry_locked i m r p s) = lc_pending s" "lc_allocated (retain_entry_locked i m r p s) = lc_allocated s"
  "lc_heap (retain_entry_locked i m r p s) = lc_heap s" "lc_entries (retain_entry_locked i m r p s) = lc_entries s"
  "lc_users (retain_entry_locked i m r p s) = lc_users s" "lc_disk (retain_entry_locked i m r p s) = lc_disk s"
  by (simp_all add: retain_entry_locked_def Let_def split_beta)

lemma allocated_give_back: "allocated_bytes (give_back n s) \<le> allocated_bytes s"
  by (simp add: give_back_def add_allocated_def allocated_bytes_def Let_def)

lemma allocated_add: "allocated_bytes (add_allocated (int n) s) \<le> allocated_bytes s + n"
  by (auto simp: add_allocated_def allocated_bytes_def Let_def)

text \<open>Eviction changes neither the configuration nor the reservations, and only gives bytes back.\<close>

definition only_frees :: "LocalCache \<Rightarrow> LocalCache \<Rightarrow> bool" where
  "only_frees s s' \<longleftrightarrow> lc_config s' = lc_config s \<and> lc_superblock s' = lc_superblock s \<and> lc_pending s' = lc_pending s \<and>
     allocated_bytes s' \<le> allocated_bytes s \<and> lc_users s' = lc_users s"

lemma only_frees_refl [simp]: "only_frees s s"
  by (simp add: only_frees_def)

lemma only_frees_trans: "only_frees s s' \<Longrightarrow> only_frees s' s'' \<Longrightarrow> only_frees s s''"
  by (auto simp: only_frees_def)

lemma only_frees_give_back: "only_frees s s' \<Longrightarrow> only_frees s (give_back n s')"
  using allocated_give_back [of n s'] by (auto simp: only_frees_def)

lemma only_frees_fields [simp]:
  "only_frees s (s'\<lparr>lc_heap := h\<rparr>) = only_frees s s'" "only_frees s (s'\<lparr>lc_entries := es\<rparr>) = only_frees s s'"
  "only_frees s (s'\<lparr>lc_clock_entry := c\<rparr>) = only_frees s s'" "only_frees s (release_keepalive_locked i s') = only_frees s s'"
  "only_frees s (retain_entry_locked i m r p s') = only_frees s s'"
  by (simp_all add: only_frees_def allocated_bytes_def)

text \<open>
  The pages that can still be evicted, and the generations that can still be removed: every
  eviction that succeeds makes this number smaller.
\<close>

definition clean_pages_of :: "CacheEntry \<Rightarrow> nat" where
  "clean_pages_of e = card {p. p < e_page_count e \<and> page_state (e_bitmap e) p = CACHE_PAGE_CLEAN}"

text \<open>The generations that are open or have files.\<close>

definition generations :: "LocalCache \<Rightarrow> nat set" where
  "generations s = set (lc_entries s) \<union> set (lc_disk s)"

definition room :: "LocalCache \<Rightarrow> nat" where
  "room s = (\<Sum>i\<in>generations s. Suc (clean_pages_of (lc_heap s i)))"

definition shaped :: "LocalCache \<Rightarrow> bool" where
  "shaped s \<longleftrightarrow> distinct (lc_entries s) \<and>
     list_all (\<lambda>i. shape (lc_heap s i) \<and> e_block_size (lc_heap s i) = cfg_block_size (lc_config s))
       (lc_entries s @ lc_disk s)"

lemma finite_generations [simp]: "finite (generations s)"
  by (simp add: generations_def)

lemma room_le:
  assumes "generations s' \<subseteq> generations s"
    "\<And>i. i \<in> generations s' \<Longrightarrow> clean_pages_of (lc_heap s' i) \<le> clean_pages_of (lc_heap s i)"
  shows "room s' \<le> room s"
proof -
  have "room s' \<le> (\<Sum>i\<in>generations s'. Suc (clean_pages_of (lc_heap s i)))"
    unfolding room_def using assms(2) by (intro sum_mono) simp
  also have "\<dots> \<le> room s" unfolding room_def using assms(1) by (intro sum_mono2) simp_all
  finally show ?thesis .
qed

lemma room_less:
  assumes "generations s' \<subseteq> generations s" "i \<in> generations s"
    "\<And>j. j \<in> generations s' \<Longrightarrow> clean_pages_of (lc_heap s' j) \<le> clean_pages_of (lc_heap s j)"
    "i \<in> generations s' \<Longrightarrow> clean_pages_of (lc_heap s' i) < clean_pages_of (lc_heap s i)"
  shows "room s' < room s"
proof -
  let ?f = "\<lambda>i. Suc (clean_pages_of (lc_heap s i))" and ?f' = "\<lambda>i. Suc (clean_pages_of (lc_heap s' i))"
  have "(\<Sum>j\<in>generations s' - {i}. ?f' j) \<le> (\<Sum>j\<in>generations s' - {i}. ?f j)" using assms(3) by (intro sum_mono) simp
  also have "\<dots> \<le> (\<Sum>j\<in>generations s - {i}. ?f j)" using assms(1) by (intro sum_mono2) auto
  finally have rest: "(\<Sum>j\<in>generations s' - {i}. ?f' j) \<le> (\<Sum>j\<in>generations s - {i}. ?f j)" .
  have "room s = ?f i + (\<Sum>j\<in>generations s - {i}. ?f j)" unfolding room_def by (rule sum.remove) (use assms(2) in simp_all)
  moreover have "room s' < ?f i + (\<Sum>j\<in>generations s' - {i}. ?f' j)"
  proof (cases "i \<in> generations s'")
    case True
    then show ?thesis using assms(4) by (simp add: room_def sum.remove)
  next
    case False
    then show ?thesis by (simp add: room_def)
  qed
  ultimately show ?thesis using rest by linarith
qed

lemma evict_region_clears:
  assumes "fst (evict_region env off pages e) \<noteq> 0" "pages \<noteq> []" "\<forall>p\<in>set pages. p < 32 * length (e_bitmap e)"
  shows "\<exists>p\<in>set pages. page_state (e_bitmap (snd (evict_region env off pages e))) p = CACHE_PAGE_MISSING"
  using assms page_state_fill [OF assms(3), of CACHE_PAGE_MISSING]
  by (cases pages) (auto simp: evict_region_def Let_def split: option.splits if_splits)

lemma evict_scan_clears:
  assumes "shape e" "e_referenced e \<noteq> []" "fst (evict_scan n env e) \<noteq> 0"
  shows "\<exists>p < e_page_count e. page_state (e_bitmap e) p = CACHE_PAGE_CLEAN \<and>
    page_state (e_bitmap (snd (evict_scan n env e))) p = CACHE_PAGE_MISSING"
  using assms
proof (induction n arbitrary: e)
  case (Suc n)
  define region where "region = unat (e_clock_hand e) mod length (e_referenced e)"
  define e1 where "e1 = e\<lparr>e_clock_hand := e_clock_hand e + 1\<rparr>"
  define e2 where "e2 = e1\<lparr>e_referenced := (e_referenced e)[region := False]\<rparr>"
  define pages where "pages = [region * e_block_size e div U ..<
      (min (e_size e) (wrap64 (region * e_block_size e + e_block_size e)) - 1) div U + 1]"
  define clean where "clean = filter (\<lambda>p. page_state (e_bitmap e) p = CACHE_PAGE_CLEAN) pages"
  note sh = shapeD [OF Suc.prems(1)]
  have region: "region < length (e_region_pins e)"
    unfolding region_def sh(7) [symmetric] using Suc.prems(2) by simp
  have same: "e_bitmap e1 = e_bitmap e" "e_bitmap e2 = e_bitmap e" "e_page_count e1 = e_page_count e" "e_page_count e2 = e_page_count e"
    "e_referenced e1 \<noteq> []" "e_referenced e2 \<noteq> []" using Suc.prems(2) by (simp_all add: e1_def e2_def)
  have shapes: "shape e1" "shape e2" by (rule shape_cong [OF Suc.prems(1)]; simp add: e1_def e2_def)+
  have bound: "\<forall>p\<in>set clean. p < e_page_count e \<and> page_state (e_bitmap e) p = CACHE_PAGE_CLEAN"
    using region_pages [OF Suc.prems(1) region] by (auto simp: clean_def pages_def)
  define ok where "ok \<longleftrightarrow> list_all (\<lambda>p. page_state (e_bitmap e) p = CACHE_PAGE_CLEAN \<or>
        page_state (e_bitmap e) p = CACHE_PAGE_MISSING) pages \<and> e_region_pins e ! region = 0"
  have step: "evict_scan (Suc n) env e = (if e_referenced e ! region then evict_scan n env e2
      else if \<not> ok \<or> clean = [] then evict_scan n env e1
      else evict_region env (region * e_block_size e) clean e1)"
    unfolding evict_scan.simps Let_def region_def e1_def e2_def pages_def clean_def ok_def by (rule refl)
  consider "evict_scan (Suc n) env e = evict_scan n env e2" | "evict_scan (Suc n) env e = evict_scan n env e1"
    | "clean \<noteq> []" "evict_scan (Suc n) env e = evict_region env (region * e_block_size e) clean e1"
    using step by presburger
  then show ?case
  proof cases
    case 1
    then show ?thesis using Suc.IH [OF shapes(2) same(6)] Suc.prems(3) by (simp add: same)
  next
    case 2
    then show ?thesis using Suc.IH [OF shapes(1) same(5)] Suc.prems(3) by (simp add: same)
  next
    case 3
    have "\<forall>p\<in>set clean. p < 32 * length (e_bitmap e1)" using bound sh(4) same(1) by fastforce
    from evict_region_clears [OF _ 3(1) this, of env "region * e_block_size e"] Suc.prems(3) show ?thesis
      unfolding 3(2) using bound by blast
  qed
qed simp

definition same_lengths :: "CacheEntry \<Rightarrow> CacheEntry \<Rightarrow> bool" where
  "same_lengths e e' \<longleftrightarrow> length (e_bitmap e') = length (e_bitmap e) \<and> length (e_referenced e') = length (e_referenced e)"

lemma same_lengths_trans: "same_lengths e e' \<Longrightarrow> same_lengths e' e'' \<Longrightarrow> same_lengths e e''"
  by (simp add: same_lengths_def)

lemma same_lengths_if:
  "same_lengths e (snd a) \<Longrightarrow> same_lengths e (snd b) \<Longrightarrow> same_lengths e (snd (if c then a else b))"
  by simp

lemma evict_region_lengths: "same_lengths e (snd (evict_region env off pages e))"
  by (simp add: evict_region_def same_lengths_def Let_def split: option.split)

lemma evict_scan_lengths: "same_lengths e (snd (evict_scan n env e))"
proof (induction n arbitrary: e)
  case (Suc n)
  have r: "same_lengths e (e\<lparr>e_clock_hand := c\<rparr>)" "same_lengths e (e\<lparr>e_clock_hand := c, e_referenced := (e_referenced e)[i := x]\<rparr>)"
    for c i x by (simp_all add: same_lengths_def)
  show ?case unfolding evict_scan.simps Let_def
    by (intro same_lengths_if same_lengths_trans [OF r(2) Suc.IH] same_lengths_trans [OF r(1) Suc.IH]
        same_lengths_trans [OF r(1) evict_region_lengths])
qed (simp add: same_lengths_def)

lemma evict_one_region_lengths: "same_lengths e (snd (evict_one_region env e))"
  unfolding evict_one_region_def by (intro same_lengths_if evict_scan_lengths) (simp add: same_lengths_def)

lemma evict_one_region_progress:
  assumes "shape e" "evict_one_region env e = (freed, e')"
  shows "shape e' \<and> clean_pages_of e' \<le> clean_pages_of e \<and> (freed \<noteq> 0 \<longrightarrow> clean_pages_of e' < clean_pages_of e)"
proof -
  have e': "e' = snd (evict_one_region env e)" "freed = fst (evict_one_region env e)" using assms(2) by simp_all
  have pc: "e_page_count e' = e_page_count e" unfolding e' by (rule evict_one_region_frame)
  have sub: "page_state (e_bitmap e') p = CACHE_PAGE_CLEAN \<Longrightarrow> page_state (e_bitmap e) p = CACHE_PAGE_CLEAN" for p
    unfolding e'(1)
  proof (rule evict_one_region_spec [OF assms(1), of env], goal_cases)
    case 1
    then show ?case by simp
  next
    case (2 r)
    then show ?case by (simp split: if_split_asm)
  qed
  have le: "{p. p < e_page_count e' \<and> page_state (e_bitmap e') p = CACHE_PAGE_CLEAN} \<subseteq>
      {p. p < e_page_count e \<and> page_state (e_bitmap e) p = CACHE_PAGE_CLEAN}" using sub pc by auto
  have "clean_pages_of e' < clean_pages_of e" if freed: "freed \<noteq> 0"
  proof -
    let ?stop = "unlimited (e_config e) \<or> e_stale e \<or> e_eviction_disabled e \<or> e_dirty e \<or> e_exported e \<or> e_referenced e = []"
    have "\<not> ?stop"
    proof
      assume ?stop
      then have "evict_one_region env e = (0, e)" unfolding evict_one_region_def by (rule if_P)
      then show False using freed e'(2) by simp
    qed
    then have ne: "e_referenced e \<noteq> []" "evict_one_region env e = evict_scan (length (e_referenced e)) env e"
      unfolding evict_one_region_def by (blast, rule if_not_P)
    from evict_scan_clears [OF assms(1) ne(1)] freed obtain p where "p < e_page_count e"
      "page_state (e_bitmap e) p = CACHE_PAGE_CLEAN" "page_state (e_bitmap e') p = CACHE_PAGE_MISSING"
      unfolding e' ne(2) by blast
    then have "{p. p < e_page_count e' \<and> page_state (e_bitmap e') p = CACHE_PAGE_CLEAN} \<subset>
        {p. p < e_page_count e \<and> page_state (e_bitmap e) p = CACHE_PAGE_CLEAN}"
      using le by (metis (mono_tags, lifting) CachePageState.distinct(3) mem_Collect_eq psubsetI)
    then show ?thesis unfolding clean_pages_of_def by (rule psubset_card_mono [rotated]) simp
  qed
  moreover have "clean_pages_of e' \<le> clean_pages_of e" unfolding clean_pages_of_def by (intro card_mono le) simp
  moreover have "shape e'"
    unfolding e'(1) using evict_one_region_lengths [of e env]
    by (intro shape_cong [OF assms(1)]) (simp_all add: evict_one_region_frame same_lengths_def)
  ultimately show ?thesis by blast
qed

text \<open>One attempt, successful or not, as far as the bytes and the room are concerned.\<close>

definition evicts :: "bool \<Rightarrow> LocalCache \<Rightarrow> LocalCache \<Rightarrow> bool" where
  "evicts done1 s s' \<longleftrightarrow> only_frees s s' \<and>
     (shaped s \<longrightarrow> shaped s' \<and> room s' \<le> room s \<and> (done1 \<longrightarrow> room s' < room s))"

lemma evicts_refl [simp]: "evicts False s s"
  by (simp add: evicts_def)

lemma evicts_trans: "evicts False s s' \<Longrightarrow> evicts b s' s'' \<Longrightarrow> evicts b s s''"
  by (auto simp: evicts_def intro: only_frees_trans)

lemma evicts_give_back: "evicts b s s' \<Longrightarrow> evicts b s (give_back n s')"
  by (simp add: evicts_def only_frees_give_back room_def shaped_def generations_def)

lemma evict_step_evicts:
  assumes "evict_one_region env (lc_heap s i) = (freed, e)" "i \<in> generations s"
  shows "evicts (freed \<noteq> 0) s (s\<lparr>lc_heap := (lc_heap s)(i := e)\<rparr>)"
proof -
  let ?s = "s\<lparr>lc_heap := (lc_heap s)(i := e)\<rparr>"
  have gen: "generations ?s = generations s" by (simp add: generations_def)
  have "shaped ?s \<and> room ?s \<le> room s \<and> (freed \<noteq> 0 \<longrightarrow> room ?s < room s)" if sh: "shaped s"
  proof -
    have "shape (lc_heap s i)" using sh assms(2) by (auto simp: shaped_def list_all_iff generations_def)
    note step = evict_one_region_progress [OF this assms(1)]
    then have "room ?s \<le> room s" by (intro room_le) (simp_all add: gen)
    moreover have "room ?s < room s" if "freed \<noteq> 0"
      using step that assms(2) by (intro room_less [of _ _ i]) (simp_all add: gen)
    moreover have "e_block_size e = e_block_size (lc_heap s i)"
      using evict_one_region_frame(3) [of env "lc_heap s i"] assms(1) by simp
    then have "shaped ?s" using sh step by (auto simp: shaped_def list_all_iff)
    ultimately show ?thesis by blast
  qed
  then show ?thesis by (simp add: evicts_def)
qed

lemma evict_pass_evicts:
  assumes "set order \<subseteq> generations s"
  shows "evicts (fst (evict_pass env order s)) s (snd (evict_pass env order s)) \<and>
    lc_entries (snd (evict_pass env order s)) = lc_entries s \<and>
    generations (snd (evict_pass env order s)) = generations s"
  using assms
proof (induction env order s rule: evict_pass.induct)
  case (2 env i rest s)
  obtain freed e where ev: "evict_one_region (env i) (lc_heap s i) = (freed, e)" by fastforce
  let ?s = "s\<lparr>lc_heap := (lc_heap s)(i := e)\<rparr>"
  have i: "i \<in> generations s" "set rest \<subseteq> generations ?s" using 2(2) by (simp_all add: generations_def)
  note step = evict_step_evicts [OF ev i(1)]
  show ?case
  proof (cases "freed = 0")
    case True
    with 2(1) [OF ev [symmetric] refl] i(2) step show ?thesis by (auto simp: ev generations_def intro: evicts_trans)
  next
    case False
    with step evicts_give_back show ?thesis by (simp add: ev generations_def)
  qed
qed simp

text \<open>Dropping entries that nobody holds.\<close>

lemma drop_entries_evicts:
  assumes "set es \<subseteq> set (lc_entries s)" "distinct (lc_entries s) \<longrightarrow> distinct es"
  shows "evicts False s (s\<lparr>lc_entries := es\<rparr>)"
proof -
  have "generations (s\<lparr>lc_entries := es\<rparr>) \<subseteq> generations s" using assms(1) by (auto simp: generations_def)
  then have "room (s\<lparr>lc_entries := es\<rparr>) \<le> room s" by (rule room_le) simp
  then show ?thesis using assms by (auto simp: evicts_def shaped_def list_all_iff)
qed

lemma split_entries:
  assumes "seen = filter (alive s) (takeWhile (\<lambda>j. j \<noteq> i) (lc_entries s))" "others = dropWhile (\<lambda>j. j \<noteq> i) (lc_entries s)"
  shows "set (seen @ others) \<subseteq> set (lc_entries s)" "i \<notin> set seen"
    "distinct (lc_entries s) \<Longrightarrow> distinct (seen @ others)" "others \<noteq> [] \<Longrightarrow> \<exists>as. others = i # as"
proof -
  have entries: "lc_entries s = takeWhile (\<lambda>j. j \<noteq> i) (lc_entries s) @ others" by (simp add: assms(2))
  show "set (seen @ others) \<subseteq> set (lc_entries s)" by (subst entries) (auto simp: assms(1))
  show "i \<notin> set seen" by (auto simp: assms(1) dest: set_takeWhileD)
  show "distinct (seen @ others)" if "distinct (lc_entries s)"
    using that by (subst (asm) entries) (auto simp: assms(1))
  show "\<exists>as. others = i # as" if "others \<noteq> []"
    using hd_dropWhile [of "\<lambda>j. j \<noteq> i" "lc_entries s"] that unfolding assms(2) [symmetric] by (cases others) auto
qed

lemma reclaim_evicts: "evicts (fst (reclaim_closed_clean env i s)) s (snd (reclaim_closed_clean env i s))"
proof -
  define seen where "seen = filter (alive s) (takeWhile (\<lambda>j. j \<noteq> i) (lc_entries s))"
  define others where "others = dropWhile (\<lambda>j. j \<noteq> i) (lc_entries s)"
  note sp = split_entries [OF seen_def others_def]
  define removed where "removed \<longleftrightarrow> rc_files_found env \<and> rc_same_files env \<and> rc_data_unlinked env \<and> rc_meta_unlinked env"
  define h where "h = (lc_heap s)(i := (lc_heap s i)\<lparr>e_detached := True, e_stale := True\<rparr>)"
  define s2 where "s2 = (release_keepalive_locked i (s\<lparr>lc_entries := seen @ others\<rparr>))\<lparr>lc_heap := h,
    lc_entries := seen @ tl others, lc_disk := if removed then filter (\<lambda>j. j \<noteq> i) (lc_disk s) else lc_disk s\<rparr>"
  have h: "clean_pages_of (h j) = clean_pages_of (lc_heap s j)" "shape (h j) = shape (lc_heap s j)"
    "e_block_size (h j) = e_block_size (lc_heap s j)" for j
    by (simp_all add: h_def clean_pages_of_def shape_def)
  have s2: "evicts removed s s2" if ne: "others \<noteq> []"
  proof -
    obtain as where o: "others = i # as" using sp(4) [OF ne] by blast
    have i: "i \<in> generations s" using sp(1) o by (auto simp: generations_def)
    have sub: "generations s2 \<subseteq> generations s" using sp(1) o by (auto simp: s2_def generations_def)
    have le: "room s2 \<le> room s" using sub by (rule room_le) (simp add: s2_def h)
    have less: "room s2 < room s" if "shaped s" removed
    proof -
      have "i \<notin> generations s2"
        using sp(2,3) that o by (auto simp: s2_def generations_def shaped_def)
      then show ?thesis using sub i by (intro room_less [of _ _ i]) (simp_all add: s2_def h)
    qed
    have "shaped s2" if "shaped s"
      using that sp(1,3) o by (auto simp: s2_def shaped_def list_all_iff h)
    moreover have "only_frees s s2" by (simp add: s2_def only_frees_def allocated_bytes_def)
    ultimately show ?thesis using le less by (simp add: evicts_def)
  qed
  show ?thesis
  proof (cases "\<not> rc_locked env \<or> others = [] \<or> lc_users s i \<noteq> 0 \<or> \<not> reclaimable (lc_heap s i)")
    case True
    then show ?thesis
      using drop_entries_evicts [OF sp(1)] sp(3) by (auto simp: reclaim_closed_clean_def Let_def seen_def others_def)
  next
    case False
    then have "reclaim_closed_clean env i s = (removed, s2)"
      by (auto simp: reclaim_closed_clean_def Let_def seen_def others_def h_def removed_def s2_def)
    then show ?thesis using s2 False by simp
  qed
qed

lemma reclaim_pass_evicts: "evicts (fst (reclaim_pass env order s)) s (snd (reclaim_pass env order s))"
proof (induction env order s rule: reclaim_pass.induct)
  case (2 env i rest s)
  obtain b s' where r: "reclaim_closed_clean (env i) i s = (b, s')" by fastforce
  show ?case
    using reclaim_evicts [of "env i" i s] 2 [OF r [symmetric] refl] by (cases b) (auto simp: r intro: evicts_trans)
qed simp

text \<open>A generation that is opened again holds the clean pages of its files and no others.\<close>

lemma fold_recover_clean:
  assumes "shape e" "\<forall>b\<in>set bs. b < length (e_region_pins e)"
  shows "\<exists>words d. fold (recover_block pm hole) bs e = e\<lparr>e_bitmap := words, e_data := d\<rparr> \<and>
    length words = length (e_bitmap e) \<and>
    (\<forall>p<e_page_count e. page_state words p = CACHE_PAGE_CLEAN \<longrightarrow> page_state (e_bitmap e) p = CACHE_PAGE_CLEAN)"
  using assms
proof (induction bs arbitrary: e)
  case Nil
  then show ?case by (intro exI [of _ "e_bitmap e"] exI [of _ "e_data e"]) simp
next
  case (Cons b bs)
  have "b < length (e_region_pins e)" using Cons.prems(2) by simp
  from recover_block_spec [OF Cons.prems(1) this, of pm hole] obtain w d where
    r: "recover_block pm hole b e = e\<lparr>e_bitmap := w, e_data := d\<rparr>" "length w = length (e_bitmap e)"
    and st: "\<forall>p<e_page_count e. page_state w p =
      (if page_state (e_bitmap e) p = CACHE_PAGE_READ_PENDING \<and> p * U div e_block_size e = b
       then CACHE_PAGE_MISSING else page_state (e_bitmap e) p)" by blast
  define e1 where "e1 = e\<lparr>e_bitmap := w, e_data := d\<rparr>"
  have "shape e1" by (rule shape_cong [OF Cons.prems(1)]) (simp_all add: e1_def r(2))
  from Cons.IH [OF this] Cons.prems(2) obtain w' d' where
    ih: "fold (recover_block pm hole) bs e1 = e1\<lparr>e_bitmap := w', e_data := d'\<rparr>" "length w' = length w"
    "\<forall>p<e_page_count e. page_state w' p = CACHE_PAGE_CLEAN \<longrightarrow> page_state w p = CACHE_PAGE_CLEAN"
    by (auto simp: e1_def)
  have "page_state (e_bitmap e) p = CACHE_PAGE_CLEAN"
    if "p < e_page_count e" "page_state w' p = CACHE_PAGE_CLEAN" for p
    using ih(3) st that by (auto split: if_splits)
  moreover have "fold (recover_block pm hole) (b # bs) e = e\<lparr>e_bitmap := w', e_data := d'\<rparr>"
    using ih(1) r(1) by (simp add: e1_def)
  ultimately show ?case using ih(2) r(2) by (intro exI [of _ w'] exI [of _ d']) simp
qed

lemma reopened:
  assumes "shape e" "e_block_size e = cfg_block_size config"
    "e' = CacheEntry_new config key header (e_bitmap e) dm (e_size e) d pm hole"
  shows "shape e'" "e_block_size e' = cfg_block_size config" "clean_pages_of e' \<le> clean_pages_of e"
proof -
  define regions where "regions = (if e_size e = 0 then 0 else (e_size e - 1) div cfg_block_size config + 1)"
  define e0 where "e0 = \<lparr>e_config = config, e_key = key, e_header = header, e_bitmap = e_bitmap e,
     e_dirty_marker = dm, e_size = e_size e, e_epoch = m_generation_epoch header,
     e_block_size = cfg_block_size config, e_page_count = (if e_size e = 0 then 0 else (e_size e - 1) div U + 1),
     e_wait_event = None, e_waiters = 0,
     e_referenced = replicate regions False, e_region_pins = replicate regions 0,
     e_active_claims = [], e_reserved_units = [], e_checksum_parts = [],
     e_checksum_states = [], e_next_claim_id = 1, e_clock_hand = 0,
     e_checksum_ops = 0, e_pinned_regions = 0,
     e_checksum_manifest = kChecksumUnknown,
     e_eviction_disabled = m_exported header, e_detached = False, e_stale = False,
     e_data = d\<rparr>"
  have new: "e' = fold (recover_block pm hole) [0..<regions] e0"
    by (simp add: assms(3) CacheEntry_new_def Let_def e0_def regions_def)
  have sh0: "shape e0" using assms(1,2) by (simp add: shape_def e0_def regions_def)
  have pc: "e_page_count e0 = e_page_count e" using assms(1) by (simp add: shape_def e0_def)
  have "\<forall>b\<in>set [0..<regions]. b < length (e_region_pins e0)" by (simp add: e0_def)
  from fold_recover_clean [OF sh0 this, of pm hole] obtain w d' where
    e': "e' = e0\<lparr>e_bitmap := w, e_data := d'\<rparr>" "length w = length (e_bitmap e0)"
    "\<forall>p<e_page_count e0. page_state w p = CACHE_PAGE_CLEAN \<longrightarrow> page_state (e_bitmap e0) p = CACHE_PAGE_CLEAN"
    unfolding new by blast
  show "shape e'" by (rule shape_cong [OF sh0]) (simp_all add: e'(1,2))
  show "e_block_size e' = cfg_block_size config" by (simp add: e'(1) e0_def)
  have "e_bitmap e0 = e_bitmap e" by (simp add: e0_def)
  with e'(3) pc show "clean_pages_of e' \<le> clean_pages_of e"
    unfolding clean_pages_of_def e'(1) by (intro card_mono) auto
qed

lemma cold_open_evicts:
  assumes "i \<in> set (lc_disk s)" "i \<notin> set (lc_entries s)"
  shows "evicts False s (cold_open env i s)" "generations (cold_open env i s) = generations s"
proof -
  define e where "e = CacheEntry_new (lc_config s) (e_key (lc_heap s i)) (e_header (lc_heap s i)) (e_bitmap (lc_heap s i))
    False (e_size (lc_heap s i)) (e_data (lc_heap s i)) True (co_hole env)"
  have fr: "lc_heap (cold_open env i s) = (lc_heap s)(i := e)" "lc_entries (cold_open env i s) = lc_entries s @ [i]"
    "lc_disk (cold_open env i s) = lc_disk s" "lc_config (cold_open env i s) = lc_config s"
    by (simp_all add: cold_open_def Let_def e_def)
  show gen: "generations (cold_open env i s) = generations s" using assms(1) by (auto simp: generations_def fr)
  have "only_frees s (cold_open env i s)"
    by (simp add: cold_open_def Let_def only_frees_give_back)
  moreover have "shaped (cold_open env i s) \<and> room (cold_open env i s) \<le> room s" if sh: "shaped s"
  proof -
    have "shape (lc_heap s i)" "e_block_size (lc_heap s i) = cfg_block_size (lc_config s)"
      using sh assms(1) by (auto simp: shaped_def list_all_iff)
    note re = reopened [OF this e_def]
    have "room (cold_open env i s) \<le> room s" by (rule room_le) (simp_all add: gen fr re(3))
    moreover have "shaped (cold_open env i s)"
      using sh assms(2) re(1,2) by (auto simp: shaped_def list_all_iff fr)
    ultimately show ?thesis by blast
  qed
  ultimately show "evicts False s (cold_open env i s)" by (simp add: evicts_def)
qed

lemma cold_visit_evicts: "evicts (fst (cold_visit env i s)) s (snd (cold_visit env i s))"
proof (cases "i \<notin> set (lc_disk s) \<or> e_dirty (lc_heap s i) \<or> \<not> co_locked env \<or>
    list_ex (\<lambda>j. alive s j \<and> e_key (lc_heap s j) = e_key (lc_heap s i)) (lc_entries s)")
  case True
  have "cold_visit env i s = (False, s)" unfolding cold_visit_def if_P [OF True] ..
  then show ?thesis by simp
next
  case False
  define s1 where "s1 = s\<lparr>lc_entries := filter (alive s) (lc_entries s)\<rparr>"
  obtain d1 s2 where p1: "evict_pass (\<lambda>_. co_first env) [i] (cold_open env i s1) = (d1, s2)" by fastforce
  obtain d2 s3 where p2: "evict_pass (\<lambda>_. co_second env) [i] s2 = (d2, s3)" by fastforce
  have eq: "cold_visit env i s = (if \<not> co_opened env then (False, s1) else if d1 then (True, s2)
      else if d2 then (True, s3) else reclaim_closed_clean (co_reclaim env) i s3)"
    unfolding cold_visit_def if_not_P [OF False] s1_def [symmetric] Let_def p1 prod.case p2 ..
  have i: "i \<in> set (lc_disk s1)" "i \<notin> set (lc_entries s1)" using False by (auto simp: s1_def list_ex_iff)
  have f1: "evicts False s s1" unfolding s1_def by (rule drop_entries_evicts) auto
  note co = cold_open_evicts [OF i, of env]
  have f2: "evicts False s (cold_open env i s1)" using evicts_trans [OF f1 co(1)] .
  have "set [i] \<subseteq> generations (cold_open env i s1)" using i(1) unfolding co(2) by (auto simp: generations_def)
  note e1 = evict_pass_evicts [OF this, of "\<lambda>_. co_first env", unfolded p1 fst_conv snd_conv]
  have f3: "evicts d1 s s2" using evicts_trans [OF f2] e1 by blast
  have "set [i] \<subseteq> generations s2" using e1 i(1) unfolding co(2) by (auto simp: generations_def)
  note e2 = evict_pass_evicts [OF this, of "\<lambda>_. co_second env", unfolded p2 fst_conv snd_conv]
  have f4: "evicts d2 s s3" if "\<not> d1" using evicts_trans [of s s2 d2 s3] f3 e2 that by simp
  have f5: "evicts (fst (reclaim_closed_clean (co_reclaim env) i s3)) s (snd (reclaim_closed_clean (co_reclaim env) i s3))"
    if "\<not> d1" "\<not> d2" using evicts_trans [of s s3] f4 reclaim_evicts that by simp
  show ?thesis using f1 f3 f4 f5 unfolding eq by (cases "co_opened env"; cases d1; cases d2) simp_all
qed

lemma cold_scan_evicts: "evicts (fst (cold_scan visits s)) s (snd (cold_scan visits s))"
proof (induction visits s rule: cold_scan.induct)
  case (2 i env rest s)
  obtain b s' where r: "cold_visit env i s = (b, s')" by fastforce
  show ?case
    using cold_visit_evicts [of env i s] 2 [OF r [symmetric] refl] by (cases b) (auto simp: r intro: evicts_trans)
qed simp

lemma evict_cold_evicts: "evicts (fst (evict_cold answers s)) s (snd (evict_cold answers s))"
  by (simp add: evict_cold_def cold_scan_evicts)

lemma evict_one_evicts:
  "evicts (fst (evict_one answers s)) s (snd (evict_one answers s))"
proof -
  let ?entries = "filter (alive s) (lc_entries s)"
  let ?order = "rotate (unat (lc_clock_entry s) mod length ?entries) ?entries"
  define s1 where "s1 = s\<lparr>lc_entries := ?entries\<rparr>"
  define t where "t = s1\<lparr>lc_clock_entry := lc_clock_entry s + 1\<rparr>"
  have start: "evicts False s s1" unfolding s1_def by (rule drop_entries_evicts) auto
  then have start2: "evicts False s t" by (simp add: t_def evicts_def room_def shaped_def generations_def)
  have order: "set ?order \<subseteq> generations t" by (simp add: t_def s1_def generations_def)
  obtain d1 s2 where p1: "evict_pass (ev_first answers) ?order t = (d1, s2)" by fastforce
  obtain d2 s3 where p2: "evict_pass (ev_second answers) ?order s2 = (d2, s3)" by fastforce
  obtain d3 s4 where p3: "reclaim_pass (ev_reclaim answers) ?order s3 = (d3, s4)" by fastforce
  have f1: "evicts d1 s s2" "set ?order \<subseteq> generations s2"
    using evict_pass_evicts [of ?order t "ev_first answers"] evicts_trans [OF start2] order by (simp_all add: p1)
  have f2: "evicts d2 s s3" if "\<not> d1"
    using evict_pass_evicts [OF f1(2), of "ev_second answers"] evicts_trans [of s s2] f1(1) that by (simp add: p2)
  have f3: "evicts d3 s s4" if "\<not> d1" "\<not> d2"
    using reclaim_pass_evicts [of "ev_reclaim answers" ?order s3] evicts_trans [of s s3] f2 that by (simp add: p3)
  have cold: "evicts (fst (evict_cold answers u)) s (snd (evict_cold answers u))" if "evicts False s u" for u
    using evicts_trans [OF that evict_cold_evicts] .
  have step: "evict_one answers s = (if unlimited (lc_config s) then (False, s) else if ?entries = [] then evict_cold answers s1
      else if d1 then (True, s2) else if d2 then (True, s3) else if d3 then (True, s4) else evict_cold answers s4)"
    unfolding evict_one_def Let_def s1_def [symmetric] t_def [symmetric] by (simp only: p1 p2 p3 prod.case)
  consider "evict_one answers s = (False, s)" | "evict_one answers s = evict_cold answers s1"
    | "d1" "evict_one answers s = (True, s2)" | "\<not> d1" "d2" "evict_one answers s = (True, s3)"
    | "\<not> d1" "\<not> d2" "d3" "evict_one answers s = (True, s4)"
    | "\<not> d1" "\<not> d2" "\<not> d3" "evict_one answers s = evict_cold answers s4"
    using step by presburger
  then show ?thesis
  proof cases
    case 2
    then show ?thesis using cold [OF start] by simp
  next
    case 6
    then show ?thesis using cold [of s4] f3 by simp
  qed (use f1 f2 f3 in \<open>auto simp: evicts_def\<close>)
qed

lemma evict_one_frees: "only_frees s (snd (evict_one answers s))"
  using evict_one_evicts [of answers s] by (simp add: evicts_def)

lemma try_reserve_spec:
  assumes "try_reserve_capacity answer n s = (r, s')"
  shows "if r = Inr True
    then s' = s\<lparr>lc_pending := lc_pending s'\<rparr> \<and>
      (unlimited (lc_config s) \<longrightarrow> lc_pending s + n \<le> UINT64_MAX \<longrightarrow> lc_pending s' = lc_pending s + n) \<and>
      (\<not> unlimited (lc_config s) \<longrightarrow> lc_pending s' = lc_pending s + n \<and>
        (maximum_bytes (lc_config s) \<noteq> 0 \<longrightarrow> allocated_bytes s + lc_pending s' \<le> maximum_bytes (lc_config s)) \<and>
        (\<exists>fs. answer = Inr fs \<and> floor_of (lc_config s) fs + lc_pending s' \<le> f_bavail fs * fs_unit fs))
    else s' = s"
proof (cases answer)
  case (Inl e)
  then show ?thesis using assms by (auto simp: try_reserve_capacity_def split: if_splits)
next
  case (Inr fs)
  let ?available = "min UINT64_MAX (f_bavail fs * fs_unit fs)" and ?floor = "floor_of (lc_config s) fs"
  have wide: "?floor + (lc_pending s + n) \<le> f_bavail fs * fs_unit fs"
    if "?floor \<le> ?available" "lc_pending s \<le> ?available - ?floor" "n \<le> ?available - ?floor - lc_pending s"
    using that by linarith
  show ?thesis
    using assms wide unfolding Inr by (auto simp: try_reserve_capacity_def Let_def split: if_splits)
qed

lemma reserve_capacity_spec:
  assumes "reserve_capacity n turns s = Some (r, s')"
  shows "\<exists>s1. only_frees s s1 \<and> (if r = Inr True then \<exists>fs. try_reserve_capacity fs n s1 = (Inr True, s') else s' = s1)"
  using assms
proof (induction n turns s rule: reserve_capacity.induct)
  case (2 n fs answers turns s)
  obtain q s1 where tr: "try_reserve_capacity fs n s = (q, s1)" by fastforce
  obtain again s2 where ev: "evict_one answers s = (again, s2)" by fastforce
  have fr: "only_frees s s2" using evict_one_frees [of s answers] by (simp add: ev)
  have s1: "q \<noteq> Inr True \<Longrightarrow> s1 = s" using try_reserve_spec [OF tr] by simp
  show ?case
  proof (cases "q = Inr False \<and> again")
    case True
    then have eq: "s1 = s" using s1 by simp
    have "reserve_capacity n turns s2 = Some (r, s')" using 2(2) True by (simp add: tr ev eq)
    then obtain u where u: "only_frees s2 u" "if r = Inr True then \<exists>fs. try_reserve_capacity fs n u = (Inr True, s') else s' = u"
      using 2(1) [OF tr [symmetric, unfolded eq] _ _ ev [symmetric]] True by blast
    then show ?thesis using only_frees_trans [OF fr] by blast
  next
    case False
    then consider "q = Inr True" | e where "q = Inl e" | "q = Inr False" "\<not> again"
      by (metis (full_types) sum.exhaust_sel)
    then show ?thesis
    proof cases
      case 1
      then show ?thesis using 2(2) tr only_frees_refl [of s] by (auto intro!: exI [of _ s])
    next
      case 2
      then show ?thesis using "2.prems" s1 tr by (auto intro!: exI [of _ s])
    next
      case 3
      then show ?thesis using 2(2) s1 fr tr ev by (auto intro!: exI [of _ s2])
    qed
  qed
qed simp

text \<open>
  C35. Reserving space comes to an end while no other thread adds pages or generations: every turn
  that does not answer evicts clean pages of a generation, one that is open or one that the scan
  of the files has opened for it, or removes a generation, so \<open>reserve_capacity\<close> answers after
  at most as many turns as there are clean pages and generations.
\<close>

theorem reserve_capacity_returns:
  assumes "distinct (lc_entries s)"
    and "list_all (\<lambda>i. shape (lc_heap s i) \<and> e_block_size (lc_heap s i) = cfg_block_size (lc_config s))
      (lc_entries s @ lc_disk s)"
    and "(\<Sum>i\<in>set (lc_entries s @ lc_disk s). Suc (clean_pages_of (lc_heap s i))) < length turns"
  shows "\<exists>r s'. reserve_capacity n turns s = Some (r, s')"
proof -
  have "reserve_capacity n turns s \<noteq> None" if "shaped s" "room s < length turns"
    using that
  proof (induction n turns s rule: reserve_capacity.induct)
    case (2 n fs answers turns s)
    obtain r s1 where tr: "try_reserve_capacity fs n s = (r, s1)" by fastforce
    obtain again s2 where ev: "evict_one answers s1 = (again, s2)" by fastforce
    show ?case
    proof (cases "r = Inr False \<and> again")
      case True
      have s1: "s1 = s" using tr True by (auto simp: try_reserve_capacity_def Let_def split: if_splits sum.splits)
      have e: "evicts True s s2" using evict_one_evicts [of answers s] ev True by (simp add: s1)
      have "reserve_capacity n turns s2 \<noteq> None"
        using e 2(2,3) by (intro 2(1) [OF tr [symmetric] _ _ ev [symmetric]]) (auto simp: evicts_def True s1)
      then show ?thesis using True by (simp add: tr ev)
    next
      case False
      then show ?thesis by (auto simp: tr ev split: sum.split bool.split)
    qed
  qed simp
  then show ?thesis using assms by (auto simp: shaped_def room_def generations_def)
qed


section \<open>Reservations as a ledger\<close>

text \<open>
  The contract of the operations on reserved space: a reservation is granted only within the limit
  and adds its bytes, cancelling or finishing it takes the same bytes off, finishing charges at
  most what the file system allocated, and making room charges nothing. The client keeps a ledger
  of the outstanding reservations and of the bytes that were allocated beyond what was reserved.
\<close>

locale reservations =
  fixes pending :: "'s \<Rightarrow> nat"
    and charged :: "'s \<Rightarrow> nat"
    and limit :: "'s \<Rightarrow> nat"
    and reserve :: "nat \<Rightarrow> 's \<Rightarrow> 's \<Rightarrow> bool"
    and cancel :: "nat \<Rightarrow> 's \<Rightarrow> 's"
    and finish :: "nat \<Rightarrow> nat \<Rightarrow> 's \<Rightarrow> 's"
    and makes_room :: "'s \<Rightarrow> 's \<Rightarrow> bool"
  assumes reserve: "reserve n s s' \<Longrightarrow>
      pending s' = pending s + n \<and> charged s' = charged s \<and> limit s' = limit s \<and> pending s' + charged s' \<le> limit s'"
    and cancel: "n \<le> pending s \<Longrightarrow>
      pending (cancel n s) = pending s - n \<and> charged (cancel n s) = charged s \<and> limit (cancel n s) = limit s"
    and finish: "n \<le> pending s \<Longrightarrow>
      pending (finish n a s) = pending s - n \<and> charged (finish n a s) \<le> charged s + a \<and> limit (finish n a s) = limit s"
    and makes_room: "makes_room s s' \<Longrightarrow> pending s' = pending s \<and> charged s' \<le> charged s \<and> limit s' = limit s"
begin

definition balanced :: "nat \<Rightarrow> 's \<Rightarrow> nat list \<Rightarrow> nat \<Rightarrow> bool" where
  "balanced first s rs excess \<longleftrightarrow> pending s = sum_list rs \<and> pending s + charged s \<le> max (limit s) first + excess"

lemma ledger_remove: "n \<in> set rs \<Longrightarrow> sum_list rs = n + sum_list (remove1 n rs)"
  for rs :: "nat list"
  using sum_list_map_remove1 [of n rs id] by simp

lemma in_ledger: "balanced first s rs x \<Longrightarrow> n \<in> set rs \<Longrightarrow> n \<le> pending s"
  using member_le_sum_list [of n rs] by (simp add: balanced_def)

lemma balanced_reserve: "balanced first s rs x \<Longrightarrow> reserve n s s' \<Longrightarrow> balanced first s' (n # rs) x"
  using reserve [of n s s'] by (auto simp: balanced_def)

lemma balanced_cancel:
  assumes "balanced first s rs x" "n \<in> set rs"
  shows "balanced first (cancel n s) (remove1 n rs) x"
  using assms(1) cancel [OF in_ledger [OF assms]] ledger_remove [OF assms(2)] by (auto simp: balanced_def)

lemma balanced_finish:
  assumes "balanced first s rs x" "n \<in> set rs"
  shows "balanced first (finish n a s) (remove1 n rs) (x + (a - n))"
  using assms(1) finish [OF in_ledger [OF assms], of a] ledger_remove [OF assms(2)] in_ledger [OF assms]
  by (auto simp: balanced_def)

lemma balanced_room: "balanced first s rs x \<Longrightarrow> makes_room s s' \<Longrightarrow> balanced first s' rs x"
  using makes_room [of s s'] by (auto simp: balanced_def)

end


definition grants :: "nat \<Rightarrow> LocalCache \<Rightarrow> LocalCache \<Rightarrow> bool" where
  "grants n s s' \<longleftrightarrow> \<not> unlimited (lc_config s) \<and> maximum_bytes (lc_config s) \<noteq> 0 \<and>
     (\<exists>answer. try_reserve_capacity answer n s = (Inr True, s'))"

interpretation space: reservations lc_pending allocated_bytes "\<lambda>s. maximum_bytes (lc_config s)" grants
  cancel_reservation finish_reservation only_frees
proof
  fix n and s s' :: LocalCache
  assume "grants n s s'"
  then obtain answer where "try_reserve_capacity answer n s = (Inr True, s')" "\<not> unlimited (lc_config s)"
    "maximum_bytes (lc_config s) \<noteq> 0" by (auto simp: grants_def)
  with try_reserve_spec [OF this(1)] show "lc_pending s' = lc_pending s + n \<and> allocated_bytes s' = allocated_bytes s \<and>
      maximum_bytes (lc_config s') = maximum_bytes (lc_config s) \<and> lc_pending s' + allocated_bytes s' \<le> maximum_bytes (lc_config s')"
    by (auto simp: allocated_bytes_def)
next
  fix n and s :: LocalCache
  assume "n \<le> lc_pending s"
  then show "lc_pending (cancel_reservation n s) = lc_pending s - n \<and> allocated_bytes (cancel_reservation n s) = allocated_bytes s \<and>
      maximum_bytes (lc_config (cancel_reservation n s)) = maximum_bytes (lc_config s)"
    by (simp add: cancel_reservation_def allocated_bytes_def)
next
  fix n a and s :: LocalCache
  assume "n \<le> lc_pending s"
  then show "lc_pending (finish_reservation n a s) = lc_pending s - n \<and>
      allocated_bytes (finish_reservation n a s) \<le> allocated_bytes s + a \<and>
      maximum_bytes (lc_config (finish_reservation n a s)) = maximum_bytes (lc_config s)"
    using allocated_add [of "min a INT64_MAX" "s\<lparr>lc_pending := lc_pending s - n\<rparr>"]
    by (auto simp: finish_reservation_def allocated_bytes_def)
next
  fix s s' :: LocalCache
  assume "only_frees s s'"
  then show "lc_pending s' = lc_pending s \<and> allocated_bytes s' \<le> allocated_bytes s \<and>
      maximum_bytes (lc_config s') = maximum_bytes (lc_config s)"
    by (simp add: only_frees_def)
qed









section \<open>Preparation of a range\<close>

lemma le_round_up: "0 < b \<Longrightarrow> n \<le> (n + b - 1) div b * b" for n b :: nat
  using dividend_less_div_times [of b "n + b - 1"] by simp

lemma prepare_plan_covers:
  assumes "prepare_plan config offset len write = Inr (start, reserve)"
    and "(if write then upload_part_size config dvd offset \<and> len \<le> upload_part_size config else cfg_block_size config dvd offset)"
  shows "start = offset \<and> offset + len \<le> start + reserve"
proof (cases "write")
  case False
  then have r: "cache_round_up len (cfg_block_size config) = Inr reserve" "start = offset"
    using assms by (auto simp: prepare_plan_def result_simps)
  then have "reserve = (len + cfg_block_size config - 1) div cfg_block_size config * cfg_block_size config" "0 < cfg_block_size config"
    by (auto simp: cache_round_up_def split: if_splits)
  then have "len \<le> reserve" by (metis le_round_up)
  then show ?thesis using r by simp
qed (use assms in \<open>auto simp: prepare_plan_def result_simps\<close>)

text \<open>
  C37. A preparation settles its reservation however it ends: whether it succeeds, is refused or
  throws, and wherever a system call fails, the reserved bytes are what they were before; only a
  success charges bytes, at most as many as the file grew by between its two \<^verbatim>\<open>fstat\<close> calls.
\<close>

theorem preparation_settles_its_reservation:
  assumes "prepare_range answers offset len write s = Some (r, s')"
    and "\<forall>start reserve. unlimited (lc_config s) \<longrightarrow> prepare_plan (lc_config s) offset len write = Inr (start, reserve) \<longrightarrow>
      lc_pending s + reserve \<le> UINT64_MAX"
  shows "lc_pending s' = lc_pending s \<and> (r \<noteq> Inr True \<longrightarrow> allocated_bytes s' \<le> allocated_bytes s) \<and>
    (len \<noteq> 0 \<and> r = Inr True \<longrightarrow> (\<exists>before after. pa_before answers = Inr before \<and> pa_after answers = Inr after \<and>
       allocated_bytes s' \<le> allocated_bytes s + (wrap64 (after * 512) - wrap64 (before * 512))))"
proof (cases "len = 0")
  case True
  then show ?thesis using assms(1) by (simp add: prepare_range_def)
next
  case len: False
  show ?thesis
  proof (cases "prepare_plan (lc_config s) offset len write")
    case (Inl e)
    then show ?thesis using assms(1) len by (auto simp: prepare_range_def)
  next
    case (Inr plan)
    obtain start reserve where plan: "plan = (start, reserve)" by fastforce
    obtain q s1 where rc: "reserve_capacity reserve (pa_turns answers) s = Some (q, s1)"
      using assms(1) len by (cases "reserve_capacity reserve (pa_turns answers) s") (auto simp: prepare_range_def Inr plan)
    note spec = reserve_capacity_spec [OF rc]
    show ?thesis
    proof (cases "q = Inr True")
      case False
      then have "s' = s1 \<and> r = q" using assms(1) len rc by (auto simp: prepare_range_def Inr plan split: sum.splits bool.splits)
      then show ?thesis using spec False by (auto simp: only_frees_def)
    next
      case True
      then obtain u fs where u: "only_frees s u" "try_reserve_capacity fs reserve u = (Inr True, s1)" using spec by auto
      then have s1: "s1 = u\<lparr>lc_pending := lc_pending s1\<rparr>" "lc_pending s1 = lc_pending s + reserve" 
        using try_reserve_spec [OF u(2)] assms(2) Inr plan u(1) by (auto simp: only_frees_def)
      have "allocated_bytes s1 = allocated_bytes u" by (subst s1(1)) (simp add: allocated_bytes_def)
      then have a: "allocated_bytes s1 \<le> allocated_bytes s" using u(1) by (simp add: only_frees_def)
      have c: "lc_pending (cancel_reservation reserve s1) = lc_pending s" "allocated_bytes (cancel_reservation reserve s1) \<le> allocated_bytes s"
        using space.cancel [of reserve s1] s1(2) a by auto
      have f: "lc_pending (finish_reservation reserve k s1) = lc_pending s" "allocated_bytes (finish_reservation reserve k s1) \<le> allocated_bytes s + k" for k
        using allocated_add [of "min k INT64_MAX" "s1\<lparr>lc_pending := lc_pending s\<rparr>"] s1(2) a
        by (auto simp: finish_reservation_def allocated_bytes_def)
      show ?thesis
        using assms(1) len rc True c f by (auto simp: prepare_range_def Inr plan Let_def split: sum.splits if_splits)
    qed
  qed
qed

text \<open>
  The two \<^verbatim>\<open>fstat\<close> calls are not one step with the allocation between them. When two threads
  prepare ranges of one file at the same time, both may see it grow by both allocations, and the
  counter, which a later run of the program starts from, is charged twice.
\<close>

lemma overlapping_preparations_are_charged_twice:
  assumes "lc_superblock s" "lc_allocated s = 0"
  shows "allocated_bytes (finish_reservation b (wrap64 (8192 * 512) - wrap64 0) (finish_reservation b (wrap64 (8192 * 512) - wrap64 0) s)) =
    2 * (8192 * 512)"
  using assms by (simp add: finish_reservation_def add_allocated_def allocated_bytes_def Let_def wrap64_def UINT64_MAX_def INT64_MAX_def)



section \<open>Kept generations\<close>

abbreviation slot_bytes :: "KeepaliveSlot list \<Rightarrow> nat" where
  "slot_bytes slots \<equiv> sum_list (map ks_base_metadata_bytes slots)"

definition keepalive_ok :: "LocalCache \<Rightarrow> bool" where
  "keepalive_ok s \<longleftrightarrow> lc_keepalive_bytes s = slot_bytes (lc_keepalive s) \<and>
     lc_keepalive_bytes s \<le> kKeepaliveBaseMetadataLimit \<and> length (lc_keepalive s) \<le> kKeepaliveEntryLimit \<and>
     distinct (map ks_entry (lc_keepalive s))"

text \<open>Releasing slots keeps some of them, in order, and takes the bytes of the others off the counter.\<close>

definition keeps_slots :: "KeepaliveSlot list \<Rightarrow> KeepaliveSlot list \<Rightarrow> bool" where
  "keeps_slots slots slots' \<longleftrightarrow> length slots' \<le> length slots \<and> set slots' \<subseteq> set slots \<and> slot_bytes slots' \<le> slot_bytes slots \<and>
     (distinct (map ks_entry slots) \<longrightarrow> distinct (map ks_entry slots'))"

lemma keeps_slots_simps [simp]: "keeps_slots slots slots" "keeps_slots slots slots' \<Longrightarrow> keeps_slots (x # slots) slots'"
  "keeps_slots slots slots' \<Longrightarrow> keeps_slots (x # slots) (x # slots')"
  by (auto simp: keeps_slots_def)

lemma release_slot_spec:
  "keeps_slots slots (fst (release_slot i slots (slot_bytes slots + k))) \<and>
   snd (release_slot i slots (slot_bytes slots + k)) = slot_bytes (fst (release_slot i slots (slot_bytes slots + k))) + k"
proof (induction slots arbitrary: k)
  case (Cons slot slots)
  from Cons.IH [of "ks_base_metadata_bytes slot + k"] show ?case by (auto simp: split_beta Let_def add.assoc add.left_commute)
qed simp

lemma release_key_slots_spec:
  "keeps_slots slots (fst (release_key_slots f slots (slot_bytes slots + k))) \<and>
   snd (release_key_slots f slots (slot_bytes slots + k)) = slot_bytes (fst (release_key_slots f slots (slot_bytes slots + k))) + k"
proof (induction slots arbitrary: k)
  case (Cons slot slots)
  from Cons.IH [of k] Cons.IH [of "ks_base_metadata_bytes slot + k"] show ?case
    by (auto simp: split_beta Let_def add.assoc add.left_commute)
qed simp

lemma make_room_spec:
  "n \<le> kKeepaliveBaseMetadataLimit \<Longrightarrow> \<exists>slots'. make_room n slots (slot_bytes slots) = (slots', slot_bytes slots') \<and> keeps_slots slots slots' \<and>
     length slots' < kKeepaliveEntryLimit \<and> slot_bytes slots' + n \<le> kKeepaliveBaseMetadataLimit"
proof (induction slots)
  case (Cons slot slots)
  then obtain slots' where ih: "make_room n slots (slot_bytes slots) = (slots', slot_bytes slots')" "keeps_slots slots slots'"
    "length slots' < kKeepaliveEntryLimit" "slot_bytes slots' + n \<le> kKeepaliveBaseMetadataLimit" by blast
  show ?case
  proof (cases "kKeepaliveEntryLimit \<le> length (slot # slots) \<or> kKeepaliveBaseMetadataLimit - n < slot_bytes (slot # slots)")
    case True
    then have "make_room n (slot # slots) (slot_bytes (slot # slots)) = (slots', slot_bytes slots')" using ih(1) by simp
    then show ?thesis using ih by auto
  next
    case False
    then show ?thesis using Cons.prems by (intro exI [of _ "slot # slots"]) (auto simp del: list.size)
  qed
qed (simp add: kKeepaliveEntryLimit_def)

lemma keepalive_release:
  assumes "keepalive_ok s"
  shows "keepalive_ok (release_keepalive_locked i s) \<and> keepalive_ok (release_key_keepalive_locked key s)"
  using assms release_slot_spec [of "lc_keepalive s" i 0]
    release_key_slots_spec [of "lc_keepalive s" "\<lambda>i. e_key (lc_heap s i) = key" 0]
  by (auto simp: keepalive_ok_def release_keepalive_locked_def release_key_keepalive_locked_def keeps_slots_def split_beta Let_def)

lemma keepalive_retain:
  assumes "keepalive_ok s"
  shows "keepalive_ok (retain_entry_locked i m r p s)"
proof (cases "kept s i \<or> kKeepaliveBaseMetadataLimit < m \<or> kKeepaliveBaseMetadataLimit - m < r \<or> kKeepaliveBaseMetadataLimit - m - r < p")
  case True
  then show ?thesis using assms by (auto simp: retain_entry_locked_def)
next
  case False
  then have "m + r + p \<le> kKeepaliveBaseMetadataLimit" by linarith
  from make_room_spec [OF this, of "lc_keepalive s"] obtain slots' where
    room: "make_room (m + r + p) (lc_keepalive s) (slot_bytes (lc_keepalive s)) = (slots', slot_bytes slots')"
    "keeps_slots (lc_keepalive s) slots'" "length slots' < kKeepaliveEntryLimit"
    "slot_bytes slots' + (m + r + p) \<le> kKeepaliveBaseMetadataLimit" by blast
  have "i \<notin> ks_entry ` set slots'" using room(2) False by (auto simp: keeps_slots_def kept_def)
  moreover have "distinct (map ks_entry slots')" "lc_keepalive_bytes s = slot_bytes (lc_keepalive s)"
    using assms room(2) by (simp_all add: keepalive_ok_def keeps_slots_def)
  ultimately show ?thesis using room False by (simp add: keepalive_ok_def retain_entry_locked_def Let_def)
qed

datatype keepalive_op = Retain nat nat nat nat | Release nat | ReleaseKey string

fun keepalive_do :: "keepalive_op \<Rightarrow> LocalCache \<Rightarrow> LocalCache" where
  "keepalive_do (Retain i m r p) s = retain_entry_locked i m r p s"
| "keepalive_do (Release i) s = release_keepalive_locked i s"
| "keepalive_do (ReleaseKey key) s = release_key_keepalive_locked key s"

text \<open>
  C38. What the cache keeps open is bounded: after any sequence of opens and releases it keeps at
  most 64 generations, each once, the counter of their metadata is the sum over them, and it is
  at most eight MiB; and a generation that is small enough is kept by the open that asks for it.
\<close>

theorem kept_generations_are_bounded:
  assumes "lc_keepalive s0 = []" "lc_keepalive_bytes s0 = 0" "s = fold keepalive_do ops s0"
  shows "length (lc_keepalive s) \<le> 64 \<and> distinct (map ks_entry (lc_keepalive s)) \<and>
    lc_keepalive_bytes s = sum_list (map ks_base_metadata_bytes (lc_keepalive s)) \<and>
    lc_keepalive_bytes s \<le> 8 * 1024 * 1024 \<and>
    (m + r + p \<le> 8 * 1024 * 1024 \<longrightarrow> kept (retain_entry_locked i m r p s) i)"
proof -
  have run: "keepalive_ok (fold keepalive_do ops t)" if "keepalive_ok t" for t
    using that
  proof (induction ops arbitrary: t)
    case (Cons a ops)
    then show ?case by (cases a) (auto simp: keepalive_retain keepalive_release)
  qed simp
  have "keepalive_ok s0" using assms(1,2) by (simp add: keepalive_ok_def)
  then have "keepalive_ok s" unfolding assms(3) by (rule run)
  moreover have "kept (retain_entry_locked i m r p s) i" if "m + r + p \<le> 8 * 1024 * 1024"
    using that by (auto simp: retain_entry_locked_def kept_def kKeepaliveBaseMetadataLimit_def Let_def split_beta)
  ultimately show ?thesis by (simp add: keepalive_ok_def kKeepaliveEntryLimit_def kKeepaliveBaseMetadataLimit_def)
qed

text \<open>A lookup that answers names a kept generation of this very object.\<close>

lemma try_open_sound:
  assumes "try_open a b c identity s = Some i"
  shows "kept s i \<and> e_key (lc_heap s i) = id_key identity \<and> \<not> e_stale (lc_heap s i) \<and> \<not> e_detached (lc_heap s i) \<and>
    cache_identity_matches (e_header (lc_heap s i)) identity kCacheBitmapUnit"
  using assms by (auto simp: try_open_def kept_def Let_def find_Some_iff split: if_splits option.splits)



section \<open>A small cache\<close>

text \<open>One open generation without pages, and a maximum of 100,000 bytes.\<close>

definition ex_cache :: LocalCache where
  "ex_cache = \<lparr>lc_config = ex_config\<lparr>maximum_bytes := 100000\<rparr>, lc_superblock = True, lc_allocated = 0, lc_pending = 0,
     lc_entries = [0], lc_heap = (\<lambda>_. ex_open), lc_disk = [0, 1], lc_users = (\<lambda>_. 1), lc_keepalive = [], lc_keepalive_bytes = 0, lc_clock_entry = 0\<rparr>"

definition ex_disk :: "nat \<Rightarrow> statvfs" where
  "ex_disk n = \<lparr>f_bsize = 4096, f_frsize = 4096, f_blocks = 1000, f_bavail = n\<rparr>"

definition ex_answers :: evict_answers where
  "ex_answers =
     (let none = (\<lambda>_. \<lparr>stat_before = None, punched = False, stat_after = None\<rparr>)
      in \<lparr>ev_first = none, ev_second = none,
          ev_reclaim = (\<lambda>_. \<lparr>rc_locked = False, rc_files_found = False, rc_same_files = False, rc_data_unlinked = False, rc_meta_unlinked = False\<rparr>),
          ev_cold = []\<rparr>)"

definition ex_cold :: cold_env where
  "ex_cold =
     (let none = \<lparr>stat_before = None, punched = False, stat_after = None\<rparr>
      in \<lparr>co_locked = True, co_opened = True, co_hole = (\<lambda>_. True), co_recovered = 0, co_referenced_bytes = 2,
          co_pin_bytes = 8, co_first = none, co_second = none,
          co_reclaim = \<lparr>rc_locked = True, rc_files_found = True, rc_same_files = True, rc_data_unlinked = True, rc_meta_unlinked = True\<rparr>\<rparr>)"

lemma ex_cache_room:
  "distinct (lc_entries ex_cache)"
  "list_all (\<lambda>i. shape (lc_heap ex_cache i) \<and> e_block_size (lc_heap ex_cache i) = cfg_block_size (lc_config ex_cache))
    (lc_entries ex_cache @ lc_disk ex_cache)"
  "(\<Sum>i\<in>set (lc_entries ex_cache @ lc_disk ex_cache). Suc (clean_pages_of (lc_heap ex_cache i))) = 2"
proof -
  have "{p. p < 2 \<and> page_state [0] p = CACHE_PAGE_CLEAN} = {}" using ex_no_page by auto
  then show "(\<Sum>i\<in>set (lc_entries ex_cache @ lc_disk ex_cache). Suc (clean_pages_of (lc_heap ex_cache i))) = 2"
    by (simp add: ex_cache_def clean_pages_of_def ex_open_eq)
qed (simp_all add: ex_cache_def shape_def ex_open_eq ex_config_def kCacheBitmapUnit_def)

theorem reserve_capacity_returns_witness:
  "\<exists>r s'. reserve_capacity 4096 (replicate 3 (Inr (ex_disk 0), ex_answers\<lparr>ev_cold := [(1, ex_cold)]\<rparr>)) ex_cache = Some (r, s')"
  by (rule reserve_capacity_returns [OF ex_cache_room(1,2)], unfold ex_cache_room(3)) simp

lemma ex_reserved: "try_reserve_capacity (Inr (ex_disk 100)) 32768 ex_cache = (Inr True, ex_cache\<lparr>lc_pending := 32768\<rparr>)"
  by (simp add: try_reserve_capacity_def ex_cache_def ex_config_def ex_disk_def fs_unit_def floor_of_def allocated_bytes_def
      UINT64_MAX_def Let_def)


definition ex_prepare :: prepare_answers where
  "ex_prepare = \<lparr>pa_turns = [(Inr (ex_disk 100), ex_answers)], pa_before = Inr 0, pa_fallocate = 0, pa_after = Inr 64\<rparr>"

lemma ex_prepared: "prepare_range ex_prepare 0 32768 False ex_cache = Some (Inr True, ex_cache\<lparr>lc_allocated := 32768\<rparr>)"
proof -
  have plan: "prepare_plan (lc_config ex_cache) 0 32768 False = Inr (0, 32768)"
    by (simp add: prepare_plan_def cache_round_up_def ex_cache_def ex_config_def UINT64_MAX_def)
  have settle: "finish_reservation 32768 32768 (ex_cache\<lparr>lc_pending := 32768\<rparr>) = ex_cache\<lparr>lc_allocated := 32768\<rparr>"
    by (simp add: finish_reservation_def add_allocated_def ex_cache_def INT64_MAX_def UINT64_MAX_def Let_def)
  show ?thesis
    by (simp add: prepare_range_def plan ex_prepare_def ex_reserved settle wrap64_def)
qed

theorem preparation_settles_its_reservation_witness:
  "lc_pending (ex_cache\<lparr>lc_allocated := 32768\<rparr>) = lc_pending ex_cache \<and> allocated_bytes (ex_cache\<lparr>lc_allocated := 32768\<rparr>) \<le> 32768"
  using preparation_settles_its_reservation [OF ex_prepared]
  by (simp add: ex_cache_def ex_config_def ex_prepare_def allocated_bytes_def wrap64_def)

theorem kept_generations_are_bounded_witness:
  "length (lc_keepalive (fold keepalive_do [Retain 0 4096 2 8, Release 0, Retain 1 4096 2 8] ex_cache)) \<le> 64"
proof -
  have "lc_keepalive ex_cache = []" "lc_keepalive_bytes ex_cache = 0" by (simp_all add: ex_cache_def)
  from kept_generations_are_bounded [OF this refl] show ?thesis by blast
qed

end
