(* ===== verification/Io_Budget.thy ===== *)
theory Io_Budget
  imports NG_Prelude "HOL-Library.AList"
begin

text \<open>
  \<open>PrefetchBudget\<close> (\<^verbatim>\<open>src/src/io.hpp\<close>, \<^verbatim>\<open>src/src/io.cpp\<close>): the memory that read-ahead of a mount may
  use, the reservations it grants and the waiters it wakes when memory is given back. Every
  operation holds the mutex of the budget, so it is one step. Sizes are natural numbers; the sums
  of the source are at most the capacity, as the invariant shows, so they do not wrap around.
\<close>

section \<open>The code\<close>

record Usage =
  usage_speculative :: nat
  usage_demand :: nat

definition no_usage :: Usage where
  "no_usage = \<lparr>usage_speculative = 0, usage_demand = 0\<rparr>"

definition usage_total :: "Usage \<Rightarrow> nat" where
  "usage_total u = usage_demand u + usage_speculative u"

definition usage_add :: "bool \<Rightarrow> nat \<Rightarrow> Usage \<Rightarrow> Usage" where
  "usage_add demand n u =
     (if demand then u\<lparr>usage_demand := usage_demand u + n\<rparr> else u\<lparr>usage_speculative := usage_speculative u + n\<rparr>)"

definition usage_sub :: "bool \<Rightarrow> nat \<Rightarrow> Usage \<Rightarrow> Usage" where
  "usage_sub demand n u =
     (if demand then u\<lparr>usage_demand := usage_demand u - n\<rparr> else u\<lparr>usage_speculative := usage_speculative u - n\<rparr>)"

text \<open>
  \<open>PrefetchBudget::State\<close>. The files are an association list, the linked waiters are named by
  numbers; \<open>bs_event\<close> says that the eventfd exists and \<open>bs_event_count\<close> is its counter.
\<close>

record BudgetState =
  bs_files :: "(nat \<times> Usage) list"
  bs_capacity :: nat
  bs_demand_reserve :: nat
  bs_page_size :: nat
  bs_used :: Usage
  bs_peak :: nat
  bs_file_peak :: nat
  bs_revision :: nat
  bs_stopped :: bool
  bs_waiters :: "nat list"
  bs_event :: bool
  bs_event_waiters :: nat
  bs_event_count :: nat

definition file_usage :: "BudgetState \<Rightarrow> nat \<Rightarrow> Usage" where
  "file_usage s file = (case map_of (bs_files s) file of None \<Rightarrow> no_usage | Some u \<Rightarrow> u)"

record Reservation =
  rv_state :: bool
  rv_file :: nat
  rv_bytes :: nat
  rv_demand :: bool

definition no_reservation :: Reservation where
  "no_reservation = \<lparr>rv_state = False, rv_file = 0, rv_bytes = 0, rv_demand = False\<rparr>"

definition PrefetchBudget :: "nat \<Rightarrow> nat \<Rightarrow> nat \<Rightarrow> BudgetState result" where
  "PrefetchBudget capacity reserve page_bytes =
     (if page_bytes = 0 \<or> reserve = 0 \<or> capacity < reserve \<or>
         capacity mod page_bytes \<noteq> 0 \<or> reserve mod page_bytes \<noteq> 0
      then Inl (InvalidArgument ''invalid prefetch memory budget'')
      else Inr \<lparr>bs_files = [], bs_capacity = capacity, bs_demand_reserve = reserve, bs_page_size = page_bytes,
        bs_used = no_usage, bs_peak = 0, bs_file_peak = 0, bs_revision = 0, bs_stopped = False,
        bs_waiters = [], bs_event = False, bs_event_waiters = 0, bs_event_count = 0\<rparr>)"

definition default_capacity :: "nat \<Rightarrow> nat \<Rightarrow> nat result" where
  "default_capacity physical_bytes page_bytes =
     (if page_bytes = 0 then Inl (InvalidArgument ''invalid page size'')
      else let limit = physical_bytes div 10
           in if UINT64_MAX < limit then Inl (OverflowError ''prefetch budget exceeds SIZE_MAX'')
              else Inr (limit - limit mod page_bytes))"

definition file_limit :: "nat \<Rightarrow> nat \<Rightarrow> nat \<Rightarrow> nat \<Rightarrow> nat result" where
  "file_limit file_size window configured page_bytes =
     (if page_bytes = 0 \<or> window = 0 \<or> window mod page_bytes \<noteq> 0 \<or> configured mod page_bytes \<noteq> 0
      then Inl (InvalidArgument ''prefetch limits must be page aligned'')
      else let maximum = UINT64_MAX - UINT64_MAX mod page_bytes;
               adaptive = (if maximum div 2 < window then maximum else window * 2);
               limit = (if configured \<noteq> 0 then configured else min file_size adaptive)
           in if maximum < limit then Inl (OverflowError ''file prefetch budget exceeds SIZE_MAX'')
              else let remainder = limit mod page_bytes
                   in Inr (limit + (if remainder = 0 then 0 else page_bytes - remainder)))"

text \<open>What is granted: the preferred size, as far as the file, the mount and the reserve allow it.\<close>

definition grantable :: "BudgetState \<Rightarrow> nat \<Rightarrow> nat \<Rightarrow> nat \<Rightarrow> bool \<Rightarrow> nat option" where
  "grantable s file limit preferred demand =
     (let used = file_usage s file;
          file_reserve = min limit (bs_demand_reserve s);
          global = usage_total (bs_used s);
          file_total = usage_total used
      in if bs_capacity s < global \<or> limit < file_total then None
         else let n = min preferred (min (bs_capacity s - global) (limit - file_total))
              in if demand then Some n
                 else let cap = bs_capacity s - bs_demand_reserve s; file_cap = limit - file_reserve
                      in if cap < usage_speculative (bs_used s) \<or> file_cap < usage_speculative used then None
                         else Some (min n (min (cap - usage_speculative (bs_used s)) (file_cap - usage_speculative used))))"

definition charge_usage :: "BudgetState \<Rightarrow> nat \<Rightarrow> bool \<Rightarrow> nat \<Rightarrow> BudgetState" where
  "charge_usage s file demand n =
     (let entry = usage_add demand n (file_usage s file);
          used = usage_add demand n (bs_used s)
      in s\<lparr>bs_files := AList.update file entry (bs_files s), bs_used := used,
           bs_peak := max (bs_peak s) (usage_total used),
           bs_file_peak := max (bs_file_peak s) (usage_total entry)\<rparr>)"

definition try_reserve :: "BudgetState \<Rightarrow> nat \<Rightarrow> nat \<Rightarrow> nat \<Rightarrow> nat \<Rightarrow> bool \<Rightarrow> (BudgetState \<times> Reservation) result" where
  "try_reserve s file limit preferred minimum demand =
     (if minimum = 0 \<or> preferred < minimum \<or> limit = 0 \<or> limit mod bs_page_size s \<noteq> 0 \<or>
         preferred mod bs_page_size s \<noteq> 0 \<or> minimum mod bs_page_size s \<noteq> 0
      then Inl (InvalidArgument ''prefetch reservation must be page aligned'')
      else if bs_stopped s then Inr (s, no_reservation)
      else case grantable s file limit preferred demand of
             None \<Rightarrow> Inr (s, no_reservation)
           | Some n \<Rightarrow>
               if n < minimum then Inr (s, no_reservation)
               else Inr (charge_usage s file demand n,
                         \<lparr>rv_state = True, rv_file = file, rv_bytes = n, rv_demand = demand\<rparr>))"

definition split_reservation :: "BudgetState \<Rightarrow> Reservation \<Rightarrow> nat \<Rightarrow> (Reservation \<times> Reservation) result" where
  "split_reservation s r n =
     (if \<not> rv_state r \<or> n = 0 \<or> rv_bytes r < n \<or> n mod bs_page_size s \<noteq> 0
      then Inl (InvalidArgument ''invalid prefetch reservation split'')
      else Inr (r\<lparr>rv_bytes := rv_bytes r - n\<rparr>, r\<lparr>rv_bytes := n\<rparr>))"

definition reservation_page_size :: "BudgetState \<Rightarrow> Reservation \<Rightarrow> nat" where
  "reservation_page_size s r = (if rv_state r then bs_page_size s else 0)"

text \<open>
  A change that waiters wait for: under the mutex the revision changes and every linked waiter is
  detached; after it is released the eventfd gets, in a second critical section, one token per
  task that waits for it (\<open>wake_event\<close>, a step of its own below), and the detached waiters are called.
\<close>

definition wake_event :: "BudgetState \<Rightarrow> BudgetState" where
  "wake_event s =
     (if \<not> bs_event s \<or> bs_event_waiters s = 0 then s
      else s\<lparr>bs_event_count := bs_event_count s + bs_event_waiters s\<rparr>)"

definition announce :: "BudgetState \<Rightarrow> BudgetState \<times> nat list" where
  "announce s = (s\<lparr>bs_revision := wrap64 (bs_revision s + 1), bs_waiters := []\<rparr>, bs_waiters s)"

definition release_usage :: "BudgetState \<Rightarrow> Reservation \<Rightarrow> BudgetState" where
  "release_usage s r =
     (let entry = usage_sub (rv_demand r) (rv_bytes r) (file_usage s (rv_file r))
      in s\<lparr>bs_files := (if usage_demand entry = 0 \<and> usage_speculative entry = 0
                        then AList.delete (rv_file r) (bs_files s)
                        else AList.update (rv_file r) entry (bs_files s)),
           bs_used := usage_sub (rv_demand r) (rv_bytes r) (bs_used s)\<rparr>)"

definition reset_reservation :: "BudgetState \<Rightarrow> Reservation \<Rightarrow> BudgetState \<times> nat list" where
  "reset_reservation s r = (if rv_bytes r = 0 then (s, []) else announce (release_usage s r))"

definition budget_begin_async_wait :: "BudgetState \<Rightarrow> nat \<Rightarrow> nat option \<Rightarrow> (BudgetState \<times> bool) result" where
  "budget_begin_async_wait s revision eventfd_error =
     (if bs_stopped s \<or> bs_revision s \<noteq> revision then Inr (s, False)
      else if \<not> bs_event s \<and> eventfd_error \<noteq> None
           then Inl (SystemError (the eventfd_error) ''prefetch budget eventfd'')
      else Inr (s\<lparr>bs_event := True, bs_event_waiters := bs_event_waiters s + 1\<rparr>, True))"

definition budget_end_async_wait :: "BudgetState \<Rightarrow> BudgetState" where
  "budget_end_async_wait s = s\<lparr>bs_event_waiters := bs_event_waiters s - 1\<rparr>"

record BudgetSnapshot =
  sn_used :: nat
  sn_capacity :: nat
  sn_peak :: nat
  sn_files :: nat
  sn_revision :: nat
  sn_stopped :: bool
  sn_file_peak :: nat

definition budget_snapshot :: "BudgetState \<Rightarrow> BudgetSnapshot" where
  "budget_snapshot s = \<lparr>sn_used = usage_total (bs_used s), sn_capacity = bs_capacity s, sn_peak = bs_peak s,
     sn_files = length (bs_files s), sn_revision = bs_revision s, sn_stopped = bs_stopped s,
     sn_file_peak = bs_file_peak s\<rparr>"

definition file_used :: "BudgetState \<Rightarrow> nat \<Rightarrow> nat" where
  "file_used s file = (case map_of (bs_files s) file of None \<Rightarrow> 0 | Some u \<Rightarrow> usage_total u)"

definition budget_subscribe :: "BudgetState \<Rightarrow> nat \<Rightarrow> nat \<Rightarrow> (BudgetState \<times> bool) result" where
  "budget_subscribe s waiter revision =
     (if waiter \<in> set (bs_waiters s) then Inl (InvalidArgument ''invalid prefetch budget waiter'')
      else if bs_stopped s \<or> bs_revision s \<noteq> revision then Inr (s, False)
      else Inr (s\<lparr>bs_waiters := waiter # bs_waiters s\<rparr>, True))"

definition budget_unsubscribe :: "BudgetState \<Rightarrow> nat \<Rightarrow> BudgetState \<times> bool" where
  "budget_unsubscribe s waiter =
     (if waiter \<in> set (bs_waiters s) then (s\<lparr>bs_waiters := remove1 waiter (bs_waiters s)\<rparr>, True) else (s, False))"

definition notify_reclaimable :: "BudgetState \<Rightarrow> BudgetState \<times> nat list" where
  "notify_reclaimable s = (if bs_stopped s then (s, []) else announce s)"

definition budget_stop :: "BudgetState \<Rightarrow> BudgetState \<times> nat list" where
  "budget_stop s = (if bs_stopped s then (s, []) else announce (s\<lparr>bs_stopped := True\<rparr>))"


text \<open>\<open>wait\<close> returns once its predicate holds.\<close>

definition budget_wait_over :: "BudgetState \<Rightarrow> nat \<Rightarrow> bool" where
  "budget_wait_over s revision \<longleftrightarrow> bs_stopped s \<or> bs_revision s \<noteq> revision"


section \<open>Limits\<close>

text \<open>Rounding up to pages, as \<open>file_limit\<close> does it.\<close>

lemma round_up_page:
  assumes "0 < (p::nat)"
  shows "p dvd n + (if n mod p = 0 then 0 else p - n mod p)"
    and "m mod p = 0 \<Longrightarrow> n \<le> m \<Longrightarrow> n + (if n mod p = 0 then 0 else p - n mod p) \<le> m"
proof -
  have r: "n mod p < p" "n = n div p * p + n mod p" using assms by simp_all
  have up: "n + (if n mod p = 0 then 0 else p - n mod p) = (if n mod p = 0 then n div p else n div p + 1) * p"
  proof (cases "n mod p = 0")
    case False
    have "n + (p - n mod p) = n div p * p + p" using r by linarith
    then show ?thesis using False by simp
  qed auto
  show "p dvd n + (if n mod p = 0 then 0 else p - n mod p)" unfolding up by simp
  assume m: "m mod p = 0" "n \<le> m"
  then obtain q where q: "m = p * q" by auto
  have "(if n mod p = 0 then n div p else n div p + 1) \<le> q"
  proof (cases "n mod p = 0")
    case True
    have "n div p \<le> m div p" using m(2) by (rule div_le_mono)
    then show ?thesis using True q assms by simp
  next
    case False
    have "n div p * p < p * q" using m(2) q r(2) False by linarith
    then have "n div p < q" by (simp add: mult.commute [of p])
    then show ?thesis using False by simp
  qed
  then show "n + (if n mod p = 0 then 0 else p - n mod p) \<le> m" unfolding up q by (simp add: mult.commute)
qed

text \<open>
  The limit of a file: with page aligned settings it is never refused, it is a whole number of
  pages, fits in \<^verbatim>\<open>size_t\<close>, and is the configured value or room for the file or for two windows.
\<close>

lemma file_limit_total:
  assumes "0 < p" "0 < window" "window mod p = 0" "configured mod p = 0" "configured \<le> UINT64_MAX"
  obtains l where "file_limit fsize window configured p = Inr l" "p dvd l" "l \<le> UINT64_MAX"
    "configured \<noteq> 0 \<Longrightarrow> l = configured"
    "configured = 0 \<Longrightarrow> min fsize (min (window * 2) (UINT64_MAX - UINT64_MAX mod p)) \<le> l"
proof -
  define M where "M = UINT64_MAX - UINT64_MAX mod p"
  define A where "A = (if M div 2 < window then M else window * 2)"
  define L where "L = (if configured \<noteq> 0 then configured else min fsize A)"
  have M: "M mod p = 0" "M \<le> UINT64_MAX" unfolding M_def by (simp_all add: minus_mod_eq_mult_div)
  have A: "A \<le> M" "min (window * 2) M \<le> A" unfolding A_def by (auto split: if_splits)
  have "configured \<le> M"
  proof -
    have "configured = configured div p * p" using assms(4) by auto
    also have "\<dots> \<le> UINT64_MAX div p * p" using assms(5) by (intro mult_right_mono div_le_mono) simp_all
    also have "\<dots> = M" unfolding M_def by (simp add: minus_mod_eq_div_mult)
    finally show ?thesis .
  qed
  then have L: "L \<le> M" unfolding L_def using A by auto
  let ?l = "L + (if L mod p = 0 then 0 else p - L mod p)"
  have "file_limit fsize window configured p = Inr ?l"
    using assms(1-4) L unfolding file_limit_def Let_def M_def [symmetric] A_def [symmetric] L_def [symmetric] by simp
  moreover have "p dvd ?l" "?l \<le> M" using round_up_page(1) [OF assms(1)] round_up_page(2) [OF assms(1) M(1) L] by blast+
  ultimately show thesis
    using that [of ?l] M(2) A(2) assms(4) unfolding M_def [symmetric] by (fastforce simp: L_def)
qed


section \<open>Accounting\<close>

text \<open>
  The budget of a mount with the reservations that exist and, for every waiter, how often it was
  linked, called back and unlinked again. The limit of a file is an argument of every reservation,
  because handles of one inode may see objects of different sizes; \<open>bw_limit\<close> keeps, for every file,
  the largest limit a reservation was asked with.
\<close>

record budget_world =
  bw_state :: BudgetState
  bw_held :: "Reservation list"
  bw_limit :: "nat \<Rightarrow> nat"
  bw_seen :: "nat \<Rightarrow> nat"
  bw_linked :: "nat list"
  bw_called :: "nat list"
  bw_unlinked :: "nat list"

inductive budget_step :: "budget_world \<Rightarrow> budget_world \<Rightarrow> bool" where
  reserve_step: "try_reserve (bw_state w) file limit preferred minimum demand = Inr (s', r) \<Longrightarrow>
    budget_step w (w\<lparr>bw_state := s', bw_held := bw_held w @ [r],
      bw_limit := (bw_limit w)(file := max (bw_limit w file) limit)\<rparr>)"
| split_step: "i < length (bw_held w) \<Longrightarrow> split_reservation (bw_state w) (bw_held w ! i) n = Inr (r1, r2) \<Longrightarrow>
    budget_step w (w\<lparr>bw_held := (bw_held w)[i := r1] @ [r2]\<rparr>)"
| reset_step: "i < length (bw_held w) \<Longrightarrow> reset_reservation (bw_state w) (bw_held w ! i) = (s', ready) \<Longrightarrow>
    budget_step w (w\<lparr>bw_state := s', bw_held := (bw_held w)[i := no_reservation], bw_called := ready @ bw_called w\<rparr>)"
| begin_step: "budget_begin_async_wait (bw_state w) revision err = Inr (s', ok) \<Longrightarrow>
    budget_step w (w\<lparr>bw_state := s'\<rparr>)"
| end_step: "budget_step w (w\<lparr>bw_state := budget_end_async_wait (bw_state w)\<rparr>)"
| subscribe_step: "budget_subscribe (bw_state w) waiter revision = Inr (s', True) \<Longrightarrow>
    budget_step w (w\<lparr>bw_state := s', bw_seen := (bw_seen w)(waiter := revision), bw_linked := waiter # bw_linked w\<rparr>)"
| unsubscribe_step: "budget_unsubscribe (bw_state w) waiter = (s', True) \<Longrightarrow>
    budget_step w (w\<lparr>bw_state := s', bw_unlinked := waiter # bw_unlinked w\<rparr>)"
| notify_step: "notify_reclaimable (bw_state w) = (s', ready) \<Longrightarrow>
    budget_step w (w\<lparr>bw_state := s', bw_called := ready @ bw_called w\<rparr>)"
| stop_step: "budget_stop (bw_state w) = (s', ready) \<Longrightarrow>
    budget_step w (w\<lparr>bw_state := s', bw_called := ready @ bw_called w\<rparr>)"
| wake_step: "budget_step w (w\<lparr>bw_state := wake_event (bw_state w)\<rparr>)"

definition new_budget_world :: "BudgetState \<Rightarrow> budget_world" where
  "new_budget_world s = \<lparr>bw_state = s, bw_held = [], bw_limit = (\<lambda>f. 0), bw_seen = (\<lambda>i. 0), bw_linked = [], bw_called = [], bw_unlinked = []\<rparr>"

inductive budget_reachable :: "nat \<Rightarrow> nat \<Rightarrow> nat \<Rightarrow> budget_world \<Rightarrow> bool"
  for capacity reserve page_bytes where
  budget_begin: "PrefetchBudget capacity reserve page_bytes = Inr s \<Longrightarrow>
    budget_reachable capacity reserve page_bytes (new_budget_world s)"
| budget_next: "budget_reachable capacity reserve page_bytes w \<Longrightarrow> budget_step w w' \<Longrightarrow>
    budget_reachable capacity reserve page_bytes w'"

text \<open>The bytes of the reservations of a kind, of one file and of all.\<close>

definition held_file :: "Reservation list \<Rightarrow> bool \<Rightarrow> nat \<Rightarrow> nat" where
  "held_file rs demand file = sum_list (map (\<lambda>r. if rv_demand r = demand \<and> rv_file r = file then rv_bytes r else 0) rs)"

definition held_all :: "Reservation list \<Rightarrow> bool \<Rightarrow> nat" where
  "held_all rs demand = sum_list (map (\<lambda>r. if rv_demand r = demand then rv_bytes r else 0) rs)"


lemma held_simps [simp]:
  "held_file [] d f = 0" "held_all [] d = 0"
  "held_file (rs @ [r]) d f = held_file rs d f + (if rv_demand r = d \<and> rv_file r = f then rv_bytes r else 0)"
  "held_all (rs @ [r]) d = held_all rs d + (if rv_demand r = d then rv_bytes r else 0)"
  by (simp_all add: held_file_def held_all_def)

lemma held_update:
  assumes "i < length rs"
  shows "held_file (rs[i := r]) d f + (if rv_demand (rs ! i) = d \<and> rv_file (rs ! i) = f then rv_bytes (rs ! i) else 0) =
      held_file rs d f + (if rv_demand r = d \<and> rv_file r = f then rv_bytes r else 0)"
    and "held_all (rs[i := r]) d + (if rv_demand (rs ! i) = d then rv_bytes (rs ! i) else 0) =
      held_all rs d + (if rv_demand r = d then rv_bytes r else 0)"
  using assms sum_list_update_nat [of i "map (\<lambda>r. if rv_demand r = d \<and> rv_file r = f then rv_bytes r else 0) rs"
      "if rv_demand r = d \<and> rv_file r = f then rv_bytes r else 0"]
    sum_list_update_nat [of i "map (\<lambda>r. if rv_demand r = d then rv_bytes r else 0) rs"
      "if rv_demand r = d then rv_bytes r else 0"]
  by (simp_all add: held_file_def held_all_def map_update)

lemma no_reservation_sel [simp]: "rv_bytes no_reservation = 0" "\<not> rv_state no_reservation"
  by (simp_all add: no_reservation_def)

lemma held_file_le: "held_file rs d f \<le> held_all rs d"
  unfolding held_file_def held_all_def by (induction rs) (auto intro: add_mono trans_le_add1)

lemma held_member:
  assumes "r \<in> set rs"
  shows "rv_bytes r \<le> held_file rs (rv_demand r) (rv_file r)" "rv_bytes r \<le> held_all rs (rv_demand r)"
  using assms unfolding held_file_def held_all_def by (auto intro!: member_le_sum_list simp: image_iff intro: exI)

lemma usage_eqI: "usage_speculative u = usage_speculative v \<Longrightarrow> usage_demand u = usage_demand v \<Longrightarrow> u = (v :: Usage)"
  by simp

definition held_usage :: "Reservation list \<Rightarrow> nat \<Rightarrow> Usage" where
  "held_usage rs f = \<lparr>usage_speculative = held_file rs False f, usage_demand = held_file rs True f\<rparr>"

definition accounts :: "BudgetState \<Rightarrow> Reservation list \<Rightarrow> bool" where
  "accounts s rs \<longleftrightarrow>
     distinct (map fst (bs_files s)) \<and> (\<forall>f. file_usage s f = held_usage rs f) \<and>
     (\<forall>x\<in>set (bs_files s). 0 < usage_total (snd x)) \<and>
     bs_used s = \<lparr>usage_speculative = held_all rs False, usage_demand = held_all rs True\<rparr>"

definition bounded :: "(nat \<Rightarrow> nat) \<Rightarrow> nat \<Rightarrow> nat \<Rightarrow> nat \<Rightarrow> BudgetState \<Rightarrow> Reservation list \<Rightarrow> bool" where
  "bounded lim capacity reserve page_bytes s rs \<longleftrightarrow>
     bs_capacity s = capacity \<and> bs_demand_reserve s = reserve \<and> bs_page_size s = page_bytes \<and>
     0 < page_bytes \<and> 0 < reserve \<and> reserve \<le> capacity \<and> page_bytes dvd capacity \<and> page_bytes dvd reserve \<and>
     held_all rs True + held_all rs False \<le> bs_peak s \<and> bs_peak s \<le> capacity \<and>
     held_all rs False \<le> capacity - reserve \<and>
     (\<forall>f. held_file rs True f + held_file rs False f \<le> lim f \<and> held_file rs False f \<le> lim f - min (lim f) reserve) \<and>
     (\<forall>r\<in>set rs. page_bytes dvd rv_bytes r \<and> (rv_bytes r \<noteq> 0 \<longrightarrow> rv_state r))"

definition wakes_inv :: "budget_world \<Rightarrow> bool" where
  "wakes_inv w \<longleftrightarrow>
     distinct (bs_waiters (bw_state w)) \<and>
     (\<forall>x\<in>set (bs_waiters (bw_state w)). bw_seen w x = bs_revision (bw_state w) \<and> \<not> bs_stopped (bw_state w)) \<and>
     (\<forall>x. count_list (bw_linked w) x = count_list (bw_called w) x + count_list (bw_unlinked w) x +
        count_list (bs_waiters (bw_state w)) x)"


lemma set_alist_update: "x \<in> set (AList.update k v al) \<Longrightarrow> x = (k, v) \<or> x \<in> set al"
  by (induction al) (auto split: if_splits)

lemma file_usage_charge:
  "file_usage (charge_usage s f d n) g = (if g = f then usage_add d n (file_usage s f) else file_usage s g)"
  by (simp add: file_usage_def charge_usage_def Let_def update_conv')

lemma file_usage_release:
  "file_usage (release_usage s r) g =
     (if g = rv_file r then usage_sub (rv_demand r) (rv_bytes r) (file_usage s (rv_file r)) else file_usage s g)"
proof -
  define u where "u = usage_sub (rv_demand r) (rv_bytes r) (file_usage s (rv_file r))"
  have "usage_demand u = 0 \<and> usage_speculative u = 0 \<Longrightarrow> u = no_usage"
    unfolding no_usage_def by (intro usage_eqI) simp_all
  then show ?thesis
    unfolding release_usage_def u_def [symmetric] Let_def
    by (auto simp: file_usage_def update_conv' delete_conv')
qed

lemma file_usage_cong: "bs_files s' = bs_files s \<Longrightarrow> file_usage s' = file_usage s"
  by (simp add: file_usage_def fun_eq_iff)

lemma charge_accounts:
  assumes "accounts s rs" "0 < n"
  shows "accounts (charge_usage s f d n) (rs @ [\<lparr>rv_state = True, rv_file = f, rv_bytes = n, rv_demand = d\<rparr>])"
proof -
  let ?u = "usage_add d n (file_usage s f)" and ?r = "\<lparr>rv_state = True, rv_file = f, rv_bytes = n, rv_demand = d\<rparr>"
  have files: "bs_files (charge_usage s f d n) = AList.update f ?u (bs_files s)"
    by (simp add: charge_usage_def Let_def)
  have "file_usage (charge_usage s f d n) g = held_usage (rs @ [?r]) g" for g
    using assms(1) by (simp add: file_usage_charge accounts_def held_usage_def usage_add_def)
  moreover have "0 < usage_total (snd x)" if "x \<in> set (bs_files (charge_usage s f d n))" for x
    using set_alist_update [OF that [unfolded files]] assms by (auto simp: accounts_def usage_total_def usage_add_def)
  moreover have "distinct (map fst (bs_files (charge_usage s f d n)))"
    unfolding files using assms(1) by (simp add: accounts_def distinct_update)
  moreover have "bs_used (charge_usage s f d n) =
      \<lparr>usage_speculative = held_all (rs @ [?r]) False, usage_demand = held_all (rs @ [?r]) True\<rparr>"
    using assms(1) by (simp add: charge_usage_def Let_def accounts_def usage_add_def)
  ultimately show ?thesis unfolding accounts_def by blast
qed

lemma release_accounts:
  assumes "accounts s rs" "i < length rs"
  shows "accounts (release_usage s (rs ! i)) (rs[i := no_reservation])"
proof -
  let ?r = "rs ! i" and ?rs = "rs[i := no_reservation]"
  let ?u = "usage_sub (rv_demand ?r) (rv_bytes ?r) (file_usage s (rv_file ?r))"
  let ?d = "usage_demand ?u = 0 \<and> usage_speculative ?u = 0"
  have files: "bs_files (release_usage s ?r) =
      (if ?d then AList.delete (rv_file ?r) (bs_files s) else AList.update (rv_file ?r) ?u (bs_files s))"
    by (simp add: release_usage_def Let_def)
  have all: "held_all ?rs k = held_all rs k - (if rv_demand ?r = k then rv_bytes ?r else 0)" for k
    using held_update(2) [OF assms(2), of no_reservation k] by (auto split: if_splits)
  have one: "held_file ?rs k f = held_file rs k f - (if rv_demand ?r = k \<and> rv_file ?r = f then rv_bytes ?r else 0)" for k f
    using held_update(1) [OF assms(2), of no_reservation k f] by (auto split: if_splits)
  have u: "?u = held_usage ?rs (rv_file ?r)"
    using assms(1) by (simp add: accounts_def held_usage_def usage_sub_def one)
  have "file_usage (release_usage s ?r) g = held_usage ?rs g" for g
    using assms(1) u by (simp add: file_usage_release accounts_def held_usage_def one)
  moreover have "0 < usage_total (snd x)" if "x \<in> set (bs_files (release_usage s ?r))" for x
  proof (cases ?d)
    case True
    then have "x \<in> set (AList.delete (rv_file ?r) (bs_files s))" using that unfolding files by (simp only: if_True simp_thms)
    then show ?thesis using assms(1) unfolding accounts_def by (auto simp: AList.delete_eq)
  next
    case False
    then have "x \<in> set (AList.update (rv_file ?r) ?u (bs_files s))" using that unfolding files by (simp only: if_False)
    then have "x = (rv_file ?r, ?u) \<or> x \<in> set (bs_files s)" by (rule set_alist_update)
    then show ?thesis using False assms(1) by (auto simp: accounts_def usage_total_def)
  qed
  moreover have "distinct (map fst (bs_files (release_usage s ?r)))"
    unfolding files using assms(1) by (simp add: accounts_def distinct_update distinct_delete)
  moreover have "bs_used (release_usage s ?r) =
      \<lparr>usage_speculative = held_all ?rs False, usage_demand = held_all ?rs True\<rparr>"
    using assms(1) by (simp add: release_usage_def Let_def accounts_def usage_sub_def all)
  ultimately show ?thesis unfolding accounts_def by blast
qed

text \<open>Operations that leave the accounts alone.\<close>

definition same_accounts :: "BudgetState \<Rightarrow> BudgetState \<Rightarrow> bool" where
  "same_accounts s s' \<longleftrightarrow> bs_files s' = bs_files s \<and> bs_used s' = bs_used s \<and> bs_capacity s' = bs_capacity s \<and>
     bs_demand_reserve s' = bs_demand_reserve s \<and> bs_page_size s' = bs_page_size s \<and> bs_peak s' = bs_peak s"

lemma same_accounts_kept:
  assumes "same_accounts s s'"
  shows "accounts s' rs = accounts s rs" "bounded lim c r p s' rs = bounded lim c r p s rs"
proof -
  have "file_usage s' = file_usage s" using assms by (intro file_usage_cong) (simp add: same_accounts_def)
  then show "accounts s' rs = accounts s rs" using assms by (simp add: same_accounts_def accounts_def)
  show "bounded lim c r p s' rs = bounded lim c r p s rs" using assms by (simp add: same_accounts_def bounded_def)
qed

lemma same_accounts_ops:
  "same_accounts s (fst (announce s))"
  "budget_begin_async_wait s revision err = Inr (s', ok) \<Longrightarrow> same_accounts s s'"
  "same_accounts s (budget_end_async_wait s)"
  "budget_subscribe s waiter revision = Inr (s', yes) \<Longrightarrow> same_accounts s s'"
  "same_accounts s (fst (budget_unsubscribe s waiter))"
  "same_accounts s (fst (notify_reclaimable s))" "same_accounts s (fst (budget_stop s))"
  "same_accounts s (wake_event s)"
  by (auto simp: same_accounts_def announce_def wake_event_def budget_begin_async_wait_def budget_end_async_wait_def
      budget_subscribe_def budget_unsubscribe_def notify_reclaimable_def budget_stop_def split: if_splits)


lemma held_dvd:
  assumes "\<forall>r\<in>set rs. p dvd rv_bytes r"
  shows "p dvd held_all rs d" "p dvd held_file rs d f"
  using assms unfolding held_all_def held_file_def by (induction rs) auto

lemma dvd_minD: "p dvd a \<Longrightarrow> p dvd b \<Longrightarrow> p dvd min a (b::nat)"
  by (simp add: min_def)

text \<open>What is granted fits: in the file, in the mount and, for speculation, beside the reserve.\<close>

lemma grantable_SomeD:
  assumes "grantable s f l preferred d = Some n"
  shows "usage_total (bs_used s) \<le> bs_capacity s" "usage_total (file_usage s f) \<le> l"
    "d \<Longrightarrow> n = min preferred (min (bs_capacity s - usage_total (bs_used s)) (l - usage_total (file_usage s f)))"
    "\<not> d \<Longrightarrow> usage_speculative (bs_used s) \<le> bs_capacity s - bs_demand_reserve s \<and>
       usage_speculative (file_usage s f) \<le> l - min l (bs_demand_reserve s) \<and>
       n = min (min preferred (min (bs_capacity s - usage_total (bs_used s)) (l - usage_total (file_usage s f))))
         (min (bs_capacity s - bs_demand_reserve s - usage_speculative (bs_used s))
           (l - min l (bs_demand_reserve s) - usage_speculative (file_usage s f)))"
  using assms by (simp_all only: grantable_def Let_def de_Morgan_disj not_less option.distinct option.inject simp_thms split: if_split_asm)

lemma min_parts:
  "min a (min b c) \<le> a" "min a (min b c) \<le> b" "min a (min b c) \<le> (c::nat)"
  "min (min a (min b c)) (min e g) \<le> a" "min (min a (min b c)) (min e g) \<le> b" "min (min a (min b c)) (min e g) \<le> c"
  "min (min a (min b c)) (min e g) \<le> e" "min (min a (min b c)) (min e g) \<le> g"
  by (simp_all only: min.coboundedI1 min.coboundedI2 min.cobounded1 min.cobounded2 order.refl)

lemma grantable_bounds:
  assumes "grantable s f l preferred d = Some n"
  shows "n \<le> preferred" "usage_total (bs_used s) + n \<le> bs_capacity s" "usage_total (file_usage s f) + n \<le> l"
    "\<not> d \<Longrightarrow> usage_speculative (bs_used s) + n \<le> bs_capacity s - bs_demand_reserve s"
    "\<not> d \<Longrightarrow> usage_speculative (file_usage s f) + n \<le> l - min l (bs_demand_reserve s)"
proof -
  note g = grantable_SomeD [OF assms]
  have n: "n \<le> preferred" "n \<le> bs_capacity s - usage_total (bs_used s)" "n \<le> l - usage_total (file_usage s f)"
  proof (atomize (full), cases d)
    case True
    show "n \<le> preferred \<and> n \<le> bs_capacity s - usage_total (bs_used s) \<and> n \<le> l - usage_total (file_usage s f)"
      unfolding g(3) [OF True] by (intro conjI min_parts)
  next
    case False
    show "n \<le> preferred \<and> n \<le> bs_capacity s - usage_total (bs_used s) \<and> n \<le> l - usage_total (file_usage s f)"
      unfolding g(4) [OF False, THEN conjunct2, THEN conjunct2] by (intro conjI min_parts)
  qed
  show "n \<le> preferred" "usage_total (bs_used s) + n \<le> bs_capacity s" "usage_total (file_usage s f) + n \<le> l"
    using n g(1,2) by linarith+
  assume d: "\<not> d"
  have "n \<le> bs_capacity s - bs_demand_reserve s - usage_speculative (bs_used s)"
    "n \<le> l - min l (bs_demand_reserve s) - usage_speculative (file_usage s f)"
    unfolding g(4) [OF d, THEN conjunct2, THEN conjunct2] by (rule min_parts)+
  then show "usage_speculative (bs_used s) + n \<le> bs_capacity s - bs_demand_reserve s"
    "usage_speculative (file_usage s f) + n \<le> l - min l (bs_demand_reserve s)"
    using g(4) [OF d, THEN conjunct1] g(4) [OF d, THEN conjunct2, THEN conjunct1] by linarith+
qed

lemma grantable_dvd:
  assumes "grantable s f l preferred d = Some n" "p dvd preferred" "p dvd bs_capacity s" "p dvd bs_demand_reserve s" "p dvd l"
    "p dvd usage_total (bs_used s)" "p dvd usage_total (file_usage s f)"
    "p dvd usage_speculative (bs_used s)" "p dvd usage_speculative (file_usage s f)"
  shows "p dvd n"
proof (cases d)
  case True
  show ?thesis unfolding grantable_SomeD(3) [OF assms(1) True] using assms(2-) by (intro dvd_minD dvd_diff_nat)
next
  case False
  note n = grantable_SomeD(4) [OF assms(1) False, THEN conjunct2, THEN conjunct2]
  show ?thesis unfolding n using assms(2-) by (intro dvd_minD dvd_diff_nat)
qed

lemma reserve_result:
  assumes "try_reserve s f l preferred minimum d = Inr (s', r)"
  obtains (refused) "s' = s" "r = no_reservation"
  | (granted) n where "grantable s f l preferred d = Some n" "minimum \<le> n" "0 < n" "s' = charge_usage s f d n"
      "r = \<lparr>rv_state = True, rv_file = f, rv_bytes = n, rv_demand = d\<rparr>"
      "bs_page_size s dvd l" "bs_page_size s dvd preferred"
proof -
  have ok: "0 < minimum" "bs_page_size s dvd l" "bs_page_size s dvd preferred"
    using assms by (simp_all only: try_reserve_def dvd_eq_mod_eq_0 sum.distinct split: if_split_asm) simp_all
  show thesis
  proof (cases "r = no_reservation \<and> s' = s")
    case True
    then show thesis using refused by blast
  next
    case False
    then obtain n where n: "grantable s f l preferred d = Some n" "minimum \<le> n" "s' = charge_usage s f d n"
        "r = \<lparr>rv_state = True, rv_file = f, rv_bytes = n, rv_demand = d\<rparr>"
      using assms unfolding try_reserve_def by (cases "grantable s f l preferred d") (simp_all split: if_split_asm)
    then show thesis using granted ok by simp
  qed
qed

lemma bounded_mono:
  assumes "bounded lim c res p s rs" "\<And>f. lim f \<le> lim' f"
  shows "bounded lim' c res p s rs"
proof -
  have "held_file rs True f + held_file rs False f \<le> lim' f \<and> held_file rs False f \<le> lim' f - min (lim' f) res" for f
  proof -
    have "held_file rs True f + held_file rs False f \<le> lim f" "held_file rs False f \<le> lim f - min (lim f) res"
      using assms(1) by (simp_all add: bounded_def)
    then show ?thesis using assms(2) [of f] by (auto simp: min_def split: if_splits)
  qed
  then show ?thesis using assms(1) unfolding bounded_def by blast
qed

lemma charge_bounded:
  assumes "accounts s rs" "bounded lim c res p s rs" "grantable s f l preferred d = Some n" "0 < n"
    "p dvd l" "p dvd preferred" "l \<le> lim f"
  shows "bounded lim c res p (charge_usage s f d n) (rs @ [\<lparr>rv_state = True, rv_file = f, rv_bytes = n, rv_demand = d\<rparr>])"
proof -
  have b: "bs_capacity s = c" "bs_demand_reserve s = res" "p dvd c" "p dvd res" "\<forall>r\<in>set rs. p dvd rv_bytes r"
    using assms(2) by (auto simp: bounded_def)
  have u: "bs_used s = \<lparr>usage_speculative = held_all rs False, usage_demand = held_all rs True\<rparr>"
    "file_usage s f = held_usage rs f" using assms(1) by (simp_all add: accounts_def)
  note g = grantable_bounds [OF assms(3), unfolded u b usage_total_def held_usage_def, simplified]
  have "p dvd n"
    using grantable_dvd [OF assms(3,6)] b assms(5) held_dvd [OF b(5)]
    by (simp add: u usage_total_def held_usage_def)
  moreover have "held_all rs d + n + held_all rs (\<not> d) \<le> c" using g(2) by (cases d) simp_all
  moreover have "held_file rs False f + held_file rs True f + n \<le> lim f" using g assms(7) by linarith
  moreover have "l - min l res \<le> lim f - min (lim f) res" using assms(7) by (auto simp: min_def)
  then have "\<not> d \<Longrightarrow> held_file rs False f + n \<le> lim f - min (lim f) res" using g by fastforce
  ultimately show ?thesis
    using assms(2) g unfolding bounded_def charge_usage_def Let_def
    by (cases d) (auto simp: u usage_total_def usage_add_def)
qed

lemma release_bounded:
  assumes "bounded lim c res p s rs" "i < length rs"
  shows "bounded lim c res p (release_usage s (rs ! i)) (rs[i := no_reservation])"
proof -
  have all: "held_all (rs[i := no_reservation]) k \<le> held_all rs k" for k
    using held_update(2) [OF assms(2), of no_reservation k] by (auto split: if_splits)
  have one: "held_file (rs[i := no_reservation]) k f \<le> held_file rs k f" for k f
    using held_update(1) [OF assms(2), of no_reservation k f] by (auto split: if_splits)
  have "p dvd rv_bytes r \<and> (rv_bytes r \<noteq> 0 \<longrightarrow> rv_state r)" if "r \<in> set (rs[i := no_reservation])" for r
    using set_update_subset_insert [of rs i no_reservation] that assms(1) by (auto simp: bounded_def)
  moreover have "held_file (rs[i := no_reservation]) True f + held_file (rs[i := no_reservation]) False f \<le> lim f \<and>
      held_file (rs[i := no_reservation]) False f \<le> lim f - min (lim f) res" for f
    using assms(1) one [of True f] one [of False f] unfolding bounded_def by (meson add_mono le_trans)
  moreover have "held_all (rs[i := no_reservation]) True + held_all (rs[i := no_reservation]) False \<le> bs_peak s"
      "held_all (rs[i := no_reservation]) False \<le> c - res"
    using assms(1) all [of True] all [of False] unfolding bounded_def by linarith+
  ultimately show ?thesis using assms(1) unfolding bounded_def by (simp add: release_usage_def Let_def)
qed

lemma split_kept:
  assumes "i < length rs" "split_reservation s (rs ! i) n = Inr (r1, r2)"
  shows "held_all (rs[i := r1] @ [r2]) d = held_all rs d" "held_file (rs[i := r1] @ [r2]) d f = held_file rs d f"
proof -
  let ?r = "rs ! i"
  have r: "rv_demand r1 = rv_demand ?r" "rv_file r1 = rv_file ?r" "rv_bytes r1 = rv_bytes ?r - n" "n \<le> rv_bytes ?r"
    "rv_demand r2 = rv_demand ?r" "rv_file r2 = rv_file ?r" "rv_bytes r2 = n"
    using assms(2) by (auto simp: split_reservation_def split: if_splits)
  show "held_all (rs[i := r1] @ [r2]) d = held_all rs d"
    using held_update(2) [OF assms(1), of r1 d] r by (cases "rv_demand ?r = d") simp_all
  show "held_file (rs[i := r1] @ [r2]) d f = held_file rs d f"
    using held_update(1) [OF assms(1), of r1 d f] r by (cases "rv_demand ?r = d \<and> rv_file ?r = f") auto
qed


lemma split_accounts:
  assumes "accounts s rs" "bounded lim c res p s rs" "i < length rs" "split_reservation s (rs ! i) n = Inr (r1, r2)"
  shows "accounts s (rs[i := r1] @ [r2])" "bounded lim c res p s (rs[i := r1] @ [r2])"
proof -
  show "accounts s (rs[i := r1] @ [r2])"
    using assms(1) unfolding accounts_def held_usage_def split_kept [OF assms(3,4)] .
  have page: "bs_page_size s = p" and old: "\<forall>r\<in>set rs. p dvd rv_bytes r \<and> (rv_bytes r \<noteq> 0 \<longrightarrow> rv_state r)"
    using assms(2) by (simp_all add: bounded_def)
  have r: "r1 = (rs ! i)\<lparr>rv_bytes := rv_bytes (rs ! i) - n\<rparr>" "r2 = (rs ! i)\<lparr>rv_bytes := n\<rparr>" "rv_state (rs ! i)" "p dvd n"
    using assms(4) unfolding split_reservation_def page by (auto split: if_splits)
  have "p dvd rv_bytes (rs ! i)" using old nth_mem [OF assms(3)] by blast
  then have new: "p dvd rv_bytes r1" "p dvd rv_bytes r2" "rv_state r1" "rv_state r2" using r by (simp_all add: dvd_diff_nat)
  have "p dvd rv_bytes x \<and> (rv_bytes x \<noteq> 0 \<longrightarrow> rv_state x)" if "x \<in> set (rs[i := r1] @ [r2])" for x
    using that set_update_subset_insert [of rs i r1] old new by auto
  then show "bounded lim c res p s (rs[i := r1] @ [r2])"
    using assms(2) unfolding bounded_def split_kept [OF assms(3,4)] by blast
qed

definition budget_inv :: "nat \<Rightarrow> nat \<Rightarrow> nat \<Rightarrow> budget_world \<Rightarrow> bool" where
  "budget_inv c res p w \<longleftrightarrow>
     accounts (bw_state w) (bw_held w) \<and> bounded (bw_limit w) c res p (bw_state w) (bw_held w)"

lemma empty_accounts:
  assumes "accounts s rs" "bounded lim c res p s rs"
  shows "accounts s (rs @ [no_reservation])" "bounded lim c res p s (rs @ [no_reservation])"
  using assms by (simp_all add: accounts_def bounded_def held_usage_def)

lemma empty_reset:
  assumes "i < length rs" "rv_bytes (rs ! i) = 0"
  shows "held_all (rs[i := no_reservation]) d = held_all rs d" "held_file (rs[i := no_reservation]) d f = held_file rs d f"
  using held_update(2) [OF assms(1), of no_reservation d] held_update(1) [OF assms(1), of no_reservation d f] assms(2)
  by (simp_all split: if_splits)

lemma budget_inv_step:
  assumes "budget_step w w'" "budget_inv c res p w"
  shows "budget_inv c res p w'"
proof -
  have inv: "accounts (bw_state w) (bw_held w)" "bounded (bw_limit w) c res p (bw_state w) (bw_held w)"
    using assms(2) by (simp_all add: budget_inv_def)
  from assms(1) show ?thesis
proof cases
  case (reserve_step fl limit preferred minimum demand s' r)
  let ?lim = "(bw_limit w)(fl := max (bw_limit w fl) limit)"
  have page: "bs_page_size (bw_state w) = p" using inv(2) by (simp add: bounded_def)
  have wider: "bounded ?lim c res p (bw_state w) (bw_held w)" by (rule bounded_mono [OF inv(2)]) simp
  from reserve_step(2) show ?thesis
  proof (cases rule: reserve_result)
    case refused
    then show ?thesis using empty_accounts [OF inv(1) wider] reserve_step(1) by (simp add: budget_inv_def)
  next
    case (granted n)
    then show ?thesis
      using charge_accounts [OF inv(1) granted(3)] charge_bounded [OF inv(1) wider granted(1,3)] reserve_step(1) page
      by (simp add: budget_inv_def)
  qed
next
  case (split_step i n r1 r2)
  then show ?thesis using split_accounts [OF inv split_step(2,3)] by (simp add: budget_inv_def)
next
  case (reset_step i s' ready)
  show ?thesis
  proof (cases "rv_bytes (bw_held w ! i) = 0")
    case True
    have old: "p dvd rv_bytes r \<and> (rv_bytes r \<noteq> 0 \<longrightarrow> rv_state r)" if "r \<in> set (bw_held w)" for r
      using that inv(2) by (simp add: bounded_def)
    have "p dvd rv_bytes x \<and> (rv_bytes x \<noteq> 0 \<longrightarrow> rv_state x)" if "x \<in> set ((bw_held w)[i := no_reservation])" for x
      using that set_update_subset_insert [of "bw_held w" i no_reservation] old by auto
    then have "bounded (bw_limit w) c res p (bw_state w) ((bw_held w)[i := no_reservation])"
      using inv(2) unfolding bounded_def empty_reset [OF reset_step(2) True] by blast
    moreover have "accounts (bw_state w) ((bw_held w)[i := no_reservation])"
      using inv(1) unfolding accounts_def held_usage_def empty_reset [OF reset_step(2) True] .
    ultimately show ?thesis using reset_step True by (simp add: budget_inv_def reset_reservation_def)
  next
    case False
    then have "s' = fst (announce (release_usage (bw_state w) (bw_held w ! i)))"
      using reset_step(3) by (simp add: reset_reservation_def split: prod.splits)
    then show ?thesis
      using assms(2) reset_step(1) release_accounts [OF _ reset_step(2)] release_bounded [OF _ reset_step(2)]
      by (simp add: budget_inv_def same_accounts_kept [OF same_accounts_ops(1)])
  qed
next
  case (begin_step revision err s' ok)
  then show ?thesis using assms(2) same_accounts_kept [OF same_accounts_ops(2)] by (simp add: budget_inv_def)
next
  case end_step
  then show ?thesis using assms(2) by (simp add: budget_inv_def same_accounts_kept [OF same_accounts_ops(3)])
next
  case (subscribe_step waiter revision s')
  then show ?thesis using assms(2) same_accounts_kept [OF same_accounts_ops(4)] by (simp add: budget_inv_def)
next
  case (unsubscribe_step waiter s')
  then show ?thesis using assms(2) same_accounts_kept [OF same_accounts_ops(5) [of "bw_state w" waiter]]
    by (simp add: budget_inv_def)
next
  case (notify_step s' ready)
  then show ?thesis using assms(2) same_accounts_kept [OF same_accounts_ops(6) [of "bw_state w"]]
    by (simp add: budget_inv_def)
next
  case (stop_step s' ready)
  then show ?thesis using assms(2) same_accounts_kept [OF same_accounts_ops(7) [of "bw_state w"]]
    by (simp add: budget_inv_def)
next
  case wake_step
  then show ?thesis using assms(2) by (simp add: budget_inv_def same_accounts_kept [OF same_accounts_ops(8)])
qed
qed


lemma announce_wakes:
  assumes "wakes_inv w" "announce s = (s', ready)" "bs_waiters s = bs_waiters (bw_state w)" "bw_linked w' = bw_linked w"
    "bw_state w' = s'" "bw_called w' = ready @ bw_called w" "bw_unlinked w' = bw_unlinked w"
  shows "wakes_inv w'"
proof -
  have "ready = bs_waiters (bw_state w)" "bs_waiters s' = []"
    using assms(2,3) by (auto simp: announce_def wake_event_def split: if_splits)
  then show ?thesis using assms(1,4-) by (simp add: wakes_inv_def)
qed

lemma wakes_frame:
  assumes "wakes_inv w" "bs_waiters (bw_state w') = bs_waiters (bw_state w)" "bs_revision (bw_state w') = bs_revision (bw_state w)"
    "bs_stopped (bw_state w') = bs_stopped (bw_state w)" "bw_seen w' = bw_seen w" "bw_linked w' = bw_linked w"
    "bw_called w' = bw_called w" "bw_unlinked w' = bw_unlinked w"
  shows "wakes_inv w'"
  using assms by (simp add: wakes_inv_def)

lemma wakes_inv_step:
  assumes "budget_step w w'" "wakes_inv w"
  shows "wakes_inv w'"
  using assms(1)
proof cases
  case (reserve_step fl preferred minimum demand s' r)
  from reserve_step(2) show ?thesis
    by (cases rule: reserve_result; intro wakes_frame [OF assms(2)]; simp add: reserve_step(1) charge_usage_def Let_def)
next
  case (split_step i n r1 r2)
  then show ?thesis by (intro wakes_frame [OF assms(2)]) simp_all
next
  case (reset_step i s' ready)
  show ?thesis
  proof (cases "rv_bytes (bw_held w ! i) = 0")
    case True
    then show ?thesis
      using reset_step by (intro wakes_frame [OF assms(2)]) (simp_all add: reset_reservation_def)
  next
    case False
    then have "announce (release_usage (bw_state w) (bw_held w ! i)) = (s', ready)"
      using reset_step(3) by (simp add: reset_reservation_def)
    then show ?thesis
      by (rule announce_wakes [OF assms(2)]) (simp_all add: reset_step(1) release_usage_def Let_def)
  qed
next
  case (begin_step revision err s' ok)
  then show ?thesis
    by (intro wakes_frame [OF assms(2)]) (auto simp: budget_begin_async_wait_def split: if_splits)
next
  case end_step
  then show ?thesis by (intro wakes_frame [OF assms(2)]) (simp_all add: budget_end_async_wait_def)
next
  case (subscribe_step waiter revision s')
  then show ?thesis using assms(2) by (auto simp: wakes_inv_def budget_subscribe_def split: if_splits)
next
  case (unsubscribe_step waiter s')
  then have s': "waiter \<in> set (bs_waiters (bw_state w))"
    "s' = (bw_state w)\<lparr>bs_waiters := remove1 waiter (bs_waiters (bw_state w))\<rparr>"
    by (auto simp: budget_unsubscribe_def split: if_splits)
  have "count_list (remove1 waiter xs) x + (if x = waiter then 1 else 0) = count_list xs x" if "waiter \<in> set xs" for xs x
    using that by (induction xs) auto
  note cnt = this [OF s'(1)]
  have "count_list (bw_linked w) x = count_list (bw_called w) x + count_list (waiter # bw_unlinked w) x +
      count_list (remove1 waiter (bs_waiters (bw_state w))) x" for x
    using cnt [of x] assms(2) by (cases "x = waiter") (auto simp: wakes_inv_def)
  moreover have "bw_seen w x = bs_revision (bw_state w) \<and> \<not> bs_stopped (bw_state w)"
    if "x \<in> set (remove1 waiter (bs_waiters (bw_state w)))" for x
    using that assms(2) notin_set_remove1 [of x] unfolding wakes_inv_def by blast
  moreover have "distinct (remove1 waiter (bs_waiters (bw_state w)))"
    using assms(2) by (simp add: wakes_inv_def distinct_remove1)
  ultimately show ?thesis using unsubscribe_step(1) s'(2) by (simp add: wakes_inv_def)
next
  case (notify_step s' ready)
  show ?thesis
  proof (cases "bs_stopped (bw_state w)")
    case True
    then show ?thesis using notify_step by (intro wakes_frame [OF assms(2)]) (simp_all add: notify_reclaimable_def)
  next
    case False
    then show ?thesis
      using notify_step by (intro announce_wakes [OF assms(2), of "bw_state w"]) (simp_all add: notify_reclaimable_def)
  qed
next
  case (stop_step s' ready)
  show ?thesis
  proof (cases "bs_stopped (bw_state w)")
    case True
    then show ?thesis using stop_step by (intro wakes_frame [OF assms(2)]) (simp_all add: budget_stop_def)
  next
    case False
    then show ?thesis
      using stop_step by (intro announce_wakes [OF assms(2), of "(bw_state w)\<lparr>bs_stopped := True\<rparr>"]) (simp_all add: budget_stop_def)
  qed
next
  case wake_step
  then show ?thesis by (intro wakes_frame [OF assms(2)]) (simp_all add: wake_event_def)
qed

lemma budget_reachable_inv:
  assumes "budget_reachable c res p w"
  shows "budget_inv c res p w" "wakes_inv w"
proof -
  have "budget_inv c res p w \<and> wakes_inv w"
    using assms
  proof (induction rule: budget_reachable.induct)
    case (budget_begin s)
    then show ?case
      by (auto simp: PrefetchBudget_def new_budget_world_def budget_inv_def wakes_inv_def accounts_def bounded_def
          held_usage_def file_usage_def no_usage_def split: if_splits)
  next
    case (budget_next w w')
    then show ?case using budget_inv_step wakes_inv_step by blast
  qed
  then show "budget_inv c res p w" "wakes_inv w" by simp_all
qed


section \<open>Properties\<close>

lemma count_distinct: "distinct xs \<Longrightarrow> count_list xs x = (if x \<in> set xs then 1 else 0)"
  by (induction xs) auto

lemma reserve_within_limit:
  assumes "accounts s rs" "try_reserve s f limit preferred minimum d = Inr (s', r)" "rv_bytes r \<noteq> 0"
  shows "held_file rs True f + held_file rs False f + rv_bytes r \<le> limit \<and>
    (\<not> d \<longrightarrow> held_file rs False f + rv_bytes r \<le> limit - min limit (bs_demand_reserve s))"
  using assms(2)
proof (cases rule: reserve_result)
  case (granted n)
  have u: "file_usage s f = held_usage rs f" using assms(1) by (simp add: accounts_def)
  show ?thesis
    using grantable_bounds [OF granted(1)] granted(5) by (simp add: u usage_total_def held_usage_def add.commute)
qed (use assms(3) in simp)

text \<open>
  C29. The memory of read-ahead is bounded and accounted: after any sequence of reservations, splits
  and releases, what is held is at most the capacity and speculation leaves the reserve of demand
  reads free. The limit of a file is an argument of every reservation: what is granted fits, with
  what the file holds, into the limit of that very call, and speculation leaves the file's reserve
  below that limit free; so a file never holds more than the largest limit it was asked with. The
  counters of the mount and of every file are the sums of the reservations that exist, and a
  release never subtracts more than was charged.
\<close>

theorem budget_is_never_exceeded:
  assumes "budget_reachable capacity reserve page_bytes w"
  shows "held_all (bw_held w) True + held_all (bw_held w) False \<le> capacity \<and>
    held_all (bw_held w) False \<le> capacity - reserve \<and>
    (\<forall>f limit preferred minimum demand s' r.
       try_reserve (bw_state w) f limit preferred minimum demand = Inr (s', r) \<and> rv_bytes r \<noteq> 0 \<longrightarrow>
       held_file (bw_held w) True f + held_file (bw_held w) False f + rv_bytes r \<le> limit \<and>
       (\<not> demand \<longrightarrow> held_file (bw_held w) False f + rv_bytes r \<le> limit - min limit reserve)) \<and>
    (\<forall>f. held_file (bw_held w) True f + held_file (bw_held w) False f \<le> bw_limit w f \<and>
       held_file (bw_held w) False f \<le> bw_limit w f - min (bw_limit w f) reserve) \<and>
    sn_used (budget_snapshot (bw_state w)) = held_all (bw_held w) True + held_all (bw_held w) False \<and>
    (\<forall>f. file_used (bw_state w) f = held_file (bw_held w) True f + held_file (bw_held w) False f) \<and>
    (\<forall>r\<in>set (bw_held w).
       rv_bytes r \<le> (if rv_demand r then usage_demand else usage_speculative) (file_usage (bw_state w) (rv_file r)) \<and>
       rv_bytes r \<le> (if rv_demand r then usage_demand else usage_speculative) (bs_used (bw_state w)))"
proof -
  have inv: "accounts (bw_state w) (bw_held w)" "bounded (bw_limit w) capacity reserve page_bytes (bw_state w) (bw_held w)"
    using budget_reachable_inv(1) [OF assms] by (simp_all add: budget_inv_def)
  have used: "bs_used (bw_state w) = \<lparr>usage_speculative = held_all (bw_held w) False, usage_demand = held_all (bw_held w) True\<rparr>"
    "file_usage (bw_state w) f = held_usage (bw_held w) f" for f using inv(1) by (simp_all add: accounts_def)
  have "file_used (bw_state w) f = held_file (bw_held w) True f + held_file (bw_held w) False f" for f
  proof -
    have "file_used (bw_state w) f = usage_total (file_usage (bw_state w) f)"
      by (simp add: file_used_def file_usage_def usage_total_def no_usage_def split: option.split)
    then show ?thesis by (simp add: used usage_total_def held_usage_def)
  qed
  moreover have "rv_bytes r \<le> (if rv_demand r then usage_demand else usage_speculative) (file_usage (bw_state w) (rv_file r)) \<and>
      rv_bytes r \<le> (if rv_demand r then usage_demand else usage_speculative) (bs_used (bw_state w))"
    if "r \<in> set (bw_held w)" for r
    using held_member [OF that] by (cases "rv_demand r") (simp_all add: used held_usage_def)
  moreover have "bs_demand_reserve (bw_state w) = reserve" using inv(2) by (simp add: bounded_def)
  note reserve_within_limit [OF inv(1), unfolded this]
  moreover have "held_all (bw_held w) True + held_all (bw_held w) False \<le> capacity"
    using inv(2) unfolding bounded_def by linarith
  moreover have "sn_used (budget_snapshot (bw_state w)) = held_all (bw_held w) True + held_all (bw_held w) False"
    by (simp add: budget_snapshot_def usage_total_def used)
  ultimately show ?thesis using inv(2) unfolding bounded_def by blast
qed

text \<open>
  Demand reads are never starved by speculation: as long as the reads that hold memory have not
  used up the reserve, of the mount and of the file, a page aligned demand reservation that fits
  in what is left of it is granted, however much is held by speculation, if no reservation of
  the file was asked with a larger limit.
\<close>

lemma demand_reserve_is_protected:
  assumes "budget_reachable capacity reserve page_bytes w" "\<not> bs_stopped (bw_state w)" "bw_limit w f \<le> limit"
    and "0 < minimum" "minimum \<le> preferred" "0 < limit" "page_bytes dvd limit" "page_bytes dvd preferred" "page_bytes dvd minimum"
    and "held_all (bw_held w) True + minimum \<le> reserve" "held_file (bw_held w) True f + minimum \<le> min limit reserve"
  shows "\<exists>s' r. try_reserve (bw_state w) f limit preferred minimum True = Inr (s', r) \<and>
    minimum \<le> rv_bytes r \<and> rv_bytes r \<le> preferred"
proof -
  let ?lim = "(bw_limit w)(f := limit)"
  have inv: "accounts (bw_state w) (bw_held w)" "bounded (bw_limit w) capacity reserve page_bytes (bw_state w) (bw_held w)"
    using budget_reachable_inv(1) [OF assms(1)] by (simp_all add: budget_inv_def)
  have wider: "bounded ?lim capacity reserve page_bytes (bw_state w) (bw_held w)"
    by (rule bounded_mono [OF inv(2)]) (simp add: assms(3))
  have used: "usage_total (bs_used (bw_state w)) = held_all (bw_held w) True + held_all (bw_held w) False"
    "usage_total (file_usage (bw_state w) f) = held_file (bw_held w) True f + held_file (bw_held w) False f"
    using inv(1) by (simp_all add: accounts_def usage_total_def held_usage_def)
  have b: "bs_capacity (bw_state w) = capacity" "bs_page_size (bw_state w) = page_bytes" "reserve \<le> capacity"
    "held_all (bw_held w) False \<le> capacity - reserve" "held_file (bw_held w) False f \<le> ?lim f - min (?lim f) reserve"
    using wider unfolding bounded_def by blast+
  have room: "usage_total (bs_used (bw_state w)) + minimum \<le> capacity" "usage_total (file_usage (bw_state w) f) + minimum \<le> limit"
    using assms(10,11) b(3-5) unfolding used fun_upd_same by linarith+
  define n where "n = min preferred (min (capacity - usage_total (bs_used (bw_state w))) (limit - usage_total (file_usage (bw_state w) f)))"
  have "grantable (bw_state w) f limit preferred True = Some n"
    using room by (simp add: grantable_def Let_def b(1) n_def)
  moreover have "minimum \<le> n" "n \<le> preferred" unfolding n_def using room assms(5) by auto
  ultimately show ?thesis
    using assms(2,4-9) by (simp add: try_reserve_def b(2))
qed

text \<open>
  C30. No waiter of the budget is forgotten or called twice: every time a waiter was linked it has
  been called back once, has been unlinked by its owner, or is still linked; and a waiter that is
  still linked has seen the current revision of a budget that is not stopped, so nothing has been
  released since it looked.
\<close>

theorem budget_waiters_are_called_once:
  assumes "budget_reachable capacity reserve page_bytes w"
  shows "count_list (bw_linked w) x = count_list (bw_called w) x + count_list (bw_unlinked w) x +
      (if x \<in> set (bs_waiters (bw_state w)) then 1 else 0) \<and>
    (x \<in> set (bs_waiters (bw_state w)) \<longrightarrow> \<not> budget_wait_over (bw_state w) (bw_seen w x))"
proof -
  have inv: "wakes_inv w" using assms by (rule budget_reachable_inv(2))
  have "count_list (bs_waiters (bw_state w)) x = (if x \<in> set (bs_waiters (bw_state w)) then 1 else 0)"
    using inv by (intro count_distinct) (simp add: wakes_inv_def)
  then show ?thesis using inv by (simp add: wakes_inv_def budget_wait_over_def)
qed


text \<open>A mount with four pages, one of them reserved: speculation on a file, a waiter, and a release.\<close>

definition ex_budget :: BudgetState where
  "ex_budget = projr (PrefetchBudget 40 10 10)"

definition ex_budget_reserved :: budget_world where
  "ex_budget_reserved = (let (s, r) = projr (try_reserve ex_budget 7 40 40 10 False)
     in (new_budget_world ex_budget)\<lparr>bw_state := s, bw_held := [r], bw_limit := (\<lambda>f. 0)(7 := 40)\<rparr>)"

definition ex_budget_waiting :: budget_world where
  "ex_budget_waiting = ex_budget_reserved\<lparr>bw_state := fst (projr (budget_subscribe (bw_state ex_budget_reserved) 3 0)),
     bw_seen := (\<lambda>i. 0)(3 := 0), bw_linked := [3]\<rparr>"

definition ex_budget_released :: budget_world where
  "ex_budget_released = ex_budget_waiting\<lparr>bw_state := fst (reset_reservation (bw_state ex_budget_waiting) (bw_held ex_budget_waiting ! 0)),
     bw_held := [no_reservation], bw_called := [3]\<rparr>"

lemmas ex_budget_defs = ex_budget_def PrefetchBudget_def ex_budget_reserved_def new_budget_world_def try_reserve_def grantable_def
  charge_usage_def Let_def file_usage_def usage_total_def usage_add_def no_usage_def

lemma ex_budget_reachable:
  "budget_reachable 40 10 10 ex_budget_reserved" "budget_reachable 40 10 10 ex_budget_waiting"
  "budget_reachable 40 10 10 ex_budget_released"
proof -
  have "budget_reachable 40 10 10 (new_budget_world ex_budget)"
    by (rule budget_begin) (simp add: ex_budget_def PrefetchBudget_def)
  moreover have "budget_step (new_budget_world ex_budget) ex_budget_reserved"
    using reserve_step [of "new_budget_world ex_budget" 7 40 40 10 False] by (simp add: ex_budget_defs)
  ultimately show one: "budget_reachable 40 10 10 ex_budget_reserved" by (rule budget_next)
  have "budget_step ex_budget_reserved ex_budget_waiting"
    using subscribe_step [of ex_budget_reserved 3 0]
    by (simp add: ex_budget_waiting_def ex_budget_defs budget_subscribe_def)
  with one show two: "budget_reachable 40 10 10 ex_budget_waiting" by (rule budget_next)
  have "budget_step ex_budget_waiting ex_budget_released"
    using reset_step [of 0 ex_budget_waiting]
    by (simp add: ex_budget_released_def ex_budget_waiting_def ex_budget_defs budget_subscribe_def
        reset_reservation_def announce_def wake_event_def release_usage_def split: prod.splits)
  with two show "budget_reachable 40 10 10 ex_budget_released" by (rule budget_next)
qed

theorem budget_is_never_exceeded_witness:
  "held_all (bw_held ex_budget_reserved) False = 30 \<and> file_used (bw_state ex_budget_reserved) 7 = 30 \<and>
   held_all (bw_held ex_budget_reserved) False \<le> 40 - 10"
  using budget_is_never_exceeded [OF ex_budget_reachable(1)]
  by (simp add: ex_budget_defs held_all_def file_used_def)

lemma demand_reserve_is_protected_example:
  "\<exists>s' r. try_reserve (bw_state ex_budget_reserved) 7 40 10 10 True = Inr (s', r) \<and> 10 \<le> rv_bytes r"
  using demand_reserve_is_protected [OF ex_budget_reachable(1), of 7 40 10 10]
  by (simp add: ex_budget_defs held_all_def held_file_def)

theorem budget_waiters_are_called_once_witness:
  "bs_waiters (bw_state ex_budget_waiting) = [3] \<and> \<not> budget_wait_over (bw_state ex_budget_waiting) (bw_seen ex_budget_waiting 3)"
  using budget_waiters_are_called_once [OF ex_budget_reachable(2), of 3]
  by (simp add: ex_budget_waiting_def ex_budget_defs budget_subscribe_def)

lemma budget_waiter_called_after_release:
  "count_list (bw_called ex_budget_released) 3 = 1 \<and> bs_waiters (bw_state ex_budget_released) = [] \<and>
   budget_wait_over (bw_state ex_budget_released) 0"
  by (simp add: ex_budget_released_def ex_budget_waiting_def ex_budget_defs budget_subscribe_def budget_wait_over_def
      reset_reservation_def announce_def wake_event_def release_usage_def wrap64_def)

end
