(* ===== verification/Io_Storage.thy ===== *)
theory Io_Storage
  imports Io_Budget "HOL-Library.Multiset"
begin

text \<open>
  \<open>ReceiveBlockPool\<close> and \<open>AnonymousRangeStorage\<close> (\<^verbatim>\<open>src/src/io.hpp\<close>, \<^verbatim>\<open>src/src/io.cpp\<close>): the blocks of
  2 MiB that responses are received into, kept in a free list whose links are stored in the
  blocks themselves, and the ranges that are assembled from such blocks. The memory of a block is
  a function from offsets to bytes, an address is a number, 0 is the null pointer.
\<close>

section \<open>The pool of blocks\<close>

definition kReceiveBlockSize :: nat where
  "kReceiveBlockSize = 2 * 1024 * 1024"

definition ENOMEM :: nat where "ENOMEM = 12"

text \<open>A pointer in memory: eight bytes, the least significant first.\<close>

definition store_ptr :: "(nat \<Rightarrow> u8) \<Rightarrow> nat \<Rightarrow> (nat \<Rightarrow> u8)" where
  "store_ptr m p = (\<lambda>i. if i < 8 then word_of_nat (p div 256 ^ i) else m i)"

definition load_ptr :: "(nat \<Rightarrow> u8) \<Rightarrow> nat" where
  "load_ptr m = sum_list (map (\<lambda>i. unat (m i) * 256 ^ i) [0 ..< 8])"

record ReceiveBlockPool =
  rb_free :: nat
  rb_mapped :: nat
  rb_idle :: nat
  rb_capacity :: nat
  rb_mem :: "nat \<Rightarrow> nat \<Rightarrow> u8"

definition new_block_pool :: "nat \<Rightarrow> (nat \<Rightarrow> nat \<Rightarrow> u8) \<Rightarrow> ReceiveBlockPool result" where
  "new_block_pool capacity mem =
     (let c = capacity div kReceiveBlockSize * kReceiveBlockSize
      in if c = 0 then Inl (InvalidArgument ''receive buffer budget must hold a 2MiB block'')
         else Inr \<lparr>rb_free = 0, rb_mapped = 0, rb_idle = 0, rb_capacity = c, rb_mem = mem\<rparr>)"

text \<open>
  \<open>allocate_block\<close> has counted the block before it maps it, and uncounts it when that fails.
  \<open>mmap\<close> is what the call returns: an error, or the address of a zeroed block.
  The call itself runs outside the mutex; \<open>acquire_block\<close> is one step here. What other threads may
  see in between is a pool with one more block counted and not yet handed out, which leaves them
  less room and touches nothing else.
\<close>

definition allocate_block :: "ReceiveBlockPool \<Rightarrow> nat + nat \<Rightarrow> (nat result) \<times> ReceiveBlockPool" where
  "allocate_block pool mmap =
     (case mmap of
        Inl e \<Rightarrow> (Inl (SystemError e ''mmap(populated receive block)''),
                  pool\<lparr>rb_mapped := rb_mapped pool - kReceiveBlockSize\<rparr>)
      | Inr b \<Rightarrow> (Inr b, pool\<lparr>rb_mem := (rb_mem pool)(b := \<lambda>i. 0)\<rparr>))"

definition acquire_block :: "ReceiveBlockPool \<Rightarrow> nat + nat \<Rightarrow> (nat result) \<times> ReceiveBlockPool" where
  "acquire_block pool mmap =
     (if rb_free pool \<noteq> 0
      then (Inr (rb_free pool),
            pool\<lparr>rb_free := load_ptr (rb_mem pool (rb_free pool)), rb_idle := rb_idle pool - kReceiveBlockSize\<rparr>)
      else if rb_mapped pool = rb_capacity pool
           then (Inl (SystemError ENOMEM ''receive buffer pool budget exhausted''), pool)
      else allocate_block (pool\<lparr>rb_mapped := rb_mapped pool + kReceiveBlockSize\<rparr>) mmap)"

definition release_block :: "ReceiveBlockPool \<Rightarrow> nat \<Rightarrow> ReceiveBlockPool" where
  "release_block pool b =
     (if b = 0 then pool
      else pool\<lparr>rb_mem := (rb_mem pool)(b := store_ptr (rb_mem pool b) (rb_free pool)),
                rb_free := b, rb_idle := rb_idle pool + kReceiveBlockSize\<rparr>)"

text \<open>\<open>preallocate\<close>: \<open>mmaps k\<close> is the result of the call in round \<open>k\<close>.\<close>

lemma allocate_block_mapped:
  "allocate_block pool m = (Inr b, pool') \<Longrightarrow> rb_mapped pool' = rb_mapped pool"
  by (auto simp: allocate_block_def split: sum.splits)

lemma release_block_frame [simp]:
  "rb_mapped (release_block pool b) = rb_mapped pool" "rb_capacity (release_block pool b) = rb_capacity pool"
  by (simp_all add: release_block_def)

function preallocate_loop :: "nat \<Rightarrow> (nat \<Rightarrow> nat + nat) \<Rightarrow> nat \<Rightarrow> ReceiveBlockPool \<Rightarrow> unit result \<times> ReceiveBlockPool" where
  "preallocate_loop target mmaps k pool =
     (if target \<le> rb_mapped pool then (Inr (), pool)
      else case allocate_block (pool\<lparr>rb_mapped := rb_mapped pool + kReceiveBlockSize\<rparr>) (mmaps k) of
             (Inl e, pool') \<Rightarrow> (Inl e, pool')
           | (Inr b, pool') \<Rightarrow> preallocate_loop target mmaps (k + 1) (release_block pool' b))"
  by pat_completeness auto
termination
  by (relation "measure (\<lambda>(target, mmaps, k, pool). target - rb_mapped pool)")
    (auto simp: allocate_block_def kReceiveBlockSize_def split: sum.splits)

declare preallocate_loop.simps [simp del]

definition preallocate :: "ReceiveBlockPool \<Rightarrow> nat \<Rightarrow> (nat \<Rightarrow> nat + nat) \<Rightarrow> unit result \<times> ReceiveBlockPool" where
  "preallocate pool wanted mmaps =
     preallocate_loop (min wanted (rb_capacity pool div kReceiveBlockSize) * kReceiveBlockSize) mmaps 0 pool"


section \<open>Ranges of blocks\<close>

record Chunk =
  ch_mapping :: nat
  ch_offset :: nat
  ch_length :: nat
  ch_used :: nat

record AnonymousRangeStorage =
  ar_size :: nat
  ar_produced :: nat
  ar_charge :: Reservation
  ar_chunks :: "Chunk list"

definition new_range_storage :: "BudgetState \<Rightarrow> nat \<Rightarrow> Reservation \<Rightarrow> AnonymousRangeStorage result" where
  "new_range_storage s n charge =
     (if n = 0 \<or> UINT64_MAX - (kReceiveBlockSize - 1) < n then Inl (InvalidArgument ''invalid anonymous range storage'')
      else let blocks = (n + kReceiveBlockSize - 1) div kReceiveBlockSize
           in if rv_bytes charge \<noteq> 0 \<and> (rv_bytes charge \<noteq> blocks * kReceiveBlockSize \<or>
                 kReceiveBlockSize mod reservation_page_size s charge \<noteq> 0)
              then Inl (InvalidArgument ''receive storage needs a 2MiB-rounded reservation'')
              else Inr \<lparr>ar_size = n, ar_produced = 0, ar_charge = charge, ar_chunks = []\<rparr>)"

text \<open>Giving back the blocks of some chunks, in order.\<close>

fun release_mappings :: "ReceiveBlockPool \<Rightarrow> Chunk list \<Rightarrow> ReceiveBlockPool" where
  "release_mappings pool [] = pool"
| "release_mappings pool (c # cs) = release_mappings (release_block pool (ch_mapping c)) cs"

definition release_storage ::
  "BudgetState \<Rightarrow> ReceiveBlockPool \<Rightarrow> AnonymousRangeStorage \<Rightarrow> (BudgetState \<times> nat list) \<times> ReceiveBlockPool \<times> AnonymousRangeStorage" where
  "release_storage s pool st =
     (reset_reservation s (ar_charge st), release_mappings pool (ar_chunks st), st\<lparr>ar_chunks := [], ar_charge := no_reservation\<rparr>)"

definition allocate_next ::
  "ReceiveBlockPool \<Rightarrow> AnonymousRangeStorage \<Rightarrow> nat + nat \<Rightarrow> (AnonymousRangeStorage result) \<times> ReceiveBlockPool" where
  "allocate_next pool st mmap =
     (if ar_size st \<le> ar_produced st then (Inl (RuntimeError ''anonymous range storage is full''), pool)
      else case acquire_block pool mmap of
             (Inl e, pool') \<Rightarrow> (Inl e, pool')
           | (Inr b, pool') \<Rightarrow>
               (Inr (st\<lparr>ar_chunks := ar_chunks st @ [\<lparr>ch_mapping = b, ch_offset = ar_produced st,
                  ch_length = min kReceiveBlockSize (ar_size st - ar_produced st), ch_used = 0\<rparr>]\<rparr>), pool'))"

text \<open>A span is a block, an offset in it and a length.\<close>

type_synonym span = "nat \<times> nat \<times> nat"

definition writable ::
  "ReceiveBlockPool \<Rightarrow> AnonymousRangeStorage \<Rightarrow> nat \<Rightarrow> nat + nat \<Rightarrow> ((AnonymousRangeStorage \<times> span option) result) \<times> ReceiveBlockPool" where
  "writable pool st maximum mmap =
     (if maximum = 0 \<or> ar_produced st = ar_size st then (Inr (st, None), pool)
      else case (if ar_chunks st = [] \<or>
                    ch_offset (last (ar_chunks st)) + ch_length (last (ar_chunks st)) \<le> ar_produced st
                 then allocate_next pool st mmap else (Inr st, pool)) of
             (Inl e, pool') \<Rightarrow> (Inl e, pool')
           | (Inr st', pool') \<Rightarrow>
               let c = last (ar_chunks st')
               in if ch_mapping c = 0 \<or> ar_produced st' < ch_offset c \<or> ch_offset c + ch_length c < ar_produced st'
                  then (Inl (LogicError ''anonymous range storage write cursor''), pool')
                  else let used = ar_produced st' - ch_offset c
                       in (Inr (st', Some (ch_mapping c, used, min maximum (ch_length c - used))), pool'))"

definition commit :: "AnonymousRangeStorage \<Rightarrow> nat \<Rightarrow> AnonymousRangeStorage result" where
  "commit st n =
     (if n = 0 \<or> ar_chunks st = [] then Inl (InvalidArgument ''invalid anonymous range storage commit'')
      else let c = last (ar_chunks st)
           in if ch_mapping c = 0 \<or> ar_produced st \<noteq> ch_offset c + ch_used c \<or> ch_length c - ch_used c < n
              then Inl (InvalidArgument ''anonymous range storage commit range'')
              else Inr (st\<lparr>ar_chunks := butlast (ar_chunks st) @ [c\<lparr>ch_used := ch_used c + n\<rparr>], ar_produced := ar_produced st + n\<rparr>))"

text \<open>The loops over the chunks from the one that holds \<open>offset\<close>.\<close>

definition outside :: "nat \<Rightarrow> Chunk \<Rightarrow> bool" where
  "outside position c \<longleftrightarrow> position < ch_offset c \<or> ch_offset c + ch_used c \<le> position"

fun span_loop :: "nat \<Rightarrow> nat \<Rightarrow> Chunk list \<Rightarrow> span list option option" where
  "span_loop position remaining [] = None"
| "span_loop position remaining (c # cs) =
     (if outside position c then span_loop position remaining cs
      else if ch_mapping c = 0 then Some None
      else let local = position - ch_offset c; part = min remaining (ch_used c - local)
           in if remaining - part = 0 then Some (Some [(ch_mapping c, local, part)])
              else map_option (map_option (Cons (ch_mapping c, local, part)))
                (span_loop (position + part) (remaining - part) cs))"

fun available_loop :: "nat \<Rightarrow> nat \<Rightarrow> Chunk list \<Rightarrow> bool" where
  "available_loop position remaining [] = False"
| "available_loop position remaining (c # cs) =
     (if outside position c then available_loop position remaining cs
      else if ch_mapping c = 0 then False
      else let part = min remaining (ch_used c - (position - ch_offset c))
           in if remaining - part = 0 then True else available_loop (position + part) (remaining - part) cs)"

fun copy_loop :: "(nat \<Rightarrow> nat \<Rightarrow> u8) \<Rightarrow> nat \<Rightarrow> nat \<Rightarrow> Chunk list \<Rightarrow> bytes option" where
  "copy_loop mem position remaining [] = None"
| "copy_loop mem position remaining (c # cs) =
     (if outside position c then copy_loop mem position remaining cs
      else if ch_mapping c = 0 then None
      else let local = position - ch_offset c; part = min remaining (ch_used c - local);
               out = map (mem (ch_mapping c)) [local ..< local + part]
           in if remaining - part = 0 then Some out
              else map_option ((@) out) (copy_loop mem (position + part) (remaining - part) cs))"

definition available :: "AnonymousRangeStorage \<Rightarrow> nat \<Rightarrow> nat \<Rightarrow> bool" where
  "available st offset n =
     (if ar_produced st < offset \<or> ar_produced st - offset < n then False
      else if n = 0 then True
      else available_loop offset n (drop (offset div kReceiveBlockSize) (ar_chunks st)))"

text \<open>The bytes that \<open>copy_to\<close> writes when it returns true.\<close>

definition copy_to :: "ReceiveBlockPool \<Rightarrow> AnonymousRangeStorage \<Rightarrow> nat \<Rightarrow> nat \<Rightarrow> bytes option" where
  "copy_to pool st offset n =
     (if ar_produced st < offset \<or> ar_produced st - offset < n then None
      else if n = 0 then Some []
      else copy_loop (rb_mem pool) offset n (drop (offset div kReceiveBlockSize) (ar_chunks st)))"

definition spans :: "AnonymousRangeStorage \<Rightarrow> nat \<Rightarrow> nat \<Rightarrow> span list result" where
  "spans st offset n =
     (if ar_produced st < offset \<or> ar_produced st - offset < n then Inl (OutOfRange ''anonymous range storage span'')
      else if n = 0 then Inr []
      else case span_loop offset n (drop (offset div kReceiveBlockSize) (ar_chunks st)) of
             None \<Rightarrow> Inl (RuntimeError ''anonymous range storage span is discontinuous'')
           | Some None \<Rightarrow> Inl (RuntimeError ''anonymous range storage span was recycled'')
           | Some (Some xs) \<Rightarrow> Inr xs)"

definition release_for_retry :: "ReceiveBlockPool \<Rightarrow> AnonymousRangeStorage \<Rightarrow> Reservation \<times> ReceiveBlockPool \<times> AnonymousRangeStorage" where
  "release_for_retry pool st =
     (ar_charge st, release_mappings pool (ar_chunks st),
      st\<lparr>ar_chunks := [], ar_produced := 0, ar_charge := no_reservation\<rparr>)"

text \<open>The loop of \<open>discard\<close>; the chunks that end before the interval are kept as they are.\<close>

fun discard_loop :: "nat \<Rightarrow> nat \<Rightarrow> ReceiveBlockPool \<Rightarrow> Chunk list \<Rightarrow> ReceiveBlockPool \<times> Chunk list \<times> nat \<times> nat" where
  "discard_loop offset stop pool [] = (pool, [], 0, 0)"
| "discard_loop offset stop pool (c # cs) =
     (if stop \<le> ch_offset c then (pool, c # cs, 0, 0)
      else if ch_mapping c = 0 \<or> ch_used c \<noteq> ch_length c \<or> ch_offset c < offset \<or> stop < ch_offset c + ch_length c
           then (case discard_loop offset stop pool cs of (pool', cs', n, released) \<Rightarrow> (pool', c # cs', n, released))
      else (case discard_loop offset stop (release_block pool (ch_mapping c)) cs of
              (pool', cs', n, released) \<Rightarrow> (pool', c\<lparr>ch_mapping := 0\<rparr> # cs', n + ch_length c, released + kReceiveBlockSize)))"

text \<open>
  \<open>discard\<close> must not throw (it is \<^verbatim>\<open>noexcept\<close>), yet splits the charge; the error of the split is kept
  in the result. The waiters that the release wakes are returned.
\<close>

definition discard ::
  "BudgetState \<Rightarrow> ReceiveBlockPool \<Rightarrow> AnonymousRangeStorage \<Rightarrow> nat \<Rightarrow> nat \<Rightarrow>
   (nat \<times> (BudgetState \<times> nat list) \<times> ReceiveBlockPool \<times> AnonymousRangeStorage) result" where
  "discard s pool st offset n =
     (if ar_produced st < offset \<or> ar_produced st - offset < n then Inr (0, (s, []), pool, st)
      else let i = offset div kReceiveBlockSize
           in case discard_loop offset (offset + n) pool (drop i (ar_chunks st)) of
                (pool', cs', n_bytes, released) \<Rightarrow>
                  let st' = st\<lparr>ar_chunks := take i (ar_chunks st) @ cs'\<rparr>
                  in if rv_bytes (ar_charge st) \<noteq> 0 \<and> released \<noteq> 0
                     then ebind (split_reservation s (ar_charge st) released)
                       (\<lambda>(rest, freed). Inr (n_bytes, reset_reservation s freed, pool', st'\<lparr>ar_charge := rest\<rparr>))
                     else Inr (n_bytes, (s, []), pool', st'))"



section \<open>The free list\<close>

lemma block_size_pos [simp]: "0 < kReceiveBlockSize"
  by (simp add: kReceiveBlockSize_def)

lemma base_digits: "sum_list (map (\<lambda>i. p div 256 ^ i mod 256 * 256 ^ i) [0 ..< n]) = p mod (256::nat) ^ n"
proof (induction n)
  case (Suc n)
  have "p mod 256 ^ Suc n = 256 ^ n * (p div 256 ^ n mod 256) + p mod 256 ^ n"
    unfolding power_Suc2 by (rule mod_mult2_eq)
  then show ?case using Suc by (simp add: mult.commute)
qed simp

lemma load_store_ptr:
  assumes "p < 2 ^ 64"
  shows "load_ptr (store_ptr m p) = p"
proof -
  have "unat (word_of_nat (p div 256 ^ i) :: u8) = p div 256 ^ i mod 256" for i
    by (simp add: unat_of_nat)
  then have "load_ptr (store_ptr m p) = sum_list (map (\<lambda>i. p div 256 ^ i mod 256 * 256 ^ i) [0 ..< 8])"
    unfolding load_ptr_def store_ptr_def by (intro arg_cong [where f = sum_list] map_cong) simp_all
  also have "\<dots> = p mod 256 ^ 8" by (rule base_digits)
  finally show ?thesis using assms by simp
qed

text \<open>The addresses that a walk along the links meets.\<close>

fun chain :: "(nat \<Rightarrow> nat \<Rightarrow> u8) \<Rightarrow> nat \<Rightarrow> nat list \<Rightarrow> bool" where
  "chain mem p [] = (p = 0)"
| "chain mem p (b # bs) = (p = b \<and> b \<noteq> 0 \<and> b < 2 ^ 64 \<and> chain mem (load_ptr (mem b)) bs)"

lemma chain_cong: "(\<forall>b\<in>set bs. mem' b = mem b) \<Longrightarrow> chain mem' p bs = chain mem p bs"
  by (induction bs arbitrary: p) auto

lemma chain_null: "chain mem 0 fs \<longleftrightarrow> fs = []"
  by (cases fs) auto

lemma chain_unique: "chain mem p bs \<Longrightarrow> chain mem p cs \<Longrightarrow> bs = cs"
proof (induction bs arbitrary: p cs)
  case Nil
  then show ?case by (cases cs) auto
next
  case (Cons b bs)
  then show ?case by (cases cs) auto
qed

text \<open>
  The pool with the blocks \<open>xs\<close> leased: leased and free blocks are all different, and the counters
  count them.
\<close>

definition pool_ok :: "ReceiveBlockPool \<Rightarrow> nat list \<Rightarrow> bool" where
  "pool_ok pool xs \<longleftrightarrow> (\<exists>fs. chain (rb_mem pool) (rb_free pool) fs \<and> distinct (fs @ xs) \<and>
     (\<forall>b\<in>set xs. b \<noteq> 0 \<and> b < 2 ^ 64) \<and> rb_idle pool = kReceiveBlockSize * length fs \<and>
     rb_mapped pool = kReceiveBlockSize * (length fs + length xs)) \<and>
     rb_mapped pool \<le> rb_capacity pool \<and> kReceiveBlockSize dvd rb_capacity pool"

lemma pool_ok_perm: "mset xs = mset ys \<Longrightarrow> pool_ok pool xs = pool_ok pool ys"
proof -
  assume eq: "mset xs = mset ys"
  then have "distinct (fs @ xs) = distinct (fs @ ys)" for fs by (intro mset_eq_imp_distinct_iff) simp
  then show ?thesis unfolding pool_ok_def by (simp add: mset_eq_setD [OF eq] mset_eq_length [OF eq])
qed

text \<open>\<open>mmap\<close> returns addresses that are not in use.\<close>

definition fresh_map :: "ReceiveBlockPool \<Rightarrow> nat list \<Rightarrow> nat + nat \<Rightarrow> bool" where
  "fresh_map pool xs mmap \<longleftrightarrow> (\<forall>b fs. mmap = Inr b \<longrightarrow> chain (rb_mem pool) (rb_free pool) fs \<longrightarrow>
     b \<noteq> 0 \<and> b < 2 ^ 64 \<and> b \<notin> set fs \<and> b \<notin> set xs)"

lemma allocate_ok:
  assumes "pool_ok pool xs" "fresh_map pool xs mmap" "rb_mapped pool \<noteq> rb_capacity pool"
    "allocate_block (pool\<lparr>rb_mapped := rb_mapped pool + kReceiveBlockSize\<rparr>) mmap = (r, pool')"
  shows "case r of Inl e \<Rightarrow> pool' = pool | Inr b \<Rightarrow> pool_ok pool' (b # xs) \<and> (\<forall>x\<in>set xs. rb_mem pool' x = rb_mem pool x)"
proof (cases mmap)
  case (Inl e)
  then show ?thesis using assms(4) by (auto simp: allocate_block_def)
next
  case (Inr b)
  then have pool': "r = Inr b" "pool' = pool\<lparr>rb_mapped := rb_mapped pool + kReceiveBlockSize, rb_mem := (rb_mem pool)(b := \<lambda>i. 0)\<rparr>"
    using assms(4) by (simp_all add: allocate_block_def)
  obtain fs where fs: "chain (rb_mem pool) (rb_free pool) fs" "distinct (fs @ xs)" "\<forall>b\<in>set xs. b \<noteq> 0 \<and> b < 2 ^ 64"
    "rb_idle pool = kReceiveBlockSize * length fs" "rb_mapped pool = kReceiveBlockSize * (length fs + length xs)"
    "rb_mapped pool \<le> rb_capacity pool" "kReceiveBlockSize dvd rb_capacity pool"
    using assms(1) unfolding pool_ok_def by blast
  have b: "b \<noteq> 0" "b < 2 ^ 64" "b \<notin> set fs" "b \<notin> set xs" using assms(2) fs(1) Inr unfolding fresh_map_def by blast+
  obtain q where q: "rb_capacity pool = kReceiveBlockSize * q" using fs(7) by blast
  have "length fs + length xs < q" using assms(3) fs(5,6) q by simp
  then have "kReceiveBlockSize * (length fs + length xs) + kReceiveBlockSize \<le> rb_capacity pool"
    unfolding q using mult_le_mono2 [of "Suc (length fs + length xs)" q kReceiveBlockSize] by simp
  moreover have "chain ((rb_mem pool)(b := \<lambda>i. 0)) (rb_free pool) fs"
    using fs(1) b(3) by (subst chain_cong [of fs _ "rb_mem pool"]) auto
  ultimately have "pool_ok pool' (b # xs)"
    unfolding pool_ok_def pool'(2) using fs b by (intro conjI exI [of _ fs]) (simp_all add: algebra_simps)
  then show ?thesis using pool' b by simp
qed

lemma acquire_ok:
  assumes "pool_ok pool xs" "fresh_map pool xs mmap" "acquire_block pool mmap = (r, pool')"
  shows "case r of Inl e \<Rightarrow> pool' = pool | Inr b \<Rightarrow> pool_ok pool' (b # xs) \<and> (\<forall>x\<in>set xs. rb_mem pool' x = rb_mem pool x)"
proof (cases "rb_free pool = 0")
  case True
  then show ?thesis
    using assms allocate_ok [OF assms(1,2)] by (cases "rb_mapped pool = rb_capacity pool") (auto simp: acquire_block_def)
next
  case False
  obtain fs where fs: "chain (rb_mem pool) (rb_free pool) fs" "distinct (fs @ xs)" "\<forall>b\<in>set xs. b \<noteq> 0 \<and> b < 2 ^ 64"
    "rb_idle pool = kReceiveBlockSize * length fs" "rb_mapped pool = kReceiveBlockSize * (length fs + length xs)"
    "rb_mapped pool \<le> rb_capacity pool" "kReceiveBlockSize dvd rb_capacity pool"
    using assms(1) unfolding pool_ok_def by blast
  obtain gs where gs: "fs = rb_free pool # gs" using fs(1) False by (cases fs) auto
  have r: "r = Inr (rb_free pool)"
    "pool' = pool\<lparr>rb_free := load_ptr (rb_mem pool (rb_free pool)), rb_idle := rb_idle pool - kReceiveBlockSize\<rparr>"
    using assms(3) False by (simp_all add: acquire_block_def)
  have "pool_ok pool' (rb_free pool # xs)"
    unfolding pool_ok_def r(2) using fs gs by (intro conjI exI [of _ gs]) simp_all
  then show ?thesis using r by simp
qed

lemma release_ok:
  assumes "pool_ok pool (b # xs)"
  shows "pool_ok (release_block pool b) xs" "\<forall>x\<in>set xs. rb_mem (release_block pool b) x = rb_mem pool x"
proof -
  obtain fs where fs: "chain (rb_mem pool) (rb_free pool) fs" "distinct (fs @ b # xs)" "\<forall>x\<in>set (b # xs). x \<noteq> 0 \<and> x < 2 ^ 64"
    "rb_idle pool = kReceiveBlockSize * length fs" "rb_mapped pool = kReceiveBlockSize * (length fs + length (b # xs))"
    "rb_mapped pool \<le> rb_capacity pool" "kReceiveBlockSize dvd rb_capacity pool"
    using assms unfolding pool_ok_def by blast
  have r: "release_block pool b = pool\<lparr>rb_mem := (rb_mem pool)(b := store_ptr (rb_mem pool b) (rb_free pool)),
      rb_free := b, rb_idle := rb_idle pool + kReceiveBlockSize\<rparr>" using fs(3) by (simp add: release_block_def)
  have p: "rb_free pool < 2 ^ 64" using fs(1) by (cases fs) auto
  have "chain ((rb_mem pool)(b := store_ptr (rb_mem pool b) (rb_free pool))) (rb_free pool) fs"
    using fs(1,2) by (subst chain_cong [of fs _ "rb_mem pool"]) auto
  then have "chain ((rb_mem pool)(b := store_ptr (rb_mem pool b) (rb_free pool))) b (b # fs)"
    using fs(3) by (simp add: load_store_ptr [OF p])
  then show "pool_ok (release_block pool b) xs"
    unfolding pool_ok_def r using fs by (intro conjI exI [of _ "b # fs"]) (auto simp: algebra_simps)
  show "\<forall>x\<in>set xs. rb_mem (release_block pool b) x = rb_mem pool x" using fs(2) r by auto
qed


lemma fresh_after_release:
  assumes "pool_ok pool xs" "fresh_map pool xs m" "fresh_map pool xs (Inr b)" "m \<noteq> Inr b"
    "allocate_block (pool\<lparr>rb_mapped := rb_mapped pool + kReceiveBlockSize\<rparr>) (Inr b) = (Inr b, pool')"
  shows "fresh_map (release_block pool' b) xs m"
proof -
  obtain fs where fs: "chain (rb_mem pool) (rb_free pool) fs" "distinct (fs @ xs)" using assms(1) unfolding pool_ok_def by blast
  have b: "b \<noteq> 0" "b < 2 ^ 64" "b \<notin> set fs" using assms(3) fs(1) unfolding fresh_map_def by blast+
  have pool': "pool' = pool\<lparr>rb_mapped := rb_mapped pool + kReceiveBlockSize, rb_mem := (rb_mem pool)(b := \<lambda>i. 0)\<rparr>"
    using assms(5) by (simp add: allocate_block_def)
  have p: "rb_free pool < 2 ^ 64" using fs(1) by (cases fs) auto
  have c: "chain (rb_mem (release_block pool' b)) (rb_free pool) fs"
    using fs(1) b by (subst chain_cong [of fs _ "rb_mem pool"]) (auto simp: release_block_def pool')
  have "chain (rb_mem (release_block pool' b)) (rb_free (release_block pool' b)) (b # fs)"
    using c b by (simp add: release_block_def pool' load_store_ptr [OF p])
  note walk = chain_unique [OF this]
  show ?thesis
    unfolding fresh_map_def
  proof (intro allI impI)
    fix x gs
    assume x: "m = Inr x" "chain (rb_mem (release_block pool' b)) (rb_free (release_block pool' b)) gs"
    have "x \<noteq> 0 \<and> x < 2 ^ 64 \<and> x \<notin> set fs \<and> x \<notin> set xs" using assms(2) fs(1) x(1) unfolding fresh_map_def by blast
    moreover have "gs = b # fs" using walk [OF x(2)] by simp
    ultimately show "x \<noteq> 0 \<and> x < 2 ^ 64 \<and> x \<notin> set gs \<and> x \<notin> set xs" using assms(4) x(1) by auto
  qed
qed

lemma preallocate_loop_ok:
  assumes "pool_ok pool xs" "\<forall>j\<ge>k. fresh_map pool xs (mmaps j)" "\<forall>i j b. k \<le> i \<longrightarrow> i < j \<longrightarrow> mmaps i = Inr b \<longrightarrow> mmaps j \<noteq> Inr b"
    and "target \<le> rb_capacity pool"
  shows "pool_ok (snd (preallocate_loop target mmaps k pool)) xs \<and>
    (\<forall>x\<in>set xs. rb_mem (snd (preallocate_loop target mmaps k pool)) x = rb_mem pool x)"
  using assms
proof (induction target mmaps k pool rule: preallocate_loop.induct)
  case (1 target mmaps k pool)
  show ?case
  proof (cases "target \<le> rb_mapped pool")
    case True
    then show ?thesis using 1(2) by (subst preallocate_loop.simps, subst (2) preallocate_loop.simps) simp
  next
    case False
    let ?pool = "pool\<lparr>rb_mapped := rb_mapped pool + kReceiveBlockSize\<rparr>"
    obtain r pool' where a: "allocate_block ?pool (mmaps k) = (r, pool')" by (cases "allocate_block ?pool (mmaps k)")
    have fresh: "fresh_map pool xs (mmaps k)" using 1(3) by blast
    have "rb_mapped pool \<noteq> rb_capacity pool" using False 1(5) by linarith
    note ok = allocate_ok [OF 1(2) fresh this a]
    show ?thesis
    proof (cases r)
      case (Inl e)
      then show ?thesis using ok False a 1(2) by (subst preallocate_loop.simps, subst (2) preallocate_loop.simps) simp
    next
      case (Inr b)
      have m: "mmaps k = Inr b" using a Inr by (auto simp: allocate_block_def split: sum.splits)
      have loop: "preallocate_loop target mmaps k pool = preallocate_loop target mmaps (k + 1) (release_block pool' b)"
        using False a Inr by (subst preallocate_loop.simps) simp
      have ok': "pool_ok pool' (b # xs)" "\<forall>x\<in>set xs. rb_mem pool' x = rb_mem pool x" using ok Inr by simp_all
      have "fresh_map (release_block pool' b) xs (mmaps j)" if "k + 1 \<le> j" for j
      proof (rule fresh_after_release [OF 1(2)])
        show "fresh_map pool xs (mmaps j)" using 1(3) that by simp
        show "fresh_map pool xs (Inr b)" using fresh m by simp
        have "k < j" using that by simp
        then show "mmaps j \<noteq> Inr b" using 1(4) m by blast
        show "allocate_block ?pool (Inr b) = (Inr b, pool')" using a Inr m by simp
      qed
      moreover have "rb_capacity pool' = rb_capacity pool" using a by (auto simp: allocate_block_def split: sum.splits)
      moreover have "\<forall>i j b. k + 1 \<le> i \<longrightarrow> i < j \<longrightarrow> mmaps i = Inr b \<longrightarrow> mmaps j \<noteq> Inr b"
        using 1(4) by (meson add_leD1)
      ultimately show ?thesis
        using 1(1) [OF False a [symmetric] Inr] release_ok [OF ok'(1)] ok'(2) 1(5) unfolding loop by simp
    qed
  qed
qed

section \<open>Chunks\<close>

definition owned_blocks :: "Chunk list \<Rightarrow> nat list" where
  "owned_blocks cs = filter (\<lambda>b. b \<noteq> 0) (map ch_mapping cs)"

lemma owned_blocks_simps [simp]:
  "owned_blocks [] = []" "owned_blocks (xs @ ys) = owned_blocks xs @ owned_blocks ys"
  "owned_blocks (c # cs) = (if ch_mapping c = 0 then owned_blocks cs else ch_mapping c # owned_blocks cs)"
  by (simp_all add: owned_blocks_def)

lemma release_mappings_ok:
  assumes "pool_ok pool (owned_blocks cs @ xs)"
  shows "pool_ok (release_mappings pool cs) xs \<and> (\<forall>x\<in>set xs. rb_mem (release_mappings pool cs) x = rb_mem pool x)"
  using assms
proof (induction cs arbitrary: pool)
  case (Cons c cs)
  show ?case
  proof (cases "ch_mapping c = 0")
    case True
    then show ?thesis using Cons by (simp add: release_block_def)
  next
    case False
    then have "pool_ok pool (ch_mapping c # owned_blocks cs @ xs)" using Cons.prems by simp
    from release_ok [OF this] Cons.IH show ?thesis by simp
  qed
qed simp

fun wf_from :: "nat \<Rightarrow> nat \<Rightarrow> Chunk list \<Rightarrow> bool" where
  "wf_from n j [] = True"
| "wf_from n j (c # cs) \<longleftrightarrow> ch_offset c = j * kReceiveBlockSize \<and> j * kReceiveBlockSize < n \<and>
     ch_length c = min kReceiveBlockSize (n - j * kReceiveBlockSize) \<and> ch_used c \<le> ch_length c \<and>
     (ch_mapping c = 0 \<longrightarrow> ch_used c = ch_length c) \<and> (cs \<noteq> [] \<longrightarrow> ch_used c = kReceiveBlockSize) \<and> wf_from n (Suc j) cs"

definition produced_by :: "Chunk list \<Rightarrow> nat" where
  "produced_by cs = sum_list (map ch_used cs)"

definition holds_content :: "(nat \<Rightarrow> nat \<Rightarrow> u8) \<Rightarrow> (nat \<Rightarrow> u8) \<Rightarrow> Chunk list \<Rightarrow> bool" where
  "holds_content mem f cs \<longleftrightarrow> (\<forall>c\<in>set cs. ch_mapping c \<noteq> 0 \<longrightarrow> (\<forall>x<ch_used c. mem (ch_mapping c) x = f (ch_offset c + x)))"

definition span_bytes :: "(nat \<Rightarrow> nat \<Rightarrow> u8) \<Rightarrow> span \<Rightarrow> bytes" where
  "span_bytes mem p = (case p of (b, start, n) \<Rightarrow> map (mem b) [start ..< start + n])"

text \<open>The three loops agree: \<open>available\<close> says whether \<open>spans\<close> succeeds and \<open>copy_to\<close> copies its spans.\<close>

lemma available_loop_spans: "available_loop p r cs \<longleftrightarrow> (\<exists>xs. span_loop p r cs = Some (Some xs))"
  by (induction p r cs rule: available_loop.induct) (auto simp: Let_def)

lemma copy_loop_spans:
  "copy_loop mem p r cs =
     (case span_loop p r cs of Some (Some xs) \<Rightarrow> Some (concat (map (span_bytes mem) xs)) | _ \<Rightarrow> None)"
  by (induction mem p r cs rule: copy_loop.induct) (auto simp: Let_def span_bytes_def split: option.splits)

text \<open>A part of the range whose block has been given back.\<close>

definition recycled :: "nat \<Rightarrow> nat \<Rightarrow> Chunk list \<Rightarrow> bool" where
  "recycled p r cs \<longleftrightarrow> (\<exists>c\<in>set cs. ch_mapping c = 0 \<and> ch_offset c < p + r \<and> p < ch_offset c + ch_used c)"


lemma wf_from_lengths:
  assumes "wf_from n j cs" "c \<in> set cs"
  shows "ch_used c \<le> ch_length c" "ch_length c \<le> kReceiveBlockSize" "ch_mapping c = 0 \<Longrightarrow> ch_used c = ch_length c"
    "j * kReceiveBlockSize \<le> ch_offset c" "0 < ch_length c"
proof -
  have "ch_used c \<le> ch_length c \<and> ch_length c \<le> kReceiveBlockSize \<and> (ch_mapping c = 0 \<longrightarrow> ch_used c = ch_length c) \<and>
      j * kReceiveBlockSize \<le> ch_offset c \<and> 0 < ch_length c"
    using assms
  proof (induction cs arbitrary: j)
    case (Cons d cs)
    show ?case
    proof (cases "c = d")
      case True
      then show ?thesis using Cons.prems(1) by auto
    next
      case False
      then have "Suc j * kReceiveBlockSize \<le> ch_offset c" "ch_used c \<le> ch_length c \<and> ch_length c \<le> kReceiveBlockSize \<and>
          (ch_mapping c = 0 \<longrightarrow> ch_used c = ch_length c) \<and> 0 < ch_length c"
        using Cons.IH [of "Suc j"] Cons.prems by auto
      then show ?thesis by simp
    qed
  qed simp
  then show "ch_used c \<le> ch_length c" "ch_length c \<le> kReceiveBlockSize" "ch_mapping c = 0 \<Longrightarrow> ch_used c = ch_length c"
    "j * kReceiveBlockSize \<le> ch_offset c" "0 < ch_length c" by simp_all
qed

lemma span_loop_content:
  assumes "wf_from n j cs" "j * kReceiveBlockSize \<le> p" "p < Suc j * kReceiveBlockSize" "0 < r"
    and "p + r \<le> j * kReceiveBlockSize + produced_by cs" "holds_content mem f cs"
  shows "if recycled p r cs then span_loop p r cs = Some None
    else \<exists>xs. span_loop p r cs = Some (Some xs) \<and> concat (map (span_bytes mem) xs) = map f [p ..< p + r]"
  using assms
proof (induction cs arbitrary: j p r)
  case Nil
  then show ?case by (simp add: produced_by_def)
next
  case (Cons c cs)
  let ?K = kReceiveBlockSize
  have c: "ch_offset c = j * ?K" "ch_used c \<le> ?K" "cs \<noteq> [] \<longrightarrow> ch_used c = ?K" "wf_from n (Suc j) cs"
    using Cons.prems(1) by auto
  have inside: "p < ch_offset c + ch_used c"
  proof (cases "cs = []")
    case True
    then show ?thesis using Cons.prems(4,5) c(1) by (simp add: produced_by_def)
  next
    case False
    then show ?thesis using Cons.prems(3) c(1,3) by simp
  qed
  then have out: "\<not> outside p c" using Cons.prems(2) c(1) by (simp add: outside_def)
  define start where "start = p - ch_offset c"
  define part where "part = min r (ch_used c - start)"
  have part: "0 < part" "part \<le> r" "start + part \<le> ch_used c" "ch_offset c + start = p"
    using inside Cons.prems(2,4) c(1) by (auto simp: part_def start_def)
  show ?case
  proof (cases "ch_mapping c = 0")
    case True
    then have "recycled p r (c # cs)" using inside Cons.prems(2,4) c(1) by (auto simp: recycled_def)
    then show ?thesis using True out by simp
  next
    case False
    have bytes: "span_bytes mem (ch_mapping c, start, part) = map f [p ..< p + part]"
    proof -
      have "mem (ch_mapping c) (start + i) = f (p + i)" if "i < part" for i
        using Cons.prems(6) False part that by (auto simp: holds_content_def add.assoc [symmetric])
      then show ?thesis
        unfolding span_bytes_def prod.case by (intro nth_equalityI) simp_all
    qed
    have head: "\<not> (ch_mapping c = 0 \<and> ch_offset c < p + r \<and> p < ch_offset c + ch_used c)" using False by simp
    show ?thesis
    proof (cases "r - part = 0")
      case True
      then have r: "r = part" using part(2) by simp
      have "\<not> recycled p r cs"
      proof
        assume "recycled p r cs"
        then obtain d where d: "d \<in> set cs" "ch_offset d < p + r" by (auto simp: recycled_def)
        have "Suc j * ?K \<le> ch_offset d" using wf_from_lengths(4) [OF c(4) d(1)] .
        moreover have "p + r \<le> Suc j * ?K" using part(3,4) r c(1,2) by simp
        ultimately show False using d(2) by simp
      qed
      then have "\<not> recycled p r (c # cs)" using head by (auto simp: recycled_def)
      moreover have "span_loop p r (c # cs) = Some (Some [(ch_mapping c, start, part)])"
        using out False True unfolding part_def start_def by simp
      ultimately show ?thesis using bytes r by simp
    next
      case nonzero: False
      then have partial: "part = ch_used c - start" "part < r" using part(2) by (auto simp: part_def split: if_splits)
      have more: "cs \<noteq> []" using nonzero partial part Cons.prems(5) c(1) by (auto simp: produced_by_def)
      then have next_p: "p + part = Suc j * ?K" using partial(1) part c(1,3) by simp
      have rec: "recycled p r (c # cs) = recycled (p + part) (r - part) cs"
      proof -
        have "p + part < ch_offset d + ch_used d" if d: "d \<in> set cs" "ch_mapping d = 0" for d
          using wf_from_lengths(3-5) [OF c(4) d(1)] d(2) unfolding next_p by simp
        then have "recycled p r cs = recycled (p + part) (r - part) cs"
          using part(2) unfolding recycled_def by (intro bex_cong) fastforce+
        moreover have "recycled p r (c # cs) = recycled p r cs" using head by (auto simp: recycled_def)
        ultimately show ?thesis by simp
      qed
      have IH: "if recycled (p + part) (r - part) cs then span_loop (p + part) (r - part) cs = Some None
        else \<exists>xs. span_loop (p + part) (r - part) cs = Some (Some xs) \<and>
          concat (map (span_bytes mem) xs) = map f [p + part ..< p + part + (r - part)]"
      proof (rule Cons.IH [OF c(4)])
        show "Suc j * ?K \<le> p + part" "p + part < Suc (Suc j) * ?K" using next_p by simp_all
        show "0 < r - part" using nonzero by simp
        show "p + part + (r - part) \<le> Suc j * ?K + produced_by cs"
          using Cons.prems(5) next_p part partial more c(3) by (simp add: produced_by_def)
        show "holds_content mem f cs" using Cons.prems(6) by (simp add: holds_content_def)
      qed
      have loop: "span_loop p r (c # cs) =
          map_option (map_option (Cons (ch_mapping c, start, part))) (span_loop (p + part) (r - part) cs)"
        using out False nonzero unfolding part_def start_def by (simp add: Let_def)
      have "[p ..< p + r] = [p ..< p + part] @ [p + part ..< p + part + (r - part)]"
        using part(2) upt_add_eq_append [of p "p + part" "r - part"] by simp
      then show ?thesis using IH bytes unfolding rec loop by (auto split: if_splits)
    qed
  qed
qed


lemma wf_from_snoc:
  "wf_from n j (cs @ [c]) \<longleftrightarrow> wf_from n j cs \<and> (\<forall>d\<in>set cs. ch_used d = kReceiveBlockSize) \<and> wf_from n (j + length cs) [c]"
proof (induction cs arbitrary: j)
  case (Cons d cs)
  show ?case unfolding append_Cons wf_from.simps(2) [of n j d] Cons.IH by auto
qed simp

lemma produced_full: "(\<forall>d\<in>set cs. ch_used d = kReceiveBlockSize) \<Longrightarrow> produced_by cs = length cs * kReceiveBlockSize"
  by (induction cs) (simp_all add: produced_by_def)

lemma wf_last:
  assumes "wf_from n 0 cs" "cs \<noteq> []"
  obtains ds c where "cs = ds @ [c]" "wf_from n 0 ds" "\<forall>d\<in>set ds. ch_used d = kReceiveBlockSize"
    "ch_offset c = length ds * kReceiveBlockSize" "length ds * kReceiveBlockSize < n"
    "ch_length c = min kReceiveBlockSize (n - length ds * kReceiveBlockSize)" "ch_used c \<le> ch_length c"
    "ch_mapping c = 0 \<longrightarrow> ch_used c = ch_length c" "produced_by cs = ch_offset c + ch_used c"
proof -
  obtain ds c where cs: "cs = ds @ [c]" using assms(2) by (cases cs rule: rev_cases) auto
  note snoc = iffD1 [OF wf_from_snoc, OF assms(1) [unfolded cs], unfolded add_0]
  note w = snoc [THEN conjunct1] snoc [THEN conjunct2, THEN conjunct1]
  have produced: "produced_by cs = length ds * kReceiveBlockSize + ch_used c"
    using produced_full [OF w(2)] by (simp add: cs produced_by_def)
  note c = snoc [THEN conjunct2, THEN conjunct2, unfolded wf_from.simps]
  then have "ch_offset c = length ds * kReceiveBlockSize" ..
  with produced c show thesis by (intro that [OF cs w]) (elim conjE; simp only:)+
qed

definition zeros :: "Chunk list \<Rightarrow> nat" where
  "zeros cs = length (filter (\<lambda>c. ch_mapping c = 0) cs)"

text \<open>Chunks that differ in blocks that were given back.\<close>

definition fewer :: "Chunk \<Rightarrow> Chunk \<Rightarrow> bool" where
  "fewer c c' \<longleftrightarrow> ch_offset c' = ch_offset c \<and> ch_length c' = ch_length c \<and> ch_used c' = ch_used c \<and>
     (ch_mapping c' = ch_mapping c \<or> ch_mapping c' = 0 \<and> ch_used c = ch_length c)"

lemma fewer_wf:
  assumes "list_all2 fewer cs cs'"
  shows "wf_from n j cs \<Longrightarrow> wf_from n j cs'" "produced_by cs' = produced_by cs"
    "holds_content mem f cs \<Longrightarrow> holds_content mem f cs'" "set (owned_blocks cs') \<subseteq> set (owned_blocks cs)"
  using assms
proof (induction arbitrary: j rule: list_all2_induct)
  case (Cons c cs c' cs')
  have f: "ch_offset c' = ch_offset c" "ch_length c' = ch_length c" "ch_used c' = ch_used c"
    "ch_mapping c' = ch_mapping c \<or> ch_mapping c' = 0 \<and> ch_used c = ch_length c" using Cons(1) by (simp_all add: fewer_def)
  have e: "cs' \<noteq> [] \<longleftrightarrow> cs \<noteq> []" using Cons(2) by auto
  { case 1
    then have "wf_from n (Suc j) cs'" using Cons(3) [of "Suc j"] by simp
    then show ?case using 1 f(4) unfolding wf_from.simps(2) f(1-3) e
      by (elim disjE conjE; intro conjI impI; (assumption | simp))
  next case 2 then show ?case using f Cons(4) by (simp add: produced_by_def)
  next case 3
    then have "holds_content mem f cs'" using Cons(5) by (simp add: holds_content_def)
    then show ?case using f 3 by (auto simp: holds_content_def)
  next case 4 then show ?case using f Cons(6) by auto }
qed simp_all

lemma fewer_refl [simp]: "fewer c c"
  by (simp add: fewer_def)

lemma discard_loop_ok:
  assumes "discard_loop off stop pool cs = (pool', cs', m, rel)" "pool_ok pool (owned_blocks cs @ xs)"
  shows "pool_ok pool' (owned_blocks cs' @ xs) \<and> (\<forall>x\<in>set (owned_blocks cs' @ xs). rb_mem pool' x = rb_mem pool x) \<and>
    list_all2 fewer cs cs' \<and> rel + kReceiveBlockSize * zeros cs = kReceiveBlockSize * zeros cs'"
  using assms
proof (induction cs arbitrary: pool pool' cs' m rel xs)
  case (Cons c cs)
  show ?case
  proof (cases "stop \<le> ch_offset c")
    case True
    then show ?thesis using Cons.prems by (simp add: list_all2_refl zeros_def)
  next
    case go: False
    let ?keep = "ch_mapping c = 0 \<or> ch_used c \<noteq> ch_length c \<or> ch_offset c < off \<or> stop < ch_offset c + ch_length c"
    let ?pool = "if ?keep then pool else release_block pool (ch_mapping c)"
    obtain pool1 cs1 m1 rel1 where r: "discard_loop off stop ?pool cs = (pool1, cs1, m1, rel1)" by (metis prod_cases4)
    show ?thesis
    proof (cases ?keep)
      case True
      let ?b = "if ch_mapping c = 0 then [] else [ch_mapping c]"
      have "pool_ok pool (owned_blocks cs @ ?b @ xs)"
        using Cons.prems(2) by (subst pool_ok_perm [of _ "owned_blocks (c # cs) @ xs"]) auto
      moreover have "discard_loop off stop pool cs = (pool1, cs1, m1, rel1)" using r True by (simp only: if_True)
      ultimately have "pool_ok pool1 (owned_blocks cs1 @ ?b @ xs) \<and> (\<forall>x\<in>set (owned_blocks cs1 @ ?b @ xs). rb_mem pool1 x = rb_mem pool x) \<and>
        list_all2 fewer cs cs1 \<and> rel1 + kReceiveBlockSize * zeros cs = kReceiveBlockSize * zeros cs1" using Cons.IH by blast
      then have IH: "pool_ok pool1 (owned_blocks cs1 @ ?b @ xs)" "\<forall>x\<in>set (owned_blocks cs1 @ ?b @ xs). rb_mem pool1 x = rb_mem pool x"
        "list_all2 fewer cs cs1" "rel1 + kReceiveBlockSize * zeros cs = kReceiveBlockSize * zeros cs1" by blast+
      have "pool_ok pool1 (owned_blocks (c # cs1) @ xs)"
        using IH(1) by (subst pool_ok_perm [of _ "owned_blocks cs1 @ ?b @ xs"]) auto
      moreover have "pool' = pool1" "cs' = c # cs1" "rel = rel1" using Cons.prems(1) r go True by auto
      ultimately show ?thesis using IH by (auto simp: zeros_def)
    next
      case False
      then have "pool_ok pool (ch_mapping c # owned_blocks cs @ xs)" using Cons.prems(2) by simp
      note rel_ok = release_ok [OF this]
      have "discard_loop off stop (release_block pool (ch_mapping c)) cs = (pool1, cs1, m1, rel1)"
        using r False by (simp only: if_False)
      from Cons.IH [OF this rel_ok(1)]
      have IH: "pool_ok pool1 (owned_blocks cs1 @ xs)"
        "\<forall>x\<in>set (owned_blocks cs1 @ xs). rb_mem pool1 x = rb_mem (release_block pool (ch_mapping c)) x"
        "list_all2 fewer cs cs1" "rel1 + kReceiveBlockSize * zeros cs = kReceiveBlockSize * zeros cs1" by blast+
      have "set (owned_blocks cs1) \<subseteq> set (owned_blocks cs)" by (rule fewer_wf(4) [OF IH(3)])
      then have "\<forall>x\<in>set (owned_blocks cs1 @ xs). rb_mem pool1 x = rb_mem pool x" using IH(2) rel_ok(2) by auto
      moreover have "pool' = pool1" "cs' = c\<lparr>ch_mapping := 0\<rparr> # cs1" "rel = rel1 + kReceiveBlockSize"
        using Cons.prems(1) r go False by auto
      moreover have "fewer c (c\<lparr>ch_mapping := 0\<rparr>)" using False by (simp add: fewer_def)
      ultimately show ?thesis using IH(1,3,4) False by (simp add: zeros_def)
    qed
  qed
qed (simp add: zeros_def)



section \<open>Ranges that share a pool\<close>

text \<open>
  The storages of one pool, each with the bytes committed to it. Budgets differ by what others
  reserve, so a step takes any state of the budget with pages of \<open>page_bytes\<close>. \<open>fill_step\<close> is the
  kernel or \<^verbatim>\<open>memcpy\<close> writing into the span that \<open>writable\<close> returned.
\<close>

record storage_world =
  sw_pool :: ReceiveBlockPool
  sw_stores :: "(AnonymousRangeStorage \<times> bytes) option list"

definition owned_store :: "(AnonymousRangeStorage \<times> bytes) option \<Rightarrow> nat list" where
  "owned_store o' = (case o' of None \<Rightarrow> [] | Some (st, c) \<Rightarrow> owned_blocks (ar_chunks st))"

definition leased :: "storage_world \<Rightarrow> nat list" where
  "leased w = concat (map owned_store (sw_stores w))"

definition fill :: "ReceiveBlockPool \<Rightarrow> nat \<Rightarrow> nat \<Rightarrow> bytes \<Rightarrow> ReceiveBlockPool" where
  "fill pool b start xs = pool\<lparr>rb_mem := (rb_mem pool)(b :=
     (\<lambda>x. if start \<le> x \<and> x < start + length xs then xs ! (x - start) else rb_mem pool b x))\<rparr>"

inductive storage_step :: "nat \<Rightarrow> storage_world \<Rightarrow> storage_world \<Rightarrow> bool" for page_bytes where
  open_step: "new_range_storage s n charge = Inr st \<Longrightarrow> bs_page_size s = page_bytes \<Longrightarrow>
    storage_step page_bytes w (w\<lparr>sw_stores := sw_stores w @ [Some (st, [])]\<rparr>)"
| writable_step: "i < length (sw_stores w) \<Longrightarrow> sw_stores w ! i = Some (st, c) \<Longrightarrow> fresh_map (sw_pool w) (leased w) mmap \<Longrightarrow>
    writable (sw_pool w) st maximum mmap = (Inr (st', sp), pool') \<Longrightarrow>
    storage_step page_bytes w (w\<lparr>sw_pool := pool', sw_stores := (sw_stores w)[i := Some (st', c)]\<rparr>)"
| refused_step: "i < length (sw_stores w) \<Longrightarrow> sw_stores w ! i = Some (st, c) \<Longrightarrow> fresh_map (sw_pool w) (leased w) mmap \<Longrightarrow>
    writable (sw_pool w) st maximum mmap = (Inl e, pool') \<Longrightarrow> storage_step page_bytes w (w\<lparr>sw_pool := pool'\<rparr>)"
| fill_step: "i < length (sw_stores w) \<Longrightarrow> sw_stores w ! i = Some (st, c) \<Longrightarrow> ar_chunks st \<noteq> [] \<Longrightarrow>
    d = last (ar_chunks st) \<Longrightarrow> ch_mapping d \<noteq> 0 \<Longrightarrow> length xs \<le> ch_length d - (ar_produced st - ch_offset d) \<Longrightarrow>
    storage_step page_bytes w (w\<lparr>sw_pool := fill (sw_pool w) (ch_mapping d) (ar_produced st - ch_offset d) xs\<rparr>)"
| commit_step: "i < length (sw_stores w) \<Longrightarrow> sw_stores w ! i = Some (st, c) \<Longrightarrow> commit st n = Inr st' \<Longrightarrow>
    d = last (ar_chunks st) \<Longrightarrow> xs = map (rb_mem (sw_pool w) (ch_mapping d)) [ch_used d ..< ch_used d + n] \<Longrightarrow>
    storage_step page_bytes w (w\<lparr>sw_stores := (sw_stores w)[i := Some (st', c @ xs)]\<rparr>)"
| discard_step: "i < length (sw_stores w) \<Longrightarrow> sw_stores w ! i = Some (st, c) \<Longrightarrow> bs_page_size s = page_bytes \<Longrightarrow>
    discard s (sw_pool w) st offset n = Inr (k, b, pool', st') \<Longrightarrow>
    storage_step page_bytes w (w\<lparr>sw_pool := pool', sw_stores := (sw_stores w)[i := Some (st', c)]\<rparr>)"
| retry_step: "i < length (sw_stores w) \<Longrightarrow> sw_stores w ! i = Some (st, c) \<Longrightarrow>
    release_for_retry (sw_pool w) st = (r, pool', st') \<Longrightarrow>
    storage_step page_bytes w (w\<lparr>sw_pool := pool', sw_stores := (sw_stores w)[i := Some (st', [])]\<rparr>)"
| close_step: "i < length (sw_stores w) \<Longrightarrow> sw_stores w ! i = Some (st, c) \<Longrightarrow>
    release_storage s (sw_pool w) st = (b, pool', st') \<Longrightarrow>
    storage_step page_bytes w (w\<lparr>sw_pool := pool', sw_stores := (sw_stores w)[i := None]\<rparr>)"
| preallocate_step: "\<forall>j. fresh_map (sw_pool w) (leased w) (mmaps j) \<Longrightarrow>
    \<forall>i j b. i < j \<longrightarrow> mmaps i = Inr b \<longrightarrow> mmaps j \<noteq> Inr b \<Longrightarrow> preallocate (sw_pool w) n mmaps = (r, pool') \<Longrightarrow>
    storage_step page_bytes w (w\<lparr>sw_pool := pool'\<rparr>)"

inductive storage_reachable :: "nat \<Rightarrow> storage_world \<Rightarrow> bool" for page_bytes where
  storage_begin: "new_block_pool capacity mem = Inr pool \<Longrightarrow> storage_reachable page_bytes \<lparr>sw_pool = pool, sw_stores = []\<rparr>"
| storage_next: "storage_reachable page_bytes w \<Longrightarrow> storage_step page_bytes w w' \<Longrightarrow> storage_reachable page_bytes w'"

definition block_count :: "nat \<Rightarrow> nat" where
  "block_count n = (n + kReceiveBlockSize - 1) div kReceiveBlockSize"

definition storage_ok :: "nat \<Rightarrow> (nat \<Rightarrow> nat \<Rightarrow> u8) \<Rightarrow> AnonymousRangeStorage \<Rightarrow> bytes \<Rightarrow> bool" where
  "storage_ok page_bytes mem st c \<longleftrightarrow>
     wf_from (ar_size st) 0 (ar_chunks st) \<and> ar_produced st = produced_by (ar_chunks st) \<and> length c = ar_produced st \<and>
     holds_content mem (\<lambda>k. c ! k) (ar_chunks st) \<and>
     (rv_bytes (ar_charge st) \<noteq> 0 \<longrightarrow> rv_state (ar_charge st) \<and> page_bytes dvd kReceiveBlockSize \<and>
        rv_bytes (ar_charge st) + kReceiveBlockSize * zeros (ar_chunks st) = kReceiveBlockSize * block_count (ar_size st))"

definition storage_inv :: "nat \<Rightarrow> storage_world \<Rightarrow> bool" where
  "storage_inv page_bytes w \<longleftrightarrow> pool_ok (sw_pool w) (leased w) \<and>
     (\<forall>i<length (sw_stores w). \<forall>st c. sw_stores w ! i = Some (st, c) \<longrightarrow> storage_ok page_bytes (rb_mem (sw_pool w)) st c)"

lemma holds_content_cong:
  assumes "\<forall>b\<in>set (owned_blocks cs). mem' b = mem b"
  shows "holds_content mem' f cs = holds_content mem f cs"
  using assms by (auto simp: holds_content_def owned_blocks_def)

definition other_blocks :: "storage_world \<Rightarrow> nat \<Rightarrow> nat list" where
  "other_blocks w i = concat (map owned_store (take i (sw_stores w) @ drop (Suc i) (sw_stores w)))"

lemma leased_split:
  assumes "i < length (sw_stores w)"
  shows "mset (leased w) = mset (owned_store (sw_stores w ! i) @ other_blocks w i)"
    "mset (concat (map owned_store ((sw_stores w)[i := x]))) = mset (owned_store x @ other_blocks w i)"
proof -
  show upd: "mset (concat (map owned_store ((sw_stores w)[i := x]))) = mset (owned_store x @ other_blocks w i)" for x
    using assms by (simp add: upd_conv_take_nth_drop other_blocks_def)
  show "mset (leased w) = mset (owned_store (sw_stores w ! i) @ other_blocks w i)"
    using upd [of "sw_stores w ! i"] by (simp add: leased_def)
qed

lemma others_owned:
  assumes "k < length (sw_stores w)" "k \<noteq> i" "b \<in> set (owned_store (sw_stores w ! k))"
  shows "b \<in> set (other_blocks w i)"
proof (cases "k < i")
  case True
  then have "sw_stores w ! k \<in> set (take i (sw_stores w))" using assms(1) by (metis in_set_conv_nth length_take min_less_iff_conj nth_take)
  then show ?thesis using assms(3) by (auto simp: other_blocks_def)
next
  case False
  then have "sw_stores w ! k \<in> set (drop (Suc i) (sw_stores w))"
    using assms(1,2) by (auto simp: in_set_conv_nth intro!: exI [of _ "k - Suc i"])
  then show ?thesis using assms(3) by (auto simp: other_blocks_def)
qed

lemma world_update:
  assumes "storage_inv p w" "i < length (sw_stores w)" "pool_ok pool' (owned_store x @ other_blocks w i)"
    and "\<forall>b\<in>set (other_blocks w i). rb_mem pool' b = rb_mem (sw_pool w) b"
    and "\<forall>st c. x = Some (st, c) \<longrightarrow> storage_ok p (rb_mem pool') st c"
  shows "storage_inv p (w\<lparr>sw_pool := pool', sw_stores := (sw_stores w)[i := x]\<rparr>)"
proof -
  let ?w = "w\<lparr>sw_pool := pool', sw_stores := (sw_stores w)[i := x]\<rparr>"
  have "pool_ok pool' (leased ?w)"
    using assms(3) pool_ok_perm [OF leased_split(2) [OF assms(2)], of pool' x] by (simp add: leased_def)
  moreover have "storage_ok p (rb_mem pool') st c" if k: "k < length (sw_stores w)" "(sw_stores w)[i := x] ! k = Some (st, c)" for k st c
  proof (cases "k = i")
    case True
    then show ?thesis using k assms(2,5) by simp
  next
    case False
    then have s: "sw_stores w ! k = Some (st, c)" using k(2) by simp
    then have "storage_ok p (rb_mem (sw_pool w)) st c" using assms(1) k(1) by (simp add: storage_inv_def)
    moreover have "\<forall>b\<in>set (owned_blocks (ar_chunks st)). rb_mem pool' b = rb_mem (sw_pool w) b"
      using others_owned [OF k(1) False] s assms(4) by (simp add: owned_store_def)
    ultimately show ?thesis unfolding storage_ok_def using holds_content_cong by blast
  qed
  ultimately show ?thesis by (simp add: storage_inv_def)
qed


lemma world_pool:
  assumes "storage_inv p w" "pool_ok pool' (leased w)" "\<forall>b\<in>set (leased w). rb_mem pool' b = rb_mem (sw_pool w) b"
  shows "storage_inv p (w\<lparr>sw_pool := pool'\<rparr>)"
proof -
  have "storage_ok p (rb_mem pool') st c" if k: "k < length (sw_stores w)" "sw_stores w ! k = Some (st, c)" for k st c
  proof -
    have "owned_blocks (ar_chunks st) = owned_store (sw_stores w ! k)" using k(2) by (simp add: owned_store_def)
    then have "\<forall>b\<in>set (owned_blocks (ar_chunks st)). rb_mem pool' b = rb_mem (sw_pool w) b"
      using assms(3) nth_mem [OF k(1)] by (auto simp: leased_def)
    moreover have "storage_ok p (rb_mem (sw_pool w)) st c" using assms(1) k by (simp add: storage_inv_def)
    ultimately show ?thesis unfolding storage_ok_def using holds_content_cong by blast
  qed
  then show ?thesis using assms(2) by (simp add: storage_inv_def leased_def)
qed

lemma full_chunks:
  assumes "wf_from n 0 cs" "produced_by cs < n" "cs = [] \<or> ch_offset (last cs) + ch_length (last cs) \<le> produced_by cs"
  shows "\<forall>d\<in>set cs. ch_used d = kReceiveBlockSize"
proof (cases "cs = []")
  case False
  from wf_last [OF assms(1) False] obtain ds c where c: "cs = ds @ [c]" "\<forall>d\<in>set ds. ch_used d = kReceiveBlockSize"
    "ch_offset c = length ds * kReceiveBlockSize" "length ds * kReceiveBlockSize < n"
    "ch_length c = min kReceiveBlockSize (n - length ds * kReceiveBlockSize)" "ch_used c \<le> ch_length c"
    "produced_by cs = ch_offset c + ch_used c" .
  have "ch_offset c + ch_length c \<le> ch_offset c + ch_used c" using assms(3) False c(1,7) by simp
  then have "ch_used c = ch_length c" using c(6) by linarith
  moreover have "ch_length c \<noteq> n - length ds * kReceiveBlockSize" using assms(2) c(3,4,7) calculation by linarith
  ultimately show ?thesis using c(1,2,5) by (auto simp: min_def split: if_splits)
qed simp

lemma produced_le:
  assumes "wf_from n 0 cs"
  shows "produced_by cs \<le> n" "length cs \<le> block_count n"
proof -
  have "produced_by cs \<le> n \<and> length cs \<le> block_count n"
  proof (cases "cs = []")
    case False
    from wf_last [OF assms False] obtain ds c where c: "cs = ds @ [c]"
      "ch_offset c = length ds * kReceiveBlockSize" "length ds * kReceiveBlockSize < n"
      "ch_length c = min kReceiveBlockSize (n - length ds * kReceiveBlockSize)" "ch_used c \<le> ch_length c"
      "produced_by cs = ch_offset c + ch_used c" .
    have "length cs * kReceiveBlockSize \<le> n + kReceiveBlockSize - 1" using c(1,3) by simp
    then have "length cs \<le> block_count n"
      unfolding block_count_def by (metis block_size_pos div_le_mono nonzero_mult_div_cancel_right less_irrefl)
    moreover have "ch_used c \<le> n - length ds * kReceiveBlockSize" using c(4,5) by (metis min.bounded_iff)
    ultimately show ?thesis using c(2,3,6) by linarith
  qed (simp add: produced_by_def)
  then show "produced_by cs \<le> n" "length cs \<le> block_count n" by simp_all
qed

lemma allocate_next_ok:
  assumes "storage_ok p (rb_mem pool) st c" "pool_ok pool (owned_blocks (ar_chunks st) @ xs)"
    "fresh_map pool (owned_blocks (ar_chunks st) @ xs) mmap" "ar_produced st < ar_size st"
    "ar_chunks st = [] \<or> ch_offset (last (ar_chunks st)) + ch_length (last (ar_chunks st)) \<le> ar_produced st"
    "allocate_next pool st mmap = (r, pool')"
  shows "case r of Inl e \<Rightarrow> pool' = pool
    | Inr st' \<Rightarrow> pool_ok pool' (owned_blocks (ar_chunks st') @ xs) \<and> (\<forall>b\<in>set xs. rb_mem pool' b = rb_mem pool b) \<and>
        storage_ok p (rb_mem pool') st' c \<and> ar_produced st' = ar_produced st \<and>
        (\<exists>b. last (ar_chunks st') = \<lparr>ch_mapping = b, ch_offset = ar_produced st,
           ch_length = min kReceiveBlockSize (ar_size st - ar_produced st), ch_used = 0\<rparr> \<and> b \<noteq> 0)"
proof -
  let ?cs = "ar_chunks st"
  have st: "wf_from (ar_size st) 0 ?cs" "ar_produced st = produced_by ?cs" "length c = ar_produced st"
    "holds_content (rb_mem pool) (\<lambda>k. c ! k) ?cs" using assms(1) by (simp_all add: storage_ok_def)
  obtain q pool1 where q: "acquire_block pool mmap = (q, pool1)" by (cases "acquire_block pool mmap")
  note ok = acquire_ok [OF assms(2,3) q]
  show ?thesis
  proof (cases q)
    case (Inl e)
    then show ?thesis using assms(4,6) q ok by (auto simp: allocate_next_def)
  next
    case (Inr b)
    let ?new = "\<lparr>ch_mapping = b, ch_offset = ar_produced st, ch_length = min kReceiveBlockSize (ar_size st - ar_produced st), ch_used = 0\<rparr>"
    let ?st = "st\<lparr>ar_chunks := ?cs @ [?new]\<rparr>"
    have r: "r = Inr ?st" "pool' = pool1" using assms(4,6) q Inr by (auto simp: allocate_next_def)
    have b: "pool_ok pool1 (b # owned_blocks ?cs @ xs)" "\<forall>x\<in>set (owned_blocks ?cs @ xs). rb_mem pool1 x = rb_mem pool x"
      using ok Inr by simp_all
    have "b \<noteq> 0" using b(1) by (auto simp: pool_ok_def)
    have full: "\<forall>d\<in>set ?cs. ch_used d = kReceiveBlockSize"
      using full_chunks [OF st(1)] assms(4,5) st(2) by simp
    have len: "ar_produced st = length ?cs * kReceiveBlockSize" using produced_full [OF full] st(2) by simp
    have "wf_from (ar_size st) 0 (?cs @ [?new])"
      unfolding wf_from_snoc using st(1) full assms(4) \<open>b \<noteq> 0\<close> len by simp
    moreover have "holds_content (rb_mem pool1) (\<lambda>k. c ! k) (?cs @ [?new])"
    proof -
      have "holds_content (rb_mem pool1) (\<lambda>k. c ! k) ?cs"
        using holds_content_cong [of ?cs "rb_mem pool1" "rb_mem pool"] b(2) st(4) by simp
      then show ?thesis by (simp add: holds_content_def)
    qed
    ultimately have "storage_ok p (rb_mem pool1) ?st c"
      using assms(1) \<open>b \<noteq> 0\<close> by (simp add: storage_ok_def produced_by_def zeros_def)
    moreover have "pool_ok pool1 (owned_blocks (?cs @ [?new]) @ xs)"
      using b(1) \<open>b \<noteq> 0\<close> by (subst pool_ok_perm [of _ "b # owned_blocks ?cs @ xs"]) simp_all
    ultimately show ?thesis using r b(2) \<open>b \<noteq> 0\<close> by simp
  qed
qed


lemma writable_ok:
  assumes "storage_ok p (rb_mem pool) st c" "pool_ok pool (owned_blocks (ar_chunks st) @ xs)"
    "fresh_map pool (owned_blocks (ar_chunks st) @ xs) mmap" "writable pool st maximum mmap = (r, pool')"
  shows "case r of Inl e \<Rightarrow> pool' = pool
    | Inr (st', sp) \<Rightarrow> pool_ok pool' (owned_blocks (ar_chunks st') @ xs) \<and> (\<forall>b\<in>set xs. rb_mem pool' b = rb_mem pool b) \<and>
        storage_ok p (rb_mem pool') st' c"
proof -
  let ?cs = "ar_chunks st"
  have st: "wf_from (ar_size st) 0 ?cs" "ar_produced st = produced_by ?cs" using assms(1) by (simp_all add: storage_ok_def)
  have le: "ar_produced st \<le> ar_size st" using produced_le(1) [OF st(1)] st(2) by simp
  consider "maximum = 0 \<or> ar_produced st = ar_size st"
    | (full) "maximum \<noteq> 0" "ar_produced st < ar_size st" "?cs = [] \<or> ch_offset (last ?cs) + ch_length (last ?cs) \<le> ar_produced st"
    | (room) "maximum \<noteq> 0" "ar_produced st < ar_size st" "?cs \<noteq> []" "ar_produced st < ch_offset (last ?cs) + ch_length (last ?cs)"
    using le by linarith
  then show ?thesis
  proof cases
    case 1
    then have "r = Inr (st, None)" "pool' = pool" using assms(4) by (auto simp: writable_def)
    then show ?thesis using assms(1,2) by simp
  next
    case full
    obtain q pool1 where q: "allocate_next pool st mmap = (q, pool1)" by (cases "allocate_next pool st mmap")
    note ok = allocate_next_ok [OF assms(1-3) full(2,3) q]
    show ?thesis
    proof (cases q)
      case (Inl e)
      then have "r = Inl e" "pool' = pool" using assms(4) full q ok by (simp_all add: writable_def)
      then show ?thesis by simp
    next
      case (Inr st')
      then obtain b where b: "last (ar_chunks st') = \<lparr>ch_mapping = b, ch_offset = ar_produced st,
           ch_length = min kReceiveBlockSize (ar_size st - ar_produced st), ch_used = 0\<rparr>" "b \<noteq> 0" "ar_produced st' = ar_produced st"
        using ok by auto
      then have "\<exists>sp. r = Inr (st', sp)" "pool' = pool1"
        using assms(4) full q Inr by (auto simp: writable_def Let_def)
      then show ?thesis using ok Inr by auto
    qed
  next
    case room
    from wf_last [OF st(1) room(3)] obtain ds d where d: "?cs = ds @ [d]" "ch_used d \<le> ch_length d"
      "ch_mapping d = 0 \<longrightarrow> ch_used d = ch_length d" "produced_by ?cs = ch_offset d + ch_used d" .
    have "ch_mapping d \<noteq> 0" using room(4) d st(2) by auto
    then have "\<exists>sp. r = Inr (st, sp)" "pool' = pool"
      using assms(4) room d(1,2,4) st(2) by (auto simp: writable_def Let_def)
    then show ?thesis using assms(1,2) by auto
  qed
qed

lemma wf_offset_bound:
  "wf_from n j cs \<Longrightarrow> e \<in> set cs \<Longrightarrow> ch_offset e + kReceiveBlockSize \<le> (j + length cs) * kReceiveBlockSize"
proof (induction cs arbitrary: j)
  case (Cons c cs)
  show ?case
  proof (cases "e = c")
    case False
    then show ?thesis using Cons.IH [of "Suc j"] Cons.prems by simp
  qed (use Cons.prems in simp)
qed simp

lemma commit_ok:
  assumes "storage_ok p mem st c" "commit st n = Inr st'" "d = last (ar_chunks st)"
  shows "storage_ok p mem st' (c @ map (mem (ch_mapping d)) [ch_used d ..< ch_used d + n])"
    "owned_blocks (ar_chunks st') = owned_blocks (ar_chunks st)"
proof -
  let ?c = "c @ map (mem (ch_mapping d)) [ch_used d ..< ch_used d + n]"
  have st: "wf_from (ar_size st) 0 (ar_chunks st)" "ar_produced st = produced_by (ar_chunks st)" "length c = ar_produced st"
    "holds_content mem (\<lambda>k. c ! k) (ar_chunks st)" using assms(1) by (simp_all add: storage_ok_def)
  have ne: "ar_chunks st \<noteq> []" using assms(2) by (auto simp: commit_def)
  from wf_last [OF st(1) ne] obtain ds where ds: "ar_chunks st = ds @ [d]" "wf_from (ar_size st) 0 ds"
    "\<forall>d\<in>set ds. ch_used d = kReceiveBlockSize" "ch_offset d = length ds * kReceiveBlockSize"
    "length ds * kReceiveBlockSize < ar_size st" "produced_by (ar_chunks st) = ch_offset d + ch_used d"
    "ch_length d = min kReceiveBlockSize (ar_size st - length ds * kReceiveBlockSize)"
    using assms(3) by (metis last_snoc)
  have new: "ch_mapping d \<noteq> 0" "ch_used d + n \<le> ch_length d"
    "st' = st\<lparr>ar_chunks := ds @ [d\<lparr>ch_used := ch_used d + n\<rparr>], ar_produced := ar_produced st + n\<rparr>"
    using assms(2) ds(1) by (auto simp: commit_def Let_def split: if_splits)
  have "holds_content mem (\<lambda>k. ?c ! k) (ds @ [d\<lparr>ch_used := ch_used d + n\<rparr>])"
  proof -
    have "mem (ch_mapping e) x = ?c ! (ch_offset e + x)" if e: "e \<in> set ds" "ch_mapping e \<noteq> 0" "x < ch_used e" for e x
    proof -
      have "ch_offset e + x < length c"
        using wf_offset_bound [OF ds(2) e(1)] ds(3,4,6) e(1,3) st(2,3) by fastforce
      then show ?thesis using st(4) e ds(1) by (simp add: holds_content_def nth_append)
    qed
    moreover have "mem (ch_mapping d) x = ?c ! (ch_offset d + x)" if x: "x < ch_used d + n" for x
    proof (cases "x < ch_used d")
      case True
      then show ?thesis using st(2-4) ds(1,6) new(1) by (simp add: holds_content_def nth_append)
    next
      case False
      define y where "y = x - ch_used d"
      have y: "x = ch_used d + y" "y < n" using False x by (simp_all add: y_def)
      then have "ch_offset d + x = length c + y" using st(2,3) ds(6) by simp
      then show ?thesis using y by (simp only: nth_append_length_plus) simp
    qed
    ultimately show ?thesis by (auto simp: holds_content_def)
  qed
  moreover have "wf_from (ar_size st) 0 (ds @ [d\<lparr>ch_used := ch_used d + n\<rparr>])"
    unfolding wf_from_snoc using ds(2-5,7) new(1,2) by simp
  moreover have "produced_by (ds @ [d\<lparr>ch_used := ch_used d + n\<rparr>]) = ar_produced st + n"
    using ds(1) st(2) by (simp add: produced_by_def)
  moreover have "zeros (ds @ [d\<lparr>ch_used := ch_used d + n\<rparr>]) = zeros (ar_chunks st)" using ds(1) by (simp add: zeros_def)
  ultimately show "storage_ok p mem st' ?c" using assms(1) st(3) new(3) by (simp add: storage_ok_def)
  show "owned_blocks (ar_chunks st') = owned_blocks (ar_chunks st)" using new(3) ds(1) by simp
qed


lemma fill_ok:
  assumes "storage_ok p (rb_mem pool) st c" "distinct (owned_blocks (ar_chunks st))" "ar_chunks st \<noteq> []"
    "d = last (ar_chunks st)" "ch_mapping d \<noteq> 0"
  shows "storage_ok p (rb_mem (fill pool (ch_mapping d) (ar_produced st - ch_offset d) xs)) st c"
proof -
  let ?mem = "rb_mem (fill pool (ch_mapping d) (ar_produced st - ch_offset d) xs)"
  have st: "wf_from (ar_size st) 0 (ar_chunks st)" "ar_produced st = produced_by (ar_chunks st)"
    "holds_content (rb_mem pool) (\<lambda>k. c ! k) (ar_chunks st)" using assms(1) by (simp_all add: storage_ok_def)
  from wf_last [OF st(1) assms(3)] obtain ds where ds: "ar_chunks st = ds @ [d]"
    "produced_by (ar_chunks st) = ch_offset d + ch_used d" using assms(4) by (metis last_snoc)
  have "?mem (ch_mapping e) x = rb_mem pool (ch_mapping e) x"
    if e: "e \<in> set (ar_chunks st)" "ch_mapping e \<noteq> 0" "x < ch_used e" for e x
  proof (cases "ch_mapping e = ch_mapping d")
    case True
    have "e \<notin> set ds"
    proof
      assume "e \<in> set ds"
      then have "ch_mapping d \<in> set (owned_blocks ds)" using True assms(5) by (auto simp: owned_blocks_def image_iff intro!: bexI [of _ e])
      then show False using assms(2,5) ds(1) by simp
    qed
    then have "e = d" using e(1) ds(1) by simp
    then show ?thesis using e(3) st(2) ds(2) by (simp add: fill_def)
  next
    case False
    then show ?thesis by (simp add: fill_def)
  qed
  then have "holds_content ?mem (\<lambda>k. c ! k) (ar_chunks st)" using st(3) by (simp add: holds_content_def)
  then show ?thesis using assms(1) by (simp add: storage_ok_def)
qed

lemma fill_pool_ok:
  assumes "pool_ok pool xs" "b \<in> set xs"
  shows "pool_ok (fill pool b start ys) xs"
proof -
  obtain fs where fs: "chain (rb_mem pool) (rb_free pool) fs" "distinct (fs @ xs)" using assms(1) unfolding pool_ok_def by blast
  then have "chain (rb_mem (fill pool b start ys)) (rb_free pool) fs"
    using assms(2) by (subst chain_cong [of fs _ "rb_mem pool"]) (auto simp: fill_def)
  then have "chain (rb_mem (fill pool b start ys)) (rb_free pool) gs = chain (rb_mem pool) (rb_free pool) gs" for gs
    using fs(1) chain_unique by blast
  then show ?thesis using assms(1) by (simp add: pool_ok_def fill_def)
qed

text \<open>The charge always covers what \<open>discard\<close> gives back, so its split cannot fail.\<close>

lemma discard_ok:
  assumes "storage_ok p (rb_mem pool) st c" "pool_ok pool (owned_blocks (ar_chunks st) @ xs)" "bs_page_size s = p"
  obtains k b pool' st' where "discard s pool st offset n = Inr (k, b, pool', st')"
    "pool_ok pool' (owned_blocks (ar_chunks st') @ xs)" "\<forall>b\<in>set xs. rb_mem pool' b = rb_mem pool b"
    "storage_ok p (rb_mem pool') st' c" "list_all2 fewer (ar_chunks st) (ar_chunks st')"
    "rv_bytes (ar_charge st) \<noteq> 0 \<longrightarrow> rv_bytes (ar_charge st') + kReceiveBlockSize * zeros (ar_chunks st') =
      rv_bytes (ar_charge st) + kReceiveBlockSize * zeros (ar_chunks st)"
proof (cases "ar_produced st < offset \<or> ar_produced st - offset < n")
  case True
  then show thesis using that [of 0 "(s, [])" pool st] assms by (simp add: discard_def list_all2_refl)
next
  case False
  let ?i = "offset div kReceiveBlockSize" and ?cs = "ar_chunks st"
  obtain pool' cs' m rel where l: "discard_loop offset (offset + n) pool (drop ?i ?cs) = (pool', cs', m, rel)"
    by (metis prod_cases4)
  have "owned_blocks ?cs = owned_blocks (take ?i ?cs) @ owned_blocks (drop ?i ?cs)"
    by (metis append_take_drop_id owned_blocks_simps(2))
  then have "pool_ok pool (owned_blocks (drop ?i ?cs) @ owned_blocks (take ?i ?cs) @ xs)"
    using assms(2) by (subst pool_ok_perm [of _ "owned_blocks ?cs @ xs"]) simp_all
  from discard_loop_ok [OF l this] have d: "pool_ok pool' (owned_blocks cs' @ owned_blocks (take ?i ?cs) @ xs)"
    "\<forall>x\<in>set (owned_blocks cs' @ owned_blocks (take ?i ?cs) @ xs). rb_mem pool' x = rb_mem pool x"
    "list_all2 fewer (drop ?i ?cs) cs'" "rel + kReceiveBlockSize * zeros (drop ?i ?cs) = kReceiveBlockSize * zeros cs'"
    by blast+
  define new where "new = take ?i ?cs @ cs'"
  have "list_all2 fewer (take ?i ?cs @ drop ?i ?cs) new"
    unfolding new_def using d(3) by (intro list_all2_appendI) (simp_all add: list_all2_refl)
  then have fewer: "list_all2 fewer ?cs new" by simp
  have z: "rel + kReceiveBlockSize * zeros ?cs = kReceiveBlockSize * zeros new"
  proof -
    have "zeros ?cs = zeros (take ?i ?cs) + zeros (drop ?i ?cs)"
      unfolding zeros_def by (metis append_take_drop_id filter_append length_append)
    moreover have "zeros new = zeros (take ?i ?cs) + zeros cs'" by (simp add: new_def zeros_def)
    ultimately show ?thesis using d(4) by (simp add: algebra_simps)
  qed
  have owned: "pool_ok pool' (owned_blocks new @ xs)" "\<forall>x\<in>set (owned_blocks new). rb_mem pool' x = rb_mem pool x"
    using d(1,2) pool_ok_perm [of "owned_blocks cs' @ owned_blocks (take ?i ?cs) @ xs" "owned_blocks new @ xs"]
    by (auto simp: new_def)
  have st: "wf_from (ar_size st) 0 ?cs" "holds_content (rb_mem pool) (\<lambda>k. c ! k) ?cs" using assms(1) by (simp_all add: storage_ok_def)
  have "holds_content (rb_mem pool') (\<lambda>k. c ! k) new"
    using fewer_wf(3) [OF fewer st(2)] holds_content_cong [OF owned(2)] by simp
  moreover note fewer_wf(1) [OF fewer st(1)] fewer_wf(2) [OF fewer]
  moreover have room: "kReceiveBlockSize * zeros new \<le> kReceiveBlockSize * block_count (ar_size st)"
    using produced_le(2) [OF calculation(2)] unfolding zeros_def by (meson le_trans length_filter_le mult_le_mono2)
  ultimately have ok: "storage_ok p (rb_mem pool') (st\<lparr>ar_chunks := new, ar_charge := r\<rparr>) c"
    if "rv_bytes r \<noteq> 0 \<Longrightarrow> rv_state r \<and> p dvd kReceiveBlockSize \<and>
      rv_bytes r + kReceiveBlockSize * zeros new = kReceiveBlockSize * block_count (ar_size st)" for r
    using that assms(1) by (simp add: storage_ok_def)
  show thesis
  proof (cases "rv_bytes (ar_charge st) \<noteq> 0 \<and> rel \<noteq> 0")
    case True
    have ch: "rv_state (ar_charge st)" "p dvd kReceiveBlockSize"
      "rv_bytes (ar_charge st) + kReceiveBlockSize * zeros ?cs = kReceiveBlockSize * block_count (ar_size st)"
      using assms(1) True by (simp_all add: storage_ok_def)
    have "rel = kReceiveBlockSize * (zeros new - zeros ?cs)" using z by (simp add: diff_mult_distrib2)
    then have "p dvd rel" using ch(2) by simp
    moreover have le: "rel \<le> rv_bytes (ar_charge st)" using z ch(3) room by linarith
    ultimately have sp: "split_reservation s (ar_charge st) rel =
        Inr ((ar_charge st)\<lparr>rv_bytes := rv_bytes (ar_charge st) - rel\<rparr>, (ar_charge st)\<lparr>rv_bytes := rel\<rparr>)"
      using True ch(1) assms(3) by (simp add: split_reservation_def)
    let ?st = "st\<lparr>ar_chunks := new, ar_charge := (ar_charge st)\<lparr>rv_bytes := rv_bytes (ar_charge st) - rel\<rparr>\<rparr>"
    have "discard s pool st offset n = Inr (m, reset_reservation s ((ar_charge st)\<lparr>rv_bytes := rel\<rparr>), pool', ?st)"
      using False True l sp by (simp add: discard_def Let_def new_def)
    moreover have "storage_ok p (rb_mem pool') ?st c"
      by (rule ok) (use ch z le in simp)
    moreover have "rv_bytes (ar_charge st) - rel + kReceiveBlockSize * zeros new =
        rv_bytes (ar_charge st) + kReceiveBlockSize * zeros ?cs" using z le by linarith
    ultimately show thesis using that [of m _ pool' ?st] owned(1) d(2) fewer by simp
  next
    case none: False
    have "discard s pool st offset n = Inr (m, (s, []), pool', st\<lparr>ar_chunks := new\<rparr>)"
      unfolding discard_def l prod.case Let_def if_not_P [OF False] if_not_P [OF none] new_def ..
    moreover have "storage_ok p (rb_mem pool') (st\<lparr>ar_chunks := new, ar_charge := ar_charge st\<rparr>) c"
      by (rule ok) (use assms(1) none z in \<open>auto simp: storage_ok_def\<close>)
    ultimately show thesis using that owned(1) d(2) fewer z none by auto
  qed
qed


lemma storage_at:
  assumes "storage_inv p w" "i < length (sw_stores w)" "sw_stores w ! i = Some (st, c)"
  shows "storage_ok p (rb_mem (sw_pool w)) st c" "pool_ok (sw_pool w) (owned_blocks (ar_chunks st) @ other_blocks w i)"
    "fresh_map (sw_pool w) (leased w) m \<Longrightarrow> fresh_map (sw_pool w) (owned_blocks (ar_chunks st) @ other_blocks w i) m"
proof -
  have m: "mset (leased w) = mset (owned_blocks (ar_chunks st) @ other_blocks w i)"
    using leased_split(1) [OF assms(2)] assms(3) by (simp add: owned_store_def)
  show "storage_ok p (rb_mem (sw_pool w)) st c" using assms by (simp add: storage_inv_def)
  show "pool_ok (sw_pool w) (owned_blocks (ar_chunks st) @ other_blocks w i)"
    using assms(1) pool_ok_perm [OF m] by (simp add: storage_inv_def)
  show "fresh_map (sw_pool w) (owned_blocks (ar_chunks st) @ other_blocks w i) m" if "fresh_map (sw_pool w) (leased w) m"
    using that mset_eq_setD [OF m] by (simp add: fresh_map_def)
qed

lemma update_store:
  assumes "storage_inv p w" "i < length (sw_stores w)" "pool_ok pool' (owned_blocks (ar_chunks st') @ other_blocks w i)"
    "\<forall>b\<in>set (other_blocks w i). rb_mem pool' b = rb_mem (sw_pool w) b" "storage_ok p (rb_mem pool') st' c"
  shows "storage_inv p (w\<lparr>sw_pool := pool', sw_stores := (sw_stores w)[i := Some (st', c)]\<rparr>)"
  using world_update [OF assms(1,2), of pool' "Some (st', c)"] assms(3-5) by (simp add: owned_store_def)

lemma storage_inv_step:
  assumes "storage_step p w w'" "storage_inv p w"
  shows "storage_inv p w'"
  using assms(1)
proof cases
  case (open_step s n charge st)
  have st: "st = \<lparr>ar_size = n, ar_produced = 0, ar_charge = charge, ar_chunks = []\<rparr>"
    "rv_bytes charge \<noteq> 0 \<Longrightarrow> rv_bytes charge = block_count n * kReceiveBlockSize \<and> kReceiveBlockSize mod reservation_page_size s charge = 0"
    using open_step(2) by (auto simp: new_range_storage_def Let_def block_count_def split: if_splits)
  have "storage_ok p (rb_mem (sw_pool w)) st []"
    using st open_step(3) block_size_pos less_irrefl
    by (auto simp del: block_size_pos simp: storage_ok_def holds_content_def produced_by_def zeros_def reservation_page_size_def mult.commute split: if_splits)
  moreover have "leased w' = leased w" using open_step(1) st(1) by (simp add: leased_def owned_store_def)
  ultimately show ?thesis using assms(2) open_step(1) by (auto simp: storage_inv_def nth_append less_Suc_eq)
next
  case (writable_step i st c mmap maximum st' sp pool')
  note at = storage_at [OF assms(2) writable_step(2,3)]
  from writable_ok [OF at(1,2) at(3) [OF writable_step(4)] writable_step(5)] show ?thesis
    unfolding writable_step(1) by (intro update_store [OF assms(2) writable_step(2)]) simp_all
next
  case (refused_step i st c mmap maximum e pool')
  note at = storage_at [OF assms(2) refused_step(2,3)]
  have "pool' = sw_pool w"
    using writable_ok [OF at(1,2) at(3) [OF refused_step(4)] refused_step(5)] by simp
  then show ?thesis using assms(2) refused_step(1) by simp
next
  case (fill_step i st c d xs)
  note at = storage_at [OF assms(2) fill_step(2,3)]
  let ?pool = "fill (sw_pool w) (ch_mapping d) (ar_produced st - ch_offset d) xs"
  have d: "ch_mapping d \<in> set (owned_blocks (ar_chunks st))"
    using fill_step(4-6) by (simp add: owned_blocks_def)
  have dist: "distinct (owned_blocks (ar_chunks st) @ other_blocks w i)" using at(2) by (auto simp: pool_ok_def)
  have "storage_inv p (w\<lparr>sw_pool := ?pool, sw_stores := (sw_stores w)[i := Some (st, c)]\<rparr>)"
  proof (rule update_store [OF assms(2) fill_step(2)])
    show "pool_ok ?pool (owned_blocks (ar_chunks st) @ other_blocks w i)" using fill_pool_ok [OF at(2)] d by simp
    show "\<forall>b\<in>set (other_blocks w i). rb_mem ?pool b = rb_mem (sw_pool w) b" using dist d by (auto simp: fill_def)
    show "storage_ok p (rb_mem ?pool) st c" using fill_ok [OF at(1) _ fill_step(4-6)] dist by simp
  qed
  moreover have "(sw_stores w)[i := Some (st, c)] = sw_stores w" using fill_step(3) by (metis list_update_id)
  ultimately show ?thesis using fill_step(1) by simp
next
  case (commit_step i st c n st' d xs)
  note at = storage_at [OF assms(2) commit_step(2,3)]
  note ok = commit_ok [OF at(1) commit_step(4,5)]
  have "storage_inv p (w\<lparr>sw_pool := sw_pool w, sw_stores := (sw_stores w)[i := Some (st', c @ xs)]\<rparr>)"
    using ok at(2) commit_step(6) by (intro update_store [OF assms(2) commit_step(2)]) simp_all
  then show ?thesis using commit_step(1) by simp
next
  case (discard_step i st c s offset n k b pool' st')
  note at = storage_at [OF assms(2) discard_step(2,3)]
  from discard_ok [OF at(1,2) discard_step(4)] obtain k2 b2 pool2 st2 where
    d: "discard s (sw_pool w) st offset n = Inr (k2, b2, pool2, st2)"
    "pool_ok pool2 (owned_blocks (ar_chunks st2) @ other_blocks w i)"
    "\<forall>b\<in>set (other_blocks w i). rb_mem pool2 b = rb_mem (sw_pool w) b" "storage_ok p (rb_mem pool2) st2 c" by metis
  have "pool' = pool2" "st' = st2" using d(1) discard_step(5) by simp_all
  then show ?thesis unfolding discard_step(1) using update_store [OF assms(2) discard_step(2) d(2-4)] by simp
next
  case (retry_step i st c r pool' st')
  note at = storage_at [OF assms(2) retry_step(2,3)]
  have eq: "pool' = release_mappings (sw_pool w) (ar_chunks st)" "st' = st\<lparr>ar_chunks := [], ar_produced := 0, ar_charge := no_reservation\<rparr>"
    using retry_step(4) by (auto simp: release_for_retry_def)
  show ?thesis
    unfolding retry_step(1) using release_mappings_ok [OF at(2)] eq
    by (intro update_store [OF assms(2) retry_step(2)]) (simp_all add: storage_ok_def produced_by_def holds_content_def)
next
  case (close_step i st c s b pool' st')
  note at = storage_at [OF assms(2) close_step(2,3)]
  have eq: "pool' = release_mappings (sw_pool w) (ar_chunks st)" using close_step(4) by (auto simp: release_storage_def)
  show ?thesis
    unfolding close_step(1) using release_mappings_ok [OF at(2)] eq
    by (intro world_update [OF assms(2) close_step(2)]) (simp_all add: owned_store_def)
next
  case (preallocate_step mmaps n r pool')
  have cap: "min n (rb_capacity (sw_pool w) div kReceiveBlockSize) * kReceiveBlockSize \<le> rb_capacity (sw_pool w)"
    by (meson div_times_less_eq_dividend le_trans min.cobounded2 mult_le_mono1)
  have "pool_ok pool' (leased w) \<and> (\<forall>b\<in>set (leased w). rb_mem pool' b = rb_mem (sw_pool w) b)"
    using preallocate_loop_ok [of "sw_pool w" "leased w" 0 mmaps, OF _ _ _ cap] preallocate_step(2-4) assms(2)
    by (simp add: preallocate_def storage_inv_def)
  then show ?thesis unfolding preallocate_step(1) using world_pool [OF assms(2)] by blast
qed


lemma storage_reachable_inv: "storage_reachable p w \<Longrightarrow> storage_inv p w"
proof (induction rule: storage_reachable.induct)
  case (storage_begin capacity mem pool)
  then show ?case
    by (auto simp: new_block_pool_def Let_def storage_inv_def pool_ok_def leased_def intro!: exI [of _ "[]"] split: if_splits)
next
  case (storage_next w w')
  then show ?case using storage_inv_step by blast
qed


section \<open>Properties\<close>

lemma wf_drop: "wf_from n j cs \<Longrightarrow> wf_from n (j + i) (drop i cs)"
proof (induction i arbitrary: j cs)
  case (Suc i)
  then show ?case using Suc.IH [of "Suc j" "tl cs"] by (cases cs) (simp_all add: drop_Suc)
qed simp

lemma wf_from_append: "wf_from n j (cs @ ds) \<Longrightarrow> wf_from n j cs"
  by (induction cs arbitrary: j) auto

lemma produced_bound: "wf_from n j cs \<Longrightarrow> produced_by cs \<le> length cs * kReceiveBlockSize"
proof (induction cs arbitrary: j)
  case (Cons c cs)
  have "ch_used c \<le> kReceiveBlockSize"
    using wf_from_lengths(1,2) [OF Cons.prems, of c] by simp
  then show ?case using Cons.IH [of "Suc j"] Cons.prems by (simp add: produced_by_def)
qed (simp add: produced_by_def)

lemma produced_drop:
  "wf_from n j cs \<Longrightarrow> i < length cs \<Longrightarrow> produced_by cs = i * kReceiveBlockSize + produced_by (drop i cs)"
proof (induction i arbitrary: j cs)
  case (Suc i)
  obtain c ds where cs: "cs = c # ds" using Suc.prems(2) by (cases cs) auto
  then have "ds \<noteq> []" using Suc.prems(2) by auto
  then have "ch_used c = kReceiveBlockSize" using Suc.prems(1) cs by simp
  then show ?case using Suc.IH [of "Suc j" ds] Suc.prems cs by (simp add: produced_by_def)
qed simp

lemma recycled_drop:
  assumes "wf_from n 0 cs" "i * kReceiveBlockSize \<le> p"
  shows "recycled p r (drop i cs) = recycled p r cs"
proof -
  have "\<not> p < ch_offset c + ch_used c" if c: "c \<in> set (take i cs)" for c
  proof -
    have w: "wf_from n 0 (take i cs)"
      using assms(1) wf_from_append [of n 0 "take i cs" "drop i cs"] by simp
    have "ch_offset c + kReceiveBlockSize \<le> length (take i cs) * kReceiveBlockSize" using wf_offset_bound [OF w c] by simp
    also have "\<dots> \<le> i * kReceiveBlockSize" by (intro mult_le_mono1) simp
    finally show ?thesis using wf_from_lengths(1,2) [OF w c] assms(2) by linarith
  qed
  then have "\<not> recycled p r (take i cs)" by (auto simp: recycled_def)
  moreover have "set cs = set (take i cs) \<union> set (drop i cs)" by (metis append_take_drop_id set_append)
  then have "recycled p r cs = (recycled p r (take i cs) \<or> recycled p r (drop i cs))"
    unfolding recycled_def by (simp only: bex_Un)
  ultimately show ?thesis by simp
qed

lemma read_back:
  assumes "storage_ok p mem st c" "offset + n \<le> ar_produced st" "n \<noteq> 0" "cs = drop (offset div kReceiveBlockSize) (ar_chunks st)"
  shows "if recycled offset n (ar_chunks st) then span_loop offset n cs = Some None
    else \<exists>xs. span_loop offset n cs = Some (Some xs) \<and> concat (map (span_bytes mem) xs) = take n (drop offset c)"
proof -
  let ?i = "offset div kReceiveBlockSize"
  have st: "wf_from (ar_size st) 0 (ar_chunks st)" "ar_produced st = produced_by (ar_chunks st)" "length c = ar_produced st"
    "holds_content mem (\<lambda>k. c ! k) (ar_chunks st)" using assms(1) by (simp_all add: storage_ok_def)
  have lo: "?i * kReceiveBlockSize \<le> offset" by (rule div_times_less_eq_dividend)
  have hi: "offset < Suc ?i * kReceiveBlockSize" using dividend_less_div_times [OF block_size_pos, of offset] by simp
  have "?i < length (ar_chunks st)"
  proof (rule ccontr)
    assume "\<not> ?thesis"
    then have "length (ar_chunks st) * kReceiveBlockSize \<le> offset" using lo by (meson le_trans mult_le_mono1 not_less)
    moreover have "produced_by (ar_chunks st) \<le> length (ar_chunks st) * kReceiveBlockSize" using produced_bound [OF st(1)] .
    ultimately show False using assms(2,3) st(2) by linarith
  qed
  then have "produced_by (ar_chunks st) = ?i * kReceiveBlockSize + produced_by cs" unfolding assms(4) by (rule produced_drop [OF st(1)])
  then have upto: "offset + n \<le> ?i * kReceiveBlockSize + produced_by cs" using assms(2) st(2) by linarith
  have wf: "wf_from (ar_size st) ?i cs" using wf_drop [OF st(1), of ?i] by (simp add: assms(4))
  have content: "holds_content mem (\<lambda>k. c ! k) cs"
    using st(4) unfolding holds_content_def assms(4) by (meson in_set_dropD)
  have slice_eq: "map (\<lambda>k. c ! k) [offset ..< offset + n] = take n (drop offset c)"
    using assms(2) st(3) by (intro nth_equalityI) simp_all
  have "0 < n" using assms(3) by simp
  from span_loop_content [OF wf lo hi this upto content]
  show ?thesis unfolding slice_eq recycled_drop [OF st(1) lo, of n, folded assms(4)] .
qed

text \<open>
  C31. A range reads back what was received into it: whatever the other ranges of the pool do, bytes
  that were committed are returned by \<open>copy_to\<close> and are what the spans of \<open>spans\<close> hold, and
  \<open>available\<close> says so, until a block they lie in is discarded, when all three refuse.
\<close>

theorem received_bytes_are_read_back:
  assumes "storage_reachable p w" "i < length (sw_stores w)" "sw_stores w ! i = Some (st, c)" "offset + n \<le> ar_produced st"
  shows "ar_produced st = length c \<and>
    (if n \<noteq> 0 \<and> recycled offset n (ar_chunks st)
     then copy_to (sw_pool w) st offset n = None \<and> \<not> available st offset n \<and>
       spans st offset n = Inl (RuntimeError ''anonymous range storage span was recycled'')
     else copy_to (sw_pool w) st offset n = Some (take n (drop offset c)) \<and> available st offset n \<and>
       (\<exists>xs. spans st offset n = Inr xs \<and> concat (map (span_bytes (rb_mem (sw_pool w))) xs) = take n (drop offset c)))"
proof -
  have ok: "storage_ok p (rb_mem (sw_pool w)) st c"
    using storage_at(1) [OF storage_reachable_inv [OF assms(1)] assms(2,3)] .
  then have len: "ar_produced st = length c" by (simp add: storage_ok_def)
  have rng: "\<not> (ar_produced st < offset \<or> ar_produced st - offset < n)" using assms(4) by linarith
  show ?thesis
  proof (cases "n = 0")
    case True
    then show ?thesis using len rng by (simp add: copy_to_def available_def spans_def)
  next
    case False
    note rd = read_back [OF ok assms(4) False refl]
    show ?thesis
    proof (cases "recycled offset n (ar_chunks st)")
      case True
      then show ?thesis
        using rd len rng False by (auto simp: copy_to_def available_def spans_def copy_loop_spans available_loop_spans)
    next
      case no: False
      then obtain xs where xs: "span_loop offset n (drop (offset div kReceiveBlockSize) (ar_chunks st)) = Some (Some xs)"
        "concat (map (span_bytes (rb_mem (sw_pool w))) xs) = take n (drop offset c)" using rd by auto
      then have "copy_to (sw_pool w) st offset n = Some (take n (drop offset c))" "available st offset n" "spans st offset n = Inr xs"
        using rng False by (simp_all add: copy_to_def available_def spans_def copy_loop_spans available_loop_spans)
      then show ?thesis using no len xs(2) by auto
    qed
  qed
qed

text \<open>
  C32. A block has one owner: the blocks of all ranges and those of the free list, as a walk along
  the links in memory meets them, are pairwise different, the counters of the pool count them,
  and no more are mapped than the pool may hold.
\<close>

theorem receive_blocks_have_one_owner:
  assumes "storage_reachable p w"
  shows "\<exists>fs. chain (rb_mem (sw_pool w)) (rb_free (sw_pool w)) fs \<and> distinct (fs @ leased w) \<and>
    rb_idle (sw_pool w) = kReceiveBlockSize * length fs \<and>
    rb_mapped (sw_pool w) = kReceiveBlockSize * (length fs + length (leased w)) \<and>
    rb_mapped (sw_pool w) \<le> rb_capacity (sw_pool w)"
  using storage_reachable_inv [OF assms] by (auto simp: storage_inv_def pool_ok_def)

text \<open>
  \<open>discard\<close>, which must not throw, never fails: the reservation of a range always covers the
  blocks it still has, so the part for the discarded blocks can be split off; it gives the
  budget back one block size for every block it returns to the pool, and other ranges keep theirs.
\<close>

lemma discard_never_fails:
  assumes "storage_reachable p w" "i < length (sw_stores w)" "sw_stores w ! i = Some (st, c)" "bs_page_size s = p"
  shows "\<exists>k b pool' st'. discard s (sw_pool w) st offset n = Inr (k, b, pool', st') \<and>
    list_all2 fewer (ar_chunks st) (ar_chunks st') \<and>
    (rv_bytes (ar_charge st) \<noteq> 0 \<longrightarrow> rv_bytes (ar_charge st') + kReceiveBlockSize * zeros (ar_chunks st') =
       rv_bytes (ar_charge st) + kReceiveBlockSize * zeros (ar_chunks st)) \<and>
    (\<forall>b\<in>set (other_blocks w i). rb_mem pool' b = rb_mem (sw_pool w) b)"
proof -
  note at = storage_at [OF storage_reachable_inv [OF assms(1)] assms(2,3)]
  show ?thesis by (rule discard_ok [OF at(1,2) assms(4), of offset n]) blast
qed


text \<open>A range of three bytes in a pool of two blocks: two bytes arrive.\<close>

definition ex_block_pool :: ReceiveBlockPool where
  "ex_block_pool = projr (new_block_pool 4194304 (\<lambda>b i. 0))"

definition ex_budget_state :: BudgetState where
  "ex_budget_state = projr (PrefetchBudget 4194304 2097152 4096)"

definition ex_range :: AnonymousRangeStorage where
  "ex_range = projr (new_range_storage ex_budget_state 3 \<lparr>rv_state = True, rv_file = 1, rv_bytes = 2097152, rv_demand = True\<rparr>)"

definition ex_opened :: storage_world where
  "ex_opened = \<lparr>sw_pool = ex_block_pool, sw_stores = [Some (ex_range, [])]\<rparr>"

definition ex_range_mapped :: AnonymousRangeStorage where
  "ex_range_mapped = fst (projr (fst (writable ex_block_pool ex_range 3 (Inr 8192))))"

definition ex_pool_mapped :: ReceiveBlockPool where
  "ex_pool_mapped = snd (writable ex_block_pool ex_range 3 (Inr 8192))"

definition ex_pool_filled :: ReceiveBlockPool where
  "ex_pool_filled = fill ex_pool_mapped 8192 0 [7, 9]"

definition ex_range_committed :: AnonymousRangeStorage where
  "ex_range_committed = projr (commit ex_range_mapped 2)"

definition ex_received :: storage_world where
  "ex_received = \<lparr>sw_pool = ex_pool_filled, sw_stores = [Some (ex_range_committed, [7, 9])]\<rparr>"

lemmas ex_storage_defs = ex_block_pool_def new_block_pool_def ex_range_def new_range_storage_def ex_budget_state_def
  PrefetchBudget_def reservation_page_size_def kReceiveBlockSize_def UINT64_MAX_def Let_def ex_range_mapped_def ex_pool_mapped_def
  writable_def allocate_next_def acquire_block_def allocate_block_def ex_pool_filled_def ex_range_committed_def commit_def

lemma ex_range_mapped_eq: "writable ex_block_pool ex_range 3 (Inr 8192) = (Inr (ex_range_mapped, Some (8192, 0, 3)), ex_pool_mapped)"
  by (simp add: ex_storage_defs)

lemma ex_chunks: "ar_chunks ex_range_mapped = [\<lparr>ch_mapping = 8192, ch_offset = 0, ch_length = 3, ch_used = 0\<rparr>]"
  "ar_produced ex_range_mapped = 0" "ex_block_pool = \<lparr>rb_free = 0, rb_mapped = 0, rb_idle = 0, rb_capacity = 4194304, rb_mem = \<lambda>b i. 0\<rparr>"
  "ar_chunks ex_range_committed = [\<lparr>ch_mapping = 8192, ch_offset = 0, ch_length = 3, ch_used = 2\<rparr>]" "ar_produced ex_range_committed = 2"
  by (simp_all add: ex_storage_defs)

lemma ex_received_reachable: "storage_reachable 4096 ex_received"
proof -
  have "storage_reachable 4096 \<lparr>sw_pool = ex_block_pool, sw_stores = []\<rparr>"
    by (rule storage_begin [of 4194304 "\<lambda>b i. 0"]) (simp add: ex_storage_defs)
  moreover have "storage_step 4096 \<lparr>sw_pool = ex_block_pool, sw_stores = []\<rparr> ex_opened"
    using open_step [of ex_budget_state 3 "\<lparr>rv_state = True, rv_file = 1, rv_bytes = 2097152, rv_demand = True\<rparr>" ex_range 4096
        "\<lparr>sw_pool = ex_block_pool, sw_stores = []\<rparr>"]
    by (simp add: ex_opened_def ex_storage_defs)
  ultimately have "storage_reachable 4096 ex_opened" by (rule storage_next)
  moreover have "storage_step 4096 ex_opened \<lparr>sw_pool = ex_pool_mapped, sw_stores = [Some (ex_range_mapped, [])]\<rparr>"
  proof -
    have "leased ex_opened = []" by (simp add: leased_def ex_opened_def owned_store_def ex_storage_defs)
    then have "fresh_map (sw_pool ex_opened) (leased ex_opened) (Inr 8192)"
      by (auto simp: fresh_map_def ex_opened_def ex_chunks chain_null)
    then show ?thesis
      using writable_step [of 0 ex_opened ex_range "[]" "Inr 8192" 3 ex_range_mapped "Some (8192, 0, 3)" ex_pool_mapped]
      by (simp add: ex_opened_def ex_range_mapped_eq)
  qed
  ultimately have "storage_reachable 4096 \<lparr>sw_pool = ex_pool_mapped, sw_stores = [Some (ex_range_mapped, [])]\<rparr>" by (rule storage_next)
  moreover have "storage_step 4096 \<lparr>sw_pool = ex_pool_mapped, sw_stores = [Some (ex_range_mapped, [])]\<rparr>
      \<lparr>sw_pool = ex_pool_filled, sw_stores = [Some (ex_range_mapped, [])]\<rparr>"
    using fill_step [of 0 "\<lparr>sw_pool = ex_pool_mapped, sw_stores = [Some (ex_range_mapped, [])]\<rparr>" ex_range_mapped "[]" _ "[7, 9]"]
    by (simp add: ex_chunks ex_pool_filled_def)
  ultimately have "storage_reachable 4096 \<lparr>sw_pool = ex_pool_filled, sw_stores = [Some (ex_range_mapped, [])]\<rparr>" by (rule storage_next)
  moreover have "storage_step 4096 \<lparr>sw_pool = ex_pool_filled, sw_stores = [Some (ex_range_mapped, [])]\<rparr> ex_received"
    using commit_step [of 0 "\<lparr>sw_pool = ex_pool_filled, sw_stores = [Some (ex_range_mapped, [])]\<rparr>" ex_range_mapped "[]" 2 ex_range_committed]
    by (simp add: ex_received_def ex_chunks commit_def ex_range_committed_def ex_pool_filled_def fill_def upt_rec)
  ultimately show ?thesis by (rule storage_next)
qed

theorem received_bytes_are_read_back_witness:
  "copy_to ex_pool_filled ex_range_committed 1 1 = Some [9] \<and> available ex_range_committed 1 1"
  using received_bytes_are_read_back [OF ex_received_reachable, of 0 ex_range_committed "[7, 9]" 1 1]
  by (simp add: ex_received_def ex_chunks recycled_def)

theorem receive_blocks_have_one_owner_witness:
  "\<exists>fs. chain (rb_mem ex_pool_filled) (rb_free ex_pool_filled) fs \<and> distinct (fs @ [8192])"
  using receive_blocks_have_one_owner [OF ex_received_reachable]
  by (auto simp: ex_received_def leased_def owned_store_def ex_chunks)

lemma discard_never_fails_example:
  "\<exists>k b pool' st'. discard ex_budget_state ex_pool_filled ex_range_committed 0 2 = Inr (k, b, pool', st')"
  using discard_never_fails [OF ex_received_reachable, of 0 ex_range_committed "[7, 9]" ex_budget_state 0 2]
  by (auto simp: ex_received_def ex_budget_state_def PrefetchBudget_def)

end
