(* ===== verification/Http_Head.thy ===== *)
theory Http_Head
  imports NG_Prelude
begin

text \<open>
  The head of an HTTP/1.1 request (\<open>build_request_head\<close> of \<^verbatim>\<open>src/src/http.cpp\<close>), the checks that guard it
  and the value of a range header. A reader of heads after RFC 9112 serves as the reference: what
  it makes of the bytes is what the caller asked for, so no value can end a line and start
  another header or another request.
\<close>

section \<open>The code\<close>

record Header =
  h_name :: string
  h_value :: string

definition ascii_lower_char :: "char \<Rightarrow> char" where
  "ascii_lower_char c = (if 65 \<le> byte_of c \<and> byte_of c \<le> 90 then char_of (byte_of c + 32) else c)"

definition ascii_lower :: "string \<Rightarrow> string" where
  "ascii_lower s = map ascii_lower_char s"

fun ascii_equal :: "string \<Rightarrow> string \<Rightarrow> bool" where
  "ascii_equal [] [] = True"
| "ascii_equal (c # cs) (d # ds) = (ascii_lower_char c = d \<and> ascii_equal cs ds)"
| "ascii_equal _ _ = False"

definition contains_cr_or_lf :: "string \<Rightarrow> bool" where
  "contains_cr_or_lf s \<longleftrightarrow> CHR 0x0D \<in> set s \<or> CHR 0x0A \<in> set s"

definition header_name_char :: "char \<Rightarrow> bool" where
  "header_name_char c \<longleftrightarrow>
     48 \<le> byte_of c \<and> byte_of c \<le> 57 \<or> 65 \<le> byte_of c \<and> byte_of c \<le> 90 \<or> 97 \<le> byte_of c \<and> byte_of c \<le> 122 \<or>
     c \<in> set ''!#$%&*+-.^_`|~'' \<or> c = CHR 0x27"

definition valid_header_name :: "string \<Rightarrow> bool" where
  "valid_header_name name \<longleftrightarrow> name \<noteq> [] \<and> list_all header_name_char name"

definition valid_method :: "string \<Rightarrow> bool" where
  "valid_method s \<longleftrightarrow> s \<noteq> [] \<and> list_all (\<lambda>c. 65 \<le> byte_of c \<and> byte_of c \<le> 90) s"

definition line_end :: string where
  "line_end = [CHR 0x0D, CHR 0x0A]"

definition header_refused :: "bool \<Rightarrow> nat option \<Rightarrow> Header \<Rightarrow> bool" where
  "header_refused trusted_headers content_length h \<longleftrightarrow>
     \<not> trusted_headers \<and>
     (\<not> valid_header_name (h_name h) \<or> contains_cr_or_lf (h_value h) \<or>
      ascii_equal (h_name h) ''host'' \<or> ascii_equal (h_name h) ''connection'' \<or>
      ascii_equal (h_name h) ''transfer-encoding'' \<or>
      (content_length \<noteq> None \<and> ascii_equal (h_name h) ''content-length''))"

fun append_headers :: "bool \<Rightarrow> nat option \<Rightarrow> string \<Rightarrow> Header list \<Rightarrow> string result" where
  "append_headers trusted_headers content_length request [] = Inr request"
| "append_headers trusted_headers content_length request (h # hs) =
     (if header_refused trusted_headers content_length h
      then Inl (InvalidArgument ''invalid or conflicting HTTP/1.1 header'')
      else append_headers trusted_headers content_length
             (request @ h_name h @ '': '' @ h_value h @ line_end) hs)"

definition build_request_head ::
  "string \<Rightarrow> string \<Rightarrow> string \<Rightarrow> Header list \<Rightarrow> Header list \<Rightarrow> nat option \<Rightarrow> bool \<Rightarrow> bool \<Rightarrow> string result" where
  "build_request_head verb path authority generated_headers headers content_length chunked trusted_headers =
     (if \<not> valid_method verb \<or> path = [] \<or> hd path \<noteq> CHR ''/'' \<or> contains_cr_or_lf path \<or> CHR '' '' \<in> set path
      then Inl (InvalidArgument ''invalid HTTP/1.1 request line'')
      else if authority = [] \<or> contains_cr_or_lf authority
      then Inl (InvalidArgument ''invalid HTTP/1.1 authority'')
      else ebind (append_headers trusted_headers content_length
                   (verb @ '' '' @ path @ '' HTTP/1.1'' @ line_end @ ''host: '' @ authority @ line_end) generated_headers)
        (\<lambda>request. ebind (append_headers trusted_headers content_length request headers)
        (\<lambda>request. Inr (request @
           (case content_length of
              Some n \<Rightarrow> ''content-length: '' @ to_string n @ line_end
            | None \<Rightarrow> if chunked then ''transfer-encoding: chunked'' @ line_end else []) @
           ''connection: keep-alive'' @ line_end @ line_end))))"

definition range_header_value :: "nat \<Rightarrow> nat \<Rightarrow> string" where
  "range_header_value offset stop = ''bytes='' @ to_string offset @ ''-'' @ to_string stop"


section \<open>Reading a head\<close>

fun take_line :: "string \<Rightarrow> (string \<times> string) option" where
  "take_line [] = None"
| "take_line (c # s) =
     (if c = CHR 0x0D \<and> s \<noteq> [] \<and> hd s = CHR 0x0A then Some ([], tl s)
      else map_option (\<lambda>(l, rest). (c # l, rest)) (take_line s))"

lemma take_line_shorter: "take_line s = Some (l, rest) \<Longrightarrow> length rest < length s"
proof (induction s arbitrary: l)
  case (Cons c s)
  then show ?case by (cases s) (auto split: if_splits)
qed simp

function take_head :: "string \<Rightarrow> (string list \<times> string) option" where
  "take_head s =
     (case take_line s of
        None \<Rightarrow> None
      | Some (l, rest) \<Rightarrow>
          if l = [] then Some ([], rest)
          else map_option (\<lambda>(ls, rest'). (l # ls, rest')) (take_head rest))"
  by pat_completeness auto
termination
  by (relation "measure length") (auto dest: take_line_shorter)

declare take_head.simps [simp del]

definition ows :: "char \<Rightarrow> bool" where
  "ows c \<longleftrightarrow> c = CHR '' '' \<or> c = CHR 0x09"

definition trim_ows :: "string \<Rightarrow> string" where
  "trim_ows s = rev (dropWhile ows (rev (dropWhile ows s)))"

definition read_field :: "string \<Rightarrow> (string \<times> string) option" where
  "read_field l = (if CHR '':'' \<in> set l
     then Some (takeWhile (\<lambda>c. c \<noteq> CHR '':'') l, trim_ows (tl (dropWhile (\<lambda>c. c \<noteq> CHR '':'') l))) else None)"

definition read_request_line :: "string \<Rightarrow> (string \<times> string \<times> string) option" where
  "read_request_line l =
     (let verb = takeWhile (\<lambda>c. c \<noteq> CHR '' '') l; rest = tl (dropWhile (\<lambda>c. c \<noteq> CHR '' '') l);
          path = takeWhile (\<lambda>c. c \<noteq> CHR '' '') rest; version = tl (dropWhile (\<lambda>c. c \<noteq> CHR '' '') rest)
      in if CHR '' '' \<in> set l \<and> CHR '' '' \<in> set rest then Some (verb, path, version) else None)"

fun read_fields :: "string list \<Rightarrow> (string \<times> string) list option" where
  "read_fields [] = Some []"
| "read_fields (l # ls) =
     (case (read_field l, read_fields ls) of (Some f, Some fs) \<Rightarrow> Some (f # fs) | _ \<Rightarrow> None)"

text \<open>The verb, the path, the version, the fields and what follows the head.\<close>

definition read_request :: "string \<Rightarrow> ((string \<times> string \<times> string) \<times> (string \<times> string) list \<times> string) option" where
  "read_request s =
     (case take_head s of
        Some (l # ls, rest) \<Rightarrow>
          (case (read_request_line l, read_fields ls) of (Some r, Some fs) \<Rightarrow> Some (r, fs, rest) | _ \<Rightarrow> None)
      | _ \<Rightarrow> None)"



section \<open>Lines\<close>

lemma ascii_equal_iff: "ascii_equal s t \<longleftrightarrow> ascii_lower s = t"
  by (induction s t rule: ascii_equal.induct) (simp_all add: ascii_lower_def)

lemma no_cr_lf: "\<not> contains_cr_or_lf s \<longleftrightarrow> CHR 0x0D \<notin> set s \<and> CHR 0x0A \<notin> set s"
  by (simp add: contains_cr_or_lf_def)

lemma take_line_line: "CHR 0x0D \<notin> set l \<Longrightarrow> take_line (l @ line_end @ rest) = Some (l, rest)"
  by (induction l) (auto simp: line_end_def)

text \<open>Lines that are not empty and hold no carriage return, an empty line, and what follows.\<close>

lemma take_head_lines:
  assumes "list_all (\<lambda>l. l \<noteq> [] \<and> CHR 0x0D \<notin> set l) ls"
  shows "take_head (concat (map (\<lambda>l. l @ line_end) ls) @ line_end @ rest) = Some (ls, rest)"
  using assms
proof (induction ls)
  case Nil
  have "take_line (line_end @ rest) = Some ([], rest)" using take_line_line [of "[]"] by simp
  then show ?case by (simp add: take_head.simps)
next
  case (Cons l ls)
  have "take_line (concat (map (\<lambda>l. l @ line_end) (l # ls)) @ line_end @ rest) =
      Some (l, concat (map (\<lambda>l. l @ line_end) ls) @ line_end @ rest)"
    using Cons.prems take_line_line [of l "concat (map (\<lambda>l. l @ line_end) ls) @ line_end @ rest"] by simp
  then show ?case using Cons by (subst take_head.simps) simp
qed

lemma takeWhile_sep: "x \<notin> set a \<Longrightarrow> takeWhile (\<lambda>c. c \<noteq> x) (a @ x # b) = a"
  by (induction a) auto

lemma dropWhile_sep: "x \<notin> set a \<Longrightarrow> dropWhile (\<lambda>c. c \<noteq> x) (a @ x # b) = x # b"
  by (induction a) auto

lemma header_name_chars:
  assumes "valid_header_name name"
  shows "name \<noteq> []" "CHR '':'' \<notin> set name" "CHR 0x0D \<notin> set name" "CHR 0x0A \<notin> set name"
  using assms by (auto simp: valid_header_name_def header_name_char_def list_all_iff)

lemma trim_ows_space: "trim_ows (CHR '' '' # s) = trim_ows s"
  by (simp add: trim_ows_def ows_def)

definition field_line :: "string \<times> string \<Rightarrow> string" where
  "field_line f = fst f @ '': '' @ snd f"

definition clean_field :: "string \<times> string \<Rightarrow> bool" where
  "clean_field f \<longleftrightarrow> fst f \<noteq> [] \<and> CHR '':'' \<notin> set (fst f) \<and> CHR 0x0D \<notin> set (fst f) \<and> CHR 0x0D \<notin> set (snd f)"

lemma read_field_line: "clean_field f \<Longrightarrow> read_field (field_line f) = Some (fst f, trim_ows (snd f))"
  by (simp add: read_field_def field_line_def clean_field_def takeWhile_sep dropWhile_sep trim_ows_space)

lemma read_fields_lines:
  "list_all clean_field fs \<Longrightarrow> read_fields (map field_line fs) = Some (map (\<lambda>f. (fst f, trim_ows (snd f))) fs)"
  by (induction fs) (simp_all add: read_field_line)

lemma append_headers_eq:
  "append_headers trusted cl request hs =
     (if list_ex (header_refused trusted cl) hs then Inl (InvalidArgument ''invalid or conflicting HTTP/1.1 header'')
      else Inr (request @ concat (map (\<lambda>h. field_line (h_name h, h_value h) @ line_end) hs)))"
  by (induction hs arbitrary: request) (simp_all add: field_line_def)

text \<open>The fields of the head that is built.\<close>

definition framing_fields :: "nat option \<Rightarrow> bool \<Rightarrow> (string \<times> string) list" where
  "framing_fields content_length chunked =
     (case content_length of
        Some n \<Rightarrow> [(''content-length'', to_string n)]
      | None \<Rightarrow> if chunked then [(''transfer-encoding'', ''chunked'')] else [])"

definition request_fields :: "string \<Rightarrow> Header list \<Rightarrow> nat option \<Rightarrow> bool \<Rightarrow> (string \<times> string) list" where
  "request_fields authority hs content_length chunked =
     (''host'', authority) # map (\<lambda>h. (h_name h, h_value h)) hs @ framing_fields content_length chunked @ [(''connection'', ''keep-alive'')]"

lemma build_request_head_lines:
  assumes "build_request_head verb path authority gs hs cl chunked trusted = Inr request"
  shows "request = concat (map (\<lambda>l. l @ line_end)
      ((verb @ '' '' @ path @ '' HTTP/1.1'') # map field_line (request_fields authority (gs @ hs) cl chunked))) @ line_end"
    "\<not> list_ex (header_refused trusted cl) (gs @ hs)" "valid_method verb" "path \<noteq> []" "hd path = CHR ''/''"
    "\<not> contains_cr_or_lf path" "CHR '' '' \<notin> set path" "authority \<noteq> []" "\<not> contains_cr_or_lf authority"
proof -
  have ok: "valid_method verb" "path \<noteq> []" "hd path = CHR ''/''" "\<not> contains_cr_or_lf path" "CHR '' '' \<notin> set path"
    "authority \<noteq> []" "\<not> contains_cr_or_lf authority"
    using assms by (auto simp: build_request_head_def split: if_splits)
  have refused: "\<not> list_ex (header_refused trusted cl) gs" "\<not> list_ex (header_refused trusted cl) hs"
    using assms ok by (auto simp: build_request_head_def append_headers_eq split: if_splits)
  show "\<not> list_ex (header_refused trusted cl) (gs @ hs)" "valid_method verb" "path \<noteq> []" "hd path = CHR ''/''"
    "\<not> contains_cr_or_lf path" "CHR '' '' \<notin> set path" "authority \<noteq> []" "\<not> contains_cr_or_lf authority"
    using ok refused by simp_all
  have maps: "concat (map (\<lambda>h. field_line (h_name h, h_value h) @ line_end) xs) =
      concat (map (\<lambda>l. l @ line_end) (map field_line (map (\<lambda>h. (h_name h, h_value h)) xs)))" for xs by (simp add: o_def)
  have "request = (verb @ '' '' @ path @ '' HTTP/1.1'' @ line_end @ ''host: '' @ authority @ line_end) @
      concat (map (\<lambda>h. field_line (h_name h, h_value h) @ line_end) gs) @
      concat (map (\<lambda>h. field_line (h_name h, h_value h) @ line_end) hs) @
      concat (map (\<lambda>l. l @ line_end) (map field_line (framing_fields cl chunked))) @ ''connection: keep-alive'' @ line_end @ line_end"
    using assms ok refused unfolding build_request_head_def append_headers_eq
    by (auto simp: framing_fields_def field_line_def split: option.splits)
  then show "request = concat (map (\<lambda>l. l @ line_end)
      ((verb @ '' '' @ path @ '' HTTP/1.1'') # map field_line (request_fields authority (gs @ hs) cl chunked))) @ line_end"
    unfolding maps request_fields_def by (simp add: field_line_def)
qed



section \<open>Properties\<close>

lemma to_string_clean: "c \<in> set (to_string n) \<Longrightarrow> isdigit c"
  using decimal_string_to_string [of n] by (simp add: decimal_string_def list_all_iff)

lemma isdigit_clean: "isdigit c \<Longrightarrow> c \<noteq> CHR 0x0D \<and> \<not> ows c"
  by (auto simp: isdigit_def ows_def)

lemma accepted_header_clean:
  assumes "\<not> header_refused False cl h"
  shows "clean_field (h_name h, h_value h)"
  using assms header_name_chars [of "h_name h"] by (auto simp: header_refused_def clean_field_def no_cr_lf)

lemma request_fields_clean:
  assumes "\<forall>h \<in> set hs. clean_field (h_name h, h_value h)" "authority \<noteq> []" "\<not> contains_cr_or_lf authority"
  shows "list_all clean_field (request_fields authority hs cl chunked)"
proof -
  have "clean_field (h_name h, h_value h)" if "h \<in> set hs" for h
    using assms(1) that by blast
  moreover have "list_all clean_field (framing_fields cl chunked)"
    using to_string_clean isdigit_clean by (auto simp: framing_fields_def clean_field_def split: option.split)
  ultimately show ?thesis
    using assms(3) by (auto simp: request_fields_def list_all_iff clean_field_def no_cr_lf)
qed

lemma request_line_back:
  assumes "valid_method verb" "CHR '' '' \<notin> set path"
  shows "read_request_line (verb @ '' '' @ path @ '' HTTP/1.1'') = Some (verb, path, ''HTTP/1.1'')"
proof -
  have v: "CHR '' '' \<notin> set verb" using assms(1) by (auto simp: valid_method_def list_all_iff)
  show ?thesis
    using takeWhile_sep [OF v] dropWhile_sep [OF v] takeWhile_sep [OF assms(2)] dropWhile_sep [OF assms(2)]
    by (simp add: read_request_line_def Let_def)
qed

text \<open>
  C34. A request head says what its caller asked for and nothing else: whenever a head is
  accepted, a reader of HTTP/1.1 heads finds in it exactly the verb, the path, the host, the
  headers given, in order, the framing and the connection field, and the body starts where the
  head ends. With untrusted headers this holds whatever bytes the path, the names and the values
  have; with the trusted headers of the ranged downloads, which the code does not check, it holds
  when every name is not empty and has no colon and no name or value has a carriage return.
\<close>

theorem request_head_reads_back:
  assumes "build_request_head verb path authority gs hs cl chunked trusted = Inr request"
    and "trusted \<longrightarrow> (\<forall>h \<in> set (gs @ hs). h_name h \<noteq> [] \<and> CHR '':'' \<notin> set (h_name h) \<and>
      CHR 0x0D \<notin> set (h_name h) \<and> CHR 0x0D \<notin> set (h_value h))"
  shows "read_request (request @ body) = Some ((verb, path, ''HTTP/1.1''),
    map (\<lambda>f. (fst f, trim_ows (snd f))) (request_fields authority (gs @ hs) cl chunked), body)"
proof -
  note b = build_request_head_lines [OF assms(1)]
  let ?first = "verb @ '' '' @ path @ '' HTTP/1.1''" and ?fields = "request_fields authority (gs @ hs) cl chunked"
  have "\<forall>h \<in> set (gs @ hs). clean_field (h_name h, h_value h)"
  proof (cases trusted)
    case True
    then show ?thesis using assms(2) by (simp add: clean_field_def)
  next
    case False
    then show ?thesis using b(2) accepted_header_clean by (auto simp: list_ex_iff)
  qed
  then have clean: "list_all clean_field ?fields" using request_fields_clean [OF _ b(8,9)] by simp
  have "CHR 0x0D \<notin> set verb" using b(3) by (auto simp: valid_method_def list_all_iff)
  then have "list_all (\<lambda>l. l \<noteq> [] \<and> CHR 0x0D \<notin> set l) (?first # map field_line ?fields)"
    using b(6) clean by (auto simp: no_cr_lf list_all_iff field_line_def clean_field_def)
  from take_head_lines [OF this, of body]
  have "take_head (request @ body) = Some (?first # map field_line ?fields, body)" unfolding b(1) by simp
  then show ?thesis
    using request_line_back [OF b(3,7)] read_fields_lines [OF clean] by (simp add: read_request_def)
qed

definition fields_named :: "string \<Rightarrow> (string \<times> string) list \<Rightarrow> (string \<times> string) list" where
  "fields_named name fs = filter (\<lambda>f. ascii_lower (fst f) = name) fs"

lemma fields_named_simps:
  "fields_named x [] = []" "fields_named x (f # fs) = (if ascii_lower (fst f) = x then f # fields_named x fs else fields_named x fs)"
  "fields_named x (fs @ gs) = fields_named x fs @ fields_named x gs"
  by (simp_all add: fields_named_def)

lemma fields_named_given:
  assumes "\<not> list_ex (header_refused False cl) hs" "x \<in> {''host'', ''connection'', ''transfer-encoding''} \<or> x = ''content-length'' \<and> cl \<noteq> None"
  shows "fields_named x (map (\<lambda>h. (h_name h, h_value h)) hs) = []"
  using assms by (auto simp: fields_named_def filter_empty_conv list_ex_iff header_refused_def ascii_equal_iff)

lemma ascii_lower_names:
  "ascii_lower ''host'' = ''host''" "ascii_lower ''connection'' = ''connection''"
  "ascii_lower ''transfer-encoding'' = ''transfer-encoding''" "ascii_lower ''content-length'' = ''content-length''"
  by (simp_all add: ascii_lower_def ascii_lower_char_def)

text \<open>
  Accepted heads frame their body in one way: there is exactly one host field and one connection
  field, a transfer coding is there exactly when the body is chunked, and a request with a content
  length has no other length and no transfer coding; names are compared without regard to case.
\<close>

lemma request_head_framing_is_unambiguous:
  assumes "build_request_head verb path authority gs hs cl chunked False = Inr request"
    "fs = request_fields authority (gs @ hs) cl chunked"
  shows "fields_named ''host'' fs = [(''host'', authority)] \<and>
    fields_named ''connection'' fs = [(''connection'', ''keep-alive'')] \<and>
    fields_named ''transfer-encoding'' fs = (if cl = None \<and> chunked then [(''transfer-encoding'', ''chunked'')] else []) \<and>
    (cl \<noteq> None \<longrightarrow> fields_named ''content-length'' fs = [(''content-length'', to_string (the cl))])"
  using fields_named_given [OF build_request_head_lines(2) [OF assms(1)]]
  by (auto simp: assms(2) request_fields_def framing_fields_def fields_named_simps ascii_lower_names split: option.split)

text \<open>A head that is accepted untrusted is the one that trusted headers give.\<close>

lemma trusted_head_agrees:
  assumes "build_request_head verb path authority gs hs cl chunked False = Inr request"
  shows "build_request_head verb path authority gs hs cl chunked True = Inr request"
proof -
  have "\<not> list_ex (header_refused False cl) gs" "\<not> list_ex (header_refused False cl) hs"
    using build_request_head_lines(2) [OF assms] by simp_all
  moreover have "\<not> list_ex (header_refused True cl) xs" for xs by (simp add: list_ex_iff header_refused_def)
  ultimately have "append_headers True cl r gs = append_headers False cl r gs" "append_headers True cl r hs = append_headers False cl r hs" for r
    by (simp_all add: append_headers_eq)
  then show ?thesis using assms by (simp only: build_request_head_def)
qed

text \<open>The buffer of \<open>range_header_value\<close> holds every pair of 64 bit numbers.\<close>

lemma to_string_length: "n < 10 ^ Suc k \<Longrightarrow> length (to_string n) \<le> Suc k"
proof (induction k arbitrary: n)
  case 0
  then show ?case by (simp add: to_string.simps)
next
  case (Suc k)
  then have "n div 10 < 10 ^ Suc k" by (simp add: less_mult_imp_div_less mult.commute)
  then show ?case using Suc.IH [of "n div 10"] by (subst to_string.simps) simp
qed

lemma range_header_fits:
  assumes "offset < 2 ^ 64" "stop < 2 ^ 64"
  shows "length (range_header_value offset stop) \<le> 6 + 20 + 1 + 20"
  using to_string_length [of offset 19] to_string_length [of stop 19] assms by (simp add: range_header_value_def)

definition ex_headers :: "Header list" where
  "ex_headers = [\<lparr>h_name = ''range'', h_value = range_header_value 0 9\<rparr>]"

lemma ex_range_value: "range_header_value 0 9 = ''bytes=0-9''"
  by code_simp

lemma ex_head_accepted: "build_request_head ''GET'' ''/k'' ''b.s3'' [] ex_headers None False False =
   Inr (''GET /k HTTP/1.1'' @ line_end @ ''host: b.s3'' @ line_end @ ''range: bytes=0-9'' @ line_end @
     ''connection: keep-alive'' @ line_end @ line_end)"
  by (simp add: build_request_head_def ex_headers_def valid_method_def contains_cr_or_lf_def header_refused_def valid_header_name_def
      header_name_char_def ascii_lower_char_def ex_range_value)

lemma ex_trusted_head: "build_request_head ''GET'' ''/k'' ''b.s3'' ex_headers [] None False True =
   Inr (''GET /k HTTP/1.1'' @ line_end @ ''host: b.s3'' @ line_end @ ''range: bytes=0-9'' @ line_end @
     ''connection: keep-alive'' @ line_end @ line_end)"
  by (simp add: build_request_head_def ex_headers_def valid_method_def contains_cr_or_lf_def header_refused_def
      ex_range_value)

theorem request_head_reads_back_witness:
  "read_request (projr (build_request_head ''GET'' ''/k'' ''b.s3'' [] ex_headers None False False) @ ''body'') =
     Some ((''GET'', ''/k'', ''HTTP/1.1''),
       [(''host'', ''b.s3''), (''range'', ''bytes=0-9''), (''connection'', ''keep-alive'')], ''body'') \<and>
   read_request (projr (build_request_head ''GET'' ''/k'' ''b.s3'' ex_headers [] None False True) @ ''body'') =
     Some ((''GET'', ''/k'', ''HTTP/1.1''),
       [(''host'', ''b.s3''), (''range'', ''bytes=0-9''), (''connection'', ''keep-alive'')], ''body'')"
proof -
  have clean: "True \<longrightarrow> (\<forall>h \<in> set (ex_headers @ []). h_name h \<noteq> [] \<and> CHR '':'' \<notin> set (h_name h) \<and>
      CHR 0x0D \<notin> set (h_name h) \<and> CHR 0x0D \<notin> set (h_value h))"
    by (simp add: ex_headers_def ex_range_value)
  have fields: "map (\<lambda>f. (fst f, trim_ows (snd f))) (request_fields ''b.s3'' ex_headers None False) =
      [(''host'', ''b.s3''), (''range'', ''bytes=0-9''), (''connection'', ''keep-alive'')]"
    by (simp add: request_fields_def framing_fields_def ex_headers_def trim_ows_def ows_def ex_range_value)
  have plain: "False \<longrightarrow> P" for P by simp
  from request_head_reads_back [OF ex_head_accepted plain, of "''body''"]
    request_head_reads_back [OF ex_trusted_head clean, of "''body''"]
  show ?thesis unfolding ex_head_accepted ex_trusted_head sum.sel by (simp only: append_Nil append_Nil2 fields simp_thms)
qed

lemma request_head_framing_is_unambiguous_example:
  "fields_named ''host'' (request_fields ''b.s3'' ex_headers None False) = [(''host'', ''b.s3'')]"
  using request_head_framing_is_unambiguous [OF ex_head_accepted refl] by simp

text \<open>
  A chunked request may still be given a length of its own: only a request with a known length
  refuses the field, and the head then has both.
\<close>

lemma chunked_head_may_carry_a_length:
  "let hs = [\<lparr>h_name = ''content-length'', h_value = ''9''\<rparr>]; fs = request_fields ''b.s3'' hs None True
   in (\<exists>request. build_request_head ''PUT'' ''/k'' ''b.s3'' [] hs None True False = Inr request) \<and>
      fields_named ''content-length'' fs \<noteq> [] \<and> fields_named ''transfer-encoding'' fs \<noteq> []"
  by (simp add: build_request_head_def valid_method_def contains_cr_or_lf_def header_refused_def valid_header_name_def
      header_name_char_def ascii_lower_char_def request_fields_def framing_fields_def fields_named_simps ascii_lower_names)

end
