(* ===== verification/Io_Loops.thy ===== *)
theory Io_Loops
  imports NG_Prelude
begin

text \<open>
  The loops that move an exact number of bytes with system calls that may move fewer
  (\<^verbatim>\<open>src/src/io.cpp\<close>: \<open>io_receive_exact\<close>, \<open>io_send_exact\<close>, \<open>io_splice_exact\<close> and their callers;
  \<^verbatim>\<open>src/src/http.cpp\<close>: \<open>write_range_file\<close>, \<open>transfer_pipe_to_file\<close>). What the calls return is a list, a
  number of bytes or an error each; a loop that needs more results than the list has is still
  running, and its value is \<open>None\<close>. Files are functions from offsets to bytes.
\<close>

section \<open>System calls\<close>

definition EINTR :: nat where "EINTR = 4"
definition EDEADLK :: nat where "EDEADLK = 35"
definition ECONNRESET :: nat where "ECONNRESET = 104"
definition kEIO :: nat where "kEIO = 5"

datatype syscall = Moved nat | Failed nat

datatype outcome = Complete | Eof | Err nat

text \<open>
  The loop they share: a call moves at most what is asked for and what the source has, 0 is the end
  of the source, \<^verbatim>\<open>EINTR\<close> is tried again, any other error ends the loop. The value is how it
  ended, the bytes moved, what is left of the source and the results not used.
\<close>

fun exact_loop :: "syscall list \<Rightarrow> bytes \<Rightarrow> nat \<Rightarrow> (outcome \<times> bytes \<times> bytes \<times> syscall list) option" where
  "exact_loop script source n =
     (if n = 0 then Some (Complete, [], source, script)
      else case script of
             [] \<Rightarrow> None
           | Failed e # s \<Rightarrow> if e = EINTR then exact_loop s source n else Some (Err e, [], source, s)
           | Moved k # s \<Rightarrow>
               let m = min k (min n (length source))
               in if m = 0 then Some (Eof, [], source, s)
                  else map_option (\<lambda>(r, xs, rest). (r, take m source @ xs, rest)) (exact_loop s (drop m source) (n - m)))"

declare exact_loop.simps [simp del]

text \<open>The raw calls: a count or an error number. On the reactor they refuse to block.\<close>

type_synonym moved = "bytes \<times> bytes \<times> syscall list"

definition io_receive_exact :: "bool \<Rightarrow> syscall list \<Rightarrow> bytes \<Rightarrow> nat \<Rightarrow> ((nat + nat) \<times> moved) option" where
  "io_receive_exact on_reactor script source n =
     (if on_reactor then Some (Inl EDEADLK, [], source, script)
      else map_option (\<lambda>(r, xs, rest). (case r of Err e \<Rightarrow> Inl e | _ \<Rightarrow> Inr (length xs), xs, rest)) (exact_loop script source n))"

definition io_send_exact :: "bool \<Rightarrow> syscall list \<Rightarrow> bytes \<Rightarrow> ((nat + nat) \<times> moved) option" where
  "io_send_exact on_reactor script source =
     (if on_reactor then Some (Inl EDEADLK, [], source, script)
      else map_option (\<lambda>(r, xs, rest). (case r of Err e \<Rightarrow> Inl e | Eof \<Rightarrow> Inl kEIO | Complete \<Rightarrow> Inr (length xs), xs, rest))
        (exact_loop script source (length source)))"

definition io_splice_exact :: "bool \<Rightarrow> syscall list \<Rightarrow> bytes \<Rightarrow> nat \<Rightarrow> ((nat + nat) \<times> moved) option" where
  "io_splice_exact on_reactor script source n =
     (if on_reactor then Some (Inl EDEADLK, [], source, script)
      else map_option (\<lambda>(r, xs, rest). (case r of Err e \<Rightarrow> Inl e | _ \<Rightarrow> Inr (length xs), xs, rest)) (exact_loop script source n))"

text \<open>Their callers throw.\<close>

definition splice_exact :: "bool \<Rightarrow> syscall list \<Rightarrow> bytes \<Rightarrow> nat \<Rightarrow> (nat result \<times> moved) option" where
  "splice_exact on_reactor script source n =
     map_option (\<lambda>(r, rest). (case r of
         Inl e \<Rightarrow> Inl (SystemError e ''splice'')
       | Inr k \<Rightarrow> if k \<noteq> n then Inl (SystemError ECONNRESET ''splice reached EOF before the requested length'') else Inr n, rest))
       (io_splice_exact on_reactor script source n)"

definition send_all :: "bool \<Rightarrow> syscall list \<Rightarrow> bytes \<Rightarrow> (unit result \<times> moved) option" where
  "send_all on_reactor script source =
     map_option (\<lambda>(r, rest). (case r of
         Inl e \<Rightarrow> Inl (SystemError e ''send'')
       | Inr k \<Rightarrow> if k \<noteq> length source then Inl (SystemError kEIO ''send reached EOF before the requested length'') else Inr (), rest))
       (io_send_exact on_reactor script source)"

definition receive_all :: "bool \<Rightarrow> syscall list \<Rightarrow> bytes \<Rightarrow> nat \<Rightarrow> (unit result \<times> moved) option" where
  "receive_all on_reactor script source n =
     map_option (\<lambda>(r, rest). (case r of
         Inl e \<Rightarrow> Inl (SystemError e ''recv'')
       | Inr k \<Rightarrow> if k \<noteq> n then Inl (SystemError ECONNRESET ''recv reached EOF before the requested length'') else Inr (), rest))
       (io_receive_exact on_reactor script source n)"

text \<open>\<open>write_all\<close> takes 0 for an error, with whatever \<^verbatim>\<open>errno\<close> holds (\<open>stale\<close>).\<close>

definition write_all :: "nat \<Rightarrow> syscall list \<Rightarrow> bytes \<Rightarrow> (unit result \<times> moved) option" where
  "write_all stale script source =
     map_option (\<lambda>(r, rest). (case r of
         Err e \<Rightarrow> Inl (SystemError e ''write'') | Eof \<Rightarrow> Inl (SystemError stale ''write'') | Complete \<Rightarrow> Inr (), rest))
       (exact_loop script source (length source))"

definition read_all :: "syscall list \<Rightarrow> bytes \<Rightarrow> nat \<Rightarrow> (unit result \<times> moved) option" where
  "read_all script source n =
     map_option (\<lambda>(r, rest). (case r of
         Err e \<Rightarrow> Inl (SystemError e ''read'')
       | Eof \<Rightarrow> Inl (SystemError ECONNRESET ''read reached EOF before the requested length'') | Complete \<Rightarrow> Inr (), rest))
       (exact_loop script source n)"

text \<open>From a file at an offset, which advances; the bytes after the offset are the source.\<close>

definition splice_from_fd_exact :: "syscall list \<Rightarrow> bytes \<Rightarrow> nat \<Rightarrow> nat \<Rightarrow> (nat result \<times> nat \<times> moved) option" where
  "splice_from_fd_exact script file_bytes source_offset n =
     map_option (\<lambda>(r, xs, rest). (case r of
         Err e \<Rightarrow> Inl (SystemError e ''splice(from fd)'')
       | Eof \<Rightarrow> Inl (SystemError ECONNRESET ''splice reached EOF before the requested length'')
       | Complete \<Rightarrow> Inr n, source_offset + length xs, xs, rest))
       (exact_loop script (drop source_offset file_bytes) n)"

definition sendfile_exact :: "syscall list \<Rightarrow> bytes \<Rightarrow> nat \<Rightarrow> nat \<Rightarrow> (nat result \<times> nat \<times> moved) option" where
  "sendfile_exact script file_bytes source_offset n =
     map_option (\<lambda>(r, xs, rest). (case r of
         Err e \<Rightarrow> Inl (SystemError e ''sendfile'')
       | Eof \<Rightarrow> Inl (SystemError kEIO ''sendfile reached EOF before the requested length'')
       | Complete \<Rightarrow> Inr n, source_offset + length xs, xs, rest))
       (exact_loop script (drop source_offset file_bytes) n)"

definition write_at :: "(nat \<Rightarrow> u8) \<Rightarrow> nat \<Rightarrow> bytes \<Rightarrow> (nat \<Rightarrow> u8)" where
  "write_at f offset xs = (\<lambda>i. if offset \<le> i \<and> i < offset + length xs then xs ! (i - offset) else f i)"

definition splice_to_fd_exact ::
  "syscall list \<Rightarrow> bytes \<Rightarrow> (nat \<Rightarrow> u8) \<Rightarrow> nat \<Rightarrow> nat \<Rightarrow> (nat result \<times> (nat \<Rightarrow> u8) \<times> nat \<times> bytes \<times> syscall list) option" where
  "splice_to_fd_exact script source f destination_offset n =
     map_option (\<lambda>(r, xs, rest). (case r of
         Err e \<Rightarrow> Inl (SystemError e ''splice(to fd)'')
       | Eof \<Rightarrow> Inl (SystemError ECONNRESET ''splice reached EOF before the requested length'')
       | Complete \<Rightarrow> Inr n, write_at f destination_offset xs, destination_offset + length xs, rest))
       (exact_loop script source n)"


section \<open>A response into a file\<close>

record RangeFileSink =
  rf_file :: "nat \<Rightarrow> u8"
  rf_offset :: nat

definition sink_write :: "RangeFileSink \<Rightarrow> bytes \<Rightarrow> RangeFileSink" where
  "sink_write d xs = d\<lparr>rf_file := write_at (rf_file d) (rf_offset d) xs, rf_offset := rf_offset d + length xs\<rparr>"

definition write_range_file :: "syscall list \<Rightarrow> RangeFileSink \<Rightarrow> bytes \<Rightarrow> (unit result \<times> RangeFileSink \<times> syscall list) option" where
  "write_range_file script destination xs =
     map_option (\<lambda>(r, ys, left, s). (case r of
         Err e \<Rightarrow> Inl (SystemError e ''pwrite(cache range)'') | Eof \<Rightarrow> Inl (SystemError kEIO ''pwrite(cache range)'') | Complete \<Rightarrow> Inr (),
         sink_write destination ys, s))
       (exact_loop script xs (length xs))"

definition unsupported_file_splice :: "nat \<Rightarrow> bool" where
  "unsupported_file_splice e \<longleftrightarrow> e \<in> {22, 95, 18, 1, 38}"

text \<open>\<^verbatim>\<open>do ... while (result < 0 && errno == EINTR)\<close>\<close>

fun retry_interrupted :: "syscall list \<Rightarrow> (syscall \<times> syscall list) option" where
  "retry_interrupted [] = None"
| "retry_interrupted (c # s) = (if c = Failed EINTR then retry_interrupted s else Some (c, s))"

text \<open>One successful \<^verbatim>\<open>splice\<close>, whose source may be a file at an offset; a full pipe is 0.\<close>

definition splice_some ::
  "syscall list \<Rightarrow> bytes \<Rightarrow> nat option \<Rightarrow> nat \<Rightarrow> (nat result \<times> nat option \<times> moved) option" where
  "splice_some script source source_offset n =
     (case retry_interrupted script of
        None \<Rightarrow> None
      | Some (Moved k, s) \<Rightarrow>
          let m = min k (min n (length source))
          in if m = 0 then Some (Inl (SystemError ECONNRESET ''splice reached EOF before the requested length''), source_offset, [], source, s)
             else Some (Inr m, map_option (\<lambda>p. p + m) source_offset, take m source, drop m source, s)
      | Some (Failed e, s) \<Rightarrow>
          Some (if e = EAGAIN then Inr 0 else Inl (SystemError e ''splice''), source_offset, [], source, s))"

text \<open>\<^verbatim>\<open>tee\<close> copies without taking from the source; a short copy cannot be taken back and is an error.\<close>

definition tee_exact :: "syscall list \<Rightarrow> bytes \<Rightarrow> nat \<Rightarrow> (nat result \<times> bytes \<times> syscall list) option" where
  "tee_exact script source n =
     (case retry_interrupted script of
        None \<Rightarrow> None
      | Some (Moved k, s) \<Rightarrow>
          let m = min k (min n (length source))
          in Some (if m = n then Inr n
                   else if m > 0 then Inl (SystemError kEIO ''tee returned a short clone'')
                   else Inl (SystemError ECONNRESET ''tee reached EOF before the requested length''), take m source, s)
      | Some (Failed e, s) \<Rightarrow> Some (Inl (SystemError e ''tee''), [], s))"

lemma retry_interrupted_shorter: "retry_interrupted s = Some (c, s') \<Longrightarrow> length s' < length s"
  by (induction s) (auto split: if_splits)

lemma exact_loop_script: "exact_loop s source n = Some (r, xs, left, s') \<Longrightarrow> length s' \<le> length s"
proof (induction s source n arbitrary: r xs left rule: exact_loop.induct)
  case (1 script source n)
  from 1(3) show ?case
    using 1(1,2) by (subst (asm) exact_loop.simps) (fastforce split: if_splits list.splits syscall.splits simp: Let_def)
qed

lemma write_range_file_script: "write_range_file s d xs = Some (r, d', s') \<Longrightarrow> length s' \<le> length s"
  by (auto simp: write_range_file_def dest: exact_loop_script)

record transfer_state =
  ts_pipe :: bytes
  ts_sink :: RangeFileSink
  ts_splice_supported :: bool
  ts_spliced :: nat
  ts_copied :: nat


definition copy_round :: "syscall list \<Rightarrow> transfer_state \<Rightarrow> nat \<Rightarrow> (nat result \<times> transfer_state \<times> syscall list) option" where
  "copy_round script t n =
     (case retry_interrupted script of
        None \<Rightarrow> None
      | Some (Failed e, s) \<Rightarrow> Some (Inl (SystemError e ''read(cache staging pipe)''), t, s)
      | Some (Moved k, s) \<Rightarrow>
          let m = min k (min (min (64 * 1024) n) (length (ts_pipe t)))
          in if m = 0 then Some (Inl (SystemError ECONNRESET ''cache staging pipe reached EOF''), t, s)
             else case write_range_file s (ts_sink t) (take m (ts_pipe t)) of
                    None \<Rightarrow> None
                  | Some (Inl e, d, s') \<Rightarrow> Some (Inl e, t\<lparr>ts_pipe := drop m (ts_pipe t), ts_sink := d\<rparr>, s')
                  | Some (Inr u, d, s') \<Rightarrow>
                      Some (Inr m, t\<lparr>ts_pipe := drop m (ts_pipe t), ts_sink := d, ts_copied := ts_copied t + m\<rparr>, s'))"

definition transfer_round :: "syscall list \<Rightarrow> transfer_state \<Rightarrow> nat \<Rightarrow> (nat result \<times> transfer_state \<times> syscall list) option" where
  "transfer_round script t n =
     (if ts_splice_supported t
      then case retry_interrupted script of
             None \<Rightarrow> None
           | Some (Moved k, s) \<Rightarrow>
               let m = min k (min n (length (ts_pipe t)))
               in if m = 0 then Some (Inl (SystemError ECONNRESET ''splice reached EOF before the cache range''), t, s)
                  else Some (Inr m, t\<lparr>ts_pipe := drop m (ts_pipe t), ts_sink := sink_write (ts_sink t) (take m (ts_pipe t)),
                    ts_spliced := ts_spliced t + m\<rparr>, s)
           | Some (Failed e, s) \<Rightarrow>
               if \<not> unsupported_file_splice e then Some (Inl (SystemError e ''splice(cache file)''), t, s)
               else copy_round s (t\<lparr>ts_splice_supported := False\<rparr>) n
      else copy_round script t n)"

lemma copy_round_shorter: "copy_round s t n = Some (r, t', s') \<Longrightarrow> length s' < length s"
  unfolding copy_round_def
  by (fastforce dest: retry_interrupted_shorter write_range_file_script split: option.splits syscall.splits if_splits sum.splits
      simp: Let_def)

lemma transfer_round_shorter: "transfer_round s t n = Some (r, t', s') \<Longrightarrow> length s' < length s"
  unfolding transfer_round_def
  by (fastforce dest: retry_interrupted_shorter copy_round_shorter split: option.splits syscall.splits if_splits simp: Let_def)

function transfer_pipe_to_file :: "syscall list \<Rightarrow> transfer_state \<Rightarrow> nat \<Rightarrow> (unit result \<times> transfer_state \<times> syscall list) option" where
  "transfer_pipe_to_file script t n =
     (if n = 0 then Some (Inr (), t, script)
      else case transfer_round script t n of
             None \<Rightarrow> None
           | Some (Inl e, t', s) \<Rightarrow> Some (Inl e, t', s)
           | Some (Inr m, t', s) \<Rightarrow> transfer_pipe_to_file s t' (n - m))"
  by pat_completeness auto
termination
  by (relation "measure (\<lambda>(script, t, n). length script)") (auto dest: transfer_round_shorter)

declare transfer_pipe_to_file.simps [simp del]


section \<open>What is moved\<close>

lemma exact_loop_moves:
  assumes "exact_loop s source n = Some (r, xs, left, s')"
  shows "source = xs @ left \<and> length xs \<le> n \<and> (r = Complete \<longleftrightarrow> length xs = n)"
  using assms
proof (induction s source n arbitrary: r xs left rule: exact_loop.induct)
  case (1 script source n)
  show ?case
  proof (cases "n = 0")
    case True
    then show ?thesis using 1(3) by (simp add: exact_loop.simps)
  next
    case n: False
    then obtain c s where script: "script = c # s" using 1(3) by (cases script) (simp_all add: exact_loop.simps)
    show ?thesis
    proof (cases c)
      case (Failed e)
      then show ?thesis using 1(2) [OF n script Failed] 1(3) n script by (subst (asm) exact_loop.simps) (auto split: if_splits)
    next
      case (Moved k)
      define m where "m = min k (min n (length source))"
      show ?thesis
      proof (cases "m = 0")
        case True
        then have "r = Eof" "xs = []" "left = source" using 1(3) n script Moved by (simp_all add: exact_loop.simps Let_def m_def)
        then show ?thesis using n by simp
      next
        case False
        then obtain ys where ys: "exact_loop s (drop m source) (n - m) = Some (r, ys, left, s')" "xs = take m source @ ys"
          using 1(3) n script Moved by (subst (asm) exact_loop.simps) (auto simp: Let_def m_def [symmetric])
        have "drop m source = ys @ left \<and> length ys \<le> n - m \<and> (r = Complete \<longleftrightarrow> length ys = n - m)"
          using 1(1) [OF n script Moved m_def False ys(1)] .
        moreover have "m \<le> n" "m \<le> length source" by (simp_all add: m_def)
        moreover have "source = take m source @ drop m source" by simp
        ultimately show ?thesis using ys(2) by (auto simp: min_def)
      qed
    qed
  qed
qed


lemma write_at_append: "write_at (write_at f k xs) (k + length xs) ys = write_at f k (xs @ ys)"
  by (auto simp: write_at_def fun_eq_iff nth_append)

lemma sink_write_append [simp]: "sink_write (sink_write d xs) ys = sink_write d (xs @ ys)"
  by (simp add: sink_write_def write_at_append)

lemma sink_write_nil [simp]: "sink_write d [] = d"
proof -
  have "write_at f k [] = f" for f k by (auto simp: write_at_def fun_eq_iff)
  then show ?thesis by (simp add: sink_write_def)
qed

lemma write_range_moves:
  assumes "write_range_file s d xs = Some (r, d', s')"
  obtains ys zs where "xs = ys @ zs" "d' = sink_write d ys" "r = Inr () \<longleftrightarrow> zs = []"
proof -
  obtain q ys left where l: "exact_loop s xs (length xs) = Some (q, ys, left, s')" "d' = sink_write d ys"
      "r = (case q of Err e \<Rightarrow> Inl (SystemError e ''pwrite(cache range)'') | Eof \<Rightarrow> Inl (SystemError kEIO ''pwrite(cache range)'') | Complete \<Rightarrow> Inr ())"
    using assms by (auto simp: write_range_file_def)
  have m: "xs = ys @ left" "q = Complete \<longleftrightarrow> length ys = length xs" using exact_loop_moves [OF l(1)] by simp_all
  have "r = Inr () \<longleftrightarrow> q = Complete" by (simp add: l(3) split: outcome.split)
  then show thesis using that [OF m(1) l(2)] m by auto
qed

text \<open>What a round moves: \<open>ys\<close> to the file, \<open>zs\<close> were read from the pipe and lost in a failed write.\<close>

definition round_ok :: "transfer_state \<Rightarrow> nat \<Rightarrow> nat result \<Rightarrow> transfer_state \<Rightarrow> bytes \<Rightarrow> bytes \<Rightarrow> bool" where
  "round_ok t n r t' ys zs \<longleftrightarrow> ts_pipe t = ys @ zs @ ts_pipe t' \<and> ts_sink t' = sink_write (ts_sink t) ys \<and> length ys + length zs \<le> n \<and>
     (case r of
        Inr m \<Rightarrow> zs = [] \<and> length ys = m \<and> 0 < m \<and> ts_spliced t' + ts_copied t' = ts_spliced t + ts_copied t + m
      | Inl e \<Rightarrow> ts_spliced t' + ts_copied t' = ts_spliced t + ts_copied t)"

lemma round_ok_flag [simp]: "round_ok (t\<lparr>ts_splice_supported := b\<rparr>) n r t' ys zs = round_ok t n r t' ys zs"
  by (simp add: round_ok_def split: sum.split)

lemma copy_round_moves:
  assumes "copy_round s t n = Some (r, t', s')"
  shows "\<exists>ys zs. round_ok t n r t' ys zs"
proof -
  obtain c s1 where c: "retry_interrupted s = Some (c, s1)" using assms by (auto simp: copy_round_def split: option.splits)
  show ?thesis
  proof (cases c)
    case (Failed e)
    then have "round_ok t n r t' [] []" using assms c by (auto simp: copy_round_def round_ok_def)
    then show ?thesis by blast
  next
    case (Moved k)
    define m where "m = min k (min (min 65536 n) (length (ts_pipe t)))"
    show ?thesis
    proof (cases "m = 0")
      case True
      then have "round_ok t n r t' [] []" using assms c Moved by (auto simp: copy_round_def round_ok_def Let_def m_def [symmetric])
      then show ?thesis by blast
    next
      case False
      then obtain q d where w: "write_range_file s1 (ts_sink t) (take m (ts_pipe t)) = Some (q, d, s')"
          "r = (case q of Inl e \<Rightarrow> Inl e | Inr u \<Rightarrow> Inr m)"
          "t' = t\<lparr>ts_pipe := drop m (ts_pipe t), ts_sink := d, ts_copied := ts_copied t + (case q of Inl e \<Rightarrow> 0 | Inr u \<Rightarrow> m)\<rparr>"
        using assms c Moved by (auto simp: copy_round_def Let_def m_def [symmetric] split: option.splits sum.splits)
      obtain ys zs where ys: "take m (ts_pipe t) = ys @ zs" "d = sink_write (ts_sink t) ys" "q = Inr () \<longleftrightarrow> zs = []"
        using write_range_moves [OF w(1)] .
      have "m \<le> length (ts_pipe t)" "m \<le> n" by (simp_all add: m_def)
      then have len: "length ys + length zs = m" using arg_cong [OF ys(1), of length] by simp
      have "ts_pipe t = take m (ts_pipe t) @ drop m (ts_pipe t)" by simp
      then have "ts_pipe t = ys @ zs @ drop m (ts_pipe t)" unfolding ys(1) by simp
      then have "round_ok t n r t' ys zs"
        using w(2,3) ys(2,3) len \<open>m \<le> n\<close> False by (cases q) (auto simp: round_ok_def)
      then show ?thesis by blast
    qed
  qed
qed

lemma transfer_round_moves:
  assumes "transfer_round s t n = Some (r, t', s')"
  shows "\<exists>ys zs. round_ok t n r t' ys zs"
proof (cases "ts_splice_supported t")
  case False
  then show ?thesis using assms copy_round_moves by (simp add: transfer_round_def)
next
  case True
  obtain c s1 where c: "retry_interrupted s = Some (c, s1)" using assms True by (auto simp: transfer_round_def split: option.splits)
  show ?thesis
  proof (cases c)
    case (Failed e)
    show ?thesis
    proof (cases "unsupported_file_splice e")
      case un: True
      then have "copy_round s1 (t\<lparr>ts_splice_supported := False\<rparr>) n = Some (r, t', s')"
        using assms True c Failed by (simp add: transfer_round_def)
      from copy_round_moves [OF this] show ?thesis by simp
    next
      case un: False
      then have "round_ok t n r t' [] []" using assms True c Failed by (auto simp: transfer_round_def round_ok_def)
      then show ?thesis by blast
    qed
  next
    case (Moved k)
    define m where "m = min k (min n (length (ts_pipe t)))"
    have "round_ok t n r t' (take m (ts_pipe t)) []"
      using assms True c Moved
      by (auto simp: transfer_round_def round_ok_def Let_def m_def [symmetric] min.coboundedI2 split: if_splits) (auto simp: m_def)
    then show ?thesis by blast
  qed
qed


lemma transfer_moves:
  assumes "transfer_pipe_to_file s t n = Some (r, t', s')"
  shows "\<exists>ys zs. ts_pipe t = ys @ zs @ ts_pipe t' \<and> ts_sink t' = sink_write (ts_sink t) ys \<and> length ys + length zs \<le> n \<and>
    (r = Inr () \<longrightarrow> length ys = n \<and> zs = [] \<and> ts_spliced t' + ts_copied t' = ts_spliced t + ts_copied t + n)"
  using assms
proof (induction s t n rule: transfer_pipe_to_file.induct)
  case (1 s t n)
  show ?case
  proof (cases "n = 0")
    case True
    then show ?thesis using 1(2) by (simp add: transfer_pipe_to_file.simps)
  next
    case n: False
    obtain q t1 s1 where q: "transfer_round s t n = Some (q, t1, s1)"
      using 1(2) n by (subst (asm) transfer_pipe_to_file.simps) (auto split: option.splits)
    obtain ys zs where ok: "round_ok t n q t1 ys zs" using transfer_round_moves [OF q] by blast
    show ?thesis
    proof (cases q)
      case (Inl e)
      then have "r = Inl e" "t' = t1" using 1(2) n q by (simp_all add: transfer_pipe_to_file.simps)
      then show ?thesis using ok by (auto simp: round_ok_def)
    next
      case (Inr m)
      then have "transfer_pipe_to_file s1 t1 (n - m) = Some (r, t', s')"
        using 1(2) n q by (simp add: transfer_pipe_to_file.simps [of s])
      from 1(1) [OF n q refl Inr refl this] obtain xs ws where
        rest: "ts_pipe t1 = xs @ ws @ ts_pipe t'" "ts_sink t' = sink_write (ts_sink t1) xs" "length xs + length ws \<le> n - m"
        "r = Inr () \<longrightarrow> length xs = n - m \<and> ws = [] \<and> ts_spliced t' + ts_copied t' = ts_spliced t1 + ts_copied t1 + (n - m)"
        by blast
      have first: "ts_pipe t = ys @ ts_pipe t1" "ts_sink t1 = sink_write (ts_sink t) ys" "length ys = m" "m \<le> n"
        "ts_spliced t1 + ts_copied t1 = ts_spliced t + ts_copied t + m" using ok Inr by (auto simp: round_ok_def)
      show ?thesis
      proof (intro exI conjI)
        show "ts_pipe t = (ys @ xs) @ ws @ ts_pipe t'" using first(1) rest(1) by simp
        show "ts_sink t' = sink_write (ts_sink t) (ys @ xs)" using first(2) rest(2) by simp
        show "length (ys @ xs) + length ws \<le> n" using first(3,4) rest(3) by simp
        show "r = Inr () \<longrightarrow> length (ys @ xs) = n \<and> ws = [] \<and> ts_spliced t' + ts_copied t' = ts_spliced t + ts_copied t + n"
          using rest(4) first(3-5) by auto
      qed
    qed
  qed
qed

section \<open>That the loops end\<close>

definition useful :: "syscall list \<Rightarrow> nat" where
  "useful s = length (filter (\<lambda>c. c \<noteq> Failed EINTR) s)"

lemma useful_simps [simp]: "useful [] = 0" "useful (c # s) = (if c = Failed EINTR then useful s else Suc (useful s))"
  by (simp_all add: useful_def)

lemma retry_useful:
  "0 < useful s \<Longrightarrow> retry_interrupted s \<noteq> None" "retry_interrupted s = Some (c, s') \<Longrightarrow> useful s = Suc (useful s')"
  by (induction s) (auto split: if_splits)

lemma exact_loop_ends:
  "n \<le> useful s \<Longrightarrow> \<exists>r xs left s'. exact_loop s source n = Some (r, xs, left, s') \<and> (r = Complete \<longrightarrow> useful s \<le> useful s' + n)"
proof (induction s source n rule: exact_loop.induct)
  case (1 s source n)
  show ?case
  proof (cases "n = 0 \<or> s = []")
    case True
    then show ?thesis using 1(3) by (auto simp: exact_loop.simps)
  next
    case False
    then obtain c s1 where n: "n \<noteq> 0" and s: "s = c # s1" by (cases s) auto
    show ?thesis
    proof (cases c)
      case (Failed e)
      then show ?thesis using 1(2) [OF n s Failed] 1(3) n s by (subst exact_loop.simps) auto
    next
      case (Moved k)
      define m where "m = min k (min n (length source))"
      show ?thesis
      proof (cases "m = 0")
        case True
        then show ?thesis using n s Moved by (subst exact_loop.simps) (simp add: Let_def m_def)
      next
        case False
        then have "n - m \<le> useful s1" using 1(3) s Moved by auto
        from 1(1) [OF n s Moved m_def False this] obtain r xs left s' where
          l: "exact_loop s1 (drop m source) (n - m) = Some (r, xs, left, s')" "r = Complete \<longrightarrow> useful s1 \<le> useful s' + (n - m)"
          by blast
        have "exact_loop s source n = Some (r, take m source @ xs, left, s')"
          using n s Moved False l(1) by (subst exact_loop.simps) (simp add: Let_def m_def [symmetric])
        moreover have "m \<le> n" by (simp add: m_def)
        ultimately show ?thesis using l(2) s Moved False by auto
      qed
    qed
  qed
qed

lemma copy_round_ends:
  assumes "2 * n \<le> useful s" "0 < n"
  shows "\<exists>r t' s'. copy_round s t n = Some (r, t', s') \<and> (\<forall>m. r = Inr m \<longrightarrow> 2 * (n - m) \<le> useful s' \<and> ts_splice_supported t' = ts_splice_supported t)"
proof -
  obtain c s1 where c: "retry_interrupted s = Some (c, s1)" "useful s = Suc (useful s1)"
    using retry_useful [of s] assms by (cases "retry_interrupted s") auto
  show ?thesis
  proof (cases c)
    case (Failed e)
    then show ?thesis using c by (simp add: copy_round_def)
  next
    case (Moved k)
    define m where "m = min k (min (min 65536 n) (length (ts_pipe t)))"
    have m: "m \<le> n" "m \<le> length (ts_pipe t)" by (simp_all add: m_def)
    show ?thesis
    proof (cases "m = 0")
      case True
      then show ?thesis using c Moved by (simp add: copy_round_def Let_def m_def)
    next
      case False
      have "length (take m (ts_pipe t)) \<le> useful s1" using m assms c(2) by simp
      from exact_loop_ends [OF this] obtain r xs left s' where
        l: "exact_loop s1 (take m (ts_pipe t)) (length (take m (ts_pipe t))) = Some (r, xs, left, s')"
          "r = Complete \<longrightarrow> useful s1 \<le> useful s' + length (take m (ts_pipe t))" by blast
      have "2 * (n - m) \<le> useful s'" if "r = Complete" using l(2) that m assms c(2) False by auto
      then show ?thesis
        using c(1) Moved False l(1) by (cases r) (simp_all add: copy_round_def Let_def m_def [symmetric] write_range_file_def)
    qed
  qed
qed

lemma transfer_ends: "2 * n + (if ts_splice_supported t then 1 else 0) \<le> useful s \<Longrightarrow> transfer_pipe_to_file s t n \<noteq> None"
proof (induction s t n rule: transfer_pipe_to_file.induct)
  case (1 s t n)
  show ?case
  proof (cases "n = 0")
    case False
    have "\<exists>r t' s'. transfer_round s t n = Some (r, t', s') \<and>
      (\<forall>m. r = Inr m \<longrightarrow> 2 * (n - m) + (if ts_splice_supported t' then 1 else 0) \<le> useful s')"
    proof (cases "ts_splice_supported t")
      case sup: True
      obtain c s1 where c: "retry_interrupted s = Some (c, s1)" "useful s = Suc (useful s1)"
        using retry_useful [of s] 1(2) sup by (cases "retry_interrupted s") auto
      show ?thesis
      proof (cases c)
        case (Failed e)
        have "2 * n \<le> useful s1" using 1(2) sup c(2) by simp
        from copy_round_ends [OF this, of "t\<lparr>ts_splice_supported := False\<rparr>"] False
        show ?thesis using sup c(1) Failed by (cases "unsupported_file_splice e") (auto simp: transfer_round_def)
      next
        case (Moved k)
        define m where "m = min k (min n (length (ts_pipe t)))"
        have "m \<le> n" by (simp add: m_def)
        then have "0 < m \<Longrightarrow> Suc (2 * (n - m)) \<le> useful s1" using sup c(2) 1(2) by simp
        then show ?thesis
          using sup c(1) Moved by (cases "m = 0") (auto simp: transfer_round_def Let_def m_def [symmetric])
      qed
    next
      case sup: False
      then show ?thesis using copy_round_ends [of n s t] False 1(2) by (auto simp: transfer_round_def)
    qed
    then obtain r t' s' where r: "transfer_round s t n = Some (r, t', s')"
      "\<forall>m. r = Inr m \<longrightarrow> 2 * (n - m) + (if ts_splice_supported t' then 1 else 0) \<le> useful s'" by blast
    show ?thesis
    proof (cases r)
      case (Inl e)
      then show ?thesis using False r(1) by (simp add: transfer_pipe_to_file.simps [of s])
    next
      case (Inr m)
      then show ?thesis using 1(1) [OF False r(1) refl Inr refl] False r by (simp add: transfer_pipe_to_file.simps [of s])
    qed
  qed (simp add: transfer_pipe_to_file.simps)
qed


section \<open>Properties\<close>

text \<open>
  C33. A cache file receives the bytes of the response in order: however the transfer is cut into
  splices, reads and short writes, with interruptions and a file system without splice, the file
  holds a prefix of the pipe at the sink's offset and is not changed elsewhere, the offset
  counts that prefix, and success means all of it, with every byte counted as spliced or copied.
  The transfer returns unless calls are interrupted for ever.
\<close>

theorem cache_file_receives_pipe_in_order:
  "(2 * n + 1 \<le> useful s \<longrightarrow> transfer_pipe_to_file s t n \<noteq> None) \<and>
   (\<forall>r t' s'. transfer_pipe_to_file s t n = Some (r, t', s') \<longrightarrow>
     (\<exists>ys zs. ts_pipe t = ys @ zs @ ts_pipe t' \<and>
        rf_file (ts_sink t') = write_at (rf_file (ts_sink t)) (rf_offset (ts_sink t)) ys \<and>
        rf_offset (ts_sink t') = rf_offset (ts_sink t) + length ys \<and> length ys + length zs \<le> n \<and>
        (r = Inr () \<longrightarrow> ys = take n (ts_pipe t) \<and> zs = [] \<and> length ys = n \<and>
           ts_spliced t' + ts_copied t' = ts_spliced t + ts_copied t + n)))"
proof (intro conjI impI allI)
  show "transfer_pipe_to_file s t n \<noteq> None" if "2 * n + 1 \<le> useful s"
    using that transfer_ends [of n t s] by (cases "ts_splice_supported t") auto
next
  fix r t' s'
  assume "transfer_pipe_to_file s t n = Some (r, t', s')"
  from transfer_moves [OF this] obtain ys zs where m: "ts_pipe t = ys @ zs @ ts_pipe t'" "ts_sink t' = sink_write (ts_sink t) ys"
    "length ys + length zs \<le> n"
    "r = Inr () \<longrightarrow> length ys = n \<and> zs = [] \<and> ts_spliced t' + ts_copied t' = ts_spliced t + ts_copied t + n" by blast
  then have "r = Inr () \<longrightarrow> ys = take n (ts_pipe t)" by (auto simp: m(1))
  then show "\<exists>ys zs. ts_pipe t = ys @ zs @ ts_pipe t' \<and>
        rf_file (ts_sink t') = write_at (rf_file (ts_sink t)) (rf_offset (ts_sink t)) ys \<and>
        rf_offset (ts_sink t') = rf_offset (ts_sink t) + length ys \<and> length ys + length zs \<le> n \<and>
        (r = Inr () \<longrightarrow> ys = take n (ts_pipe t) \<and> zs = [] \<and> length ys = n \<and>
           ts_spliced t' + ts_copied t' = ts_spliced t + ts_copied t + n)"
    using m by (intro exI [of _ ys] exI [of _ zs]) (simp add: sink_write_def)
qed

text \<open>A transfer of four bytes: two are spliced, an interruption, then splicing is not supported, and a short write.\<close>

definition ex_transfer :: transfer_state where
  "ex_transfer = \<lparr>ts_pipe = [1, 2, 3, 4, 5], ts_sink = \<lparr>rf_file = (\<lambda>i. 0), rf_offset = 10\<rparr>, ts_splice_supported = True,
     ts_spliced = 0, ts_copied = 0\<rparr>"

definition ex_script :: "syscall list" where
  "ex_script = [Moved 2, Failed EINTR, Failed 22, Moved 9, Moved 1, Failed EINTR, Moved 1]"

lemma ex_transfer_run:
  "map_option (\<lambda>(r, t', s'). (r, ts_pipe t', ts_spliced t', ts_copied t', s')) (transfer_pipe_to_file ex_script ex_transfer 4) =
     Some (Inr (), [5], 2, 2, [])"
  by (simp add: transfer_pipe_to_file.simps transfer_round_def copy_round_def ex_script_def ex_transfer_def write_range_file_def
      exact_loop.simps unsupported_file_splice_def EINTR_def)

theorem cache_file_receives_pipe_in_order_witness:
  "\<exists>r t' s' ys zs. transfer_pipe_to_file ex_script ex_transfer 4 = Some (r, t', s') \<and> [1, 2, 3, 4, 5] = ys @ zs @ ts_pipe t' \<and>
     ys = [1, 2, 3, 4] \<and> rf_file (ts_sink t') = write_at (\<lambda>i. 0) 10 ys"
proof -
  from ex_transfer_run obtain t' s' where run: "transfer_pipe_to_file ex_script ex_transfer 4 = Some (Inr (), t', s')" by auto
  have pre: "ts_pipe ex_transfer = [1, 2, 3, 4, 5]" "take 4 (ts_pipe ex_transfer) = [1, 2, 3, 4]"
    "ts_sink ex_transfer = \<lparr>rf_file = (\<lambda>i. 0), rf_offset = 10\<rparr>" by (simp_all add: ex_transfer_def)
  show ?thesis
    using cache_file_receives_pipe_in_order [of 4 ex_script ex_transfer] run unfolding pre by fastforce
qed

text \<open>The same of the exact transfers: a prefix of the source is moved, all of it on a normal return.\<close>

lemma receive_all_exact:
  "receive_all b s source n = Some (r, xs, left, s') \<Longrightarrow> source = xs @ left \<and> (r = Inr () \<longrightarrow> length xs = n)"
  using exact_loop_moves [of s source n]
  by (cases "exact_loop s source n") (auto simp: receive_all_def io_receive_exact_def split: if_split_asm outcome.split_asm)

lemma send_all_exact: "send_all b s source = Some (r, xs, left, s') \<Longrightarrow> source = xs @ left \<and> (r = Inr () \<longrightarrow> left = [])"
  using exact_loop_moves [of s source "length source"]
  by (cases "exact_loop s source (length source)") (auto simp: send_all_def io_send_exact_def split: if_split_asm outcome.split_asm)

lemma splice_exact_exact:
  "splice_exact b s source n = Some (r, xs, left, s') \<Longrightarrow> source = xs @ left \<and> (r = Inr k \<longrightarrow> length xs = n \<and> k = n)"
  using exact_loop_moves [of s source n]
  by (cases "exact_loop s source n") (auto simp: splice_exact_def io_splice_exact_def split: if_split_asm outcome.split_asm)

lemma write_all_exact: "write_all e s source = Some (r, xs, left, s') \<Longrightarrow> source = xs @ left \<and> (r = Inr () \<longleftrightarrow> left = [])"
  using exact_loop_moves [of s source "length source"]
  by (cases "exact_loop s source (length source)") (auto simp: write_all_def split: outcome.split_asm)

lemma read_all_exact: "read_all s source n = Some (r, xs, left, s') \<Longrightarrow> source = xs @ left \<and> (r = Inr () \<longleftrightarrow> length xs = n)"
  using exact_loop_moves [of s source n]
  by (cases "exact_loop s source n") (auto simp: read_all_def split: outcome.split_asm)

lemma sendfile_exact_exact:
  "sendfile_exact s f o1 n = Some (r, o2, xs, left, s') \<Longrightarrow> drop o1 f = xs @ left \<and> o2 = o1 + length xs \<and> (r = Inr n \<longleftrightarrow> length xs = n)"
  using exact_loop_moves [of s "drop o1 f" n]
  by (cases "exact_loop s (drop o1 f) n") (auto simp: sendfile_exact_def split: outcome.split_asm)

lemma splice_to_fd_exact_exact:
  "splice_to_fd_exact s source f o1 n = Some (r, f', o2, left, s') \<Longrightarrow>
     \<exists>xs. source = xs @ left \<and> f' = write_at f o1 xs \<and> o2 = o1 + length xs \<and> (r = Inr n \<longleftrightarrow> length xs = n)"
  using exact_loop_moves [of s source n]
  by (cases "exact_loop s source n") (auto simp: splice_to_fd_exact_def split: outcome.split_asm)

lemma splice_from_fd_exact_exact:
  "splice_from_fd_exact s f o1 n = Some (r, o2, xs, left, s') \<Longrightarrow> drop o1 f = xs @ left \<and> o2 = o1 + length xs \<and> (r = Inr n \<longleftrightarrow> length xs = n)"
  using exact_loop_moves [of s "drop o1 f" n]
  by (cases "exact_loop s (drop o1 f) n") (auto simp: splice_from_fd_exact_def split: outcome.split_asm)

lemma splice_some_moves:
  "splice_some s source p n = Some (r, p', xs, left, s') \<Longrightarrow>
     source = xs @ left \<and> p' = map_option (\<lambda>q. q + length xs) p \<and> length xs \<le> n \<and> (\<forall>k. r = Inr k \<longrightarrow> k = length xs)"
  by (auto simp: splice_some_def Let_def option.map_ident split: option.splits syscall.splits if_splits)

lemma tee_exact_exact:
  "tee_exact s source n = Some (r, xs, s') \<Longrightarrow> xs = take (length xs) source \<and> (r = Inr k \<longrightarrow> k = n \<and> length xs = n)"
  by (auto simp: tee_exact_def Let_def split: option.splits syscall.splits if_splits)

end
