(* ===== verification/Http_Response.thy ===== *)
theory Http_Response
  imports Http_Head Io_Loops
begin

text \<open>
  The head and the body of an HTTP/1.1 response (\<^verbatim>\<open>class ResponseParser\<close> of
  \<^verbatim>\<open>src/src/http.cpp\<close>). The bytes are split by llhttp, which is not part of the repository: it is
  the sequence of calls it makes, with the spans it passes, and its own verdict after the last one.
  The callbacks keep the name and the value of the header that is being received, and hand the
  bytes of the body to the response, to a buffer, to a pipe or to a file.
\<close>

section \<open>State\<close>

datatype HeaderPart = part_none | part_field | part_value

text \<open>
  \<open>pr_pipe\<close>, \<open>pr_file\<close> and \<open>pr_staged\<close> are the three places a body may be sent to, with what they hold,
  when there is one; \<open>pr_reason\<close> is what the callback told llhttp.
\<close>

record ResponseParser =
  pr_status :: nat
  pr_body_bytes :: nat
  pr_fallback_copied_bytes :: nat
  pr_content_range :: string
  pr_headers :: "string \<rightharpoonup> string"
  pr_body :: bytes
  pr_pipe :: "bytes option"
  pr_file :: "RangeFileSink option"
  pr_staged :: "bytes option"
  pr_max_body_bytes :: nat
  pr_current_header_name :: string
  pr_current_header_value :: string
  pr_callback_error :: "cpp_error option"
  pr_reason :: string
  pr_header_part :: HeaderPart
  pr_headers_complete :: bool
  pr_message_complete :: bool
  pr_should_keep_alive :: bool
  pr_head_response :: bool
  pr_capture_headers :: bool
  pr_capture_content_range :: bool

definition new_parser ::
  "bytes option \<Rightarrow> RangeFileSink option \<Rightarrow> nat \<Rightarrow> bool \<Rightarrow> bool \<Rightarrow> bool \<Rightarrow> bytes option \<Rightarrow> ResponseParser" where
  "new_parser destination file_destination max_body_bytes head_response capture_headers capture_content_range staged_body =
     \<lparr>pr_status = 0, pr_body_bytes = 0, pr_fallback_copied_bytes = 0, pr_content_range = [], pr_headers = Map.empty, pr_body = [],
      pr_pipe = destination, pr_file = file_destination, pr_staged = staged_body, pr_max_body_bytes = max_body_bytes,
      pr_current_header_name = [], pr_current_header_value = [], pr_callback_error = None, pr_reason = [],
      pr_header_part = part_none, pr_headers_complete = False, pr_message_complete = False, pr_should_keep_alive = False,
      pr_head_response = head_response, pr_capture_headers = capture_headers, pr_capture_content_range = capture_content_range\<rparr>"

text \<open>What llhttp knows of a message when its headers are complete.\<close>

record llhttp_head =
  ll_status :: nat
  ll_http_major :: nat
  ll_http_minor :: nat
  ll_connection_close :: bool
  ll_connection_keep_alive :: bool
  ll_should_keep_alive :: bool

datatype llhttp_event =
    HeaderField string | HeaderValue string | HeaderValueComplete | HeadersComplete llhttp_head | BodySpan bytes | MessageComplete

text \<open>The values a callback returns: success, no body, pause, error.\<close>

datatype callback = HPE_OK | no_body | HPE_PAUSED | HPE_USER


section \<open>Callbacks\<close>

definition commit_header :: "ResponseParser \<Rightarrow> ResponseParser" where
  "commit_header p =
     (if pr_current_header_name p = [] then p
      else let name = ascii_lower (pr_current_header_name p); v = pr_current_header_value p
           in p\<lparr>pr_content_range := (if name = ''content-range'' \<and> pr_capture_content_range p then v else pr_content_range p),
                pr_headers := (if pr_capture_headers p then (pr_headers p)(name \<mapsto> v) else pr_headers p),
                pr_current_header_name := [], pr_current_header_value := [], pr_header_part := part_none\<rparr>)"

definition on_header_field :: "string \<Rightarrow> ResponseParser \<Rightarrow> ResponseParser" where
  "on_header_field xs p =
     (let p1 = (if pr_header_part p = part_value then commit_header p else p)
      in p1\<lparr>pr_current_header_name := pr_current_header_name p1 @ xs, pr_header_part := part_field\<rparr>)"

definition on_header_value :: "string \<Rightarrow> ResponseParser \<Rightarrow> ResponseParser" where
  "on_header_value xs p =
     (let p1 = (if \<not> pr_capture_headers p \<and> pr_capture_content_range p \<and> pr_header_part p \<noteq> part_value
                then p\<lparr>pr_current_header_name := ascii_lower (pr_current_header_name p)\<rparr> else p);
          p2 = (if pr_capture_headers p1 \<or> pr_current_header_name p1 = ''content-range''
                then p1\<lparr>pr_current_header_value := pr_current_header_value p1 @ xs\<rparr> else p1)
      in p2\<lparr>pr_header_part := part_value\<rparr>)"

definition interim :: "nat \<Rightarrow> bool" where
  "interim status \<longleftrightarrow> 100 \<le> status \<and> status < 200 \<and> status \<noteq> 101"

definition on_headers_complete :: "llhttp_head \<Rightarrow> ResponseParser \<Rightarrow> callback \<times> ResponseParser" where
  "on_headers_complete h p =
     (let keep = (if pr_head_response p
                  then (if 0 < ll_http_major h \<and> 0 < ll_http_minor h then \<not> ll_connection_close h
                        else ll_connection_keep_alive h)
                  else ll_should_keep_alive h);
          p1 = (commit_header p)\<lparr>pr_status := ll_status h, pr_should_keep_alive := keep, pr_headers_complete := True\<rparr>
      in (if pr_head_response p then no_body else if interim (ll_status h) then HPE_OK else HPE_PAUSED, p1))"

definition kMaximumErrorResponseSize :: nat where
  "kMaximumErrorResponseSize = 64 * 1024"

definition error_response :: "ResponseParser \<Rightarrow> bool" where
  "error_response p \<longleftrightarrow> 300 \<le> pr_status p \<and> (pr_pipe p \<noteq> None \<or> pr_file p \<noteq> None \<or> pr_staged p \<noteq> None)"

text \<open>
  Where the bytes of the body go; \<open>script\<close> are the results of the system calls that write them,
  \<open>stale\<close> what \<^verbatim>\<open>errno\<close> holds before them. \<open>None\<close> when the calls do not end.
  Growing a vector succeeds: running out of memory there is not modelled.
\<close>

definition body_sink ::
  "nat \<Rightarrow> syscall list \<Rightarrow> bytes \<Rightarrow> ResponseParser \<Rightarrow> (unit result \<times> ResponseParser \<times> syscall list) option" where
  "body_sink stale script xs p =
     (if error_response p then Some (Inr (), p\<lparr>pr_body := pr_body p @ xs\<rparr>, script)
      else case pr_staged p of
             Some ys \<Rightarrow> Some (Inr (), p\<lparr>pr_staged := Some (ys @ xs)\<rparr>, script)
           | None \<Rightarrow>
               if pr_pipe p = None \<and> pr_file p = None then Some (Inr (), p\<lparr>pr_body := pr_body p @ xs\<rparr>, script)
               else case pr_file p of
                      Some d \<Rightarrow> map_option (\<lambda>(r, d', s). (r, p\<lparr>pr_file := Some d'\<rparr>, s)) (write_range_file script d xs)
                    | None \<Rightarrow> map_option (\<lambda>(r, ys, left, s). (r, p\<lparr>pr_pipe := Some (the (pr_pipe p) @ ys)\<rparr>, s)) (write_all stale script xs))"

definition on_body :: "nat \<Rightarrow> syscall list \<Rightarrow> bytes \<Rightarrow> ResponseParser \<Rightarrow> (callback \<times> ResponseParser \<times> syscall list) option" where
  "on_body stale script xs p =
     (let body_limit = (if error_response p then kMaximumErrorResponseSize else pr_max_body_bytes p)
      in if body_limit < pr_body_bytes p \<or> body_limit - pr_body_bytes p < length xs
         then Some (HPE_USER, p\<lparr>pr_reason := ''HTTP/1.1 response exceeds body limit''\<rparr>, script)
         else case body_sink stale script xs p of
                None \<Rightarrow> None
              | Some (Inl e, p', s) \<Rightarrow>
                  Some (HPE_USER, p'\<lparr>pr_callback_error := Some e, pr_reason := ''HTTP/1.1 body sink failed''\<rparr>, s)
              | Some (Inr _, p', s) \<Rightarrow>
                  Some (HPE_OK, p'\<lparr>pr_fallback_copied_bytes := pr_fallback_copied_bytes p' + length xs,
                    pr_body_bytes := pr_body_bytes p' + length xs\<rparr>, s))"

definition on_message_complete :: "ResponseParser \<Rightarrow> callback \<times> ResponseParser" where
  "on_message_complete p = (if interim (pr_status p) then HPE_PAUSED else HPE_OK, p\<lparr>pr_message_complete := True\<rparr>)"

text \<open>One call of llhttp. A parser that captures nothing registers no header callbacks.\<close>

fun callback_of ::
  "nat \<Rightarrow> llhttp_event \<Rightarrow> syscall list \<Rightarrow> ResponseParser \<Rightarrow> (callback \<times> ResponseParser \<times> syscall list) option" where
  "callback_of stale (HeaderField xs) script p =
     Some (HPE_OK, if pr_capture_headers p \<or> pr_capture_content_range p then on_header_field xs p else p, script)"
| "callback_of stale (HeaderValue xs) script p =
     Some (HPE_OK, if pr_capture_headers p \<or> pr_capture_content_range p then on_header_value xs p else p, script)"
| "callback_of stale HeaderValueComplete script p =
     Some (HPE_OK, if pr_capture_headers p \<or> pr_capture_content_range p then commit_header p else p, script)"
| "callback_of stale (HeadersComplete h) script p =
     (let (c, p') = on_headers_complete h p in Some (c, p', script))"
| "callback_of stale (BodySpan xs) script p = on_body stale script xs p"
| "callback_of stale MessageComplete script p =
     (let (c, p') = on_message_complete p in Some (c, p', script))"

text \<open>
  The calls llhttp makes while it executes a piece of input: it stops at the first callback that
  pauses or fails. The calls not made are left over.
\<close>

fun run_callbacks ::
  "nat \<Rightarrow> llhttp_event list \<Rightarrow> syscall list \<Rightarrow> ResponseParser \<Rightarrow>
    (callback \<times> ResponseParser \<times> llhttp_event list \<times> syscall list) option" where
  "run_callbacks stale [] script p = Some (HPE_OK, p, [], script)"
| "run_callbacks stale (e # es) script p =
     (case callback_of stale e script p of
        None \<Rightarrow> None
      | Some (c, p', s) \<Rightarrow>
          if c = HPE_PAUSED \<or> c = HPE_USER then Some (c, p', es, s) else run_callbacks stale es s p')"

text \<open>
  \<open>execute\<close> and \<open>check_result\<close>: \<open>verdict\<close> is the error llhttp reports itself, if it does, when no
  callback stopped it. The number of bytes that were consumed is llhttp's.
\<close>

definition check_result :: "string option \<Rightarrow> ResponseParser \<Rightarrow> unit result" where
  "check_result failure p =
     (case failure of
        None \<Rightarrow> Inr ()
      | Some name \<Rightarrow>
          (case pr_callback_error p of
             Some e \<Rightarrow> Inl e
           | None \<Rightarrow> Inl (RuntimeError (''llhttp: '' @ name @ (if pr_reason p = [] then [] else '': '' @ pr_reason p)))))"

definition execute ::
  "nat \<Rightarrow> llhttp_event list \<Rightarrow> string option \<Rightarrow> syscall list \<Rightarrow> ResponseParser \<Rightarrow>
    (unit result \<times> ResponseParser \<times> llhttp_event list \<times> syscall list) option" where
  "execute stale events verdict script p =
     map_option (\<lambda>(c, p', rest). (case c of
         HPE_PAUSED \<Rightarrow> Inr ()
       | HPE_USER \<Rightarrow> check_result (Some ''HPE_USER'') p'
       | _ \<Rightarrow> check_result verdict p', p', rest))
       (run_callbacks stale events script p)"


section \<open>Headers\<close>

text \<open>The calls for a list of headers whose names and values come in spans.\<close>

fun header_events :: "(string list \<times> string list) list \<Rightarrow> llhttp_event list" where
  "header_events [] = []"
| "header_events ((fs, vs) # hs) = map HeaderField fs @ map HeaderValue vs @ HeaderValueComplete # header_events hs"

abbreviation captures :: "ResponseParser \<Rightarrow> bool" where
  "captures p \<equiv> pr_capture_headers p \<or> pr_capture_content_range p"

lemma ascii_lower_idem [simp]: "ascii_lower (ascii_lower s) = ascii_lower s"
  by (simp add: ascii_lower_def ascii_lower_char_def)

lemma field_spans:
  assumes "captures p" "pr_header_part p \<noteq> part_value"
  shows "run_callbacks stale (map HeaderField fs @ es) script p =
    run_callbacks stale es script (p\<lparr>pr_current_header_name := pr_current_header_name p @ concat fs,
      pr_header_part := if fs = [] then pr_header_part p else part_field\<rparr>)"
  using assms
proof (induction fs arbitrary: p)
  case (Cons x fs)
  have "run_callbacks stale (map HeaderField (x # fs) @ es) script p =
      run_callbacks stale (map HeaderField fs @ es) script (p\<lparr>pr_current_header_name := pr_current_header_name p @ x, pr_header_part := part_field\<rparr>)"
    using Cons.prems by (simp add: on_header_field_def Let_def)
  also have "\<dots> = run_callbacks stale es script (p\<lparr>pr_current_header_name := pr_current_header_name p @ concat (x # fs), pr_header_part := part_field\<rparr>)"
    using Cons.prems by (subst Cons.IH) simp_all
  finally show ?case by simp
qed simp

lemma later_value_spans:
  assumes "captures p" "pr_header_part p = part_value"
  shows "run_callbacks stale (map HeaderValue vs @ es) script p =
    run_callbacks stale es script (p\<lparr>pr_current_header_value := pr_current_header_value p @
      (if pr_capture_headers p \<or> pr_current_header_name p = ''content-range'' then concat vs else []), pr_header_part := part_value\<rparr>)"
  using assms
proof (induction vs arbitrary: p)
  case Nil
  then show ?case by (cases p) simp
next
  case (Cons x vs)
  let ?p = "p\<lparr>pr_current_header_value := pr_current_header_value p @
      (if pr_capture_headers p \<or> pr_current_header_name p = ''content-range'' then x else []), pr_header_part := part_value\<rparr>"
  have "run_callbacks stale (map HeaderValue (x # vs) @ es) script p = run_callbacks stale (map HeaderValue vs @ es) script ?p"
    using Cons.prems by (auto simp: on_header_value_def Let_def)
  also have "\<dots> = run_callbacks stale es script (?p\<lparr>pr_current_header_value := pr_current_header_value ?p @
      (if pr_capture_headers ?p \<or> pr_current_header_name ?p = ''content-range'' then concat vs else []), pr_header_part := part_value\<rparr>)"
    using Cons.prems by (subst Cons.IH) simp_all
  finally show ?case by simp
qed

text \<open>A header in any spans leaves what the whole header leaves.\<close>

definition received :: "string \<Rightarrow> string \<Rightarrow> ResponseParser \<Rightarrow> ResponseParser" where
  "received name v p =
     p\<lparr>pr_content_range := (if ascii_lower name = ''content-range'' \<and> pr_capture_content_range p then v else pr_content_range p),
       pr_headers := (if pr_capture_headers p then (pr_headers p)(ascii_lower name \<mapsto> v) else pr_headers p)\<rparr>"

definition between_headers :: "ResponseParser \<Rightarrow> bool" where
  "between_headers p \<longleftrightarrow> pr_current_header_name p = [] \<and> pr_current_header_value p = [] \<and> pr_header_part p = part_none"

lemma commit_received:
  assumes "between_headers p" "name \<noteq> []" "ascii_lower name' = ascii_lower name" "name' \<noteq> []"
    "pr_capture_headers p \<or> ascii_lower name = ''content-range'' \<and> pr_capture_content_range p \<longrightarrow> v' = v"
  shows "commit_header (p\<lparr>pr_current_header_name := name', pr_current_header_value := v', pr_header_part := part\<rparr>) = received name v p"
  using assms by (cases p) (auto simp: commit_header_def received_def between_headers_def Let_def)

lemma one_header:
  assumes "captures p" "between_headers p" "concat fs \<noteq> []"
  shows "run_callbacks stale (map HeaderField fs @ map HeaderValue vs @ HeaderValueComplete # es) script p =
    run_callbacks stale es script (received (concat fs) (concat vs) p)"
proof -
  let ?name = "concat fs"
  let ?q = "p\<lparr>pr_current_header_name := ?name, pr_header_part := part_field\<rparr>"
  have p: "pr_header_part p = part_none" "pr_current_header_name p = []" "pr_current_header_value p = []"
    using assms(2) by (simp_all add: between_headers_def)
  have fs: "fs \<noteq> []" using assms(3) by auto
  have fields: "run_callbacks stale (map HeaderField fs @ map HeaderValue vs @ HeaderValueComplete # es) script p =
      run_callbacks stale (map HeaderValue vs @ HeaderValueComplete # es) script ?q"
    using assms(1) fs by (subst field_spans) (simp_all add: p)
  show ?thesis
  proof (cases vs)
    case Nil
    have "?q = p\<lparr>pr_current_header_name := ?name, pr_current_header_value := [], pr_header_part := part_field\<rparr>"
      using p by (cases p) simp
    then have "commit_header ?q = received ?name [] p" using commit_received [OF assms(2,3) refl assms(3)] by simp
    then show ?thesis using fields assms(1) Nil by simp
  next
    case (Cons v ws)
    define lowered where "lowered = (if \<not> pr_capture_headers p \<and> pr_capture_content_range p then ascii_lower ?name else ?name)"
    have low: "ascii_lower lowered = ascii_lower ?name" "lowered \<noteq> []" using assms(3) by (simp_all add: lowered_def) (simp add: ascii_lower_def)
    define wanted where "wanted \<longleftrightarrow> pr_capture_headers p \<or> lowered = ''content-range''"
    let ?v = "\<lambda>x. p\<lparr>pr_current_header_name := lowered, pr_current_header_value := (if wanted then x else []), pr_header_part := part_value\<rparr>"
    have "on_header_value v ?q = ?v v" by (auto simp: on_header_value_def lowered_def wanted_def p Let_def)
    then have "run_callbacks stale (map HeaderValue vs @ HeaderValueComplete # es) script ?q =
        run_callbacks stale (map HeaderValue ws @ HeaderValueComplete # es) script (?v v)" using assms(1) by (simp add: Cons)
    also have "\<dots> = run_callbacks stale (HeaderValueComplete # es) script (?v (v @ concat ws))"
      using assms(1) by (subst later_value_spans) (auto simp: wanted_def)
    also have "\<dots> = run_callbacks stale es script (received ?name (concat vs) p)"
    proof -
      have "commit_header (?v (v @ concat ws)) = received ?name (concat vs) p"
        using low by (intro commit_received [OF assms(2,3)]) (auto simp: wanted_def lowered_def Cons)
      then show ?thesis using assms(1) by simp
    qed
    finally show ?thesis using fields by simp
  qed
qed

lemma received_frame [simp]:
  "captures (received name v p) = captures p" "between_headers (received name v p) = between_headers p"
  by (simp_all add: received_def between_headers_def)

lemma all_headers:
  assumes "captures p" "between_headers p" "list_all (\<lambda>(fs, vs). concat fs \<noteq> []) hs"
  shows "run_callbacks stale (header_events hs) script p =
    Some (HPE_OK, fold (\<lambda>(fs, vs). received (concat fs) (concat vs)) hs p, [], script)"
  using assms
proof (induction hs arbitrary: p)
  case (Cons h hs)
  obtain fs vs where h: "h = (fs, vs)" by fastforce
  show ?case using Cons.prems by (simp add: h one_header Cons.IH)
qed simp

text \<open>
  The headers of a response: names without regard to case, the last value of a name that comes
  more than once.
\<close>

definition header_map :: "(string \<times> string) list \<Rightarrow> string \<rightharpoonup> string" where
  "header_map hs = map_of (rev (map (\<lambda>(name, v). (ascii_lower name, v)) hs))"

lemma fold_received:
  "fold (\<lambda>(fs, vs). received (concat fs) (concat vs)) hs p =
     (let whole = map (\<lambda>(fs, vs). (concat fs, concat vs)) hs
      in p\<lparr>pr_content_range := (if pr_capture_content_range p then case_option (pr_content_range p) id (header_map whole ''content-range'')
             else pr_content_range p),
           pr_headers := (if pr_capture_headers p then pr_headers p ++ header_map whole else pr_headers p)\<rparr>)"
proof (induction hs arbitrary: p)
  case Nil
  then show ?case by (cases p) (simp add: header_map_def)
next
  case (Cons h hs)
  obtain fs vs where h: "h = (fs, vs)" by fastforce
  show ?case
    unfolding fold.simps comp_def Cons.IH
    by (auto simp: h Let_def received_def header_map_def map_add_def fun_eq_iff split: option.split)
qed

text \<open>
  C39. What is captured of the headers does not depend on how they arrive: in whatever spans llhttp
  hands over the names and the values, the parser ends up with the last value of every name in
  lower case when it captures headers, with the last content range when it captures that, and
  with nothing when it captures nothing.
\<close>

theorem captured_headers_do_not_depend_on_spans:
  assumes "list_all (\<lambda>(fs, vs). concat fs \<noteq> []) hs"
    and "p = new_parser destination file_destination max_body head_response capture_headers capture_content_range staged"
    and "whole = map (\<lambda>(fs, vs). (concat fs, concat vs)) hs"
  shows "run_callbacks stale (header_events hs) script p =
    Some (HPE_OK, p\<lparr>pr_content_range := (if capture_content_range then case_option [] id (header_map whole ''content-range'') else []),
      pr_headers := (if capture_headers then header_map whole else Map.empty)\<rparr>, [], script)"
proof (cases "captures p")
  case True
  have "between_headers p" by (simp add: assms(2) new_parser_def between_headers_def)
  moreover have "pr_content_range p = []" "pr_headers p = Map.empty" "pr_capture_headers p = capture_headers"
    "pr_capture_content_range p = capture_content_range" by (simp_all add: assms(2) new_parser_def)
  ultimately show ?thesis
    using all_headers [OF True _ assms(1), of stale script] by (simp add: fold_received Let_def assms(3) [symmetric] split: option.split)
next
  case False
  have skip: "run_callbacks stale (map HeaderField fs @ es) script p = run_callbacks stale es script p"
    "run_callbacks stale (map HeaderValue vs @ es) script p = run_callbacks stale es script p" for fs vs es
    using False by (induction fs, simp, simp) (induction vs, simp_all)
  have "run_callbacks stale (header_events hs) script p = Some (HPE_OK, p, [], script)"
    using False by (induction hs rule: header_events.induct) (simp_all add: skip)
  then show ?thesis using False by (simp add: assms(2) new_parser_def)
qed


section \<open>Bodies\<close>

definition body_limit :: "ResponseParser \<Rightarrow> nat" where
  "body_limit p = (if error_response p then kMaximumErrorResponseSize else pr_max_body_bytes p)"

text \<open>Where the body is when all of it was accepted.\<close>

definition with_body :: "bytes \<Rightarrow> ResponseParser \<Rightarrow> ResponseParser" where
  "with_body xs p =
     (let q = p\<lparr>pr_fallback_copied_bytes := pr_fallback_copied_bytes p + length xs, pr_body_bytes := pr_body_bytes p + length xs\<rparr>
      in if error_response p then q\<lparr>pr_body := pr_body p @ xs\<rparr>
         else case pr_staged p of
                Some ys \<Rightarrow> q\<lparr>pr_staged := Some (ys @ xs)\<rparr>
              | None \<Rightarrow>
                  (case pr_file p of
                     Some d \<Rightarrow> q\<lparr>pr_file := Some (sink_write d xs)\<rparr>
                   | None \<Rightarrow> (case pr_pipe p of
                       Some ys \<Rightarrow> q\<lparr>pr_pipe := Some (ys @ xs)\<rparr>
                     | None \<Rightarrow> q\<lparr>pr_body := pr_body p @ xs\<rparr>)))"

lemma with_body_frame [simp]:
  "error_response (with_body xs p) = error_response p" "body_limit (with_body xs p) = body_limit p"
  "pr_body_bytes (with_body xs p) = pr_body_bytes p + length xs"
  by (auto simp: with_body_def error_response_def body_limit_def Let_def split: option.split)

lemma with_body_append: "with_body ys (with_body xs p) = with_body (xs @ ys) p"
  by (auto simp: with_body_def error_response_def Let_def sink_write_append add.assoc split: option.splits)

lemma with_body_nil: "with_body [] p = p"
  by (cases p) (auto simp: with_body_def Let_def split: option.splits)

lemma write_range_file_all:
  assumes "write_range_file script d xs = Some (Inr (), d', s)"
  shows "d' = sink_write d xs"
  using assms exact_loop_moves [of script xs "length xs"]
  by (cases "exact_loop script xs (length xs)") (auto simp: write_range_file_def split: outcome.splits)

lemma body_sink_spec:
  assumes "body_sink stale script xs p = Some (r, q, s)"
  shows "pr_body_bytes q = pr_body_bytes p \<and> pr_fallback_copied_bytes q = pr_fallback_copied_bytes p \<and>
    (error_response p \<longrightarrow> r = Inr () \<and> pr_pipe q = pr_pipe p \<and> pr_file q = pr_file p \<and> pr_staged q = pr_staged p) \<and>
    (r = Inr () \<longrightarrow> with_body xs p = q\<lparr>pr_fallback_copied_bytes := pr_fallback_copied_bytes p + length xs, pr_body_bytes := pr_body_bytes p + length xs\<rparr>)"
proof (cases "error_response p \<or> pr_staged p \<noteq> None \<or> pr_pipe p = None \<and> pr_file p = None")
  case True
  then show ?thesis using assms by (auto simp: body_sink_def with_body_def Let_def split: if_splits option.splits)
next
  case False
  show ?thesis
  proof (cases "pr_file p")
    case None
    then obtain ys where pipe: "pr_pipe p = Some ys" using False by auto
    obtain zs left where w: "write_all stale script xs = Some (r, zs, left, s)" "q = p\<lparr>pr_pipe := Some (ys @ zs)\<rparr>"
      using assms False None pipe by (auto simp: body_sink_def)
    from write_all_exact [OF w(1)] have "r = Inr () \<longrightarrow> zs = xs" by auto
    then show ?thesis using False None pipe w(2) by (auto simp: with_body_def Let_def)
  next
    case (Some d)
    obtain d' where w: "write_range_file script d xs = Some (r, d', s)" "q = p\<lparr>pr_file := Some d'\<rparr>"
      using assms False Some by (auto simp: body_sink_def)
    then have "r = Inr () \<longrightarrow> d' = sink_write d xs" using write_range_file_all by auto
    then show ?thesis using False Some w(2) by (auto simp: with_body_def Let_def)
  qed
qed

text \<open>A span that is accepted is at the end of the body; one that is not leaves the counters and, in an error response, everything else.\<close>

lemma on_body_spec:
  assumes "on_body stale script xs p = Some (c, p', s)"
  shows "if c = HPE_OK then p' = with_body xs p \<and> pr_body_bytes p' \<le> body_limit p
    else c = HPE_USER \<and> pr_body_bytes p' = pr_body_bytes p \<and>
      (error_response p \<longrightarrow> pr_pipe p' = pr_pipe p \<and> pr_file p' = pr_file p \<and> pr_staged p' = pr_staged p)"
proof (cases "body_limit p < pr_body_bytes p \<or> body_limit p - pr_body_bytes p < length xs")
  case True
  then show ?thesis using assms by (auto simp: on_body_def body_limit_def Let_def)
next
  case False
  then obtain r q where sink: "body_sink stale script xs p = Some (r, q, s)"
    "(c, p') = (case r of Inl e \<Rightarrow> (HPE_USER, q\<lparr>pr_callback_error := Some e, pr_reason := ''HTTP/1.1 body sink failed''\<rparr>)
      | Inr _ \<Rightarrow> (HPE_OK, q\<lparr>pr_fallback_copied_bytes := pr_fallback_copied_bytes q + length xs, pr_body_bytes := pr_body_bytes q + length xs\<rparr>))"
    using assms by (auto simp: on_body_def body_limit_def Let_def split: option.splits sum.splits)
  note spec = body_sink_spec [OF sink(1)]
  show ?thesis
  proof (cases r)
    case (Inl e)
    then show ?thesis using spec sink(2) by auto
  next
    case (Inr u)
    then have "p' = with_body xs p" using spec sink(2) by simp
    then show ?thesis using False Inr sink(2) spec by auto
  qed
qed

text \<open>
  C40. A body arrives where it belongs, or is refused: as long as the spans are accepted, the bytes
  are, in order, at the end of the buffer, the file, the pipe or the response the caller chose;
  the body of an error response never reaches the place the caller gave for the object, whatever
  happens; and no more is accepted than the caller's limit, or 64 KiB of an error response.
\<close>

theorem response_body_goes_to_its_place:
  assumes "run_callbacks stale (map BodySpan xss) script p = Some (c, p', rest, s)"
  shows "(c = HPE_OK \<longrightarrow> p' = with_body (concat xss) p \<and> rest = []) \<and>
    (pr_body_bytes p \<le> body_limit p \<longrightarrow> pr_body_bytes p' \<le> body_limit p) \<and>
    (error_response p \<longrightarrow> pr_pipe p' = pr_pipe p \<and> pr_file p' = pr_file p \<and> pr_staged p' = pr_staged p)"
  using assms
proof (induction xss arbitrary: script p)
  case Nil
  then show ?case by (simp add: with_body_nil)
next
  case (Cons xs xss)
  obtain d q s1 where b: "on_body stale script xs p = Some (d, q, s1)"
    using Cons.prems by (cases "on_body stale script xs p") auto
  note spec = on_body_spec [OF b]
  show ?case
  proof (cases "d = HPE_OK")
    case False
    then show ?thesis using spec Cons.prems b by auto
  next
    case True
    then have q: "q = with_body xs p" "pr_body_bytes q \<le> body_limit p" using spec unfolding if_P [OF True] by blast+
    have same: "error_response p \<longrightarrow> pr_pipe q = pr_pipe p \<and> pr_file q = pr_file p \<and> pr_staged q = pr_staged p"
      unfolding q(1) by (simp add: with_body_def Let_def)
    have run: "run_callbacks stale (map BodySpan xss) s1 q = Some (c, p', rest, s)" using Cons.prems b True by simp
    from Cons.IH [OF run] q(2) same show ?thesis unfolding q(1) by (simp add: with_body_append)
  qed
qed



section \<open>A response\<close>

text \<open>A name and a value in two spans each, and a body of three bytes for a file.\<close>

definition ex_spans :: "(string list \<times> string list) list" where
  "ex_spans = [([''Content-'', ''Range''], [''bytes 0-'', ''2/9'']), ([''ETag''], [''x''])]"

definition ex_parser :: ResponseParser where
  "ex_parser = new_parser None (Some \<lparr>rf_file = (\<lambda>i. 0), rf_offset = 0\<rparr>) 3 False False True None"

theorem captured_headers_do_not_depend_on_spans_witness:
  "map_option (\<lambda>(c, p, rest). (c, pr_content_range p)) (run_callbacks 0 (header_events ex_spans) [] ex_parser) =
     Some (HPE_OK, ''bytes 0-2/9'')"
proof -
  have "list_all (\<lambda>(fs, vs). concat fs \<noteq> []) ex_spans" by (simp add: ex_spans_def)
  note run = captured_headers_do_not_depend_on_spans [OF this ex_parser_def refl, of 0 "[]"]
  have "header_map (map (\<lambda>(fs, vs). (concat fs, concat vs)) ex_spans) ''content-range'' = Some ''bytes 0-2/9''" by code_simp
  then show ?thesis unfolding run by simp
qed

definition ex_receiving :: ResponseParser where
  "ex_receiving = ex_parser\<lparr>pr_status := 206\<rparr>"

lemma ex_body_accepted:
  "\<exists>p' s. run_callbacks 0 (map BodySpan [[1, 2], [3]]) [Moved 1, Failed EINTR, Moved 1, Moved 1] ex_receiving = Some (HPE_OK, p', [], s)"
  by (simp add: ex_receiving_def ex_parser_def new_parser_def on_body_def error_response_def body_sink_def write_range_file_def
      exact_loop.simps EINTR_def)

theorem response_body_goes_to_its_place_witness:
  "\<exists>p' s. run_callbacks 0 (map BodySpan [[1, 2], [3]]) [Moved 1, Failed EINTR, Moved 1, Moved 1] ex_receiving = Some (HPE_OK, p', [], s) \<and>
     pr_file p' = Some (sink_write \<lparr>rf_file = (\<lambda>i. 0), rf_offset = 0\<rparr> [1, 2, 3])"
proof -
  from ex_body_accepted obtain p' s where
    run: "run_callbacks 0 (map BodySpan [[1, 2], [3]]) [Moved 1, Failed EINTR, Moved 1, Moved 1] ex_receiving = Some (HPE_OK, p', [], s)"
    by blast
  from response_body_goes_to_its_place [OF run] have "p' = with_body [1, 2, 3] ex_receiving" by simp
  then show ?thesis
    using run by (simp add: with_body_def ex_receiving_def ex_parser_def new_parser_def error_response_def)
qed

end
