(* ===== verification/Spec2Isabelle.thy ===== *)
theory Spec2Isabelle
  imports Checksum Cache_Entry_Rounds S3_Path S3_Sign S3_Xml Fuse_Lock Fuse_Open Fuse_Upload Fuse_Pool Fuse_Manifest Cred_Provider
    Cache_Capacity Io_Storage Http_Response
begin

text \<open>
  A verification library for ngs3fs, a FUSE client for S3 with a local disk cache (sources under
  \<^verbatim>\<open>src/src\<close>). This theory only imports the others and describes them.

  \<^bold>\<open>The program.\<close> A mount turns file system calls into requests to an S3 service.
  \<^verbatim>\<open>fuse.cpp\<close> serves the kernel: it lists directories, opens objects, reads them through the cache
  and uploads what is written. \<^verbatim>\<open>cache.cpp\<close> keeps generations of objects in sparse files, with a
  bitmap of their pages. \<^verbatim>\<open>s3.cpp\<close> signs requests, reads answers and computes checksums,
  \<^verbatim>\<open>credentials.cpp\<close> finds and refreshes credentials, \<^verbatim>\<open>http.cpp\<close> speaks HTTP, \<^verbatim>\<open>io.cpp\<close> moves
  bytes and limits the memory of read-ahead, \<^verbatim>\<open>fuse_reactor.cpp\<close> drives io_uring. A read takes a
  credential snapshot, leases a connection, signs and sends a request head, receives the body
  into a block or into the cache file, publishes the pages, verifies their checksums, and unpins
  them when the reply is out; the theories follow these parts.

  \<^bold>\<open>Base.\<close>
  \<^item> \<open>NG_Prelude\<close>: machine types, exceptions as values (\<open>result\<close>), the parts of the C and C++
    standard library on characters, strings and numbers that the sources use, the named theorem
    collections and the lemmas the components share.
  \<^item> \<open>Interleave\<close>: threads that share memory, one atomic access per step. Its locale
    \<open>thread_invariant\<close> is interpreted for the identity lock, the open handle and, twice, the
    connection pool. \<open>Memo\<close>: the contract of a one-entry cache, as the locale \<open>memo\<close>, interpreted
    for the time stamp (\<open>S3_Time\<close>), and, for a computation that may fail, as \<open>fallible_memo\<close>,
    interpreted for the signing key (\<open>S3_Sign\<close>).

  \<^bold>\<open>Service protocol (\<^verbatim>\<open>s3.cpp\<close>, \<^verbatim>\<open>s3.hpp\<close>).\<close>
  \<^item> \<open>Crc\<close>: table-driven CRC and CRC combination. They are the bit-serial CRC of the whole input
    (locale \<open>gf2_linear\<close>: the shift register is linear over GF(2)).
  \<^item> \<open>Checksum\<close>: algorithm names, header values, base64, and the multipart checksum that
    \<^verbatim>\<open>fuse.cpp\<close> combines from those of the parts: it is the checksum of the whole object.
  \<^item> \<open>S3_Path\<close>: percent encoding and its inverse, request paths, host names, content ranges.
    \<open>S3_Time\<close>: reading and writing times, against the Gregorian calendar.
  \<^item> \<open>S3_Sign\<close>: HMAC against RFC 2104, canonical headers, the fast path of a plain GET and the
    general path give the same signature, the cached signing key is transparent until a request
    of the thread fails, wherever the digest library fails.
  \<^item> \<open>S3_Xml\<close>: error documents, which answers are retried, the bounds of the retry loop and its
    ambiguity flag, on cancellation too.

  \<^bold>\<open>Credentials (\<^verbatim>\<open>credentials.cpp\<close>).\<close>
  \<^item> \<open>Cred_Time\<close>, \<open>Cred_Source\<close>, \<open>Cred_Load\<close>: expirations, credential documents, profile files,
    endpoints; every request is encrypted or stays on the machine or the link (stated with the
    tokens that a provider holds in \<open>Cred_Provider\<close>).
  \<^item> \<open>Cred_Provider\<close>: discovery, installation, the refresher as a step relation; what is handed
    out was checked, and a refresh is due before the expiry.

  \<^bold>\<open>Cache (\<^verbatim>\<open>cache.cpp\<close>, \<^verbatim>\<open>cache.hpp\<close>).\<close>
  \<^item> \<open>Cache_Pages\<close>: the two-bit page bitmap is an array of states (locale \<open>page_map\<close>).
    \<open>Cache_Meta\<close>: sizes, headers, file names.
  \<^item> \<open>Cache_Entry\<close>: one generation, every operation of \<^verbatim>\<open>class CacheEntry\<close> that changes it, each the
    critical section under its mutex. \<open>Cache_Entry_Lemmas\<close> is the arithmetic of pages and regions,
    \<open>Cache_Entry_Inv\<close>, \<open>Cache_Entry_Fetch\<close>, \<open>Cache_Entry_Verify\<close> and \<open>Cache_Entry_Write\<close> the
    invariant and that every operation of readers, writers and the cache keeps it,
    \<open>Cache_Entry_Steps\<close> the state machine of all of them, \<open>Cache_Entry_Example\<close> a run of it,
    \<open>Cache_Entry_Props\<close>, \<open>Cache_Entry_Safety\<close>, \<open>Cache_Entry_Live\<close> and \<open>Cache_Entry_Rounds\<close> what it
    promises: pinned bytes stay, pages have one owner, waiters are woken, retirement is final,
    fetched bytes become readable. The pins of the state are those taken of clean pages
    (\<open>pin_clean\<close>) and those taken without a check (\<open>pin\<close>, for recovery reads), which a fetch that
    was already under way may still undercut. A writer publishes alone: what it owes is
    \<open>next_write\<close>. \<open>discard_write\<close> and \<open>publish_dirty\<close> notify nobody, and are shown to need no
    notification where everything written is published.
  \<^item> \<open>Cache_Capacity\<close>: \<^verbatim>\<open>class LocalCache\<close> as far as space goes. The locale \<open>reservations\<close> is the
    contract of reserving, cancelling and finishing; a preparation may be charged more than it
    reserved, and the bound on the space says by how much. Eviction calls \<open>evict_one_region\<close> of the
    open generations, then scans the files of the others, opens and keeps what it finds
    (\<open>cold_visit\<close>), and the loop that reserves and evicts ends when it runs undisturbed.

  \<^bold>\<open>File system (\<^verbatim>\<open>fuse.cpp\<close>).\<close>
  \<^item> \<open>Fuse_List\<close>: directory listings; over a service that pages as documented, its elements in any
    order and with any others between them, a directory shows the bucket. \<open>Fuse_Manifest\<close>: the pages of the checksum manifest of an object.
  \<^item> \<open>Fuse_Lock\<close>, \<open>Fuse_Open\<close>, \<open>Fuse_Pool\<close>: the identity lock, the lifetime of an open handle and
    the HTTP connection pool, under every interleaving of their atomic accesses: exclusion, one
    retirement, no lost wake-up.
  \<^item> \<open>Fuse_Upload\<close>: the queues and slots of the upload scheduler.

  \<^bold>\<open>Bytes (\<^verbatim>\<open>io.cpp\<close>, \<^verbatim>\<open>http.cpp\<close>).\<close>
  \<^item> \<open>Io_Budget\<close>: the memory budget of read-ahead, every call with a limit of its own; \<open>Io_Storage\<close>: the receive blocks, whose free list
    is threaded through their memory, and the range storage over them, as a refinement of a byte
    sequence. The storage splits and gives back reservations of the budget.
  \<^item> \<open>Io_Loops\<close>: the loops around \<^verbatim>\<open>recv\<close>, \<^verbatim>\<open>send\<close>, \<^verbatim>\<open>splice\<close>, \<^verbatim>\<open>pwrite\<close> for any results of the calls.
  \<^item> \<open>Http_Head\<close>: request heads, checked or with trusted headers, read back by a reader of HTTP/1.1. \<open>Http_Response\<close>: the callbacks
    that capture headers and direct the body.

  \<^bold>\<open>How the code is rendered.\<close> Classes are records, exceptions are \<open>Inl\<close>. Unsigned 64-bit values
  are words where they are manipulated bitwise and natural numbers elsewhere, with \<open>wrap64\<close> at every
  addition the source does not guard. Methods under a mutex are one step. Lock-free code is one
  step per atomic access, with sequentially consistent memory: the weaker orders of the sources are
  not modelled. What is outside the sources is an argument: OpenSSL's and xxHash's digests, the
  documents of tinyxml2 and yyjson, the calls of llhttp, \<^verbatim>\<open>inet_pton\<close>, clocks, files, \<^verbatim>\<open>mmap\<close>,
  the answers of the service and of system calls; what is assumed of them (digests that
  are values of one function, a listing that pages as S3 documents) is a
  premise of the theorem that uses it, with an instance in its witness.

  \<^bold>\<open>Bounds.\<close> Loops over input are total functions with a measure. The two loops that talk to a
  service until it is done are \<open>partial_function\<close>s over \<open>option\<close> and proved to return: the manifest
  after at most 10,001 requests, the listing over every service that pages. The retry loop is
  bounded by its four attempts. Loops over system calls take a list of results and are \<open>None\<close>
  when it is too short; \<open>Io_Loops\<close> and \<open>Cache_Capacity\<close> say how long is enough. The lock is used by
  fewer than \<open>2^31\<close> threads, and a sleeper is woken before \<open>2^32\<close> further notifications; a calendar
  year is one of \<^verbatim>\<open>std::chrono\<close>; the counter of released connections is unbounded; fewer than
  \<open>2^32\<close> requests wait on one generation.

  \<^bold>\<open>Not modelled.\<close> The event loop and the kernel protocol of \<^verbatim>\<open>fuse_reactor.cpp\<close>, the io_uring
  executor, the pools of memory files and pipes and the connection set-up of \<^verbatim>\<open>io.cpp\<close>, TLS, HTTP/2
  over nghttp2 and the sending and receiving of requests in \<^verbatim>\<open>http.cpp\<close>: they are sequences of system
  calls and library calls whose effect is outside the program. Of \<^verbatim>\<open>cache.cpp\<close> the
  naming, journalling and recovery of files on disk, the reset of files that do not match the
  object, and the asynchronous operations that repeat the synchronous ones as chains of completions. Of
  \<^verbatim>\<open>fuse.cpp\<close> the inode table, the handlers, the readers and writers and the parsing of mount
  options. \<^verbatim>\<open>main.cpp\<close> starts the program.
\<close>

end
